(* ===== verification/Prelude.thy ===== *)
theory Prelude
  imports Main "HOL-Library.Word"
begin

unbundle bit_operations_syntax

text \<open>
  The shared layer of the development: the machine types and the error values of
  \<^verbatim>\<open>capnp/src/lib.rs\<close>, the outcome of a Rust computation (a value, an \<open>Err\<close>, a panic, or
  undefined behaviour), the state-passing programs that the components are written in, a
  weakest-precondition calculus for them, and the generic list lemmas that the component
  proofs use.
\<close>

section \<open>Machine types\<close>

type_synonym u8 = "8 word"
type_synonym u16 = "16 word"
type_synonym u32 = "32 word"
type_synonym u64 = "64 word"

text \<open>The collections of facts that the component proofs draw on.\<close>

named_theorems wp_rules \<open>weakest-precondition rules, one per program construct or operation\<close>
named_theorems unit_simps \<open>the constants of units.rs\<close>

section \<open>Errors and outcomes\<close>

text \<open>
  The variants of \<^verbatim>\<open>ErrorKind\<close> (\<^verbatim>\<open>capnp/src/lib.rs\<close>); of a \<open>Utf8Error\<close> only the position up
  to which the text is valid is kept.
\<close>

datatype (plugins only: code size) error_kind =
    Failed
  | Overloaded
  | Disconnected
  | Unimplemented
  | BufferNotLargeEnough
  | CannotCreateACanonicalMessageWithACapability
  | CannotSetAnyPointerFieldToAPrimitiveValue
  | CantHandleNonStructInlineComposite
  | EmptyBuffer
  | EmptySlice
  | EnumValueOrUnionDiscriminantNotPresent u16
  | ExistingListPointerIsNotByteSized
  | ExistingListValueIsIncompatibleWithExpectedType
  | ExistingPointerIsNotAList
  | ExpectedAListOrBlob
  | ExpectedAPointerListButGotAListOfDataOnlyStructs
  | ExpectedAPrimitiveListButGotAListOfPointerOnlyStructs
  | FailedToFillTheWholeBuffer
  | FieldAndDefaultMismatch
  | FieldNotFound
  | FoundBitListWhereStructListWasExpected
  | FoundStructListWhereBitListWasExpected
  | FourByteLengthTooBigForUSize
  | FourByteSegmentLengthTooBigForUSize
  | GroupFieldButTypeIsNotStruct
  | InitIsOnlyValidForStructAndAnyPointerFields
  | InitnIsOnlyValidForListTextOrDataFields
  | InlineCompositeListWithNonStructElementsNotSupported
  | InlineCompositeListsElementsOverrunItsWordCount
  | InlineCompositeListsOfNonStructTypeAreNotSupported
  | InvalidNumberOfSegments nat
  | InvalidSegmentId u32
  | ListAnyPointerNotSupported
  | ListCapabilityNotSupported
  | MalformedDoubleFarPointer
  | MessageContainsInvalidCapabilityPointer
  | MessageContainsListPointerOfNonBytesWhereDataWasExpected
  | MessageContainsListPointerOfNonBytesWhereTextWasExpected
  | MessageContainsListWithIncompatibleElementType
  | MessageContainsNonCapabilityPointerWhereCapabilityPointerWasExpected
  | MessageContainsNonStructPointerWhereStructPointerWasExpected
  | MessageContainsNonListPointerWhereDataWasExpected
  | MessageContainsNonListPointerWhereListPointerWasExpected
  | MessageContainsNonListPointerWhereTextWasExpected
  | MessageContainsNullCapabilityPointer
  | MessageContainsOutOfBoundsPointer
  | MessageContainsTextThatIsNotNULTerminated
  | MessageEndsPrematurely nat nat
  | MessageIsTooDeeplyNested
  | MessageIsTooDeeplyNestedOrContainsCycles
  | MessageNotAlignedBy8BytesBoundary
  | MessageSizeOverflow
  | MessageTooLarge nat
  | NestingLimitExceeded
  | NotAStruct
  | OnlyOneOfTheSectionPointersIsPointingToOurself
  | PackedInputDidNotEndCleanlyOnASegmentBoundary
  | PrematureEndOfFile
  | PrematureEndOfPackedInput
  | ReadLimitExceeded
  | SettingDynamicCapabilitiesIsUnsupported
  | StructReaderHadBitwidthOtherThan1
  | TextBlobMissingNULTerminator
  | TextContainsNonUtf8Data nat
  | TriedToReadFromNullArena
  | TypeMismatch
  | UnalignedSegment
  | UnexpectedFarPointer
  | UnknownPointerType

text \<open>
  What a Rust call produces. \<open>Panic\<close> is a failed \<open>assert!\<close>, an out-of-range slice index or
  an explicit \<open>panic!\<close>; \<open>UB\<close> is the dereference of a raw pointer outside the memory it
  may touch.
\<close>

datatype 'a outcome = Ok 'a | Err error_kind | Panic | UB

section \<open>Programs\<close>

text \<open>
  A program passes a state along and produces an outcome. The state is also returned with a
  failure: what was written before an early return stays written.
\<close>

type_synonym ('s, 'a) prog = "'s \<Rightarrow> 'a outcome \<times> 's"

definition ret :: "'a \<Rightarrow> ('s, 'a) prog" where
  "ret x s = (Ok x, s)"

definition err :: "error_kind \<Rightarrow> ('s, 'a) prog" where
  "err e s = (Err e, s)"

definition panic :: "('s, 'a) prog" where
  "panic s = (Panic, s)"

definition ub :: "('s, 'a) prog" where
  "ub s = (UB, s)"

definition bindp :: "('s, 'a) prog \<Rightarrow> ('a \<Rightarrow> ('s, 'b) prog) \<Rightarrow> ('s, 'b) prog" where
  "bindp m f s = (case m s of
     (Ok x, t) \<Rightarrow> f x t
   | (Err e, t) \<Rightarrow> (Err e, t)
   | (Panic, t) \<Rightarrow> (Panic, t)
   | (UB, t) \<Rightarrow> (UB, t))"

definition seqp :: "('s, 'a) prog \<Rightarrow> ('s, 'b) prog \<Rightarrow> ('s, 'b) prog" where
  "seqp m n = bindp m (\<lambda>_. n)"

definition gets :: "('s \<Rightarrow> 'a) \<Rightarrow> ('s, 'a) prog" where
  "gets f s = (Ok (f s), s)"

definition modifyp :: "('s \<Rightarrow> 's) \<Rightarrow> ('s, unit) prog" where
  "modifyp f s = (Ok (), f s)"

definition assertp :: "bool \<Rightarrow> ('s, unit) prog" where
  "assertp b = (if b then ret () else panic)"

definition of_outcome :: "'a outcome \<Rightarrow> ('s, 'a) prog" where
  "of_outcome r s = (r, s)"

definition of_option :: "'a option \<Rightarrow> ('s, 'a) prog \<Rightarrow> ('s, 'a) prog" where
  "of_option r n = (case r of Some x \<Rightarrow> ret x | None \<Rightarrow> n)"

text \<open>The equations that run a program on a given state.\<close>

lemmas run_simps = bindp_def seqp_def ret_def err_def panic_def ub_def gets_def modifyp_def
  assertp_def of_outcome_def of_option_def Let_def

text \<open>A \<open>for\<close> loop over a list of indices, with an accumulator.\<close>

primrec foldp :: "('a \<Rightarrow> 'b \<Rightarrow> ('s, 'b) prog) \<Rightarrow> 'a list \<Rightarrow> 'b \<Rightarrow> ('s, 'b) prog" where
  "foldp f [] acc = ret acc"
| "foldp f (x # xs) acc = bindp (f x acc) (\<lambda>acc'. foldp f xs acc')"

lemma ret_bindp [simp]: "bindp (ret x) f = f x"
  by (rule ext) (simp add: bindp_def ret_def)

lemma bindp_ret [simp]: "bindp m ret = m"
  by (rule ext) (auto simp: bindp_def ret_def split: prod.splits outcome.splits)

lemma bindp_Ok: "m s = (Ok x, t) \<Longrightarrow> bindp m f s = f x t"
  by (simp add: bindp_def)

lemma bindp_Err: "m s = (Err e, t) \<Longrightarrow> bindp m f s = (Err e, t)"
  by (simp add: bindp_def)

lemma bindp_Panic: "m s = (Panic, t) \<Longrightarrow> bindp m f s = (Panic, t)"
  by (simp add: bindp_def)

lemma seqp_Ok: "m s = (Ok x, t) \<Longrightarrow> seqp m n s = n t"
  by (simp add: seqp_def bindp_def)

lemma ret_seqp [simp]: "seqp (ret x) n = n"
  by (simp add: seqp_def)

lemma bindp_assoc: "bindp (bindp m f) g = bindp m (\<lambda>x. bindp (f x) g)"
  by (rule ext) (auto simp: bindp_def split: prod.splits outcome.splits)

lemma err_bindp [simp]: "bindp (err e) f = err e"
  by (rule ext) (simp add: bindp_def err_def)

lemma panic_bindp [simp]: "bindp panic f = panic"
  by (rule ext) (simp add: bindp_def panic_def)

lemma ub_bindp [simp]: "bindp ub f = ub"
  by (rule ext) (simp add: bindp_def ub_def)

lemma of_outcome_Ok [simp]: "of_outcome (Ok x) = ret x"
  by (rule ext) (simp add: of_outcome_def ret_def)

lemma seqp_ret_unit [simp]: "seqp m (ret ()) = m"
  by (rule ext) (auto simp: seqp_def bindp_def ret_def split: prod.splits outcome.splits)

lemma assertp_simps [simp]: "assertp True = ret ()" "assertp False = panic"
  by (simp_all add: assertp_def)

lemma bindp_cong [fundef_cong]:
  assumes "m s = m' s" and "\<And>x t. m' s = (Ok x, t) \<Longrightarrow> f x t = f' x t"
  shows "bindp m f s = bindp m' f' s"
  using assms by (auto simp: bindp_def split: prod.splits outcome.splits)

text \<open>
  The congruence rule that lets a recursive call stand in the body of a loop: the body is
  only run on the elements of the list.
\<close>

lemma foldp_cong [fundef_cong]:
  assumes "xs = ys" and "\<And>x acc t. x \<in> set ys \<Longrightarrow> f x acc t = g x acc t"
  shows "foldp f xs acc s = foldp g ys acc s"
  using assms(2) unfolding assms(1)
  by (induction ys arbitrary: acc s) (auto intro!: bindp_cong)

lemma foldp_append: "foldp f (xs @ ys) acc = bindp (foldp f xs acc) (foldp f ys)"
  by (induction xs arbitrary: acc) (simp_all add: bindp_assoc)

lemma foldp_snoc: "foldp f (xs @ [x]) acc = bindp (foldp f xs acc) (f x)"
proof -
  have "foldp f [x] = f x" by (rule ext) simp
  then show ?thesis by (simp only: foldp_append)
qed

text \<open>The same rules for programs that are not yet applied to a state.\<close>

lemma bindp_cong_prog [fundef_cong]:
  assumes "m = m'" and "\<And>x. f x = f' x"
  shows "bindp m f = bindp m' f'"
proof -
  have "f = f'" by (rule ext) (rule assms(2))
  then show ?thesis using assms(1) by simp
qed

lemma seqp_cong_prog [fundef_cong]: "m = m' \<Longrightarrow> n = n' \<Longrightarrow> seqp m n = seqp m' n'"
  by simp

lemma foldp_cong_prog [fundef_cong]:
  assumes "xs = ys" and "\<And>x acc. x \<in> set ys \<Longrightarrow> f x acc = g x acc" and "acc = acc'"
  shows "foldp f xs acc = foldp g ys acc'"
  by (rule ext) (use assms in \<open>auto intro!: foldp_cong\<close>)

section \<open>Properties of the state that a program keeps\<close>

definition keeps :: "('s \<Rightarrow> bool) \<Rightarrow> ('s, 'a) prog \<Rightarrow> bool" where
  "keeps P m \<longleftrightarrow> (\<forall>s. P s \<longrightarrow> P (snd (m s)))"

lemma keeps_simple [intro]:
  "keeps P (ret x)" "keeps P (err e)" "keeps P panic" "keeps P ub" "keeps P (gets f)" "keeps P (of_outcome r)"
  by (simp_all add: keeps_def ret_def err_def panic_def ub_def gets_def of_outcome_def)

lemma keeps_bindp [intro]: "keeps P m \<Longrightarrow> (\<And>x. keeps P (f x)) \<Longrightarrow> keeps P (bindp m f)"
  by (fastforce simp: keeps_def bindp_def split: prod.splits outcome.splits)

lemma keeps_seqp [intro]: "keeps P m \<Longrightarrow> keeps P n \<Longrightarrow> keeps P (seqp m n)"
  unfolding seqp_def by (rule keeps_bindp)

lemma keeps_foldp [intro]: "(\<And>x a. keeps P (f x a)) \<Longrightarrow> keeps P (foldp f xs acc)"
  by (induction xs arbitrary: acc) (auto intro!: keeps_bindp keeps_simple)

lemma keepsD: "keeps P m \<Longrightarrow> P s \<Longrightarrow> m s = (r, t) \<Longrightarrow> P t"
  unfolding keeps_def by (metis snd_conv)

section \<open>Weakest preconditions\<close>

text \<open>
  \<open>wp m Q E s\<close>: from \<open>s\<close> the program does not run into undefined behaviour, an \<open>Ok\<close> result
  satisfies \<open>Q\<close>, and a failure satisfies \<open>E\<close> (\<open>E (Some e)\<close> for \<open>Err e\<close>, \<open>E None\<close> for a panic).
\<close>

definition wp :: "('s, 'a) prog \<Rightarrow> ('a \<Rightarrow> 's \<Rightarrow> bool) \<Rightarrow> (error_kind option \<Rightarrow> 's \<Rightarrow> bool) \<Rightarrow> 's \<Rightarrow> bool"
  where
  "wp m Q E s \<longleftrightarrow> (case m s of
     (Ok x, t) \<Rightarrow> Q x t
   | (Err e, t) \<Rightarrow> E (Some e) t
   | (Panic, t) \<Rightarrow> E None t
   | (UB, t) \<Rightarrow> False)"

lemma wp_conseq:
  assumes "wp m Q E s" and "\<And>x t. Q x t \<Longrightarrow> Q' x t" and "\<And>e t. E e t \<Longrightarrow> E' e t"
  shows "wp m Q' E' s"
  using assms by (auto simp: wp_def split: prod.splits outcome.splits)

lemma wp_conj:
  assumes "wp m Q E s" and "wp m Q' E' s"
  shows "wp m (\<lambda>x t. Q x t \<and> Q' x t) (\<lambda>e t. E e t \<and> E' e t) s"
  using assms by (auto simp: wp_def split: prod.splits outcome.splits)

lemma wp_ret [wp_rules]: "Q x s \<Longrightarrow> wp (ret x) Q E s"
  by (simp add: wp_def ret_def)

lemma wp_err [wp_rules]: "E (Some e) s \<Longrightarrow> wp (err e) Q E s"
  by (simp add: wp_def err_def)

lemma wp_panic [wp_rules]: "E None s \<Longrightarrow> wp panic Q E s"
  by (simp add: wp_def panic_def)

lemma wp_bindp [wp_rules]: "wp m (\<lambda>x. wp (f x) Q E) E s \<Longrightarrow> wp (bindp m f) Q E s"
  by (auto simp: wp_def bindp_def split: prod.splits outcome.splits)

lemma wp_seqp [wp_rules]: "wp m (\<lambda>_. wp n Q E) E s \<Longrightarrow> wp (seqp m n) Q E s"
  by (simp add: seqp_def wp_bindp)

lemma wp_gets [wp_rules]: "Q (f s) s \<Longrightarrow> wp (gets f) Q E s"
  by (simp add: wp_def gets_def)

lemma wp_modifyp [wp_rules]: "Q () (f s) \<Longrightarrow> wp (modifyp f) Q E s"
  by (simp add: wp_def modifyp_def)

lemma wp_if [wp_rules]:
  "(b \<Longrightarrow> wp m Q E s) \<Longrightarrow> (\<not> b \<Longrightarrow> wp n Q E s) \<Longrightarrow> wp (if b then m else n) Q E s"
  by simp

lemma wp_prod [wp_rules]:
  "(\<And>a b. p = (a, b) \<Longrightarrow> wp (f a b) Q E s) \<Longrightarrow> wp (case p of (a, b) \<Rightarrow> f a b) Q E s"
  by (cases p) simp

lemma wp_option [wp_rules]:
  "(\<And>x. r = Some x \<Longrightarrow> wp (f x) Q E s) \<Longrightarrow> (r = None \<Longrightarrow> wp n Q E s) \<Longrightarrow>
   wp (case r of Some x \<Rightarrow> f x | None \<Rightarrow> n) Q E s"
  by (cases r) simp_all

lemma wp_assertp [wp_rules]:
  "(b \<Longrightarrow> Q () s) \<Longrightarrow> (\<not> b \<Longrightarrow> E None s) \<Longrightarrow> wp (assertp b) Q E s"
  by (simp add: wp_def assertp_def ret_def panic_def)

lemma wp_let [wp_rules]: "(\<And>x. x = a \<Longrightarrow> wp (f x) Q E s) \<Longrightarrow> wp (let x = a in f x) Q E s"
  by simp

text \<open>The loop rule: an invariant on accumulator and state that every iteration keeps.\<close>

lemma wp_foldp:
  assumes "I acc s"
    and "\<And>x a t. x \<in> set xs \<Longrightarrow> I a t \<Longrightarrow> wp (f x a) I E t"
  shows "wp (foldp f xs acc) I E s"
  using assms
proof (induction xs arbitrary: acc s)
  case Nil
  then show ?case by (simp add: wp_ret)
next
  case (Cons x xs)
  have "wp (f x acc) I E s" using Cons.prems by simp
  then have "wp (f x acc) (\<lambda>a. wp (foldp f xs a) I E) E s"
    by (rule wp_conseq) (use Cons in auto)
  then show ?case by (simp add: wp_bindp)
qed

lemma wp_OkD: "wp m Q E s \<Longrightarrow> m s = (Ok x, t) \<Longrightarrow> Q x t"
  by (simp add: wp_def)

lemma wp_not_UB: "wp m Q E s \<Longrightarrow> fst (m s) \<noteq> UB"
  by (auto simp: wp_def split: prod.splits outcome.splits)

lemma wp_not_Panic: "wp m Q (\<lambda>e t. e \<noteq> None \<and> E e t) s \<Longrightarrow> fst (m s) \<noteq> Panic"
  by (auto simp: wp_def split: prod.splits outcome.splits)

section \<open>Lists of bytes\<close>

text \<open>The sub-list of length \<open>n\<close> at offset \<open>i\<close>: Rust's \<open>&xs[i..i + n]\<close>, when in range.\<close>

definition take_at :: "nat \<Rightarrow> nat \<Rightarrow> 'a list \<Rightarrow> 'a list" where
  "take_at i n xs = take n (drop i xs)"

text \<open>\<open>copy_from_slice\<close> or \<open>ptr::copy_nonoverlapping\<close> into \<open>xs\<close> at offset \<open>i\<close>.\<close>

definition write_at :: "nat \<Rightarrow> 'a list \<Rightarrow> 'a list \<Rightarrow> 'a list" where
  "write_at i ys xs = take i xs @ ys @ drop (i + length ys) xs"

lemma length_take_at [simp]: "length (take_at i n xs) = min n (length xs - i)"
  by (simp add: take_at_def min.commute)

lemma length_write_at [simp]: "i + length ys \<le> length xs \<Longrightarrow> length (write_at i ys xs) = length xs"
  by (simp add: write_at_def)

lemma take_at_write_at_same: "i + length ys \<le> length xs \<Longrightarrow> take_at i (length ys) (write_at i ys xs) = ys"
  by (simp add: take_at_def write_at_def)

lemma nth_write_at:
  assumes "i + length ys \<le> length xs" and "k < length xs"
  shows "write_at i ys xs ! k = (if i \<le> k \<and> k < i + length ys then ys ! (k - i) else xs ! k)"
  using assms by (auto simp: write_at_def nth_append min_def)

lemma nth_take_at: "k < n \<Longrightarrow> i + n \<le> length xs \<Longrightarrow> take_at i n xs ! k = xs ! (i + k)"
  by (simp add: take_at_def)

lemma take_at_write_at_disjoint:
  assumes "i + length ys \<le> length xs" and "j + n \<le> length xs"
    and "j + n \<le> i \<or> i + length ys \<le> j"
  shows "take_at j n (write_at i ys xs) = take_at j n xs"
  by (rule nth_equalityI) (use assms in \<open>auto simp: nth_take_at nth_write_at\<close>)

lemma take_at_0 [simp]: "take_at i 0 xs = []"
  by (simp add: take_at_def)

lemma take_at_append_left: "i + n \<le> length xs \<Longrightarrow> take_at i n (xs @ ys) = take_at i n xs"
  by (simp add: take_at_def)

lemma take_at_append_right: "take_at (length xs + i) n (xs @ ys) = take_at i n ys"
  by (simp add: take_at_def)

end
