(* ===== verification/Read_Limiter.thy ===== *)
theory Read_Limiter
  imports Prelude
begin

text \<open>
  \<^verbatim>\<open>capnp/src/private/read_limiter.rs\<close>, module \<open>unsync\<close> (the default build): the counter that
  bounds how much of a message can be traversed. Shown: with a limit, the amounts that are ever
  accepted sum up to at most the limit, whatever the sequence of requests; without a limit no
  request is refused.
\<close>

record read_limiter =
  limit :: u64
  error_on_limit_exceeded :: bool

text \<open>\<open>ReadLimiter::new\<close>; without a limit the counter starts at \<open>usize::MAX\<close>.\<close>

definition read_limiter_new :: "u64 option \<Rightarrow> read_limiter" where
  "read_limiter_new l = (case l of
     Some v \<Rightarrow> \<lparr>limit = v, error_on_limit_exceeded = True\<rparr>
   | None \<Rightarrow> \<lparr>limit = - 1, error_on_limit_exceeded = False\<rparr>)"

text \<open>\<open>can_read\<close>: the subtraction is \<open>wrapping_sub\<close>, and only an unlimited counter can wrap.\<close>

definition can_read :: "u64 \<Rightarrow> (read_limiter, unit) prog" where
  "can_read amount l =
     (let current = limit l in
      if amount > current \<and> error_on_limit_exceeded l
      then (Err ReadLimitExceeded, l)
      else (Ok (), l\<lparr>limit := current - amount\<rparr>))"

text \<open>The amounts accepted out of a sequence of requests, refused ones being skipped.\<close>

fun accepted :: "u64 list \<Rightarrow> read_limiter \<Rightarrow> nat \<times> read_limiter" where
  "accepted [] l = (0, l)"
| "accepted (a # as) l = (case can_read a l of
     (Ok _, l') \<Rightarrow> (let (n, l'') = accepted as l' in (unat a + n, l''))
   | (_, l') \<Rightarrow> accepted as l')"

lemma can_read_limited:
  assumes "error_on_limit_exceeded l"
  shows "can_read a l = (if unat a \<le> unat (limit l) then (Ok (), l\<lparr>limit := limit l - a\<rparr>)
    else (Err ReadLimitExceeded, l))"
  using assms by (auto simp: can_read_def Let_def word_less_nat_alt word_le_nat_alt)

lemma can_read_keeps_mode: "error_on_limit_exceeded (snd (can_read a l)) = error_on_limit_exceeded l"
  by (simp add: can_read_def Let_def)

text \<open>What is accepted and what is left add up to the starting limit.\<close>

lemma accepted_balance:
  assumes "error_on_limit_exceeded l"
  shows "fst (accepted as l) + unat (limit (snd (accepted as l))) = unat (limit l)"
  using assms
proof (induction as arbitrary: l)
  case Nil
  then show ?case by simp
next
  case (Cons a as)
  show ?case
  proof (cases "unat a \<le> unat (limit l)")
    case True
    let ?l = "l\<lparr>limit := limit l - a\<rparr>"
    have "unat (limit l - a) = unat (limit l) - unat a"
      using True by (simp add: unat_sub word_le_nat_alt)
    moreover have "fst (accepted as ?l) + unat (limit (snd (accepted as ?l))) = unat (limit ?l)"
      using Cons.prems by (intro Cons.IH) simp
    ultimately show ?thesis
      using True Cons.prems by (auto simp: can_read_limited split: prod.splits)
  next
    case False
    then show ?thesis using Cons by (simp add: can_read_limited)
  qed
qed

text \<open>C14: With a traversal limit, the words accepted over any sequence of read requests never
  exceed the limit: the counter cannot be driven around by wrapping.\<close>

theorem read_limiter_bounds_total:
  "fst (accepted requests (read_limiter_new (Some l))) \<le> unat l"
  using accepted_balance [of "read_limiter_new (Some l)" requests]
  by (simp add: read_limiter_new_def)

lemma unlimited_never_refuses: "fst (can_read a (l\<lparr>error_on_limit_exceeded := False\<rparr>)) = Ok ()"
  by (simp add: can_read_def Let_def)

end
