(* ===== verification/Primitive.thy ===== *)
theory Primitive
  imports Prelude
begin

unbundle bit_operations_syntax

text \<open>
  The units of \<^verbatim>\<open>capnp/src/private/units.rs\<close>, the little-endian integers of
  \<^verbatim>\<open>capnp/src/private/primitive.rs\<close> and the default-value masks of
  \<^verbatim>\<open>capnp/src/private/mask.rs\<close>. Shown: reading back what was written gives the value, writing
  back what was read gives the bytes, and masking twice with the same mask is the identity.
\<close>

section \<open>Units\<close>

definition BITS_PER_BYTE :: nat where [simp, unit_simps]: "BITS_PER_BYTE = 8"
definition BITS_PER_WORD :: nat where [simp, unit_simps]: "BITS_PER_WORD = 64"
definition BYTES_PER_WORD :: nat where [simp, unit_simps]: "BYTES_PER_WORD = 8"
definition BITS_PER_POINTER :: nat where [simp, unit_simps]: "BITS_PER_POINTER = 64"
definition WORDS_PER_POINTER :: nat where [simp, unit_simps]: "WORDS_PER_POINTER = 1"
definition POINTER_SIZE_IN_WORDS :: nat where [simp, unit_simps]: "POINTER_SIZE_IN_WORDS = 1"

text \<open>Bits of an element type of \<open>n\<close> bytes (\<open>bits_per_element::<T>()\<close>).\<close>

definition bits_per_element :: "nat \<Rightarrow> nat" where
  "bits_per_element size_of_T = 8 * size_of_T"

section \<open>Little-endian values\<close>

text \<open>
  \<open>from_le_bytes\<close> and \<open>to_le_bytes\<close>: \<open>Primitive::get\<close> and \<open>Primitive::set\<close> of an integer of
  \<open>n\<close> bytes. A two's complement value has the same bytes as its word.
\<close>

fun from_le_bytes :: "u8 list \<Rightarrow> 'a::len word" where
  "from_le_bytes [] = 0"
| "from_le_bytes (b # bs) = ucast b OR push_bit 8 (from_le_bytes bs)"

fun to_le_bytes :: "nat \<Rightarrow> 'a::len word \<Rightarrow> u8 list" where
  "to_le_bytes 0 w = []"
| "to_le_bytes (Suc n) w = ucast w # to_le_bytes n (drop_bit 8 w)"

lemma length_to_le_bytes [simp]: "length (to_le_bytes n w) = n"
  by (induction n arbitrary: w) simp_all

lemma from_to_le_bytes: "from_le_bytes (to_le_bytes n w) = take_bit (8 * n) w"
proof (induction n arbitrary: w)
  case 0
  then show ?case by simp
next
  case (Suc n)
  show ?case
    by (rule bit_word_eqI)
      (auto simp: Suc bit_simps not_less le_add_diff_inverse)
qed

lemma from_to_le_bytes_id [simp]:
  assumes "LENGTH('a) \<le> 8 * n"
  shows "from_le_bytes (to_le_bytes n w) = (w :: 'a::len word)"
  using assms by (simp add: from_to_le_bytes take_bit_word_eq_self)

lemma to_from_le_bytes [simp]:
  assumes "length bs = n" and "8 * n \<le> LENGTH('a)"
  shows "to_le_bytes n (from_le_bytes bs :: 'a::len word) = bs"
  using assms
proof (induction bs arbitrary: n)
  case Nil
  then show ?case by simp
next
  case (Cons b bs)
  then obtain m where n: "n = Suc m" and m: "length bs = m" by auto
  have low: "ucast (ucast b OR push_bit 8 (from_le_bytes bs) :: 'a word) = b"
    by (rule bit_word_eqI) (use Cons.prems n in \<open>auto simp: bit_simps\<close>)
  have bound: "take_bit (8 * m) (from_le_bytes bs :: 'a word) = from_le_bytes bs"
    using Cons.IH [OF m] Cons.prems n
    by (metis from_to_le_bytes le_add2 le_trans mult_Suc_right)
  have high: "drop_bit 8 (ucast b OR push_bit 8 (from_le_bytes bs) :: 'a word) = from_le_bytes bs"
  proof (rule bit_word_eqI)
    fix k assume "k < LENGTH('a)"
    have "\<not> bit (from_le_bytes bs :: 'a word) k" if "8 * m \<le> k"
      using bound that by (metis bit_take_bit_iff not_less)
    then show "bit (drop_bit 8 (ucast b OR push_bit 8 (from_le_bytes bs) :: 'a word)) k =
        bit (from_le_bytes bs :: 'a word) k"
      using Cons.prems n m bit_imp_le_length [of b "8 + k"] by (auto simp: bit_simps)
  qed
  show ?case
    unfolding n from_le_bytes.simps to_le_bytes.simps low high
    using Cons.IH [OF m] Cons.prems n by simp
qed

text \<open>The bytes of a 32-bit value, for evaluation.\<close>

lemma to_le_bytes_4: "to_le_bytes 4 w = [ucast w, ucast (drop_bit 8 w), ucast (drop_bit 16 w), ucast (drop_bit 24 w)]"
  by (simp add: numeral_eq_Suc drop_bit_drop_bit)

section \<open>Masks\<close>

text \<open>\<open>Mask::mask\<close> of an integer field with its default value; a float is masked on its bits.\<close>

definition mask_value :: "'a::len word \<Rightarrow> 'a word \<Rightarrow> 'a word" where
  "mask_value v m = v XOR m"

lemma mask_value_involution [simp]: "mask_value (mask_value v m) m = v"
  by (simp add: mask_value_def xor.assoc)

end
