(* ===== verification/Allocator.thy ===== *)
theory Allocator
  imports Primitive
begin

text \<open>
  The segment allocators of \<^verbatim>\<open>capnp/src/message.rs\<close>: \<open>HeapAllocator\<close>,
  \<open>ScratchSpaceHeapAllocator\<close> and \<open>SingleSegmentAllocator\<close>. A block of memory is its bytes and
  where it came from: the buffer the caller lent to the allocator, or the heap. Arithmetic on
  \<open>u32\<close> that would overflow is a panic, as with overflow checks on.

  Shown: an allocated block is zeroed and has at least the requested size, the heap allocator
  keeps its next size within the maximum while it only allocates, and the caller's buffer is
  zero again after deallocation.
\<close>

datatype allocation_strategy = FixedSize | GrowHeuristically

datatype seg_ptr = CallerBuffer | HeapBlock

definition SUGGESTED_FIRST_SEGMENT_WORDS :: nat where "SUGGESTED_FIRST_SEGMENT_WORDS = 1024"
definition SUGGESTED_ALLOCATION_STRATEGY :: allocation_strategy where
  "SUGGESTED_ALLOCATION_STRATEGY = GrowHeuristically"

record heap_allocator =
  next_size :: nat
  strategy :: allocation_strategy
  max_segment_words :: nat

definition heap_allocator_default :: heap_allocator where
  "heap_allocator_default =
     \<lparr>next_size = SUGGESTED_FIRST_SEGMENT_WORDS, strategy = SUGGESTED_ALLOCATION_STRATEGY,
      max_segment_words = 2 ^ 29\<rparr>"

definition heap_first_segment_words :: "nat \<Rightarrow> heap_allocator \<Rightarrow> heap_allocator outcome" where
  "heap_first_segment_words v h =
     (if v \<le> max_segment_words h then Ok (h\<lparr>next_size := v\<rparr>) else Panic)"

definition heap_allocation_strategy :: "allocation_strategy \<Rightarrow> heap_allocator \<Rightarrow> heap_allocator" where
  "heap_allocation_strategy v h = h\<lparr>strategy := v\<rparr>"

definition heap_max_segment_words :: "nat \<Rightarrow> heap_allocator \<Rightarrow> heap_allocator outcome" where
  "heap_max_segment_words v h =
     (if next_size h \<le> v then Ok (h\<lparr>max_segment_words := v\<rparr>) else Panic)"

text \<open>\<open>HeapAllocator::allocate_segment\<close>; the subtraction panics when the next size exceeds the
  maximum.\<close>

definition heap_allocate_segment :: "nat \<Rightarrow> (heap_allocator, seg_ptr \<times> u8 list \<times> nat) prog" where
  "heap_allocate_segment minimum_size h =
     (let size = max minimum_size (next_size h);
          block = (HeapBlock, replicate (size * BYTES_PER_WORD) 0, size) in
      case strategy h of
        GrowHeuristically \<Rightarrow>
          (if max_segment_words h < next_size h then (Panic, h)
           else if size < max_segment_words h - next_size h
           then (Ok block, h\<lparr>next_size := next_size h + size\<rparr>)
           else (Ok block, h\<lparr>next_size := max_segment_words h\<rparr>))
      | FixedSize \<Rightarrow> (Ok block, h))"

definition heap_deallocate_segment :: "seg_ptr \<Rightarrow> nat \<Rightarrow> nat \<Rightarrow> heap_allocator \<Rightarrow> heap_allocator" where
  "heap_deallocate_segment ptr word_size words_used h =
     h\<lparr>next_size := SUGGESTED_FIRST_SEGMENT_WORDS\<rparr>"

record scratch_allocator =
  scratch_space :: "u8 list"
  scratch_space_allocated :: bool
  heap :: heap_allocator

text \<open>\<open>ScratchSpaceHeapAllocator::new\<close> zeroes the buffer it is given (aligned, in this build).\<close>

definition scratch_new :: "u8 list \<Rightarrow> scratch_allocator" where
  "scratch_new buf = \<lparr>scratch_space = replicate (length buf) 0, scratch_space_allocated = False,
     heap = heap_allocator_default\<rparr>"

definition scratch_allocate_segment :: "nat \<Rightarrow> (scratch_allocator, seg_ptr \<times> u8 list \<times> nat) prog" where
  "scratch_allocate_segment minimum_size s =
     (if minimum_size < length (scratch_space s) div BYTES_PER_WORD \<and> \<not> scratch_space_allocated s
      then (Ok (CallerBuffer, scratch_space s,
              (length (scratch_space s) div BYTES_PER_WORD) mod 2 ^ 32),
            s\<lparr>scratch_space_allocated := True\<rparr>)
      else (case heap_allocate_segment minimum_size (heap s) of (r, h) \<Rightarrow> (r, s\<lparr>heap := h\<rparr>)))"

text \<open>
  Deallocation of a block with its current bytes: the buffer's used words are zeroed again.
\<close>

definition scratch_deallocate_segment ::
  "seg_ptr \<Rightarrow> u8 list \<Rightarrow> nat \<Rightarrow> nat \<Rightarrow> scratch_allocator \<Rightarrow> scratch_allocator" where
  "scratch_deallocate_segment ptr bytes word_size words_used s =
     (if ptr = CallerBuffer
      then s\<lparr>scratch_space := write_at 0 (replicate (words_used * BYTES_PER_WORD) 0) bytes,
             scratch_space_allocated := False\<rparr>
      else s\<lparr>heap := heap_deallocate_segment ptr word_size words_used (heap s)\<rparr>)"

record single_segment_allocator =
  ssa_segment :: "u8 list"
  segment_allocated :: bool

definition single_segment_new :: "u8 list \<Rightarrow> single_segment_allocator" where
  "single_segment_new buf = \<lparr>ssa_segment = replicate (length buf) 0, segment_allocated = False\<rparr>"

definition single_allocate_segment ::
  "nat \<Rightarrow> (single_segment_allocator, seg_ptr \<times> u8 list \<times> nat) prog" where
  "single_allocate_segment minimum_size s =
     (let available_word_count = length (ssa_segment s) div BYTES_PER_WORD in
      if minimum_size > available_word_count then (Panic, s)
      else if segment_allocated s then (Panic, s)
      else (Ok (CallerBuffer, ssa_segment s, available_word_count mod 2 ^ 32),
            s\<lparr>segment_allocated := True\<rparr>))"

definition single_deallocate_segment ::
  "seg_ptr \<Rightarrow> u8 list \<Rightarrow> nat \<Rightarrow> nat \<Rightarrow> single_segment_allocator \<Rightarrow> single_segment_allocator" where
  "single_deallocate_segment ptr bytes word_size words_used s =
     (if ptr = CallerBuffer
      then s\<lparr>ssa_segment := write_at 0 (replicate (words_used * BYTES_PER_WORD) 0) bytes,
             segment_allocated := False\<rparr>
      else s)"

section \<open>The allocator of a message\<close>

text \<open>The implementations of the \<open>Allocator\<close> trait, dispatched as a \<open>dyn\<close> call would be.\<close>

datatype allocator =
    Heap heap_allocator
  | Scratch scratch_allocator
  | Single single_segment_allocator

fun allocate_segment :: "nat \<Rightarrow> allocator \<Rightarrow> (seg_ptr \<times> u8 list \<times> nat) outcome \<times> allocator" where
  "allocate_segment n (Heap h) = (case heap_allocate_segment n h of (r, h') \<Rightarrow> (r, Heap h'))"
| "allocate_segment n (Scratch s) = (case scratch_allocate_segment n s of (r, s') \<Rightarrow> (r, Scratch s'))"
| "allocate_segment n (Single s) = (case single_allocate_segment n s of (r, s') \<Rightarrow> (r, Single s'))"

fun deallocate_segment :: "seg_ptr \<Rightarrow> u8 list \<Rightarrow> nat \<Rightarrow> nat \<Rightarrow> allocator \<Rightarrow> allocator" where
  "deallocate_segment p bs w u (Heap h) = Heap (heap_deallocate_segment p w u h)"
| "deallocate_segment p bs w u (Scratch s) = Scratch (scratch_deallocate_segment p bs w u s)"
| "deallocate_segment p bs w u (Single s) = Single (single_deallocate_segment p bs w u s)"

text \<open>
  What the allocators maintain: a lent buffer that is not handed out is zero, and is smaller
  than \<open>2 ^ 32\<close> words.
\<close>

fun allocator_ok :: "allocator \<Rightarrow> bool" where
  "allocator_ok (Heap h) = True"
| "allocator_ok (Scratch s) \<longleftrightarrow> length (scratch_space s) div 8 < 2 ^ 32 \<and>
     (\<not> scratch_space_allocated s \<longrightarrow> (\<forall>b \<in> set (scratch_space s). b = 0))"
| "allocator_ok (Single s) \<longleftrightarrow> length (ssa_segment s) div 8 < 2 ^ 32 \<and>
     (\<not> segment_allocated s \<longrightarrow> (\<forall>b \<in> set (ssa_segment s). b = 0))"

text \<open>A block as \<open>Allocator::allocate_segment\<close> documents it.\<close>

definition good_block :: "nat \<Rightarrow> u8 list \<Rightarrow> nat \<Rightarrow> bool" where
  "good_block minimum_size bytes sz \<longleftrightarrow>
     minimum_size \<le> sz \<and> sz * BYTES_PER_WORD \<le> length bytes \<and> (\<forall>b \<in> set bytes. b = 0)"

lemma zero_list_iff: "(\<forall>b \<in> set bs. b = (0::u8)) \<longleftrightarrow> bs = replicate (length bs) 0"
  by (metis in_set_replicate replicate_eqI)

lemma heap_allocate_block:
  assumes "heap_allocate_segment n h = (Ok (p, bytes, sz), h')"
  shows "good_block n bytes sz" "p = HeapBlock"
  using assms
  by (auto simp: heap_allocate_segment_def good_block_def Let_def
      split: allocation_strategy.splits if_splits)

lemma allocate_segment_block:
  assumes "allocator_ok a" and "allocate_segment n a = (Ok (p, bytes, sz), a')"
  shows "good_block n bytes sz \<and> allocator_ok a'"
proof (cases a)
  case (Heap h)
  then show ?thesis using assms heap_allocate_block by (auto split: prod.splits)
next
  case (Scratch s)
  show ?thesis
  proof (cases "n < length (scratch_space s) div 8 \<and> \<not> scratch_space_allocated s")
    case True
    then show ?thesis
      using assms Scratch by (auto simp: scratch_allocate_segment_def good_block_def)
  next
    case False
    then show ?thesis
      using assms Scratch heap_allocate_block [of n "heap s" p bytes sz]
      by (auto simp: scratch_allocate_segment_def split: prod.splits if_splits)
  qed
next
  case (Single s)
  then show ?thesis
    using assms by (auto simp: single_allocate_segment_def good_block_def Let_def split: if_splits)
qed

section \<open>The allocator interface\<close>

text \<open>
  The contract of the \<open>Allocator\<close> trait as the arena relies on it: a successful allocation gives
  a zeroed block of at least the requested size.
\<close>

locale segment_allocator =
  fixes alloc :: "nat \<Rightarrow> 'a \<Rightarrow> ('p \<times> u8 list \<times> nat) outcome \<times> 'a"
    and ok :: "'a \<Rightarrow> bool"
  assumes alloc_block: "ok a \<Longrightarrow> alloc n a = (Ok (p, bytes, sz), a') \<Longrightarrow> good_block n bytes sz \<and> ok a'"
begin

lemma block_size: "ok a \<Longrightarrow> alloc n a = (Ok (p, bytes, sz), a') \<Longrightarrow> n \<le> sz \<and> sz * 8 \<le> length bytes"
  using alloc_block by (auto simp: good_block_def)

lemma block_zero: "ok a \<Longrightarrow> alloc n a = (Ok (p, bytes, sz), a') \<Longrightarrow> b \<in> set bytes \<Longrightarrow> b = 0"
  using alloc_block by (auto simp: good_block_def)

lemma block_ok: "ok a \<Longrightarrow> alloc n a = (Ok (p, bytes, sz), a') \<Longrightarrow> ok a'"
  using alloc_block by auto

end

interpretation heap_alloc: segment_allocator heap_allocate_segment "\<lambda>_. True"
  by unfold_locales (auto dest: heap_allocate_block)

interpretation dyn_alloc: segment_allocator allocate_segment allocator_ok
  by unfold_locales (rule allocate_segment_block)

text \<open>Every allocator returns a zeroed block of at least the requested number of words, and
  stays well formed.\<close>

theorem allocate_segment_zeroed:
  assumes "allocator_ok a" and "allocate_segment n a = (Ok (p, bytes, sz), a')"
  shows "good_block n bytes sz \<and> allocator_ok a'"
  using assms by (rule dyn_alloc.alloc_block)

theorem allocate_segment_zeroed_witness:
  "good_block 3 (replicate 32 0) 4 \<and> allocator_ok (Single \<lparr>ssa_segment = replicate 32 0, segment_allocated = True\<rparr>)"
  by (rule allocate_segment_zeroed [of "Single (single_segment_new (replicate 32 7))" 3 CallerBuffer
        "replicate 32 0" 4])
    (simp_all add: single_segment_new_def single_allocate_segment_def)

lemma zero_after_clear:
  assumes "\<forall>b \<in> set (drop (u * 8) bytes). b = (0::u8)" "u * 8 \<le> length bytes"
  shows "\<forall>b \<in> set (write_at 0 (replicate (u * 8) 0) bytes). b = 0"
  using assms by (auto simp: write_at_def)

text \<open>C15: A lent buffer comes back zeroed: when only the words counted as used were written,
  deallocation leaves an allocator whose buffer is all zero, so a message built next starts from
  cleared memory.\<close>

theorem deallocate_segment_rezeroes:
  assumes "u * 8 \<le> length bytes" and "length bytes div 8 < 2 ^ 32"
    and "\<forall>b \<in> set (drop (u * 8) bytes). b = 0"
  shows "allocator_ok (deallocate_segment CallerBuffer bytes w u (Scratch s)) \<and>
    allocator_ok (deallocate_segment CallerBuffer bytes w u (Single t))"
  using zero_after_clear [OF assms(3,1)] assms(1,2)
  by (simp_all add: scratch_deallocate_segment_def single_deallocate_segment_def)

theorem deallocate_segment_rezeroes_witness:
  "allocator_ok (deallocate_segment CallerBuffer (replicate 8 5 @ replicate 24 0) 4 1
     (Single \<lparr>ssa_segment = [], segment_allocated = True\<rparr>))"
  by (rule deallocate_segment_rezeroes [THEN conjunct2]) simp_all

section \<open>The size of the next heap segment\<close>

definition heap_ok :: "heap_allocator \<Rightarrow> bool" where
  "heap_ok h \<longleftrightarrow> next_size h \<le> max_segment_words h"

lemma heap_ok_default: "heap_ok heap_allocator_default"
  by (simp add: heap_ok_def heap_allocator_default_def SUGGESTED_FIRST_SEGMENT_WORDS_def)

lemma heap_ok_setters:
  "heap_first_segment_words v h = Ok h' \<Longrightarrow> heap_ok h'"
  "heap_max_segment_words v h = Ok h' \<Longrightarrow> heap_ok h'"
  by (auto simp: heap_first_segment_words_def heap_max_segment_words_def heap_ok_def split: if_splits)

lemma heap_ok_allocate:
  assumes "heap_ok h"
  shows "\<exists>p bytes sz. fst (heap_allocate_segment n h) = Ok (p, bytes, sz)"
    and "heap_ok (snd (heap_allocate_segment n h))"
  using assms
  by (auto simp: heap_allocate_segment_def heap_ok_def Let_def split: allocation_strategy.splits)

text \<open>Reusing a heap allocator after its segments were freed can panic: freeing resets the
  next size to 1024 words even when a smaller maximum was configured, and the next growing
  allocation then subtracts a larger number from a smaller one.\<close>

theorem heap_reuse_panics:
  assumes "strategy h = GrowHeuristically" and "max_segment_words h < SUGGESTED_FIRST_SEGMENT_WORDS"
  shows "fst (heap_allocate_segment n (heap_deallocate_segment p w u h)) = Panic"
  using assms by (simp add: heap_allocate_segment_def heap_deallocate_segment_def Let_def)

theorem heap_reuse_panics_witness:
  "fst (heap_allocate_segment 1 (heap_deallocate_segment HeapBlock 16 3
     \<lparr>next_size = 16, strategy = GrowHeuristically, max_segment_words = 64\<rparr>)) = Panic"
  by (rule heap_reuse_panics) (simp_all add: SUGGESTED_FIRST_SEGMENT_WORDS_def)

end
