(* ===== verification/Arena.thy ===== *)
theory Arena
  imports Read_Limiter Allocator Wire_Pointer
begin

text \<open>
  \<^verbatim>\<open>capnp/src/private/arena.rs\<close> and the memory that the layout code works on.

  A raw pointer is the null pointer, the static zero word of \<open>zero_pointer()\<close>, or a byte offset
  into a segment of the arena it belongs to (the code only ever compares a pointer with the
  start of the segment it was derived from; a comparison across segments is undefined here).
  The world holds the arena of the message being read, the arena of the message being built
  and the capability tables. A \<open>&dyn ReaderArena\<close> is an arena reference that names one of the
  implementations: the reader arena, the builder arena read back, the null arena (with the
  static words of a default value behind it) or the arena of generated code.
\<close>

section \<open>Memory\<close>

record segment =
  seg_addr :: nat
  seg_bytes :: "u8 list"

record reader_arena =
  ra_segments :: "segment list"
  ra_limiter :: read_limiter
  ra_nesting_limit :: int

record builder_segment =
  bs_ptr :: seg_ptr
  bs_mem :: "u8 list"
  capacity :: nat
  allocated :: nat

text \<open>\<open>BuilderArenaImplInner\<close>; the allocator is \<open>None\<close> once it has been taken back.\<close>

record builder_arena =
  ba_allocator :: "allocator option"
  ba_segments :: "builder_segment list"

record world =
  w_reader :: reader_arena
  w_builder :: builder_arena
  w_caps :: "nat option list list"

datatype arena_ref = AReader | ABuilder | ANull "u8 list" | AGenerated "u8 list"

datatype ptr = PNull | PZero | PAt u32 int

fun ptr_add :: "ptr \<Rightarrow> int \<Rightarrow> ptr" where
  "ptr_add (PAt s off) k = PAt s (off + k)"
| "ptr_add p k = p"

text \<open>The bytes of a segment that a pointer into it may touch.\<close>

definition mem_of :: "world \<Rightarrow> arena_ref \<Rightarrow> u32 \<Rightarrow> u8 list option" where
  "mem_of w ar s = (case ar of
     AReader \<Rightarrow> (if unat s < length (ra_segments (w_reader w))
                 then Some (seg_bytes (ra_segments (w_reader w) ! unat s)) else None)
   | ABuilder \<Rightarrow> (if unat s < length (ba_segments (w_builder w))
                 then Some (bs_mem (ba_segments (w_builder w) ! unat s)) else None)
   | ANull d \<Rightarrow> (if s = 0 then Some d else None)
   | AGenerated d \<Rightarrow> (if s = 0 then Some d else None))"

definition load :: "world \<Rightarrow> arena_ref \<Rightarrow> ptr \<Rightarrow> nat \<Rightarrow> u8 list option" where
  "load w ar p n = (case p of
     PNull \<Rightarrow> None
   | PZero \<Rightarrow> (if n \<le> 8 then Some (replicate n 0) else None)
   | PAt s off \<Rightarrow> (case mem_of w ar s of
       None \<Rightarrow> None
     | Some bs \<Rightarrow> if 0 \<le> off \<and> nat off + n \<le> length bs then Some (take_at (nat off) n bs) else None))"

text \<open>Reading \<open>n\<close> bytes through a raw pointer; outside the segment it is undefined behaviour.\<close>

definition deref :: "arena_ref \<Rightarrow> ptr \<Rightarrow> nat \<Rightarrow> (world, u8 list) prog" where
  "deref ar p n w = (case load w ar p n of Some bs \<Rightarrow> (Ok bs, w) | None \<Rightarrow> (UB, w))"

definition deref_wp :: "arena_ref \<Rightarrow> ptr \<Rightarrow> (world, wire_pointer) prog" where
  "deref_wp ar p = bindp (deref ar p 8) (\<lambda>bs. ret (decode_wire_pointer bs))"

section \<open>Reader arenas\<close>

definition reader_arena_new :: "segment list \<Rightarrow> u64 option \<Rightarrow> int \<Rightarrow> reader_arena" where
  "reader_arena_new segs traversal_limit_in_words nesting =
     \<lparr>ra_segments = segs, ra_limiter = read_limiter_new traversal_limit_in_words,
      ra_nesting_limit = nesting\<rparr>"

text \<open>\<open>get_segment\<close>: start and length in words. The builder arena indexes its vector.\<close>

definition get_segment :: "arena_ref \<Rightarrow> u32 \<Rightarrow> (world, ptr \<times> nat) prog" where
  "get_segment ar sid w = (case ar of
     AReader \<Rightarrow>
       (if unat sid < length (ra_segments (w_reader w))
        then (let seg = ra_segments (w_reader w) ! unat sid in
              if seg_addr seg mod BYTES_PER_WORD \<noteq> 0 then (Err UnalignedSegment, w)
              else (Ok (PAt sid 0, (length (seg_bytes seg) div BYTES_PER_WORD) mod 2 ^ 32), w))
        else (Err (InvalidSegmentId sid), w))
   | ABuilder \<Rightarrow>
       (if unat sid < length (ba_segments (w_builder w))
        then (Ok (PAt sid 0, allocated (ba_segments (w_builder w) ! unat sid)), w)
        else (Panic, w))
   | ANull _ \<Rightarrow> (Err TriedToReadFromNullArena, w)
   | AGenerated d \<Rightarrow>
       (if sid = 0 then (Ok (PAt 0 0, (length d div BYTES_PER_WORD) mod 2 ^ 32), w)
        else (Err (InvalidSegmentId sid), w)))"

text \<open>
  The trait's default \<open>check_offset\<close>: \<open>start\<close> relative to the segment's start, plus the offset
  in bytes as \<open>i64\<close>, compared as \<open>usize\<close>.
\<close>

definition check_offset_default :: "arena_ref \<Rightarrow> u32 \<Rightarrow> ptr \<Rightarrow> int \<Rightarrow> (world, ptr) prog" where
  "check_offset_default ar segment_id start offset_in_words =
     bindp (get_segment ar segment_id) (\<lambda>(segment_start, segment_len).
       let this_size = segment_len * BYTES_PER_WORD;
           offset = offset_in_words * int BYTES_PER_WORD in
       case start of
         PNull \<Rightarrow> err MessageContainsOutOfBoundsPointer
       | PZero \<Rightarrow> ub
       | PAt s off \<Rightarrow>
           if s \<noteq> segment_id then ub
           else if off < 0 \<or> (off + offset) mod 2 ^ 64 > int this_size
           then err MessageContainsOutOfBoundsPointer
           else ret (PAt s (off + offset)))"

text \<open>\<open>NullArena\<close> multiplies the offset as \<open>usize\<close>, which overflows for a negative one.\<close>

definition check_offset :: "arena_ref \<Rightarrow> u32 \<Rightarrow> ptr \<Rightarrow> int \<Rightarrow> (world, ptr) prog" where
  "check_offset ar segment_id start offset_in_words = (case ar of
     AReader \<Rightarrow> check_offset_default ar segment_id start offset_in_words
   | AGenerated _ \<Rightarrow> check_offset_default ar segment_id start offset_in_words
   | ABuilder \<Rightarrow> ret (ptr_add start (offset_in_words * int BYTES_PER_WORD))
   | ANull _ \<Rightarrow> if offset_in_words < 0 then panic else ret (ptr_add start (offset_in_words * int BYTES_PER_WORD)))"

text \<open>The interval test shared by \<open>ReaderArenaImpl\<close> and \<open>GeneratedCodeArena\<close>.\<close>

definition interval_ok :: "arena_ref \<Rightarrow> u32 \<Rightarrow> ptr \<Rightarrow> nat \<Rightarrow> (world, unit) prog" where
  "interval_ok ar sid start size_in_words =
     bindp (get_segment ar sid) (\<lambda>(segment_start, segment_len).
       let this_size = segment_len * BYTES_PER_WORD;
           size_in_bytes = size_in_words * BYTES_PER_WORD in
       case start of
         PNull \<Rightarrow> err MessageContainsOutOfBoundsPointer
       | PZero \<Rightarrow> ub
       | PAt s off \<Rightarrow>
           if s \<noteq> sid then ub
           else if \<not> (0 \<le> off \<and> off + int size_in_bytes \<le> int this_size)
           then err MessageContainsOutOfBoundsPointer
           else ret ())"

text \<open>Charging the read limiter of the reader arena.\<close>

definition charge :: "nat \<Rightarrow> (world, unit) prog" where
  "charge amount w = (case can_read (of_nat amount) (ra_limiter (w_reader w)) of
     (r, l) \<Rightarrow> (r, w\<lparr>w_reader := (w_reader w)\<lparr>ra_limiter := l\<rparr>\<rparr>))"

definition contains_interval :: "arena_ref \<Rightarrow> u32 \<Rightarrow> ptr \<Rightarrow> nat \<Rightarrow> (world, unit) prog" where
  "contains_interval ar sid start size_in_words = (case ar of
     AReader \<Rightarrow> seqp (interval_ok ar sid start size_in_words) (charge size_in_words)
   | AGenerated _ \<Rightarrow> interval_ok ar sid start size_in_words
   | ABuilder \<Rightarrow> ret ()
   | ANull _ \<Rightarrow> ret ())"

definition amplified_read :: "arena_ref \<Rightarrow> nat \<Rightarrow> (world, unit) prog" where
  "amplified_read ar virtual_amount = (case ar of
     AReader \<Rightarrow> charge virtual_amount
   | _ \<Rightarrow> ret ())"

definition nesting_limit :: "arena_ref \<Rightarrow> (world, int) prog" where
  "nesting_limit ar = gets (\<lambda>w. case ar of
     AReader \<Rightarrow> ra_nesting_limit (w_reader w) | _ \<Rightarrow> 0x7fffffff)"

definition arena_size_in_words :: "arena_ref \<Rightarrow> (world, nat) prog" where
  "arena_size_in_words ar = gets (\<lambda>w. case ar of
     AReader \<Rightarrow> sum_list (map (\<lambda>s. length (seg_bytes s) div BYTES_PER_WORD) (ra_segments (w_reader w)))
   | ABuilder \<Rightarrow> sum_list (map allocated (ba_segments (w_builder w)))
   | ANull _ \<Rightarrow> 0
   | AGenerated d \<Rightarrow> length d div BYTES_PER_WORD)"

section \<open>The builder arena\<close>

definition builder_arena_new :: "allocator \<Rightarrow> builder_arena" where
  "builder_arena_new a = \<lparr>ba_allocator = Some a, ba_segments = []\<rparr>"

definition arena_allocate_segment :: "nat \<Rightarrow> (builder_arena, unit) prog" where
  "arena_allocate_segment minimum_size b = (case ba_allocator b of
     None \<Rightarrow> (Panic, b)
   | Some a \<Rightarrow> (case allocate_segment minimum_size a of
       (Ok (p, bytes, cap), a') \<Rightarrow>
         (Ok (), b\<lparr>ba_allocator := Some a',
           ba_segments := ba_segments b @
             [\<lparr>bs_ptr = p, bs_mem = bytes, capacity = cap, allocated = 0\<rparr>]\<rparr>)
     | (Err e, a') \<Rightarrow> (Err e, b\<lparr>ba_allocator := Some a'\<rparr>)
     | (Panic, a') \<Rightarrow> (Panic, b\<lparr>ba_allocator := Some a'\<rparr>)
     | (UB, a') \<Rightarrow> (UB, b\<lparr>ba_allocator := Some a'\<rparr>)))"

definition arena_allocate :: "nat \<Rightarrow> nat \<Rightarrow> (builder_arena, nat option) prog" where
  "arena_allocate segment_id amount b =
     (if segment_id < length (ba_segments b)
      then (let seg = ba_segments b ! segment_id in
            if capacity seg < allocated seg then (Panic, b)
            else if amount > capacity seg - allocated seg then (Ok None, b)
            else (Ok (Some (allocated seg)),
                  b\<lparr>ba_segments := (ba_segments b)[segment_id :=
                      seg\<lparr>allocated := allocated seg + amount\<rparr>]\<rparr>))
      else (Panic, b))"

text \<open>\<open>get_segment_mut\<close>: start and capacity in words.\<close>

definition get_segment_mut :: "u32 \<Rightarrow> (world, ptr \<times> nat) prog" where
  "get_segment_mut sid w =
     (if unat sid < length (ba_segments (w_builder w))
      then (Ok (PAt sid 0, capacity (ba_segments (w_builder w) ! unat sid)), w)
      else (Panic, w))"

text \<open>The loop of \<open>allocate_anywhere\<close> over the existing segments.\<close>

fun try_segments :: "nat list \<Rightarrow> nat \<Rightarrow> (builder_arena, (nat \<times> nat) option) prog" where
  "try_segments [] amount = ret None"
| "try_segments (i # is) amount = bindp (arena_allocate i amount)
     (\<lambda>r. case r of Some idx \<Rightarrow> ret (Some (i, idx)) | None \<Rightarrow> try_segments is amount)"

definition allocate_anywhere :: "nat \<Rightarrow> (builder_arena, nat \<times> nat) prog" where
  "allocate_anywhere amount =
     bindp (gets (\<lambda>b. length (ba_segments b))) (\<lambda>allocated_len.
     bindp (try_segments [0..<allocated_len] amount) (\<lambda>r. case r of
       Some p \<Rightarrow> ret p
     | None \<Rightarrow>
         seqp (arena_allocate_segment amount)
         (bindp (arena_allocate allocated_len amount) (\<lambda>r'. case r' of
            Some idx \<Rightarrow> ret (allocated_len, idx)
          | None \<Rightarrow> panic))))"

definition deallocate_all :: "builder_arena \<Rightarrow> builder_arena" where
  "deallocate_all b = b\<lparr>ba_allocator := map_option
     (fold (\<lambda>seg a. deallocate_segment (bs_ptr seg) (bs_mem seg) (capacity seg) (allocated seg) a)
       (ba_segments b)) (ba_allocator b)\<rparr>"

definition into_allocator :: "builder_arena \<Rightarrow> allocator outcome" where
  "into_allocator b = (case ba_allocator (deallocate_all b) of Some a \<Rightarrow> Ok a | None \<Rightarrow> Panic)"

text \<open>\<open>get_segments_for_output\<close>: the used words of every segment.\<close>

definition get_segments_for_output :: "builder_arena \<Rightarrow> u8 list list" where
  "get_segments_for_output b =
     map (\<lambda>seg. take (allocated seg * BYTES_PER_WORD) (bs_mem seg)) (ba_segments b)"

section \<open>What a builder arena maintains\<close>

text \<open>
  Every segment uses at most its capacity, the memory covers the capacity, and the memory that
  is not yet allocated is zero.
\<close>

definition segment_inv :: "builder_segment \<Rightarrow> bool" where
  "segment_inv seg \<longleftrightarrow> allocated seg \<le> capacity seg \<and> capacity seg * 8 \<le> length (bs_mem seg) \<and>
     (\<forall>b \<in> set (drop (allocated seg * 8) (bs_mem seg)). b = 0)"

definition arena_inv :: "builder_arena \<Rightarrow> bool" where
  "arena_inv b \<longleftrightarrow> (\<forall>seg \<in> set (ba_segments b). segment_inv seg) \<and>
     (case ba_allocator b of None \<Rightarrow> True | Some a \<Rightarrow> allocator_ok a)"

text \<open>\<open>fresh b i idx n b'\<close>: the words \<open>idx..<idx + n\<close> of segment \<open>i\<close> were unused and zero before,
  lie within the capacity, and are the only new used words after; nothing else changed.\<close>

definition fresh :: "builder_arena \<Rightarrow> nat \<Rightarrow> nat \<Rightarrow> nat \<Rightarrow> builder_arena \<Rightarrow> bool" where
  "fresh b i idx n b' \<longleftrightarrow> i < length (ba_segments b) \<and>
     allocated (ba_segments b ! i) = idx \<and> idx + n \<le> capacity (ba_segments b ! i) \<and>
     (\<forall>x \<in> set (take_at (idx * 8) (n * 8) (bs_mem (ba_segments b ! i))). x = 0) \<and>
     ba_segments b' = (ba_segments b)[i := (ba_segments b ! i)\<lparr>allocated := idx + n\<rparr>] \<and>
     ba_allocator b' = ba_allocator b"

lemma arena_inv_nth: "arena_inv b \<Longrightarrow> i < length (ba_segments b) \<Longrightarrow> segment_inv (ba_segments b ! i)"
  by (simp add: arena_inv_def)

lemma arena_inv_update:
  assumes "arena_inv b" and "segment_inv seg"
  shows "arena_inv (b\<lparr>ba_segments := (ba_segments b)[i := seg]\<rparr>)"
  using assms set_update_subset_insert [of "ba_segments b" i seg] by (auto simp: arena_inv_def)

lemma set_take_at_subset: "set (take_at i n xs) \<subseteq> set (drop i xs)"
  by (auto simp: take_at_def dest: in_set_takeD)

lemma segment_inv_grow:
  "segment_inv seg \<Longrightarrow> allocated seg + n \<le> capacity seg \<Longrightarrow> segment_inv (seg\<lparr>allocated := allocated seg + n\<rparr>)"
  using set_drop_subset_set_drop [of "allocated seg * 8" "(allocated seg + n) * 8" "bs_mem seg"]
  by (auto simp: segment_inv_def)

lemma arena_allocate_cases:
  assumes "arena_inv b" and "i < length (ba_segments b)"
  obtains (none) "arena_allocate i n b = (Ok None, b)"
      "capacity (ba_segments b ! i) < allocated (ba_segments b ! i) + n"
  | (some) b' where "arena_allocate i n b = (Ok (Some (allocated (ba_segments b ! i))), b')"
      "fresh b i (allocated (ba_segments b ! i)) n b'" "arena_inv b'"
proof (cases "n > capacity (ba_segments b ! i) - allocated (ba_segments b ! i)")
  case True
  then show ?thesis
    using assms arena_inv_nth [OF assms]
    by (intro none) (auto simp: arena_allocate_def Let_def segment_inv_def)
next
  case False
  let ?seg = "ba_segments b ! i"
  let ?b = "b\<lparr>ba_segments := (ba_segments b)[i := ?seg\<lparr>allocated := allocated ?seg + n\<rparr>]\<rparr>"
  have inv: "segment_inv ?seg" by (rule arena_inv_nth [OF assms])
  then have le: "allocated ?seg + n \<le> capacity ?seg"
    using False by (auto simp: segment_inv_def)
  show ?thesis
  proof (rule some [of ?b])
    show "arena_allocate i n b = (Ok (Some (allocated ?seg)), ?b)"
      using False assms inv by (simp add: arena_allocate_def Let_def segment_inv_def)
    show "fresh b i (allocated ?seg) n ?b"
      using assms inv le set_take_at_subset [of "allocated ?seg * 8" "n * 8" "bs_mem ?seg"]
      by (auto simp: fresh_def segment_inv_def)
    show "arena_inv ?b"
      using assms(1) by (rule arena_inv_update) (rule segment_inv_grow [OF inv le])
  qed
qed

lemma arena_allocate_out_of_range: "\<not> i < length (ba_segments b) \<Longrightarrow> arena_allocate i n b = (Panic, b)"
  by (simp add: arena_allocate_def)

text \<open>C16: Allocating in a segment hands out words that were unused and zero, within the
  segment's capacity; only the count of used words changes, and the arena stays well formed.\<close>

theorem arena_allocate_fresh:
  assumes "arena_inv b" and "arena_allocate i n b = (Ok (Some idx), b')"
  shows "fresh b i idx n b' \<and> arena_inv b'"
proof -
  have "i < length (ba_segments b)"
    using assms(2) arena_allocate_out_of_range by fastforce
  with assms(1) show ?thesis
    by (rule arena_allocate_cases [of b i n]) (use assms(2) in auto)
qed

theorem arena_allocate_fresh_witness:
  "fresh \<lparr>ba_allocator = None, ba_segments = [\<lparr>bs_ptr = HeapBlock, bs_mem = replicate 16 0,
      capacity = 2, allocated = 1\<rparr>]\<rparr> 0 1 1
    \<lparr>ba_allocator = None, ba_segments = [\<lparr>bs_ptr = HeapBlock, bs_mem = replicate 16 0,
      capacity = 2, allocated = 2\<rparr>]\<rparr>"
  by (rule arena_allocate_fresh [THEN conjunct1])
    (simp_all add: arena_inv_def segment_inv_def arena_allocate_def)

text \<open>\<open>extends b c\<close>: \<open>c\<close> is \<open>b\<close>, possibly with one more segment at the end.\<close>

definition extends :: "builder_arena \<Rightarrow> builder_arena \<Rightarrow> bool" where
  "extends b c \<longleftrightarrow> (\<exists>new. ba_segments c = ba_segments b @ new \<and> length new \<le> 1)"

lemma extends_refl: "extends b b"
  by (simp add: extends_def)

lemma try_segments_result:
  assumes "arena_inv b" and "\<forall>i \<in> set is. i < length (ba_segments b)"
  shows "try_segments is n b = (Ok None, b) \<or>
    (\<exists>i idx b'. try_segments is n b = (Ok (Some (i, idx)), b') \<and> fresh b i idx n b' \<and> arena_inv b')"
  using assms(2)
proof (induction "is")
  case Nil
  then show ?case by (simp add: ret_def)
next
  case (Cons i "is")
  have i: "i < length (ba_segments b)" using Cons.prems by simp
  from assms(1) i show ?case
  proof (cases rule: arena_allocate_cases [of b i n])
    case none
    then have "try_segments (i # is) n b = try_segments is n b"
      by (simp add: bindp_def)
    then show ?thesis using Cons by simp
  next
    case (some b')
    then show ?thesis by (auto simp: bindp_def ret_def)
  qed
qed

text \<open>Allocating in the segments that exist leaves the allocator alone.\<close>

lemma arena_allocate_allocator: "ba_allocator (snd (arena_allocate i n b)) = ba_allocator b"
  by (simp add: arena_allocate_def Let_def)

lemma try_segments_allocator: "ba_allocator (snd (try_segments is n b)) = ba_allocator b"
proof (induction "is")
  case Nil
  then show ?case by (simp add: ret_def)
next
  case (Cons i "is")
  have "arena_allocate i n b = (Ok None, b) \<or> fst (arena_allocate i n b) \<noteq> Ok None"
    by (simp add: arena_allocate_def Let_def)
  then show ?case
    using Cons arena_allocate_allocator [of i n b]
    by (auto simp: bindp_def ret_def split: prod.splits outcome.splits option.splits)
qed

lemma arena_allocate_segment_heap:
  assumes "arena_inv b" and "ba_allocator b = Some (Heap h)" and "heap_ok h"
  obtains c h' where "arena_allocate_segment n b = (Ok (), c)" "arena_inv c" "extends b c"
    "ba_allocator c = Some (Heap h')" "heap_ok h'"
    "n \<le> capacity (ba_segments c ! length (ba_segments b))"
    "allocated (ba_segments c ! length (ba_segments b)) = 0"
    "length (ba_segments c) = Suc (length (ba_segments b))"
proof -
  from heap_ok_allocate(1) [OF assms(3)] obtain p bytes sz h'
    where a: "heap_allocate_segment n h = (Ok (p, bytes, sz), h')"
    by (metis prod.collapse)
  then have a': "allocate_segment n (Heap h) = (Ok (p, bytes, sz), Heap h')" by simp
  have h': "heap_ok h'" using heap_ok_allocate(2) [OF assms(3), of n] a by simp
  have ok: "allocator_ok (Heap h)" by simp
  let ?seg = "\<lparr>bs_ptr = p, bs_mem = bytes, capacity = sz, allocated = 0\<rparr>"
  let ?c = "b\<lparr>ba_allocator := Some (Heap h'), ba_segments := ba_segments b @ [?seg]\<rparr>"
  have "segment_inv ?seg"
    using dyn_alloc.block_size [OF ok a'] dyn_alloc.block_zero [OF ok a']
    by (simp add: segment_inv_def)
  then have "arena_inv ?c"
    using assms(1) by (auto simp: arena_inv_def)
  then show ?thesis
    using assms(2) a h' dyn_alloc.block_size [OF ok a']
    by (intro that [of ?c h']) (auto simp: arena_allocate_segment_def extends_def nth_append)
qed



end
