(* ===== verification/Read_Logic.thy ===== *)
theory Read_Logic
  imports Arena
begin

text \<open>
  A small logic for the reading half of the library. A read changes nothing but the read
  limiter, so its specification is about a fixed world \<open>W\<close> with the limiter blanked out:
  \<open>reads W m Q F\<close> says that from every state of that world the program \<open>m\<close> runs without
  undefined behaviour, leaves the world as it is up to the limiter, gives a result in \<open>Q\<close> or
  fails in a way that \<open>F\<close> admits (\<open>None\<close> is a panic).
\<close>

named_theorems read_rules \<open>rules for \<open>reads\<close>\<close>

definition still :: "world \<Rightarrow> world" where
  "still w = w\<lparr>w_reader := (w_reader w)\<lparr>ra_limiter := \<lparr>limit = 0, error_on_limit_exceeded = False\<rparr>\<rparr>\<rparr>"

definition reads ::
  "world \<Rightarrow> (world, 'a) prog \<Rightarrow> ('a \<Rightarrow> bool) \<Rightarrow> (error_kind option \<Rightarrow> bool) \<Rightarrow> bool" where
  "reads W m Q F \<longleftrightarrow>
     (\<forall>w. still w = W \<longrightarrow> wp m (\<lambda>x t. still t = W \<and> Q x) (\<lambda>e t. still t = W \<and> F e) w)"

text \<open>Failing with an \<open>Err\<close> only.\<close>

definition no_panic :: "error_kind option \<Rightarrow> bool" where
  "no_panic e \<longleftrightarrow> e \<noteq> None"

lemma no_panic_Some [simp]: "no_panic (Some e)" and no_panic_None [simp]: "\<not> no_panic None"
  by (simp_all add: no_panic_def)

text \<open>The arenas that check every interval they are asked about.\<close>

fun checked :: "arena_ref \<Rightarrow> bool" where
  "checked AReader = True"
| "checked (AGenerated _) = True"
| "checked _ = False"

text \<open>\<open>n\<close> bytes at \<open>p\<close> lie in segment \<open>sid\<close>.\<close>

definition in_seg :: "world \<Rightarrow> arena_ref \<Rightarrow> u32 \<Rightarrow> ptr \<Rightarrow> nat \<Rightarrow> bool" where
  "in_seg w ar sid p n \<longleftrightarrow> (\<exists>i bs. p = PAt sid (int i) \<and> mem_of w ar sid = Some bs \<and> i + n \<le> length bs)"

text \<open>A pointer that may be followed: a word of the segment, or the static null word.\<close>

definition ref_ok :: "world \<Rightarrow> arena_ref \<Rightarrow> u32 \<Rightarrow> ptr \<Rightarrow> bool" where
  "ref_ok w ar sid p \<longleftrightarrow> p = PZero \<or> in_seg w ar sid p 8"

section \<open>Rules\<close>

lemma mem_of_still [simp]: "mem_of (still w) ar s = mem_of w ar s"
  by (simp add: mem_of_def still_def split: arena_ref.split)

lemma load_still [simp]: "load (still w) ar p n = load w ar p n"
  by (cases p) (simp_all add: load_def)

lemma still_still [simp]: "still (still w) = still w"
  by (simp add: still_def)

lemma readsI:
  assumes "\<And>w. still w = W \<Longrightarrow> wp m (\<lambda>x t. still t = W \<and> Q x) (\<lambda>e t. still t = W \<and> F e) w"
  shows "reads W m Q F"
  using assms by (simp add: reads_def)

lemma reads_conseq:
  assumes "reads W m Q F" and "\<And>x. Q x \<Longrightarrow> Q' x" and "\<And>e. F e \<Longrightarrow> F' e"
  shows "reads W m Q' F'"
  using assms(1) unfolding reads_def by (auto intro: wp_conseq dest: assms(2,3))

lemma reads_wp: "reads W m Q F \<Longrightarrow> still w = W \<Longrightarrow> wp m (\<lambda>x t. still t = W \<and> Q x) (\<lambda>e t. still t = W \<and> F e) w"
  by (simp add: reads_def)

lemma reads_bindp:
  assumes "reads W m P F" and "\<And>x. P x \<Longrightarrow> reads W (f x) Q F"
  shows "reads W (bindp m f) Q F"
proof (rule readsI, rule wp_bindp)
  fix w assume "still w = W"
  with assms(1) have "wp m (\<lambda>x t. still t = W \<and> P x) (\<lambda>e t. still t = W \<and> F e) w"
    by (rule reads_wp)
  then show "wp m (\<lambda>x. wp (f x) (\<lambda>x t. still t = W \<and> Q x) (\<lambda>e t. still t = W \<and> F e))
      (\<lambda>e t. still t = W \<and> F e) w"
    by (rule wp_conseq) (simp_all add: reads_wp [OF assms(2)])
qed

lemma reads_seqp: "reads W m (\<lambda>_. P) F \<Longrightarrow> (P \<Longrightarrow> reads W n Q F) \<Longrightarrow> reads W (seqp m n) Q F"
  unfolding seqp_def by (rule reads_bindp)

lemma reads_ret: "Q x \<Longrightarrow> reads W (ret x) Q F"
  by (rule readsI) (simp add: wp_ret)

lemma reads_err: "F (Some e) \<Longrightarrow> reads W (err e) Q F"
  by (rule readsI) (simp add: wp_err)

lemma reads_panic: "F None \<Longrightarrow> reads W panic Q F"
  by (rule readsI) (simp add: wp_panic)

lemma reads_if:
  "(b \<Longrightarrow> reads W m Q F) \<Longrightarrow> (\<not> b \<Longrightarrow> reads W n Q F) \<Longrightarrow> reads W (if b then m else n) Q F"
  by simp

lemma reads_prod:
  "(\<And>a b. x = (a, b) \<Longrightarrow> reads W (f a b) Q F) \<Longrightarrow> reads W (case x of (a, b) \<Rightarrow> f a b) Q F"
  by (cases x) simp

lemma reads_option:
  "(\<And>x. r = Some x \<Longrightarrow> reads W (f x) Q F) \<Longrightarrow> (r = None \<Longrightarrow> reads W n Q F) \<Longrightarrow>
   reads W (case r of Some x \<Rightarrow> f x | None \<Rightarrow> n) Q F"
  by (cases r) simp_all

lemma reads_foldp:
  assumes "I acc" and "\<And>x a. x \<in> set xs \<Longrightarrow> I a \<Longrightarrow> reads W (f x a) I F"
  shows "reads W (foldp f xs acc) I F"
proof (rule readsI)
  fix w assume "still w = W"
  then show "wp (foldp f xs acc) (\<lambda>x t. still t = W \<and> I x) (\<lambda>e t. still t = W \<and> F e) w"
    by (intro wp_foldp [where I = "\<lambda>x t. still t = W \<and> I x"])
      (use assms in \<open>auto intro: reads_wp\<close>)
qed

text \<open>A loop whose invariant depends on how many iterations have run.\<close>

lemma reads_foldp_upt:
  assumes "I 0 acc" and "\<And>i a. i < n \<Longrightarrow> I i a \<Longrightarrow> reads W (f i a) (I (Suc i)) F"
  shows "reads W (foldp f [0..<n] acc) (I n) F"
proof -
  have "reads W (foldp f [k..<n] a) (I n) F" if "k \<le> n" "I k a" for k a
    using that
  proof (induction "n - k" arbitrary: k a)
    case 0
    then show ?case by (simp add: reads_ret)
  next
    case (Suc d)
    then have k: "k < n" by simp
    then have "foldp f [k..<n] a = bindp (f k a) (foldp f [Suc k..<n])"
      by (simp add: upt_conv_Cons)
    moreover have "reads W (bindp (f k a) (foldp f [Suc k..<n])) (I n) F"
      by (rule reads_bindp [OF assms(2) [OF k Suc.prems(2)]]) (use Suc k in auto)
    ultimately show ?case by simp
  qed
  with assms(1) show ?thesis by simp
qed

lemmas reads_intros =
  reads_ret reads_err reads_if reads_prod reads_option

section \<open>Memory\<close>

lemma deref_in_seg:
  assumes "in_seg W ar sid p n"
  shows "reads W (deref ar p n) (\<lambda>bs. length bs = n \<and> load W ar p n = Some bs) F"
proof (rule readsI)
  fix w assume w: "still w = W"
  then have "load w ar p n = load W ar p n" by auto
  moreover from assms obtain bs where "load W ar p n = Some bs" "length bs = n"
    by (auto simp: in_seg_def load_def)
  ultimately show "wp (deref ar p n)
      (\<lambda>bs t. still t = W \<and> length bs = n \<and> load W ar p n = Some bs) (\<lambda>e t. still t = W \<and> F e) w"
    using w by (simp add: deref_def wp_def)
qed

text \<open>The wire pointer at \<open>p\<close>.\<close>

definition pointer_at :: "world \<Rightarrow> arena_ref \<Rightarrow> ptr \<Rightarrow> wire_pointer" where
  "pointer_at w ar p = decode_wire_pointer (case load w ar p 8 of Some bs \<Rightarrow> bs | None \<Rightarrow> [])"

lemma wp_is_null_decode_zero: "wp_is_null (decode_wire_pointer (replicate 8 0))"
  by (simp add: decode_wire_pointer_def wp_is_null_def eval_nat_numeral)

lemma deref_wp_ref_ok:
  assumes "ref_ok W ar sid p"
  shows "reads W (deref_wp ar p)
    (\<lambda>r. r = pointer_at W ar p \<and> (\<not> wp_is_null r \<longrightarrow> in_seg W ar sid p 8)) F"
proof (cases "p = PZero")
  case True
  then show ?thesis
    by (intro readsI)
      (simp add: deref_wp_def wp_def bindp_def deref_def load_def ret_def pointer_at_def
        wp_is_null_decode_zero)
next
  case False
  with assms have "in_seg W ar sid p 8" by (simp add: ref_ok_def)
  then show ?thesis
    unfolding deref_wp_def
    by (intro reads_bindp [OF deref_in_seg] reads_ret) (auto simp: pointer_at_def)
qed

lemma deref_wp_in_seg:
  "in_seg W ar sid p 8 \<Longrightarrow> reads W (deref_wp ar p) (\<lambda>r. r = pointer_at W ar p) F"
  by (rule reads_conseq [OF deref_wp_ref_ok [where sid = sid and F = F]]) (auto simp: ref_ok_def)

lemma in_seg_sub:
  assumes "in_seg W ar sid p n" and "0 \<le> k" and "nat k + m \<le> n"
  shows "in_seg W ar sid (ptr_add p k) m"
proof -
  from assms(1) obtain i bs where i: "p = PAt sid (int i)" "mem_of W ar sid = Some bs" "i + n \<le> length bs"
    by (auto simp: in_seg_def)
  have "ptr_add p k = PAt sid (int (i + nat k))" using i assms(2) by simp
  moreover have "i + nat k + m \<le> length bs" using i assms(3) by linarith
  ultimately show ?thesis using i(2) unfolding in_seg_def by blast
qed

lemma in_seg_mono: "in_seg W ar sid p n \<Longrightarrow> m \<le> n \<Longrightarrow> in_seg W ar sid p m"
  by (fastforce simp: in_seg_def)

section \<open>Arena operations\<close>

text \<open>The words of a segment that the bounds checks of an arena admit.\<close>

lemma get_segment_reads:
  assumes "checked ar"
  shows "reads W (get_segment ar sid) (\<lambda>(p, n). p = PAt sid 0 \<and> in_seg W ar sid p (n * 8)) no_panic"
proof (rule readsI)
  fix w assume w: "still w = W"
  show "wp (get_segment ar sid)
      (\<lambda>x t. still t = W \<and> (case x of (p, n) \<Rightarrow> p = PAt sid 0 \<and> in_seg W ar sid p (n * 8)))
      (\<lambda>e t. still t = W \<and> no_panic e) w"
  proof -
    have le: "(l div 8) mod 2 ^ 32 * 8 \<le> l" for l :: nat
      by (rule order_trans [of _ "(l div 8) * 8"]) (auto intro: mod_less_eq_dividend)
    from w have "mem_of W = mem_of w" by (auto intro!: ext)
    then have "in_seg W ar sid (PAt sid 0) n \<longleftrightarrow> (\<exists>bs. mem_of w ar sid = Some bs \<and> n \<le> length bs)" for n
      by (auto simp: in_seg_def)
    then show ?thesis
      using assms w le by (cases ar) (auto simp: get_segment_def wp_def Let_def mem_of_def)
  qed
qed

lemma charge_reads: "reads W (charge n) (\<lambda>_. True) no_panic"
proof (rule readsI)
  fix w assume "still w = W"
  then show "wp (charge n) (\<lambda>x t. still t = W \<and> True) (\<lambda>e t. still t = W \<and> no_panic e) w"
    by (auto simp: charge_def wp_def can_read_def Let_def still_def)
qed

lemma amplified_read_reads: "reads W (amplified_read ar n) (\<lambda>_. True) no_panic"
  by (cases ar) (simp_all add: amplified_read_def charge_reads reads_ret)

lemma interval_ok_reads:
  assumes "checked ar" and "p = PNull \<or> p = PAt sid i"
  shows "reads W (interval_ok ar sid p n) (\<lambda>_. in_seg W ar sid p (n * 8)) no_panic"
  unfolding interval_ok_def
proof (rule reads_bindp [OF get_segment_reads [OF assms(1)]], rule reads_prod)
  fix x s l
  assume "case x of (q, m) \<Rightarrow> q = PAt sid 0 \<and> in_seg W ar sid q (m * 8)" and "x = (s, l)"
  then obtain bs where bs: "mem_of W ar sid = Some bs" "l * 8 \<le> length bs"
    by (auto simp: in_seg_def)
  have "in_seg W ar sid (PAt sid i) (n * 8)" if "0 \<le> i" "i + int (n * 8) \<le> int (l * 8)"
    unfolding in_seg_def using that bs by (intro exI [of _ "nat i"] exI [of _ bs]) auto
  with assms(2) show "reads W
      (let this_size = l * BYTES_PER_WORD; size_in_bytes = n * BYTES_PER_WORD in
       case p of PNull \<Rightarrow> err MessageContainsOutOfBoundsPointer | PZero \<Rightarrow> ub
       | PAt s off \<Rightarrow>
           if s \<noteq> sid then ub
           else if \<not> (0 \<le> off \<and> off + int size_in_bytes \<le> int this_size)
           then err MessageContainsOutOfBoundsPointer else ret ())
      (\<lambda>_. in_seg W ar sid p (n * 8)) no_panic"
    by (auto simp: Let_def intro!: reads_intros)
qed

lemma contains_interval_reads:
  assumes "checked ar" and "p = PNull \<or> p = PAt sid i"
  shows "reads W (contains_interval ar sid p n) (\<lambda>_. in_seg W ar sid p (n * 8)) no_panic"
  using assms(1)
proof (cases ar)
  case AReader
  have "reads W (seqp (interval_ok ar sid p n) (charge n)) (\<lambda>_. in_seg W ar sid p (n * 8)) no_panic"
    by (rule reads_seqp [OF interval_ok_reads [OF assms]], rule reads_conseq [OF charge_reads]) auto
  with AReader show ?thesis by (simp add: contains_interval_def)
next
  case (AGenerated d)
  with interval_ok_reads [OF assms] show ?thesis by (simp add: contains_interval_def)
qed simp_all

lemma check_offset_reads:
  assumes "checked ar" and "in_seg W ar sid p 8"
  shows "reads W (check_offset ar sid p k) (\<lambda>q. \<exists>i. q = PAt sid i) no_panic"
proof -
  from assms(2) obtain i where p: "p = PAt sid (int i)" by (auto simp: in_seg_def)
  have "reads W (check_offset_default ar sid p k) (\<lambda>q. \<exists>i. q = PAt sid i) no_panic"
    unfolding check_offset_default_def
    by (rule reads_bindp [OF get_segment_reads [OF assms(1)]], rule reads_prod)
      (auto simp: p Let_def intro!: reads_intros)
  then show ?thesis
    using assms(1) by (cases ar) (simp_all add: check_offset_def)
qed

end
