(* ===== verification/Far_Pointers.thy ===== *)
theory Far_Pointers
  imports Read_Logic
begin

text \<open>
  The helpers of \<^verbatim>\<open>capnp/src/private/layout.rs\<close> that every read goes through: rounding, the
  bounds check, far-pointer resolution and \<open>total_size\<close>. A message from the network is any
  sequence of bytes, so the lemmas make no assumption on the contents of the segments: on the
  arenas that check their bounds no sequence of bytes makes these functions touch memory
  outside a segment.

  Counts are natural numbers; a cast that truncates and an operation that can overflow are
  written out. Undefined behaviour is a dereference outside a segment; the computation of an
  out-of-range address that is bounds-checked before use is not counted.
\<close>

section \<open>Rounding and bounds\<close>

text \<open>On a 32-bit count; \<open>bytes + 7\<close> overflows for the last seven values.\<close>

definition round_bytes_up_to_words :: "nat \<Rightarrow> ('s, nat) prog" where
  "round_bytes_up_to_words bytes =
     (if bytes + 7 < 2 ^ 32 then ret ((bytes + 7) div BYTES_PER_WORD) else panic)"

definition round_bits_up_to_words :: "nat \<Rightarrow> nat" where
  "round_bits_up_to_words bits = ((bits + 63) div BITS_PER_WORD) mod 2 ^ 32"

definition round_bits_up_to_bytes :: "nat \<Rightarrow> nat" where
  "round_bits_up_to_bytes bits = ((bits + 7) div BITS_PER_BYTE) mod 2 ^ 32"

definition bounds_check :: "arena_ref \<Rightarrow> u32 \<Rightarrow> ptr \<Rightarrow> nat \<Rightarrow> wire_pointer_kind \<Rightarrow> (world, unit) prog" where
  "bounds_check ar segment_id start size_in_words k = contains_interval ar segment_id start size_in_words"

section \<open>Far pointers\<close>

definition target_from_segment :: "ptr \<Rightarrow> arena_ref \<Rightarrow> u32 \<Rightarrow> (world, ptr) prog" where
  "target_from_segment p ar segment_id =
     bindp (deref_wp ar p) (\<lambda>x. check_offset ar segment_id p (target_offset x))"

definition follow_fars :: "arena_ref \<Rightarrow> ptr \<Rightarrow> u32 \<Rightarrow> (world, ptr \<times> ptr \<times> u32) prog" where
  "follow_fars ar reff segment_id =
     bindp (deref_wp ar reff) (\<lambda>r.
     if kind r = KFar then
       bindp (get_segment ar (far_segment_id r)) (\<lambda>(seg_start, seg_len).
       let p = ptr_add seg_start (int (unat (far_position_in_segment r)) * int BYTES_PER_WORD);
           pad_words = (if is_double_far r then 2 else 1) in
       seqp (bounds_check ar (far_segment_id r) p pad_words KFar)
       (if \<not> is_double_far r then
          bindp (target_from_segment p ar (far_segment_id r)) (\<lambda>t. ret (t, p, far_segment_id r))
        else
          bindp (deref_wp ar p) (\<lambda>pad.
          bindp (get_segment ar (far_segment_id pad)) (\<lambda>(segment_start, segment_len).
          ret (ptr_add segment_start (int (unat (far_position_in_segment pad)) * int BYTES_PER_WORD),
               ptr_add p (int BYTES_PER_WORD), far_segment_id pad)))))
     else
       bindp (target_from_segment reff ar segment_id) (\<lambda>t. ret (t, reff, segment_id)))"

section \<open>Size of an object tree\<close>

record message_size =
  word_count :: nat
  cap_count :: nat

text \<open>\<open>+=\<close> on \<open>u64\<close> and \<open>u32\<close>, checked.\<close>

definition add_words :: "nat \<Rightarrow> message_size \<Rightarrow> ('s, message_size) prog" where
  "add_words n r = (if word_count r + n < 2 ^ 64 then ret (r\<lparr>word_count := word_count r + n\<rparr>) else panic)"

definition add_caps :: "nat \<Rightarrow> message_size \<Rightarrow> ('s, message_size) prog" where
  "add_caps n r = (if cap_count r + n < 2 ^ 32 then ret (r\<lparr>cap_count := cap_count r + n\<rparr>) else panic)"

definition add_assign :: "message_size \<Rightarrow> message_size \<Rightarrow> ('s, message_size) prog" where
  "add_assign r rhs = bindp (add_words (word_count rhs) r) (add_caps (cap_count rhs))"

text \<open>
  \<open>total_size\<close> recurses with a smaller nesting limit. A loop over pointers adds up the sizes
  from the left; the loop over an inline composite list also moves its position.
\<close>

function total_size :: "arena_ref \<Rightarrow> u32 \<Rightarrow> ptr \<Rightarrow> int \<Rightarrow> (world, message_size) prog" where
  "total_size ar segment_id reff nesting =
     bindp (deref_wp ar reff) (\<lambda>r0.
     let result = \<lparr>word_count = 0, cap_count = 0\<rparr> in
     if wp_is_null r0 then ret result
     else if nesting \<le> 0 then err MessageIsTooDeeplyNested
     else
     bindp (follow_fars ar reff segment_id) (\<lambda>(p, reff', segment_id').
     bindp (deref_wp ar reff') (\<lambda>r.
     case kind r of
       KStruct \<Rightarrow>
         seqp (bounds_check ar segment_id' p (struct_word_size r) KStruct)
         (bindp (add_words (struct_word_size r) result) (\<lambda>result.
          let pointer_section = ptr_add p (int (unat (struct_data_size r)) * int BYTES_PER_WORD) in
          foldp (\<lambda>i res.
              bindp (total_size ar segment_id' (ptr_add pointer_section (int i * 8)) (nesting - 1))
                (add_assign res))
            [0..<unat (struct_ptr_count r)] result))
     | KList \<Rightarrow> (case list_element_size r of
         Void \<Rightarrow> ret result
       | Pointer \<Rightarrow>
           let count = unat (list_element_count r) in
           seqp (bounds_check ar segment_id' p (count * WORDS_PER_POINTER) KList)
           (bindp (add_words (count * WORDS_PER_POINTER) result) (\<lambda>result.
            foldp (\<lambda>i res.
                bindp (total_size ar segment_id' (ptr_add p (int i * 8)) (nesting - 1))
                  (add_assign res))
              [0..<count] result))
       | InlineComposite \<Rightarrow>
           let wc = unat (list_inline_composite_word_count r) in
           seqp (bounds_check ar segment_id' p (wc + POINTER_SIZE_IN_WORDS) KList)
           (bindp (deref_wp ar p) (\<lambda>element_tag.
            let count = unat (inline_composite_list_element_count element_tag);
                actual_size = struct_word_size element_tag * count;
                data_size = unat (struct_data_size element_tag);
                pointer_count = unat (struct_ptr_count element_tag) in
            if kind element_tag \<noteq> KStruct then err CantHandleNonStructInlineComposite
            else if actual_size > wc then err InlineCompositeListsElementsOverrunItsWordCount
            else
            bindp (add_words (actual_size + POINTER_SIZE_IN_WORDS) result) (\<lambda>result.
            if pointer_count > 0 then
              bindp (foldp (\<lambda>_ (res, pos).
                  foldp (\<lambda>_ (res, pos).
                      bindp (total_size ar segment_id' pos (nesting - 1)) (\<lambda>sz.
                      bindp (add_assign res sz) (\<lambda>res'. ret (res', ptr_add pos (int BYTES_PER_WORD)))))
                    [0..<pointer_count] (res, ptr_add pos (int data_size * int BYTES_PER_WORD)))
                [0..<count] (result, ptr_add p (int BYTES_PER_WORD)))
              (\<lambda>(res, _). ret res)
            else ret result)))
       | _ \<Rightarrow>
           let total_words = round_bits_up_to_words
             (unat (list_element_count r) * data_bits_per_element (list_element_size r)) in
           seqp (bounds_check ar segment_id' p total_words KList)
           (add_words total_words result))
     | KFar \<Rightarrow> err MalformedDoubleFarPointer
     | KOther \<Rightarrow> if is_capability r then add_caps 1 result else err UnknownPointerType)))"
  by pat_completeness auto
termination
  by (relation "measure (\<lambda>(ar, segment_id, reff, nesting). nat nesting)") auto

declare total_size.simps [simp del]

section \<open>Following pointers stays in the message\<close>

lemma bounds_check_reads:
  assumes "checked ar" and "p = PNull \<or> p = PAt sid i"
  shows "reads W (bounds_check ar sid p n k) (\<lambda>_. in_seg W ar sid p (n * 8)) no_panic"
  using contains_interval_reads [OF assms] by (simp add: bounds_check_def)

lemma target_from_segment_reads:
  assumes "checked ar" and "in_seg W ar sid p 8"
  shows "reads W (target_from_segment p ar sid) (\<lambda>q. \<exists>i. q = PAt sid i) no_panic"
  unfolding target_from_segment_def
  by (rule reads_bindp [OF deref_wp_in_seg [OF assms(2)] check_offset_reads [OF assms]])

text \<open>
  What \<open>follow_fars\<close> promises: the tag is a word of a segment, and the object's address is an
  offset into the segment that is returned. Nothing is promised of that offset yet.
\<close>

definition resolved :: "world \<Rightarrow> arena_ref \<Rightarrow> ptr \<times> ptr \<times> u32 \<Rightarrow> bool" where
  "resolved W ar = (\<lambda>(p, tag, sid). (\<exists>i. p = PAt sid i) \<and> (\<exists>s. in_seg W ar s tag 8))"

lemma follow_fars_reads:
  assumes "checked ar" and "in_seg W ar sid reff 8"
  shows "reads W (follow_fars ar reff sid) (resolved W ar) no_panic"
  unfolding follow_fars_def Let_def
proof (rule reads_bindp [OF deref_wp_in_seg [OF assms(2)]], rule reads_if, goal_cases)
  case (1 r)
  let ?s = "far_segment_id r" and ?k = "int (unat (far_position_in_segment r)) * int BYTES_PER_WORD"
  show ?case
  proof (rule reads_bindp [OF get_segment_reads [OF assms(1)]], rule reads_prod, clarify,
      rule reads_seqp [OF bounds_check_reads [OF assms(1), of _ _ ?k]], simp, rule reads_if, goal_cases)
    case 1
    then have "in_seg W ar ?s (ptr_add (PAt ?s 0) ?k) 8" by simp
    then show ?case
      by (intro reads_bindp [OF target_from_segment_reads [OF assms(1)]] reads_ret)
        (auto simp: resolved_def)
  next
    case 2
    then have pad: "in_seg W ar ?s (ptr_add (PAt ?s 0) ?k) 16" by simp
    have tag: "in_seg W ar ?s (ptr_add (PAt ?s 0) ?k) 8"
      "in_seg W ar ?s (ptr_add (ptr_add (PAt ?s 0) ?k) 8) 8"
      by (rule in_seg_mono [OF pad], simp) (rule in_seg_sub [OF pad], simp_all)
    then show ?case
      by (intro reads_bindp [OF deref_wp_in_seg] reads_bindp [OF get_segment_reads [OF assms(1)]]
          reads_prod reads_ret) (auto simp: resolved_def)
  qed
next
  case (2 r)
  show ?case
    by (intro reads_bindp [OF target_from_segment_reads [OF assms]] reads_ret)
      (use assms in \<open>auto simp: resolved_def\<close>)
qed

section \<open>The size computation stays in the message\<close>

abbreviation any_failure :: "error_kind option \<Rightarrow> bool" where
  "any_failure \<equiv> (\<lambda>_. True)"

lemma reads_any: "reads W m Q F \<Longrightarrow> reads W m (\<lambda>_. True) any_failure"
  by (rule reads_conseq) auto

lemma add_reads:
  "reads W (add_words n r) (\<lambda>_. True) any_failure"
  "reads W (add_caps n r) (\<lambda>_. True) any_failure"
  by (auto simp: add_words_def add_caps_def intro!: reads_ret reads_panic)

lemma add_assign_reads: "reads W (add_assign r s) (\<lambda>_. True) any_failure"
  unfolding add_assign_def by (intro reads_bindp [OF add_reads(1)] add_reads(2))

text \<open>A pointer-sized slot of an interval of words.\<close>

lemma ref_ok_slot: "in_seg W ar sid p (n * 8) \<Longrightarrow> i < n \<Longrightarrow> ref_ok W ar sid (ptr_add p (int i * 8))"
  unfolding ref_ok_def by (intro disjI2 in_seg_sub [where n = "n * 8"]) auto

lemma ptr_add_add: "ptr_add (ptr_add p i) j = ptr_add p (i + j)"
  by (cases p) simp_all

text \<open>The pointers of element \<open>i\<close> of an inline composite list of \<open>count\<close> elements.\<close>

lemma slot_in_list:
  fixes i j :: nat
  assumes "in_seg W ar sid p ((wc + 1) * 8)" and "(d + c) * count \<le> wc" and "i < count" and "j < c"
  shows "ref_ok W ar sid (ptr_add p (int (1 + i * (d + c) + d + j) * 8))"
proof (rule ref_ok_slot [OF assms(1)])
  have "Suc i * (d + c) \<le> count * (d + c)" using assms(3) by (intro mult_le_mono1) simp
  with assms(2,4) show "1 + i * (d + c) + d + j < wc + 1" by (simp add: mult.commute)
qed

lemma size_loop_reads:
  assumes "\<And>q. ref_ok W ar sid q \<Longrightarrow> reads W (rec q) (\<lambda>_. True) any_failure"
    and "in_seg W ar sid p (n * 8)"
  shows "reads W (foldp (\<lambda>i res. bindp (rec (ptr_add p (int i * 8))) (add_assign res)) [0..<n] r)
    (\<lambda>_. True) any_failure"
  by (rule reads_foldp, simp, rule reads_bindp [OF assms(1) add_assign_reads])
    (use assms(2) in \<open>auto intro: ref_ok_slot\<close>)

lemma composite_loop_reads:
  assumes rec: "\<And>q. ref_ok W ar sid q \<Longrightarrow> reads W (rec q) (\<lambda>_. True) any_failure"
    and seg: "in_seg W ar sid p ((wc + 1) * 8)" and fit: "(d + c) * count \<le> wc"
  shows "reads W (foldp (\<lambda>_ (res, pos).
      foldp (\<lambda>_ (res, pos). bindp (rec pos) (\<lambda>sz. bindp (add_assign res sz) (\<lambda>res'. ret (res', ptr_add pos (int BYTES_PER_WORD)))))
        [0..<c] (res, ptr_add pos (int d * int BYTES_PER_WORD)))
      [0..<count] (r, ptr_add p (int BYTES_PER_WORD))) (\<lambda>_. True) any_failure"
proof -
  define at where "at i j = ptr_add p (int (1 + i * (d + c) + j) * 8)" for i j
  have step: "ptr_add (at i j) (int k * 8) = at i (j + k)" "at i (d + c) = at (Suc i) 0" for i j k
    by (simp_all add: at_def ptr_add_add algebra_simps)
  show ?thesis
    unfolding BYTES_PER_WORD_def of_nat_numeral
  proof (rule reads_conseq [OF reads_foldp_upt [where I = "\<lambda>i (res, pos). pos = at i 0"]])
    fix i and a :: "message_size \<times> ptr"
    assume i: "i < count" and a: "case a of (res, pos) \<Rightarrow> pos = at i 0"
    obtain res where a': "a = (res, at i 0)" using a by (cases a) simp
    have "reads W (foldp (\<lambda>_ (res, pos). bindp (rec pos) (\<lambda>sz. bindp (add_assign res sz) (\<lambda>res'. ret (res', ptr_add pos 8))))
        [0..<c] (res, ptr_add (at i 0) (int d * 8))) (\<lambda>(res, pos). pos = at i (d + c)) any_failure"
    proof (rule reads_foldp_upt [where I = "\<lambda>j (res, pos). pos = at i (d + j)"])
      fix j and b :: "message_size \<times> ptr"
      assume j: "j < c" and "case b of (res, pos) \<Rightarrow> pos = at i (d + j)"
      then obtain res where b: "b = (res, at i (d + j))" by (cases b) simp
      have "ref_ok W ar sid (at i (d + j))"
        using slot_in_list [OF seg fit i j] by (simp add: at_def add.assoc)
      then show "reads W (case b of (res, pos) \<Rightarrow>
          bindp (rec pos) (\<lambda>sz. bindp (add_assign res sz) (\<lambda>res'. ret (res', ptr_add pos 8))))
          (\<lambda>(res, pos). pos = at i (d + Suc j)) any_failure"
        using step(1) [of i "d + j" 1]
        by (auto simp: b intro!: reads_bindp [OF rec] reads_bindp [OF add_assign_reads] reads_ret)
    qed (use step(1) [of i 0 d] in simp)
    then show "reads W (case a of (res, pos) \<Rightarrow>
        foldp (\<lambda>_ (res, pos). bindp (rec pos) (\<lambda>sz. bindp (add_assign res sz) (\<lambda>res'. ret (res', ptr_add pos 8))))
          [0..<c] (res, ptr_add pos (int d * 8))) (\<lambda>(res, pos). pos = at (Suc i) 0) any_failure"
      by (simp add: a' step(2))
  qed (simp_all add: at_def)
qed

lemma total_size_reads:
  assumes "checked ar" and "ref_ok W ar sid reff"
  shows "reads W (total_size ar sid reff nesting) (\<lambda>_. True) any_failure"
  using assms(2)
proof (induction "nat nesting" arbitrary: sid reff nesting rule: less_induct)
  case less
  have ff: "reads W (follow_fars ar q s) (resolved W ar) any_failure" if "in_seg W ar s q 8" for q s
    by (rule reads_conseq [OF follow_fars_reads [OF assms(1) that]]) auto
  show ?case
    unfolding total_size.simps [of ar sid reff] Let_def
  proof (rule reads_bindp [OF deref_wp_ref_ok [OF less.prems]], rule reads_if, rule reads_ret, simp,
      rule reads_if, rule reads_err, simp, rule reads_bindp, rule ff, blast, rule reads_prod, rule reads_prod, goal_cases)
    case (1 r0 x p b tag s)
    then obtain i ts where p: "p = PAt s i" and tag: "in_seg W ar ts tag 8"
      by (auto simp: resolved_def)
    have bc: "reads W (bounds_check ar s p n k) (\<lambda>_. in_seg W ar s p (n * 8)) any_failure" for n k
      by (rule reads_conseq [OF bounds_check_reads [OF assms(1)]]) (auto simp: p)
    have rec: "reads W (total_size ar s q (nesting - 1)) (\<lambda>_. True) any_failure" if "ref_ok W ar s q" for q
      by (rule less.hyps) (use that 1 in auto)
    note loops = size_loop_reads [where rec = "\<lambda>q. total_size ar s q (nesting - 1)", OF rec]
      composite_loop_reads [where rec = "\<lambda>q. total_size ar s q (nesting - 1)", OF rec]
    show ?case
    proof (rule reads_bindp [OF deref_wp_in_seg [OF tag]], goal_cases)
      case (1 r)
      show ?case
      proof (cases "kind r")
        case KStruct
        have "in_seg W ar s (ptr_add p (uint (struct_data_size r) * 8)) (unat (struct_ptr_count r) * 8)"
          if "in_seg W ar s p (struct_word_size r * 8)"
          by (rule in_seg_sub [OF that]) (simp_all add: struct_word_size_def nat_mult_distrib)
        then show ?thesis
          using KStruct by simp (intro reads_seqp [OF bc] reads_bindp [OF add_reads(1)] loops(1), auto)
      next
        case KList
        show ?thesis
        proof (cases "list_element_size r")
          case Pointer
          show ?thesis
            by (simp add: KList Pointer)
              (intro reads_seqp [OF bc] reads_bindp [OF add_reads(1)] loops(1), auto)
        next
          case InlineComposite
          let ?wc = "unat (list_inline_composite_word_count r)"
          have tag: "in_seg W ar s p 8" if "in_seg W ar s p ((?wc + 1) * 8)"
            by (rule in_seg_mono [OF that]) simp
          show ?thesis
            unfolding KList InlineComposite wire_pointer_kind.case element_size.case
          proof (rule reads_seqp [OF bc], rule reads_bindp [OF deref_wp_in_seg [of _ _ s]], goal_cases)
            case 1
            then show ?case using tag by simp
          next
            case (2 tag)
            show ?case
            proof (rule reads_if, rule reads_err, simp, rule reads_if, rule reads_err, simp,
                rule reads_bindp [OF add_reads(1)], rule reads_if, rule reads_bindp, rule loops(2) [where wc = ?wc])
              show "in_seg W ar s p ((?wc + 1) * 8)" using \<open>in_seg W ar s p _\<close> by simp
            qed (auto simp: struct_word_size_def intro!: reads_intros)
          qed
        qed (simp_all add: KList reads_ret, auto intro!: reads_seqp [OF bc] add_reads)
      qed (auto intro!: reads_intros add_reads)
    qed
  qed
qed

section \<open>A sample message\<close>

text \<open>A message of one segment: a struct pointer and a struct of one data word.\<close>

definition sample_world :: "u64 option \<Rightarrow> world" where
  "sample_world lim = \<lparr>w_reader = reader_arena_new
      [\<lparr>seg_addr = 0, seg_bytes = [0, 0, 0, 0, 1, 0, 0, 0, 42, 0, 0, 0, 0, 0, 0, 0]\<rparr>] lim 64,
     w_builder = builder_arena_new (Heap heap_allocator_default), w_caps = []\<rparr>"

text \<open>What evaluates a program on a concrete message.\<close>

lemmas sample_eval = sample_world_def reader_arena_new_def get_segment_def bounds_check_def
  contains_interval_def interval_ok_def charge_def read_limiter_new_def can_read_def
  deref_wp_def deref_def load_def mem_of_def decode_wire_pointer_def wp_is_null_def take_at_def
  kind_def kind_outcome_def wire_pointer_kind_from_def target_offset_def check_offset_def
  check_offset_default_def struct_data_size_def struct_ptr_count_def

end
