(* ===== verification/Traversal.thy ===== *)
theory Traversal
  imports Far_Pointers
begin

text \<open>
  The traversal limit as a budget. \<open>costs m c\<close> says that on a reader arena with a traversal
  limit a successful run of \<open>m\<close> with result \<open>x\<close> has used up at least \<open>c x\<close> words of what was
  left of the limit. Shown: the number of words that \<open>total_size\<close> reports, which is what a copy
  of the object would occupy, is at most the part of the limit that computing it has used up,
  also for a message whose pointers alias each other to claim far more than was sent.
\<close>

definition limited :: "world \<Rightarrow> bool" where
  "limited w \<longleftrightarrow> error_on_limit_exceeded (ra_limiter (w_reader w))"

definition budget :: "world \<Rightarrow> nat" where
  "budget w = unat (limit (ra_limiter (w_reader w)))"

definition costs :: "(world, 'a) prog \<Rightarrow> ('a \<Rightarrow> nat) \<Rightarrow> bool" where
  "costs m c \<longleftrightarrow> (\<forall>w x t. limited w \<longrightarrow> m w = (Ok x, t) \<longrightarrow> limited t \<and> c x + budget t \<le> budget w)"

section \<open>Rules\<close>

lemma costs_bindp:
  assumes "costs m c" and "\<And>x. costs (f x) (d x)" and "\<And>x y. e y \<le> c x + d x y"
  shows "costs (bindp m f) e"
  unfolding costs_def
proof (intro allI impI)
  fix w y t assume w: "limited w" and run: "bindp m f w = (Ok y, t)"
  then obtain x u where mid: "m w = (Ok x, u)" "f x u = (Ok y, t)"
    by (auto simp: bindp_def split: prod.splits outcome.splits)
  then have "limited u" "c x + budget u \<le> budget w" using assms(1) w by (auto simp: costs_def)
  moreover from this mid have "limited t" "d x y + budget t \<le> budget u"
    using assms(2) by (auto simp: costs_def)
  ultimately show "limited t \<and> e y + budget t \<le> budget w" using assms(3) [of y x] by auto
qed

lemma costs_mono: "costs m c \<Longrightarrow> (\<And>x. d x \<le> c x) \<Longrightarrow> costs m d"
  unfolding costs_def by (meson add_le_mono1 le_trans)

lemma costs_ret: "c x = 0 \<Longrightarrow> costs (ret x) c"
  by (simp add: costs_def ret_def)

lemma costs_err: "costs (err e) c" and costs_panic: "costs panic c" and costs_ub: "costs ub c"
  by (simp_all add: costs_def err_def panic_def ub_def)

lemma costs_if: "(b \<Longrightarrow> costs m c) \<Longrightarrow> (\<not> b \<Longrightarrow> costs n c) \<Longrightarrow> costs (if b then m else n) c"
  by simp

lemma costs_free: "(\<And>w. snd (m w) = w) \<Longrightarrow> costs m (\<lambda>_. 0)"
  unfolding costs_def by (metis add_0 order_refl snd_conv)

lemma costs_bindp_free: "costs m c \<Longrightarrow> (\<And>x. costs (f x) d) \<Longrightarrow> costs (bindp m f) d"
  by (rule costs_bindp [where d = "\<lambda>_. d"]) auto

lemma costs_seqp:
  assumes "costs m (\<lambda>_. n)" and "costs k (\<lambda>y. e y - n)"
  shows "costs (seqp m k) e"
  unfolding seqp_def by (rule costs_bindp [OF assms]) simp

text \<open>A loop that adds to a size spends what it adds, when every iteration does.\<close>

lemma costs_foldp:
  assumes "\<And>x a. costs (f x a) (\<lambda>b. g b - g a)"
  shows "costs (foldp f xs a) (\<lambda>b. g b - (g a :: nat))"
proof (induction xs arbitrary: a)
  case Nil
  then show ?case by (simp add: costs_ret)
next
  case (Cons x xs)
  show ?case
    unfolding foldp.simps by (rule costs_bindp [OF assms Cons.IH]) simp
qed

section \<open>Operations\<close>

lemma costs_charge:
  assumes "n < 2 ^ 64"
  shows "costs (charge n) (\<lambda>_. n)"
proof -
  have n: "unat (of_nat n :: u64) = n" using assms by (simp add: unat_of_nat)
  have "n + unat (l - of_nat n) = unat l" if "n \<le> unat l" for l :: u64
    using that n by (simp add: unat_sub word_le_nat_alt)
  then show ?thesis
    by (fastforce simp: costs_def charge_def limited_def budget_def can_read_limited n
        split: prod.splits if_splits)
qed

lemma get_segment_state: "snd (get_segment ar s w) = w"
  by (simp add: get_segment_def Let_def split: arena_ref.split)

lemma bindp_state: "(\<And>w. snd (m w) = w) \<Longrightarrow> (\<And>x w. snd (f x w) = w) \<Longrightarrow> snd (bindp m f w) = w"
proof -
  assume m: "\<And>w. snd (m w) = w" and f: "\<And>x w. snd (f x w) = w"
  obtain r where "m w = (r, w)" using m [of w] by (cases "m w") simp
  with f show ?thesis by (cases r) (simp_all add: bindp_def)
qed

lemma deref_state: "snd (deref ar p n w) = w"
  by (simp add: deref_def split: option.split)

lemma deref_wp_state: "snd (deref_wp ar p w) = w"
  unfolding deref_wp_def by (rule bindp_state) (simp_all add: deref_state ret_def)

lemma interval_ok_state: "snd (interval_ok ar s p n w) = w"
  unfolding interval_ok_def Let_def
  by (rule bindp_state) (auto simp: get_segment_state err_def ub_def ret_def split: ptr.split)

lemma check_offset_state: "snd (check_offset ar s p k w) = w"
  unfolding check_offset_def check_offset_default_def Let_def
  by (cases ar) (auto intro!: bindp_state simp: get_segment_state err_def ub_def ret_def panic_def split: ptr.split)

lemmas free_ops = costs_free [OF get_segment_state] costs_free [OF deref_wp_state]
  costs_free [OF interval_ok_state] costs_free [OF check_offset_state]

lemma costs_bounds_check: "n < 2 ^ 64 \<Longrightarrow> costs (bounds_check AReader s p n k) (\<lambda>_. n)"
  unfolding bounds_check_def contains_interval_def arena_ref.case seqp_def
  by (rule costs_bindp [OF free_ops(3) costs_charge]) auto

lemma costs_follow_fars: "costs (follow_fars AReader reff s) (\<lambda>_. 0)"
proof -
  have target: "costs (target_from_segment p AReader s) (\<lambda>_. 0)" for p s
    unfolding target_from_segment_def by (rule costs_bindp_free [OF free_ops(2) free_ops(4)])
  have bc: "costs (bounds_check AReader s p n k) (\<lambda>_. 0)" if "n < 2 ^ 64" for s p k n
    by (rule costs_mono [OF costs_bounds_check [OF that]]) simp
  show ?thesis
    unfolding follow_fars_def Let_def seqp_def
    by (auto intro!: costs_bindp_free [OF free_ops(2)] costs_bindp_free [OF free_ops(1)] costs_bindp_free [OF target]
        costs_bindp_free [OF bc] costs_ret)
qed

lemma costs_add_words: "costs (add_words n r) (\<lambda>_. 0)" and costs_add_caps: "costs (add_caps n r) (\<lambda>_. 0)"
  by (auto simp: add_words_def add_caps_def intro!: costs_if costs_ret costs_panic)

text \<open>Bounding what follows by the result of \<open>add_words\<close>.\<close>

lemma costs_after_add_words:
  assumes "\<And>r'. word_count r' = word_count r + n \<Longrightarrow> costs (f r') c"
  shows "costs (bindp (add_words n r) f) c"
  unfolding add_words_def by (auto intro!: assms costs_panic)

lemma costs_add_assign: "costs (add_assign r s) (\<lambda>t. word_count t - (word_count r + word_count s))"
  unfolding add_assign_def
  by (rule costs_after_add_words) (auto simp: add_caps_def costs_def ret_def panic_def split: if_splits)

section \<open>The size computation pays for what it reports\<close>

text \<open>The loops of \<open>total_size\<close>, with the recursive call as a parameter that pays for its result.\<close>

lemma costs_size_loop:
  assumes "\<And>q. costs (rec q) word_count"
  shows "costs (foldp (\<lambda>i res. bindp (rec (g i)) (add_assign res)) xs r) (\<lambda>t. word_count t - word_count r)"
  by (rule costs_foldp, rule costs_bindp [OF assms costs_add_assign]) simp

lemma costs_composite_loop:
  assumes "\<And>q. costs (rec q) word_count"
  shows "costs (foldp (\<lambda>_ (res, pos).
      foldp (\<lambda>_ (res, pos). bindp (rec pos) (\<lambda>sz. bindp (add_assign res sz) (\<lambda>res'. ret (res', step pos))))
        ys (res, skip pos)) xs (r, p)) (\<lambda>t. word_count (fst t) - word_count r)"
proof -
  have inner: "costs (bindp (rec pos) (\<lambda>sz. bindp (add_assign res sz) (\<lambda>res'. ret (res', step pos))))
      (\<lambda>t. word_count (fst t) - word_count res)" for res pos
    by (rule costs_bindp [OF assms, where d = "\<lambda>sz y. word_count (fst y) - (word_count res + word_count sz)"],
        rule costs_bindp [OF costs_add_assign, where d = "\<lambda>x y. word_count (fst y) - word_count x"])
      (auto simp: costs_ret)
  have "costs (foldp (\<lambda>_ (res, pos).
      foldp (\<lambda>_ (res, pos). bindp (rec pos) (\<lambda>sz. bindp (add_assign res sz) (\<lambda>res'. ret (res', step pos))))
        ys (res, skip pos)) xs (r, p)) (\<lambda>t. word_count (fst t) - word_count (fst (r, p)))"
  proof (rule costs_foldp, clarify)
    fix res :: message_size and pos
    show "costs (foldp (\<lambda>_ (res, pos). bindp (rec pos) (\<lambda>sz. bindp (add_assign res sz) (\<lambda>res'. ret (res', step pos))))
        ys (res, skip pos)) (\<lambda>t. word_count (fst t) - word_count (fst (res, pos)))"
      using costs_foldp [where g = "\<lambda>t. word_count (fst t)" and a = "(res, skip pos)" and xs = ys,
          of "\<lambda>_ (res, pos). bindp (rec pos) (\<lambda>sz. bindp (add_assign res sz) (\<lambda>res'. ret (res', step pos)))"]
      by (auto simp: inner split: prod.split)
  qed
  then show ?thesis by simp
qed

lemma costs_total_size: "costs (total_size AReader sid reff nesting) word_count"
proof (induction "nat nesting" arbitrary: sid reff nesting rule: less_induct)
  case less
  have rec: "costs (total_size AReader s q (nesting - 1)) word_count" if "0 < nesting" for s q
    by (rule less.hyps) (use that in auto)
  have pay: "costs (seqp (bounds_check AReader s p n k) (bindp (add_words n \<lparr>word_count = 0, cap_count = 0\<rparr>) f)) word_count"
    if "n < 2 ^ 64" "\<And>r. word_count r = n \<Longrightarrow> costs (f r) (\<lambda>t. word_count t - n)" for s p n k f
    by (rule costs_seqp [OF costs_bounds_check [OF that(1)]], rule costs_after_add_words, rule that(2)) simp
  show ?case
    unfolding total_size.simps [of AReader sid reff] Let_def
  proof (rule costs_bindp_free [OF free_ops(2)], rule costs_if, rule costs_ret, simp, rule costs_if, rule costs_err,
      rule costs_bindp_free [OF costs_follow_fars], clarify, rule costs_bindp_free [OF free_ops(2)], goal_cases)
    case (1 r0 p tag s r)
    then have nest: "0 < nesting" by simp
    note loop = costs_size_loop [where rec = "\<lambda>q. total_size AReader s q (nesting - 1)", OF rec [OF nest]]
    note comp = costs_composite_loop [where rec = "\<lambda>q. total_size AReader s q (nesting - 1)", OF rec [OF nest]]
    have small: "struct_word_size r < 2 ^ 64" "unat (list_element_count r) * 1 < 2 ^ 64"
      "unat (list_inline_composite_word_count r) + 1 < 2 ^ 64" "round_bits_up_to_words n < 2 ^ 64" for n
      using struct_word_size_bound [of r] list_element_count_bound [of r]
      by (simp_all add: list_inline_composite_word_count_def round_bits_up_to_words_def)
    show ?case
    proof (cases "kind r")
      case KStruct
      show ?thesis
        unfolding KStruct wire_pointer_kind.case
        by (rule pay [OF small(1)]) (rule costs_mono [OF loop], simp)
    next
      case KList
      have prim: "costs (seqp (bounds_check AReader s p (round_bits_up_to_words n) KList)
          (add_words (round_bits_up_to_words n) \<lparr>word_count = 0, cap_count = 0\<rparr>)) word_count" for n
      proof -
        have "costs (seqp (bounds_check AReader s p (round_bits_up_to_words n) KList)
            (bindp (add_words (round_bits_up_to_words n) \<lparr>word_count = 0, cap_count = 0\<rparr>) ret)) word_count"
          by (rule pay [OF small(4)]) (simp add: costs_ret)
        then show ?thesis by simp
      qed
      show ?thesis
      proof (cases "list_element_size r")
        case Pointer
        show ?thesis
          unfolding KList Pointer wire_pointer_kind.case element_size.case WORDS_PER_POINTER_def
          by (rule pay [OF small(2)]) (rule costs_mono [OF loop], simp)
      next
        case InlineComposite
        let ?wc = "unat (list_inline_composite_word_count r)"
        show ?thesis
          unfolding KList InlineComposite wire_pointer_kind.case element_size.case POINTER_SIZE_IN_WORDS_def
        proof (rule costs_seqp [OF costs_bounds_check [OF small(3)]], rule costs_bindp_free [OF free_ops(2)],
            rule costs_if, rule costs_err, rule costs_if, rule costs_err, rule costs_after_add_words, goal_cases)
          case (1 tag res)
          show ?case
            by (rule costs_if, rule costs_bindp [OF comp, where d = "\<lambda>x y. word_count y - word_count (fst x)"])
              (use 1 in \<open>auto intro!: costs_ret\<close>)
        qed
      qed (simp_all only: KList wire_pointer_kind.case element_size.case prim, simp add: costs_ret)
    qed (auto intro!: costs_if costs_err simp: add_caps_def costs_def ret_def err_def panic_def)
  qed
qed

text \<open>
  C13: Amplification is bounded by the traversal limit. On a message with a traversal limit, a
  successful \<open>total_size\<close> reports at most as many words as it has taken off the limit, so at most
  the limit, however often the pointers of the message lead to the same words.
\<close>

theorem total_size_within_limit:
  assumes "ra_limiter (w_reader w) = read_limiter_new (Some L)"
    and "total_size AReader sid reff nesting w = (Ok sz, w')"
  shows "word_count sz + unat (limit (ra_limiter (w_reader w'))) \<le> unat L"
proof -
  have "limited w" "budget w = unat L" using assms(1) by (simp_all add: limited_def budget_def read_limiter_new_def)
  with costs_total_size [of sid reff nesting] assms(2) show ?thesis
    unfolding costs_def by (fastforce simp: budget_def)
qed

lemma sample_total_size:
  "\<exists>w'. total_size AReader 0 (PAt 0 0) 64 (sample_world (Some 100)) = (Ok \<lparr>word_count = 1, cap_count = 0\<rparr>, w')"
  by (simp add: total_size.simps [of _ _ "PAt _ _"] follow_fars_def target_from_segment_def add_words_def
      struct_word_size_def sample_eval run_simps)

theorem total_size_within_limit_witness:
  "\<exists>w'. total_size AReader 0 (PAt 0 0) 64 (sample_world (Some 100)) = (Ok \<lparr>word_count = 1, cap_count = 0\<rparr>, w') \<and>
     1 + unat (limit (ra_limiter (w_reader w'))) \<le> 100"
proof -
  obtain w' where w': "total_size AReader 0 (PAt 0 0) 64 (sample_world (Some 100)) = (Ok \<lparr>word_count = 1, cap_count = 0\<rparr>, w')"
    using sample_total_size by blast
  have "ra_limiter (w_reader (sample_world (Some 100))) = read_limiter_new (Some 100)"
    by (simp add: sample_world_def reader_arena_new_def)
  from total_size_within_limit [OF this w'] w' show ?thesis by simp
qed

end
