(* ===== verification/Stream_IO.thy ===== *)
theory Stream_IO
  imports Primitive
begin

text \<open>
  The \<open>Read\<close> and \<open>Write\<close> traits of \<^verbatim>\<open>capnp/src/io.rs\<close>. A reader is a state with a function
  that reads at most so many bytes; a read of no bytes is the end of the stream. A read may
  return fewer bytes than asked for, and the code above it has to cope with that. A writer is a
  state with a function that takes all bytes or fails.

  The locale \<open>reliable_read\<close> is the contract of a stream that does not fail: what is read is the
  front of what is left. Its lemmas about \<open>read_exact\<close> are what the message formats rest on. It
  is interpreted on a byte slice and on a stream that delivers its bytes in pieces.
\<close>

section \<open>Read\<close>

text \<open>
  \<open>Read::read_exact\<close>: reads until the buffer is full. A reader that claims more bytes than the
  buffer holds makes the slice index panic.
\<close>

function read_exact :: "(nat \<Rightarrow> ('r, u8 list) prog) \<Rightarrow> nat \<Rightarrow> ('r, u8 list) prog" where
  "read_exact rd n =
     (if n = 0 then ret []
      else bindp (rd n) (\<lambda>bs.
        if bs = [] then err FailedToFillTheWholeBuffer
        else if length bs > n then panic
        else bindp (read_exact rd (n - length bs)) (\<lambda>rest. ret (bs @ rest))))"
  by pat_completeness auto
termination
  by (relation "measure snd") auto

declare read_exact.simps [simp del]

text \<open>\<open>Read for &[u8]\<close>.\<close>

definition slice_read :: "nat \<Rightarrow> (u8 list, u8 list) prog" where
  "slice_read n s = (let amt = min n (length s) in (Ok (take amt s), drop amt s))"

text \<open>A stream that arrives in pieces, as a socket delivers it: a read returns at most the rest
  of the first piece.\<close>

fun chunk_read :: "nat \<Rightarrow> (u8 list list, u8 list) prog" where
  "chunk_read n [] = (Ok [], [])"
| "chunk_read n (c # cs) =
     (if c = [] then chunk_read n cs
      else if n < length c then (Ok (take n c), drop n c # cs)
      else (Ok c, cs))"

locale reliable_read =
  fixes rd :: "nat \<Rightarrow> ('r, u8 list) prog"
    and content :: "'r \<Rightarrow> u8 list"
  assumes read_front:
    "\<exists>bs r'. rd n r = (Ok bs, r') \<and> content r = bs @ content r' \<and> length bs \<le> n \<and>
       (bs = [] \<longrightarrow> n = 0 \<or> content r = [])"
begin

lemma read_exact_full:
  "n \<le> length (content r) \<Longrightarrow>
   \<exists>r'. read_exact rd n r = (Ok (take n (content r)), r') \<and> content r' = drop n (content r)"
proof (induction n arbitrary: r rule: less_induct)
  case (less n)
  show ?case
  proof (cases "n = 0")
    case True
    then show ?thesis by (simp add: read_exact.simps [of _ 0] ret_def)
  next
    case False
    obtain bs r' where rd: "rd n r = (Ok bs, r')" "content r = bs @ content r'" "length bs \<le> n"
      and eof: "bs = [] \<Longrightarrow> n = 0 \<or> content r = []" using read_front [of n r] by blast
    have ne: "bs \<noteq> []" using eof False less.prems by auto
    have lt: "n - length bs < n" and le: "n - length bs \<le> length (content r')"
      using ne False less.prems rd by (auto simp: length_greater_0_conv [symmetric] simp del: length_greater_0_conv)
    obtain t where "read_exact rd (n - length bs) r' = (Ok (take (n - length bs) (content r')), t)"
      "content t = drop (n - length bs) (content r')"
      using less.IH [OF lt le] by blast
    then show ?thesis
      using False ne rd by (subst read_exact.simps) (simp add: bindp_def ret_def)
  qed
qed

lemma read_exact_short:
  "length (content r) < n \<Longrightarrow> \<exists>r'. read_exact rd n r = (Err FailedToFillTheWholeBuffer, r')"
proof (induction n arbitrary: r rule: less_induct)
  case (less n)
  obtain bs r' where rd: "rd n r = (Ok bs, r')" "content r = bs @ content r'" "length bs \<le> n"
    using read_front [of n r] by blast
  show ?case
  proof (cases "bs = []")
    case True
    then show ?thesis using rd less.prems by (subst read_exact.simps) (simp add: bindp_def err_def)
  next
    case False
    then have lt: "n - length bs < n" and short: "length (content r') < n - length bs"
      using less.prems rd by (auto simp: length_greater_0_conv [symmetric] simp del: length_greater_0_conv)
    obtain t where "read_exact rd (n - length bs) r' = (Err FailedToFillTheWholeBuffer, t)"
      using less.IH [OF lt short] by blast
    then show ?thesis
      using False rd less.prems by (subst read_exact.simps) (simp add: bindp_def)
  qed
qed

text \<open>A first read followed by \<open>read_exact\<close> for what is missing, as the header is read.\<close>

lemma read_then_exact:
  assumes "n \<le> length (content r)" and "0 < n"
  obtains bs r\<^sub>1 r\<^sub>2 where "rd n r = (Ok bs, r\<^sub>1)" "bs \<noteq> []" "length bs \<le> n"
    "read_exact rd (n - length bs) r\<^sub>1 = (Ok (drop (length bs) (take n (content r))), r\<^sub>2)"
    "bs = take (length bs) (content r)" "content r\<^sub>2 = drop n (content r)"
    "length bs = n \<Longrightarrow> content r\<^sub>1 = drop n (content r)"
proof -
  obtain bs r\<^sub>1 where rd: "rd n r = (Ok bs, r\<^sub>1)" "content r = bs @ content r\<^sub>1" "length bs \<le> n"
    and eof: "bs = [] \<Longrightarrow> n = 0 \<or> content r = []" using read_front [of n r] by blast
  have le: "n - length bs \<le> length (content r\<^sub>1)" using assms(1) rd(2) by simp
  from read_exact_full [OF le] obtain r\<^sub>2 where
    "read_exact rd (n - length bs) r\<^sub>1 = (Ok (take (n - length bs) (content r\<^sub>1)), r\<^sub>2)"
    "content r\<^sub>2 = drop (n - length bs) (content r\<^sub>1)" by blast
  with rd eof assms show ?thesis by (intro that [of bs r\<^sub>1 r\<^sub>2]) auto
qed

end

interpretation slice_stream: reliable_read slice_read "\<lambda>s. s"
  by unfold_locales (auto simp: slice_read_def Let_def min_def split: if_splits)

lemma chunk_read_front:
  "\<exists>bs cs'. chunk_read n cs = (Ok bs, cs') \<and> concat cs = bs @ concat cs' \<and> length bs \<le> n \<and>
     (bs = [] \<longrightarrow> n = 0 \<or> concat cs = [])"
  by (induction n cs rule: chunk_read.induct) (auto simp: not_less)

interpretation chunk_stream: reliable_read chunk_read concat
  by unfold_locales (rule chunk_read_front)

section \<open>Write\<close>

text \<open>\<open>Write for Vec<u8>\<close>, and for a slice: the writer is what is left of the slice, with the
  bytes written so far in front of it.\<close>

definition vec_write_all :: "u8 list \<Rightarrow> (u8 list, unit) prog" where
  "vec_write_all buf out = (Ok (), out @ buf)"

definition slice_write_all :: "u8 list \<Rightarrow> (u8 list \<times> u8 list, unit) prog" where
  "slice_write_all buf st = (case st of (done, left) \<Rightarrow>
     if length buf > length left then (Err BufferNotLargeEnough, st)
     else (Ok (), (done @ buf, drop (length buf) left)))"

text \<open>The contract of a writer with room for what is written.\<close>

locale reliable_write =
  fixes wr :: "u8 list \<Rightarrow> ('w, unit) prog"
    and written :: "'w \<Rightarrow> u8 list"
    and room :: "'w \<Rightarrow> nat \<Rightarrow> bool"
  assumes write_end: "room w (length buf) \<Longrightarrow>
      \<exists>w'. wr buf w = (Ok (), w') \<and> written w' = written w @ buf \<and> (\<forall>n. room w (length buf + n) \<longrightarrow> room w' n)"
    and room_mono: "room w n \<Longrightarrow> m \<le> n \<Longrightarrow> room w m"
begin

text \<open>Two writes in sequence write the concatenation.\<close>

lemma write_foldp:
  "room w (length (concat (map f xs))) \<Longrightarrow>
   \<exists>w'. foldp (\<lambda>x _. wr (f x)) xs () w = (Ok (), w') \<and> written w' = written w @ concat (map f xs) \<and>
     (\<forall>n. room w (length (concat (map f xs)) + n) \<longrightarrow> room w' n)"
proof (induction xs arbitrary: w)
  case Nil
  then show ?case by (simp add: ret_def)
next
  case (Cons x xs)
  have "room w (length (f x))" using Cons.prems by (rule room_mono) simp
  then obtain w1 where w1: "wr (f x) w = (Ok (), w1)" "written w1 = written w @ f x"
    "\<And>n. room w (length (f x) + n) \<Longrightarrow> room w1 n" using write_end by blast
  have "room w1 (length (concat (map f xs)))" using Cons.prems by (intro w1(3)) simp
  from Cons.IH [OF this] w1 show ?case by (auto simp: bindp_def add.assoc)
qed

end

interpretation vec_writer: reliable_write vec_write_all "\<lambda>out. out" "\<lambda>_ _. True"
  by unfold_locales (auto simp: vec_write_all_def)

interpretation slice_writer: reliable_write slice_write_all fst "\<lambda>st n. n \<le> length (snd st)"
  by unfold_locales (auto simp: slice_write_all_def split: prod.splits)

end
