(* ===== verification/Serialize.thy ===== *)
theory Serialize
  imports Stream_IO Arena
begin

text \<open>
  The standard stream format, \<^verbatim>\<open>capnp/src/serialize.rs\<close>, and the \<open>ReaderSegments\<close> of
  \<^verbatim>\<open>capnp/src/message.rs\<close> that it is generic over. The code is generic in the stream and in the
  container of segments; here these are function parameters, and the contracts that the proofs
  rely on are the locales \<open>reliable_read\<close>, \<open>reliable_write\<close> and \<open>reader_segments\<close>.

  Shown: writing produces the segment table of the format followed by the segments; reading it
  back from any stream, however it is cut into pieces, gives the segments and leaves what
  follows the message; a truncated stream and an oversized table are errors.
\<close>

section \<open>Options and containers of segments\<close>

record reader_options =
  traversal_limit_in_words :: "u64 option"
  option_nesting_limit :: int

definition DEFAULT_READER_OPTIONS :: reader_options where
  "DEFAULT_READER_OPTIONS = \<lparr>traversal_limit_in_words = Some (8 * 1024 * 1024), option_nesting_limit = 64\<rparr>"

definition SEGMENTS_COUNT_LIMIT :: nat where
  "SEGMENTS_COUNT_LIMIT = 512"

text \<open>\<open>&xs[a..b]\<close>.\<close>

definition slice_range :: "nat \<Rightarrow> nat \<Rightarrow> 'a list \<Rightarrow> 'a list outcome" where
  "slice_range a b xs = (if a \<le> b \<and> b \<le> length xs then Ok (take_at a (b - a) xs) else Panic)"

text \<open>\<open>ReaderSegments\<close> for a slice or vector of segments.\<close>

definition vec_get_segment :: "u8 list list \<Rightarrow> u32 \<Rightarrow> u8 list option outcome" where
  "vec_get_segment segs i = Ok (if unat i < length segs then Some (segs ! unat i) else None)"

definition vec_len :: "u8 list list \<Rightarrow> nat outcome" where
  "vec_len segs = Ok (length segs)"

record buffer_segments =
  buffer :: "u8 list"
  segment_table_bytes_len :: nat
  bs_segment_indices :: "(nat \<times> nat) list"

definition buffer_get_segment :: "buffer_segments \<Rightarrow> u32 \<Rightarrow> u8 list option outcome" where
  "buffer_get_segment self i =
     (if i < of_nat (length (bs_segment_indices self))
      then (case bs_segment_indices self ! unat i of (a, b) \<Rightarrow>
        case slice_range (segment_table_bytes_len self + a * BYTES_PER_WORD)
               (segment_table_bytes_len self + b * BYTES_PER_WORD) (buffer self) of
          Ok seg \<Rightarrow> Ok (Some seg) | Err e \<Rightarrow> Err e | Panic \<Rightarrow> Panic | UB \<Rightarrow> UB)
      else Ok None)"

definition buffer_len :: "buffer_segments \<Rightarrow> nat outcome" where
  "buffer_len self = Ok (length (bs_segment_indices self))"

record owned_segments =
  os_segment_indices :: "(nat \<times> nat) list"
  owned_space :: "u8 list"

definition owned_get_segment :: "owned_segments \<Rightarrow> u32 \<Rightarrow> u8 list option outcome" where
  "owned_get_segment self i =
     (if i < of_nat (length (os_segment_indices self))
      then (case os_segment_indices self ! unat i of (a, b) \<Rightarrow>
        case slice_range (a * BYTES_PER_WORD) (b * BYTES_PER_WORD) (owned_space self) of
          Ok seg \<Rightarrow> Ok (Some seg) | Err e \<Rightarrow> Err e | Panic \<Rightarrow> Panic | UB \<Rightarrow> UB)
      else Ok None)"

definition owned_len :: "owned_segments \<Rightarrow> nat outcome" where
  "owned_len self = Ok (length (os_segment_indices self))"

section \<open>The segment table\<close>

record segment_lengths_builder =
  slb_segment_indices :: "(nat \<times> nat) list"
  total_words :: nat

definition with_capacity :: "nat \<Rightarrow> segment_lengths_builder" where
  "with_capacity cap = \<lparr>slb_segment_indices = [], total_words = 0\<rparr>"

definition try_push_segment :: "nat \<Rightarrow> segment_lengths_builder \<Rightarrow> ('s, segment_lengths_builder) prog" where
  "try_push_segment length_in_words self =
     (let new_total_words = total_words self + length_in_words in
      if new_total_words \<ge> 2 ^ 64 then err MessageSizeOverflow
      else ret \<lparr>slb_segment_indices = slb_segment_indices self @ [(total_words self, new_total_words)],
                total_words = new_total_words\<rparr>)"

definition into_owned_segments :: "segment_lengths_builder \<Rightarrow> owned_segments" where
  "into_owned_segments self = \<lparr>os_segment_indices = slb_segment_indices self,
     owned_space = replicate (total_words self * BYTES_PER_WORD) 0\<rparr>"

definition into_slice_segments :: "u8 list \<Rightarrow> nat \<Rightarrow> segment_lengths_builder \<Rightarrow> ('s, buffer_segments) prog" where
  "into_slice_segments sl table_len self =
     seqp (assertp (total_words self * BYTES_PER_WORD \<le> length sl))
     (ret \<lparr>buffer = sl, segment_table_bytes_len = table_len,
           bs_segment_indices = slb_segment_indices self\<rparr>)"

definition u32_at :: "nat \<Rightarrow> u8 list \<Rightarrow> u32" where
  "u32_at i buf = from_le_bytes (take_at i 4 buf)"

text \<open>The loop that pushes the lengths found in a buffer.\<close>

definition push_lengths :: "u8 list \<Rightarrow> nat \<Rightarrow> segment_lengths_builder \<Rightarrow> ('s, segment_lengths_builder) prog" where
  "push_lengths buf count b = foldp (\<lambda>idx b. try_push_segment (unat (u32_at (idx * 4) buf)) b) [0..<count] b"

definition read_segment_table ::
  "(nat \<Rightarrow> ('r, u8 list) prog) \<Rightarrow> reader_options \<Rightarrow> ('r, segment_lengths_builder option) prog" where
  "read_segment_table rd options =
     bindp (rd 8) (\<lambda>first.
     let n = length first in
     if n = 0 then ret None
     else
     bindp (if n < 8 then bindp (read_exact rd (8 - n)) (\<lambda>rest. ret (first @ rest)) else ret first) (\<lambda>buf.
     let segment_count = unat (u32_at 0 buf + 1) in
     if segment_count \<ge> SEGMENTS_COUNT_LIMIT \<or> segment_count = 0
     then err (InvalidNumberOfSegments segment_count)
     else
     bindp (try_push_segment (unat (u32_at 4 buf)) (with_capacity segment_count)) (\<lambda>b.
     bindp (if segment_count > 1 then
              if segment_count < 4
              then bindp (read_exact rd 8) (\<lambda>buf. push_lengths buf (segment_count - 1) b)
              else bindp (read_exact rd ((segment_count - segment_count mod 2) * 4))
                     (\<lambda>segment_sizes. push_lengths segment_sizes (segment_count - 1) b)
            else ret b) (\<lambda>b.
     case traversal_limit_in_words options of
       Some lim \<Rightarrow> if total_words b > unat lim then err (MessageTooLarge (total_words b)) else ret (Some b)
     | None \<Rightarrow> ret (Some b)))))"

section \<open>Reading messages\<close>

text \<open>
  \<open>message::Reader::new\<close> on a container of segments: the arena of the message. The segments
  of an aligned buffer start at a multiple of eight bytes from its base address.
\<close>

definition read_segments ::
  "(nat \<Rightarrow> ('r, u8 list) prog) \<Rightarrow> owned_segments \<Rightarrow> ('r, owned_segments) prog" where
  "read_segments rd owned =
     bindp (read_exact rd (length (owned_space owned))) (\<lambda>bytes. ret (owned\<lparr>owned_space := bytes\<rparr>))"

definition read_message ::
  "(nat \<Rightarrow> ('r, u8 list) prog) \<Rightarrow> reader_options \<Rightarrow> ('r, owned_segments) prog" where
  "read_message rd options =
     bindp (read_segment_table rd options) (\<lambda>r. case r of
       None \<Rightarrow> err PrematureEndOfFile
     | Some b \<Rightarrow> read_segments rd (into_owned_segments b))"

definition try_read_message ::
  "(nat \<Rightarrow> ('r, u8 list) prog) \<Rightarrow> reader_options \<Rightarrow> ('r, owned_segments option) prog" where
  "try_read_message rd options =
     bindp (read_segment_table rd options) (\<lambda>r. case r of
       None \<Rightarrow> ret None
     | Some b \<Rightarrow> bindp (read_segments rd (into_owned_segments b)) (\<lambda>s. ret (Some s)))"

text \<open>The state is the slice, which is advanced past the message on success.\<close>

definition read_message_from_flat_slice :: "reader_options \<Rightarrow> (u8 list, buffer_segments) prog" where
  "read_message_from_flat_slice options sl =
     (case read_segment_table slice_read options sl of
       (Ok None, _) \<Rightarrow> (Err EmptySlice, sl)
     | (Ok (Some b), bytes) \<Rightarrow>
         (let table_len = length sl - length bytes;
              num_words = total_words b;
              body_bytes = drop table_len sl in
          if table_len mod BYTES_PER_WORD \<noteq> 0 then (Panic, sl)
          else if num_words > length body_bytes div BYTES_PER_WORD
          then (Err (MessageEndsPrematurely num_words (length body_bytes div BYTES_PER_WORD)), sl)
          else
            (case into_slice_segments sl table_len b () of
               (Ok s, _) \<Rightarrow> (Ok s, drop (num_words * BYTES_PER_WORD) body_bytes)
             | (Err e, _) \<Rightarrow> (Err e, sl) | (Panic, _) \<Rightarrow> (Panic, sl) | (UB, _) \<Rightarrow> (UB, sl)))
     | (Err e, _) \<Rightarrow> (Err e, sl) | (Panic, _) \<Rightarrow> (Panic, sl) | (UB, _) \<Rightarrow> (UB, sl))"

definition buffer_segments_new :: "u8 list \<Rightarrow> reader_options \<Rightarrow> buffer_segments outcome" where
  "buffer_segments_new buf options =
     (case read_segment_table slice_read options buf of
       (Ok None, _) \<Rightarrow> Err EmptyBuffer
     | (Ok (Some b), bytes) \<Rightarrow>
         if total_words b * 8 \<le> length buf
         then Ok \<lparr>buffer = buf, segment_table_bytes_len = length buf - length bytes,
                  bs_segment_indices = slb_segment_indices b\<rparr>
         else Panic
     | (Err e, _) \<Rightarrow> Err e | (Panic, _) \<Rightarrow> Panic | (UB, _) \<Rightarrow> UB)"

section \<open>Writing messages\<close>

definition seg_words :: "u8 list \<Rightarrow> u8 list" where
  "seg_words seg = to_le_bytes 4 (of_nat (length seg div BYTES_PER_WORD) :: u32)"

definition unwrap_segment ::
  "('c \<Rightarrow> u32 \<Rightarrow> u8 list option outcome) \<Rightarrow> 'c \<Rightarrow> nat \<Rightarrow> ('s, u8 list) prog" where
  "unwrap_segment gs segments i =
     bindp (of_outcome (gs segments (of_nat i))) (\<lambda>r. case r of Some seg \<Rightarrow> ret seg | None \<Rightarrow> panic)"

text \<open>The loop that writes the lengths of segments 1 and up into a buffer.\<close>

definition fill_lengths ::
  "('c \<Rightarrow> u32 \<Rightarrow> u8 list option outcome) \<Rightarrow> 'c \<Rightarrow> nat \<Rightarrow> u8 list \<Rightarrow> ('s, u8 list) prog" where
  "fill_lengths gs segments segment_count buf =
     foldp (\<lambda>idx buf. bindp (unwrap_segment gs segments idx) (\<lambda>seg.
         ret (write_at ((idx - 1) * 4) (seg_words seg) buf)))
       [1..<segment_count] buf"

definition write_segment_table_internal ::
  "(u8 list \<Rightarrow> ('w, unit) prog) \<Rightarrow> ('c \<Rightarrow> u32 \<Rightarrow> u8 list option outcome) \<Rightarrow> ('c \<Rightarrow> nat outcome) \<Rightarrow> 'c \<Rightarrow>
   ('w, unit) prog" where
  "write_segment_table_internal wr gs len segments =
     bindp (of_outcome (len segments)) (\<lambda>segment_count.
     if segment_count mod 2 ^ 32 = 0 then panic
     else
     bindp (unwrap_segment gs segments 0) (\<lambda>seg0.
     let buf = to_le_bytes 4 (of_nat segment_count - 1 :: u32) @ seg_words seg0 in
     seqp (wr buf)
     (if segment_count > 1 then
        if segment_count < 4 then
          bindp (fill_lengths gs segments segment_count buf) (\<lambda>buf.
          wr (if segment_count = 2 then write_at 4 [0, 0, 0, 0] buf else buf))
        else
          bindp (fill_lengths gs segments segment_count (replicate ((segment_count - segment_count mod 2) * 4) 0))
            (\<lambda>buf. wr (if segment_count mod 2 = 0 then write_at (length buf - 4) [0, 0, 0, 0] buf else buf))
      else ret ())))"

text \<open>The loop \<open>for i in 0..\<close> over \<open>u32\<close>, until there is no such segment.\<close>

function write_segments_from ::
  "(u8 list \<Rightarrow> ('w, unit) prog) \<Rightarrow> ('c \<Rightarrow> u32 \<Rightarrow> u8 list option outcome) \<Rightarrow> 'c \<Rightarrow> nat \<Rightarrow> ('w, unit) prog" where
  "write_segments_from wr gs segments i =
     (if i \<ge> 2 ^ 32 then panic
      else bindp (of_outcome (gs segments (of_nat i))) (\<lambda>r. case r of
          Some segment \<Rightarrow> seqp (wr segment) (write_segments_from wr gs segments (Suc i))
        | None \<Rightarrow> ret ()))"
  by pat_completeness auto
termination
  by (relation "measure (\<lambda>(wr, gs, segments, i). 2 ^ 32 - i)") auto

declare write_segments_from.simps [simp del]

definition write_segments ::
  "(u8 list \<Rightarrow> ('w, unit) prog) \<Rightarrow> ('c \<Rightarrow> u32 \<Rightarrow> u8 list option outcome) \<Rightarrow> 'c \<Rightarrow> ('w, unit) prog" where
  "write_segments wr gs segments = write_segments_from wr gs segments 0"

definition write_message_segments ::
  "(u8 list \<Rightarrow> ('w, unit) prog) \<Rightarrow> ('c \<Rightarrow> u32 \<Rightarrow> u8 list option outcome) \<Rightarrow> ('c \<Rightarrow> nat outcome) \<Rightarrow> 'c \<Rightarrow>
   ('w, unit) prog" where
  "write_message_segments wr gs len segments =
     seqp (write_segment_table_internal wr gs len segments) (write_segments wr gs segments)"

definition write_message :: "(u8 list \<Rightarrow> ('w, unit) prog) \<Rightarrow> builder_arena \<Rightarrow> ('w, unit) prog" where
  "write_message wr message =
     (let segments = get_segments_for_output message in
      seqp (write_segment_table_internal wr vec_get_segment vec_len segments)
        (write_segments wr vec_get_segment segments))"

definition compute_serialized_size ::
  "('c \<Rightarrow> u32 \<Rightarrow> u8 list option outcome) \<Rightarrow> ('c \<Rightarrow> nat outcome) \<Rightarrow> 'c \<Rightarrow> ('s, nat) prog" where
  "compute_serialized_size gs len segments =
     bindp (of_outcome (len segments)) (\<lambda>n.
     foldp (\<lambda>i sz. bindp (unwrap_segment gs segments i) (\<lambda>seg. ret (sz + length seg)))
       [0..<n] ((n div 2 + 1) * BYTES_PER_WORD))"

definition compute_serialized_size_in_words :: "builder_arena \<Rightarrow> ('s, nat) prog" where
  "compute_serialized_size_in_words message =
     bindp (compute_serialized_size vec_get_segment vec_len (get_segments_for_output message))
       (\<lambda>n. ret (n div BYTES_PER_WORD))"

text \<open>The debug assertion on the vector's capacity, which the allocator chooses, is left out.\<close>

definition flatten_segments ::
  "('c \<Rightarrow> u32 \<Rightarrow> u8 list option outcome) \<Rightarrow> ('c \<Rightarrow> nat outcome) \<Rightarrow> 'c \<Rightarrow> ('s, u8 list) prog" where
  "flatten_segments gs len segments =
     bindp (compute_serialized_size gs len segments) (\<lambda>word_count.
     bindp (of_outcome (len segments)) (\<lambda>segment_count.
     let table_size = segment_count div 2 + 1 in
     bindp (case write_segment_table_internal slice_write_all gs len segments
                   ([], replicate (table_size * BYTES_PER_WORD) 0) of
              (Ok _, (done, left)) \<Rightarrow> ret (done @ left)
            | _ \<Rightarrow> panic) (\<lambda>result.
     foldp (\<lambda>i result. bindp (unwrap_segment gs segments i) (\<lambda>segment. ret (result @ segment)))
       [0..<segment_count] result)))"

section \<open>The format\<close>

text \<open>The bytes of a segment table for segments of the given lengths, and of a whole message.\<close>

definition le32 :: "nat \<Rightarrow> u8 list" where
  "le32 n = to_le_bytes 4 (of_nat n :: u32)"

definition table_bytes :: "nat list \<Rightarrow> u8 list" where
  "table_bytes ns = le32 (length ns - 1) @ concat (map le32 ns) @ (if even (length ns) then [0, 0, 0, 0] else [])"

definition message_bytes :: "u8 list list \<Rightarrow> u8 list" where
  "message_bytes segs = table_bytes (map (\<lambda>s. length s div 8) segs) @ concat segs"

lemma length_le32 [simp]: "length (le32 n) = 4"
  by (simp add: le32_def)

lemma length_concat_le32 [simp]: "length (concat (map le32 ns)) = 4 * length ns"
  by (induction ns) simp_all

lemma length_table_bytes: "ns \<noteq> [] \<Longrightarrow> length (table_bytes ns) = (length ns div 2 + 1) * 8"
proof -
  assume "ns \<noteq> []"
  then have "0 < length ns" by simp
  then show ?thesis by (simp add: table_bytes_def) presburger
qed

lemma seg_words_le32: "seg_words seg = le32 (length seg div 8)"
  by (simp add: seg_words_def le32_def)

section \<open>The contract of a container of segments\<close>

locale reader_segments =
  fixes gs :: "'c \<Rightarrow> u32 \<Rightarrow> u8 list option outcome"
    and len :: "'c \<Rightarrow> nat outcome"
    and segs :: "'c \<Rightarrow> u8 list list"
    and valid :: "'c \<Rightarrow> bool"
  assumes get: "valid c \<Longrightarrow> gs c i = Ok (if unat i < length (segs c) then Some (segs c ! unat i) else None)"
    and len: "valid c \<Longrightarrow> len c = Ok (length (segs c))"
    and count: "valid c \<Longrightarrow> length (segs c) < 2 ^ 32"
begin

lemma get_nat: "valid c \<Longrightarrow> i < 2 ^ 32 \<Longrightarrow> gs c (of_nat i) = Ok (if i < length (segs c) then Some (segs c ! i) else None)"
  by (simp add: get unat_of_nat)

lemma unwrap: "valid c \<Longrightarrow> i < length (segs c) \<Longrightarrow> unwrap_segment gs c i = ret (segs c ! i)"
  using count [of c] by (simp add: unwrap_segment_def get_nat fun_eq_iff bindp_def of_outcome_def ret_def)

lemma loop_unwrap:
  assumes "valid c" and "k \<le> length (segs c)"
  shows "foldp (\<lambda>i a. bindp (unwrap_segment gs c i) (\<lambda>seg. ret (f a seg))) [0..<k] a =
    ret (foldl f a (take k (segs c)))"
  using assms(2)
proof (induction k)
  case (Suc k)
  then show ?case by (simp add: foldp_append unwrap [OF assms(1)] take_Suc_conv_app_nth)
qed simp

lemma serialized_size:
  assumes "valid c" and "segs c \<noteq> []"
  shows "compute_serialized_size gs len c = ret (length (message_bytes (segs c)))"
proof -
  have "foldl (\<lambda>sz seg. sz + length seg) a xs = a + length (concat xs)" for a and xs :: "u8 list list"
    by (induction xs arbitrary: a) simp_all
  then show ?thesis
    using assms loop_unwrap [OF assms(1) order_refl, of "\<lambda>sz seg. sz + length seg"]
    by (simp add: compute_serialized_size_def len fun_eq_iff bindp_def of_outcome_def ret_def message_bytes_def
        length_table_bytes)
qed

lemma fill:
  assumes "valid c" and "k < length (segs c)" and "4 * k \<le> length buf"
  shows "fill_lengths gs c (Suc k) buf =
    ret (concat (map seg_words (take k (tl (segs c)))) @ drop (4 * k) buf)"
  using assms(2,3)
proof (induction k)
  case 0
  then show ?case by (simp add: fill_lengths_def)
next
  case (Suc k)
  have len: "length (concat (map seg_words (take k (tl (segs c))))) = 4 * k"
    using Suc.prems length_concat_le32 [of "map (\<lambda>s. length s div 8) (take k (tl (segs c)))"]
    by (simp add: seg_words_le32 [abs_def] comp_def)
  have "write_at (k * 4) (seg_words (segs c ! Suc k)) (concat (map seg_words (take k (tl (segs c)))) @ drop (4 * k) buf) =
      concat (map seg_words (take (Suc k) (tl (segs c)))) @ drop (4 * Suc k) buf"
    using Suc.prems len
    by (simp add: write_at_def take_Suc_conv_app_nth nth_tl mult.commute seg_words_le32)
  with Suc show ?case
    by (simp add: fill_lengths_def foldp_append unwrap [OF assms(1)])
qed

end

text \<open>
  The blocks that a message is written in: the first word, the rest of the table, the segments.
\<close>

definition table_blocks :: "u8 list list \<Rightarrow> u8 list list" where
  "table_blocks segs =
     (le32 (length segs - 1) @ seg_words (hd segs)) #
     (if length segs > 1
      then [concat (map seg_words (tl segs)) @ (if even (length segs) then [0, 0, 0, 0] else [])] else [])"

definition message_blocks :: "u8 list list \<Rightarrow> u8 list list" where
  "message_blocks segs = table_blocks segs @ segs"

lemma concat_table_blocks:
  "segs \<noteq> [] \<Longrightarrow> concat (table_blocks segs) = table_bytes (map (\<lambda>s. length s div 8) segs)"
  by (cases segs) (simp_all add: table_blocks_def table_bytes_def seg_words_le32 [abs_def] comp_def)

lemma concat_message_blocks: "segs \<noteq> [] \<Longrightarrow> concat (message_blocks segs) = message_bytes segs"
  by (simp add: message_blocks_def message_bytes_def concat_table_blocks)

text \<open>Whatever the writer does with it, a container is written block by block.\<close>

context reader_segments
begin

lemma table_program:
  assumes "valid c" and n: "length (segs c) = n" "1 < n"
  shows "(write_segment_table_internal wr gs len c :: ('w, unit) prog) =
    seqp (wr (le32 (n - 1) @ seg_words (hd (segs c))))
      (wr (concat (map seg_words (tl (segs c))) @ (if even n then [0, 0, 0, 0] else [])))"
proof -
  have head: "to_le_bytes 4 (of_nat n - 1 :: u32) = le32 (n - 1)"
    using n(2) by (simp add: le32_def of_nat_diff)
  have small: "n mod 2 ^ 32 = n" using count [OF assms(1)] n by simp
  have hd: "segs c ! 0 = hd (segs c)" using n by (cases "segs c") auto
  have tl: "take (n - 1) (tl (segs c)) = tl (segs c)" using n by simp
  have len': "length (concat (map seg_words (tl (segs c)))) = 4 * (n - 1)"
    using n length_concat_le32 [of "map (\<lambda>s. length s div 8) (tl (segs c))"]
    by (simp add: seg_words_le32 [abs_def] comp_def)
  have fill': "(fill_lengths gs c n buf :: ('w, u8 list) prog) = ret (concat (map seg_words (tl (segs c))) @ drop (4 * (n - 1)) buf)"
    if "4 * (n - 1) \<le> length buf" for buf
    using fill [OF assms(1), of "n - 1" buf] that n tl by simp
  let ?h = "le32 (n - 1) @ seg_words (hd (segs c))"
  have short: "(if n = 2 then write_at 4 [0, 0, 0, 0] (concat (map seg_words (tl (segs c))) @ drop (4 * (n - 1)) ?h)
      else concat (map seg_words (tl (segs c))) @ drop (4 * (n - 1)) ?h) =
      concat (map seg_words (tl (segs c))) @ (if even n then [0, 0, 0, 0] else [])" if "n < 4"
  proof -
    have "n = 2 \<or> n = 3" using that n by auto
    then show ?thesis using len' by (auto simp: write_at_def seg_words_le32)
  qed
  let ?z = "replicate ((n - n mod 2) * 4) (0 :: u8)"
  have long: "(if n mod 2 = 0 then write_at (length (concat (map seg_words (tl (segs c))) @ drop (4 * (n - 1)) ?z) - 4)
        [0, 0, 0, 0] (concat (map seg_words (tl (segs c))) @ drop (4 * (n - 1)) ?z)
      else concat (map seg_words (tl (segs c))) @ drop (4 * (n - 1)) ?z) =
      concat (map seg_words (tl (segs c))) @ (if even n then [0, 0, 0, 0] else [])"
  proof (cases "even n")
    case True
    then have "n * 4 - 4 * (n - 1) = 4" using n by simp
    with True show ?thesis using len' by (simp add: write_at_def even_iff_mod_2_eq_zero)
  next
    case False
    then have "n mod 2 = 1" by (simp add: odd_iff_mod_2_eq_one)
    with False show ?thesis using n by simp
  qed
  have z: "4 * (n - 1) \<le> length ?z" using n by simp
  have h: "4 * (n - 1) \<le> length ?h" if "n < 4" using that n by (simp add: seg_words_le32)
  show ?thesis
    unfolding write_segment_table_internal_def len [OF assms(1)] n(1) Let_def
    using n small by (cases "n < 4")
      (simp_all only: unwrap [OF assms(1)] of_outcome_Ok ret_bindp head hd fill' [OF z] fill' [OF h] short long, simp_all)
qed

lemma table_writes:
  assumes "valid c" and "segs c \<noteq> []"
  shows "(write_segment_table_internal wr gs len c :: ('w, unit) prog) = foldp (\<lambda>b _. wr b) (table_blocks (segs c)) ()"
proof (cases "length (segs c) = 1")
  case True
  then obtain s where s: "segs c = [s]" by (cases "segs c") auto
  then show ?thesis
    unfolding write_segment_table_internal_def len [OF assms(1)] Let_def
    by (simp add: s unwrap [OF assms(1)] table_blocks_def le32_def)
next
  case False
  with assms(2) have "1 < length (segs c)" by (cases "segs c") auto
  then show ?thesis
    unfolding table_program [OF assms(1) refl \<open>1 < length (segs c)\<close>]
    by (simp add: table_blocks_def seqp_def)
qed

lemma segments_write:
  assumes "valid c" and "i \<le> length (segs c)"
  shows "(write_segments_from wr gs c i :: ('w, unit) prog) = foldp (\<lambda>b _. wr b) (drop i (segs c)) ()"
  using assms(2)
proof (induction "length (segs c) - i" arbitrary: i)
  case 0
  then have "i = length (segs c)" by simp
  then show ?case
    using count [OF assms(1)] get_nat [OF assms(1), of i]
    by (subst write_segments_from.simps) simp
next
  case (Suc k)
  then have i: "i < length (segs c)" and "k = length (segs c) - Suc i" by simp_all
  with Suc.hyps(1) [of "Suc i"] show ?case
    using count [OF assms(1)] get_nat [OF assms(1), of i]
    by (subst write_segments_from.simps) (simp add: seqp_def Cons_nth_drop_Suc [symmetric])
qed

lemma message_writes:
  assumes "valid c" and "segs c \<noteq> []"
  shows "(write_message_segments wr gs len c :: ('w, unit) prog) = foldp (\<lambda>b _. wr b) (message_blocks (segs c)) ()"
proof -
  have "foldp (\<lambda>b _. wr b) ys x = foldp (\<lambda>b _. wr b) ys ()" for ys x by simp
  then show ?thesis
    using segments_write [OF assms(1), of 0 wr]
    by (simp add: write_message_segments_def write_segments_def table_writes [OF assms] message_blocks_def
        foldp_append seqp_def)
qed

end

text \<open>Writing a container to a stream with room for it.\<close>

locale segment_writer = reader_segments gs len segs valid + reliable_write wr written room
  for gs :: "'c \<Rightarrow> u32 \<Rightarrow> u8 list option outcome" and len segs valid
    and wr :: "u8 list \<Rightarrow> ('w, unit) prog" and written room
begin

lemma write_table:
  assumes "valid c" "segs c \<noteq> []" and "room w (length (table_bytes (map (\<lambda>s. length s div 8) (segs c))))"
  obtains w' where "write_segment_table_internal wr gs len c w = (Ok (), w')"
    "written w' = written w @ table_bytes (map (\<lambda>s. length s div 8) (segs c))"
  using write_foldp [of w "\<lambda>b. b" "table_blocks (segs c)"] assms
  by (auto simp: table_writes concat_table_blocks)

lemma write_whole:
  assumes "valid c" "segs c \<noteq> []" and "room w (length (message_bytes (segs c)))"
  shows "\<exists>w'. write_message_segments wr gs len c w = (Ok (), w') \<and> written w' = written w @ message_bytes (segs c)"
  using write_foldp [of w "\<lambda>b. b" "message_blocks (segs c)"] assms
  by (auto simp: message_writes concat_message_blocks)

end

lemma write_segment_table_keeps:
  assumes "\<And>buf. keeps P (wr buf)"
  shows "keeps P (write_segment_table_internal wr gs len c)"
  unfolding write_segment_table_internal_def fill_lengths_def unwrap_segment_def Let_def
  by (auto intro!: keeps_bindp keeps_seqp keeps_foldp keeps_simple assms split: option.split)

context reader_segments
begin

lemma flatten:
  assumes c: "valid c" "segs c \<noteq> []"
  shows "flatten_segments gs len c = ret (message_bytes (segs c))"
proof -
  let ?t = "table_bytes (map (\<lambda>s. length s div 8) (segs c))"
  have w: "segment_writer gs len segs valid slice_write_all fst (\<lambda>st n. n \<le> length (snd st))"
    by unfold_locales
  have size: "(length (segs c) div 2 + 1) * BYTES_PER_WORD = length ?t"
    using c(2) by (simp add: length_table_bytes)
  obtain st where st: "write_segment_table_internal slice_write_all gs len c ([], replicate (length ?t) 0) = (Ok (), st)"
    "fst st = ?t"
    using segment_writer.write_table [OF w c, of "([], replicate (length ?t) 0)"] by auto
  have "length (fst st) + length (snd st) = length ?t"
    by (rule keepsD [OF write_segment_table_keeps _ st(1), where P = "\<lambda>st. length (fst st) + length (snd st) = length ?t"])
      (auto simp: keeps_def slice_write_all_def split: prod.splits)
  with st have "snd st = []" by simp
  moreover have "foldl (@) a xs = a @ concat xs" for a and xs :: "u8 list list"
    by (induction xs arbitrary: a) simp_all
  ultimately show ?thesis
    using st loop_unwrap [OF c(1) order_refl, of "(@)"]
    unfolding flatten_segments_def serialized_size [OF c] len [OF c(1)] ret_bindp of_outcome_Ok Let_def size
    by (cases st) (simp add: message_bytes_def)
qed

end

section \<open>Reading back\<close>

text \<open>The word ranges of segments of the given lengths, laid out from word \<open>a\<close>.\<close>

fun segment_ranges :: "nat \<Rightarrow> nat list \<Rightarrow> (nat \<times> nat) list" where
  "segment_ranges a [] = []"
| "segment_ranges a (n # ns) = (a, a + n) # segment_ranges (a + n) ns"

lemma length_segment_ranges [simp]: "length (segment_ranges a ns) = length ns"
  by (induction ns arbitrary: a) simp_all

lemma segment_ranges_nth:
  "i < length ns \<Longrightarrow> segment_ranges a ns ! i = (a + sum_list (take i ns), a + sum_list (take (Suc i) ns))"
  by (induction ns arbitrary: a i) (auto simp: nth_Cons' less_Suc_eq_0_disj)

lemma u32_at_concat:
  assumes "k < length ns" and "ns ! k < 2 ^ 32"
  shows "unat (u32_at (k * 4) (concat (map le32 ns) @ rest)) = ns ! k"
proof -
  have "take_at (k * 4) 4 (concat (map le32 ns) @ rest) = le32 (ns ! k)"
    using assms(1)
  proof (induction ns arbitrary: k)
    case (Cons n ns)
    then show ?case
      by (cases k) (simp_all add: take_at_def)
  qed simp
  then show ?thesis using assms(2) by (simp add: u32_at_def le32_def unat_of_nat)
qed

lemma push_lengths_ok:
  assumes "\<And>k. k < length ns \<Longrightarrow> unat (u32_at (k * 4) buf) = ns ! k"
    and "total_words b + sum_list ns < 2 ^ 64"
  shows "push_lengths buf (length ns) b =
    ret \<lparr>slb_segment_indices = slb_segment_indices b @ segment_ranges (total_words b) ns,
         total_words = total_words b + sum_list ns\<rparr>"
proof -
  have "foldp (\<lambda>idx b. try_push_segment (unat (u32_at (idx * 4) buf)) b) [0..<k] b =
      ret \<lparr>slb_segment_indices = slb_segment_indices b @ segment_ranges (total_words b) (take k ns),
           total_words = total_words b + sum_list (take k ns)\<rparr>" if "k \<le> length ns" for k
    using that
  proof (induction k)
    case (Suc k)
    have ranges: "segment_ranges a (xs @ [x]) = segment_ranges a xs @ [(a + sum_list xs, a + sum_list xs + x)]" for a x xs
      by (induction xs arbitrary: a) simp_all
    have "sum_list (take (Suc k) ns) + sum_list (drop (Suc k) ns) = sum_list ns"
      by (simp flip: sum_list_append)
    then have "total_words b + sum_list (take (Suc k) ns) < 2 ^ 64" using assms(2) by linarith
    with Suc show ?case
      by (simp add: foldp_append assms(1) try_push_segment_def take_Suc_conv_app_nth ranges add.assoc Let_def)
  qed (cases b, simp)
  from this [OF order_refl] show ?thesis by (simp add: push_lengths_def)
qed

lemma take_drop_parts:
  "length a = n \<Longrightarrow> take n (a @ b) = a" "length a = n \<Longrightarrow> drop n (a @ b) = b"
  by simp_all

context reliable_read
begin

text \<open>The first word of a message, possibly delivered in pieces.\<close>

lemma read_first_word:
  assumes "content r = buf @ rest" and "length buf = 8"
  obtains r' where "\<And>k. bindp (rd 8) (\<lambda>first. let n = length first in if n = 0 then z
      else bindp (if n < 8 then bindp (read_exact rd (8 - n)) (\<lambda>rest. ret (first @ rest)) else ret first) k) r = k buf r'"
    "content r' = rest"
proof -
  have le: "8 \<le> length (content r)" using assms by simp
  obtain bs r\<^sub>1 r\<^sub>2 where bs: "rd 8 r = (Ok bs, r\<^sub>1)" "bs \<noteq> []" "length bs \<le> 8"
    "read_exact rd (8 - length bs) r\<^sub>1 = (Ok (drop (length bs) (take 8 (content r))), r\<^sub>2)"
    "bs = take (length bs) (content r)" "content r\<^sub>2 = drop 8 (content r)"
    "length bs = 8 \<Longrightarrow> content r\<^sub>1 = drop 8 (content r)"
    using read_then_exact [OF le] by auto
  have b8: "take 8 (content r) = buf" "drop 8 (content r) = rest" using assms by simp_all
  show ?thesis
  proof (cases "length bs < 8")
    case True
    have "bs @ drop (length bs) buf = buf"
      using bs(3,5) assms by (metis append_take_drop_id le_trans order_refl take_append diff_is_0_eq take_eq_Nil2 append_Nil2)
    with True bs b8 show ?thesis
      by (intro that [of r\<^sub>2]) (auto simp: bindp_def ret_def Let_def)
  next
    case False
    then have "length bs = 8" using bs(3) by simp
    with bs b8 show ?thesis
      by (intro that [of r\<^sub>1]) (auto simp: bindp_def ret_def Let_def)
  qed
qed

end

lemma read_segment_table_run:
  fixes rd :: "nat \<Rightarrow> ('r, u8 list) prog"
  assumes ns: "ns \<noteq> []" "length ns < 512" "\<forall>n \<in> set ns. n < 2 ^ 32" "sum_list ns < 2 ^ 64"
    and limit: "case traversal_limit_in_words options of None \<Rightarrow> True | Some l \<Rightarrow> sum_list ns \<le> unat l"
    and first: "\<And>k. bindp (rd 8) (\<lambda>first. let n = length first in
      if n = 0 then (ret None :: ('r, segment_lengths_builder option) prog)
      else bindp (if n < 8 then bindp (read_exact rd (8 - n)) (\<lambda>rest. ret (first @ rest)) else ret first) k) r =
        k (le32 (length ns - 1) @ le32 (hd ns)) r\<^sub>1"
    and tail: "length ns > 1 \<Longrightarrow> read_exact rd ((length ns - length ns mod 2) * 4) r\<^sub>1 =
        (Ok (concat (map le32 (tl ns)) @ (if even (length ns) then [0, 0, 0, 0] else [])), r\<^sub>2)"
    and single: "length ns = 1 \<Longrightarrow> r\<^sub>2 = r\<^sub>1"
  shows "read_segment_table rd options r =
      (Ok (Some \<lparr>slb_segment_indices = segment_ranges 0 ns, total_words = sum_list ns\<rparr>), r\<^sub>2)"
proof -
  obtain n ns' where n: "ns = n # ns'" using ns(1) by (cases ns) auto
  let ?c = "length ns" and ?buf = "le32 (length ns - 1) @ le32 (hd ns)"
  have at0: "unat (u32_at 0 ?buf + 1) = ?c"
  proof -
    have "u32_at 0 ?buf = of_nat (?c - 1)" by (simp add: u32_at_def take_at_def le32_def)
    then have "u32_at 0 ?buf + 1 = of_nat ?c" by (simp add: n)
    then show ?thesis using ns(2) by (simp add: unat_of_nat)
  qed
  have at4: "unat (u32_at 4 ?buf) = n"
    using ns(3) by (simp add: u32_at_def take_at_def le32_def n unat_of_nat)
  let ?b1 = "\<lparr>slb_segment_indices = [(0, n)], total_words = n\<rparr>"
  have push1: "(try_push_segment n (with_capacity k) :: ('r, _) prog) = ret ?b1" for k
    using ns(4) by (simp add: try_push_segment_def with_capacity_def n)
  have push: "(push_lengths (concat (map le32 ns') @ x) (?c - 1) ?b1 :: ('r, _) prog) =
      ret \<lparr>slb_segment_indices = segment_ranges 0 ns, total_words = sum_list ns\<rparr>" for x
    using push_lengths_ok [of ns' "concat (map le32 ns') @ x" ?b1] ns(3,4) by (simp add: n u32_at_concat)
  have lens: "(if ?c > 1 then
              if ?c < 4 then bindp (read_exact rd 8) (\<lambda>buf. push_lengths buf (?c - 1) ?b1)
              else bindp (read_exact rd ((?c - ?c mod 2) * 4)) (\<lambda>sizes. push_lengths sizes (?c - 1) ?b1)
            else ret ?b1) r\<^sub>1 =
      (Ok \<lparr>slb_segment_indices = segment_ranges 0 ns, total_words = sum_list ns\<rparr>, r\<^sub>2)"
  proof (cases "?c > 1")
    case False
    then have "ns' = []" by (simp add: n)
    with single show ?thesis by (simp add: n ret_def)
  next
    case True
    have "(?c - ?c mod 2) * 4 = 8" if "?c < 4"
    proof -
      have "?c = 2 \<or> ?c = 3" using True that by auto
      then show ?thesis by auto
    qed
    then have "(if ?c < 4 then 8 else (?c - ?c mod 2) * 4) = (?c - ?c mod 2) * 4" by simp
    with True push tail show ?thesis by (auto simp: bindp_def ret_def n)
  qed
  show ?thesis
    unfolding read_segment_table_def first
    unfolding at0 at4 push1 ret_bindp Let_def
    using ns(1,2) limit lens
    by (auto simp: SEGMENTS_COUNT_LIMIT_def bindp_def ret_def split: option.split)
qed

context reliable_read
begin

lemma read_segment_table_ok:
  assumes ns: "ns \<noteq> []" "length ns < 512" "\<forall>n \<in> set ns. n < 2 ^ 32" "sum_list ns < 2 ^ 64"
    and limit: "case traversal_limit_in_words options of None \<Rightarrow> True | Some l \<Rightarrow> sum_list ns \<le> unat l"
    and r: "content r = table_bytes ns @ rest"
  obtains r' where "read_segment_table rd options r =
      (Ok (Some \<lparr>slb_segment_indices = segment_ranges 0 ns, total_words = sum_list ns\<rparr>), r')"
    "content r' = rest"
proof -
  let ?c = "length ns" and ?pad = "if even (length ns) then [0, 0, 0, 0] else []"
  let ?tail = "concat (map le32 (tl ns)) @ ?pad"
  have buf: "content r = (le32 (?c - 1) @ le32 (hd ns)) @ ?tail @ rest" "length (le32 (?c - 1) @ le32 (hd ns)) = 8"
    using r ns(1) by (cases ns; simp add: table_bytes_def)+
  obtain r\<^sub>1 where r1: "content r\<^sub>1 = ?tail @ rest" and first: "\<And>k. bindp (rd 8) (\<lambda>first. let n = length first in
      if n = 0 then (ret None :: ('r, segment_lengths_builder option) prog)
      else bindp (if n < 8 then bindp (read_exact rd (8 - n)) (\<lambda>rest. ret (first @ rest)) else ret first) k) r =
      k (le32 (?c - 1) @ le32 (hd ns)) r\<^sub>1"
    using read_first_word [OF buf] by metis
  let ?k = "(?c - ?c mod 2) * 4"
  have k: "length ?tail = ?k" if "?c > 1"
    using that by (cases ns) (auto simp: even_iff_mod_2_eq_zero mod_Suc split: if_splits)
  obtain r\<^sub>2 where r2: "read_exact rd (length ?tail) r\<^sub>1 = (Ok ?tail, r\<^sub>2)" "content r\<^sub>2 = rest"
    using read_exact_full [of "length ?tail" r\<^sub>1] r1 by (metis length_append le_add1 take_drop_parts)
  show ?thesis
  proof (cases "?c = 1")
    case True
    then have "?tail = []" by (cases ns) auto
    with r1 have "content r\<^sub>1 = rest" by simp
    moreover have "read_segment_table rd options r =
      (Ok (Some \<lparr>slb_segment_indices = segment_ranges 0 ns, total_words = sum_list ns\<rparr>), r\<^sub>1)"
      by (rule read_segment_table_run [OF ns limit first]) (use True in auto)
    ultimately show ?thesis using that by blast
  next
    case False
    have "read_segment_table rd options r =
      (Ok (Some \<lparr>slb_segment_indices = segment_ranges 0 ns, total_words = sum_list ns\<rparr>), r\<^sub>2)"
      by (rule read_segment_table_run [OF ns limit first]) (use False r2(1) k in auto)
    then show ?thesis using r2(2) that by blast
  qed
qed

end

context reliable_read
begin

lemma read_message_ok:
  assumes ns: "ns \<noteq> []" "length ns < 512" "\<forall>n \<in> set ns. n < 2 ^ 32" "sum_list ns < 2 ^ 64"
    and limit: "case traversal_limit_in_words options of None \<Rightarrow> True | Some l \<Rightarrow> sum_list ns \<le> unat l"
    and r: "content r = table_bytes ns @ body @ rest" "length body = sum_list ns * 8"
  shows "\<exists>r'. read_message rd options r =
      (Ok \<lparr>os_segment_indices = segment_ranges 0 ns, owned_space = body\<rparr>, r') \<and> content r' = rest"
proof -
  obtain r1 where r1: "read_segment_table rd options r =
      (Ok (Some \<lparr>slb_segment_indices = segment_ranges 0 ns, total_words = sum_list ns\<rparr>), r1)"
    "content r1 = body @ rest"
    using read_segment_table_ok [OF ns limit r(1)] by blast
  obtain r2 where "read_exact rd (sum_list ns * 8) r1 = (Ok body, r2)" "content r2 = rest"
    using read_exact_full [of "sum_list ns * 8" r1] r1(2) r(2) by (metis length_append le_add1 take_drop_parts)
  with r1 show ?thesis
    by (simp add: read_message_def read_segments_def into_owned_segments_def bindp_def ret_def)
qed

lemma read_message_truncated:
  assumes ns: "ns \<noteq> []" "length ns < 512" "\<forall>n \<in> set ns. n < 2 ^ 32" "sum_list ns < 2 ^ 64"
    and limit: "case traversal_limit_in_words options of None \<Rightarrow> True | Some l \<Rightarrow> sum_list ns \<le> unat l"
    and r: "content r = table_bytes ns @ body" "length body < sum_list ns * 8"
  shows "\<exists>r'. read_message rd options r = (Err FailedToFillTheWholeBuffer, r')"
proof -
  obtain r1 where r1: "read_segment_table rd options r =
      (Ok (Some \<lparr>slb_segment_indices = segment_ranges 0 ns, total_words = sum_list ns\<rparr>), r1)"
    "content r1 = body"
    using read_segment_table_ok [OF ns limit r(1)] by blast
  then obtain r2 where "read_exact rd (sum_list ns * 8) r1 = (Err FailedToFillTheWholeBuffer, r2)"
    using read_exact_short [of r1 "sum_list ns * 8"] r(2) by auto
  with r1 show ?thesis
    by (simp add: read_message_def read_segments_def into_owned_segments_def bindp_def)
qed

end

section \<open>Containers meet their contract\<close>

definition cut_at :: "(nat \<times> nat) list \<Rightarrow> nat \<Rightarrow> u8 list \<Rightarrow> u8 list list" where
  "cut_at ranges base bytes = map (\<lambda>(a, b). take_at (base + a * 8) (b * 8 - a * 8) bytes) ranges"

definition ranges_ok :: "(nat \<times> nat) list \<Rightarrow> nat \<Rightarrow> u8 list \<Rightarrow> bool" where
  "ranges_ok ranges base bytes \<longleftrightarrow> length ranges < 2 ^ 32 \<and>
     (\<forall>(a, b) \<in> set ranges. a \<le> b \<and> base + b * 8 \<le> length bytes)"

lemma ranges_okD:
  "ranges_ok rs base bytes \<Longrightarrow> i < length rs \<Longrightarrow> rs ! i = (a, b) \<Longrightarrow> a \<le> b \<and> base + b * 8 \<le> length bytes"
  unfolding ranges_ok_def by (metis (no_types, lifting) case_prodD nth_mem)

lemma less_of_nat_u32: "k < 2 ^ 32 \<Longrightarrow> (i :: u32) < of_nat k \<longleftrightarrow> unat i < k"
  by (simp add: word_less_nat_alt unat_of_nat)

interpretation vec_segments: reader_segments vec_get_segment vec_len "\<lambda>segs. segs" "\<lambda>segs. length segs < 2 ^ 32"
  by unfold_locales (simp_all add: vec_get_segment_def vec_len_def)

interpretation owned_segs: reader_segments owned_get_segment owned_len
  "\<lambda>s. cut_at (os_segment_indices s) 0 (owned_space s)" "\<lambda>s. ranges_ok (os_segment_indices s) 0 (owned_space s)"
proof
  fix c :: owned_segments and i :: u32 assume ok: "ranges_ok (os_segment_indices c) 0 (owned_space c)"
  then have less: "i < of_nat (length (os_segment_indices c)) \<longleftrightarrow> unat i < length (os_segment_indices c)"
    by (intro less_of_nat_u32) (simp add: ranges_ok_def)
  then show "owned_get_segment c i = Ok (if unat i < length (cut_at (os_segment_indices c) 0 (owned_space c))
      then Some (cut_at (os_segment_indices c) 0 (owned_space c) ! unat i) else None)"
    using ok by (auto simp: owned_get_segment_def cut_at_def slice_range_def split: prod.splits dest: ranges_okD)
qed (simp_all add: owned_len_def cut_at_def ranges_ok_def)

interpretation buffer_segs: reader_segments buffer_get_segment buffer_len
  "\<lambda>s. cut_at (bs_segment_indices s) (segment_table_bytes_len s) (buffer s)"
  "\<lambda>s. ranges_ok (bs_segment_indices s) (segment_table_bytes_len s) (buffer s)"
proof
  fix c :: buffer_segments and i :: u32 assume ok: "ranges_ok (bs_segment_indices c) (segment_table_bytes_len c) (buffer c)"
  then have less: "i < of_nat (length (bs_segment_indices c)) \<longleftrightarrow> unat i < length (bs_segment_indices c)"
    by (intro less_of_nat_u32) (simp add: ranges_ok_def)
  then show "buffer_get_segment c i =
      Ok (if unat i < length (cut_at (bs_segment_indices c) (segment_table_bytes_len c) (buffer c))
      then Some (cut_at (bs_segment_indices c) (segment_table_bytes_len c) (buffer c) ! unat i) else None)"
    using ok by (auto simp: buffer_get_segment_def cut_at_def slice_range_def split: prod.splits dest: ranges_okD)
qed (simp_all add: buffer_len_def cut_at_def ranges_ok_def)

text \<open>Cutting the concatenation of segments at their lengths gives the segments.\<close>

lemma cut_at_segment_ranges:
  assumes "\<forall>s \<in> set segs. length s mod 8 = 0" and front: "length front = base" and "length pre mod 8 = 0"
  shows "cut_at (segment_ranges (length pre div 8) (map (\<lambda>s. length s div 8) segs)) base (front @ pre @ concat segs @ post) = segs"
  using assms(1,3)
proof (induction segs arbitrary: pre)
  case Nil
  then show ?case by (simp add: cut_at_def)
next
  case (Cons s segs)
  obtain p q where pq: "length pre = 8 * p" "length s = 8 * q"
    using Cons.prems by (auto simp: mod_eq_0_iff_dvd elim!: dvdE)
  then have ps: "length (pre @ s) = 8 * (p + q)" by simp
  have len: "length pre div 8 + length s div 8 = length (pre @ s) div 8" "length (pre @ s) mod 8 = 0"
    unfolding ps pq by simp_all
  have "cut_at (segment_ranges (length (pre @ s) div 8) (map (\<lambda>s. length s div 8) segs)) base
      (front @ (pre @ s) @ concat segs @ post) = segs"
    by (rule Cons.IH) (use Cons.prems len in auto)
  moreover have "length pre div 8 * 8 = length pre" "length s div 8 * 8 = length s"
    by (simp_all add: pq)
  ultimately show ?case
    using len front by (simp add: cut_at_def take_at_def add_mult_distrib)
qed

section \<open>Arbitrary input\<close>

text \<open>What a segment table can be, whatever the bytes: the ranges of its segments lie one after
  the other, and the table took a whole number of words.\<close>

definition builder_ok :: "segment_lengths_builder \<Rightarrow> bool" where
  "builder_ok b \<longleftrightarrow> (\<exists>ns. slb_segment_indices b = segment_ranges 0 ns \<and> total_words b = sum_list ns)"

lemma segment_ranges_append:
  "segment_ranges a (xs @ [x]) = segment_ranges a xs @ [(a + sum_list xs, a + sum_list xs + x)]"
  by (induction xs arbitrary: a) simp_all

lemma try_push_segment_wp:
  assumes "builder_ok b"
  shows "wp (try_push_segment n b)
    (\<lambda>b' t. builder_ok b' \<and> length (slb_segment_indices b') = Suc (length (slb_segment_indices b)) \<and> t = s)
    (\<lambda>e t. e \<noteq> None) s"
proof -
  from assms obtain ns where "slb_segment_indices b = segment_ranges 0 ns" "total_words b = sum_list ns"
    by (auto simp: builder_ok_def)
  then have "builder_ok \<lparr>slb_segment_indices = slb_segment_indices b @ [(total_words b, total_words b + n)],
      total_words = total_words b + n\<rparr>"
    unfolding builder_ok_def by (intro exI [of _ "ns @ [n]"]) (simp add: segment_ranges_append)
  then show ?thesis
    by (auto simp: try_push_segment_def Let_def intro!: wp_rules)
qed

lemma push_lengths_wp:
  assumes "builder_ok b"
  shows "wp (push_lengths buf k b)
    (\<lambda>b' t. builder_ok b' \<and> length (slb_segment_indices b') = length (slb_segment_indices b) + k \<and> t = s)
    (\<lambda>e t. e \<noteq> None) s"
  unfolding push_lengths_def
proof (induction k)
  case 0
  then show ?case using assms by (simp add: wp_ret)
next
  case (Suc k)
  have "wp (bindp (foldp (\<lambda>idx b. try_push_segment (unat (u32_at (idx * 4) buf)) b) [0..<k] b)
      (\<lambda>b. try_push_segment (unat (u32_at (k * 4) buf)) b))
    (\<lambda>b' t. builder_ok b' \<and> length (slb_segment_indices b') = length (slb_segment_indices b) + Suc k \<and> t = s)
    (\<lambda>e t. e \<noteq> None) s"
    by (rule wp_bindp, rule wp_conseq [OF Suc])
      (auto intro: wp_conseq [OF try_push_segment_wp])
  then show ?case by (simp add: foldp_snoc)
qed

context reliable_read
begin

lemma read_exact_wp:
  "wp (read_exact rd n) (\<lambda>bs t. length bs = n \<and> content r = bs @ content t) (\<lambda>e t. e \<noteq> None) r"
proof (cases "n \<le> length (content r)")
  case True
  then obtain r' where "read_exact rd n r = (Ok (take n (content r)), r')" "content r' = drop n (content r)"
    using read_exact_full by blast
  with True show ?thesis by (simp add: wp_def)
next
  case False
  then obtain r' where "read_exact rd n r = (Err FailedToFillTheWholeBuffer, r')"
    using read_exact_short [of r n] by auto
  then show ?thesis by (simp add: wp_def)
qed

lemma read_segment_table_wp:
  "wp (read_segment_table rd options)
    (\<lambda>x t. case x of None \<Rightarrow> content r = []
      | Some b \<Rightarrow> builder_ok b \<and> slb_segment_indices b \<noteq> [] \<and> length (slb_segment_indices b) < 512 \<and>
          (\<exists>table. content r = table @ content t \<and>
             length table = (length (slb_segment_indices b) div 2 + 1) * 8) \<and>
          (case traversal_limit_in_words options of None \<Rightarrow> True | Some l \<Rightarrow> total_words b \<le> unat l))
    (\<lambda>e t. e \<noteq> None) r"
proof -
  obtain bs r\<^sub>1 where rd: "rd 8 r = (Ok bs, r\<^sub>1)" "content r = bs @ content r\<^sub>1" "length bs \<le> 8"
    "bs = [] \<Longrightarrow> content r = []" using read_front [of 8 r] by auto
  have first: "wp (if length bs < 8 then bindp (read_exact rd (8 - length bs)) (\<lambda>rest. ret (bs @ rest)) else ret bs)
      (\<lambda>buf t. length buf = 8 \<and> content r = buf @ content t) (\<lambda>e t. e \<noteq> None) r\<^sub>1"
    using rd(2,3) by (auto intro!: wp_rules wp_conseq [OF read_exact_wp])
  have empty: "builder_ok (with_capacity k)" "slb_segment_indices (with_capacity k) = []" for k
    unfolding with_capacity_def builder_ok_def by (auto intro: exI [of _ "[]"])
  have lens: "wp (if c > 1 then
         if c < 4 then bindp (read_exact rd 8) (\<lambda>buf. push_lengths buf (c - 1) b)
         else bindp (read_exact rd ((c - c mod 2) * 4)) (\<lambda>sizes. push_lengths sizes (c - 1) b)
       else ret b)
     (\<lambda>b' t. builder_ok b' \<and> length (slb_segment_indices b') = c \<and>
        (\<exists>tbl. content r\<^sub>2 = tbl @ content t \<and> length tbl = c div 2 * 8)) (\<lambda>e t. e \<noteq> None) r\<^sub>2"
    if "builder_ok b" "length (slb_segment_indices b) = 1" "0 < c" for b c r\<^sub>2
  proof -
    have n: "(if c < 4 then 8 else (c - c mod 2) * 4) = c div 2 * 8" if "1 < c"
    proof -
      have "c - c mod 2 = 2 * (c div 2)" by (simp add: minus_mod_eq_mult_div)
      moreover have "c < 4 \<Longrightarrow> c div 2 = 1" using that by linarith
      ultimately show ?thesis by auto
    qed
    have "wp (bindp (read_exact rd (c div 2 * 8)) (\<lambda>buf. push_lengths buf (c - 1) b))
       (\<lambda>b' t. builder_ok b' \<and> length (slb_segment_indices b') = c \<and>
          (\<exists>tbl. content r\<^sub>2 = tbl @ content t \<and> length tbl = c div 2 * 8)) (\<lambda>e t. e \<noteq> None) r\<^sub>2"
      by (rule wp_bindp, rule wp_conseq [OF read_exact_wp], rule wp_conseq [OF push_lengths_wp [OF that(1)]])
        (use that in auto)
    moreover have "(if c < 4 then bindp (read_exact rd 8) F else bindp (read_exact rd ((c - c mod 2) * 4)) F) =
        bindp (read_exact rd (c div 2 * 8)) F" if "1 < c" for F :: "u8 list \<Rightarrow> ('r, segment_lengths_builder) prog"
      using n [OF that] by metis
    moreover have "wp (ret b) (\<lambda>b' t. builder_ok b' \<and> length (slb_segment_indices b') = c \<and>
        (\<exists>tbl. content r\<^sub>2 = tbl @ content t \<and> length tbl = c div 2 * 8)) (\<lambda>e t. e \<noteq> None) r\<^sub>2" if "\<not> 1 < c"
      using that \<open>0 < c\<close> \<open>builder_ok b\<close> \<open>length (slb_segment_indices b) = 1\<close> by (auto intro!: wp_ret)
    ultimately show ?thesis by (cases "1 < c") (simp_all only: if_True if_False not_False_eq_True)
  qed
  show ?thesis
    unfolding read_segment_table_def
  proof (rule wp_bindp, simp only: wp_def [of "rd 8"] rd(1) prod.case outcome.case, unfold Let_def,
      rule wp_if, rule wp_ret, use rd(4) in simp, rule wp_bindp, rule wp_conseq [OF first], rule wp_if, rule wp_err, simp,
      rule wp_bindp, rule wp_conseq [OF try_push_segment_wp [OF empty(1)]], rule wp_bindp,
      rule wp_conseq [OF lens], simp, simp add: empty, simp, goal_cases)
    case (1 buf r2 b r2' b' r3)
    let ?c = "unat (u32_at 0 buf + 1)"
    from 1 obtain tbl where tbl: "content r2 = tbl @ content r3" "length tbl = ?c div 2 * 8" by auto
    have "\<exists>table. content r = table @ content r3 \<and> length table = (?c div 2 + 1) * 8"
      by (rule exI [of _ "buf @ tbl"]) (use 1 tbl in simp)
    with 1 show ?case
      by (auto simp: SEGMENTS_COUNT_LIMIT_def split: option.split intro!: wp_rules)
  qed simp_all
qed

end

section \<open>Properties\<close>

text \<open>A message that the format can carry and that the reader's options admit.\<close>

definition sendable :: "reader_options \<Rightarrow> u8 list list \<Rightarrow> bool" where
  "sendable options segs \<longleftrightarrow> segs \<noteq> [] \<and> length segs < SEGMENTS_COUNT_LIMIT \<and>
     (\<forall>s \<in> set segs. length s mod 8 = 0 \<and> length s div 8 < 2 ^ 32) \<and>
     (case traversal_limit_in_words options of None \<Rightarrow> True
      | Some l \<Rightarrow> sum_list (map (\<lambda>s. length s div 8) segs) \<le> unat l)"

lemma sendable_lengths:
  assumes "sendable options segs"
  defines "ns \<equiv> map (\<lambda>s. length s div 8) segs"
  shows "ns \<noteq> []" "length ns < 512" "\<forall>n \<in> set ns. n < 2 ^ 32" "sum_list ns < 2 ^ 64"
    "case traversal_limit_in_words options of None \<Rightarrow> True | Some l \<Rightarrow> sum_list ns \<le> unat l"
    "length (concat segs) = sum_list ns * 8" "length segs < 2 ^ 32"
proof -
  show "ns \<noteq> []" "length ns < 512" "\<forall>n \<in> set ns. n < 2 ^ 32" "length segs < 2 ^ 32"
    "case traversal_limit_in_words options of None \<Rightarrow> True | Some l \<Rightarrow> sum_list ns \<le> unat l"
    using assms by (auto simp: sendable_def SEGMENTS_COUNT_LIMIT_def)
  have "sum_list ns \<le> length ns * 2 ^ 32"
    using \<open>\<forall>n \<in> set ns. n < 2 ^ 32\<close> by (induction ns) (auto simp: add_mono)
  also have "\<dots> \<le> 512 * 2 ^ 32" using \<open>length ns < 512\<close> by (intro mult_le_mono1) simp
  finally show "sum_list ns < 2 ^ 64" by simp
  have "\<forall>s \<in> set segs. length s mod 8 = 0" using assms(1) by (simp add: sendable_def)
  then have "length (concat segs) = sum_list (map (\<lambda>s. length s div 8) segs) * 8"
    by (induction segs) (auto simp: distrib_right mod_eq_0_iff_dvd)
  then show "length (concat segs) = sum_list ns * 8" by (simp add: ns_def)
qed

interpretation vec_to_vec: segment_writer vec_get_segment vec_len "\<lambda>segs. segs" "\<lambda>segs. length segs < 2 ^ 32"
  vec_write_all "\<lambda>out. out" "\<lambda>_ _. True"
  by unfold_locales

lemma segment_ranges_ok:
  assumes "length ns < 2 ^ 32" and "base + sum_list ns * 8 \<le> length bytes"
  shows "ranges_ok (segment_ranges 0 ns) base bytes"
proof -
  have "sum_list (take i ns) \<le> sum_list (take (Suc i) ns)" "sum_list (take (Suc i) ns) \<le> sum_list ns"
    if "i < length ns" for i
  proof -
    show "sum_list (take i ns) \<le> sum_list (take (Suc i) ns)" using that by (simp add: take_Suc_conv_app_nth)
    have "sum_list ns = sum_list (take (Suc i) ns) + sum_list (drop (Suc i) ns)" by (simp flip: sum_list_append)
    then show "sum_list (take (Suc i) ns) \<le> sum_list ns" by simp
  qed
  then show ?thesis
    using assms by (fastforce simp: ranges_ok_def set_conv_nth segment_ranges_nth)
qed

lemma write_then_read:
  assumes "sendable options segs"
    and "write_message_segments vec_write_all vec_get_segment vec_len segs [] = (r, bytes)"
    and "concat pieces = bytes @ rest"
  shows "r = Ok () \<and> (\<exists>owned pieces'. read_message chunk_read options pieces = (Ok owned, pieces') \<and>
    concat pieces' = rest \<and> owned_len owned = Ok (length segs) \<and>
    (\<forall>i. owned_get_segment owned i = Ok (if unat i < length segs then Some (segs ! unat i) else None)))"
proof -
  let ?ns = "map (\<lambda>s. length s div 8) segs"
  note ns = sendable_lengths [OF assms(1)]
  have bytes: "r = Ok ()" "bytes = message_bytes segs"
    using vec_to_vec.write_whole [of segs "[]"] ns assms(2) by auto
  have stream: "concat pieces = table_bytes ?ns @ concat segs @ rest"
    using assms(3) bytes by (simp add: message_bytes_def)
  let ?o = "\<lparr>os_segment_indices = segment_ranges 0 ?ns, owned_space = concat segs\<rparr>"
  obtain pieces' where read: "read_message chunk_read options pieces = (Ok ?o, pieces')" "concat pieces' = rest"
    using chunk_stream.read_message_ok [OF ns(1-5) stream ns(6)] by blast
  have ok: "ranges_ok (os_segment_indices ?o) 0 (owned_space ?o)"
    using segment_ranges_ok [of ?ns 0 "concat segs"] ns by simp
  have cut: "cut_at (os_segment_indices ?o) 0 (owned_space ?o) = segs"
    using cut_at_segment_ranges [of segs "[]" 0 "[]" "[]"] assms(1) by (simp add: sendable_def)
  have "owned_len ?o = Ok (length segs)"
    "owned_get_segment ?o i = Ok (if unat i < length segs then Some (segs ! unat i) else None)" for i
    using owned_segs.len [OF ok] owned_segs.get [OF ok, of i] unfolding cut by simp_all
  with read bytes show ?thesis by blast
qed

text \<open>
  C21: The stream format round-trips. What \<open>write_message\<close> puts on the wire for the segments of a
  message, delivered in pieces of any sizes and followed by anything, is read back by
  \<open>read_message\<close> as the same segments, and the stream is left at what follows.
\<close>

theorem message_stream_round_trip:
  assumes "sendable options segs"
    and "write_message_segments vec_write_all vec_get_segment vec_len segs [] = (r, bytes)"
    and "concat pieces = bytes @ rest"
  shows "r = Ok () \<and> (\<exists>owned pieces'. read_message chunk_read options pieces = (Ok owned, pieces') \<and>
    concat pieces' = rest \<and> owned_len owned = Ok (length segs) \<and>
    (\<forall>i. owned_get_segment owned i = Ok (if unat i < length segs then Some (segs ! unat i) else None)))"
  by (rule write_then_read [OF assms])

lemma sample_sendable: "sendable DEFAULT_READER_OPTIONS [[1, 2, 3, 4, 5, 6, 7, 8]]"
  by (simp add: sendable_def SEGMENTS_COUNT_LIMIT_def DEFAULT_READER_OPTIONS_def)

lemma sample_write:
  "write_message_segments vec_write_all vec_get_segment vec_len [[1, 2, 3, 4, 5, 6, 7, 8]] [] =
    (Ok (), [0, 0, 0, 0, 1, 0, 0, 0, 1, 2, 3, 4, 5, 6, 7, 8])"
proof -
  have "message_bytes [[1, 2, 3, 4, 5, 6, 7, 8]] = [0, 0, 0, 0, 1, 0, 0, 0, 1, 2, 3, 4, 5, 6, 7, 8]"
    by (simp add: message_bytes_def table_bytes_def le32_def to_le_bytes_4)
  with vec_to_vec.write_whole [of "[[1, 2, 3, 4, 5, 6, 7, 8]]" "[]"] show ?thesis by auto
qed

theorem message_stream_round_trip_witness:
  "\<exists>owned pieces'. read_message chunk_read DEFAULT_READER_OPTIONS
       [[0, 0, 0], [], [0, 1, 0, 0, 0, 1, 2, 3, 4], [5, 6, 7, 8, 99]] = (Ok owned, pieces') \<and>
     concat pieces' = [99] \<and> owned_len owned = Ok 1 \<and>
     (\<forall>i. owned_get_segment owned i = Ok (if unat i < 1 then Some ([[1, 2, 3, 4, 5, 6, 7, 8]] ! unat i) else None))"
  using message_stream_round_trip [OF sample_sendable sample_write,
      of "[[0, 0, 0], [], [0, 1, 0, 0, 0, 1, 2, 3, 4], [5, 6, 7, 8, 99]]" "[99]"] by simp

text \<open>
  C27: The three ways of producing a serialized message agree with each other and with the
  format: \<open>flatten_segments\<close> (\<open>write_message_segments_to_words\<close>), writing to a stream, and the
  size computed in advance.
\<close>

theorem serializers_agree:
  assumes "segs \<noteq> []" and "length segs < 2 ^ 32"
  shows "flatten_segments vec_get_segment vec_len segs () = (Ok (message_bytes segs), ()) \<and>
    write_message_segments vec_write_all vec_get_segment vec_len segs out = (Ok (), out @ message_bytes segs) \<and>
    compute_serialized_size vec_get_segment vec_len segs () = (Ok (length (message_bytes segs)), ())"
  using vec_to_vec.write_whole [of segs out] assms
  by (auto simp: vec_segments.flatten vec_segments.serialized_size ret_def)

theorem serializers_agree_witness:
  "flatten_segments vec_get_segment vec_len [[1, 2, 3, 4, 5, 6, 7, 8], []] () =
     (Ok (message_bytes [[1, 2, 3, 4, 5, 6, 7, 8], []]), ()) \<and>
   write_message_segments vec_write_all vec_get_segment vec_len [[1, 2, 3, 4, 5, 6, 7, 8], []] [7] =
     (Ok (), [7] @ message_bytes [[1, 2, 3, 4, 5, 6, 7, 8], []]) \<and>
   compute_serialized_size vec_get_segment vec_len [[1, 2, 3, 4, 5, 6, 7, 8], []] () =
     (Ok (length (message_bytes [[1, 2, 3, 4, 5, 6, 7, 8], []])), ())"
  by (rule serializers_agree) simp_all

text \<open>
  C30: Reading from a flat slice is safe on any bytes: it never panics; on success every segment
  can be fetched and lies in the slice after the table, and the slice is advanced past the table
  and the segments; on an error the slice is unchanged. The size of an accepted message is within
  the traversal limit.
\<close>

theorem flat_slice_any_bytes:
  "case read_message_from_flat_slice options sl of
     (Ok s, sl') \<Rightarrow> buffer s = sl \<and>
       (\<forall>i. \<exists>r. buffer_get_segment s i = Ok r \<and> (r \<noteq> None \<longleftrightarrow> unat i < length (bs_segment_indices s))) \<and>
       (\<exists>words. sl' = drop (segment_table_bytes_len s + words * 8) sl \<and>
          segment_table_bytes_len s + words * 8 \<le> length sl \<and>
          (\<forall>l. traversal_limit_in_words options = Some l \<longrightarrow> words \<le> unat l))
   | (Err e, sl') \<Rightarrow> sl' = sl
   | _ \<Rightarrow> False"
proof (cases "read_segment_table slice_read options sl")
  case run: (Pair r bytes)
  note wp = slice_stream.read_segment_table_wp [of options sl, unfolded wp_def run]
  show ?thesis
  proof (cases r)
    case (Ok x)
    show ?thesis
    proof (cases x)
      case None
      then show ?thesis by (simp add: read_message_from_flat_slice_def run Ok)
    next
      case (Some b)
      then obtain ns table where b: "slb_segment_indices b = segment_ranges 0 ns" "total_words b = sum_list ns"
        "length ns < 512" "sl = table @ bytes" "length table = (length ns div 2 + 1) * 8"
        and limit: "case traversal_limit_in_words options of None \<Rightarrow> True | Some l \<Rightarrow> total_words b \<le> unat l"
        using wp Ok by (auto simp: builder_ok_def)
      have sl: "length sl - length bytes = length table" "drop (length table) sl = bytes"
        "length table mod 8 = 0" "length sl = length table + length bytes"
        using b(4,5) by auto
      show ?thesis
      proof (cases "sum_list ns > length bytes div 8")
        case True
        then show ?thesis by (simp add: read_message_from_flat_slice_def run Ok Some b(2) sl Let_def)
      next
        case False
        let ?s = "\<lparr>buffer = sl, segment_table_bytes_len = length table, bs_segment_indices = segment_ranges 0 ns\<rparr>"
        have fit: "sum_list ns * 8 \<le> length bytes" using False by simp
        have ok: "ranges_ok (bs_segment_indices ?s) (segment_table_bytes_len ?s) (buffer ?s)"
          using segment_ranges_ok [of ns "length table" sl] b(3) sl(4) fit by simp
        have "read_message_from_flat_slice options sl = (Ok ?s, drop (sum_list ns * 8) bytes)"
          using False fit b(1,2) sl
          by (simp add: read_message_from_flat_slice_def run Ok Some Let_def into_slice_segments_def
              seqp_def bindp_def ret_def assertp_def)
        moreover have "\<exists>r. buffer_get_segment ?s i = Ok r \<and> (r \<noteq> None \<longleftrightarrow> unat i < length (bs_segment_indices ?s))" for i
          using buffer_segs.get [OF ok, of i] by (simp add: cut_at_def)
        moreover have "drop (sum_list ns * 8) bytes = drop (length table + sum_list ns * 8) sl"
          unfolding sl(2) [symmetric] by (simp add: add.commute)
        moreover have "length table + sum_list ns * 8 \<le> length sl" using fit sl(4) by simp
        moreover have "\<forall>l. traversal_limit_in_words options = Some l \<longrightarrow> sum_list ns \<le> unat l"
          using limit b(2) by auto
        ultimately show ?thesis by auto
      qed
    qed
  next
    case (Err e)
    then show ?thesis by (simp add: read_message_from_flat_slice_def run)
  qed (use wp in auto)
qed

lemma sample_flat_slice:
  "read_message_from_flat_slice DEFAULT_READER_OPTIONS [0, 0, 0, 0, 1, 0, 0, 0, 1, 2, 3, 4, 5, 6, 7, 8, 99] =
     (Ok \<lparr>buffer = [0, 0, 0, 0, 1, 0, 0, 0, 1, 2, 3, 4, 5, 6, 7, 8, 99], segment_table_bytes_len = 8,
          bs_segment_indices = [(0, 1)]\<rparr>, [99])"
  by (simp add: read_message_from_flat_slice_def read_segment_table_def slice_read_def run_simps u32_at_def
      take_at_def SEGMENTS_COUNT_LIMIT_def try_push_segment_def with_capacity_def DEFAULT_READER_OPTIONS_def
      into_slice_segments_def)

theorem flat_slice_any_bytes_witness:
  "\<exists>s. read_message_from_flat_slice DEFAULT_READER_OPTIONS
        [0, 0, 0, 0, 1, 0, 0, 0, 1, 2, 3, 4, 5, 6, 7, 8, 99] = (Ok s, [99]) \<and>
     (\<exists>r. buffer_get_segment s 0 = Ok r \<and> r \<noteq> None) \<and> buffer_get_segment s 1 = Ok None"
  using flat_slice_any_bytes [of "[0, 0, 0, 0, 1, 0, 0, 0, 1, 2, 3, 4, 5, 6, 7, 8, 99]" DEFAULT_READER_OPTIONS,
      unfolded sample_flat_slice prod.case outcome.case]
  unfolding sample_flat_slice by (auto dest: spec [of _ 0] spec [of _ 1])

text \<open>
  \<open>BufferSegments::new\<close> does not take the segment table into account when it compares the size
  of the segments with the buffer: it accepts a buffer whose last segment is cut off, and asking
  for that segment then panics.
\<close>

theorem buffer_segments_new_accepts_truncated:
  "\<exists>s. buffer_segments_new [0, 0, 0, 0, 1, 0, 0, 0] DEFAULT_READER_OPTIONS = Ok s \<and>
     buffer_get_segment s 0 = Panic"
  by (simp add: buffer_segments_new_def read_segment_table_def slice_read_def run_simps u32_at_def
      take_at_def SEGMENTS_COUNT_LIMIT_def try_push_segment_def with_capacity_def
      DEFAULT_READER_OPTIONS_def buffer_get_segment_def slice_range_def)

end
