(* ===== verification/Packed.thy ===== *)
theory Packed
  imports Serialize
begin

unbundle bit_operations_syntax

text \<open>
  The packed encoding, \<^verbatim>\<open>capnp/src/serialize_packed.rs\<close>: \<open>PackedRead\<close> over a buffered reader and
  \<open>PackedWrite\<close> over a writer. The pointers into the input buffer are positions in the window
  that \<open>fill_buf\<close> returned; the output pointer is the number of bytes left to fill.

  Shown: \<open>PackedRead\<close> refines a decoder of one flat byte string, however the input is cut into
  windows; the decoder inverts what \<open>PackedWrite\<close> writes; the internal buffer of \<open>PackedWrite\<close>
  never overflows.
\<close>

section \<open>BufRead\<close>

text \<open>\<open>BufRead for &[u8]\<close>; consuming more than there is panics.\<close>

definition slice_fill_buf :: "(u8 list, u8 list) prog" where
  "slice_fill_buf s = (Ok s, s)"

definition slice_consume :: "nat \<Rightarrow> (u8 list, unit) prog" where
  "slice_consume amt s = (if amt \<le> length s then (Ok (), drop amt s) else (Panic, s))"

text \<open>A stream in pieces: the window is the first piece that is not empty.\<close>

fun chunk_fill_buf :: "(u8 list list, u8 list) prog" where
  "chunk_fill_buf [] = (Ok [], [])"
| "chunk_fill_buf (c # cs) = (if c = [] then chunk_fill_buf cs else (Ok c, c # cs))"

fun chunk_consume :: "nat \<Rightarrow> (u8 list list, unit) prog" where
  "chunk_consume n [] = (if n = 0 then (Ok (), []) else (Panic, []))"
| "chunk_consume n (c # cs) = (if n \<le> length c then (Ok (), drop n c # cs) else (Panic, c # cs))"

section \<open>PackedRead\<close>

type_synonym 'r buf_reader =
  "('r, u8 list) prog \<times> (nat \<Rightarrow> ('r, unit) prog) \<times> (nat \<Rightarrow> ('r, u8 list) prog)"

text \<open>\<open>refresh_buffer!\<close>: consumes the whole window and takes the next one, which must not be empty.\<close>

definition refresh_buffer :: "'r buf_reader \<Rightarrow> u8 list \<Rightarrow> ('r, u8 list) prog" where
  "refresh_buffer io win = (case io of (fill, consume, rd) \<Rightarrow>
     seqp (consume (length win))
     (bindp fill (\<lambda>win'. if length win' = 0 then err PrematureEndOfPackedInput else ret win')))"

definition tag_bit :: "u8 \<Rightarrow> nat \<Rightarrow> bool" where
  "tag_bit tag i \<longleftrightarrow> tag AND push_bit i 1 \<noteq> 0"

text \<open>The slow path through the eight bytes of a word, with a bounds check on each byte.\<close>

definition slow_byte ::
  "'r buf_reader \<Rightarrow> u8 \<Rightarrow> nat \<Rightarrow> u8 list \<times> nat \<times> u8 list \<Rightarrow> ('r, u8 list \<times> nat \<times> u8 list) prog" where
  "slow_byte io tag i acc = (case acc of (bytes, pos, win) \<Rightarrow>
     if tag_bit tag i then
       bindp (if length win - pos = 0 then bindp (refresh_buffer io win) (\<lambda>win'. ret (0, win'))
              else ret (pos, win))
         (\<lambda>(pos, win). ret (bytes @ [win ! pos], pos + 1, win))
     else ret (bytes @ [0], pos, win))"

definition slow_word :: "'r buf_reader \<Rightarrow> u8 \<Rightarrow> nat \<Rightarrow> u8 list \<Rightarrow> ('r, u8 list \<times> nat \<times> u8 list) prog" where
  "slow_word io tag pos win = foldp (slow_byte io tag) [0..<8] ([], pos, win)"

text \<open>The fast path: every byte is read and masked, the position moves on the nonzero ones.\<close>

definition fast_word :: "u8 \<Rightarrow> nat \<Rightarrow> u8 list \<Rightarrow> u8 list \<times> nat" where
  "fast_word tag pos win =
     foldl (\<lambda>(bytes, pos) n.
         let is_nonzero = tag_bit tag n in
         (bytes @ [win ! pos AND (if is_nonzero then - 1 else 0)], pos + of_bool is_nonzero))
       ([], pos) [0..<8]"

text \<open>
  The word after a tag: the slow path when fewer than ten bytes are in the window, the fast path
  otherwise. After the slow path a run byte is made available when the tag asks for one.
\<close>

definition read_word :: "'r buf_reader \<Rightarrow> u8 \<Rightarrow> nat \<Rightarrow> u8 list \<Rightarrow> ('r, u8 list \<times> nat \<times> u8 list) prog" where
  "read_word io tag pos win =
     (if length win - pos < 10 then
        bindp (slow_word io tag (pos + 1) win) (\<lambda>(bytes, pos, win).
        if length win - pos = 0 \<and> (tag = 0 \<or> tag = 0xff)
        then bindp (refresh_buffer io win) (\<lambda>win'. ret (bytes, 0, win'))
        else ret (bytes, pos, win))
      else (case fast_word tag (pos + 1) win of (bytes, pos) \<Rightarrow> ret (bytes, pos, win)))"

text \<open>
  The loop of \<open>read\<close>. A refreshed window is not empty, which the second test repeats for the
  termination argument. \<open>left\<close> is the distance from the output pointer to the end of the output
  buffer, \<open>out\<close> the bytes written; writing a word into less than eight bytes is out of bounds.
\<close>

function packed_loop :: "'r buf_reader \<Rightarrow> nat \<Rightarrow> nat \<Rightarrow> u8 list \<Rightarrow> u8 list \<Rightarrow> ('r, u8 list) prog" where
  "packed_loop io left pos win out =
     (if length out mod 8 \<noteq> 0 then panic
      else if pos \<ge> length win then
        bindp (refresh_buffer io win) (\<lambda>win'.
        if win' = [] then panic else packed_loop io left 0 win' out)
      else if left < 8 then ub
      else
      let tag = win ! pos in
      bindp (read_word io tag pos win)
      (\<lambda>(bytes, pos, win).
      let out = out @ bytes; left = left - 8 in
      if tag = 0 then
        if \<not> pos < length win then panic
        else
        let run_length = unat (win ! pos) * 8; pos = pos + 1 in
        if run_length > left then err PackedInputDidNotEndCleanlyOnASegmentBoundary
        else
        let out = out @ replicate run_length 0; left = left - run_length in
        if left = 0 then seqp (fst (snd io) pos) (ret out)
        else packed_loop io left pos win out
      else if tag = 0xff then
        if \<not> pos < length win then panic
        else
        let run_length = unat (win ! pos) * 8; pos = pos + 1 in
        if run_length > left then err PackedInputDidNotEndCleanlyOnASegmentBoundary
        else
        let in_remaining = length win - pos in
        if in_remaining \<ge> run_length then
          let out = out @ take_at pos run_length win; pos = pos + run_length; left = left - run_length in
          if left = 0 then seqp (fst (snd io) pos) (ret out)
          else packed_loop io left pos win out
        else
          let out = out @ drop pos win in
          seqp (fst (snd io) (length win))
          (bindp (read_exact (snd (snd io)) (run_length - in_remaining)) (\<lambda>bs.
          let out = out @ bs; left = left - run_length in
          if left = 0 then ret out
          else bindp (fst io) (\<lambda>win'. packed_loop io left 0 win' out)))
      else if left = 0 then seqp (fst (snd io) pos) (ret out)
      else packed_loop io left pos win out))"
  by pat_completeness auto
termination
  by (relation "measure (\<lambda>(io, left, pos, win, out). 2 * left + (if pos \<ge> length win then 1 else 0))") auto

declare packed_loop.simps [simp del]

definition packed_read :: "'r buf_reader \<Rightarrow> nat \<Rightarrow> ('r, u8 list) prog" where
  "packed_read io len =
     (if len = 0 then ret []
      else if len mod 8 \<noteq> 0 then panic
      else bindp (fst io) (\<lambda>win.
        if length win = 0 then ret [] else packed_loop io len 0 win []))"

section \<open>PackedWrite\<close>

text \<open>The tag of a word: bit \<open>i\<close> is set when byte \<open>i\<close> is not zero.\<close>

definition tag_byte :: "u8 list \<Rightarrow> u8" where
  "tag_byte w = foldr (\<lambda>b t. of_bool (b \<noteq> 0) OR push_bit 1 t) w 0"

text \<open>The number of consecutive zero words, and of words with at most one zero byte, up to a limit.\<close>

fun zero_words :: "nat \<Rightarrow> u8 list \<Rightarrow> nat" where
  "zero_words 0 inp = 0"
| "zero_words (Suc k) inp = (if take 8 inp = replicate 8 0 then Suc (zero_words k (drop 8 inp)) else 0)"

fun full_words :: "nat \<Rightarrow> u8 list \<Rightarrow> nat" where
  "full_words 0 inp = 0"
| "full_words (Suc k) inp =
     (if 2 \<le> length (filter (\<lambda>b. b = 0) (take 8 inp)) then 0 else Suc (full_words k (drop 8 inp)))"

text \<open>
  A store into the fixed buffer is not bounds-checked. Every byte of a word is stored at
  \<open>buf_idx\<close>, which moves on the nonzero ones; the tag goes in front of them.
\<close>

definition buf_store :: "nat \<Rightarrow> u8 \<Rightarrow> u8 list \<Rightarrow> ('w, u8 list) prog" where
  "buf_store idx b buf = (if idx < length buf then ret (buf[idx := b]) else ub)"

definition pack_byte :: "u8 \<Rightarrow> u8 list \<times> nat \<Rightarrow> ('w, u8 list \<times> nat) prog" where
  "pack_byte b acc = (case acc of (buf, buf_idx) \<Rightarrow>
     bindp (buf_store buf_idx b buf) (\<lambda>buf. ret (buf, buf_idx + of_bool (b \<noteq> 0))))"

definition pack_word :: "u8 list \<Rightarrow> u8 list \<Rightarrow> nat \<Rightarrow> ('w, u8 list \<times> nat) prog" where
  "pack_word w buf buf_idx =
     bindp (foldp pack_byte w (buf, buf_idx + 1)) (\<lambda>(buf, idx).
     bindp (buf_store buf_idx (tag_byte w) buf) (\<lambda>buf. ret (buf, idx)))"

text \<open>
  \<open>write_all\<close>: the buffer, the part of it in use, and the rest of the input. Reading a word from
  less than eight bytes is out of bounds.
\<close>

function pack_loop :: "(u8 list \<Rightarrow> ('w, unit) prog) \<Rightarrow> u8 list \<Rightarrow> nat \<Rightarrow> u8 list \<Rightarrow> ('w, unit) prog" where
  "pack_loop wr buf buf_idx inp =
     (if inp = [] then wr (take buf_idx buf)
      else
      bindp (if buf_idx + 10 > length buf then seqp (wr (take buf_idx buf)) (ret 0) else ret buf_idx) (\<lambda>buf_idx.
      if length inp < 8 then ub
      else
      let w = take 8 inp; rest = drop 8 inp; tag = tag_byte w in
      bindp (pack_word w buf buf_idx) (\<lambda>(buf, buf_idx).
      if tag = 0 then
        let k = zero_words (min 255 (length rest div 8)) rest in
        bindp (buf_store buf_idx (of_nat k) buf) (\<lambda>buf.
        pack_loop wr buf (buf_idx + 1) (drop (8 * k) rest))
      else if tag = 0xff then
        let k = full_words (min 255 (length rest div 8)) rest in
        bindp (buf_store buf_idx (of_nat k) buf) (\<lambda>buf.
        seqp (wr (take (buf_idx + 1) buf))
        (seqp (wr (take (8 * k) rest))
        (pack_loop wr buf 0 (drop (8 * k) rest))))
      else pack_loop wr buf buf_idx rest)))"
  by pat_completeness auto
termination
  by (relation "measure (\<lambda>(wr, buf, buf_idx, inp). length inp)") auto

declare pack_loop.simps [simp del]

definition packed_write_all :: "(u8 list \<Rightarrow> ('w, unit) prog) \<Rightarrow> u8 list \<Rightarrow> ('w, unit) prog" where
  "packed_write_all wr in_buf = pack_loop wr (replicate 64 0) 0 in_buf"

text \<open>\<open>serialize_packed::read_message\<close> and \<open>write_message\<close>.\<close>

definition packed_read_message :: "'r buf_reader \<Rightarrow> reader_options \<Rightarrow> ('r, owned_segments) prog" where
  "packed_read_message io options = read_message (packed_read io) options"

definition packed_try_read_message :: "'r buf_reader \<Rightarrow> reader_options \<Rightarrow> ('r, owned_segments option) prog" where
  "packed_try_read_message io options = try_read_message (packed_read io) options"

definition packed_write_message :: "(u8 list \<Rightarrow> ('w, unit) prog) \<Rightarrow> builder_arena \<Rightarrow> ('w, unit) prog" where
  "packed_write_message wr message = write_message (packed_write_all wr) message"

section \<open>The encoding as a function of bytes\<close>

text \<open>One word by its tag bits: a nonzero byte is taken from the input.\<close>

fun unpack_word :: "bool list \<Rightarrow> u8 list \<Rightarrow> (u8 list \<times> u8 list) option" where
  "unpack_word [] inp = Some ([], inp)"
| "unpack_word (False # bits) inp = map_option (\<lambda>(w, rest). (0 # w, rest)) (unpack_word bits inp)"
| "unpack_word (True # bits) [] = None"
| "unpack_word (True # bits) (b # inp) = map_option (\<lambda>(w, rest). (b # w, rest)) (unpack_word bits inp)"

definition tag_bits :: "u8 \<Rightarrow> bool list" where
  "tag_bits tag = map (bit tag) [0..<8]"

definition prepend :: "u8 list \<Rightarrow> (u8 list \<times> u8 list) outcome \<Rightarrow> (u8 list \<times> u8 list) outcome" where
  "prepend xs r = (case r of Ok (out, rest) \<Rightarrow> Ok (xs @ out, rest) | Err e \<Rightarrow> Err e | Panic \<Rightarrow> Panic | UB \<Rightarrow> UB)"

text \<open>Decoding exactly \<open>left\<close> bytes from the front of the input.\<close>

function unpack :: "nat \<Rightarrow> u8 list \<Rightarrow> (u8 list \<times> u8 list) outcome" where
  "unpack left inp =
     (if left = 0 then Ok ([], inp)
      else case inp of
        [] \<Rightarrow> Err PrematureEndOfPackedInput
      | tag # inp1 \<Rightarrow> (case unpack_word (tag_bits tag) inp1 of
          None \<Rightarrow> Err PrematureEndOfPackedInput
        | Some (w, inp2) \<Rightarrow>
            if tag = 0 \<or> tag = 0xff then
              (case inp2 of
                 [] \<Rightarrow> Err PrematureEndOfPackedInput
               | c # inp3 \<Rightarrow>
                   let run = unat c * 8 in
                   if run > left - 8 then Err PackedInputDidNotEndCleanlyOnASegmentBoundary
                   else if tag = 0 then prepend (w @ replicate run 0) (unpack (left - 8 - run) inp3)
                   else if run > length inp3 then Err FailedToFillTheWholeBuffer
                   else prepend (w @ take run inp3) (unpack (left - 8 - run) (drop run inp3)))
            else prepend w (unpack (left - 8) inp2)))"
  by pat_completeness auto
termination
  by (relation "measure fst") auto

declare unpack.simps [simp del]

lemma unpack_0 [simp]: "unpack 0 inp = Ok ([], inp)"
  by (simp add: unpack.simps [of 0])

lemma tag_bit_bit: "i < 8 \<Longrightarrow> tag_bit tag i = bit tag i"
proof -
  assume "i < 8"
  have "tag AND push_bit i 1 = (if bit tag i then push_bit i 1 else 0)"
    by (rule bit_word_eqI) (auto simp: bit_simps)
  moreover have "(push_bit i 1 :: u8) \<noteq> 0" using \<open>i < 8\<close> by (auto simp: bit_eq_iff bit_simps)
  ultimately show ?thesis by (simp add: tag_bit_def)
qed

section \<open>PackedRead decodes the stream\<close>

text \<open>The contract of a buffered reader: the window is the front of what is left, and what is
  consumed goes away.\<close>

locale buf_read = reliable_read rd content
  for rd :: "nat \<Rightarrow> ('r, u8 list) prog" and content :: "'r \<Rightarrow> u8 list" +
  fixes fill :: "('r, u8 list) prog" and consume :: "nat \<Rightarrow> ('r, unit) prog" and window :: "'r \<Rightarrow> u8 list"
  assumes fill_window:
    "\<exists>r'. fill r = (Ok (window r'), r') \<and> content r' = content r \<and>
       (window r' = [] \<longrightarrow> content r = [])"
    and window_front: "\<exists>rest. content r = window r @ rest"
    and consume_window: "n \<le> length (window r) \<Longrightarrow> \<exists>r'. consume n r = (Ok (), r') \<and> content r' = drop n (content r)"
begin

abbreviation "io \<equiv> (fill, consume, rd)"

lemma refresh:
  "window r = win \<Longrightarrow> drop (length win) (content r) = [] \<Longrightarrow>
     \<exists>r'. refresh_buffer io win r = (Err PrematureEndOfPackedInput, r')"
  "window r = win \<Longrightarrow> drop (length win) (content r) \<noteq> [] \<Longrightarrow>
     \<exists>win' r'. refresh_buffer io win r = (Ok win', r') \<and> window r' = win' \<and> win' \<noteq> [] \<and>
       content r' = drop (length win) (content r)"
proof -
  assume "window r = win"
  then obtain r1 where r1: "consume (length win) r = (Ok (), r1)" "content r1 = drop (length win) (content r)"
    using consume_window [of "length win" r] by auto
  obtain r2 where r2: "fill r1 = (Ok (window r2), r2)" "content r2 = content r1" "window r2 = [] \<longrightarrow> content r1 = []"
    using fill_window by blast
  obtain rest where front: "content r2 = window r2 @ rest" using window_front by blast
  have run: "refresh_buffer io win r = (if window r2 = [] then (Err PrematureEndOfPackedInput, r2) else (Ok (window r2), r2))"
    using r1 r2 by (simp add: refresh_buffer_def seqp_def bindp_def err_def ret_def)
  { assume "drop (length win) (content r) = []"
    then have "window r2 = []" using front r1 r2 by simp
    then show "\<exists>r'. refresh_buffer io win r = (Err PrematureEndOfPackedInput, r')" using run by simp }
  { assume "drop (length win) (content r) \<noteq> []"
    then have "window r2 \<noteq> []" using r1 r2 by auto
    then show "\<exists>win' r'. refresh_buffer io win r = (Ok win', r') \<and> window r' = win' \<and> win' \<noteq> [] \<and>
       content r' = drop (length win) (content r)" using run r1 r2 by simp }
qed

text \<open>The position in the window, when it is not past its end, names a suffix of the content.\<close>

lemma at_position:
  "window r = win \<Longrightarrow> pos < length win \<Longrightarrow> drop pos (content r) = win ! pos # drop (Suc pos) (content r)"
proof -
  assume "window r = win" "pos < length win"
  obtain rest where "content r = window r @ rest" using window_front by blast
  with \<open>window r = win\<close> \<open>pos < length win\<close> show ?thesis
    by (simp add: Cons_nth_drop_Suc [symmetric])
qed

text \<open>A position in the window of a state, as the code maintains it.\<close>

definition at :: "'r \<Rightarrow> nat \<Rightarrow> u8 list \<Rightarrow> u8 list \<Rightarrow> bool" where
  "at r pos win inp \<longleftrightarrow> window r = win \<and> pos \<le> length win \<and> drop pos (content r) = inp"

lemma refresh_at:
  assumes "at r pos win inp" and "length win - pos = 0"
  shows "inp = [] \<Longrightarrow> \<exists>r'. refresh_buffer io win r = (Err PrematureEndOfPackedInput, r')"
    and "inp \<noteq> [] \<Longrightarrow> \<exists>win' r'. refresh_buffer io win r = (Ok win', r') \<and> win' \<noteq> [] \<and> at r' 0 win' inp"
  using assms refresh [of r win] by (auto simp: at_def)

lemma at_Cons:
  assumes "at r pos win (b # inp)" and "length win - pos \<noteq> 0"
  shows "win ! pos = b" "at r (Suc pos) win inp"
  using assms at_position [of r win pos] by (auto simp: at_def)

lemma slow_byte_at:
  assumes "at r pos win inp" and "i < 8"
  shows "bit tag i \<Longrightarrow> inp = [] \<Longrightarrow> \<exists>r'. slow_byte io tag i (bytes, pos, win) r = (Err PrematureEndOfPackedInput, r')"
    and "bit tag i \<Longrightarrow> inp = b # inp' \<Longrightarrow>
      \<exists>pos' win' r'. slow_byte io tag i (bytes, pos, win) r = (Ok (bytes @ [b], pos', win'), r') \<and> at r' pos' win' inp'"
    and "\<not> bit tag i \<Longrightarrow> slow_byte io tag i (bytes, pos, win) r = (Ok (bytes @ [0], pos, win), r)"
proof -
  note bit = tag_bit_bit [OF assms(2)]
  {
    assume "bit tag i" "inp = []"
    moreover from this have "length win - pos = 0"
      using assms(1) window_front [of r] by (auto simp: at_def)
    ultimately show "\<exists>r'. slow_byte io tag i (bytes, pos, win) r = (Err PrematureEndOfPackedInput, r')"
      using refresh_at(1) [OF assms(1)] bit by (auto simp: slow_byte_def bindp_def)
  }
  {
    assume b: "bit tag i" "inp = b # inp'"
    show "\<exists>pos' win' r'. slow_byte io tag i (bytes, pos, win) r = (Ok (bytes @ [b], pos', win'), r') \<and> at r' pos' win' inp'"
    proof (cases "length win - pos = 0")
      case True
      then obtain win' r' where "refresh_buffer io win r = (Ok win', r')" "win' \<noteq> []" "at r' 0 win' (b # inp')"
        using refresh_at(2) [OF assms(1)] b by auto
      moreover from this at_Cons [of r' 0 win' b inp'] have "win' ! 0 = b" "at r' (Suc 0) win' inp'" by auto
      ultimately show ?thesis using True b bit by (simp add: slow_byte_def bindp_def ret_def)
    next
      case False
      with assms(1) b at_Cons [of r pos win b inp'] have "win ! pos = b" "at r (Suc pos) win inp'" by auto
      with False b bit show ?thesis by (simp add: slow_byte_def bindp_def ret_def)
    qed
  }
  show "\<not> bit tag i \<Longrightarrow> slow_byte io tag i (bytes, pos, win) r = (Ok (bytes @ [0], pos, win), r)"
    using bit by (simp add: slow_byte_def ret_def)
qed

lemma slow_word_at:
  assumes "at r pos win inp" and "\<forall>i \<in> set is. i < 8"
  shows "case unpack_word (map (bit tag) is) inp of
     None \<Rightarrow> \<exists>r'. foldp (slow_byte io tag) is (bytes, pos, win) r = (Err PrematureEndOfPackedInput, r')
   | Some (w, inp') \<Rightarrow> \<exists>pos' win' r'. foldp (slow_byte io tag) is (bytes, pos, win) r = (Ok (bytes @ w, pos', win'), r') \<and>
       at r' pos' win' inp'"
  using assms
proof (induction "is" arbitrary: r pos win inp bytes)
  case Nil
  then show ?case by (auto simp: ret_def)
next
  case (Cons i "is")
  note step = slow_byte_at [OF Cons.prems(1), of i]
  show ?case
  proof (cases "bit tag i")
    case False
    with Cons.IH [OF Cons.prems(1), of "bytes @ [0]"] Cons.prems step(3) show ?thesis
      by (auto simp: bindp_def split: option.splits)
  next
    case True
    show ?thesis
    proof (cases inp)
      case Nil
      moreover obtain r' where "slow_byte io tag i (bytes, pos, win) r = (Err PrematureEndOfPackedInput, r')"
        using step(1) [of tag bytes] True Nil Cons.prems by auto
      ultimately show ?thesis using True by (simp add: bindp_def)
    next
      case (Cons b inp')
      then obtain pos' win' r' where *: "slow_byte io tag i (bytes, pos, win) r = (Ok (bytes @ [b], pos', win'), r')"
        "at r' pos' win' inp'" using step(2) [of tag b inp' bytes] True Cons.prems by auto
      from Cons.IH [OF *(2), of "bytes @ [b]"] Cons.prems * True Cons show ?thesis
        by (auto simp: bindp_def split: option.splits)
    qed
  qed
qed

lemma fast_word_at:
  assumes "at r pos win inp" and "pos + length is \<le> length win" and "\<forall>i \<in> set is. i < 8"
  shows "\<exists>w inp' pos'. unpack_word (map (bit tag) is) inp = Some (w, inp') \<and>
    foldl (\<lambda>(bytes, pos) n.
        let is_nonzero = tag_bit tag n in
        (bytes @ [win ! pos AND (if is_nonzero then - 1 else 0)], pos + of_bool is_nonzero))
      (bytes, pos) is = (bytes @ w, pos') \<and> at r pos' win inp' \<and> pos' \<le> pos + length is"
  using assms
proof (induction "is" arbitrary: pos inp bytes)
  case Nil
  then show ?case by auto
next
  case (Cons i "is")
  note bit = tag_bit_bit [of i tag]
  show ?case
  proof (cases "bit tag i")
    case False
    with Cons.IH [OF Cons.prems(1), of "bytes @ [0]"] Cons.prems bit show ?thesis by (auto simp: Let_def)
  next
    case True
    have "window r = win" "pos < length win" using Cons.prems by (auto simp: at_def)
    then obtain b inp' where inp: "inp = b # inp'" "win ! pos = b"
      using at_position [of r win pos] Cons.prems(1) unfolding at_def by metis
    then have "at r (Suc pos) win inp'" using at_Cons(2) [of r pos win b inp'] Cons.prems \<open>pos < length win\<close> by auto
    from Cons.IH [OF this, of "bytes @ [b]"] Cons.prems True bit inp show ?thesis by (auto simp: Let_def)
  qed
qed

lemma read_word_at:
  assumes "at r pos win (tag # inp)" and "pos < length win"
  shows "case unpack_word (tag_bits tag) inp of
     None \<Rightarrow> \<exists>r'. read_word io tag pos win r = (Err PrematureEndOfPackedInput, r')
   | Some (w, inp') \<Rightarrow>
       if (tag = 0 \<or> tag = 0xff) \<and> inp' = [] then \<exists>r'. read_word io tag pos win r = (Err PrematureEndOfPackedInput, r')
       else \<exists>pos' win' r'. read_word io tag pos win r = (Ok (w, pos', win'), r') \<and> at r' pos' win' inp' \<and>
         (tag = 0 \<or> tag = 0xff \<longrightarrow> pos' < length win')"
proof -
  have next_at: "at r (pos + 1) win inp" using at_Cons(2) [OF assms(1)] assms(2) by simp
  show ?thesis
  proof (cases "length win - pos < 10")
    case True
    show ?thesis
    proof (cases "unpack_word (tag_bits tag) inp")
      case None
      then show ?thesis
        using slow_word_at [OF next_at, of "[0..<8]" tag "[]"] True
        by (auto simp: tag_bits_def read_word_def slow_word_def bindp_def)
    next
      case (Some p)
      then obtain w inp' where p: "p = (w, inp')" by (cases p)
      then obtain pos' win' r' where slow: "slow_word io tag (pos + 1) win r = (Ok (w, pos', win'), r')" "at r' pos' win' inp'"
        using slow_word_at [OF next_at, of "[0..<8]" tag "[]"] Some by (auto simp: tag_bits_def slow_word_def)
      show ?thesis
      proof (cases "length win' - pos' = 0 \<and> (tag = 0 \<or> tag = 0xff)")
        case False
        moreover have "inp' \<noteq> []" if "tag = 0 \<or> tag = 0xff"
          using slow(2) at_position [of r' win' pos'] that False by (auto simp: at_def)
        ultimately show ?thesis using slow Some p True
          by (auto simp: read_word_def bindp_def ret_def)
      next
        case ex: True
        show ?thesis
        proof (cases "inp' = []")
          case True
          with refresh_at(1) [OF slow(2)] ex slow Some p \<open>length win - pos < 10\<close> show ?thesis
            by (auto simp: read_word_def bindp_def)
        next
          case False
          then obtain win2 r2 where
            "refresh_buffer io win' r' = (Ok win2, r2)" "win2 \<noteq> []" "at r2 0 win2 inp'"
            using refresh_at(2) [OF slow(2)] ex by metis
          with False ex slow Some p \<open>length win - pos < 10\<close> show ?thesis
            by (auto simp: read_word_def bindp_def ret_def)
        qed
      qed
    qed
  next
    case False
    then have le: "pos + 1 + length [0..<8] \<le> length win" by simp
    have "\<exists>w inp' pos'. unpack_word (tag_bits tag) inp = Some (w, inp') \<and>
        fast_word tag (pos + 1) win = ([] @ w, pos') \<and> at r pos' win inp' \<and> pos' \<le> pos + 1 + length [0..<8]"
      unfolding fast_word_def tag_bits_def by (rule fast_word_at [OF next_at le]) simp
    then obtain w inp' pos' where "unpack_word (tag_bits tag) inp = Some (w, inp')"
      "fast_word tag (pos + 1) win = (w, pos')" "at r pos' win inp'" "pos' \<le> pos + 1 + 8"
      by auto
    moreover from this False have "pos' < length win" by simp
    moreover from this calculation have "inp' \<noteq> []" using at_position [of r win pos'] by (auto simp: at_def)
    ultimately show ?thesis using False by (auto simp: read_word_def ret_def)
  qed
qed

text \<open>What a run of the loop has to agree with.\<close>

definition decodes :: "('r, u8 list) prog \<Rightarrow> 'r \<Rightarrow> u8 list \<Rightarrow> (u8 list \<times> u8 list) outcome \<Rightarrow> bool" where
  "decodes m r out u \<longleftrightarrow> (case u of
     Ok (bytes, rest) \<Rightarrow> \<exists>r'. m r = (Ok (out @ bytes), r') \<and> content r' = rest
   | Err e \<Rightarrow> \<exists>r'. m r = (Err e, r')
   | _ \<Rightarrow> False)"

lemma decodes_cong: "m r = m' r' \<Longrightarrow> decodes m' r' out u \<Longrightarrow> decodes m r out u"
  by (auto simp: decodes_def split: outcome.splits prod.splits)

lemma decodes_prepend: "decodes m r (out @ xs) u \<Longrightarrow> decodes m r out (prepend xs u)"
  by (auto simp: decodes_def prepend_def split: outcome.splits prod.splits)

lemma consume_at:
  assumes "at r pos win inp"
  shows "decodes (seqp (consume pos) (ret out)) r out (Ok ([], inp))"
  using consume_window [of pos r] assms by (auto simp: at_def decodes_def seqp_def bindp_def ret_def)

text \<open>The end of an iteration: done, or the loop again with less to fill.\<close>

lemma finish_at:
  assumes "at r pos win inp" and "left \<noteq> 0 \<Longrightarrow> decodes (packed_loop io left pos win out) r out (unpack left inp)"
  shows "decodes (if left = 0 then seqp (consume pos) (ret out) else packed_loop io left pos win out) r out
    (unpack left inp)"
  using assms consume_at by (cases "left = 0") auto

lemma aligned_append: "length a mod 8 = 0 \<Longrightarrow> length b mod 8 = 0 \<Longrightarrow> length (a @ b) mod 8 = 0"
  by (simp add: mod_eq_0_iff_dvd)

lemma at_take:
  assumes "at r pos win inp" and "pos + n \<le> length win"
  shows "take_at pos n win = take n inp" "at r (pos + n) win (drop n inp)" "n \<le> length inp"
proof -
  obtain rest where "content r = win @ rest" using window_front [of r] assms(1) by (auto simp: at_def)
  then show "take_at pos n win = take n inp" "at r (pos + n) win (drop n inp)" "n \<le> length inp"
    using assms by (auto simp: at_def take_at_def add.commute)
qed

lemma at_split:
  assumes "at r pos win inp"
  shows "\<exists>r'. consume (length win) r = (Ok (), r') \<and> inp = drop pos win @ content r'"
proof -
  obtain rest where rest: "content r = win @ rest" using window_front [of r] assms by (auto simp: at_def)
  obtain r' where "consume (length win) r = (Ok (), r')" "content r' = drop (length win) (content r)"
    using consume_window [of "length win" r] assms by (auto simp: at_def)
  with rest assms show ?thesis by (auto simp: at_def)
qed

lemma length_unpack_word: "unpack_word bits inp = Some (w, rest) \<Longrightarrow> length w = length bits"
  by (induction bits inp arbitrary: w rest rule: unpack_word.induct) auto

lemma packed_loop_at:
  assumes "at r pos win inp" and "length out mod 8 = 0" and "left mod 8 = 0" and "0 < left"
  shows "decodes (packed_loop io left pos win out) r out (unpack left inp)"
  using assms
proof (induction "2 * left + (if pos \<ge> length win then 1 else 0)" arbitrary: r left pos win inp out rule: less_induct)
  case less
  note al = less.prems(2) and left = less.prems(3,4)
  show ?case
  proof (cases "pos \<ge> length win")
    case True
    then have z: "length win - pos = 0" by simp
    show ?thesis
    proof (cases "inp = []")
      case True
      then obtain r' where "refresh_buffer io win r = (Err PrematureEndOfPackedInput, r')"
        using refresh_at(1) [OF less.prems(1) z] by blast
      then show ?thesis
        using True \<open>pos \<ge> length win\<close> al left
        by (subst packed_loop.simps) (simp add: decodes_def bindp_def unpack.simps [of left])
    next
      case False
      then obtain win' r' where rf: "refresh_buffer io win r = (Ok win', r')" "win' \<noteq> []" "at r' 0 win' inp"
        using refresh_at(2) [OF less.prems(1) z] by blast
      have "decodes (packed_loop io left 0 win' out) r' out (unpack left inp)"
        by (rule less.hyps) (use rf True al left in auto)
      moreover have "packed_loop io left pos win out r = packed_loop io left 0 win' out r'"
        using rf True al by (subst packed_loop.simps) (simp add: bindp_def)
      ultimately show ?thesis by (metis decodes_cong)
    qed
  next
    case False
    then have pos: "pos < length win" by simp
    obtain inp1 where inp: "inp = win ! pos # inp1"
      using at_position [of r win pos] less.prems(1) pos unfolding at_def by metis
    let ?tag = "win ! pos"
    have l8: "\<not> left < 8" using left by (auto simp: mod_eq_0_iff_dvd dest: dvd_imp_le)
    note rw = read_word_at [OF less.prems(1) [unfolded inp] pos]
    have IH: "decodes (packed_loop io left' pos' win' out') r' out' (unpack left' inp')"
      if "at r' pos' win' inp'" "left' < left" "left' mod 8 = 0" "length out' mod 8 = 0" "left' \<noteq> 0" for left' pos' win' out' r' inp'
      by (rule less.hyps) (use that pos in auto)
    show ?thesis
    proof (cases "unpack_word (tag_bits ?tag) inp1")
      case None
      with rw show ?thesis
        using pos al l8 left by (subst packed_loop.simps)
          (auto simp: decodes_def bindp_def unpack.simps [of left] inp Let_def)
    next
      case (Some p)
      then obtain w inp2 where p: "p = (w, inp2)" by (cases p)
      have lw: "length w = 8" using length_unpack_word Some p by (fastforce simp: tag_bits_def)
      show ?thesis
      proof (cases "(?tag = 0 \<or> ?tag = 0xff) \<and> inp2 = []")
        case True
        then obtain r' where "read_word io ?tag pos win r = (Err PrematureEndOfPackedInput, r')"
          using rw Some p by auto
        with True Some p show ?thesis
          using pos al l8 left by (subst packed_loop.simps)
            (auto simp: decodes_def bindp_def unpack.simps [of left] inp)
      next
        case nz: False
        then obtain pos2 win2 r2 where word: "read_word io ?tag pos win r = (Ok (w, pos2, win2), r2)"
          "at r2 pos2 win2 inp2" "?tag = 0 \<or> ?tag = 0xff \<Longrightarrow> pos2 < length win2"
          using rw Some p by auto
        have al8: "length (out @ w) mod 8 = 0" "(left - 8) mod 8 = 0" "left - 8 < left"
          using al left l8 lw by (auto simp: mod_eq_0_iff_dvd)
        show ?thesis
        proof (cases "?tag = 0 \<or> ?tag = 0xff")
          case False
          have "decodes (if left - 8 = 0 then seqp (consume pos2) (ret (out @ w))
              else packed_loop io (left - 8) pos2 win2 (out @ w)) r2 (out @ w) (unpack (left - 8) inp2)"
            by (rule finish_at [OF word(2) IH [OF word(2)]]) (use al8 in auto)
          moreover have "packed_loop io left pos win out r = (if left - 8 = 0 then seqp (consume pos2) (ret (out @ w))
              else packed_loop io (left - 8) pos2 win2 (out @ w)) r2"
            using pos al l8 word(1) False
            by (subst packed_loop.simps) (simp add: bindp_def [of "read_word _ _ _ _"] Let_def)
          moreover have "unpack left inp = prepend w (unpack (left - 8) inp2)"
            using left False Some p by (simp add: unpack.simps [of left] inp)
          ultimately show ?thesis
            by (metis (no_types, lifting) decodes_cong decodes_prepend)
        next
          case tag: True
          have p2: "pos2 < length win2" using word(3) tag by simp
          obtain inp3 where inp3: "inp2 = win2 ! pos2 # inp3"
            using at_position [of r2 win2 pos2] word(2) p2 unfolding at_def by metis
          have at3: "at r2 (Suc pos2) win2 inp3" using at_Cons(2) [OF word(2) [unfolded inp3]] p2 by simp
          let ?run = "unat (win2 ! pos2) * 8"
          show ?thesis
          proof (cases "?run > left - 8")
            case True
            then have "packed_loop io left pos win out r = (Err PackedInputDidNotEndCleanlyOnASegmentBoundary, r2)"
              using pos al l8 word(1) tag p2
              by (subst packed_loop.simps) (auto simp add: bindp_def [of "read_word _ _ _ _"] Let_def err_def)
            with True tag show ?thesis
              using left Some p by (auto simp: decodes_def unpack.simps [of left] inp inp3 Let_def)
          next
            case fits: False
            define left' where "left' = left - 8 - ?run"
            have "8 dvd left - 8 - ?run"
              by (rule dvd_diff_nat) (use al8 in \<open>auto simp: mod_eq_0_iff_dvd\<close>)
            then have left': "left' < left" "left' mod 8 = 0"
              using al8 by (auto simp: mod_eq_0_iff_dvd left'_def)
            show ?thesis
            proof (cases "?tag = 0")
              case True
              let ?out = "(out @ w) @ replicate ?run 0"
              have "decodes (if left' = 0 then seqp (consume (pos2 + 1)) (ret ?out)
                  else packed_loop io left' (pos2 + 1) win2 ?out) r2 ?out (unpack left' inp3)"
              proof (rule finish_at)
                have al3: "length ?out mod 8 = 0" by (rule aligned_append [OF al8(1)]) simp
                show "at r2 (pos2 + 1) win2 inp3" using at3 by simp
                then show "decodes (packed_loop io left' (pos2 + 1) win2 ?out) r2 ?out (unpack left' inp3)" if "left' \<noteq> 0"
                  by (rule IH) (use left' that al3 in auto)
              qed
              moreover have "packed_loop io left pos win out r = (if left' = 0 then seqp (consume (pos2 + 1)) (ret ?out)
                  else packed_loop io left' (pos2 + 1) win2 ?out) r2"
                using pos al l8 word(1) True p2 fits
                by (subst packed_loop.simps) (simp add: bindp_def [of "read_word _ _ _ _"] Let_def left'_def)
              moreover have "unpack left inp = prepend (w @ replicate ?run 0) (unpack left' inp3)"
                using left True Some p fits by (simp add: unpack.simps [of left] inp inp3 Let_def left'_def)
              ultimately show ?thesis
                by (metis (no_types, lifting) append.assoc decodes_cong decodes_prepend)
            next
              case ff: False
              then have ff': "?tag = 0xff" using tag by simp
              have at3': "at r2 (pos2 + 1) win2 inp3" using at3 by simp
              have un: "unpack left inp = (if ?run > length inp3 then Err FailedToFillTheWholeBuffer
                  else prepend (w @ take ?run inp3) (unpack left' (drop ?run inp3)))"
                using left ff' Some p fits by (simp add: unpack.simps [of left] inp inp3 Let_def left'_def)
              show ?thesis
              proof (cases "length win2 - (pos2 + 1) \<ge> ?run")
                case True
                then have "pos2 + 1 + ?run \<le> length win2" using p2 by simp
                note tk = at_take [OF at3' this]
                let ?out = "(out @ w) @ take_at (pos2 + 1) ?run win2" and ?pos = "pos2 + 1 + ?run"
                have "decodes (if left' = 0 then seqp (consume ?pos) (ret ?out)
                    else packed_loop io left' ?pos win2 ?out) r2 ?out (unpack left' (drop ?run inp3))"
                proof (rule finish_at [OF tk(2) IH [OF tk(2) left']])
                  have "length (take_at (pos2 + 1) ?run win2) mod 8 = 0" using tk(1,3) by simp
                  with al8(1) show "length ?out mod 8 = 0" by (rule aligned_append)
                qed
                moreover have "packed_loop io left pos win out r = (if left' = 0 then seqp (consume ?pos) (ret ?out)
                    else packed_loop io left' ?pos win2 ?out) r2"
                  using pos al l8 word(1) ff' p2 fits True
                  by (subst packed_loop.simps) (simp add: bindp_def [of "read_word _ _ _ _"] Let_def left'_def)
                moreover have "unpack left inp = prepend (w @ take ?run inp3) (unpack left' (drop ?run inp3))"
                  using un tk(3) by simp
                ultimately show ?thesis
                  using tk(1) by (metis (no_types, lifting) append.assoc decodes_cong decodes_prepend)
              next
                case False
                let ?rem = "length win2 - (pos2 + 1)"
                obtain r3 where r3: "consume (length win2) r2 = (Ok (), r3)" "inp3 = drop (pos2 + 1) win2 @ content r3"
                  using at_split [OF at3'] by blast
                let ?rest = "\<lambda>bs. if left' = 0 then ret ((out @ w @ drop (pos2 + 1) win2) @ bs)
                    else bindp fill (\<lambda>win'. packed_loop io left' 0 win' ((out @ w @ drop (pos2 + 1) win2) @ bs))"
                have lz: "left - 8 = ?run \<longleftrightarrow> left' = 0" using fits left'_def by auto
                have eq: "packed_loop io left pos win out r = bindp (read_exact rd (?run - ?rem)) ?rest r3"
                  using pos al l8 word(1) ff' p2 fits False r3(1) lz
                  by (subst packed_loop.simps) (simp add: bindp_def [of "read_word _ _ _ _"] seqp_def
                      bindp_def [of "consume _"] Let_def left'_def [symmetric] del: diff_diff_left cong: if_cong)
                show ?thesis
                proof (cases "?run > length inp3")
                  case True
                  then have "length (content r3) < ?run - ?rem" using r3(2) by simp
                  then obtain r4 where "read_exact rd (?run - ?rem) r3 = (Err FailedToFillTheWholeBuffer, r4)"
                    using read_exact_short by blast
                  then show ?thesis using un True eq by (simp add: decodes_def bindp_def)
                next
                  case enough: False
                  then have "?run - ?rem \<le> length (content r3)" using r3(2) by simp
                  then obtain r4 where r4: "read_exact rd (?run - ?rem) r3 = (Ok (take (?run - ?rem) (content r3)), r4)"
                    "content r4 = drop (?run - ?rem) (content r3)"
                    using read_exact_full by blast
                  have tk: "drop (pos2 + 1) win2 @ take (?run - ?rem) (content r3) = take ?run inp3"
                    "drop (?run - ?rem) (content r3) = drop ?run inp3"
                    using r3(2) False by simp_all
                  let ?out = "out @ w @ take ?run inp3"
                  have o: "(out @ w @ drop (pos2 + 1) win2) @ take (?run - ?rem) (content r3) = ?out"
                    by (simp only: append_assoc tk(1))
                  have loop: "packed_loop io left pos win out r = (if left' = 0 then ret ?out
                      else bindp fill (\<lambda>win'. packed_loop io left' 0 win' ?out)) r4"
                    unfolding eq
                    by (simp only: bindp_def [of "read_exact _ _"] r4(1) prod.case outcome.case o)
                  have "decodes (if left' = 0 then ret ?out
                      else bindp fill (\<lambda>win'. packed_loop io left' 0 win' ?out)) r4 ?out (unpack left' (drop ?run inp3))"
                  proof (cases "left' = 0")
                    case True
                    with r4(2) tk(2) show ?thesis by (simp add: decodes_def ret_def)
                  next
                    case False
                    obtain r5 where r5: "fill r4 = (Ok (window r5), r5)" "content r5 = content r4"
                      using fill_window by blast
                    have "at r5 0 (window r5) (drop ?run inp3)" using r5(2) r4(2) tk(2) by (simp add: at_def)
                    moreover have "length ((out @ w) @ take ?run inp3) mod 8 = 0"
                      by (rule aligned_append [OF al8(1)]) (use enough in simp)
                    then have "length ?out mod 8 = 0" by simp
                    ultimately have "decodes (packed_loop io left' 0 (window r5) ?out) r5 ?out (unpack left' (drop ?run inp3))"
                      by (intro IH left' False)
                    with r5(1) False show ?thesis by (intro decodes_cong [of _ r4 _ r5]) (simp_all add: bindp_def)
                  qed
                  moreover have "unpack left inp = prepend (w @ take ?run inp3) (unpack left' (drop ?run inp3))"
                    using un enough by simp
                  ultimately show ?thesis using loop
                    by (metis (no_types, lifting) decodes_cong decodes_prepend)
                qed
              qed
            qed
          qed
        qed
      qed
    qed
  qed
qed

lemma packed_read_at:
  assumes "len mod 8 = 0" and "0 < len"
  shows "decodes (packed_read io len) r [] (if content r = [] then Ok ([], []) else unpack len (content r))"
proof -
  obtain r1 where r1: "fill r = (Ok (window r1), r1)" "content r1 = content r" "window r1 = [] \<longrightarrow> content r = []"
    using fill_window by blast
  show ?thesis
  proof (cases "window r1 = []")
    case True
    with r1 assms show ?thesis by (simp add: packed_read_def decodes_def bindp_def ret_def)
  next
    case False
    moreover have "content r \<noteq> []" using False window_front [of r1] r1(2) by auto
    moreover have "at r1 0 (window r1) (content r)" using r1 by (simp add: at_def)
    then have "decodes (packed_loop io len 0 (window r1) []) r1 [] (unpack len (content r))"
      by (rule packed_loop_at) (use assms in auto)
    moreover have "packed_read io len r = packed_loop io len 0 (window r1) [] r1"
      using r1 False assms by (simp add: packed_read_def bindp_def)
    ultimately show ?thesis by (auto intro: decodes_cong)
  qed
qed

end

text \<open>The two readers at hand meet the contract.\<close>

interpretation slice_buf: buf_read slice_read "\<lambda>s. s" slice_fill_buf slice_consume "\<lambda>s. s"
  by unfold_locales (auto simp: slice_fill_buf_def slice_consume_def)

definition first_piece :: "u8 list list \<Rightarrow> u8 list" where
  "first_piece cs = (case cs of [] \<Rightarrow> [] | c # _ \<Rightarrow> c)"

lemma chunk_fill_window:
  "\<exists>r'. chunk_fill_buf r = (Ok (first_piece r'), r') \<and> concat r' = concat r \<and> (first_piece r' = [] \<longrightarrow> concat r = [])"
  by (induction r rule: chunk_fill_buf.induct) (auto simp: first_piece_def)

interpretation chunk_buf: buf_read chunk_read concat chunk_fill_buf chunk_consume first_piece
proof unfold_locales
  show "\<exists>r'. chunk_fill_buf r = (Ok (first_piece r'), r') \<and> concat r' = concat r \<and>
      (first_piece r' = [] \<longrightarrow> concat r = [])" for r
    by (rule chunk_fill_window)
  show "\<exists>rest. concat r = first_piece r @ rest" for r
    by (auto simp: first_piece_def split: list.split)
  show "n \<le> length (first_piece r) \<Longrightarrow> \<exists>r'. chunk_consume n r = (Ok (), r') \<and> concat r' = drop n (concat r)" for n r
    by (cases r) (auto simp: first_piece_def)
qed

section \<open>PackedWrite writes what the decoder reads\<close>

text \<open>What \<open>write_all\<close> writes, as a function of the input.\<close>

function pack :: "u8 list \<Rightarrow> u8 list" where
  "pack inp =
     (if inp = [] then []
      else
      let w = take 8 inp; rest = drop 8 inp; tag = tag_byte w; front = tag # filter (\<lambda>b. b \<noteq> 0) w in
      if tag = 0 then
        let k = zero_words (min 255 (length rest div 8)) rest in
        front @ of_nat k # pack (drop (8 * k) rest)
      else if tag = 0xff then
        let k = full_words (min 255 (length rest div 8)) rest in
        front @ of_nat k # take (8 * k) rest @ pack (drop (8 * k) rest)
      else front @ pack rest)"
  by pat_completeness auto
termination
  by (relation "measure length") auto

declare pack.simps [simp del]

lemma pack_Nil [simp]: "pack [] = []"
  by (simp add: pack.simps)

lemma bit_tag_byte: "i < 8 \<Longrightarrow> bit (tag_byte w) i \<longleftrightarrow> i < length w \<and> w ! i \<noteq> 0"
  by (induction w arbitrary: i) (auto simp: tag_byte_def bit_simps nth_Cons' simp del: push_bit_Suc)

lemma tag_bits_tag_byte: "length w = 8 \<Longrightarrow> tag_bits (tag_byte w) = map (\<lambda>b. b \<noteq> 0) w"
  by (rule nth_equalityI) (auto simp: tag_bits_def bit_tag_byte)

lemma tag_byte_0: "length w = 8 \<Longrightarrow> tag_byte w = 0 \<Longrightarrow> w = replicate 8 0"
  by (rule nth_equalityI) (use bit_tag_byte [of _ w] in \<open>auto\<close>)

lemma unpack_word_filter: "unpack_word (map (\<lambda>b. b \<noteq> 0) w) (filter (\<lambda>b. b \<noteq> 0) w @ rest) = Some (w, rest)"
  by (induction w) auto

lemma zero_words_le: "zero_words k inp \<le> k"
  by (induction k arbitrary: inp) auto

lemma full_words_le: "full_words k inp \<le> k"
  by (induction k arbitrary: inp) auto

lemma zero_words_take: "take (8 * zero_words k inp) inp = replicate (8 * zero_words k inp) 0"
proof (induction k arbitrary: inp)
  case (Suc k)
  let ?z = "zero_words k (drop 8 inp)"
  have "take (8 + 8 * ?z) inp = take 8 inp @ take (8 * ?z) (drop 8 inp)" by (rule take_add)
  with Suc show ?case by (auto simp: replicate_add)
qed simp

lemma run_count:
  assumes "k \<le> min 255 (length (rest :: u8 list) div 8)"
  shows "unat (of_nat k :: u8) = k" "8 * k \<le> length rest"
  using assms by (auto simp: unat_of_nat)

lemma prepend_prepend [simp]: "prepend a (prepend b r) = prepend (a @ b) r"
  by (auto simp: prepend_def split: outcome.splits)

lemma mod_8_ge: "xs \<noteq> [] \<Longrightarrow> length xs mod 8 = 0 \<Longrightarrow> 8 \<le> length xs"
  by (auto simp: mod_eq_0_iff_dvd intro: dvd_imp_le)

text \<open>The decoder inverts the encoder, whatever comes after.\<close>

lemma unpack_pack:
  "length inp mod 8 = 0 \<Longrightarrow> unpack (length inp + m) (pack inp @ rest) = prepend inp (unpack m rest)"
proof (induction inp rule: pack.induct)
  case (1 inp)
  show ?case
  proof (cases "inp = []")
    case True
    then show ?thesis by (auto simp: prepend_def split: outcome.split)
  next
    case False
    define w where "w = take 8 inp"
    define tl where "tl = drop 8 inp"
    have inp: "inp = w @ tl" and lw: "length w = 8"
      using mod_8_ge [OF False 1(4)] by (simp_all add: w_def tl_def)
    then have al: "length tl mod 8 = 0" and len: "length inp + m - 8 = length tl + m" using 1(4) by auto
    let ?nz = "filter (\<lambda>b. b \<noteq> 0) w"
    have word: "unpack_word (tag_bits (tag_byte w)) (?nz @ x) = Some (w, x)" for x
      by (simp only: tag_bits_tag_byte [OF lw] unpack_word_filter)
    note IH = 1(1-3) [OF False w_def tl_def refl refl]
    note unp = unpack.simps [of "length inp + m"] word len
    show ?thesis
    proof (cases "tag_byte w = 0")
      case True
      define k where "k = zero_words (min 255 (length tl div 8)) tl"
      note rc = run_count [OF zero_words_le [of "min 255 (length tl div 8)" tl, folded k_def]]
      have tk: "tl = replicate (k * 8) 0 @ drop (8 * k) tl"
        using zero_words_take [of "min 255 (length tl div 8)" tl, folded k_def]
        by (metis append_take_drop_id mult.commute)
      have "length (drop (8 * k) tl) mod 8 = 0" using al by (simp add: mod_eq_0_iff_dvd dvd_diff_nat)
      from IH(1) [OF True _ this] have ih: "unpack (length (drop (8 * k) tl) + m) (pack (drop (8 * k) tl) @ rest) =
          prepend (drop (8 * k) tl) (unpack m rest)" using k_def by simp
      have "pack inp = tag_byte w # ?nz @ of_nat k # pack (drop (8 * k) tl)"
        using False True by (subst pack.simps) (simp add: Let_def w_def [symmetric] tl_def [symmetric] k_def [symmetric])
      moreover have "length tl + m - k * 8 = length (drop (8 * k) tl) + m" using rc(2) by simp
      moreover have "(w @ replicate (k * 8) 0) @ drop (8 * k) tl = inp" using inp tk by simp
      ultimately show ?thesis using True rc ih False
        by (simp add: unp word [unfolded True] Let_def)
    next
      case nz: False
      show ?thesis
      proof (cases "tag_byte w = 0xff")
        case True
        define k where "k = full_words (min 255 (length tl div 8)) tl"
        note rc = run_count [OF full_words_le [of "min 255 (length tl div 8)" tl, folded k_def]]
        have "length (drop (8 * k) tl) mod 8 = 0" using al by (simp add: mod_eq_0_iff_dvd dvd_diff_nat)
        from IH(2) [OF nz True _ this] have ih: "unpack (length (drop (8 * k) tl) + m) (pack (drop (8 * k) tl) @ rest) =
            prepend (drop (8 * k) tl) (unpack m rest)" using k_def by simp
        have "pack inp = tag_byte w # ?nz @ of_nat k # take (8 * k) tl @ pack (drop (8 * k) tl)"
          using False nz True by (subst pack.simps) (simp add: Let_def w_def [symmetric] tl_def [symmetric] k_def [symmetric])
        moreover have "length tl + m - k * 8 = length (drop (8 * k) tl) + m" using rc(2) by simp
        moreover note inp [symmetric]
        ultimately show ?thesis using True rc ih False nz
          by (simp add: unp word [unfolded True] Let_def mult.commute)
      next
        case other: False
        have "pack inp = tag_byte w # ?nz @ pack tl"
          using False nz other by (subst pack.simps) (simp add: Let_def w_def [symmetric] tl_def [symmetric])
        with IH(3) [OF nz other al] show ?thesis using False nz other inp [symmetric]
          by (simp add: unp)
      qed
    qed
  qed
qed

section \<open>The buffer of PackedWrite\<close>

lemma take_buf_store:
  assumes "idx < length buf"
  shows "take (Suc idx) (buf[idx := b]) = take idx buf @ [b]"
  using assms by (simp add: take_Suc_conv_app_nth)

lemma pack_bytes_run:
  assumes "idx + length w \<le> length buf"
  shows "\<exists>buf'. (foldp pack_byte w (buf, idx) :: ('w, _) prog) = ret (buf', idx + length (filter (\<lambda>b. b \<noteq> 0) w)) \<and>
    length buf' = length buf \<and>
    take (idx + length (filter (\<lambda>b. b \<noteq> 0) w)) buf' = take idx buf @ filter (\<lambda>b. b \<noteq> 0) w"
  using assms
proof (induction w arbitrary: buf idx)
  case (Cons b w)
  let ?buf = "buf[idx := b]" and ?idx = "idx + of_bool (b \<noteq> 0)"
  have "?idx + length w \<le> length ?buf" using Cons.prems by (cases "b = 0") auto
  from Cons.IH [OF this]
  obtain buf' where buf': "(foldp pack_byte w (?buf, ?idx) :: ('w, _) prog) = ret (buf', ?idx + length (filter (\<lambda>b. b \<noteq> 0) w))"
    "length buf' = length buf" "take (?idx + length (filter (\<lambda>b. b \<noteq> 0) w)) buf' = take ?idx ?buf @ filter (\<lambda>b. b \<noteq> 0) w"
    by auto
  moreover have "(pack_byte b (buf, idx) :: ('w, _) prog) = ret (?buf, ?idx)"
    using Cons.prems by (simp add: pack_byte_def buf_store_def)
  ultimately show ?case
    using Cons.prems take_buf_store [of idx buf b] by (cases "b = 0") auto
qed (auto intro: exI [of _ buf])

lemma pack_word_run:
  assumes "buf_idx + 1 + length w \<le> length buf"
  shows "\<exists>buf'. (pack_word w buf buf_idx :: ('w, _) prog) = ret (buf', buf_idx + 1 + length (filter (\<lambda>b. b \<noteq> 0) w)) \<and>
    length buf' = length buf \<and>
    take (buf_idx + 1 + length (filter (\<lambda>b. b \<noteq> 0) w)) buf' =
      take buf_idx buf @ tag_byte w # filter (\<lambda>b. b \<noteq> 0) w"
proof -
  let ?n = "length (filter (\<lambda>b. b \<noteq> 0) w)"
  obtain buf' where buf': "(foldp pack_byte w (buf, buf_idx + 1) :: ('w, _) prog) = ret (buf', buf_idx + 1 + ?n)"
    "length buf' = length buf" "take (buf_idx + 1 + ?n) buf' = take (buf_idx + 1) buf @ filter (\<lambda>b. b \<noteq> 0) w"
    using pack_bytes_run [OF assms] by auto
  have "take (buf_idx + 1 + ?n) (buf'[buf_idx := tag_byte w]) =
      (take (buf_idx + 1 + ?n) buf')[buf_idx := tag_byte w]" by (simp add: take_update_swap)
  also have "\<dots> = take buf_idx buf @ tag_byte w # filter (\<lambda>b. b \<noteq> 0) w"
    unfolding buf'(3) using assms by (simp add: take_Suc_conv_app_nth list_update_append)
  finally have "take (buf_idx + 1 + ?n) (buf'[buf_idx := tag_byte w]) = \<dots>" .
  moreover have "(pack_word w buf buf_idx :: ('w, _) prog) = ret (buf'[buf_idx := tag_byte w], buf_idx + 1 + ?n)"
    using assms buf'(1,2) by (simp add: pack_word_def buf_store_def)
  ultimately show ?thesis using buf'(2) by auto
qed

context reliable_write
begin

text \<open>What writing some bytes from a state comes to.\<close>

definition writes :: "('w, unit) prog \<Rightarrow> 'w \<Rightarrow> u8 list \<Rightarrow> bool" where
  "writes m w bs \<longleftrightarrow> (\<exists>w'. m w = (Ok (), w') \<and> written w' = written w @ bs \<and>
     (\<forall>n. room w (length bs + n) \<longrightarrow> room w' n))"

lemma writes_wr: "room w (length bs) \<Longrightarrow> writes (wr bs) w bs"
  using write_end by (simp add: writes_def)

lemma writes_seqp:
  assumes "writes m w as" and "room w (length (as @ bs))" and "\<And>w'. room w' (length bs) \<Longrightarrow> writes n w' bs"
  shows "writes (seqp m n) w (as @ bs)"
proof -
  obtain w1 where w1: "m w = (Ok (), w1)" "written w1 = written w @ as"
    "\<And>n. room w (length as + n) \<Longrightarrow> room w1 n" using assms(1) by (auto simp: writes_def)
  have "writes n w1 bs" by (rule assms(3), rule w1(3)) (use assms(2) in simp)
  with w1 show ?thesis by (fastforce simp: writes_def seqp_def bindp_def add.assoc)
qed

lemma writes_wr_seqp:
  assumes "room w (length (as @ bs))" and "\<And>w'. room w' (length bs) \<Longrightarrow> writes n w' bs"
  shows "writes (seqp (wr as) n) w (as @ bs)"
  by (rule writes_seqp [OF writes_wr assms]) (rule room_mono [OF assms(1)], simp)

lemma pack_loop_writes:
  "length buf = 64 \<Longrightarrow> buf_idx \<le> 64 \<Longrightarrow> length inp mod 8 = 0 \<Longrightarrow> room w (length (take buf_idx buf @ pack inp)) \<Longrightarrow>
    writes (pack_loop wr buf buf_idx inp) w (take buf_idx buf @ pack inp)"
proof (induction inp arbitrary: buf buf_idx w rule: pack.induct)
  case (1 inp)
  show ?case
  proof (cases "inp = []")
    case True
    with 1(7) show ?thesis by (subst pack_loop.simps) (simp add: writes_wr)
  next
    case False
    define bytes where "bytes = take 8 inp"
    define tl where "tl = drop 8 inp"
    have ge: "8 \<le> length inp" by (rule mod_8_ge [OF False 1(6)])
    then have lw: "length bytes = 8" and al: "length tl mod 8 = 0" using 1(6) by (auto simp: bytes_def tl_def le_mod_geq)
    let ?nz = "filter (\<lambda>b. b \<noteq> 0) bytes"
    have nz8: "length ?nz \<le> 8" using length_filter_le [of "\<lambda>b. b \<noteq> 0" bytes] lw by simp
    note IH = 1(1-3) [OF False bytes_def tl_def refl refl]
    define body where "body = (\<lambda>buf_idx. bindp (pack_word bytes buf buf_idx) (\<lambda>(buf, buf_idx).
      if tag_byte bytes = 0 then
        let k = zero_words (min 255 (length tl div 8)) tl in
        bindp (buf_store buf_idx (of_nat k) buf) (\<lambda>buf. pack_loop wr buf (buf_idx + 1) (drop (8 * k) tl))
      else if tag_byte bytes = 0xff then
        let k = full_words (min 255 (length tl div 8)) tl in
        bindp (buf_store buf_idx (of_nat k) buf) (\<lambda>buf.
        seqp (wr (take (buf_idx + 1) buf))
        (seqp (wr (take (8 * k) tl)) (pack_loop wr buf 0 (drop (8 * k) tl))))
      else pack_loop wr buf buf_idx tl))"
    have body: "writes (body idx) w' (take idx buf @ pack inp)"
      if idx: "idx + 10 \<le> 64" and room: "room w' (length (take idx buf @ pack inp))" for idx w'
    proof -
      let ?idx = "idx + 1 + length ?nz"
      obtain buf' where buf': "(pack_word bytes buf idx :: ('w, _) prog) = ret (buf', ?idx)" "length buf' = 64"
        "take ?idx buf' = take idx buf @ tag_byte bytes # ?nz"
        using pack_word_run [of idx bytes buf] 1(4) lw idx by auto
      have lt: "?idx < 64" using idx nz8 by simp
      show ?thesis
      proof (cases "tag_byte bytes = 0")
        case True
        define k where "k = zero_words (min 255 (length tl div 8)) tl"
        have p: "pack inp = tag_byte bytes # ?nz @ of_nat k # pack (drop (8 * k) tl)"
          using False True by (subst pack.simps) (simp add: Let_def bytes_def [symmetric] tl_def [symmetric] k_def [symmetric])
        have al': "length (drop (8 * k) tl) mod 8 = 0" using al by (simp add: mod_eq_0_iff_dvd dvd_diff_nat)
        let ?buf = "buf'[?idx := of_nat k]"
        have t: "take (?idx + 1) ?buf @ pack (drop (8 * k) tl) = take idx buf @ pack inp"
          using take_buf_store [of ?idx buf' "of_nat k"] lt buf'(2,3) p by simp
        have "writes (pack_loop wr ?buf (?idx + 1) (drop (8 * k) tl)) w' (take (?idx + 1) ?buf @ pack (drop (8 * k) tl))"
          by (rule IH(1) [OF True k_def _ _ al']) (use buf'(2) lt room t in simp_all)
        then show ?thesis
          unfolding t using True buf'(1,2) lt by (simp add: body_def Let_def k_def [symmetric] buf_store_def)
      next
        case nz: False
        show ?thesis
        proof (cases "tag_byte bytes = 0xff")
          case True
          define k where "k = full_words (min 255 (length tl div 8)) tl"
          have p: "pack inp = tag_byte bytes # ?nz @ of_nat k # take (8 * k) tl @ pack (drop (8 * k) tl)"
            using False nz True by (subst pack.simps) (simp add: Let_def bytes_def [symmetric] tl_def [symmetric] k_def [symmetric])
          have al': "length (drop (8 * k) tl) mod 8 = 0" using al by (simp add: mod_eq_0_iff_dvd dvd_diff_nat)
          let ?buf = "buf'[?idx := of_nat k]"
          have t: "take (?idx + 1) ?buf @ take (8 * k) tl @ pack (drop (8 * k) tl) = take idx buf @ pack inp"
            using take_buf_store [of ?idx buf' "of_nat k"] lt buf'(2,3) p by simp
          have loop: "writes (pack_loop wr ?buf 0 (drop (8 * k) tl)) w'' (pack (drop (8 * k) tl))"
            if "room w'' (length (pack (drop (8 * k) tl)))" for w''
            using IH(2) [OF nz True k_def _ _ al', of ?buf 0 w''] that buf'(2) by simp
          have "writes (seqp (wr (take (?idx + 1) ?buf)) (seqp (wr (take (8 * k) tl)) (pack_loop wr ?buf 0 (drop (8 * k) tl))))
              w' (take (?idx + 1) ?buf @ take (8 * k) tl @ pack (drop (8 * k) tl))"
            by (intro writes_wr_seqp loop) (use room t in simp_all)
          then show ?thesis
            unfolding t using True nz buf'(1,2) lt by (simp add: body_def Let_def k_def [symmetric] buf_store_def)
        next
          case other: False
          have p: "pack inp = tag_byte bytes # ?nz @ pack tl"
            using False nz other by (subst pack.simps) (simp add: Let_def bytes_def [symmetric] tl_def [symmetric])
          then have t: "take ?idx buf' @ pack tl = take idx buf @ pack inp" using buf'(3) by simp
          have "writes (pack_loop wr buf' ?idx tl) w' (take ?idx buf' @ pack tl)"
            by (rule IH(3) [OF nz other _ _ al]) (use buf'(2) lt room t in simp_all)
          then show ?thesis unfolding t using nz other buf'(1) by (simp add: body_def)
        qed
      qed
    qed
    have eq: "pack_loop wr buf buf_idx inp =
        (if buf_idx + 10 > 64 then seqp (wr (take buf_idx buf)) (body 0) else body buf_idx)"
      using False ge 1(4) by (subst pack_loop.simps)
        (simp add: Let_def body_def bytes_def [symmetric] tl_def [symmetric] seqp_def bindp_assoc)
    show ?thesis
    proof (cases "buf_idx + 10 > 64")
      case True
      have "writes (seqp (wr (take buf_idx buf)) (body 0)) w (take buf_idx buf @ pack inp)"
        by (rule writes_wr_seqp [OF 1(7)]) (use body [of 0] in simp)
      with True show ?thesis by (simp add: eq)
    next
      case no_flush: False
      then have "writes (body buf_idx) w (take buf_idx buf @ pack inp)" by (intro body 1(7)) simp
      with no_flush show ?thesis by (simp add: eq)
    qed
  qed
qed

lemma packed_write_all_writes:
  "length inp mod 8 = 0 \<Longrightarrow> room w (length (pack inp)) \<Longrightarrow> writes (packed_write_all wr inp) w (pack inp)"
  using pack_loop_writes [of "replicate 64 0" 0 inp w] by (simp add: packed_write_all_def)

end

section \<open>Blocks written by PackedWrite, read by PackedRead\<close>

text \<open>
  Every \<open>write_all\<close> packs its bytes on its own. A read may span several such blocks, as the body
  of a message does, and has to end where a block ends.
\<close>

lemma unpack_packs:
  "\<forall>b \<in> set blocks. length b mod 8 = 0 \<Longrightarrow>
   unpack (length (concat blocks) + m) (concat (map pack blocks) @ rest) = prepend (concat blocks) (unpack m rest)"
proof (induction blocks)
  case Nil
  then show ?case by (auto simp: prepend_def split: outcome.split)
next
  case (Cons b blocks)
  have "unpack (length b + (length (concat blocks) + m)) (pack b @ concat (map pack blocks) @ rest) =
      prepend b (unpack (length (concat blocks) + m) (concat (map pack blocks) @ rest))"
    by (rule unpack_pack) (use Cons.prems in simp)
  then show ?case using Cons by (simp add: add.assoc)
qed

lemma pack_eq_Nil [simp]: "pack bs = [] \<longleftrightarrow> bs = []"
  by (subst pack.simps) (simp add: Let_def)

context buf_read
begin

lemma packed_read_packs:
  assumes "\<forall>b \<in> set blocks. length b mod 8 = 0" and "concat blocks \<noteq> []"
    and "content r = concat (map pack blocks) @ rest"
  shows "\<exists>r'. packed_read io (length (concat blocks)) r = (Ok (concat blocks), r') \<and> content r' = rest"
proof -
  have "length (concat blocks) mod 8 = 0" using assms(1) by (induction blocks) (auto simp: mod_eq_0_iff_dvd)
  moreover have "content r \<noteq> []" using assms(2,3) by auto
  moreover have "unpack (length (concat blocks)) (content r) = Ok (concat blocks, rest)"
    using unpack_packs [OF assms(1), of 0 rest] assms(3) by (simp add: prepend_def)
  ultimately show ?thesis
    using packed_read_at [of "length (concat blocks)" r] assms(2) by (simp add: decodes_def)
qed

lemma read_exact_packs:
  assumes "\<forall>b \<in> set blocks. length b mod 8 = 0"
    and "content r = concat (map pack blocks) @ rest"
  shows "\<exists>r'. read_exact (packed_read io) (length (concat blocks)) r = (Ok (concat blocks), r') \<and> content r' = rest"
proof (cases "concat blocks = []")
  case True
  moreover from this have "concat (map pack blocks) = []" by auto
  ultimately show ?thesis using assms(2) by (auto simp: read_exact.simps ret_def)
next
  case False
  then obtain r' where "packed_read io (length (concat blocks)) r = (Ok (concat blocks), r')" "content r' = rest"
    using packed_read_packs [OF assms(1)] assms(2) by blast
  with False show ?thesis
    by (subst read_exact.simps) (auto simp: bindp_def read_exact.simps [of _ 0] ret_def)
qed

lemma packed_message_ok:
  assumes segs: "sendable options segs" and r: "content r = concat (map pack (message_blocks segs)) @ rest"
  shows "\<exists>r'. read_message (packed_read io) options r =
      (Ok \<lparr>os_segment_indices = segment_ranges 0 (map (\<lambda>s. length s div 8) segs), owned_space = concat segs\<rparr>, r') \<and>
      content r' = rest"
proof -
  let ?ns = "map (\<lambda>s. length s div 8) segs"
  note ns = sendable_lengths [OF segs]
  have al: "\<forall>s \<in> set segs. length s mod 8 = 0" using segs by (simp add: sendable_def)
  define b1 where "b1 = le32 (length segs - 1) @ seg_words (hd segs)"
  define b2 where "b2 = concat (map seg_words (tl segs)) @ (if even (length segs) then [0, 0, 0, 0] else [] :: u8 list)"
  let ?tab = "if length segs > 1 then [b2] else []"
  have "segs \<noteq> []" using ns(1) by simp
  then have b1': "b1 = le32 (length ?ns - 1) @ le32 (hd ?ns)" "length b1 = 8"
    by (simp_all add: b1_def seg_words_le32 hd_map)
  from this(2) have ne: "b1 \<noteq> []" by (metis list.size(3) zero_neq_numeral)
  have b2': "b2 = concat (map le32 (tl ?ns)) @ (if even (length ?ns) then [0, 0, 0, 0] else [])"
    by (simp add: b2_def seg_words_le32 [abs_def] map_tl comp_def)
  have len2: "length b2 = (length ?ns - length ?ns mod 2) * 4" if "length segs > 1"
  proof -
    have "length b2 = 4 * (length segs - 1) + (if even (length segs) then 4 else 0)" by (simp add: b2')
    then show ?thesis using that by (cases "even (length segs)") (auto elim!: evenE oddE)
  qed
  have al2: "length b2 mod 8 = 0" if "length segs > 1"
  proof -
    have "length b2 = length ?ns div 2 * 8" using len2 [OF that] by (simp add: minus_mod_eq_mult_div)
    then show ?thesis by simp
  qed
  have r': "content r = pack b1 @ concat (map pack ?tab) @ concat (map pack segs) @ rest"
    using r by (simp add: message_blocks_def table_blocks_def b1_def b2_def)
  obtain r1 where r1: "packed_read io 8 r = (Ok b1, r1)" "content r1 = concat (map pack ?tab) @ concat (map pack segs) @ rest"
    using packed_read_packs [of "[b1]" r] r' b1'(2) ne by auto
  obtain r2 where r2: "read_exact (packed_read io) (length (concat ?tab)) r1 = (Ok (concat ?tab), r2)"
    "content r2 = concat (map pack segs) @ rest"
    using read_exact_packs [of ?tab r1] r1(2) al2 by force
  have table: "read_segment_table (packed_read io) options r =
      (Ok (Some \<lparr>slb_segment_indices = segment_ranges 0 ?ns, total_words = sum_list ?ns\<rparr>), r2)"
  proof (rule read_segment_table_run [OF ns(1-5)])
    show "bindp (packed_read io 8) (\<lambda>first. let n = length first in
        if n = 0 then ret None
        else bindp (if n < 8 then bindp (read_exact (packed_read io) (8 - n)) (\<lambda>rest. ret (first @ rest)) else ret first) k) r =
        k (le32 (length ?ns - 1) @ le32 (hd ?ns)) r1" for k
      unfolding b1'(1) [symmetric] by (simp add: bindp_def [of "packed_read _ _"] r1(1) b1'(2) ne Let_def)
    show "read_exact (packed_read io) ((length ?ns - length ?ns mod 2) * 4) r1 =
        (Ok (concat (map le32 (tl ?ns)) @ (if even (length ?ns) then [0, 0, 0, 0] else [])), r2)"
      if "length ?ns > 1"
    proof -
      have gt: "length segs > 1" using that by simp
      show ?thesis unfolding b2' [symmetric] len2 [OF gt, symmetric] using r2(1) gt by simp
    qed
    show "r2 = r1" if "length ?ns = 1"
      using r2(1) that by (simp add: read_exact.simps [of _ 0] ret_def)
  qed
  obtain r3 where "read_exact (packed_read io) (sum_list ?ns * 8) r2 = (Ok (concat segs), r3)" "content r3 = rest"
    using read_exact_packs [OF al r2(2)] ns(6) by auto
  with table show ?thesis
    by (intro exI [of _ r3]) (simp add: read_message_def read_segments_def into_owned_segments_def bindp_def ret_def)
qed

end

section \<open>Properties\<close>

lemma message_blocks_aligned:
  assumes "segs \<noteq> []" and "\<forall>s \<in> set segs. length s mod 8 = 0"
  shows "\<forall>b \<in> set (message_blocks segs). length b mod 8 = 0"
proof -
  have words: "length (seg_words s) = 4" for s by (simp add: seg_words_le32)
  have sum: "length (concat (map seg_words ss)) = 4 * length ss" for ss
    by (induction ss) (simp_all add: words)
  have "length (concat (map seg_words (tl segs)) @ (if even (length segs) then [0, 0, 0, 0] else [])) = length segs div 2 * 8"
    using assms(1) by (cases segs) (auto simp: sum elim!: evenE oddE)
  then show ?thesis using assms(2) words by (auto simp: message_blocks_def table_blocks_def)
qed

text \<open>
  C23: \<open>PackedRead\<close> refines the decoder of one flat byte string: for a stream cut into pieces at
  any points, reading \<open>len\<close> bytes gives what the decoder gives on the concatenation, the same
  errors included, and leaves the stream where the decoder stops. It never panics and never
  leaves its buffers.
\<close>

theorem packed_read_refines_decoder:
  assumes "len mod 8 = 0" and "0 < len"
  shows "case (if concat pieces = [] then Ok ([], []) else unpack len (concat pieces)) of
      Ok (bytes, rest) \<Rightarrow> \<exists>pieces'. packed_read (chunk_fill_buf, chunk_consume, chunk_read) len pieces = (Ok bytes, pieces') \<and>
        concat pieces' = rest
    | Err e \<Rightarrow> \<exists>pieces'. packed_read (chunk_fill_buf, chunk_consume, chunk_read) len pieces = (Err e, pieces')
    | _ \<Rightarrow> False"
  using chunk_buf.packed_read_at [OF assms, of pieces] unfolding chunk_buf.decodes_def append_Nil .

theorem packed_read_refines_decoder_witness:
  "\<exists>pieces'. packed_read (chunk_fill_buf, chunk_consume, chunk_read) 8 [[0x24, 12], [], [34, 7]] =
     (Ok [0, 0, 12, 0, 0, 34, 0, 0], pieces') \<and> concat pieces' = [7]"
proof -
  have "tag_bits 0x24 = [False, False, True, False, False, True, False, False]" by code_simp
  then have "unpack 8 [0x24, 12, 34, 7] = Ok ([0, 0, 12, 0, 0, 34, 0, 0], [7])"
    by (simp add: unpack.simps [of 8] prepend_def)
  then show ?thesis
    using packed_read_refines_decoder [of 8 "[[0x24, 12], [], [34, 7]]"] by simp
qed

text \<open>
  Packing is lossless: what \<open>PackedWrite\<close> writes for any whole number of words, delivered in
  pieces of any sizes and followed by anything, \<open>PackedRead\<close> reads back as the same words, and
  the stream is left at what follows.
\<close>

theorem packing_round_trip:
  assumes "length words mod 8 = 0"
    and "packed_write_all vec_write_all words [] = (r, bytes)"
    and "concat pieces = bytes @ rest"
  shows "r = Ok () \<and> (\<exists>pieces'. read_exact (packed_read (chunk_fill_buf, chunk_consume, chunk_read)) (length words) pieces =
      (Ok words, pieces') \<and> concat pieces' = rest)"
proof -
  have "r = Ok ()" "bytes = pack words"
    using vec_writer.packed_write_all_writes [OF assms(1), of "[]"] assms(2) by (auto simp: vec_writer.writes_def)
  then show ?thesis using chunk_buf.read_exact_packs [of "[words]" pieces rest] assms(1,3) by simp
qed

lemma sample_pack: "packed_write_all vec_write_all [0, 0, 12, 0, 0, 34, 0, 0] [] = (Ok (), [0x24, 12, 34])"
proof -
  have "pack [0, 0, 12, 0, 0, 34, 0, 0] = [0x24, 12, 34]"
    by (simp add: pack.simps [of "_ # _"] tag_byte_def Let_def)
  then show ?thesis
    using vec_writer.packed_write_all_writes [of "[0, 0, 12, 0, 0, 34, 0, 0]" "[]"]
    by (auto simp: vec_writer.writes_def)
qed

theorem packing_round_trip_witness:
  "\<exists>pieces'. read_exact (packed_read (chunk_fill_buf, chunk_consume, chunk_read)) 8 [[0x24], [12, 34, 99]] =
      (Ok [0, 0, 12, 0, 0, 34, 0, 0], pieces') \<and> concat pieces' = [99]"
proof -
  have "length [0, 0, 12, 0, 0, 34, 0, 0 :: u8] = 8" by simp
  then show ?thesis
    using packing_round_trip [OF _ sample_pack, of "[[0x24], [12, 34, 99]]" "[99]"] by (simp del: list.size)
qed

lemma packed_blocks_write:
  "\<forall>b \<in> set bs. length b mod 8 = 0 \<Longrightarrow>
   foldp (\<lambda>b _. packed_write_all vec_write_all b) bs () out = (Ok (), out @ concat (map pack bs))"
proof (induction bs arbitrary: out)
  case (Cons b bs)
  then show ?case using vec_writer.packed_write_all_writes [of b out]
    by (auto simp: vec_writer.writes_def bindp_def)
qed (simp add: ret_def)

text \<open>
  C22: Whole messages round-trip through the packed format: the segments that \<open>write_message\<close>
  writes through \<open>PackedWrite\<close> are read by \<open>read_message\<close> through \<open>PackedRead\<close>, however the
  stream is cut into pieces; every run of the encoding ends where a read of the table or of the
  body ends, although the body is read across several packed blocks.
\<close>

theorem packed_message_round_trip:
  assumes "sendable options segs"
    and "write_message_segments (packed_write_all vec_write_all) vec_get_segment vec_len segs [] = (r, bytes)"
    and "concat pieces = bytes @ rest"
  shows "r = Ok () \<and> (\<exists>owned pieces'.
    packed_read_message (chunk_fill_buf, chunk_consume, chunk_read) options pieces = (Ok owned, pieces') \<and>
    concat pieces' = rest \<and> owned_len owned = Ok (length segs) \<and>
    (\<forall>i. owned_get_segment owned i = Ok (if unat i < length segs then Some (segs ! unat i) else None)))"
proof -
  let ?ns = "map (\<lambda>s. length s div 8) segs"
  note ns = sendable_lengths [OF assms(1)]
  have al: "\<forall>b \<in> set (message_blocks segs). length b mod 8 = 0"
    using assms(1) ns(1) by (intro message_blocks_aligned) (auto simp: sendable_def)
  have bytes: "r = Ok ()" "bytes = concat (map pack (message_blocks segs))"
    using packed_blocks_write [OF al, of "[]"] assms(2) ns(1,7) by (auto simp: vec_segments.message_writes)
  let ?o = "\<lparr>os_segment_indices = segment_ranges 0 ?ns, owned_space = concat segs\<rparr>"
  obtain pieces' where read: "packed_read_message (chunk_fill_buf, chunk_consume, chunk_read) options pieces = (Ok ?o, pieces')"
    "concat pieces' = rest"
    using chunk_buf.packed_message_ok [OF assms(1), of pieces rest] assms(3) bytes(2)
    by (auto simp: packed_read_message_def)
  have ok: "ranges_ok (os_segment_indices ?o) 0 (owned_space ?o)"
    using segment_ranges_ok [of ?ns 0 "concat segs"] ns by simp
  have cut: "cut_at (os_segment_indices ?o) 0 (owned_space ?o) = segs"
    using cut_at_segment_ranges [of segs "[]" 0 "[]" "[]"] assms(1) by (simp add: sendable_def)
  have "owned_len ?o = Ok (length segs)"
    "owned_get_segment ?o i = Ok (if unat i < length segs then Some (segs ! unat i) else None)" for i
    using owned_segs.len [OF ok] owned_segs.get [OF ok, of i] unfolding cut by simp_all
  with read bytes show ?thesis by blast
qed

lemma sample_packed_message:
  "write_message_segments (packed_write_all vec_write_all) vec_get_segment vec_len [[0, 0, 12, 0, 0, 34, 0, 0]] [] =
     (Ok (), [0x10, 1, 0x24, 12, 34])"
proof -
  have blocks: "message_blocks [[0, 0, 12, 0, 0, 34, 0, 0]] = [[0, 0, 0, 0, 1, 0, 0, 0], [0, 0, 12, 0, 0, 34, 0, 0]]"
    by (simp add: message_blocks_def table_blocks_def seg_words_le32 le32_def to_le_bytes_4)
  have "pack [0, 0, 0, 0, 1, 0, 0, 0] = [0x10, 1]" "pack [0, 0, 12, 0, 0, 34, 0, 0] = [0x24, 12, 34]"
    by (simp_all add: pack.simps [of "_ # _"] tag_byte_def Let_def)
  then show ?thesis
    using packed_blocks_write [of "message_blocks [[0, 0, 12, 0, 0, 34, 0, 0]]" "[]"]
    by (simp add: vec_segments.message_writes blocks)
qed

theorem packed_message_round_trip_witness:
  "\<exists>owned pieces'. packed_read_message (chunk_fill_buf, chunk_consume, chunk_read) DEFAULT_READER_OPTIONS
       [[0x10], [], [1, 0x24, 12], [34, 99]] = (Ok owned, pieces') \<and>
     concat pieces' = [99] \<and> owned_len owned = Ok 1 \<and>
     (\<forall>i. owned_get_segment owned i = Ok (if unat i < 1 then Some ([[0, 0, 12, 0, 0, 34, 0, 0]] ! unat i) else None))"
proof -
  have "sendable DEFAULT_READER_OPTIONS [[0, 0, 12, 0, 0, 34, 0, 0]]"
    by (simp add: sendable_def SEGMENTS_COUNT_LIMIT_def DEFAULT_READER_OPTIONS_def)
  from packed_message_round_trip [OF this sample_packed_message, of "[[0x10], [], [1, 0x24, 12], [34, 99]]" "[99]"]
  show ?thesis by simp
qed

end
