(* ===== verification/No_Alloc.thy ===== *)
theory No_Alloc
  imports Serialize
begin

text \<open>
  Reading messages without allocation, \<^verbatim>\<open>capnp/src/serialize/no_alloc_buffer_segments.rs\<close> and
  \<open>try_read_message_no_alloc\<close> of \<^verbatim>\<open>capnp/src/serialize.rs\<close>. The segment table is not kept; each
  \<open>get_segment\<close> parses it again out of the buffer. Whether the buffer starts at a multiple of eight
  bytes is a parameter of the model.

  Shown: on a flat slice this parser accepts the same messages as the allocating one, leaves
  the same rest, and hands out the same segments; none of its \<open>unwrap\<close>s can fail on a buffer it
  has accepted. Reading from a stream, its loop over the table ignores short reads.
\<close>

section \<open>The parser\<close>

record segment_table_info =
  segments_count :: nat
  segment_table_length_bytes :: nat
  total_segments_length_bytes :: nat

definition verify_alignment :: "bool \<Rightarrow> ('s, unit) prog" where
  "verify_alignment aligned = (if aligned then ret () else err MessageNotAlignedBy8BytesBoundary)"

text \<open>The slice is advanced past the four bytes.\<close>

definition read_u32_le :: "(u8 list, u32) prog" where
  "read_u32_le sl =
     (if length sl < 4 then (Err (MessageEndsPrematurely 4 (length sl)), sl)
      else (Ok (from_le_bytes (take 4 sl)), drop 4 sl))"

definition u32_to_segments_count :: "u32 \<Rightarrow> nat outcome" where
  "u32_to_segments_count val =
     (if unat val + 1 < 2 ^ 64 then Ok (unat val + 1) else Err FourByteLengthTooBigForUSize)"

definition u32_to_segment_length_bytes :: "u32 \<Rightarrow> nat outcome" where
  "u32_to_segment_length_bytes val =
     (if unat val * BYTES_PER_WORD < 2 ^ 64 then Ok (unat val * BYTES_PER_WORD)
      else Err FourByteSegmentLengthTooBigForUSize)"

text \<open>\<open>None\<close> for no segments or an overflow; a misaligned table is unreachable in the code.\<close>

definition calculate_data_offset :: "nat \<Rightarrow> nat option outcome" where
  "calculate_data_offset count =
     (if count = 0 then Ok None
      else if count * 4 \<ge> 2 ^ 64 \<or> 4 + count * 4 \<ge> 2 ^ 64 then Ok None
      else
      let data_offset = 4 + count * 4 in
      if data_offset mod BYTES_PER_WORD \<noteq> 0 \<and> data_offset mod BYTES_PER_WORD \<noteq> 4 then Panic
      else
      let padding_len = data_offset mod BYTES_PER_WORD in
      if data_offset + padding_len \<ge> 2 ^ 64 then Ok None
      else if (data_offset + padding_len) mod BYTES_PER_WORD \<noteq> 0 then Panic
      else Ok (Some (data_offset + padding_len)))"

definition add_segment_length :: "nat \<Rightarrow> (u8 list, nat) prog" where
  "add_segment_length acc =
     bindp read_u32_le (\<lambda>v.
     bindp (of_outcome (u32_to_segment_length_bytes v)) (\<lambda>n.
     if acc + n \<ge> 2 ^ 64 then err MessageSizeOverflow else ret (acc + n)))"

definition na_read_segment_table :: "bool \<Rightarrow> u8 list \<Rightarrow> reader_options \<Rightarrow> (u8 list, segment_table_info) prog" where
  "na_read_segment_table aligned sl options =
     seqp (verify_alignment aligned)
     (bindp read_u32_le (\<lambda>v.
     bindp (of_outcome (u32_to_segments_count v)) (\<lambda>count.
     if count \<ge> SEGMENTS_COUNT_LIMIT then err (InvalidNumberOfSegments count)
     else
     bindp (foldp (\<lambda>_ acc. add_segment_length acc) [0..<count] 0) (\<lambda>acc.
     seqp (case traversal_limit_in_words options of
         Some lim \<Rightarrow> if acc div 8 > unat lim then err (MessageTooLarge (acc div 8)) else ret ()
       | None \<Rightarrow> ret ())
     (seqp (if count mod 2 = 0 then bindp read_u32_le (\<lambda>_. ret ()) else ret ())
     (bindp (of_outcome (calculate_data_offset count)) (\<lambda>r. case r of
         None \<Rightarrow> err MessageSizeOverflow
       | Some expected_data_offset \<Rightarrow>
           bindp (gets length) (\<lambda>remaining.
           seqp (assertp (expected_data_offset = length sl - remaining))
           (if remaining < acc
            then err (MessageEndsPrematurely (acc div BYTES_PER_WORD) (remaining div BYTES_PER_WORD))
            else ret \<lparr>segments_count = count, segment_table_length_bytes = expected_data_offset,
                      total_segments_length_bytes = acc\<rparr>)))))))))"

section \<open>The container of segments\<close>

datatype segment_type = SingleSegment nat | MultipleSegments

record no_alloc_segments =
  na_buffer :: "u8 list"
  na_segment_type :: segment_type

definition from_segment_table_info :: "u8 list \<Rightarrow> segment_table_info \<Rightarrow> no_alloc_segments" where
  "from_segment_table_info buf info = \<lparr>na_buffer = buf, na_segment_type =
     (if segments_count info = 1 then SingleSegment (total_segments_length_bytes info) else MultipleSegments)\<rparr>"

text \<open>The state is the slice, advanced past the message on success.\<close>

definition from_slice :: "bool \<Rightarrow> reader_options \<Rightarrow> (u8 list, no_alloc_segments) prog" where
  "from_slice aligned options sl =
     (case na_read_segment_table aligned sl options sl of
        (Ok info, _) \<Rightarrow>
          (let message_length = segment_table_length_bytes info + total_segments_length_bytes info in
           if message_length > length sl then (Panic, sl)
           else (Ok (from_segment_table_info (take message_length sl) info), drop message_length sl))
      | (Err e, _) \<Rightarrow> (Err e, sl) | (Panic, _) \<Rightarrow> (Panic, sl) | (UB, _) \<Rightarrow> (UB, sl))"

definition from_buffer :: "bool \<Rightarrow> u8 list \<Rightarrow> reader_options \<Rightarrow> no_alloc_segments outcome" where
  "from_buffer aligned buf options =
     (case na_read_segment_table aligned buf options buf of
        (Ok info, _) \<Rightarrow> Ok (from_segment_table_info buf info)
      | (Err e, _) \<Rightarrow> Err e | (Panic, _) \<Rightarrow> Panic | (UB, _) \<Rightarrow> UB)"

text \<open>\<open>Result::unwrap\<close>.\<close>

definition unwrap :: "('s, 'a) prog \<Rightarrow> ('s, 'a) prog" where
  "unwrap m s = (case m s of (Err e, t) \<Rightarrow> (Panic, t) | r \<Rightarrow> r)"

definition skip_segment :: "nat \<Rightarrow> (u8 list, nat) prog" where
  "skip_segment segment_offset =
     bindp (unwrap read_u32_le) (\<lambda>v.
     bindp (unwrap (of_outcome (u32_to_segment_length_bytes v))) (\<lambda>n.
     if segment_offset + n \<ge> 2 ^ 64 then panic else ret (segment_offset + n)))"

definition na_get_segment :: "no_alloc_segments \<Rightarrow> u32 \<Rightarrow> u8 list option outcome" where
  "na_get_segment self i =
     (let idx = unat i in
      case na_segment_type self of
        SingleSegment length_bytes \<Rightarrow>
          if idx = 0 then
            (case slice_range 8 (8 + length_bytes) (na_buffer self) of
               Ok seg \<Rightarrow> Ok (Some seg) | Err e \<Rightarrow> Err e | Panic \<Rightarrow> Panic | UB \<Rightarrow> UB)
          else Ok None
      | MultipleSegments \<Rightarrow>
          fst (bindp (unwrap read_u32_le) (\<lambda>v.
               bindp (unwrap (of_outcome (u32_to_segments_count v))) (\<lambda>count.
               if idx \<ge> count then ret None
               else
               bindp (of_outcome (calculate_data_offset count)) (\<lambda>r. case r of
                 None \<Rightarrow> panic
               | Some data_offset \<Rightarrow>
                   bindp (foldp (\<lambda>_. skip_segment) [0..<idx] data_offset) (\<lambda>segment_offset.
                   bindp (unwrap read_u32_le) (\<lambda>v.
                   bindp (unwrap (of_outcome (u32_to_segment_length_bytes v))) (\<lambda>segment_length.
                   bindp (of_outcome (slice_range segment_offset (segment_offset + segment_length) (na_buffer self)))
                     (\<lambda>seg. ret (Some seg)))))))) (na_buffer self)))"

definition na_len :: "no_alloc_segments \<Rightarrow> nat outcome" where
  "na_len self =
     (case na_segment_type self of
        SingleSegment _ \<Rightarrow> Ok 1
      | MultipleSegments \<Rightarrow>
          fst (bindp (unwrap read_u32_le) (\<lambda>v. unwrap (of_outcome (u32_to_segments_count v))) (na_buffer self)))"

section \<open>Reading from a stream into a buffer\<close>

text \<open>
  The loop over the rest of the table, two lengths at a time. A single \<open>read\<close> fills the front of
  the eight bytes it is given; how many bytes it returned is not looked at.
\<close>

function read_lengths ::
  "(nat \<Rightarrow> ('r, u8 list) prog) \<Rightarrow> nat \<Rightarrow> nat \<Rightarrow> u8 list \<Rightarrow> nat \<Rightarrow> ('r, u8 list \<times> nat \<times> nat) prog" where
  "read_lengths rd segment_count num_read buf acc =
     (if num_read < segment_count then
        let start = (num_read + 1) * 4 in
        if length buf < start + 8 then err BufferNotLargeEnough
        else
        bindp (rd 8) (\<lambda>bs.
        if length bs > 8 then panic
        else
        let buf = write_at start bs buf; acc = acc + unat (u32_at start buf) in
        if acc \<ge> 2 ^ 64 then err MessageSizeOverflow
        else
        if num_read + 1 < segment_count then
          let acc = acc + unat (u32_at (start + 4) buf) in
          if acc \<ge> 2 ^ 64 then err MessageSizeOverflow
          else read_lengths rd segment_count (num_read + 2) buf acc
        else read_lengths rd segment_count (num_read + 2) buf acc)
      else ret (buf, num_read, acc))"
  by pat_completeness auto
termination
  by (relation "measure (\<lambda>(rd, c, n, buf, acc). c - n)") auto

declare read_lengths.simps [simp del]

definition try_read_message_no_alloc ::
  "(nat \<Rightarrow> ('r, u8 list) prog) \<Rightarrow> bool \<Rightarrow> u8 list \<Rightarrow> reader_options \<Rightarrow> ('r, no_alloc_segments option) prog" where
  "try_read_message_no_alloc rd aligned buf options =
     (if \<not> aligned then err UnalignedSegment
      else if length buf < 8 then err BufferNotLargeEnough
      else
      bindp (rd 8) (\<lambda>first.
      let n = length first in
      if n = 0 then ret None
      else
      bindp (if n < 8 then bindp (read_exact rd (8 - n)) (\<lambda>rest. ret (first @ rest)) else ret first) (\<lambda>first.
      let buf = write_at 0 first buf;
          segment_count = unat (u32_at 0 buf + 1) in
      if segment_count \<ge> SEGMENTS_COUNT_LIMIT \<or> segment_count = 0
      then err (InvalidNumberOfSegments segment_count)
      else
      bindp (read_lengths rd segment_count 1 buf (unat (u32_at 4 buf))) (\<lambda>(buf, num_read, total_body_words).
      seqp (case traversal_limit_in_words options of
          Some lim \<Rightarrow> if total_body_words > unat lim then err (MessageTooLarge total_body_words) else ret ()
        | None \<Rightarrow> ret ())
      (let start = (num_read + 1) * 4 in
      if length buf < start + total_body_words * 8 then err BufferNotLargeEnough
      else
      bindp (read_exact rd (total_body_words * 8)) (\<lambda>body.
      ret (Some (from_segment_table_info (write_at start body buf)
        \<lparr>segments_count = segment_count, segment_table_length_bytes = start,
         total_segments_length_bytes = total_body_words * 8\<rparr>))))))))"

definition read_message_no_alloc ::
  "(nat \<Rightarrow> ('r, u8 list) prog) \<Rightarrow> bool \<Rightarrow> u8 list \<Rightarrow> reader_options \<Rightarrow> ('r, no_alloc_segments) prog" where
  "read_message_no_alloc rd aligned buf options =
     bindp (try_read_message_no_alloc rd aligned buf options) (\<lambda>r. case r of
       Some m \<Rightarrow> ret m
     | None \<Rightarrow> err PrematureEndOfFile)"

section \<open>The table in a buffer\<close>

definition table_count :: "u8 list \<Rightarrow> nat" where
  "table_count buf = unat (u32_at 0 buf) + 1"

definition table_lengths :: "u8 list \<Rightarrow> nat list" where
  "table_lengths buf = map (\<lambda>k. unat (u32_at (4 + k * 4) buf)) [0..<table_count buf]"

definition table_size :: "u8 list \<Rightarrow> nat" where
  "table_size buf = (table_count buf div 2 + 1) * 8"

lemma length_table_lengths [simp]: "length (table_lengths buf) = table_count buf"
  by (simp add: table_lengths_def)

lemma calculate_data_offset_count:
  assumes "0 < c" and "c < 2 ^ 32"
  shows "calculate_data_offset c = Ok (Some ((c div 2 + 1) * 8))"
proof (cases "even c")
  case True
  then obtain k where "c = 2 * k" by (elim evenE)
  then show ?thesis using assms by (simp add: calculate_data_offset_def Let_def)
next
  case False
  then obtain k where "c = 2 * k + 1" by (elim oddE)
  then show ?thesis using assms by (simp add: calculate_data_offset_def Let_def)
qed

lemma u32_bound: "unat (v :: u32) < 2 ^ 32"
  using unsigned_less [of v] by simp

lemma sum_list_bound: "\<forall>n \<in> set ns. n < 2 ^ 32 \<Longrightarrow> sum_list ns \<le> length ns * 2 ^ 32"
  by (induction ns) (auto simp: add_mono)

lemma lengths_bound:
  "\<forall>n \<in> set (table_lengths buf). n < 2 ^ 32"
  "table_count buf < 512 \<Longrightarrow> sum_list (table_lengths buf) * 8 < 2 ^ 50"
proof -
  show b: "\<forall>n \<in> set (table_lengths buf). n < 2 ^ 32"
    using u32_bound by (auto simp: table_lengths_def)
  assume "table_count buf < 512"
  then have "table_count buf * 2 ^ 32 \<le> 512 * 2 ^ 32" by simp
  then show "sum_list (table_lengths buf) * 8 < 2 ^ 50"
    using sum_list_bound [OF b] by simp
qed

text \<open>The loop over the lengths, from any position of the table.\<close>

lemma take_at_drop: "take n (drop i xs) = take_at i n xs"
  by (simp add: take_at_def)

lemma add_lengths:
  assumes "a + k * 4 \<le> length buf" and "k < 512"
  shows "foldp (\<lambda>_ acc. add_segment_length acc) [0..<k] 0 (drop a buf) =
    (Ok (8 * sum_list (map (\<lambda>j. unat (u32_at (a + j * 4) buf)) [0..<k])), drop (a + k * 4) buf)"
  using assms
proof (induction k)
  case 0
  then show ?case by (simp add: ret_def)
next
  case (Suc k)
  let ?ns = "map (\<lambda>j. unat (u32_at (a + j * 4) buf)) [0..<k]"
  have "sum_list ?ns \<le> k * 2 ^ 32"
    using sum_list_bound [of ?ns] u32_bound by auto
  then have "8 * sum_list ?ns < 2 ^ 63" using Suc.prems(2) by simp
  moreover have "unat (u32_at (a + k * 4) buf) < 2 ^ 32" by (rule u32_bound)
  ultimately show ?case
    using Suc
    by (simp add: foldp_append bindp_def add_segment_length_def read_u32_le_def of_outcome_def
        u32_to_segment_length_bytes_def u32_at_def take_at_def ret_def add.commute add.left_commute)
qed

lemma add_segment_length_Err:
  "length t < 4 \<Longrightarrow> add_segment_length acc t = (Err (MessageEndsPrematurely 4 (length t)), t)"
  by (simp add: add_segment_length_def read_u32_le_def bindp_def)

lemma add_lengths_short:
  assumes "a \<le> length buf" and "length buf < a + k * 4" and "k < 512"
  shows "\<exists>e t. foldp (\<lambda>_ acc. add_segment_length acc) [0..<k] 0 (drop a buf) = (Err e, t)"
  using assms(2,3)
proof (induction k)
  case (Suc k)
  show ?case
  proof (cases "length buf < a + k * 4")
    case True
    with Suc show ?thesis by (auto simp: foldp_append bindp_def)
  next
    case False
    with Suc.prems show ?thesis
      by (simp add: foldp_append bindp_def add_lengths add_segment_length_Err)
  qed
qed (use assms(1) in simp)

text \<open>The messages that are accepted.\<close>

definition acceptable :: "reader_options \<Rightarrow> u8 list \<Rightarrow> bool" where
  "acceptable options sl \<longleftrightarrow> 4 \<le> length sl \<and> table_count sl < SEGMENTS_COUNT_LIMIT \<and>
     table_size sl + sum_list (table_lengths sl) * 8 \<le> length sl \<and>
     (case traversal_limit_in_words options of None \<Rightarrow> True
      | Some l \<Rightarrow> sum_list (table_lengths sl) \<le> unat l)"

definition table_info :: "u8 list \<Rightarrow> segment_table_info" where
  "table_info sl = \<lparr>segments_count = table_count sl, segment_table_length_bytes = table_size sl,
     total_segments_length_bytes = sum_list (table_lengths sl) * 8\<rparr>"

lemma table_count_positive: "0 < table_count sl" "table_count sl < 2 ^ 64"
  using u32_bound [of "u32_at 0 sl"] by (simp_all add: table_count_def)

lemma table_size_cases:
  "table_size sl = 4 + table_count sl * 4 + (if table_count sl mod 2 = 0 then 4 else 0)"
proof (cases "even (table_count sl)")
  case True
  then obtain k where "table_count sl = 2 * k" by (elim evenE)
  then show ?thesis by (simp add: table_size_def)
next
  case False
  then obtain k where "table_count sl = 2 * k + 1" by (elim oddE)
  then show ?thesis by (simp add: table_size_def)
qed

lemma read_count:
  assumes "4 \<le> length sl"
  shows "bindp read_u32_le (\<lambda>v. bindp (of_outcome (u32_to_segments_count v)) f) sl = f (table_count sl) (drop 4 sl)"
  using assms table_count_positive(2) [of sl]
  by (simp add: read_u32_le_def bindp_def u32_to_segments_count_def table_count_def u32_at_def take_at_def
      of_outcome_def)

lemma na_read_segment_table_run:
  "acceptable options sl \<Longrightarrow>
     na_read_segment_table True sl options sl = (Ok (table_info sl), drop (table_size sl) sl)"
  "\<not> acceptable options sl \<Longrightarrow> \<exists>e t. na_read_segment_table True sl options sl = (Err e, t)"
proof -
  let ?c = "table_count sl" and ?sum = "sum_list (table_lengths sl)"
  let ?rest = "\<lambda>acc. seqp (case traversal_limit_in_words options of
         Some lim \<Rightarrow> if acc div 8 > unat lim then err (MessageTooLarge (acc div 8)) else ret ()
       | None \<Rightarrow> ret ())
     (seqp (if ?c mod 2 = 0 then bindp read_u32_le (\<lambda>_. ret ()) else ret ())
     (bindp (of_outcome (calculate_data_offset ?c)) (\<lambda>r. case r of
         None \<Rightarrow> err MessageSizeOverflow
       | Some expected_data_offset \<Rightarrow>
           bindp (gets length) (\<lambda>remaining.
           seqp (assertp (expected_data_offset = length sl - remaining))
           (if remaining < acc
            then err (MessageEndsPrematurely (acc div BYTES_PER_WORD) (remaining div BYTES_PER_WORD))
            else ret \<lparr>segments_count = ?c, segment_table_length_bytes = expected_data_offset,
                      total_segments_length_bytes = acc\<rparr>)))))"
  have run: "na_read_segment_table True sl options sl =
      (if SEGMENTS_COUNT_LIMIT \<le> ?c then (Err (InvalidNumberOfSegments ?c), drop 4 sl)
       else bindp (foldp (\<lambda>_ acc. add_segment_length acc) [0..<?c] 0) ?rest (drop 4 sl))" if "4 \<le> length sl"
    unfolding na_read_segment_table_def verify_alignment_def if_True ret_seqp read_count [OF that]
    by (cases "SEGMENTS_COUNT_LIMIT \<le> ?c") (simp_all only: if_True if_False err_def)
  have lengths: "foldp (\<lambda>_ acc. add_segment_length acc) [0..<?c] 0 (drop 4 sl) = (Ok (?sum * 8), drop (4 + ?c * 4) sl)"
    if "?c < SEGMENTS_COUNT_LIMIT" "4 + ?c * 4 \<le> length sl"
    using add_lengths [of 4 ?c sl] that by (simp add: SEGMENTS_COUNT_LIMIT_def table_lengths_def mult.commute)
  have offset: "calculate_data_offset ?c = Ok (Some (table_size sl))" if "?c < SEGMENTS_COUNT_LIMIT"
    using calculate_data_offset_count [of ?c] that table_count_positive(1) [of sl]
    by (simp add: SEGMENTS_COUNT_LIMIT_def table_size_def)
  have rest: "?rest (?sum * 8) (drop (4 + ?c * 4) sl) =
      (case traversal_limit_in_words options of
         Some lim \<Rightarrow> if ?sum > unat lim then (Err (MessageTooLarge ?sum), drop (4 + ?c * 4) sl)
           else (if length sl < table_size sl + ?sum * 8 then (Err (MessageEndsPrematurely ?sum ((length sl - table_size sl) div 8)), drop (table_size sl) sl)
             else (Ok (table_info sl), drop (table_size sl) sl))
       | None \<Rightarrow> (if length sl < table_size sl + ?sum * 8 then (Err (MessageEndsPrematurely ?sum ((length sl - table_size sl) div 8)), drop (table_size sl) sl)
             else (Ok (table_info sl), drop (table_size sl) sl)))"
    if "?c < SEGMENTS_COUNT_LIMIT" "table_size sl \<le> length sl"
    using that table_size_cases [of sl]
    by (cases "?c mod 2 = 0") (auto simp: run_simps offset read_u32_le_def table_info_def add.commute split: option.split)
  have short: "\<exists>e t. ?rest (?sum * 8) (drop (4 + ?c * 4) sl) = (Err e, t)"
    if "length sl < table_size sl" "4 + ?c * 4 \<le> length sl"
    using that table_size_cases [of sl]
    by (auto simp: run_simps read_u32_le_def split: option.split if_splits)
  show "na_read_segment_table True sl options sl = (Ok (table_info sl), drop (table_size sl) sl)" if "acceptable options sl"
  proof -
    have c: "4 \<le> length sl" "?c < SEGMENTS_COUNT_LIMIT" "table_size sl \<le> length sl" "4 + ?c * 4 \<le> length sl"
      using that table_size_cases [of sl] by (auto simp: acceptable_def)
    show ?thesis
      unfolding run [OF c(1)] bindp_def [of "foldp _ _ _"] lengths [OF c(2,4)] prod.case outcome.case rest [OF c(2,3)]
      using c that by (auto simp: acceptable_def split: option.splits)
  qed
  show "\<exists>e t. na_read_segment_table True sl options sl = (Err e, t)" if "\<not> acceptable options sl"
  proof (cases "length sl < 4")
    case True
    then show ?thesis by (simp add: na_read_segment_table_def verify_alignment_def seqp_def bindp_def read_u32_le_def)
  next
    case False
    then have l4: "4 \<le> length sl" by simp
    show ?thesis
    proof (cases "SEGMENTS_COUNT_LIMIT \<le> ?c")
      case True
      then show ?thesis by (simp add: run [OF l4])
    next
      case False
      then have c: "?c < SEGMENTS_COUNT_LIMIT" by simp
      show ?thesis
      proof (cases "4 + ?c * 4 \<le> length sl")
        case False
        then obtain e t where "foldp (\<lambda>_ acc. add_segment_length acc) [0..<?c] 0 (drop 4 sl) = (Err e, t)"
          using add_lengths_short [of 4 sl ?c] l4 c by (auto simp: SEGMENTS_COUNT_LIMIT_def)
        then show ?thesis using c by (simp add: run [OF l4] bindp_def [of "foldp _ _ _"])
      next
        case True
        then have eq: "na_read_segment_table True sl options sl = ?rest (?sum * 8) (drop (4 + ?c * 4) sl)"
          using c lengths [OF c True] by (simp add: run [OF l4] bindp_def [of "foldp _ _ _"])
        show ?thesis
        proof (cases "table_size sl \<le> length sl")
          case True
          show ?thesis unfolding eq rest [OF c True]
            using that l4 c by (auto simp: acceptable_def split: option.split)
        next
          case False
          then show ?thesis unfolding eq by (intro short) (use True in auto)
        qed
      qed
    qed
  qed
qed

section \<open>The allocating parser on a slice\<close>

lemma read_exact_slice:
  "n \<le> length sl \<Longrightarrow> read_exact slice_read n sl = (Ok (take n sl), drop n sl)"
  "length sl < n \<Longrightarrow> \<exists>t. read_exact slice_read n sl = (Err FailedToFillTheWholeBuffer, t)"
  using slice_stream.read_exact_full [of n sl] slice_stream.read_exact_short [of sl n] by auto

lemma u32_at_take: "i + 4 \<le> n \<Longrightarrow> u32_at i (take n sl) = u32_at i sl"
  by (simp add: u32_at_def take_at_def drop_take)

lemma u32_at_drop: "u32_at i (drop n sl) = u32_at (n + i) sl"
  by (simp add: u32_at_def take_at_def add.commute)

definition table_ok :: "reader_options \<Rightarrow> u8 list \<Rightarrow> bool" where
  "table_ok options sl \<longleftrightarrow> table_count sl < SEGMENTS_COUNT_LIMIT \<and> table_size sl \<le> length sl \<and>
     (case traversal_limit_in_words options of None \<Rightarrow> True
      | Some l \<Rightarrow> sum_list (table_lengths sl) \<le> unat l)"

lemma acceptable_table_ok:
  "acceptable options sl \<longleftrightarrow> table_ok options sl \<and> table_size sl + sum_list (table_lengths sl) * 8 \<le> length sl"
proof -
  have "8 \<le> table_size sl" by (simp add: table_size_def)
  then show ?thesis by (auto simp: acceptable_def table_ok_def)
qed

lemma table_count_wrap:
  "unat (u32_at 0 sl + 1) = (if table_count sl < 2 ^ 32 then table_count sl else 0)"
  using u32_bound [of "u32_at 0 sl"] by (auto simp: table_count_def unat_plus_if')

lemma push_rest:
  assumes c: "table_count sl < SEGMENTS_COUNT_LIMIT" and b: "table_size sl \<le> length sl" and n: "n = table_size sl - 8"
  shows "push_lengths (take n (drop 8 sl)) (table_count sl - 1)
      \<lparr>slb_segment_indices = [(0, unat (u32_at 4 sl))], total_words = unat (u32_at 4 sl)\<rparr> =
    ret \<lparr>slb_segment_indices = segment_ranges 0 (table_lengths sl), total_words = sum_list (table_lengths sl)\<rparr>"
proof -
  let ?ns = "map (\<lambda>k. unat (u32_at (8 + k * 4) sl)) [0..<table_count sl - 1]"
  have "[0..<table_count sl] = 0 # map Suc [0..<table_count sl - 1]"
    using table_count_positive(1) [of sl] by (simp add: map_Suc_upt upt_conv_Cons)
  then have ns: "table_lengths sl = unat (u32_at 4 sl) # ?ns"
    by (simp add: table_lengths_def comp_def add.commute)
  have "sum_list (table_lengths sl) * 8 < 2 ^ 50" using lengths_bound(2) [of sl] c by (simp add: SEGMENTS_COUNT_LIMIT_def)
  moreover have "u32_at (k * 4) (take n (drop 8 sl)) = u32_at (8 + k * 4) sl" if "k < table_count sl - 1" for k
  proof -
    have "k * 4 + 4 \<le> n" using that n table_size_cases [of sl] by auto
    then show ?thesis by (simp add: u32_at_take u32_at_drop)
  qed
  ultimately show ?thesis
    using push_lengths_ok [of ?ns "take n (drop 8 sl)"
        "\<lparr>slb_segment_indices = [(0, unat (u32_at 4 sl))], total_words = unat (u32_at 4 sl)\<rparr>"]
    by (simp add: ns)
qed

lemma read_segment_table_slice:
  "table_ok options sl \<Longrightarrow> read_segment_table slice_read options sl =
     (Ok (Some \<lparr>slb_segment_indices = segment_ranges 0 (table_lengths sl), total_words = sum_list (table_lengths sl)\<rparr>),
      drop (table_size sl) sl)"
  "\<not> table_ok options sl \<Longrightarrow> \<exists>r t. read_segment_table slice_read options sl = (r, t) \<and> (r = Ok None \<or> (\<exists>e. r = Err e))"
proof -
  let ?c = "table_count sl" and ?b1 = "\<lparr>slb_segment_indices = [(0, unat (u32_at 4 sl))], total_words = unat (u32_at 4 sl)\<rparr>"
  let ?b = "\<lparr>slb_segment_indices = segment_ranges 0 (table_lengths sl), total_words = sum_list (table_lengths sl)\<rparr>"
  let ?lens = "if ?c > 1 then
         if ?c < 4 then bindp (read_exact slice_read 8) (\<lambda>buf. push_lengths buf (?c - 1) ?b1)
         else bindp (read_exact slice_read ((?c - ?c mod 2) * 4)) (\<lambda>sizes. push_lengths sizes (?c - 1) ?b1)
       else ret ?b1"
  let ?limit = "\<lambda>b. case traversal_limit_in_words options of
       Some lim \<Rightarrow> if total_words b > unat lim then err (MessageTooLarge (total_words b)) else ret (Some b)
     | None \<Rightarrow> ret (Some b)"
  have push1: "try_push_segment (unat (u32_at 4 sl)) (with_capacity k) = ret ?b1" for k
    using u32_bound [of "u32_at 4 sl"] by (simp add: try_push_segment_def with_capacity_def Let_def)
  have run: "read_segment_table slice_read options sl =
      (if ?c < SEGMENTS_COUNT_LIMIT then bindp ?lens ?limit (drop 8 sl)
       else (Err (InvalidNumberOfSegments (if ?c < 2 ^ 32 then ?c else 0)), drop 8 sl))" if "8 \<le> length sl"
  proof -
    have "slice_read 8 sl = (Ok (take 8 sl), drop 8 sl)" "length (take 8 sl) = 8"
      using that by (simp_all add: slice_read_def Let_def)
    moreover have "u32_at 0 (take 8 sl) = u32_at 0 sl" "u32_at 4 (take 8 sl) = u32_at 4 sl"
      "table_count (take 8 sl) = table_count sl" "sl \<noteq> []"
      using that by (auto simp: u32_at_take table_count_def)
    ultimately show ?thesis
      using table_count_positive(1) [of sl]
      by (cases "?c < SEGMENTS_COUNT_LIMIT"; cases "?c < 2 ^ 32")
        (simp_all add: read_segment_table_def bindp_def [of "slice_read 8"] Let_def table_count_wrap push1
          SEGMENTS_COUNT_LIMIT_def err_def)
  qed
  have lens: "?lens (drop 8 sl) = (Ok ?b, drop (table_size sl) sl)"
    if "?c < SEGMENTS_COUNT_LIMIT" "table_size sl \<le> length sl"
  proof (cases "?c > 1")
    case False
    then have c1: "?c = 1" using table_count_positive(1) [of sl] by simp
    have "table_lengths sl = [unat (u32_at 4 sl)]" by (simp add: table_lengths_def c1)
    then have "?b1 = ?b" by simp
    moreover have "table_size sl = 8" by (simp add: table_size_def c1)
    ultimately show ?thesis using False by (simp only: if_False ret_def)
  next
    case True
    define n where "n = table_size sl - 8"
    have n: "n = (?c - ?c mod 2) * 4" "?c < 4 \<Longrightarrow> n = 8"
    proof -
      have "?c - ?c mod 2 = 2 * (?c div 2)" by (simp add: minus_mod_eq_mult_div)
      then show "n = (?c - ?c mod 2) * 4" by (simp add: n_def table_size_def)
      assume "?c < 4"
      then have "?c = 2 \<or> ?c = 3" using True by auto
      then show "n = 8" by (auto simp: n_def table_size_def)
    qed
    have le: "n \<le> length (drop 8 sl)" and d: "drop n (drop 8 sl) = drop (table_size sl) sl"
      using that by (auto simp: n_def table_size_def add.commute)
    have "?lens = bindp (read_exact slice_read n) (\<lambda>buf. push_lengths buf (?c - 1) ?b1)"
      using True n by (cases "?c < 4") (simp_all only: if_True if_False)
    then show ?thesis
      by (simp only: bindp_def [of "read_exact _ _"] read_exact_slice(1) [OF le] prod.case outcome.case
          push_rest [OF that n_def] d ret_def)
  qed
  show "table_ok options sl \<Longrightarrow> read_segment_table slice_read options sl = (Ok (Some ?b), drop (table_size sl) sl)"
  proof -
    assume ok: "table_ok options sl"
    then have c: "?c < SEGMENTS_COUNT_LIMIT" "table_size sl \<le> length sl" by (simp_all add: table_ok_def)
    then have "8 \<le> length sl" by (simp add: table_size_def)
    then show ?thesis
      unfolding run [OF \<open>8 \<le> length sl\<close>] bindp_Ok [of ?lens, OF lens [OF c]]
      using ok c by (auto simp: table_ok_def ret_def split: option.splits)
  qed
  show "\<exists>r t. read_segment_table slice_read options sl = (r, t) \<and> (r = Ok None \<or> (\<exists>e. r = Err e))"
    if no: "\<not> table_ok options sl"
  proof (cases "8 \<le> length sl")
    case False
    then show ?thesis
    proof (cases "sl = []")
      case True
      then show ?thesis by (simp add: read_segment_table_def slice_read_def bindp_def ret_def)
    next
      case ne: False
      obtain t where "read_exact slice_read (8 - length sl) [] = (Err FailedToFillTheWholeBuffer, t)"
        using read_exact_slice(2) [of "[]" "8 - length sl"] False by auto
      with ne False show ?thesis by (simp add: read_segment_table_def slice_read_def bindp_def)
    qed
  next
    case l8: True
    show ?thesis
    proof (cases "?c < SEGMENTS_COUNT_LIMIT")
      case False
      then show ?thesis by (simp add: run [OF l8])
    next
      case c: True
      show ?thesis
      proof (cases "table_size sl \<le> length sl")
        case True
        with no c have "\<exists>l. traversal_limit_in_words options = Some l \<and> unat l < sum_list (table_lengths sl)"
          by (auto simp: table_ok_def split: option.splits)
        with c show ?thesis
          unfolding run [OF l8] bindp_Ok [of ?lens, OF lens [OF c True]] by (auto simp: err_def)
      next
        case False
        then have gt: "?c > 1" using l8 table_size_cases [of sl] by (cases "?c = 1") (use table_count_positive(1) [of sl] in auto)
        have "?c - ?c mod 2 = 2 * (?c div 2)" by (simp add: minus_mod_eq_mult_div)
        then have n: "length (drop 8 sl) < (?c - ?c mod 2) * 4" using False l8 by (simp add: table_size_def)
        have "?c < 4 \<Longrightarrow> ?c = 2 \<or> ?c = 3" using gt by auto
        then have n8: "?c < 4 \<Longrightarrow> length (drop 8 sl) < 8" using n by auto
        have "\<exists>t. ?lens (drop 8 sl) = (Err FailedToFillTheWholeBuffer, t)"
          using read_exact_slice(2) [OF n] read_exact_slice(2) [OF n8] gt by (auto simp: bindp_def)
        then obtain t where "?lens (drop 8 sl) = (Err FailedToFillTheWholeBuffer, t)" ..
        from bindp_Err [of ?lens, OF this] c show ?thesis unfolding run [OF l8] by (simp only: if_True) blast
      qed
    qed
  qed
qed

section \<open>Segments out of a buffer\<close>

lemma skip_segments:
  assumes "k \<le> table_count buf" and "table_count buf < 512" and "4 + table_count buf * 4 \<le> length buf"
    and "offset < 2 ^ 63"
  shows "foldp (\<lambda>_. skip_segment) [0..<k] offset (drop 4 buf) =
    (Ok (offset + 8 * sum_list (take k (table_lengths buf))), drop (4 + k * 4) buf)"
  using assms(1)
proof (induction k)
  case 0
  then show ?case by (simp add: ret_def)
next
  case (Suc k)
  have "sum_list (take (Suc k) (table_lengths buf)) \<le> length (take (Suc k) (table_lengths buf)) * 2 ^ 32"
    using lengths_bound(1) [of buf] by (intro sum_list_bound) (meson in_set_takeD)
  also have "\<dots> \<le> 512 * 2 ^ 32" using Suc.prems assms(2) by (intro mult_le_mono1) simp
  finally have "8 * sum_list (take (Suc k) (table_lengths buf)) < 2 ^ 63" by simp
  moreover have nth: "table_lengths buf ! k = unat (u32_at (4 + k * 4) buf)"
    using Suc.prems by (simp add: table_lengths_def)
  moreover have "take (Suc k) (table_lengths buf) = take k (table_lengths buf) @ [table_lengths buf ! k]"
    using Suc.prems by (simp add: take_Suc_conv_app_nth)
  ultimately show ?case
    using Suc assms(3,4) u32_bound [of "u32_at (4 + k * 4) buf"]
    by (simp add: foldp_append bindp_def skip_segment_def unwrap_def read_u32_le_def of_outcome_def
        u32_to_segment_length_bytes_def u32_at_def take_at_def ret_def)
qed

text \<open>Where segment \<open>i\<close> lies.\<close>

definition segment_at :: "u8 list \<Rightarrow> nat \<Rightarrow> u8 list" where
  "segment_at buf i = take_at (table_size buf + 8 * sum_list (take i (table_lengths buf))) (8 * table_lengths buf ! i) buf"

lemma sum_list_take_Suc:
  "i < length ns \<Longrightarrow> sum_list (take i ns) + ns ! i \<le> sum_list (ns :: nat list)"
proof -
  assume "i < length ns"
  then have "sum_list ns = sum_list (take i ns) + ns ! i + sum_list (drop (Suc i) ns)"
    by (metis id_take_nth_drop sum_list.append sum_list.Cons add.assoc)
  then show ?thesis by simp
qed

lemma na_get_segment_run:
  assumes c: "table_count buf < SEGMENTS_COUNT_LIMIT" and len: "table_size buf + sum_list (table_lengths buf) * 8 \<le> length buf"
  shows "na_get_segment (from_segment_table_info buf (table_info buf)) i =
    Ok (if unat i < table_count buf then Some (segment_at buf (unat i)) else None)"
proof (cases "table_count buf = 1")
  case True
  then have "table_lengths buf = [unat (u32_at 4 buf)]" "table_size buf = 8"
    by (simp_all add: table_lengths_def table_size_def)
  with True len show ?thesis
    by (auto simp: na_get_segment_def from_segment_table_info_def table_info_def slice_range_def segment_at_def
        Let_def mult.commute)
next
  case False
  let ?c = "table_count buf" and ?i = "unat i"
  have c': "?c < 512" "4 + ?c * 4 \<le> length buf" "4 \<le> length buf" "0 < ?c"
    using c len table_size_cases [of buf] table_count_positive(1) [of buf] by (auto simp: SEGMENTS_COUNT_LIMIT_def)
  have count: "bindp (unwrap read_u32_le) (\<lambda>v. bindp (unwrap (of_outcome (u32_to_segments_count v))) f) buf =
      f ?c (drop 4 buf)" for f :: "nat \<Rightarrow> (u8 list, u8 list option) prog"
    using c'(3) table_count_positive(2) [of buf]
    by (simp add: unwrap_def read_u32_le_def bindp_def u32_to_segments_count_def table_count_def u32_at_def
        take_at_def of_outcome_def ret_def)
  show ?thesis
  proof (cases "?i < ?c")
    case False
    then show ?thesis using \<open>?c \<noteq> 1\<close>
      by (simp add: na_get_segment_def from_segment_table_info_def table_info_def count Let_def ret_def)
  next
    case True
    let ?a = "table_size buf + 8 * sum_list (take ?i (table_lengths buf))" and ?n = "table_lengths buf ! ?i"
    have off: "calculate_data_offset ?c = Ok (Some (table_size buf))"
      using calculate_data_offset_count [of ?c] c' by (simp add: table_size_def)
    have "table_size buf \<le> 4096" using c'(1) by (simp add: table_size_def)
    then have "table_size buf < 2 ^ 63" by simp
    note skip = skip_segments [OF less_imp_le [OF True] c'(1,2) this]
    have n: "?n = unat (u32_at (4 + ?i * 4) buf)" using True by (simp add: table_lengths_def)
    have "sum_list (take ?i (table_lengths buf)) + ?n \<le> sum_list (table_lengths buf)"
      using sum_list_take_Suc [of ?i "table_lengths buf"] True by simp
    then have le: "?a + ?n * 8 \<le> length buf" using len by simp
    have rd: "read_u32_le (drop (4 + ?i * 4) buf) = (Ok (u32_at (4 + ?i * 4) buf), drop (8 + ?i * 4) buf)"
      using True c'(2) by (simp add: read_u32_le_def u32_at_def take_at_def)
    have len: "u32_to_segment_length_bytes (u32_at (4 + ?i * 4) buf) = Ok (?n * 8)"
      using u32_bound [of "u32_at (4 + ?i * 4) buf"] by (simp add: u32_to_segment_length_bytes_def n)
    let ?rest = "\<lambda>segment_offset. bindp (unwrap read_u32_le) (\<lambda>v.
        bindp (unwrap (of_outcome (u32_to_segment_length_bytes v))) (\<lambda>segment_length.
        bindp (of_outcome (slice_range segment_offset (segment_offset + segment_length) buf)) (\<lambda>seg. ret (Some seg))))"
    have "na_get_segment (from_segment_table_info buf (table_info buf)) i =
        fst (bindp (foldp (\<lambda>_. skip_segment) [0..<?i] (table_size buf)) ?rest (drop 4 buf))"
      using True \<open>?c \<noteq> 1\<close>
      by (simp add: na_get_segment_def from_segment_table_info_def table_info_def count Let_def off)
    also have "\<dots> = fst (?rest ?a (drop (4 + ?i * 4) buf))"
      by (simp only: bindp_def [of "foldp _ _ _"] skip prod.case outcome.case)
    also have "\<dots> = Ok (Some (segment_at buf ?i))"
      using le by (simp add: bindp_def unwrap_def rd len of_outcome_def ret_def slice_range_def segment_at_def mult.commute)
    finally show ?thesis using True by simp
  qed
qed

lemma na_len_run:
  assumes "table_size buf \<le> length buf"
  shows "na_len (from_segment_table_info buf (table_info buf)) = Ok (table_count buf)"
proof -
  have "4 \<le> length buf" using assms by (simp add: table_size_def)
  then show ?thesis using table_count_positive(2) [of buf]
    by (simp add: na_len_def from_segment_table_info_def table_info_def unwrap_def read_u32_le_def bindp_def
        u32_to_segments_count_def table_count_def u32_at_def take_at_def of_outcome_def ret_def)
qed

text \<open>The table is in the front of the buffer.\<close>

lemma table_front:
  assumes "table_size sl \<le> n"
  shows "table_count (take n sl) = table_count sl" "table_lengths (take n sl) = table_lengths sl"
    "table_size (take n sl) = table_size sl" "table_info (take n sl) = table_info sl"
proof -
  have "4 \<le> n" using assms by (simp add: table_size_def)
  then show c: "table_count (take n sl) = table_count sl" by (simp add: table_count_def u32_at_take)
  then show t: "table_size (take n sl) = table_size sl" by (simp add: table_size_def)
  have "4 + k * 4 + 4 \<le> n" if "k < table_count sl" for k
    using that assms table_size_cases [of sl] by auto
  then show l: "table_lengths (take n sl) = table_lengths sl"
    by (auto simp: table_lengths_def c intro!: map_cong arg_cong [of _ _ unat] u32_at_take)
  show "table_info (take n sl) = table_info sl" by (simp add: table_info_def c t l)
qed

lemma take_at_take: "i + n \<le> m \<Longrightarrow> take_at i n (take m xs) = take_at i n xs"
  by (simp add: take_at_def drop_take min_def)

section \<open>Reading from a stream that delivers what is asked for\<close>

lemma u32_at_table:
  assumes "\<forall>n \<in> set ns. n < 2 ^ 32" and "k < length ns"
  shows "unat (u32_at (4 + k * 4) (table_bytes ns @ xs)) = ns ! k"
proof -
  have "u32_at (4 + k * 4) (table_bytes ns @ xs) =
      u32_at (k * 4) (concat (map le32 ns) @ (if even (length ns) then [0, 0, 0, 0] else []) @ xs)"
    using take_at_append_right [of "le32 (length ns - 1)" "k * 4" 4] by (simp add: u32_at_def table_bytes_def)
  then show ?thesis using u32_at_concat [OF assms(2)] assms by simp
qed

lemma table_bytes_table:
  assumes "ns \<noteq> []" and "length ns < 512" and "\<forall>n \<in> set ns. n < 2 ^ 32"
  shows "table_count (table_bytes ns @ xs) = length ns" "table_lengths (table_bytes ns @ xs) = ns"
    "table_size (table_bytes ns @ xs) = length (table_bytes ns)"
proof -
  have "u32_at 0 (table_bytes ns @ xs) = of_nat (length ns - 1)"
    by (simp add: u32_at_def take_at_def table_bytes_def le32_def)
  then show c: "table_count (table_bytes ns @ xs) = length ns"
    using assms(1,2) by (simp add: table_count_def unat_of_nat)
  then show "table_size (table_bytes ns @ xs) = length (table_bytes ns)"
    using assms(1) by (simp add: table_size_def length_table_bytes)
  show "table_lengths (table_bytes ns @ xs) = ns"
    by (rule nth_equalityI) (use c u32_at_table [OF assms(3)] in \<open>auto simp: table_lengths_def\<close>)
qed

lemma take_write_at:
  "take i xs = take i ys \<Longrightarrow> i + n \<le> length xs \<Longrightarrow> i + n \<le> length ys \<Longrightarrow>
   take (i + n) (write_at i (take_at i n ys) xs) = take (i + n) ys"
proof -
  assume a: "take i xs = take i ys" "i + n \<le> length xs" "i + n \<le> length ys"
  then have "length (take i ys @ take n (drop i ys)) = i + n" by simp
  with a(1) have "take (i + n) (write_at i (take_at i n ys) xs) = take i ys @ take n (drop i ys)"
    unfolding write_at_def take_at_def append_assoc [symmetric] by (metis append_eq_conv_conj)
  then show ?thesis by (simp add: take_add)
qed

lemma read_lengths_slice:
  assumes ns: "ns \<noteq> []" "length ns < 512" "\<forall>n \<in> set ns. n < 2 ^ 32"
    and "odd n" and "n \<le> length ns + 1" and "length (table_bytes ns) \<le> length buf"
    and "take ((n + 1) * 4) buf = take ((n + 1) * 4) (table_bytes ns)"
  shows "read_lengths slice_read (length ns) n buf (sum_list (take n ns)) (drop ((n + 1) * 4) (table_bytes ns) @ X) =
    (Ok (table_bytes ns @ drop (length (table_bytes ns)) buf, length (table_bytes ns) div 4 - 1, sum_list ns), X)"
  using assms(4-)
proof (induction "length ns + 1 - n" arbitrary: n buf rule: less_induct)
  case less
  let ?T = "table_bytes ns" and ?c = "length ns"
  have T: "length ?T = (?c div 2 + 1) * 8" by (rule length_table_bytes [OF ns(1)])
  show ?case
  proof (cases "n < ?c")
    case False
    then have n: "(n + 1) * 4 = length ?T" using less.prems(1,2) T by (auto elim!: oddE)
    then have "take (length ?T) buf = ?T" using less.prems(4) by simp
    then have "?T @ drop (length ?T) buf = buf" by (metis append_take_drop_id)
    moreover have "length ?T div 4 - 1 = n" using n by (metis add_diff_cancel_right' nonzero_mult_div_cancel_right zero_neq_numeral)
    moreover have "take n ns = ns" using False by simp
    moreover have "drop ((n + 1) * 4) ?T = []" using n by simp
    ultimately show ?thesis using False by (subst read_lengths.simps) (simp add: ret_def)
  next
    case True
    let ?start = "(n + 1) * 4"
    have "(n + 1) div 2 \<le> ?c div 2" using True by (intro div_le_mono) simp
    then have le: "?start + 8 \<le> length ?T" using less.prems(1) T by (auto elim!: oddE)
    define bs where "bs = take_at ?start 8 ?T"
    have bs: "length bs = 8" using le by (simp add: bs_def)
    have rd: "slice_read 8 (drop ?start ?T @ X) = (Ok bs, drop (?start + 8) ?T @ X)"
      using le by (simp add: slice_read_def Let_def bs_def take_at_def min_def add.commute)
    let ?buf = "write_at ?start bs buf"
    have lb: "?start + length bs \<le> length buf" using le less.prems(3) bs by simp
    have len: "length ?buf = length buf" using lb by simp
    have tk: "take (?start + 8) ?buf = take (?start + 8) ?T"
      unfolding bs_def using less.prems(3,4) le by (intro take_write_at) auto
    have at: "u32_at i ?buf = u32_at i ?T" if "i + 4 \<le> ?start + 8" for i
      using u32_at_take [OF that] tk by metis
    have u0: "unat (u32_at ?start ?buf) = ns ! n"
      using at [of ?start] u32_at_table [OF ns(3) True, of "[]"] by (simp add: add.commute)
    have u1: "unat (u32_at (?start + 4) ?buf) = ns ! Suc n" if "Suc n < ?c"
      using at [of "?start + 4"] u32_at_table [OF ns(3) that, of "[]"] by (simp add: add.commute)
    have sums: "sum_list (take n ns) + ns ! n = sum_list (take (Suc n) ns)" using True by (simp add: take_Suc_conv_app_nth)
    have small: "sum_list (take k ns) < 2 ^ 64" for k
    proof -
      have "sum_list (take k ns) \<le> length (take k ns) * 2 ^ 32" using ns(3) by (intro sum_list_bound) (meson in_set_takeD)
      also have "\<dots> \<le> 512 * 2 ^ 32" using ns(2) by (intro mult_le_mono1) simp
      finally show ?thesis by simp
    qed
    have dr: "drop (length ?T) ?buf = drop (length ?T) buf"
      using le bs lb by (simp add: write_at_def bs_def)
    have IH: "read_lengths slice_read ?c (n + 2) ?buf (sum_list (take (n + 2) ns)) (drop ((n + 2 + 1) * 4) ?T @ X) =
      (Ok (?T @ drop (length ?T) ?buf, length ?T div 4 - 1, sum_list ns), X)"
      by (rule less.hyps) (use True less.prems len tk in \<open>auto simp: add.commute\<close>)
    have st: "(n + 2 + 1) * 4 = ?start + 8" by simp
    show ?thesis
    proof (cases "n + 1 < ?c")
      case two: True
      have "sum_list (take (Suc n) ns) + ns ! Suc n = sum_list (take (n + 2) ns)"
        using two by (simp add: take_Suc_conv_app_nth)
      with u1 [OF two [simplified]] have s2: "sum_list (take (Suc n) ns) + unat (u32_at (?start + 4) ?buf) = sum_list (take (n + 2) ns)" by simp
      show ?thesis
        using True two lb bs IH small [of "Suc n"] small [of "n + 2"] less.prems(3) le
        by (subst read_lengths.simps)
          (simp only: if_True if_False Let_def bindp_Ok [of "slice_read 8", OF rd] u0 sums s2 st dr not_less if_not_P not_le; simp)
    next
      case one: False
      then have "take (n + 2) ns = take (Suc n) ns" using True by simp
      then show ?thesis
        using True one lb bs IH small [of "Suc n"] less.prems(3) le
        by (subst read_lengths.simps)
          (simp only: if_True if_False Let_def bindp_Ok [of "slice_read 8", OF rd] u0 sums st dr not_less if_not_P not_le; simp)
    qed
  qed
qed

section \<open>Properties\<close>

lemma no_alloc_agrees_aligned:
  "case read_message_from_flat_slice options sl of
     (Ok s, rest) \<Rightarrow> \<exists>t. from_slice True options sl = (Ok t, rest) \<and> na_len t = buffer_len s \<and>
       na_len t = Ok (length (bs_segment_indices s)) \<and>
       (\<forall>i. na_get_segment t i = buffer_get_segment s i \<and> (\<exists>r. na_get_segment t i = Ok r))
   | (r, rest) \<Rightarrow> rest = sl \<and> (\<exists>e. r = Err e) \<and> (\<exists>e. from_slice True options sl = (Err e, sl))"
proof (cases "acceptable options sl")
  case True
  let ?ns = "table_lengths sl" and ?base = "table_size sl"
  let ?m = "?base + sum_list ?ns * 8"
  have ok: "table_ok options sl" "?m \<le> length sl" "table_count sl < SEGMENTS_COUNT_LIMIT"
    using True by (auto simp: acceptable_table_ok table_ok_def)
  let ?s = "\<lparr>buffer = sl, segment_table_bytes_len = ?base, bs_segment_indices = segment_ranges 0 ?ns\<rparr>"
  let ?t = "from_segment_table_info (take ?m sl) (table_info sl)"
  have "?base mod 8 = 0" by (simp add: table_size_def)
  then have flat: "read_message_from_flat_slice options sl = (Ok ?s, drop ?m sl)"
    using read_segment_table_slice(1) [OF ok(1)] ok(2)
    by (simp add: read_message_from_flat_slice_def into_slice_segments_def run_simps add.commute)
  have slice: "from_slice True options sl = (Ok ?t, drop ?m sl)"
    using na_read_segment_table_run(1) [OF True] ok(2)
    by (simp add: from_slice_def table_info_def Let_def)
  have rok: "ranges_ok (bs_segment_indices ?s) (segment_table_bytes_len ?s) (buffer ?s)"
    using segment_ranges_ok [of ?ns ?base sl] ok(2,3) by (simp add: SEGMENTS_COUNT_LIMIT_def)
  note front = table_front [of sl ?m, OF le_add1]
  have t: "?t = from_segment_table_info (take ?m sl) (table_info (take ?m sl))" by (simp only: front)
  have lent: "na_len ?t = Ok (table_count sl)"
    unfolding t by (subst na_len_run) (use ok(2) in \<open>simp_all add: front\<close>)
  have get: "na_get_segment ?t i = Ok (if unat i < table_count sl then Some (segment_at (take ?m sl) (unat i)) else None)" for i
    unfolding t by (subst na_get_segment_run) (use ok in \<open>simp_all add: front\<close>)
  have "segment_at (take ?m sl) k = cut_at (segment_ranges 0 ?ns) ?base sl ! k" if "k < table_count sl" for k
  proof -
    have "sum_list (take k ?ns) + ?ns ! k \<le> sum_list ?ns" using sum_list_take_Suc [of k ?ns] that by simp
    then have "?base + 8 * sum_list (take k ?ns) + 8 * ?ns ! k \<le> ?m" by simp
    then show ?thesis using that
      by (simp add: segment_at_def front take_at_take cut_at_def segment_ranges_nth take_Suc_conv_app_nth
          mult.commute diff_mult_distrib)
  qed
  then have "na_get_segment ?t i = buffer_get_segment ?s i" for i
    using buffer_segs.get [OF rok, of i] get [of i] by (simp add: cut_at_def)
  moreover have "\<exists>r. na_get_segment ?t i = Ok r" for i using get [of i] by blast
  moreover have "na_len ?t = buffer_len ?s" "na_len ?t = Ok (length (bs_segment_indices ?s))"
    using lent by (simp_all add: buffer_len_def)
  ultimately show ?thesis unfolding flat slice prod.case outcome.case by blast
next
  case False
  obtain e t where na: "na_read_segment_table True sl options sl = (Err e, t)"
    using na_read_segment_table_run(2) [OF False] by blast
  then have slice: "from_slice True options sl = (Err e, sl)" by (simp add: from_slice_def)
  show ?thesis
  proof (cases "table_ok options sl")
    case True
    then have short: "length sl < table_size sl + sum_list (table_lengths sl) * 8" "table_size sl \<le> length sl"
      using False by (auto simp: acceptable_table_ok table_ok_def)
    have "table_size sl mod 8 = 0" by (simp add: table_size_def)
    moreover from short have "sum_list (table_lengths sl) > (length sl - table_size sl) div 8" by linarith
    ultimately show ?thesis
      using read_segment_table_slice(1) [OF True] short slice
      by (simp add: read_message_from_flat_slice_def Let_def)
  next
    case False
    then obtain r t where "read_segment_table slice_read options sl = (r, t)" "r = Ok None \<or> (\<exists>e. r = Err e)"
      using read_segment_table_slice(2) by blast
    then show ?thesis using slice by (auto simp: read_message_from_flat_slice_def)
  qed
qed

text \<open>
  C31: On any slice that is aligned to words (or, with the feature \<^verbatim>\<open>unaligned\<close>, on any slice), the
  parser that does not allocate and the one that does accept the same messages, leave the same rest
  of the slice, report the same number of segments and hand out the same segments; none of the
  \<open>unwrap\<close>s of \<open>get_segment\<close> and \<open>len\<close> panics on an accepted message. When one rejects a slice the
  other rejects it too. On a slice that is not aligned the parser that does not allocate always gives
  the error of the alignment and leaves the slice, where the other one does not look at the address.
\<close>

theorem no_alloc_agrees:
  "(case read_message_from_flat_slice options sl of
     (Ok s, rest) \<Rightarrow> \<exists>t. from_slice True options sl = (Ok t, rest) \<and> na_len t = buffer_len s \<and>
       na_len t = Ok (length (bs_segment_indices s)) \<and>
       (\<forall>i. na_get_segment t i = buffer_get_segment s i \<and> (\<exists>r. na_get_segment t i = Ok r))
   | (r, rest) \<Rightarrow> rest = sl \<and> (\<exists>e. r = Err e) \<and> (\<exists>e. from_slice True options sl = (Err e, sl))) \<and>
   from_slice False options sl = (Err MessageNotAlignedBy8BytesBoundary, sl)"
  using no_alloc_agrees_aligned [of options sl]
  by (simp add: from_slice_def na_read_segment_table_def verify_alignment_def seqp_def bindp_def err_def)

text \<open>
  Reading without allocation from a stream that delivers what is asked for: a message that
  the options admit and the buffer can hold is read into the buffer, its segments are those that
  were written, and the stream is left at what follows.
\<close>

theorem no_alloc_stream_round_trip:
  assumes "sendable options segs"
    and "length (message_bytes segs) \<le> length buf"
  shows "\<exists>t. try_read_message_no_alloc slice_read True buf options (message_bytes segs @ rest) = (Ok (Some t), rest) \<and>
    na_len t = Ok (length segs) \<and>
    (\<forall>i. na_get_segment t i = Ok (if unat i < length segs then Some (segs ! unat i) else None))"
proof -
  let ?ns = "map (\<lambda>s. length s div 8) segs"
  note ns = sendable_lengths [OF assms(1)]
  define T where "T = table_bytes ?ns"
  define body where "body = concat segs"
  have m: "message_bytes segs = T @ body" by (simp add: message_bytes_def T_def body_def)
  have T: "length T = (length segs div 2 + 1) * 8" using ns(1) by (simp add: T_def length_table_bytes)
  note tab = table_bytes_table [OF ns(1-3), folded T_def]
  let ?first = "take 8 T" and ?buf = "write_at 0 (take 8 T) buf"
  have rd: "slice_read 8 (message_bytes segs @ rest) = (Ok ?first, drop 8 T @ body @ rest)" "length ?first = 8"
    using T by (simp_all add: slice_read_def m Let_def min_def)
  have blen: "length T \<le> length buf" "length ?buf = length buf" "length T + length body \<le> length buf"
    using assms(2) T rd(2) by (simp_all add: m)
  have t8: "take 8 ?buf = take 8 T" using rd(2) by (simp add: write_at_def)
  have u0: "unat (u32_at 0 ?buf + 1) = length ?ns"
    using table_count_wrap [of ?buf] tab(1) [of "[]"] t8 ns(2) u32_at_take [of 0 8 ?buf] u32_at_take [of 0 8 T]
    by (simp add: table_count_def)
  have u4: "unat (u32_at 4 ?buf) = sum_list (take 1 ?ns)"
    using u32_at_table [OF ns(3), of 0 "[]", folded T_def] ns(1) t8 u32_at_take [of 4 8 ?buf] u32_at_take [of 4 8 T]
    by (cases segs) simp_all
  let ?buf2 = "T @ drop (length T) ?buf"
  have lens: "read_lengths slice_read (length ?ns) 1 ?buf (sum_list (take 1 ?ns)) (drop 8 T @ body @ rest) =
      (Ok (?buf2, length T div 4 - 1, sum_list ?ns), body @ rest)"
    using read_lengths_slice [OF ns(1-3), of 1 ?buf "body @ rest", folded T_def] blen t8 ns(1)
    by (simp add: Suc_le_eq)
  have lb: "length body = sum_list ?ns * 8" using ns(6) by (simp add: body_def)
  have start: "(length T div 4 - 1 + 1) * 4 = length T" using T by simp
  have ex: "read_exact slice_read (sum_list ?ns * 8) (body @ rest) = (Ok body, rest)"
    using read_exact_slice(1) [of "length body" "body @ rest"] by (simp add: lb)
  let ?buf3 = "T @ body @ drop (length T + length body) ?buf"
  have w: "write_at (length T) body ?buf2 = ?buf3"
    by (simp add: write_at_def add.commute)
  let ?t = "from_segment_table_info ?buf3 (table_info ?buf3)"
  have c: "table_count ?buf3 = length segs" "table_lengths ?buf3 = ?ns" "table_size ?buf3 = length T"
    using tab [of "body @ drop (length T + length body) ?buf"] by simp_all
  have run: "try_read_message_no_alloc slice_read True buf options (message_bytes segs @ rest) = (Ok (Some ?t), rest)"
  proof -
    have "\<not> length buf < 8" using blen T by simp
    moreover have "\<not> length ?ns \<ge> SEGMENTS_COUNT_LIMIT" "length ?ns \<noteq> 0" using ns(1,2) by (simp_all add: SEGMENTS_COUNT_LIMIT_def)
    moreover have "\<not> length ?buf2 < length T + sum_list ?ns * 8" using blen lb by simp
    moreover have "case_option (ret ()) (\<lambda>lim. if sum_list ?ns > unat lim then err (MessageTooLarge (sum_list ?ns)) else ret ())
        (traversal_limit_in_words options) = (ret () :: (u8 list, unit) prog)"
      using ns(5) by (cases "traversal_limit_in_words options") (simp_all add: not_less [symmetric])
    moreover have "length ?first \<noteq> 0" "\<not> length ?first < 8" using rd(2) by simp_all
    ultimately show ?thesis
      by (simp only: try_read_message_no_alloc_def Let_def bindp_Ok [of "slice_read 8", OF rd(1)] u0 u4 not_True_eq_False
          if_False simp_thms ret_bindp, subst bindp_Ok [of "read_lengths slice_read (length ?ns) 1 ?buf (sum_list (take 1 ?ns))", OF lens],
          simp only: prod.case start ret_seqp if_False bindp_Ok [of "read_exact _ _", OF ex] w)
        (simp add: ret_def table_info_def c)
  qed
  have "length ?buf3 = length buf" using blen by simp
  then have len: "na_len ?t = Ok (length segs)" using na_len_run [of ?buf3] blen c by simp
  have "na_get_segment ?t i = Ok (if unat i < length segs then Some (segs ! unat i) else None)" for i
  proof -
    have "na_get_segment ?t i = Ok (if unat i < length segs then Some (segment_at ?buf3 (unat i)) else None)"
      using na_get_segment_run [of ?buf3 i] c ns(2) lb by (simp add: SEGMENTS_COUNT_LIMIT_def)
    moreover have "segment_at ?buf3 k = segs ! k" if k: "k < length segs" for k
    proof -
      have al: "\<forall>s \<in> set segs. length s mod 8 = 0" using assms(1) by (simp add: sendable_def)
      have "cut_at (segment_ranges 0 ?ns) (length T) ?buf3 ! k = segs ! k"
        using cut_at_segment_ranges [of segs T "length T" "[]" "drop (length T + length body) ?buf"] al
        by (simp add: body_def)
      then show ?thesis using k c
        by (simp add: segment_at_def cut_at_def segment_ranges_nth take_Suc_conv_app_nth mult.commute diff_mult_distrib)
    qed
    ultimately show ?thesis by simp
  qed
  with run len show ?thesis by blast
qed

theorem no_alloc_stream_round_trip_witness:
  "\<exists>t. try_read_message_no_alloc slice_read True (replicate 24 7) DEFAULT_READER_OPTIONS
        (message_bytes [[1, 2, 3, 4, 5, 6, 7, 8]] @ [99]) = (Ok (Some t), [99]) \<and>
    na_len t = Ok 1 \<and>
    (\<forall>i. na_get_segment t i = Ok (if unat i < 1 then Some ([[1, 2, 3, 4, 5, 6, 7, 8]] ! unat i) else None))"
proof -
  have "length (message_bytes [[1, 2, 3, 4, 5, 6, 7, 8]]) \<le> length (replicate 24 7)"
    by (simp add: message_bytes_def length_table_bytes)
  from no_alloc_stream_round_trip [OF sample_sendable this, of "[99]"] show ?thesis by simp
qed

text \<open>
  C34: The loop that reads the table without allocation ignores how many bytes a \<open>read\<close>
  returned. A message whose stream is cut inside the table, which \<open>try_read_message\<close> reads as it
  was written, comes out with the bytes of a segment shifted.
\<close>

theorem no_alloc_misreads_short_reads:
  "concat [[2, 0, 0, 0, 0, 0, 0, 0], [1, 0, 0, 0], [0, 0, 0, 0, 1, 2, 3, 4, 5, 6, 7, 8]] =
     message_bytes [[], [1, 2, 3, 4, 5, 6, 7, 8], []] \<and>
   (\<exists>s pieces. read_message chunk_read DEFAULT_READER_OPTIONS
       [[2, 0, 0, 0, 0, 0, 0, 0], [1, 0, 0, 0], [0, 0, 0, 0, 1, 2, 3, 4, 5, 6, 7, 8]] = (Ok s, pieces) \<and>
     owned_get_segment s 1 = Ok (Some [1, 2, 3, 4, 5, 6, 7, 8])) \<and>
   (\<exists>t. try_read_message_no_alloc chunk_read True (replicate 32 0) DEFAULT_READER_OPTIONS
       [[2, 0, 0, 0, 0, 0, 0, 0], [1, 0, 0, 0], [0, 0, 0, 0, 1, 2, 3, 4, 5, 6, 7, 8]] =
       (Ok (Some t), [[5, 6, 7, 8]]) \<and>
     na_get_segment t 1 = Ok (Some [0, 0, 0, 0, 1, 2, 3, 4]))"
proof -
  let ?pieces = "[[2, 0, 0, 0, 0, 0, 0, 0], [1, 0, 0, 0], [0, 0, 0, 0, 1, 2, 3, 4, 5, 6, 7, 8]] :: u8 list list"
  let ?segs = "[[], [1, 2, 3, 4, 5, 6, 7, 8], []] :: u8 list list"
  have bytes: "concat ?pieces = message_bytes ?segs"
    by (simp add: message_bytes_def table_bytes_def le32_def to_le_bytes_4)
  have send: "sendable DEFAULT_READER_OPTIONS ?segs"
    by (simp add: sendable_def SEGMENTS_COUNT_LIMIT_def DEFAULT_READER_OPTIONS_def)
  note ns = sendable_lengths [OF send]
  have stream: "concat ?pieces = table_bytes (map (\<lambda>s. length s div 8) ?segs) @ concat ?segs @ []"
    using bytes by (simp add: message_bytes_def)
  obtain pieces where "read_message chunk_read DEFAULT_READER_OPTIONS ?pieces =
      (Ok \<lparr>os_segment_indices = segment_ranges 0 (map (\<lambda>s. length s div 8) ?segs), owned_space = concat ?segs\<rparr>, pieces)"
    using chunk_stream.read_message_ok [OF ns(1-5) stream ns(6)] by blast
  moreover have "owned_get_segment \<lparr>os_segment_indices = segment_ranges 0 (map (\<lambda>s. length s div 8) ?segs), owned_space = concat ?segs\<rparr> 1 =
      Ok (Some [1, 2, 3, 4, 5, 6, 7, 8])"
    by (simp add: owned_get_segment_def slice_range_def take_at_def)
  moreover
  let ?buf = "[2, 0, 0, 0, 0, 0, 0, 0, 1, 0, 0, 0, 0, 0, 0, 0] :: u8 list"
  let ?t = "\<lparr>na_buffer = ?buf @ [0, 0, 0, 0, 1, 2, 3, 4, 0, 0, 0, 0, 0, 0, 0, 0], na_segment_type = MultipleSegments\<rparr>"
  let ?zero = "[0, 0, 0, 0, 0, 0, 0, 0] :: u8 list"
  have buf: "replicate 32 (0 :: u8) = ?zero @ ?zero @ ?zero @ ?zero"
    by (simp add: numeral_eq_Suc)
  have at: "u32_at 0 (2 # xs) = from_le_bytes (take 4 (2 # xs))" for xs by (simp add: u32_at_def take_at_def)
  have lens: "read_lengths chunk_read 3 1 ([2, 0, 0, 0, 0, 0, 0, 0] @ ?zero @ ?zero @ ?zero) 0 (tl ?pieces) =
      (Ok (?buf @ ?zero @ ?zero, 3, 1), [[0, 0, 0, 0, 1, 2, 3, 4, 5, 6, 7, 8]])"
    by (simp add: read_lengths.simps [of _ _ "Suc 0"] read_lengths.simps [of _ _ "Suc (Suc (Suc 0))"] bindp_def ret_def Let_def
        u32_at_def take_at_def write_at_def)
  have body: "read_exact chunk_read 8 [[0, 0, 0, 0, 1, 2, 3, 4, 5, 6, 7, 8]] =
      (Ok [0, 0, 0, 0, 1, 2, 3, 4], [[5, 6, 7, 8]])"
    by (simp add: read_exact.simps [of _ 8] read_exact.simps [of _ 0] bindp_def ret_def)
  have "try_read_message_no_alloc chunk_read True (replicate 32 0) DEFAULT_READER_OPTIONS ?pieces =
      (Ok (Some ?t), [[5, 6, 7, 8]])"
    unfolding buf try_read_message_no_alloc_def
    using lens body
    by (simp add: bindp_def [of "chunk_read _"] bindp_def [of "read_lengths _ _ _ _ _"] bindp_def [of "read_exact _ _"]
        Let_def u32_at_def take_at_def write_at_def SEGMENTS_COUNT_LIMIT_def DEFAULT_READER_OPTIONS_def
        from_segment_table_info_def ret_def)
  moreover have "na_get_segment ?t 1 = Ok (Some [0, 0, 0, 0, 1, 2, 3, 4])"
    by (simp add: na_get_segment_def run_simps unwrap_def read_u32_le_def u32_to_segments_count_def
       calculate_data_offset_count skip_segment_def u32_to_segment_length_bytes_def slice_range_def take_at_def)
  ultimately show ?thesis using bytes by blast
qed

end
