(* ===== verification/Layout_Read.thy ===== *)
theory Layout_Read
  imports Far_Pointers
begin

unbundle bit_operations_syntax

text \<open>
  The reading half of \<^verbatim>\<open>capnp/src/private/layout.rs\<close>: \<open>read_struct_pointer\<close>,
  \<open>read_list_pointer\<close>, \<open>read_text_pointer\<close>, \<open>read_data_pointer\<close>, \<open>read_capability_pointer\<close>,
  the capability tables, and the methods of \<open>PointerReader\<close>, \<open>StructReader\<close> and
  \<open>ListReader\<close> with the primitive elements of a list.

  A reader is well formed when the sections it describes lie in a segment of an arena that
  checks its bounds. Shown: every way of obtaining a reader from a message gives a well-formed
  one, and every accessor of a well-formed reader stays in its segment, whatever bytes the
  message holds.
\<close>

section \<open>Capability tables\<close>

text \<open>
  A capability table is named by its index in \<open>w_caps\<close> (\<open>None\<close> is the null table), a
  capability by a number; \<open>add_ref\<close> gives another reference to the same capability.
\<close>

type_synonym cap_table = "nat option"

definition extract_cap :: "cap_table \<Rightarrow> nat \<Rightarrow> (world, nat option) prog" where
  "extract_cap ct index w = (case ct of
     None \<Rightarrow> (Ok None, w)
   | Some t \<Rightarrow>
       if t < length (w_caps w)
       then (let hooks = w_caps w ! t in
             if index \<ge> length hooks then (Ok None, w) else (Ok (hooks ! index), w))
       else (UB, w))"

definition inject_cap :: "cap_table \<Rightarrow> nat \<Rightarrow> (world, nat) prog" where
  "inject_cap ct cap w = (case ct of
     None \<Rightarrow> (Panic, w)
   | Some t \<Rightarrow>
       if t < length (w_caps w)
       then (let hooks = w_caps w ! t @ [Some cap] in
             (Ok (length hooks - 1), w\<lparr>w_caps := (w_caps w)[t := hooks]\<rparr>))
       else (UB, w))"

definition drop_cap :: "cap_table \<Rightarrow> nat \<Rightarrow> (world, unit) prog" where
  "drop_cap ct index w = (case ct of
     None \<Rightarrow> (Panic, w)
   | Some t \<Rightarrow>
       if t < length (w_caps w)
       then (let hooks = w_caps w ! t in
             (Ok (), w\<lparr>w_caps := (w_caps w)[t := if index < length hooks then hooks[index := None] else hooks]\<rparr>))
       else (UB, w))"

section \<open>Readers\<close>

record pointer_reader =
  pr_arena :: arena_ref
  pr_cap_table :: cap_table
  pr_pointer :: ptr
  pr_segment_id :: u32
  pr_nesting_limit :: int

record struct_reader =
  sr_arena :: arena_ref
  sr_cap_table :: cap_table
  sr_data :: ptr
  sr_pointers :: ptr
  sr_segment_id :: u32
  sr_data_size :: nat
  sr_pointer_count :: nat
  sr_nesting_limit :: int

record list_reader =
  lr_arena :: arena_ref
  lr_cap_table :: cap_table
  lr_ptr :: ptr
  lr_segment_id :: u32
  lr_element_count :: nat
  lr_step :: nat
  lr_struct_data_size :: nat
  lr_nesting_limit :: int
  lr_struct_pointer_count :: nat
  lr_element_size :: element_size

definition pointer_reader_new_default :: pointer_reader where
  "pointer_reader_new_default = \<lparr>pr_arena = ANull [], pr_cap_table = None, pr_pointer = PNull,
     pr_segment_id = 0, pr_nesting_limit = 0x7fffffff\<rparr>"

definition struct_reader_new_default :: struct_reader where
  "struct_reader_new_default = \<lparr>sr_arena = ANull [], sr_cap_table = None, sr_data = PNull,
     sr_pointers = PNull, sr_segment_id = 0, sr_data_size = 0, sr_pointer_count = 0,
     sr_nesting_limit = 0x7fffffff\<rparr>"

definition list_reader_new_default :: list_reader where
  "list_reader_new_default = \<lparr>lr_arena = ANull [], lr_cap_table = None, lr_ptr = PNull,
     lr_segment_id = 0, lr_element_count = 0, lr_step = 0, lr_struct_data_size = 0,
     lr_nesting_limit = 0x7fffffff, lr_struct_pointer_count = 0, lr_element_size = Void\<rparr>"

section \<open>Reading pointers\<close>

text \<open>
  The default value of a field is a flat message behind a pointer of its own; the static
  words are the memory of the null arena. \<open>source_or_default\<close> is the common start of the
  read functions: \<open>None\<close> means that the empty object is returned.
\<close>

definition source_or_default ::
  "bool \<Rightarrow> arena_ref \<Rightarrow> u32 \<Rightarrow> ptr \<Rightarrow> u8 list option \<Rightarrow> (world, (arena_ref \<times> u32 \<times> ptr) option) prog" where
  "source_or_default check_null ar segment_id reff dflt =
     bindp (deref_wp ar reff) (\<lambda>r.
     if \<not> wp_is_null r then ret (Some (ar, segment_id, reff))
     else case dflt of
       None \<Rightarrow> ret None
     | Some d \<Rightarrow>
         if check_null then
           bindp (deref_wp (ANull d) (PAt 0 0)) (\<lambda>dr.
           if wp_is_null dr then ret None else ret (Some (ANull d, 0, PAt 0 0)))
         else ret (Some (ANull d, 0, PAt 0 0)))"

definition read_struct_pointer ::
  "arena_ref \<Rightarrow> u32 \<Rightarrow> cap_table \<Rightarrow> ptr \<Rightarrow> u8 list option \<Rightarrow> int \<Rightarrow> (world, struct_reader) prog" where
  "read_struct_pointer ar0 segment_id0 cap_table reff0 dflt nesting =
     bindp (source_or_default True ar0 segment_id0 reff0 dflt) (\<lambda>src.
     case src of
       None \<Rightarrow> ret struct_reader_new_default
     | Some (ar, segment_id, reff) \<Rightarrow>
         if nesting \<le> 0 then err MessageIsTooDeeplyNestedOrContainsCycles
         else
         bindp (follow_fars ar reff segment_id) (\<lambda>(p, tag, segment_id).
         bindp (deref_wp ar tag) (\<lambda>r.
         if kind r \<noteq> KStruct
         then err MessageContainsNonStructPointerWhereStructPointerWasExpected
         else
         seqp (bounds_check ar segment_id p (struct_word_size r) KStruct)
         (ret \<lparr>sr_arena = ar, sr_cap_table = cap_table, sr_data = p,
               sr_pointers = ptr_add p (int (unat (struct_data_size r)) * int BYTES_PER_WORD),
               sr_segment_id = segment_id,
               sr_data_size = unat (struct_data_size r) * BITS_PER_WORD,
               sr_pointer_count = unat (struct_ptr_count r),
               sr_nesting_limit = nesting - 1\<rparr>))))"

definition read_capability_pointer :: "arena_ref \<Rightarrow> u32 \<Rightarrow> cap_table \<Rightarrow> ptr \<Rightarrow> int \<Rightarrow> (world, nat) prog" where
  "read_capability_pointer ar segment_id cap_table reff nesting =
     bindp (deref_wp ar reff) (\<lambda>r.
     if wp_is_null r then err MessageContainsNullCapabilityPointer
     else if \<not> is_capability r
     then err MessageContainsNonCapabilityPointerWhereCapabilityPointerWasExpected
     else bindp (extract_cap cap_table (unat (cap_index r))) (\<lambda>hook. case hook of
         Some client_hook \<Rightarrow> ret client_hook
       | None \<Rightarrow> err MessageContainsInvalidCapabilityPointer))"

text \<open>The test of an inline composite list against the element size that the caller expects.\<close>

definition composite_matches :: "element_size option \<Rightarrow> nat \<Rightarrow> nat \<Rightarrow> error_kind option" where
  "composite_matches expected data_size ptr_count = (case expected of
     None \<Rightarrow> None
   | Some Void \<Rightarrow> None
   | Some InlineComposite \<Rightarrow> None
   | Some Bit \<Rightarrow> Some FoundStructListWhereBitListWasExpected
   | Some Pointer \<Rightarrow>
       if ptr_count = 0 then Some ExpectedAPointerListButGotAListOfDataOnlyStructs else None
   | Some _ \<Rightarrow>
       if data_size = 0 then Some ExpectedAPrimitiveListButGotAListOfPointerOnlyStructs else None)"

text \<open>The test of a primitive or pointer list.\<close>

definition primitive_matches :: "element_size option \<Rightarrow> element_size \<Rightarrow> nat \<Rightarrow> nat \<Rightarrow> error_kind option" where
  "primitive_matches expected es data_size pointer_count = (case expected of
     None \<Rightarrow> None
   | Some e \<Rightarrow>
       if es = Bit \<and> e \<noteq> Bit then Some FoundBitListWhereStructListWasExpected
       else if data_bits_per_element e > data_size \<or> pointers_per_element e > pointer_count
       then Some MessageContainsListWithIncompatibleElementType
       else None)"

definition fail_if :: "error_kind option \<Rightarrow> ('s, unit) prog" where
  "fail_if r = (case r of Some e \<Rightarrow> err e | None \<Rightarrow> ret ())"

definition read_list_pointer ::
  "arena_ref \<Rightarrow> u32 \<Rightarrow> cap_table \<Rightarrow> ptr \<Rightarrow> u8 list option \<Rightarrow> element_size option \<Rightarrow> int \<Rightarrow>
   (world, list_reader) prog" where
  "read_list_pointer ar0 segment_id0 cap_table reff0 dflt expected nesting =
     bindp (source_or_default True ar0 segment_id0 reff0 dflt) (\<lambda>src.
     case src of
       None \<Rightarrow> ret list_reader_new_default
     | Some (ar, segment_id, reff) \<Rightarrow>
         if nesting \<le> 0 then err NestingLimitExceeded
         else
         bindp (follow_fars ar reff segment_id) (\<lambda>(p, tagp, segment_id).
         bindp (deref_wp ar tagp) (\<lambda>r.
         if kind r \<noteq> KList then err MessageContainsNonListPointerWhereListPointerWasExpected
         else let element_size = list_element_size r in
         if element_size = InlineComposite then
           let wc = unat (list_inline_composite_word_count r) in
           seqp (bounds_check ar segment_id p (wc + 1) KList)
           (bindp (deref_wp ar p) (\<lambda>tag.
            if kind tag \<noteq> KStruct then err InlineCompositeListsOfNonStructTypeAreNotSupported
            else
            let n = unat (inline_composite_list_element_count tag);
                data_size = unat (struct_data_size tag);
                ptr_count = unat (struct_ptr_count tag);
                words_per_element = struct_word_size tag in
            if n * words_per_element > wc then err InlineCompositeListsElementsOverrunItsWordCount
            else
            seqp (if words_per_element = 0 then amplified_read ar n else ret ())
            (seqp (fail_if (composite_matches expected data_size ptr_count))
            (ret \<lparr>lr_arena = ar, lr_cap_table = cap_table, lr_ptr = ptr_add p (int BYTES_PER_WORD),
                  lr_segment_id = segment_id, lr_element_count = n,
                  lr_step = words_per_element * BITS_PER_WORD,
                  lr_struct_data_size = data_size * BITS_PER_WORD,
                  lr_nesting_limit = nesting - 1,
                  lr_struct_pointer_count = ptr_count, lr_element_size = element_size\<rparr>))))
         else
           let data_size = data_bits_per_element element_size;
               pointer_count = pointers_per_element element_size;
               element_count = unat (list_element_count r);
               step = data_size + pointer_count * BITS_PER_POINTER;
               wc = round_bits_up_to_words (element_count * step) in
           seqp (bounds_check ar segment_id p wc KList)
           (seqp (if element_size = Void then amplified_read ar element_count else ret ())
           (seqp (fail_if (primitive_matches expected element_size data_size pointer_count))
           (ret \<lparr>lr_arena = ar, lr_cap_table = cap_table, lr_ptr = p,
                 lr_segment_id = segment_id, lr_element_count = element_count,
                 lr_step = step, lr_struct_data_size = data_size,
                 lr_nesting_limit = nesting - 1,
                 lr_struct_pointer_count = pointer_count, lr_element_size = element_size\<rparr>))))))"

text \<open>The text without its terminating NUL byte; \<open>from_raw_parts\<close> reads through the pointer.\<close>

definition read_text_pointer ::
  "arena_ref \<Rightarrow> u32 \<Rightarrow> ptr \<Rightarrow> u8 list option \<Rightarrow> (world, u8 list) prog" where
  "read_text_pointer ar0 segment_id0 reff0 dflt =
     bindp (source_or_default False ar0 segment_id0 reff0 dflt) (\<lambda>src.
     case src of
       None \<Rightarrow> ret []
     | Some (ar, segment_id, reff) \<Rightarrow>
         bindp (follow_fars ar reff segment_id) (\<lambda>(p, tag, segment_id).
         bindp (deref_wp ar tag) (\<lambda>r.
         let n = unat (list_element_count r) in
         if kind r \<noteq> KList then err MessageContainsNonListPointerWhereTextWasExpected
         else if list_element_size r \<noteq> Byte
         then err MessageContainsListPointerOfNonBytesWhereTextWasExpected
         else
         bindp (round_bytes_up_to_words n) (\<lambda>words.
         seqp (bounds_check ar segment_id p words KList)
         (if n = 0 then err MessageContainsTextThatIsNotNULTerminated
          else
          bindp (deref ar (ptr_add p (int (n - 1))) 1) (\<lambda>last.
          if last \<noteq> [0] then err MessageContainsTextThatIsNotNULTerminated
          else deref ar p (n - 1)))))))"

definition read_data_pointer ::
  "arena_ref \<Rightarrow> u32 \<Rightarrow> ptr \<Rightarrow> u8 list option \<Rightarrow> (world, u8 list) prog" where
  "read_data_pointer ar0 segment_id0 reff0 dflt =
     bindp (source_or_default False ar0 segment_id0 reff0 dflt) (\<lambda>src.
     case src of
       None \<Rightarrow> ret []
     | Some (ar, segment_id, reff) \<Rightarrow>
         bindp (follow_fars ar reff segment_id) (\<lambda>(p, tag, segment_id).
         bindp (deref_wp ar tag) (\<lambda>r.
         let n = unat (list_element_count r) in
         if kind r \<noteq> KList then err MessageContainsNonListPointerWhereDataWasExpected
         else if list_element_size r \<noteq> Byte
         then err MessageContainsListPointerOfNonBytesWhereDataWasExpected
         else
         bindp (round_bytes_up_to_words n) (\<lambda>words.
         seqp (bounds_check ar segment_id p words KList)
         (deref ar p n)))))"

section \<open>PointerReader\<close>

definition pr_get_root :: "arena_ref \<Rightarrow> u32 \<Rightarrow> ptr \<Rightarrow> int \<Rightarrow> (world, pointer_reader) prog" where
  "pr_get_root ar segment_id location nesting =
     seqp (bounds_check ar segment_id location POINTER_SIZE_IN_WORDS KStruct)
     (ret \<lparr>pr_arena = ar, pr_cap_table = None, pr_pointer = location,
           pr_segment_id = segment_id, pr_nesting_limit = nesting\<rparr>)"

definition pr_get_root_from_arena :: "arena_ref \<Rightarrow> (world, pointer_reader) prog" where
  "pr_get_root_from_arena ar =
     bindp (get_segment ar 0) (\<lambda>(segment_start, seg_len).
     seqp (bounds_check ar 0 segment_start POINTER_SIZE_IN_WORDS KStruct)
     (bindp (nesting_limit ar) (\<lambda>nl.
      ret \<lparr>pr_arena = ar, pr_cap_table = None, pr_pointer = segment_start,
           pr_segment_id = 0, pr_nesting_limit = nl\<rparr>)))"

definition pr_imbue :: "cap_table \<Rightarrow> pointer_reader \<Rightarrow> pointer_reader" where
  "pr_imbue ct self = self\<lparr>pr_cap_table := ct\<rparr>"

definition pr_is_null :: "pointer_reader \<Rightarrow> (world, bool) prog" where
  "pr_is_null self =
     (if pr_pointer self = PNull then ret True
      else bindp (deref_wp (pr_arena self) (pr_pointer self)) (\<lambda>r. ret (wp_is_null r)))"

definition pr_total_size :: "pointer_reader \<Rightarrow> (world, message_size) prog" where
  "pr_total_size self =
     (if pr_pointer self = PNull then ret \<lparr>word_count = 0, cap_count = 0\<rparr>
      else total_size (pr_arena self) (pr_segment_id self) (pr_pointer self) (pr_nesting_limit self))"

text \<open>The pointer, or \<open>zero_pointer()\<close> for the null one.\<close>

definition pr_reff :: "pointer_reader \<Rightarrow> ptr" where
  "pr_reff self = (if pr_pointer self = PNull then PZero else pr_pointer self)"

definition pr_get_struct :: "u8 list option \<Rightarrow> pointer_reader \<Rightarrow> (world, struct_reader) prog" where
  "pr_get_struct dflt self = read_struct_pointer (pr_arena self) (pr_segment_id self)
     (pr_cap_table self) (pr_reff self) dflt (pr_nesting_limit self)"

definition pr_get_list :: "element_size \<Rightarrow> u8 list option \<Rightarrow> pointer_reader \<Rightarrow> (world, list_reader) prog" where
  "pr_get_list expected dflt self = read_list_pointer (pr_arena self) (pr_segment_id self)
     (pr_cap_table self) (pr_reff self) dflt (Some expected) (pr_nesting_limit self)"

definition pr_get_list_any_size :: "u8 list option \<Rightarrow> pointer_reader \<Rightarrow> (world, list_reader) prog" where
  "pr_get_list_any_size dflt self = read_list_pointer (pr_arena self) (pr_segment_id self)
     (pr_cap_table self) (pr_reff self) dflt None (pr_nesting_limit self)"

definition pr_get_text :: "u8 list option \<Rightarrow> pointer_reader \<Rightarrow> (world, u8 list) prog" where
  "pr_get_text dflt self = read_text_pointer (pr_arena self) (pr_segment_id self) (pr_reff self) dflt"

definition pr_get_data :: "u8 list option \<Rightarrow> pointer_reader \<Rightarrow> (world, u8 list) prog" where
  "pr_get_data dflt self = read_data_pointer (pr_arena self) (pr_segment_id self) (pr_reff self) dflt"

definition pr_get_capability :: "pointer_reader \<Rightarrow> (world, nat) prog" where
  "pr_get_capability self = read_capability_pointer (pr_arena self) (pr_segment_id self)
     (pr_cap_table self) (pr_reff self) (pr_nesting_limit self)"

definition pr_get_pointer_type :: "pointer_reader \<Rightarrow> (world, pointer_type) prog" where
  "pr_get_pointer_type self =
     bindp (pr_is_null self) (\<lambda>null.
     if null then ret PTNull
     else
     bindp (follow_fars (pr_arena self) (pr_pointer self) (pr_segment_id self)) (\<lambda>(_, reff, _).
     bindp (deref_wp (pr_arena self) reff) (\<lambda>r.
     case kind r of
       KFar \<Rightarrow> err UnexpectedFarPointer
     | KStruct \<Rightarrow> ret PTStruct
     | KList \<Rightarrow> ret PTList
     | KOther \<Rightarrow> if is_capability r then ret PTCapability else err UnknownPointerType)))"

section \<open>StructReader\<close>

definition sr_get_pointer_section_as_list :: "struct_reader \<Rightarrow> list_reader" where
  "sr_get_pointer_section_as_list self =
     \<lparr>lr_arena = sr_arena self, lr_cap_table = sr_cap_table self, lr_ptr = sr_pointers self,
      lr_segment_id = sr_segment_id self, lr_element_count = sr_pointer_count self,
      lr_step = BITS_PER_WORD, lr_struct_data_size = 0, lr_nesting_limit = sr_nesting_limit self,
      lr_struct_pointer_count = 0, lr_element_size = Pointer\<rparr>"

definition sr_get_data_section_as_blob :: "struct_reader \<Rightarrow> (world, u8 list) prog" where
  "sr_get_data_section_as_blob self =
     (if sr_data_size self = 0 then ret []
      else deref (sr_arena self) (sr_data self) (sr_data_size self div BITS_PER_BYTE))"

text \<open>
  \<open>get_data_field\<close> at a type of \<open>n\<close> bytes: the field at \<open>offset\<close>, in units of the type, or zero
  when the struct is too short to hold it. The test multiplies as \<open>usize\<close>; an overflow is a panic.
\<close>

definition sr_get_data_field :: "nat \<Rightarrow> nat \<Rightarrow> struct_reader \<Rightarrow> (world, 'a::len word) prog" where
  "sr_get_data_field n offset self =
     seqp (assertp ((offset + 1) * bits_per_element n < 2 ^ 64))
     (if (offset + 1) * bits_per_element n \<le> sr_data_size self
      then bindp (deref (sr_arena self) (ptr_add (sr_data self) (int (offset * n))) n)
             (\<lambda>bs. ret (from_le_bytes bs))
      else ret 0)"

definition sr_get_bool_field :: "nat \<Rightarrow> struct_reader \<Rightarrow> (world, bool) prog" where
  "sr_get_bool_field offset self =
     (let boffset = offset mod 2 ^ 32 in
      if boffset < sr_data_size self
      then bindp (deref (sr_arena self) (ptr_add (sr_data self) (int (boffset div BITS_PER_BYTE))) 1)
             (\<lambda>bs. ret (hd bs AND push_bit (boffset mod BITS_PER_BYTE) 1 \<noteq> 0))
      else ret False)"

definition sr_get_data_field_mask :: "nat \<Rightarrow> nat \<Rightarrow> 'a::len word \<Rightarrow> struct_reader \<Rightarrow> (world, 'a word) prog" where
  "sr_get_data_field_mask n offset m self =
     bindp (sr_get_data_field n offset self) (\<lambda>v. ret (mask_value v m))"

definition sr_get_bool_field_mask :: "nat \<Rightarrow> bool \<Rightarrow> struct_reader \<Rightarrow> (world, bool) prog" where
  "sr_get_bool_field_mask offset m self = bindp (sr_get_bool_field offset self) (\<lambda>v. ret (v \<noteq> m))"

definition sr_get_pointer_field :: "nat \<Rightarrow> struct_reader \<Rightarrow> pointer_reader" where
  "sr_get_pointer_field ptr_index self =
     (if ptr_index < sr_pointer_count self
      then \<lparr>pr_arena = sr_arena self, pr_cap_table = sr_cap_table self,
            pr_pointer = ptr_add (sr_pointers self) (int ptr_index * 8),
            pr_segment_id = sr_segment_id self, pr_nesting_limit = sr_nesting_limit self\<rparr>
      else pointer_reader_new_default)"

definition sr_is_pointer_field_null :: "nat \<Rightarrow> struct_reader \<Rightarrow> (world, bool) prog" where
  "sr_is_pointer_field_null ptr_index self = pr_is_null (sr_get_pointer_field ptr_index self)"

definition sr_total_size :: "struct_reader \<Rightarrow> (world, message_size) prog" where
  "sr_total_size self =
     foldp (\<lambda>i res. bindp
         (total_size (sr_arena self) (sr_segment_id self) (ptr_add (sr_pointers self) (int i * 8))
           (sr_nesting_limit self))
         (add_assign res))
       [0..<sr_pointer_count self]
       \<lparr>word_count = round_bits_up_to_words (sr_data_size self) + sr_pointer_count self * WORDS_PER_POINTER,
        cap_count = 0\<rparr>"

section \<open>ListReader\<close>

definition lr_into_raw_bytes :: "list_reader \<Rightarrow> (world, u8 list) prog" where
  "lr_into_raw_bytes self =
     (if lr_element_count self = 0 then ret []
      else deref (lr_arena self) (lr_ptr self)
             (round_bits_up_to_bytes (lr_step self * lr_element_count self)))"

definition lr_get_struct_element :: "nat \<Rightarrow> list_reader \<Rightarrow> struct_reader" where
  "lr_get_struct_element index self =
     (let index_byte = (index * lr_step self div BITS_PER_BYTE) mod 2 ^ 32;
          struct_data = ptr_add (lr_ptr self) (int index_byte) in
      \<lparr>sr_arena = lr_arena self, sr_cap_table = lr_cap_table self, sr_data = struct_data,
       sr_pointers = ptr_add struct_data (int (lr_struct_data_size self div BITS_PER_BYTE)),
       sr_segment_id = lr_segment_id self, sr_data_size = lr_struct_data_size self,
       sr_pointer_count = lr_struct_pointer_count self,
       sr_nesting_limit = lr_nesting_limit self - 1\<rparr>)"

definition lr_get_pointer_element :: "nat \<Rightarrow> list_reader \<Rightarrow> pointer_reader" where
  "lr_get_pointer_element index self =
     (let offset = lr_struct_data_size self div BITS_PER_BYTE + index * lr_step self div BITS_PER_BYTE in
      \<lparr>pr_arena = lr_arena self, pr_cap_table = lr_cap_table self,
       pr_pointer = ptr_add (lr_ptr self) (int offset),
       pr_segment_id = lr_segment_id self, pr_nesting_limit = lr_nesting_limit self\<rparr>)"

text \<open>\<open>PrimitiveElement::get\<close> of a type of \<open>n\<close> bytes, and of \<open>bool\<close>.\<close>

definition prim_get :: "nat \<Rightarrow> list_reader \<Rightarrow> nat \<Rightarrow> (world, 'a::len word) prog" where
  "prim_get n list_reader index =
     (let offset = (index * lr_step list_reader div BITS_PER_BYTE) mod 2 ^ 32 in
      bindp (deref (lr_arena list_reader) (ptr_add (lr_ptr list_reader) (int offset)) n)
        (\<lambda>bs. ret (from_le_bytes bs)))"

definition bool_get :: "list_reader \<Rightarrow> nat \<Rightarrow> (world, bool) prog" where
  "bool_get list index =
     (let bindex = index * lr_step list in
      bindp (deref (lr_arena list) (ptr_add (lr_ptr list) (int (bindex div BITS_PER_BYTE))) 1)
        (\<lambda>bs. ret (hd bs AND push_bit (bindex mod BITS_PER_BYTE) 1 \<noteq> 0)))"

definition prim_element_size :: "nat \<Rightarrow> element_size outcome" where
  "prim_element_size size_of_Self =
     (if size_of_Self = 0 then Ok Void else if size_of_Self = 1 then Ok Byte
      else if size_of_Self = 2 then Ok TwoBytes else if size_of_Self = 4 then Ok FourBytes
      else if size_of_Self = 8 then Ok EightBytes else Panic)"

section \<open>Well-formed readers\<close>

definition pointer_reader_ok :: "world \<Rightarrow> pointer_reader \<Rightarrow> bool" where
  "pointer_reader_ok W r \<longleftrightarrow> pr_pointer r = PNull \<or>
     (checked (pr_arena r) \<and> in_seg W (pr_arena r) (pr_segment_id r) (pr_pointer r) 8)"

text \<open>The data section and the pointer section lie in the segment.\<close>

definition struct_reader_ok :: "world \<Rightarrow> struct_reader \<Rightarrow> bool" where
  "struct_reader_ok W r \<longleftrightarrow>
     (sr_data_size r = 0 \<or> in_seg W (sr_arena r) (sr_segment_id r) (sr_data r) ((sr_data_size r + 7) div 8)) \<and>
     (sr_pointer_count r = 0 \<or> checked (sr_arena r) \<and>
        in_seg W (sr_arena r) (sr_segment_id r) (sr_pointers r) (sr_pointer_count r * 8))"

text \<open>
  The elements of a list lie in an interval of words. An element is a whole number of bytes,
  or a bit; one that has pointers is a whole number of words, its data section too.
\<close>

definition list_shape :: "list_reader \<Rightarrow> bool" where
  "list_shape l \<longleftrightarrow>
     lr_struct_data_size l + lr_struct_pointer_count l * 64 \<le> lr_step l \<and>
     (lr_step l mod 8 = 0 \<and> lr_struct_data_size l mod 8 = 0 \<or>
      lr_step l = 1 \<and> lr_struct_data_size l = 1)"

definition list_reader_ok :: "world \<Rightarrow> list_reader \<Rightarrow> bool" where
  "list_reader_ok W l \<longleftrightarrow> lr_element_count l = 0 \<or>
     (checked (lr_arena l) \<and> list_shape l \<and>
      (\<exists>n < 2 ^ 29. in_seg W (lr_arena l) (lr_segment_id l) (lr_ptr l) (n * 8) \<and>
         lr_element_count l * lr_step l \<le> n * 64))"

text \<open>A list whose elements can be read at the element size \<open>e\<close>.\<close>

definition holds_elements :: "element_size \<Rightarrow> list_reader \<Rightarrow> bool" where
  "holds_elements e l \<longleftrightarrow> lr_element_count l = 0 \<or>
     (data_bits_per_element e \<le> lr_struct_data_size l \<and>
      pointers_per_element e * 64 + lr_struct_data_size l \<le> lr_step l)"

lemma default_readers_ok [simp]:
  "pointer_reader_ok W pointer_reader_new_default"
  "struct_reader_ok W struct_reader_new_default"
  "list_reader_ok W list_reader_new_default"
  "holds_elements e list_reader_new_default"
  by (simp_all add: pointer_reader_ok_def pointer_reader_new_default_def struct_reader_ok_def
      struct_reader_new_default_def list_reader_ok_def list_reader_new_default_def holds_elements_def)

section \<open>Reading pointers is safe\<close>

declare ptr_add.simps [simp del]

lemma source_or_default_reads:
  assumes "ref_ok W ar sid reff"
  shows "reads W (source_or_default cn ar sid reff None)
    (\<lambda>src. case src of None \<Rightarrow> True | Some s \<Rightarrow> s = (ar, sid, reff) \<and> in_seg W ar sid reff 8) no_panic"
  unfolding source_or_default_def
  by (rule reads_bindp [OF deref_wp_ref_ok [OF assms]]) (auto intro!: reads_ret)

text \<open>
  The common shape of the four functions: the object is found, its tag read, and the rest of
  the function runs on the tag \<open>r\<close> of an object at an offset of the segment.
\<close>

lemma object_reads:
  assumes ar: "checked ar" and reff: "in_seg W ar sid reff 8"
    and rest: "\<And>p s i r. p = PAt s i \<Longrightarrow> reads W (rest p s r) Q no_panic"
  shows "reads W (bindp (follow_fars ar reff sid) (\<lambda>(p, tag, s). bindp (deref_wp ar tag) (rest p s))) Q no_panic"
proof (rule reads_bindp [OF follow_fars_reads [OF ar reff]], rule reads_prod, rule reads_prod, goal_cases)
  case (1 x p b tag s)
  then obtain i ts where "p = PAt s i" "in_seg W ar ts tag 8" by (auto simp: resolved_def)
  then show ?case by (intro reads_bindp [OF deref_wp_in_seg] rest)
qed

lemma bounds_check_at:
  assumes "checked ar" and "p = PAt s i"
  shows "reads W (bounds_check ar s p n k) (\<lambda>_. in_seg W ar s p (n * 8)) no_panic"
  by (rule bounds_check_reads [OF assms(1), of _ _ i]) (simp add: assms(2))

lemma read_struct_pointer_reads:
  assumes "checked ar" and "ref_ok W ar sid reff"
  shows "reads W (read_struct_pointer ar sid ct reff None nesting)
    (\<lambda>r. struct_reader_ok W r \<and> (sr_pointer_count r = 0 \<or> sr_nesting_limit r = nesting - 1 \<and> 0 < nesting))
    no_panic"
  unfolding read_struct_pointer_def
proof (rule reads_bindp [OF source_or_default_reads [OF assms(2)]], rule reads_option, goal_cases)
  case (1 src s)
  then have s: "s = (ar, sid, reff)" and reff: "in_seg W ar sid reff 8" by auto
  have ok: "in_seg W ar s p (unat (struct_data_size r) * 8)"
    "in_seg W ar s (ptr_add p (uint (struct_data_size r) * 8)) (unat (struct_ptr_count r) * 8)"
    if "in_seg W ar s p (struct_word_size r * 8)" for s p r
    by (rule in_seg_mono [OF that], simp add: struct_word_size_def)
      (rule in_seg_sub [OF that], simp_all add: struct_word_size_def nat_mult_distrib)
  show ?case
    unfolding s prod.case
    by (intro reads_if reads_err object_reads [OF assms(1) reff] reads_seqp [OF bounds_check_at [OF assms(1)]] reads_ret)
      (auto simp: struct_reader_ok_def assms(1) intro: ok in_seg_mono [OF ok(1)])
qed (simp add: struct_reader_new_default_def struct_reader_ok_def reads_ret)

text \<open>The interval that holds the elements of an inline composite list, and of any other list.\<close>

lemma composite_list_ok:
  assumes "checked ar" and "in_seg W ar s p ((wc + 1) * 8)" and "n * (d + c) \<le> wc" and "wc < 2 ^ 29"
  shows "list_reader_ok W \<lparr>lr_arena = ar, lr_cap_table = ct, lr_ptr = ptr_add p 8, lr_segment_id = s,
    lr_element_count = n, lr_step = (d + c) * 64, lr_struct_data_size = d * 64, lr_nesting_limit = nl,
    lr_struct_pointer_count = c, lr_element_size = es\<rparr>"
proof -
  have "in_seg W ar s (ptr_add p 8) (wc * 8)"
    by (rule in_seg_sub [OF assms(2)]) simp_all
  moreover have "n * ((d + c) * 64) \<le> wc * 64"
    using mult_le_mono1 [OF assms(3), of 64] by (simp only: mult.assoc)
  ultimately show ?thesis
    using assms(1,4)
    by (simp add: list_reader_ok_def list_shape_def mod_mult_left_eq mod_mult_right_eq)
      (auto simp: algebra_simps intro!: exI [of _ wc])
qed

lemma round_bits_up_to_words_bound:
  assumes "n \<le> 2 ^ 35"
  shows "n \<le> round_bits_up_to_words n * 64" "n < 2 ^ 35 \<Longrightarrow> round_bits_up_to_words n \<le> 2 ^ 29"
  using assms by (simp_all add: round_bits_up_to_words_def)

lemma primitive_list_ok:
  assumes "checked ar" and "in_seg W ar s p (round_bits_up_to_words (n * step) * 8)"
    and "n < 2 ^ 29" and "step = data_bits_per_element es + pointers_per_element es * 64"
    and "es \<noteq> InlineComposite"
  shows "list_reader_ok W \<lparr>lr_arena = ar, lr_cap_table = ct, lr_ptr = p, lr_segment_id = s,
    lr_element_count = n, lr_step = step, lr_struct_data_size = data_bits_per_element es, lr_nesting_limit = nl,
    lr_struct_pointer_count = pointers_per_element es, lr_element_size = es\<rparr>"
proof -
  have le: "n * step \<le> (2 ^ 29 - 1) * 64"
    using assms(3,4) by (intro mult_le_mono) (cases es; simp)+
  then have "n * step \<le> round_bits_up_to_words (n * step) * 64" "round_bits_up_to_words (n * step) < 2 ^ 29"
    by (simp_all add: round_bits_up_to_words_def)
  moreover have "list_shape \<lparr>lr_arena = ar, lr_cap_table = ct, lr_ptr = p, lr_segment_id = s,
    lr_element_count = n, lr_step = step, lr_struct_data_size = data_bits_per_element es, lr_nesting_limit = nl,
    lr_struct_pointer_count = pointers_per_element es, lr_element_size = es\<rparr>"
    unfolding list_shape_def using assms(4) by (cases es) simp_all
  ultimately show ?thesis
    using assms(1,2) by (auto simp: list_reader_ok_def)
qed

definition expected_elements :: "element_size option \<Rightarrow> list_reader \<Rightarrow> bool" where
  "expected_elements ex l \<longleftrightarrow> (case ex of None \<Rightarrow> True | Some e \<Rightarrow> holds_elements e l)"

lemma fail_if_reads: "reads W (fail_if r) (\<lambda>_. r = None) no_panic"
  by (cases r) (simp_all add: fail_if_def reads_ret reads_err)

lemma composite_matches_elements:
  assumes "composite_matches ex d c = None"
  shows "expected_elements ex \<lparr>lr_arena = ar, lr_cap_table = ct, lr_ptr = p, lr_segment_id = s,
    lr_element_count = n, lr_step = d * 64 + c * 64, lr_struct_data_size = d * 64, lr_nesting_limit = nl,
    lr_struct_pointer_count = c, lr_element_size = es\<rparr>"
proof (cases ex)
  case (Some e)
  then show ?thesis
    using assms by (cases e) (auto simp: expected_elements_def holds_elements_def composite_matches_def split: if_splits)
qed (simp add: expected_elements_def)

lemma primitive_matches_elements:
  assumes "primitive_matches ex es (data_bits_per_element es) (pointers_per_element es) = None"
  shows "expected_elements ex \<lparr>lr_arena = ar, lr_cap_table = ct, lr_ptr = p, lr_segment_id = s,
    lr_element_count = n, lr_step = data_bits_per_element es + pointers_per_element es * 64,
    lr_struct_data_size = data_bits_per_element es, lr_nesting_limit = nl,
    lr_struct_pointer_count = pointers_per_element es, lr_element_size = es\<rparr>"
  using assms
  by (auto simp: expected_elements_def holds_elements_def primitive_matches_def split: option.splits if_splits)

lemma read_list_pointer_reads:
  assumes "checked ar" and "ref_ok W ar sid reff"
  shows "reads W (read_list_pointer ar sid ct reff None ex nesting)
    (\<lambda>l. list_reader_ok W l \<and> expected_elements ex l \<and>
       (lr_element_count l = 0 \<or> lr_nesting_limit l = nesting - 1 \<and> 0 < nesting)) no_panic"
  unfolding read_list_pointer_def
proof (rule reads_bindp [OF source_or_default_reads [OF assms(2)]], rule reads_option, goal_cases)
  case (1 src s)
  then have s: "s = (ar, sid, reff)" and reff: "in_seg W ar sid reff 8" by auto
  have amp: "reads W (seqp (if b then amplified_read ar n else ret ()) m) Q no_panic"
    if "reads W m Q no_panic" for b n and m :: "(world, list_reader) prog" and Q
    by (rule reads_seqp [where P = True]) (auto intro: reads_conseq [OF amplified_read_reads] reads_ret that)
  note bc = reads_seqp [OF bounds_check_at [OF assms(1)]]
  show ?case
    unfolding s prod.case Let_def
  proof (rule reads_if, rule reads_err, simp, rule object_reads [OF assms(1) reff], rule reads_if,
      rule reads_err, simp, rule reads_if, goal_cases)
    case (1 p s i r)
    let ?wc = "unat (list_inline_composite_word_count r)"
    have wc: "?wc < 2 ^ 29"
      using list_element_count_bound by (simp add: list_inline_composite_word_count_def)
    show ?case
    proof (rule bc [OF 1(2)], goal_cases)
      case seg: 1
      then have "in_seg W ar s p 8" by (rule in_seg_mono) simp
      then show ?case
        using 1 wc composite_list_ok [OF assms(1) seg]
        by (intro reads_bindp [OF deref_wp_in_seg] reads_if reads_err amp reads_seqp [OF fail_if_reads] reads_ret)
          (auto simp: struct_word_size_def intro: composite_matches_elements)
    qed
  next
    case (2 p s i r)
    show ?case
      by (rule bc [OF 2(2)], rule amp, rule reads_seqp [OF fail_if_reads], rule reads_ret)
        (use 2 list_element_count_bound in
          \<open>auto intro: primitive_list_ok [OF assms(1)] primitive_matches_elements\<close>)
  qed
qed (simp add: list_reader_new_default_def list_reader_ok_def expected_elements_def
    holds_elements_def reads_ret split: option.split)

lemma round_bytes_reads: "n < 2 ^ 29 \<Longrightarrow> reads W (round_bytes_up_to_words n) (\<lambda>m. n \<le> m * 8) no_panic"
  by (simp add: round_bytes_up_to_words_def reads_ret)

lemma read_text_pointer_reads:
  assumes "checked ar" and "ref_ok W ar sid reff"
  shows "reads W (read_text_pointer ar sid reff None) (\<lambda>bs. length bs < 2 ^ 29) no_panic"
  unfolding read_text_pointer_def
proof (rule reads_bindp [OF source_or_default_reads [OF assms(2)]], rule reads_option, goal_cases)
  case (1 src s)
  then have s: "s = (ar, sid, reff)" and reff: "in_seg W ar sid reff 8" by auto
  show ?case
    unfolding s prod.case Let_def
  proof (rule object_reads [OF assms(1) reff], rule reads_if, rule reads_err, simp, rule reads_if, rule reads_err, simp,
      rule reads_bindp [OF round_bytes_reads [OF list_element_count_bound]],
      rule reads_seqp [OF bounds_check_at [OF assms(1)]], assumption, rule reads_if, rule reads_err, simp, goal_cases)
    case (1 p s i r words)
    let ?n = "unat (list_element_count r)"
    have seg: "in_seg W ar s p ?n" by (rule in_seg_mono) (use 1 in auto)
    have "in_seg W ar s p (?n - 1)" by (rule in_seg_mono [OF seg]) simp
    moreover have "in_seg W ar s (ptr_add p (int (?n - 1))) 1"
      by (rule in_seg_sub [OF seg]) (use 1 in \<open>auto simp only: of_nat_0_le_iff nat_int\<close>)
    ultimately show ?case
      using list_element_count_bound [of r]
      by (intro reads_bindp [OF deref_in_seg] reads_if reads_err reads_conseq [OF deref_in_seg]) auto
  qed
qed (simp add: reads_ret)

lemma read_data_pointer_reads:
  assumes "checked ar" and "ref_ok W ar sid reff"
  shows "reads W (read_data_pointer ar sid reff None) (\<lambda>bs. length bs < 2 ^ 29) no_panic"
  unfolding read_data_pointer_def
proof (rule reads_bindp [OF source_or_default_reads [OF assms(2)]], rule reads_option, goal_cases)
  case (1 src s)
  then have s: "s = (ar, sid, reff)" and reff: "in_seg W ar sid reff 8" by auto
  show ?case
    unfolding s prod.case Let_def
  proof (rule object_reads [OF assms(1) reff], rule reads_if, rule reads_err, simp, rule reads_if, rule reads_err, simp,
      rule reads_bindp [OF round_bytes_reads [OF list_element_count_bound]],
      rule reads_seqp [OF bounds_check_at [OF assms(1)]], assumption, goal_cases)
    case (1 p s i r words)
    have "in_seg W ar s p (unat (list_element_count r))" by (rule in_seg_mono) (use 1 in auto)
    then show ?case
      using list_element_count_bound [of r] by (intro reads_conseq [OF deref_in_seg]) auto
  qed
qed (simp add: reads_ret)

section \<open>Accessors of well-formed readers are safe\<close>

lemma pr_reff_ok: "pointer_reader_ok W r \<Longrightarrow> ref_ok W (pr_arena r) (pr_segment_id r) (pr_reff r)"
  by (auto simp: pointer_reader_ok_def pr_reff_def ref_ok_def)

lemma sr_get_pointer_field_ok:
  assumes "struct_reader_ok W r"
  shows "pointer_reader_ok W (sr_get_pointer_field i r)"
proof (cases "i < sr_pointer_count r")
  case True
  with assms have "in_seg W (sr_arena r) (sr_segment_id r) (ptr_add (sr_pointers r) (int i * 8)) 8" "checked (sr_arena r)"
    by (auto simp: struct_reader_ok_def nat_mult_distrib intro!: in_seg_sub [where n = "sr_pointer_count r * 8"])
  with True show ?thesis by (simp add: sr_get_pointer_field_def pointer_reader_ok_def)
qed (simp add: sr_get_pointer_field_def)

lemma sr_data_in_seg:
  assumes "struct_reader_ok W r" and "0 < n" and "(i + n) * 8 \<le> sr_data_size r + 7"
  shows "in_seg W (sr_arena r) (sr_segment_id r) (ptr_add (sr_data r) (int i)) n"
proof -
  have "sr_data_size r \<noteq> 0" using assms(2,3) by (intro notI) simp
  with assms show ?thesis
    by (auto simp: struct_reader_ok_def intro!: in_seg_sub [where n = "(sr_data_size r + 7) div 8"])
qed

lemma sr_get_data_field_reads:
  assumes "struct_reader_ok W r" and "0 < n" and "(i + 1) * bits_per_element n < 2 ^ 64"
  shows "reads W (sr_get_data_field n i r) (\<lambda>_. True) no_panic"
  unfolding sr_get_data_field_def eqTrueI [OF assms(3)] assertp_simps ret_seqp
proof (rule reads_if)
  assume "(i + 1) * bits_per_element n \<le> sr_data_size r"
  then have "(i * n + n) * 8 \<le> sr_data_size r + 7" by (simp add: bits_per_element_def algebra_simps)
  then show "reads W (bindp (deref (sr_arena r) (ptr_add (sr_data r) (int (i * n))) n) (\<lambda>bs. ret (from_le_bytes bs)))
      (\<lambda>_. True) no_panic"
    by (intro reads_bindp [OF deref_in_seg [OF sr_data_in_seg [OF assms(1,2)]]] reads_ret TrueI)
qed (simp add: reads_ret)

text \<open>An offset at which the product overflows panics, also where the struct is too short; a build without
  overflow checks passes the test and reads outside of the struct.\<close>

lemma data_field_overflow_panics:
  "2 ^ 64 \<le> (offset + 1) * bits_per_element n \<Longrightarrow> sr_get_data_field n offset r w = (Panic, w)"
  by (simp add: sr_get_data_field_def seqp_def panic_def)

lemma sr_get_bool_field_reads:
  assumes "struct_reader_ok W r"
  shows "reads W (sr_get_bool_field i r) (\<lambda>_. True) no_panic"
  unfolding sr_get_bool_field_def Let_def
  by (intro reads_if reads_bindp [OF deref_in_seg [OF sr_data_in_seg [OF assms]]] reads_ret) auto

lemma sr_get_data_section_as_blob_reads:
  assumes "struct_reader_ok W r"
  shows "reads W (sr_get_data_section_as_blob r) (\<lambda>_. True) no_panic"
proof (cases "sr_data_size r = 0")
  case False
  with assms have "in_seg W (sr_arena r) (sr_segment_id r) (sr_data r) (sr_data_size r div 8)"
    by (auto simp: struct_reader_ok_def intro: in_seg_mono)
  with False show ?thesis
    by (simp add: sr_get_data_section_as_blob_def) (rule reads_conseq [OF deref_in_seg], auto)
qed (simp add: sr_get_data_section_as_blob_def reads_ret)

lemma sr_total_size_reads:
  assumes "struct_reader_ok W r"
  shows "reads W (sr_total_size r) (\<lambda>_. True) any_failure"
proof (cases "sr_pointer_count r = 0")
  case False
  with assms show ?thesis
    unfolding sr_total_size_def
    by (intro size_loop_reads [where ar = "sr_arena r" and sid = "sr_segment_id r"] total_size_reads)
      (auto simp: struct_reader_ok_def)
qed (simp add: sr_total_size_def reads_ret)

text \<open>The bytes of element \<open>i\<close> of a list.\<close>

lemma list_element_in_seg:
  assumes ok: "list_reader_ok W l" and i: "i < lr_element_count l"
    and k: "k * 8 + n * 8 \<le> lr_step l + 7" and "lr_step l mod 8 = 0 \<or> lr_step l = 1"
  shows "in_seg W (lr_arena l) (lr_segment_id l) (ptr_add (lr_ptr l) (int (i * lr_step l div 8 + k))) n"
    and "i * lr_step l div 8 < 2 ^ 32"
proof -
  from ok i obtain m where m: "m < 2 ^ 29" "in_seg W (lr_arena l) (lr_segment_id l) (lr_ptr l) (m * 8)"
    "lr_element_count l * lr_step l \<le> m * 64"
    by (auto simp: list_reader_ok_def)
  have "Suc i * lr_step l \<le> lr_element_count l * lr_step l" using i by (intro mult_le_mono1) simp
  with m have le: "i * lr_step l + lr_step l \<le> m * 64" by simp
  have "i * lr_step l div 8 + k + n \<le> m * 8"
    using assms(4)
  proof
    assume "lr_step l mod 8 = 0"
    then obtain s where s: "lr_step l = 8 * s" by (meson dvd_def mod_0_imp_dvd)
    with le have "i * s + s \<le> m * 8" by (simp add: algebra_simps)
    moreover have "k + n \<le> s" using k s by simp
    ultimately show ?thesis using s by simp
  next
    assume "lr_step l = 1"
    with le k show ?thesis by simp
  qed
  then show "in_seg W (lr_arena l) (lr_segment_id l) (ptr_add (lr_ptr l) (int (i * lr_step l div 8 + k))) n"
    by (intro in_seg_sub [OF m(2)]) auto
  show "i * lr_step l div 8 < 2 ^ 32" using le m(1) by simp
qed

lemma list_shape_step: "list_shape l \<Longrightarrow> lr_step l mod 8 = 0 \<or> lr_step l = 1"
  by (auto simp: list_shape_def)

lemma list_reader_ok_shape: "list_reader_ok W l \<Longrightarrow> i < lr_element_count l \<Longrightarrow> checked (lr_arena l) \<and> list_shape l"
  by (auto simp: list_reader_ok_def)

lemma lr_get_struct_element_ok:
  assumes ok: "list_reader_ok W l" and i: "i < lr_element_count l"
  shows "struct_reader_ok W (lr_get_struct_element i l)"
proof -
  let ?d = "lr_struct_data_size l" and ?c = "lr_struct_pointer_count l"
  have ck: "checked (lr_arena l)" and sh: "list_shape l" using list_reader_ok_shape [OF ok i] by auto
  note el = list_element_in_seg [OF ok i _ list_shape_step [OF sh]]
  have byte: "(i * lr_step l div 8) mod 2 ^ 32 = i * lr_step l div 8"
    using el(2) [of 0 0] by simp
  have data: "in_seg W (lr_arena l) (lr_segment_id l) (ptr_add (lr_ptr l) (int (i * lr_step l div 8))) ((?d + 7) div 8)"
    using el(1) [of 0 "(?d + 7) div 8"] sh by (auto simp: list_shape_def)
  have ptrs: "in_seg W (lr_arena l) (lr_segment_id l)
      (ptr_add (ptr_add (lr_ptr l) (int (i * lr_step l div 8))) (int (?d div 8))) (?c * 8)" if "?c \<noteq> 0"
    using el(1) [of "?d div 8" "?c * 8"] sh that by (auto simp: list_shape_def ptr_add_add)
  show ?thesis
    unfolding lr_get_struct_element_def Let_def struct_reader_ok_def
    using ck data ptrs by (simp only: byte BITS_PER_BYTE_def struct_reader.select_convs) blast
qed

lemma lr_get_pointer_element_ok:
  assumes ok: "list_reader_ok W l" and i: "i < lr_element_count l" and "holds_elements Pointer l"
  shows "pointer_reader_ok W (lr_get_pointer_element i l)"
proof -
  have ck: "checked (lr_arena l)" and sh: "list_shape l" using list_reader_ok_shape [OF ok i] by auto
  have "in_seg W (lr_arena l) (lr_segment_id l)
      (ptr_add (lr_ptr l) (int (i * lr_step l div 8 + lr_struct_data_size l div 8))) 8"
    using assms(3) i by (intro list_element_in_seg(1) [OF ok i _ list_shape_step [OF sh]])
      (auto simp: holds_elements_def)
  then show ?thesis
    using ck by (simp add: lr_get_pointer_element_def pointer_reader_ok_def add.commute)
qed

lemma prim_get_reads:
  assumes ok: "list_reader_ok W l" and i: "i < lr_element_count l"
    and e: "prim_element_size n = Ok e" and el: "holds_elements e l"
  shows "reads W (prim_get n l i) (\<lambda>_. True) no_panic"
proof -
  have sh: "list_shape l" using list_reader_ok_shape [OF ok i] by auto
  have "n * 8 \<le> lr_step l + 7"
    using e el i sh by (auto simp: prim_element_size_def holds_elements_def list_shape_def split: if_splits)
  then have "in_seg W (lr_arena l) (lr_segment_id l) (ptr_add (lr_ptr l) (int (i * lr_step l div 8 + 0))) n"
    "i * lr_step l div 8 < 2 ^ 32"
    using list_element_in_seg [OF ok i _ list_shape_step [OF sh], of 0 n] by simp_all
  then show ?thesis
    unfolding prim_get_def Let_def by (intro reads_bindp [OF deref_in_seg] reads_ret) auto
qed

lemma bool_get_reads:
  assumes ok: "list_reader_ok W l" and i: "i < lr_element_count l" and el: "holds_elements Bit l"
  shows "reads W (bool_get l i) (\<lambda>_. True) no_panic"
proof -
  have sh: "list_shape l" using list_reader_ok_shape [OF ok i] by auto
  have "1 * 8 \<le> lr_step l + 7" using el i sh by (auto simp: holds_elements_def)
  then have "in_seg W (lr_arena l) (lr_segment_id l) (ptr_add (lr_ptr l) (int (i * lr_step l div 8 + 0))) 1"
    by (intro list_element_in_seg [OF ok i _ list_shape_step [OF sh]]) simp
  then show ?thesis
    unfolding bool_get_def Let_def by (intro reads_bindp [OF deref_in_seg] reads_ret) auto
qed

end
