(* ===== verification/Reader_Walk.thy ===== *)
theory Reader_Walk
  imports Layout_Read
begin

text \<open>
  Walking through a message from outside: starting from the root pointer, any reader that has
  been obtained can be asked for its contents, in any order and any number of times. The walk
  is a step relation on the world and the readers in hand. Shown: whatever bytes the segments
  hold, every reader in hand is well formed, no request touches memory outside the message,
  none panics, and the message itself is never changed.
\<close>

datatype any_reader =
    RPointer pointer_reader
  | RStruct struct_reader
  | RList element_size list_reader

text \<open>A list is remembered with the element size it was asked for.\<close>

datatype request =
    GetStruct
  | GetList element_size
  | GetText
  | GetData
  | GetPointerType
  | PointerField nat
  | DataField nat nat
  | BoolField nat
  | DataSection
  | StructElement nat
  | PointerElement nat
  | PrimElement nat nat
  | BoolElement nat

text \<open>
  The guards of the typed wrappers: an index is below the length of the list, and the elements
  of a list are taken at the element size it was read with. The type of a field has 1, 2, 4 or 8 bytes,
  and its offset is a \<open>UInt32\<close> of the schema; \<open>get_data_field\<close> itself takes any \<open>usize\<close>, and panics when
  the offset in bits overflows (\<open>data_field_overflow_panics\<close>).
\<close>

fun applicable :: "request \<Rightarrow> any_reader \<Rightarrow> bool" where
  "applicable GetStruct (RPointer _) = True"
| "applicable (GetList _) (RPointer _) = True"
| "applicable GetText (RPointer _) = True"
| "applicable GetData (RPointer _) = True"
| "applicable GetPointerType (RPointer _) = True"
| "applicable (PointerField _) (RStruct _) = True"
| "applicable (DataField n i) (RStruct _) = (n \<in> {1, 2, 4, 8} \<and> i < 2 ^ 32)"
| "applicable (BoolField _) (RStruct _) = True"
| "applicable DataSection (RStruct _) = True"
| "applicable (StructElement i) (RList e l) = (i < lr_element_count l)"
| "applicable (PointerElement i) (RList e l) = (i < lr_element_count l \<and> e = Pointer)"
| "applicable (PrimElement n i) (RList e l) = (i < lr_element_count l \<and> prim_element_size n = Ok e)"
| "applicable (BoolElement i) (RList e l) = (i < lr_element_count l \<and> e = Bit)"
| "applicable _ _ = False"

definition no_reader :: "(world, 'a) prog \<Rightarrow> (world, any_reader list) prog" where
  "no_reader m = bindp m (\<lambda>_. ret [])"

text \<open>The readers that a request gives; a plain value gives none.\<close>

fun visit :: "request \<Rightarrow> any_reader \<Rightarrow> (world, any_reader list) prog" where
  "visit GetStruct (RPointer r) = bindp (pr_get_struct None r) (\<lambda>s. ret [RStruct s])"
| "visit (GetList e) (RPointer r) = bindp (pr_get_list e None r) (\<lambda>l. ret [RList e l])"
| "visit GetText (RPointer r) = no_reader (pr_get_text None r)"
| "visit GetData (RPointer r) = no_reader (pr_get_data None r)"
| "visit GetPointerType (RPointer r) = no_reader (pr_get_pointer_type r)"
| "visit (PointerField i) (RStruct s) = ret [RPointer (sr_get_pointer_field i s)]"
| "visit (DataField n i) (RStruct s) = no_reader (sr_get_data_field n i s :: (world, u64) prog)"
| "visit (BoolField i) (RStruct s) = no_reader (sr_get_bool_field i s)"
| "visit DataSection (RStruct s) = no_reader (sr_get_data_section_as_blob s)"
| "visit (StructElement i) (RList e l) = ret [RStruct (lr_get_struct_element i l)]"
| "visit (PointerElement i) (RList e l) = ret [RPointer (lr_get_pointer_element i l)]"
| "visit (PrimElement n i) (RList e l) = no_reader (prim_get n l i :: (world, u64) prog)"
| "visit (BoolElement i) (RList e l) = no_reader (bool_get l i)"
| "visit _ _ = panic"

inductive walk :: "world \<Rightarrow> world \<Rightarrow> any_reader set \<Rightarrow> bool" for w\<^sub>0 where
  start: "walk w\<^sub>0 w\<^sub>0 {}"
| root: "walk w\<^sub>0 w S \<Longrightarrow> pr_get_root_from_arena AReader w = (Ok r, w') \<Longrightarrow> walk w\<^sub>0 w' (insert (RPointer r) S)"
| request: "walk w\<^sub>0 w S \<Longrightarrow> r \<in> S \<Longrightarrow> applicable q r \<Longrightarrow> visit q r w = (Ok rs, w') \<Longrightarrow>
    walk w\<^sub>0 w' (S \<union> set rs)"
| failed: "walk w\<^sub>0 w S \<Longrightarrow> r \<in> S \<Longrightarrow> applicable q r \<Longrightarrow> visit q r w = (Err e, w') \<Longrightarrow> walk w\<^sub>0 w' S"

fun reader_ok :: "world \<Rightarrow> any_reader \<Rightarrow> bool" where
  "reader_ok W (RPointer r) = pointer_reader_ok W r"
| "reader_ok W (RStruct s) = struct_reader_ok W s"
| "reader_ok W (RList e l) = (list_reader_ok W l \<and> holds_elements e l)"

section \<open>Every request is safe\<close>

lemma no_reader_reads: "reads W m Q no_panic \<Longrightarrow> reads W (no_reader m) (\<lambda>rs. rs = []) no_panic"
  unfolding no_reader_def by (erule reads_bindp) (simp add: reads_ret)

lemma pointer_reader_ok_cases:
  assumes "pointer_reader_ok W r"
  obtains (null) "pr_reff r = PZero" "pr_pointer r = PNull"
  | (at) "checked (pr_arena r)" "in_seg W (pr_arena r) (pr_segment_id r) (pr_reff r) 8"
      "pr_pointer r = pr_reff r" "pr_pointer r \<noteq> PNull"
proof (cases "pr_pointer r = PNull")
  case True
  then show ?thesis using null by (simp add: pr_reff_def)
next
  case False
  then have "pr_reff r = pr_pointer r" by (simp add: pr_reff_def)
  then show ?thesis by (intro at) (use assms False in \<open>simp_all add: pointer_reader_ok_def\<close>)
qed

lemma source_PZero: "source_or_default cn ar sid PZero None = ret None"
proof (rule ext)
  fix w
  have "deref_wp ar PZero w = (Ok (decode_wire_pointer (replicate 8 0)), w)"
    unfolding deref_wp_def bindp_def by (simp add: deref_def load_def ret_def)
  with wp_is_null_decode_zero show "source_or_default cn ar sid PZero None w = ret None w"
    by (simp only: source_or_default_def bindp_def) simp
qed

lemma read_PZero:
  "read_struct_pointer ar sid ct PZero None nl = ret struct_reader_new_default"
  "read_list_pointer ar sid ct PZero None ex nl = ret list_reader_new_default"
  "read_text_pointer ar sid PZero None = ret []"
  "read_data_pointer ar sid PZero None = ret []"
  by (simp_all add: read_struct_pointer_def read_list_pointer_def read_text_pointer_def
      read_data_pointer_def source_PZero)

lemma pointer_requests:
  assumes "pointer_reader_ok W r"
  shows "reads W (pr_get_struct None r) (struct_reader_ok W) no_panic"
    and "reads W (pr_get_list e None r) (\<lambda>l. list_reader_ok W l \<and> holds_elements e l) no_panic"
    and "reads W (pr_get_text None r) (\<lambda>bs. length bs < 2 ^ 29) no_panic"
    and "reads W (pr_get_data None r) (\<lambda>bs. length bs < 2 ^ 29) no_panic"
proof -
  have "reads W (pr_get_struct None r) (struct_reader_ok W) no_panic \<and>
    reads W (pr_get_list e None r) (\<lambda>l. list_reader_ok W l \<and> holds_elements e l) no_panic \<and>
    reads W (pr_get_text None r) (\<lambda>bs. length bs < 2 ^ 29) no_panic \<and>
    reads W (pr_get_data None r) (\<lambda>bs. length bs < 2 ^ 29) no_panic"
    using assms
  proof (cases rule: pointer_reader_ok_cases)
    case null
    then show ?thesis
      by (simp add: read_PZero reads_ret pr_get_struct_def pr_get_list_def pr_get_text_def pr_get_data_def)
  next
    case at
    then have ref: "ref_ok W (pr_arena r) (pr_segment_id r) (pr_reff r)" by (simp add: ref_ok_def)
    show ?thesis
      unfolding pr_get_struct_def pr_get_list_def pr_get_text_def pr_get_data_def
      by (intro conjI read_text_pointer_reads [OF at(1) ref] read_data_pointer_reads [OF at(1) ref]
          reads_conseq [OF read_struct_pointer_reads [OF at(1) ref]]
          reads_conseq [OF read_list_pointer_reads [OF at(1) ref]])
        (auto simp: expected_elements_def)
  qed
  then show "reads W (pr_get_struct None r) (struct_reader_ok W) no_panic"
    and "reads W (pr_get_list e None r) (\<lambda>l. list_reader_ok W l \<and> holds_elements e l) no_panic"
    and "reads W (pr_get_text None r) (\<lambda>bs. length bs < 2 ^ 29) no_panic"
    and "reads W (pr_get_data None r) (\<lambda>bs. length bs < 2 ^ 29) no_panic"
    by blast+
qed

lemma pr_get_pointer_type_reads:
  assumes "pointer_reader_ok W r"
  shows "reads W (pr_get_pointer_type r) (\<lambda>_. True) no_panic"
  using assms
proof (cases rule: pointer_reader_ok_cases)
  case null
  then show ?thesis by (simp add: pr_get_pointer_type_def pr_is_null_def reads_ret)
next
  case at
  have "reads W (pr_is_null r) (\<lambda>_. True) no_panic"
    unfolding pr_is_null_def using at
    by (auto intro!: reads_ret reads_bindp [OF deref_wp_in_seg])
  moreover have "reads W (case kind t of KFar \<Rightarrow> err UnexpectedFarPointer | KStruct \<Rightarrow> ret PTStruct
      | KList \<Rightarrow> ret PTList | KOther \<Rightarrow> if is_capability t then ret PTCapability else err UnknownPointerType)
      (\<lambda>_. True) no_panic" for t
    by (cases "kind t") (auto intro!: reads_ret reads_err)
  moreover have "reads W (follow_fars (pr_arena r) (pr_pointer r) (pr_segment_id r)) (resolved W (pr_arena r)) no_panic"
    using at by (simp add: follow_fars_reads)
  ultimately show ?thesis
    unfolding pr_get_pointer_type_def
    by (elim reads_bindp, intro reads_if reads_ret TrueI, elim reads_bindp)
      (auto simp: resolved_def intro: reads_bindp [OF deref_wp_in_seg])
qed

lemma visit_reads:
  assumes "reader_ok W r" and "applicable q r"
  shows "reads W (visit q r) (\<lambda>rs. \<forall>r' \<in> set rs. reader_ok W r') no_panic"
proof -
  have *: "reads W (no_reader m) (\<lambda>rs. \<forall>r' \<in> set rs. reader_ok W r') no_panic"
    if "reads W m Q no_panic" for m :: "(world, 'a) prog" and Q
    by (rule reads_conseq [OF no_reader_reads [OF that]]) auto
  have field: "reads W (sr_get_data_field n i s :: (world, u64) prog) (\<lambda>_. True) no_panic"
    if "struct_reader_ok W s" "n \<in> {1, 2, 4, 8}" "i < 2 ^ 32" for n i s
  proof -
    have "(i + 1) * bits_per_element n \<le> 2 ^ 32 * 64"
      using that(2,3) by (intro mult_le_mono) (auto simp: bits_per_element_def)
    then show ?thesis using that(2) by (intro sr_get_data_field_reads [OF that(1)]) auto
  qed
  from assms show ?thesis
    by (cases "(q, r)" rule: applicable.cases)
      (auto intro!: * reads_ret pointer_requests(3,4) pr_get_pointer_type_reads
        field sr_get_bool_field_reads sr_get_data_section_as_blob_reads
        sr_get_pointer_field_ok lr_get_struct_element_ok lr_get_pointer_element_ok prim_get_reads bool_get_reads
        reads_bindp [OF pointer_requests(1)] reads_bindp [OF pointer_requests(2)])
qed

section \<open>The walk\<close>

lemma in_seg_still [simp]: "in_seg (still w) = in_seg w"
  by (intro ext) (simp add: in_seg_def)

lemma reader_ok_still [simp]: "reader_ok (still w) r = reader_ok w r"
  by (cases r) (simp_all add: pointer_reader_ok_def struct_reader_ok_def list_reader_ok_def)

lemma pr_get_root_from_arena_reads:
  assumes "checked ar"
  shows "reads W (pr_get_root_from_arena ar) (pointer_reader_ok W) no_panic"
proof -
  have "reads W (nesting_limit ar) (\<lambda>_. True) no_panic"
    by (rule readsI) (simp add: nesting_limit_def wp_gets)
  then show ?thesis
    unfolding pr_get_root_from_arena_def
    by (intro reads_bindp [OF get_segment_reads [OF assms]] reads_prod
        reads_seqp [OF bounds_check_reads [OF assms, where i = 0]])
      (auto elim!: reads_bindp intro!: reads_ret simp: pointer_reader_ok_def assms)
qed

text \<open>A run of a safe program, spelled out on its outcome.\<close>

lemma reads_outcome:
  assumes "reads (still w) m Q no_panic"
  shows "case m w of (Ok x, w') \<Rightarrow> still w' = still w \<and> Q x | (Err e, w') \<Rightarrow> still w' = still w | _ \<Rightarrow> False"
  using reads_wp [OF assms refl] by (auto simp: wp_def split: prod.splits outcome.splits)

lemma walk_invariant: "walk w\<^sub>0 w S \<Longrightarrow> still w = still w\<^sub>0 \<and> (\<forall>r \<in> S. reader_ok w\<^sub>0 r)"
proof (induction rule: walk.induct)
  case start
  then show ?case by simp
next
  case (root w S r w')
  have "still w' = still w \<and> pointer_reader_ok (still w) r"
    using reads_outcome [OF pr_get_root_from_arena_reads [of AReader], of w] root.hyps(2) by simp
  with root.IH reader_ok_still [of w "RPointer r"] reader_ok_still [of w\<^sub>0 "RPointer r"] show ?case by auto
next
  case (request w S r q rs w')
  then have "reader_ok (still w) r" by (metis reader_ok_still)
  from reads_outcome [OF visit_reads [OF this request.hyps(3)]] request.hyps(4)
  have "still w' = still w" "\<forall>r' \<in> set rs. reader_ok (still w) r'" by auto
  with request.IH show ?case by (metis UnE reader_ok_still)
next
  case (failed w S r q e w')
  then have "reader_ok (still w) r" by (metis reader_ok_still)
  from reads_outcome [OF visit_reads [OF this failed.hyps(3)]] failed.hyps(4)
  have "still w' = still w" by auto
  with failed.IH show ?case by simp
qed

text \<open>
  C1: Memory safety of reading. Whatever bytes the segments of a message hold, and however a
  client walks through the message, with data fields at offsets that a schema can give, every reader
  it has in hand describes memory inside the message, and the next request neither touches memory
  outside of it nor panics; it gives readers that are again well formed or an error, and leaves the
  message unchanged.
\<close>

theorem walk_memory_safe:
  assumes "walk w\<^sub>0 w S" and "r \<in> S" and "applicable q r"
  shows "still w = still w\<^sub>0 \<and> reader_ok w\<^sub>0 r \<and>
    (case visit q r w of
       (Ok rs, w') \<Rightarrow> still w' = still w\<^sub>0 \<and> (\<forall>r' \<in> set rs. reader_ok w\<^sub>0 r')
     | (Err e, w') \<Rightarrow> still w' = still w\<^sub>0
     | _ \<Rightarrow> False)"
proof -
  have inv: "still w = still w\<^sub>0" "reader_ok (still w\<^sub>0) r" using walk_invariant [OF assms(1)] assms(2) by auto
  then have "reads (still w) (visit q r) (\<lambda>rs. \<forall>r' \<in> set rs. reader_ok w\<^sub>0 r') no_panic"
    using visit_reads [OF inv(2) assms(3)] by simp
  from reads_outcome [OF this] inv show ?thesis
    by (auto split: prod.splits outcome.splits)
qed

definition sample_root :: pointer_reader where
  "sample_root = \<lparr>pr_arena = AReader, pr_cap_table = None, pr_pointer = PAt 0 0,
     pr_segment_id = 0, pr_nesting_limit = 64\<rparr>"

lemma sample_root_eq:
  "pr_get_root_from_arena AReader (sample_world None) =
    (Ok sample_root, snd (pr_get_root_from_arena AReader (sample_world None)))"
  by (simp add: pr_get_root_from_arena_def sample_root_def nesting_limit_def sample_eval run_simps)

theorem walk_memory_safe_witness:
  "still (snd (pr_get_root_from_arena AReader (sample_world None))) = still (sample_world None) \<and>
   reader_ok (sample_world None) (RPointer sample_root) \<and>
   (case visit GetStruct (RPointer sample_root) (snd (pr_get_root_from_arena AReader (sample_world None))) of
      (Ok rs, w') \<Rightarrow> still w' = still (sample_world None) \<and> (\<forall>r' \<in> set rs. reader_ok (sample_world None) r')
    | (Err e, w') \<Rightarrow> still w' = still (sample_world None)
    | _ \<Rightarrow> False)"
  by (rule walk_memory_safe [OF walk.root [OF walk.start sample_root_eq]]) simp_all

end
