(* ===== verification/Canonical.thy ===== *)
theory Canonical
  imports Reader_Walk
begin

unbundle bit_operations_syntax

text \<open>
  The test whether a message is in canonical form: \<open>is_canonical\<close> of \<open>PointerReader\<close>,
  \<open>StructReader\<close> and \<open>ListReader\<close> in \<^verbatim>\<open>capnp/src/private/layout.rs\<close>.

  The test walks the message in preorder and keeps the address at which the next object has to
  start in a cell, the read head; here the read head is passed along. A struct is given a second
  head for the objects behind its pointers, which may be the same cell: \<open>None\<close> says that it is.

  Shown: on any bytes the test returns a verdict or an error; it never panics (the assertion on
  the end of a struct list holds, no product of sizes overflows), never reads outside of the
  message, and the depth of its recursion is bounded by the nesting limit.
\<close>

section \<open>The test\<close>

text \<open>A loop that returns \<open>false\<close> from the function in the middle.\<close>

primrec while_true :: "('a \<Rightarrow> 'b \<Rightarrow> ('s, bool \<times> 'b) prog) \<Rightarrow> 'a list \<Rightarrow> 'b \<Rightarrow> ('s, bool \<times> 'b) prog" where
  "while_true f [] acc = ret (True, acc)"
| "while_true f (x # xs) acc =
     bindp (f x acc) (\<lambda>(ok, acc). if ok then while_true f xs acc else ret (False, acc))"

type_synonym head_test = "ptr \<Rightarrow> pointer_reader \<Rightarrow> (world, bool \<times> ptr) prog"

definition sr_is_canonical ::
  "head_test \<Rightarrow> ptr \<Rightarrow> ptr option \<Rightarrow> struct_reader \<Rightarrow> (world, bool \<times> bool \<times> bool \<times> ptr \<times> ptr option) prog" where
  "sr_is_canonical pointer_is_canonical read_head ptr_head self =
     (if sr_data self \<noteq> read_head then ret (False, False, False, read_head, ptr_head)
      else if sr_data_size self mod BITS_PER_WORD \<noteq> 0 then ret (False, False, False, read_head, ptr_head)
      else
      let data_size = sr_data_size self div BITS_PER_WORD in
      bindp (if data_size \<noteq> 0
             then bindp (sr_get_data_field 8 (data_size - 1) self :: (world, u64) prog) (\<lambda>v. ret (v \<noteq> 0))
             else ret True) (\<lambda>data_trunc.
      bindp (if sr_pointer_count self \<noteq> 0
             then bindp (pr_is_null (sr_get_pointer_field (sr_pointer_count self - 1) self)) (\<lambda>null. ret (\<not> null))
             else ret True) (\<lambda>ptr_trunc.
      let read_head = ptr_add read_head (int ((data_size + sr_pointer_count self) * BYTES_PER_WORD)) in
      bindp (while_true (\<lambda>ptr_idx head. pointer_is_canonical head (sr_get_pointer_field ptr_idx self))
               [0..<sr_pointer_count self] (case ptr_head of None \<Rightarrow> read_head | Some h \<Rightarrow> h)) (\<lambda>(ok, head).
      ret (ok, data_trunc, ptr_trunc,
           (case ptr_head of None \<Rightarrow> head | Some _ \<Rightarrow> read_head),
           (case ptr_head of None \<Rightarrow> None | Some _ \<Rightarrow> Some head))))))"

text \<open>
  The elements of a struct list: the two heads and the two flags collected over the elements.
  \<open>reff\<close> is the pointer to the list, a word of the arena \<open>ar\<close>.
\<close>

definition composite_is_canonical ::
  "head_test \<Rightarrow> ptr \<Rightarrow> arena_ref \<Rightarrow> ptr \<Rightarrow> list_reader \<Rightarrow> (world, bool \<times> ptr) prog" where
  "composite_is_canonical pointer_is_canonical read_head ar reff self =
     (let read_head = ptr_add read_head (int BYTES_PER_WORD) in
      if lr_ptr self \<noteq> read_head then ret (False, read_head)
      else if lr_struct_data_size self mod BITS_PER_WORD \<noteq> 0 then ret (False, read_head)
      else
      let struct_size = lr_struct_data_size self div BITS_PER_WORD + lr_struct_pointer_count self in
      bindp (deref_wp ar reff) (\<lambda>r.
      if struct_size * lr_element_count self \<ge> 2 ^ 32 then panic
      else if struct_size * lr_element_count self \<noteq> unat (list_inline_composite_word_count r)
      then ret (False, read_head)
      else if struct_size = 0 then ret (True, read_head)
      else
      let list_end = ptr_add read_head (int (lr_element_count self * struct_size * BYTES_PER_WORD)) in
      bindp (while_true (\<lambda>idx (read_head, pointer_head, list_data_trunc, list_ptr_trunc).
          bindp (sr_is_canonical pointer_is_canonical read_head (Some pointer_head) (lr_get_struct_element idx self))
            (\<lambda>(ok, data_trunc, ptr_trunc, read_head, ptr_head).
            let pointer_head = (case ptr_head of Some h \<Rightarrow> h | None \<Rightarrow> pointer_head) in
            ret (ok, read_head, pointer_head, list_data_trunc \<or> ok \<and> data_trunc, list_ptr_trunc \<or> ok \<and> ptr_trunc)))
          [0..<lr_element_count self] (read_head, list_end, False, False))
        (\<lambda>(ok, read_head, pointer_head, list_data_trunc, list_ptr_trunc).
        if \<not> ok then ret (False, read_head)
        else seqp (assertp (read_head = list_end)) (ret (list_data_trunc \<and> list_ptr_trunc, pointer_head)))))"

text \<open>A list of data: the bits behind the last element, up to the end of its word, are zero.\<close>

definition data_list_is_canonical :: "ptr \<Rightarrow> list_reader \<Rightarrow> (world, bool \<times> ptr) prog" where
  "data_list_is_canonical read_head self =
     (if lr_ptr self \<noteq> read_head then ret (False, read_head)
      else
      let bit_size = lr_element_count self * data_bits_per_element (lr_element_size self);
          word_size = bit_size div BITS_PER_WORD + (if bit_size mod BITS_PER_WORD \<noteq> 0 then 1 else 0);
          byte_size = bit_size div BITS_PER_BYTE; leftover_bits = bit_size mod BITS_PER_BYTE;
          read_head_end = ptr_add read_head (int (word_size * BYTES_PER_WORD)) in
      bindp (if leftover_bits > 0
             then bindp (deref (lr_arena self) (ptr_add read_head (int byte_size)) 1) (\<lambda>partial_byte.
               let m = NOT (push_bit leftover_bits 1 - 1) :: u8 in ret (hd partial_byte AND m \<noteq> 0))
             else ret False) (\<lambda>partial_not_zero.
      if partial_not_zero then ret (False, read_head)
      else
      bindp (while_true (\<lambda>k _. bindp (deref (lr_arena self) (ptr_add read_head (int k)) 1) (\<lambda>b. ret (hd b = 0, ())))
               [byte_size + (if leftover_bits > 0 then 1 else 0)..<word_size * BYTES_PER_WORD] ()) (\<lambda>(ok, _).
      ret (ok, if ok then read_head_end else read_head))))"

definition lr_is_canonical :: "head_test \<Rightarrow> ptr \<Rightarrow> arena_ref \<Rightarrow> ptr \<Rightarrow> list_reader \<Rightarrow> (world, bool \<times> ptr) prog" where
  "lr_is_canonical pointer_is_canonical read_head ar reff self = (case lr_element_size self of
     InlineComposite \<Rightarrow> composite_is_canonical pointer_is_canonical read_head ar reff self
   | Pointer \<Rightarrow>
       if lr_ptr self \<noteq> read_head then ret (False, read_head)
       else while_true (\<lambda>idx head. pointer_is_canonical head (lr_get_pointer_element idx self))
              [0..<lr_element_count self] (ptr_add read_head (int (lr_element_count self * BYTES_PER_WORD)))
   | _ \<Rightarrow> data_list_is_canonical read_head self)"

text \<open>\<open>fuel\<close> bounds the depth of the recursion; running out of it counts as a panic.\<close>

primrec is_canonical :: "nat \<Rightarrow> head_test" where
  "is_canonical 0 read_head self = panic"
| "is_canonical (Suc fuel) read_head self =
     (if pr_pointer self = PNull then ret (False, read_head)
      else
      bindp (deref_wp (pr_arena self) (pr_pointer self)) (\<lambda>r.
      if \<not> is_positional r then ret (False, read_head)
      else
      bindp (pr_get_pointer_type self) (\<lambda>ty. case ty of
        PTNull \<Rightarrow> ret (True, read_head)
      | PTStruct \<Rightarrow>
          bindp (pr_get_struct None self) (\<lambda>st.
          if sr_data_size st = 0 \<and> sr_pointer_count st = 0 then ret (pr_pointer self = sr_data st, read_head)
          else bindp (sr_is_canonical (is_canonical fuel) read_head None st)
                 (\<lambda>(result, data_trunc, ptr_trunc, head, _). ret (result \<and> data_trunc \<and> ptr_trunc, head)))
      | PTList \<Rightarrow>
          bindp (pr_get_list_any_size None self) (\<lambda>l. lr_is_canonical (is_canonical fuel) read_head (pr_arena self) (pr_pointer self) l)
      | PTCapability \<Rightarrow> ret (False, read_head))))"

definition pr_is_canonical :: "ptr \<Rightarrow> pointer_reader \<Rightarrow> (world, bool \<times> ptr) prog" where
  "pr_is_canonical read_head self = is_canonical (Suc (nat (pr_nesting_limit self))) read_head self"

section \<open>The shape of a list that was read\<close>

text \<open>What every successful run of a program returns, whatever the world.\<close>

definition gives :: "('s, 'a) prog \<Rightarrow> ('a \<Rightarrow> bool) \<Rightarrow> bool" where
  "gives m Q \<longleftrightarrow> (\<forall>w x t. m w = (Ok x, t) \<longrightarrow> Q x)"

lemma gives_bindp: "(\<And>x. gives (f x) Q) \<Longrightarrow> gives (bindp m f) Q"
  by (fastforce simp: gives_def bindp_def split: prod.splits outcome.splits)

lemma gives_seqp: "gives n Q \<Longrightarrow> gives (seqp m n) Q"
  unfolding seqp_def by (rule gives_bindp)

lemma gives_simple: "Q x \<Longrightarrow> gives (ret x) Q" "gives (err e) Q"
  by (auto simp: gives_def ret_def err_def)

lemma gives_option: "(\<And>x. gives (f x) Q) \<Longrightarrow> gives n Q \<Longrightarrow> gives (case r of Some x \<Rightarrow> f x | None \<Rightarrow> n) Q"
  by (cases r) simp_all

lemma gives_prod: "(\<And>a b. gives (f a b) Q) \<Longrightarrow> gives (case x of (a, b) \<Rightarrow> f a b) Q"
  by (cases x) simp

lemma gives_if: "(b \<Longrightarrow> gives m Q) \<Longrightarrow> (\<not> b \<Longrightarrow> gives n Q) \<Longrightarrow> gives (if b then m else n) Q"
  by simp

lemma reads_gives: "reads W m P F \<Longrightarrow> gives m Q \<Longrightarrow> reads W m (\<lambda>x. P x \<and> Q x) F"
  unfolding reads_def gives_def by (auto simp: wp_def split: prod.split outcome.split dest: prod.expand)

text \<open>The element size determines the layout of the elements.\<close>

definition sized_list :: "list_reader \<Rightarrow> bool" where
  "sized_list l \<longleftrightarrow> lr_element_count l = 0 \<or>
     (if lr_element_size l = InlineComposite then
        lr_step l = (lr_struct_data_size l div 64 + lr_struct_pointer_count l) * 64 \<and>
        (lr_struct_data_size l div 64 + lr_struct_pointer_count l) * lr_element_count l < 2 ^ 29
      else lr_step l = data_bits_per_element (lr_element_size l) + pointers_per_element (lr_element_size l) * 64 \<and>
        lr_struct_data_size l = data_bits_per_element (lr_element_size l))"

lemma read_list_pointer_sized: "gives (read_list_pointer ar sid ct reff dflt ex nesting) sized_list"
  unfolding read_list_pointer_def
proof (intro gives_bindp gives_option gives_prod gives_if gives_simple, unfold Let_def,
    intro gives_if gives_seqp gives_bindp gives_simple, goal_cases)
  case (1 _ _ _ _ _ _ _ _ _ _ _ r tag)
  then show ?case
    using list_element_count_bound [of r]
    by (auto simp: sized_list_def list_inline_composite_word_count_def struct_word_size_def not_less algebra_simps)
qed (simp_all add: sized_list_def list_reader_new_default_def)

text \<open>The data section of a struct is counted in 16 bits, so the offset of its last word does not overflow.\<close>

lemma read_struct_pointer_sized: "gives (read_struct_pointer ar sid ct reff dflt nesting) (\<lambda>r. sr_data_size r < 2 ^ 22)"
  unfolding read_struct_pointer_def
proof (intro gives_bindp gives_option gives_prod gives_if gives_seqp gives_simple)
  show "sr_data_size \<lparr>sr_arena = a, sr_cap_table = ct, sr_data = p, sr_pointers = q, sr_segment_id = s,
      sr_data_size = unat (struct_data_size r) * BITS_PER_WORD, sr_pointer_count = c, sr_nesting_limit = n\<rparr> < 2 ^ 22"
    for a p q s r c n
    using unsigned_less [of "struct_data_size r"] by (simp add: BITS_PER_WORD_def)
qed (simp add: struct_reader_new_default_def)

section \<open>The test is safe\<close>

lemma reads_while_true:
  assumes "I k acc" and "k \<le> n"
    and "\<And>i a. k \<le> i \<Longrightarrow> i < n \<Longrightarrow> I i a \<Longrightarrow> reads W (f i a) (\<lambda>(ok, a'). ok \<longrightarrow> I (Suc i) a') F"
  shows "reads W (while_true f [k..<n] acc) (\<lambda>(ok, a). ok \<longrightarrow> I n a) F"
  using assms
proof (induction "n - k" arbitrary: k acc)
  case 0
  then show ?case by (simp add: reads_ret)
next
  case (Suc d)
  then have k: "k < n" by simp
  have "reads W (bindp (f k acc) (\<lambda>(ok, acc). if ok then while_true f [Suc k..<n] acc else ret (False, acc)))
    (\<lambda>(ok, a). ok \<longrightarrow> I n a) F"
    by (rule reads_bindp [OF Suc.prems(3) [OF order_refl k Suc.prems(1)]]) (use Suc k in \<open>auto intro!: reads_ret\<close>)
  then show ?case using k by (simp add: upt_conv_Cons)
qed

lemma reads_while_true_simple:
  assumes "\<And>i a. k \<le> i \<Longrightarrow> i < n \<Longrightarrow> reads W (f i a) (\<lambda>_. True) F"
  shows "reads W (while_true f [k..<n] acc) (\<lambda>_. True) F"
proof (cases "k \<le> n")
  case True
  show ?thesis
    by (rule reads_conseq [OF reads_while_true [where I = "\<lambda>_ _. True", OF _ True]])
      (auto intro: reads_conseq [OF assms])
qed (simp add: reads_ret)

definition safe_test :: "world \<Rightarrow> nat \<Rightarrow> head_test \<Rightarrow> bool" where
  "safe_test W n t \<longleftrightarrow> (\<forall>head r. pointer_reader_ok W r \<longrightarrow> nat (pr_nesting_limit r) < n \<longrightarrow>
     reads W (t head r) (\<lambda>_. True) no_panic)"

lemma pr_is_null_reads: "pointer_reader_ok W r \<Longrightarrow> reads W (pr_is_null r) (\<lambda>_. True) no_panic"
  by (auto simp: pr_is_null_def pointer_reader_ok_def intro!: reads_ret reads_bindp [OF deref_wp_in_seg])

text \<open>A struct in canonical form moves the read head to its end.\<close>

lemma sr_is_canonical_reads:
  assumes ok: "struct_reader_ok W st" and t: "safe_test W n t"
    and nl: "sr_pointer_count st = 0 \<or> nat (sr_nesting_limit st) < n" and small: "sr_data_size st < 2 ^ 38"
  shows "reads W (sr_is_canonical t head (Some h) st)
      (\<lambda>(res, _, _, head', h'). h' \<noteq> None \<and>
        (res \<longrightarrow> head' = ptr_add head (int ((sr_data_size st div 64 + sr_pointer_count st) * 8)))) no_panic"
    and "reads W (sr_is_canonical t head None st) (\<lambda>_. True) no_panic"
proof -
  have data: "reads W (if d \<noteq> 0 then bindp (sr_get_data_field 8 (d - 1) st :: (world, u64) prog) (\<lambda>v. ret (v \<noteq> 0)) else ret True)
      (\<lambda>_. True) no_panic" if "d = sr_data_size st div 64" for d
  proof -
    have "d * 64 < 2 ^ 64" using small that by simp
    then show ?thesis
      by (auto intro!: reads_ret reads_bindp [OF sr_get_data_field_reads [OF ok]] simp: bits_per_element_def)
  qed
  have ptrs: "reads W (if c \<noteq> 0 then bindp (pr_is_null (sr_get_pointer_field (c - 1) st)) (\<lambda>null. ret (\<not> null)) else ret True)
      (\<lambda>_. True) no_panic" for c
    by (auto intro!: reads_ret reads_bindp [OF pr_is_null_reads] sr_get_pointer_field_ok [OF ok])
  have loop: "reads W (while_true (\<lambda>i head. t head (sr_get_pointer_field i st)) [0..<sr_pointer_count st] a) (\<lambda>_. True) no_panic" for a
  proof (rule reads_while_true_simple)
    fix i a assume "i < sr_pointer_count st"
    moreover from this have "pr_nesting_limit (sr_get_pointer_field i st) = sr_nesting_limit st"
      by (simp add: sr_get_pointer_field_def)
    ultimately show "reads W (t a (sr_get_pointer_field i st)) (\<lambda>_. True) no_panic"
      using t nl sr_get_pointer_field_ok [OF ok] by (auto simp: safe_test_def)
  qed
  show "reads W (sr_is_canonical t head (Some h) st)
      (\<lambda>(res, _, _, head', h'). h' \<noteq> None \<and>
        (res \<longrightarrow> head' = ptr_add head (int ((sr_data_size st div 64 + sr_pointer_count st) * 8)))) no_panic"
    unfolding sr_is_canonical_def Let_def
    by (intro reads_if reads_ret reads_bindp [OF data] reads_bindp [OF ptrs] reads_bindp [OF loop])
      (auto intro!: reads_ret simp: BITS_PER_WORD_def)
  show "reads W (sr_is_canonical t head None st) (\<lambda>_. True) no_panic"
    unfolding sr_is_canonical_def Let_def
    by (intro reads_if reads_ret reads_bindp [OF data] reads_bindp [OF ptrs] reads_bindp [OF loop])
      (auto intro!: reads_ret simp: BITS_PER_WORD_def)
qed

lemma ptr_add_0 [simp]: "ptr_add p 0 = p"
  by (cases p) (simp_all add: ptr_add.simps)

lemma lr_struct_element_fields [simp]:
  "sr_data_size (lr_get_struct_element i l) = lr_struct_data_size l"
  "sr_pointer_count (lr_get_struct_element i l) = lr_struct_pointer_count l"
  "sr_nesting_limit (lr_get_struct_element i l) = lr_nesting_limit l - 1"
  by (simp_all add: lr_get_struct_element_def Let_def)

lemma composite_is_canonical_reads:
  assumes ok: "list_reader_ok W l" and sized: "sized_list l" "lr_element_size l = InlineComposite"
    and t: "safe_test W n t" and nl: "lr_element_count l = 0 \<or> nat (lr_nesting_limit l - 1) < n"
    and reff: "in_seg W ar sid reff 8"
  shows "reads W (composite_is_canonical t head ar reff l) (\<lambda>_. True) no_panic"
proof -
  let ?n = "lr_element_count l" and ?sz = "lr_struct_data_size l div 64 + lr_struct_pointer_count l"
  have fits: "?sz * ?n < 2 ^ 32"
    using sized by (cases "?n = 0") (auto simp: sized_list_def)
  let ?head = "ptr_add head (int BYTES_PER_WORD)"
  let ?stop = "ptr_add ?head (int (?n * ?sz * BYTES_PER_WORD))"
  have loop: "reads W (while_true (\<lambda>idx (read_head, pointer_head, list_data_trunc, list_ptr_trunc).
          bindp (sr_is_canonical t read_head (Some pointer_head) (lr_get_struct_element idx l))
            (\<lambda>(ok, data_trunc, ptr_trunc, read_head, ptr_head).
            ret (ok, read_head, (case ptr_head of Some h \<Rightarrow> h | None \<Rightarrow> pointer_head), list_data_trunc \<or> ok \<and> data_trunc,
              list_ptr_trunc \<or> ok \<and> ptr_trunc)))
        [0..<?n] (?head, ?stop, False, False))
      (\<lambda>(ok, a). ok \<longrightarrow> fst a = ?stop) no_panic"
  proof (rule reads_conseq [OF reads_while_true [where I = "\<lambda>i a. fst a = ptr_add ?head (int (i * ?sz * 8))" and F = no_panic]], goal_cases)
    case (3 i a)
    then show ?case
    proof (cases a)
      case (fields rh ph dt pt)
      have "struct_reader_ok W (lr_get_struct_element i l)" by (rule lr_get_struct_element_ok [OF ok 3(2)])
      moreover have "nat (sr_nesting_limit (lr_get_struct_element i l)) < n" using nl 3(2) by auto
      moreover have "lr_struct_data_size l < 2 ^ 38"
      proof -
        have "?sz < 2 ^ 32" by (rule le_less_trans [OF _ fits]) (use 3(2) in auto)
        then have "lr_struct_data_size l div 64 < 2 ^ 30 * 4" by simp
        then show ?thesis by (subst (asm) div_less_iff_less_mult) simp_all
      qed
      ultimately show ?thesis
        unfolding fields prod.case using 3(3) fields
        by (intro reads_bindp [OF sr_is_canonical_reads(1) [OF _ t]] disjI2)
          (auto intro!: reads_ret simp: ptr_add_add algebra_simps)
    qed
  qed (auto simp: ptr_add_0)
  show ?thesis
    unfolding composite_is_canonical_def Let_def BITS_PER_WORD_def
    using fits
    by (intro reads_if reads_ret TrueI reads_bindp [OF deref_wp_in_seg [OF reff]] reads_bindp [OF loop])
      (auto intro!: reads_ret simp: assertp_def seqp_def)
qed

lemma words_of_bits: "b \<le> n * 64 \<Longrightarrow> b div 64 + (if b mod 64 \<noteq> 0 then 1 else 0) \<le> (n :: nat)"
proof (cases "b mod 64 = 0")
  case True
  assume "b \<le> n * 64"
  then have "b div 64 \<le> n * 64 div 64" by (rule div_le_mono)
  with True show ?thesis by simp
next
  case False
  assume "b \<le> n * 64"
  with False have "b < n * 64" by (cases "b = n * 64") simp_all
  then have "b div 64 < n" by (rule less_mult_imp_div_less)
  with False show ?thesis by simp
qed

lemma byte_of_bits: "0 < b mod 8 \<Longrightarrow> b div 8 < (b div 64 + (if b mod 64 \<noteq> 0 then 1 else 0)) * (8 :: nat)"
proof -
  assume b: "0 < b mod 8"
  have "b mod 64 \<noteq> 0" using b mod_mod_cancel [of 8 64 b] by (intro notI) simp
  moreover have "b div 8 < (b div 64) * 8 + 8"
    using div_mult2_eq [of b 8 8] div_mult_mod_eq [of "b div 8" 8] mod_less_divisor [of 8 "b div 8"] by linarith
  ultimately show ?thesis by simp
qed

lemma data_list_is_canonical_reads:
  assumes ok: "list_reader_ok W l" and sized: "sized_list l"
    and es: "lr_element_size l \<noteq> InlineComposite" "lr_element_size l \<noteq> Pointer"
  shows "reads W (data_list_is_canonical head l) (\<lambda>_. True) no_panic"
proof (cases "lr_ptr l = head")
  case True
  let ?bits = "lr_element_count l * data_bits_per_element (lr_element_size l)"
  let ?ws = "?bits div 64 + (if ?bits mod 64 \<noteq> 0 then 1 else 0)"
  have byte: "in_seg W (lr_arena l) (lr_segment_id l) (ptr_add head (int k)) 1" if k: "k < ?ws * 8" for k
  proof -
    have "lr_element_count l \<noteq> 0" using k by (intro notI) simp
    moreover have "lr_step l = data_bits_per_element (lr_element_size l)"
      using sized es \<open>lr_element_count l \<noteq> 0\<close> by (cases "lr_element_size l") (auto simp: sized_list_def)
    ultimately obtain n where n: "in_seg W (lr_arena l) (lr_segment_id l) head (n * 8)" "?bits \<le> n * 64"
      using ok True by (auto simp: list_reader_ok_def)
    have "k < n * 8" by (rule less_le_trans [OF k mult_le_mono1 [OF words_of_bits [OF n(2)]]])
    then have "k + 1 \<le> n * 8" by simp
    then show ?thesis by (intro in_seg_sub [OF n(1)]) auto
  qed
  have partial: "reads W (if b then bindp (deref (lr_arena l) (ptr_add head (int (?bits div 8))) 1) (\<lambda>x. ret (f x)) else ret False)
      (\<lambda>_. True) no_panic" if "b \<Longrightarrow> 0 < ?bits mod 8" for b f
    using that byte_of_bits [of ?bits]
    by (intro reads_if reads_ret TrueI reads_bindp [OF deref_in_seg [OF byte]]) blast
  have loop: "reads W (while_true (\<lambda>k _. bindp (deref (lr_arena l) (ptr_add head (int k)) 1) (\<lambda>b. ret (hd b = 0, ())))
      [a..<?ws * 8] ()) (\<lambda>_. True) no_panic" for a
    by (intro reads_while_true_simple reads_bindp [OF deref_in_seg [OF byte]]) (auto intro: reads_ret)
  show ?thesis
    unfolding data_list_is_canonical_def Let_def BITS_PER_WORD_def BYTES_PER_WORD_def BITS_PER_BYTE_def
    by (intro reads_if reads_ret TrueI reads_prod reads_bindp [OF partial] reads_bindp [OF loop])
qed (simp add: data_list_is_canonical_def reads_ret)

lemma lr_is_canonical_reads:
  assumes ok: "list_reader_ok W l" and sized: "sized_list l" and t: "safe_test W n t"
    and nl: "lr_element_count l = 0 \<or> nat (lr_nesting_limit l) < n" and reff: "in_seg W ar sid reff 8"
  shows "reads W (lr_is_canonical t head ar reff l) (\<lambda>_. True) no_panic"
proof -
  have elem: "reads W (t a (lr_get_pointer_element i l)) (\<lambda>_. True) no_panic"
    if "lr_element_size l = Pointer" "i < lr_element_count l" for i a
  proof -
    have "holds_elements Pointer l" using sized that by (auto simp: holds_elements_def sized_list_def)
    moreover have "pr_nesting_limit (lr_get_pointer_element i l) = lr_nesting_limit l"
      by (simp add: lr_get_pointer_element_def Let_def)
    ultimately show ?thesis
      using t nl that lr_get_pointer_element_ok [OF ok that(2)] by (auto simp: safe_test_def)
  qed
  have composite: "reads W (composite_is_canonical t head ar reff l) (\<lambda>_. True) no_panic" if "lr_element_size l = InlineComposite"
    by (rule composite_is_canonical_reads [OF ok sized that t _ reff]) (use nl in auto)
  show ?thesis
    using data_list_is_canonical_reads [OF ok sized]
    by (cases "lr_element_size l")
      (auto simp: lr_is_canonical_def intro!: reads_ret reads_while_true_simple elem composite)
qed

lemma is_canonical_safe: "safe_test W fuel (is_canonical fuel)"
proof (induction fuel)
  case 0
  then show ?case by (simp add: safe_test_def)
next
  case (Suc fuel)
  show ?case
    unfolding safe_test_def
  proof (intro allI impI)
    fix head r
    assume ok: "pointer_reader_ok W r" and nl: "nat (pr_nesting_limit r) < Suc fuel"
    show "reads W (is_canonical (Suc fuel) head r) (\<lambda>_. True) no_panic"
    proof (cases "pr_pointer r = PNull")
      case False
      then have at: "checked (pr_arena r)" "in_seg W (pr_arena r) (pr_segment_id r) (pr_pointer r) 8"
        and ref: "ref_ok W (pr_arena r) (pr_segment_id r) (pr_reff r)"
        using ok pr_reff_ok [OF ok] by (auto simp: pointer_reader_ok_def)
      have struct: "reads W (bindp (pr_get_struct None r) (\<lambda>st.
          if sr_data_size st = 0 \<and> sr_pointer_count st = 0 then ret (pr_pointer r = sr_data st, head)
          else bindp (sr_is_canonical (is_canonical fuel) head None st)
                 (\<lambda>(result, data_trunc, ptr_trunc, head, _). ret (result \<and> data_trunc \<and> ptr_trunc, head)))) (\<lambda>_. True) no_panic"
        unfolding pr_get_struct_def
        by (rule reads_bindp [OF reads_gives [OF read_struct_pointer_reads [OF at(1) ref] read_struct_pointer_sized]])
          (use nl Suc.IH in \<open>auto intro!: reads_ret reads_bindp [OF sr_is_canonical_reads(2)]\<close>)
      have list: "reads W (bindp (pr_get_list_any_size None r)
          (\<lambda>l. lr_is_canonical (is_canonical fuel) head (pr_arena r) (pr_pointer r) l)) (\<lambda>_. True) no_panic"
        unfolding pr_get_list_any_size_def
        by (rule reads_bindp [OF reads_gives [OF read_list_pointer_reads [OF at(1) ref] read_list_pointer_sized]])
          (use nl Suc.IH at(2) in \<open>auto intro!: lr_is_canonical_reads\<close>)
      have "reads W (case ty of PTNull \<Rightarrow> ret (True, head)
        | PTStruct \<Rightarrow> bindp (pr_get_struct None r) (\<lambda>st.
            if sr_data_size st = 0 \<and> sr_pointer_count st = 0 then ret (pr_pointer r = sr_data st, head)
            else bindp (sr_is_canonical (is_canonical fuel) head None st)
                   (\<lambda>(result, data_trunc, ptr_trunc, head, _). ret (result \<and> data_trunc \<and> ptr_trunc, head)))
        | PTList \<Rightarrow> bindp (pr_get_list_any_size None r)
            (\<lambda>l. lr_is_canonical (is_canonical fuel) head (pr_arena r) (pr_pointer r) l)
        | PTCapability \<Rightarrow> ret (False, head)) (\<lambda>_. True) no_panic" for ty
        using struct list by (cases ty) (simp_all add: reads_ret)
      then show ?thesis
        unfolding is_canonical.simps
        by (intro reads_if reads_ret TrueI reads_bindp [OF deref_wp_in_seg [OF at(2)]]
            reads_bindp [OF pr_get_pointer_type_reads [OF ok]])
    qed (simp add: reads_ret)
  qed
qed

end
