(* ===== verification/Builder_Memory.thy ===== *)
theory Builder_Memory
  imports Layout_Read
begin

text \<open>
  The memory of the message being built, as the unchecked pointer writes of
  \<^verbatim>\<open>capnp/src/private/layout.rs\<close> see it: stores through raw pointers, and the words of the
  segments that they change.

  A store outside the memory of a segment is undefined behaviour here, so that a proof that a
  program does not run into it shows that it stays inside the segments. \<open>zeroed F\<close> says that
  exactly the words in \<open>F\<close> became zero, \<open>touches S\<close> that of the words in use nothing but those in \<open>S\<close>
  changed, while the arena may have grown.
\<close>

section \<open>Stores\<close>

definition set_mem :: "nat \<Rightarrow> u8 list \<Rightarrow> world \<Rightarrow> world" where
  "set_mem s m w = w\<lparr>w_builder := (w_builder w)\<lparr>ba_segments :=
     (ba_segments (w_builder w))[s := (ba_segments (w_builder w) ! s)\<lparr>bs_mem := m\<rparr>]\<rparr>\<rparr>"

definition bmem :: "world \<Rightarrow> nat \<Rightarrow> u8 list" where
  "bmem w s = bs_mem (ba_segments (w_builder w) ! s)"

definition nsegs :: "world \<Rightarrow> nat" where
  "nsegs w = length (ba_segments (w_builder w))"

text \<open>Writing some bytes; writing none touches no memory.\<close>

definition store :: "ptr \<Rightarrow> u8 list \<Rightarrow> (world, unit) prog" where
  "store p bs w =
     (if bs = [] then (Ok (), w)
      else case p of
        PAt s off \<Rightarrow>
          if unat s < nsegs w \<and> 0 \<le> off \<and> nat off + length bs \<le> length (bmem w (unat s))
          then (Ok (), set_mem (unat s) (write_at (nat off) bs (bmem w (unat s))) w)
          else (UB, w)
      | _ \<Rightarrow> (UB, w))"

definition write_zeros :: "ptr \<Rightarrow> nat \<Rightarrow> (world, unit) prog" where
  "write_zeros p n = store p (replicate n 0)"

definition store_wp :: "ptr \<Rightarrow> wire_pointer \<Rightarrow> (world, unit) prog" where
  "store_wp p x = store p (encode_wire_pointer x)"

definition update_wp :: "ptr \<Rightarrow> (wire_pointer \<Rightarrow> wire_pointer) \<Rightarrow> (world, unit) prog" where
  "update_wp p f = bindp (deref_wp ABuilder p) (\<lambda>x. store_wp p (f x))"

text \<open>A setter that may panic.\<close>

definition update_wp_checked :: "ptr \<Rightarrow> (wire_pointer \<Rightarrow> wire_pointer outcome) \<Rightarrow> (world, unit) prog" where
  "update_wp_checked p f =
     bindp (deref_wp ABuilder p) (\<lambda>x. bindp (of_outcome (f x)) (\<lambda>y. store_wp p y))"

text \<open>\<open>set_kind_and_target\<close> subtracts two addresses of one segment.\<close>

definition set_target :: "ptr \<Rightarrow> wire_pointer_kind \<Rightarrow> ptr \<Rightarrow> (world, unit) prog" where
  "set_target p k target = (case (p, target) of
     (PAt s i, PAt t j) \<Rightarrow> if s = t then update_wp p (set_kind_and_target k i j) else ub
   | _ \<Rightarrow> ub)"

definition on_builder :: "(builder_arena, 'a) prog \<Rightarrow> (world, 'a) prog" where
  "on_builder m w = (case m (w_builder w) of (r, b) \<Rightarrow> (r, w\<lparr>w_builder := b\<rparr>))"

definition word_ptr :: "ptr \<Rightarrow> nat \<Rightarrow> ptr" where
  "word_ptr seg_start i = ptr_add seg_start (int i * int BYTES_PER_WORD)"

section \<open>Words of the message being built\<close>

definition word_at :: "world \<Rightarrow> u32 \<Rightarrow> nat \<Rightarrow> wire_pointer" where
  "word_at w s i = decode_wire_pointer (take_at (8 * i) 8 (bmem w (unat s)))"

definition has_words :: "world \<Rightarrow> u32 \<Rightarrow> nat \<Rightarrow> nat \<Rightarrow> bool" where
  "has_words w s i n \<longleftrightarrow> unat s < nsegs w \<and> (i + n) * 8 \<le> length (bmem w (unat s))"

definition at_word :: "u32 \<Rightarrow> nat \<Rightarrow> ptr" where
  "at_word s i = PAt s (int i * 8)"

lemma word_ptr_at_word [simp]: "word_ptr (at_word s i) k = at_word s (i + k)"
  by (simp add: word_ptr_def at_word_def distrib_right ptr_add.simps)

lemma word_ptr_segment [simp]: "word_ptr (PAt s 0) k = at_word s k"
  by (simp add: word_ptr_def at_word_def ptr_add.simps)

lemma has_words_sub: "has_words w s i n \<Longrightarrow> j + m \<le> i + n \<Longrightarrow> has_words w s j m"
  by (simp add: has_words_def)

lemma get_segment_mut_run: "unat s < nsegs w \<Longrightarrow>
    get_segment_mut s w = (Ok (PAt s 0, capacity (ba_segments (w_builder w) ! unat s)), w)"
  by (simp add: get_segment_mut_def nsegs_def)

lemma deref_wp_run: "has_words w s i 1 \<Longrightarrow> deref_wp ABuilder (at_word s i) w = (Ok (word_at w s i), w)"
  by (simp add: deref_wp_def deref_def load_def mem_of_def has_words_def at_word_def bindp_def ret_def
      word_at_def bmem_def nsegs_def nat_mult_distrib mult.commute)

text \<open>A world with some words of the message zeroed.\<close>

definition zero_bytes :: "u32 \<Rightarrow> (u32 \<times> nat) set \<Rightarrow> u8 list \<Rightarrow> u8 list" where
  "zero_bytes s F m = map (\<lambda>b. if (s, b div 8) \<in> F then 0 else m ! b) [0..<length m]"

definition zeroed :: "(u32 \<times> nat) set \<Rightarrow> world \<Rightarrow> world \<Rightarrow> bool" where
  "zeroed F w w' \<longleftrightarrow> w_reader w' = w_reader w \<and> w_caps w' = w_caps w \<and>
     ba_allocator (w_builder w') = ba_allocator (w_builder w) \<and> nsegs w' = nsegs w \<and> nsegs w \<le> 2 ^ 32 \<and>
     (\<forall>i < nsegs w. ba_segments (w_builder w') ! i =
        (ba_segments (w_builder w) ! i)\<lparr>bs_mem := zero_bytes (of_nat i) F (bmem w i)\<rparr>)"

definition words :: "u32 \<Rightarrow> nat \<Rightarrow> nat \<Rightarrow> (u32 \<times> nat) set" where
  "words s i n = {s} \<times> {i..<i + n}"

lemma length_zero_bytes [simp]: "length (zero_bytes s F m) = length m"
  by (simp add: zero_bytes_def)

lemma nth_zero_bytes: "b < length m \<Longrightarrow> zero_bytes s F m ! b = (if (s, b div 8) \<in> F then 0 else m ! b)"
  by (simp add: zero_bytes_def)

lemma zero_bytes_empty [simp]: "zero_bytes s {} m = m"
  by (rule nth_equalityI) (simp_all add: nth_zero_bytes)

lemma zero_bytes_twice: "zero_bytes s G (zero_bytes s F m) = zero_bytes s (F \<union> G) m"
  by (rule nth_equalityI) (auto simp: nth_zero_bytes)

lemma zeroed_refl: "nsegs w \<le> 2 ^ 32 \<Longrightarrow> zeroed {} w w"
  by (simp add: zeroed_def bmem_def)

lemma bmem_zeroed: "zeroed F w w' \<Longrightarrow> unat s < nsegs w \<Longrightarrow> bmem w' (unat s) = zero_bytes s F (bmem w (unat s))"
  by (auto simp: zeroed_def bmem_def)

lemma zeroed_trans:
  assumes "zeroed F u v" and "zeroed G v w"
  shows "zeroed (F \<union> G) u w"
  using assms by (auto simp: zeroed_def bmem_def zero_bytes_twice)

lemma zeroed_nsegs: "zeroed F w w' \<Longrightarrow> nsegs w' = nsegs w"
  by (simp add: zeroed_def)

lemma has_words_zeroed: "zeroed F w w' \<Longrightarrow> has_words w' s i n \<longleftrightarrow> has_words w s i n"
  using bmem_zeroed [of F w w' s] zeroed_nsegs [of F w w'] by (auto simp: has_words_def)

lemma take_at_zero_bytes:
  assumes "(i + 1) * 8 \<le> length m"
  shows "take_at (8 * i) 8 (zero_bytes s F m) = (if (s, i) \<in> F then replicate 8 0 else take_at (8 * i) 8 m)"
  by (rule nth_equalityI) (use assms in \<open>auto simp: nth_take_at nth_zero_bytes\<close>)

lemma word_at_zeroed:
  assumes "zeroed F w w'" and "has_words w s i 1"
  shows "word_at w' s i = (if (s, i) \<in> F then decode_wire_pointer (replicate 8 0) else word_at w s i)"
  using assms bmem_zeroed [OF assms(1), of s] take_at_zero_bytes [of i "bmem w (unat s)" s F]
  by (auto simp: word_at_def has_words_def)

lemma set_mem_zeroed:
  assumes "has_words w s i n" and "nsegs w \<le> 2 ^ 32"
  shows "zeroed (words s i n) w (set_mem (unat s) (write_at (8 * i) (replicate (8 * n) 0) (bmem w (unat s))) w)"
proof -
  have other: "zero_bytes (of_nat k) (words s i n) m = m" if "k \<noteq> unat s" "k < nsegs w" for k m
  proof (rule nth_equalityI)
    fix b assume "b < length (zero_bytes (of_nat k :: u32) (words s i n) m)"
    moreover have "of_nat k \<noteq> s" using that assms(2) by (auto simp: unat_of_nat)
    ultimately show "zero_bytes (of_nat k) (words s i n) m ! b = m ! b"
      by (simp add: nth_zero_bytes words_def)
  qed simp
  have "write_at (8 * i) (replicate (8 * n) 0) (bmem w (unat s)) = zero_bytes s (words s i n) (bmem w (unat s))"
    by (rule nth_equalityI) (use assms(1) in \<open>auto simp: nth_write_at nth_zero_bytes words_def has_words_def\<close>)
  then show ?thesis
    using assms other by (auto simp: zeroed_def set_mem_def nsegs_def bmem_def nth_list_update has_words_def)
qed

lemma write_zeros_run:
  assumes "n = 0 \<or> has_words w s i n" and "nsegs w \<le> 2 ^ 32"
  shows "\<exists>w'. write_zeros (at_word s i) (n * 8) w = (Ok (), w') \<and> zeroed (words s i n) w w'"
proof (cases "n = 0")
  case True
  then show ?thesis using zeroed_refl [OF assms(2)]
    by (intro exI [of _ w]) (simp add: write_zeros_def store_def words_def)
next
  case False
  with assms have hw: "has_words w s i n" by simp
  with False have "write_zeros (at_word s i) (n * 8) w =
      (Ok (), set_mem (unat s) (write_at (8 * i) (replicate (8 * n) 0) (bmem w (unat s))) w)"
    by (simp add: write_zeros_def store_def at_word_def has_words_def nat_mult_distrib mult.commute)
  with set_mem_zeroed [OF hw assms(2)] show ?thesis by blast
qed


section \<open>Steps that build\<close>

definition used :: "world \<Rightarrow> u32 \<Rightarrow> nat" where
  "used w s = allocated (ba_segments (w_builder w) ! unat s)"

definition in_use :: "world \<Rightarrow> u32 \<Rightarrow> nat \<Rightarrow> nat \<Rightarrow> bool" where
  "in_use w s i n \<longleftrightarrow> unat s < nsegs w \<and> i + n \<le> used w s"

text \<open>
  A builder on a heap allocator. A segment of more than \<open>2 ^ 29\<close> words, which is \<open>2 ^ 32\<close> bytes,
  cannot be addressed by the pointers of the format; the default maximum of the allocator is that
  size.
\<close>

definition wf_builder :: "world \<Rightarrow> bool" where
  "wf_builder w \<longleftrightarrow> arena_inv (w_builder w) \<and> nsegs w \<le> 2 ^ 32 \<and>
     (\<forall>seg \<in> set (ba_segments (w_builder w)). length (bs_mem seg) \<le> 2 ^ 32) \<and>
     (\<exists>h. ba_allocator (w_builder w) = Some (Heap h) \<and> heap_ok h \<and> max_segment_words h \<le> 2 ^ 29)"

definition touches :: "(u32 \<times> nat) set \<Rightarrow> world \<Rightarrow> world \<Rightarrow> bool" where
  "touches S w w' \<longleftrightarrow> w_reader w' = w_reader w \<and> w_caps w' = w_caps w \<and> nsegs w \<le> nsegs w' \<and>
     (\<forall>s. unat s < nsegs w \<longrightarrow> length (bmem w' (unat s)) = length (bmem w (unat s)) \<and> used w s \<le> used w' s \<and>
        (\<forall>b < 8 * used w s. (s, b div 8) \<notin> S \<longrightarrow> bmem w' (unat s) ! b = bmem w (unat s) ! b))"

definition builds :: "(u32 \<times> nat) set \<Rightarrow> world \<Rightarrow> world \<Rightarrow> bool" where
  "builds S w w' \<longleftrightarrow> touches S w w' \<and> wf_builder w'"

text \<open>The words \<open>i..<i + n\<close> of segment \<open>s\<close> were not in use before, are now, and are zero.\<close>

definition new_words :: "world \<Rightarrow> world \<Rightarrow> u32 \<Rightarrow> nat \<Rightarrow> nat \<Rightarrow> bool" where
  "new_words w w' s i n \<longleftrightarrow> in_use w' s i n \<and> (unat s < nsegs w \<longrightarrow> used w s \<le> i) \<and>
     (\<forall>b. 8 * i \<le> b \<and> b < 8 * (i + n) \<longrightarrow> bmem w' (unat s) ! b = 0)"

lemma wf_segment:
  assumes "wf_builder w" and "unat s < nsegs w"
  shows "used w s \<le> capacity (ba_segments (w_builder w) ! unat s)"
    and "capacity (ba_segments (w_builder w) ! unat s) \<le> 2 ^ 29"
    and "capacity (ba_segments (w_builder w) ! unat s) * 8 \<le> length (bmem w (unat s))"
    and "length (bmem w (unat s)) \<le> 2 ^ 32"
    and "used w s * 8 \<le> b \<Longrightarrow> b < length (bmem w (unat s)) \<Longrightarrow> bmem w (unat s) ! b = 0"
proof -
  have inv: "segment_inv (ba_segments (w_builder w) ! unat s)"
    using assms by (auto simp: wf_builder_def nsegs_def intro: arena_inv_nth)
  then show "used w s \<le> capacity (ba_segments (w_builder w) ! unat s)"
    and "capacity (ba_segments (w_builder w) ! unat s) * 8 \<le> length (bmem w (unat s))"
    by (simp_all add: segment_inv_def used_def bmem_def)
  show mem: "length (bmem w (unat s)) \<le> 2 ^ 32"
    using assms nth_mem [of "unat s" "ba_segments (w_builder w)"] by (simp add: wf_builder_def nsegs_def bmem_def)
  have "capacity (ba_segments (w_builder w) ! unat s) * 8 \<le> length (bmem w (unat s))"
    using inv by (simp add: segment_inv_def bmem_def)
  with mem show "capacity (ba_segments (w_builder w) ! unat s) \<le> 2 ^ 29" by simp
  assume b: "used w s * 8 \<le> b" "b < length (bmem w (unat s))"
  then have "bmem w (unat s) ! b \<in> set (drop (used w s * 8) (bmem w (unat s)))"
    by (auto simp: in_set_conv_nth intro!: exI [of _ "b - used w s * 8"])
  then show "bmem w (unat s) ! b = 0" using inv by (simp add: segment_inv_def used_def bmem_def)
qed

lemma in_use_has_words: "wf_builder w \<Longrightarrow> in_use w s i n \<Longrightarrow> has_words w s i n"
  using wf_segment(1,3) [of w s] by (auto simp: in_use_def has_words_def)

lemma in_use_bound: "wf_builder w \<Longrightarrow> in_use w s i n \<Longrightarrow> i + n \<le> 2 ^ 29"
  using wf_segment(1,2) [of w s] by (auto simp: in_use_def)

lemma in_use_sub: "in_use w s i n \<Longrightarrow> j + m \<le> i + n \<Longrightarrow> in_use w s j m"
  by (simp add: in_use_def)

lemma touches_refl: "touches S w w"
  by (simp add: touches_def)

lemma touches_mono: "touches S w w' \<Longrightarrow> S \<subseteq> T \<Longrightarrow> touches T w w'"
  by (auto simp: touches_def)

lemma touches_trans:
  assumes "touches S u v" and "touches T v w"
  shows "touches (S \<union> T) u w"
  unfolding touches_def
proof (intro conjI allI impI)
  fix s :: u32 assume s: "unat s < nsegs u"
  then have v: "unat s < nsegs v" using assms(1) by (simp add: touches_def)
  show "length (bmem w (unat s)) = length (bmem u (unat s))" "used u s \<le> used w s"
    using assms s v by (auto simp: touches_def intro: order_trans)
  fix b assume b: "b < 8 * used u s" "(s, b div 8) \<notin> S \<union> T"
  have "used u s \<le> used v s" using assms(1) s by (simp add: touches_def)
  then have "b < 8 * used v s" using b(1) by simp
  then have "bmem w (unat s) ! b = bmem v (unat s) ! b" using assms(2) v b(2) by (auto simp: touches_def)
  also have "\<dots> = bmem u (unat s) ! b" using assms(1) s b by (auto simp: touches_def)
  finally show "bmem w (unat s) ! b = bmem u (unat s) ! b" .
qed (use assms in \<open>auto simp: touches_def\<close>)

lemma builds_refl: "wf_builder w \<Longrightarrow> builds S w w"
  by (simp add: builds_def touches_refl)

lemma builds_mono: "builds S w w' \<Longrightarrow> S \<subseteq> T \<Longrightarrow> builds T w w'"
  by (auto simp: builds_def intro: touches_mono)

lemma builds_trans: "builds S u v \<Longrightarrow> builds T v w \<Longrightarrow> builds (S \<union> T) u w"
  by (auto simp: builds_def intro: touches_trans)

lemma builds_wf: "builds S w w' \<Longrightarrow> wf_builder w'"
  by (simp add: builds_def)

lemma builds_in_use: "builds S w w' \<Longrightarrow> in_use w s i n \<Longrightarrow> in_use w' s i n"
  by (fastforce simp: builds_def touches_def in_use_def)

text \<open>What was written to new words is no change to what was in use.\<close>

lemma builds_trans_new:
  assumes "builds S u v" and "builds T v w" and "\<And>t j. (t, j) \<in> T - S \<Longrightarrow> unat t < nsegs u \<Longrightarrow> used u t \<le> j"
  shows "builds S u w"
proof -
  have T: "(t, b div 8) \<notin> T" if "(t, b div 8) \<notin> S" "unat t < nsegs u" "b < 8 * used u t" for t b
    using assms(3) [of t "b div 8"] that by (auto simp: not_le)
  have "builds (S \<union> T) u w" by (rule builds_trans [OF assms(1,2)])
  then show ?thesis using T by (auto simp: builds_def touches_def)
qed

lemma touches_byte: "touches S w w' \<Longrightarrow> unat s < nsegs w \<Longrightarrow> b < 8 * used w s \<Longrightarrow>
    (s, b div 8) \<notin> S \<Longrightarrow> bmem w' (unat s) ! b = bmem w (unat s) ! b"
  by (simp add: touches_def)

lemma touches_bytes:
  assumes "touches S w w'" and "wf_builder w" and "in_use w s i n" and "words s i n \<inter> S = {}"
    and "8 * i \<le> off" and "off + m \<le> 8 * (i + n)"
  shows "take_at off m (bmem w' (unat s)) = take_at off m (bmem w (unat s))"
proof (rule nth_equalityI)
  have hw: "has_words w s i n" by (rule in_use_has_words [OF assms(2,3)])
  then have l: "length (bmem w' (unat s)) = length (bmem w (unat s))"
    using assms(1) by (simp add: touches_def has_words_def)
  then show "length (take_at off m (bmem w' (unat s))) = length (take_at off m (bmem w (unat s)))" by simp
  have le: "off + m \<le> length (bmem w (unat s))" using hw assms(6) by (simp add: has_words_def)
  fix k assume "k < length (take_at off m (bmem w' (unat s)))"
  then have k: "k < m" by simp
  have "(s, (off + k) div 8) \<in> words s i n" using k assms(5,6) by (auto simp: words_def)
  then have "(s, (off + k) div 8) \<notin> S" using assms(4) by blast
  then have "bmem w' (unat s) ! (off + k) = bmem w (unat s) ! (off + k)"
    using touches_byte [OF assms(1), of s "off + k"] assms(3,6) k by (simp add: in_use_def)
  then show "take_at off m (bmem w' (unat s)) ! k = take_at off m (bmem w (unat s)) ! k"
    using k le l by (simp add: nth_take_at)
qed

lemma touches_word:
  "touches S w w' \<Longrightarrow> wf_builder w \<Longrightarrow> in_use w s i 1 \<Longrightarrow> (s, i) \<notin> S \<Longrightarrow> word_at w' s i = word_at w s i"
  using touches_bytes [of S w w' s i 1 "8 * i" 8] by (auto simp: word_at_def words_def)

lemma builds_word: "builds S w w' \<Longrightarrow> wf_builder w \<Longrightarrow> in_use w s i 1 \<Longrightarrow> (s, i) \<notin> S \<Longrightarrow> word_at w' s i = word_at w s i"
  by (auto simp: builds_def intro!: touches_word)

lemma zeroed_touches:
  assumes "zeroed F w w'" and "wf_builder w"
  shows "touches F w w'"
  unfolding touches_def
proof (intro conjI allI impI)
  fix s :: u32 assume s: "unat s < nsegs w"
  show "length (bmem w' (unat s)) = length (bmem w (unat s))" using bmem_zeroed [OF assms(1) s] by simp
  show "used w s \<le> used w' s" using assms(1) s by (simp add: zeroed_def used_def)
  fix b assume "b < 8 * used w s" "(s, b div 8) \<notin> F"
  moreover have "8 * used w s \<le> length (bmem w (unat s))" using wf_segment(1,3) [OF assms(2) s] by simp
  ultimately show "bmem w' (unat s) ! b = bmem w (unat s) ! b"
    using bmem_zeroed [OF assms(1) s] by (simp add: nth_zero_bytes)
qed (use assms in \<open>auto simp: zeroed_def\<close>)

lemma zero_word: "decode_wire_pointer (replicate 8 0) = \<lparr>offset_and_kind = 0, upper32bits = 0\<rparr>"
  by (simp add: decode_wire_pointer_def numeral_eq_Suc)

lemma new_words_zero:
  assumes "new_words w w' s i n" and "wf_builder w'" and "k < n"
  shows "word_at w' s (i + k) = \<lparr>offset_and_kind = 0, upper32bits = 0\<rparr>"
proof -
  have hw: "has_words w' s (i + k) 1"
    using assms by (intro in_use_has_words) (auto simp: new_words_def in_use_def)
  have "take_at (8 * (i + k)) 8 (bmem w' (unat s)) = replicate 8 0"
    by (rule nth_equalityI) (use hw assms in \<open>auto simp: has_words_def new_words_def nth_take_at\<close>)
  then show ?thesis by (simp add: word_at_def zero_word)
qed

subsection \<open>Stores\<close>

lemma set_mem_simps [simp]:
  "nsegs (set_mem s m w) = nsegs w" "w_reader (set_mem s m w) = w_reader w" "w_caps (set_mem s m w) = w_caps w"
  "ba_allocator (w_builder (set_mem s m w)) = ba_allocator (w_builder w)" "used (set_mem s m w) t = used w t"
  by (simp_all add: set_mem_def nsegs_def) (cases "s < length (ba_segments (w_builder w))"; simp add: set_mem_def used_def nth_list_update list_update_beyond)

lemma bmem_set_mem: "t < nsegs w \<Longrightarrow> bmem (set_mem s m w) t = (if t = s then m else bmem w t)"
  by (simp add: set_mem_def nsegs_def bmem_def nth_list_update)

lemma wf_set_mem:
  assumes "wf_builder w" and s: "unat s < nsegs w" and "length m = length (bmem w (unat s))"
    and "\<And>b. used w s * 8 \<le> b \<Longrightarrow> b < length m \<Longrightarrow> m ! b = 0"
  shows "wf_builder (set_mem (unat s) m w)"
proof -
  let ?seg = "ba_segments (w_builder w) ! unat s"
  have "\<forall>x \<in> set (drop (allocated ?seg * 8) m). x = 0"
    using assms(4) by (auto simp: in_set_conv_nth used_def)
  then have "segment_inv (?seg\<lparr>bs_mem := m\<rparr>)"
    using assms wf_segment [OF assms(1) s] by (simp add: segment_inv_def used_def bmem_def)
  then have inv: "arena_inv (w_builder (set_mem (unat s) m w))"
    using assms(1) by (simp add: wf_builder_def set_mem_def arena_inv_update)
  have "set (ba_segments (w_builder (set_mem (unat s) m w))) \<subseteq> insert (?seg\<lparr>bs_mem := m\<rparr>) (set (ba_segments (w_builder w)))"
    by (simp add: set_mem_def set_update_subset_insert)
  then have "\<forall>seg \<in> set (ba_segments (w_builder (set_mem (unat s) m w))). length (bs_mem seg) \<le> 2 ^ 32"
    using assms(1,3) wf_segment(4) [OF assms(1) s] by (auto simp: wf_builder_def)
  with inv show ?thesis
    using assms(1) unfolding wf_builder_def [of "set_mem _ _ _"] set_mem_simps by (simp add: wf_builder_def)
qed

lemma store_run:
  assumes "wf_builder w" and "in_use w s i n" and "8 * i \<le> off" and "off + length bs \<le> 8 * (i + n)"
  shows "\<exists>w'. store (PAt s (int off)) bs w = (Ok (), w') \<and> builds (words s i n) w w' \<and> nsegs w' = nsegs w \<and>
    bmem w' (unat s) = write_at off bs (bmem w (unat s))"
proof (cases "bs = []")
  case True
  then show ?thesis using builds_refl [OF assms(1)] by (intro exI [of _ w]) (simp add: store_def write_at_def)
next
  case False
  let ?m = "write_at off bs (bmem w (unat s))" and ?w = "set_mem (unat s) (write_at off bs (bmem w (unat s))) w"
  have hw: "has_words w s i n" by (rule in_use_has_words [OF assms(1,2)])
  then have le: "off + length bs \<le> length (bmem w (unat s))" and s: "unat s < nsegs w"
    using assms(4) by (simp_all add: has_words_def)
  have run: "store (PAt s (int off)) bs w = (Ok (), ?w)"
    using False le s by (simp add: store_def)
  have "touches (words s i n) w ?w"
    unfolding touches_def
  proof (intro conjI allI impI)
    fix t :: u32 and b assume t: "unat t < nsegs w" "b < 8 * used w t" "(t, b div 8) \<notin> words s i n"
    then have "b < length (bmem w (unat t))" using wf_segment(1,3) [OF assms(1) t(1)] by simp
    then show "bmem ?w (unat t) ! b = bmem w (unat t) ! b"
      using t le assms(3,4) by (auto simp: bmem_set_mem nth_write_at words_def word_unat_eq_iff)
  qed (use le in \<open>auto simp: bmem_set_mem\<close>)
  moreover have "wf_builder ?w"
  proof (rule wf_set_mem [OF assms(1) s])
    fix b assume b: "used w s * 8 \<le> b" "b < length ?m"
    then have "off + length bs \<le> b" using assms(2,4) by (simp add: in_use_def)
    with b le show "?m ! b = 0" using wf_segment(5) [OF assms(1) s] by (simp add: nth_write_at)
  qed (use le in simp)
  ultimately have "builds (words s i n) w ?w" by (simp add: builds_def in_use_def)
  with run s show ?thesis by (auto simp: bmem_set_mem)
qed

lemma store_wp_run:
  assumes "wf_builder w" and "in_use w s i 1"
  shows "\<exists>w'. store_wp (at_word s i) x w = (Ok (), w') \<and> builds {(s, i)} w w' \<and> nsegs w' = nsegs w \<and> word_at w' s i = x"
proof -
  have hw: "has_words w s i 1" by (rule in_use_has_words [OF assms])
  obtain w' where w': "store (PAt s (int (8 * i))) (encode_wire_pointer x) w = (Ok (), w')" "builds (words s i 1) w w'"
      "nsegs w' = nsegs w" "bmem w' (unat s) = write_at (8 * i) (encode_wire_pointer x) (bmem w (unat s))"
    using store_run [OF assms, of "8 * i" "encode_wire_pointer x"] by auto
  have "take_at (8 * i) 8 (bmem w' (unat s)) = encode_wire_pointer x"
    using take_at_write_at_same [of "8 * i" "encode_wire_pointer x" "bmem w (unat s)"] hw w'(4) by (simp add: has_words_def)
  then have "word_at w' s i = x" by (simp add: word_at_def)
  moreover have "words s i 1 = {(s, i)}" by (auto simp: words_def)
  moreover have "store_wp (at_word s i) x w = (Ok (), w')" using w'(1) by (simp add: store_wp_def at_word_def mult.commute)
  ultimately show ?thesis using w' by metis
qed

lemma update_wp_run:
  assumes "wf_builder w" and "in_use w s i 1"
  shows "\<exists>w'. update_wp (at_word s i) f w = (Ok (), w') \<and> builds {(s, i)} w w' \<and> nsegs w' = nsegs w \<and>
    word_at w' s i = f (word_at w s i)"
  using store_wp_run [OF assms, of "f (word_at w s i)"] deref_wp_run [OF in_use_has_words [OF assms]]
  by (simp add: update_wp_def bindp_def)

lemma set_target_run:
  assumes "wf_builder w" and "in_use w s i 1" and "j \<le> 2 ^ 29"
  shows "\<exists>w'. set_target (at_word s i) k (at_word s j) w = (Ok (), w') \<and> builds {(s, i)} w w' \<and> nsegs w' = nsegs w \<and>
    kind (word_at w' s i) = k \<and> target_offset (word_at w' s i) = int j - int i \<and>
    upper32bits (word_at w' s i) = upper32bits (word_at w s i)"
proof -
  have "i < 2 ^ 29" using in_use_bound [OF assms(1,2)] by simp
  then have "target_offset (set_kind_and_target k (int i * 8) (int j * 8) (word_at w s i)) = int j - int i"
    using assms(3) by (intro target_offset_set_kind_and_target) auto
  then show ?thesis
    using update_wp_run [OF assms(1,2), of "set_kind_and_target k (int i * 8) (int j * 8)"]
    by (auto simp: set_target_def at_word_def)
qed

subsection \<open>Allocation\<close>

lemma on_builder_run: "m (w_builder w) = (r, b) \<Longrightarrow> on_builder m w = (r, w\<lparr>w_builder := b\<rparr>)"
  by (simp add: on_builder_def)

lemma fresh_builds:
  assumes wf: "wf_builder w" and f: "fresh (w_builder w) i idx n b'" and inv: "arena_inv b'"
  shows "builds {} w (w\<lparr>w_builder := b'\<rparr>)" "new_words w (w\<lparr>w_builder := b'\<rparr>) (of_nat i) idx n"
    "nsegs (w\<lparr>w_builder := b'\<rparr>) = nsegs w" "unat (of_nat i :: u32) = i"
proof -
  let ?w = "w\<lparr>w_builder := b'\<rparr>"
  let ?seg = "ba_segments (w_builder w) ! i"
  have i: "i < nsegs w" and segs: "ba_segments b' = (ba_segments (w_builder w))[i := ?seg\<lparr>allocated := idx + n\<rparr>]"
    and idx: "allocated ?seg = idx" "idx + n \<le> capacity ?seg" and alloc: "ba_allocator b' = ba_allocator (w_builder w)"
    and zero: "\<forall>x \<in> set (take_at (idx * 8) (n * 8) (bs_mem ?seg)). x = 0"
    using f by (auto simp: fresh_def nsegs_def)
  show n: "nsegs ?w = nsegs w" by (simp add: nsegs_def segs)
  have "i < 2 ^ 32" using i wf by (simp add: wf_builder_def)
  then show ui: "unat (of_nat i :: u32) = i" by (simp add: unat_of_nat)
  have mem: "bmem ?w k = bmem w k" if "k < nsegs w" for k
    using that by (cases "k = i") (simp_all add: bmem_def segs nsegs_def)
  have cap: "length (bs_mem ?seg) \<le> 2 ^ 32" using wf i by (simp add: wf_builder_def nsegs_def)
  have "set (ba_segments b') \<subseteq> insert (?seg\<lparr>allocated := idx + n\<rparr>) (set (ba_segments (w_builder w)))"
    by (simp add: segs set_update_subset_insert)
  then have "wf_builder ?w"
    using wf inv alloc cap n by (auto simp: wf_builder_def)
  moreover have us: "used ?w s = (if unat s = i then idx + n else used w s)" if "unat s < nsegs w" for s
    using that i by (simp add: used_def segs nth_list_update nsegs_def)
  moreover have "used w s = idx" if "unat s = i" for s using that idx by (simp add: used_def)
  ultimately show "builds {} w ?w"
    by (auto simp: builds_def touches_def n mem in_use_def)
  have len: "idx * 8 + n * 8 \<le> length (bmem w i)"
    using arena_inv_nth [of "w_builder w" i] wf i idx by (simp add: wf_builder_def nsegs_def segment_inv_def bmem_def)
  have "bmem w i ! b = 0" if "8 * idx \<le> b" "b < 8 * (idx + n)" for b
  proof -
    have "take_at (idx * 8) (n * 8) (bmem w i) ! (b - idx * 8) = bmem w i ! b"
      using that len by (simp add: nth_take_at)
    moreover have "take_at (idx * 8) (n * 8) (bmem w i) ! (b - idx * 8) \<in> set (take_at (idx * 8) (n * 8) (bmem w i))"
      using that len by (intro nth_mem) simp
    ultimately show ?thesis using zero by (simp add: bmem_def)
  qed
  then show "new_words w ?w (of_nat i) idx n"
    using us [of "of_nat i"] i idx by (simp add: new_words_def in_use_def ui n mem) (simp add: used_def ui)
qed

lemma allocate_in_run:
  assumes "wf_builder w" and "unat s < nsegs w"
  obtains (none) "on_builder (arena_allocate (unat s) n) w = (Ok None, w)" "capacity (ba_segments (w_builder w) ! unat s) < used w s + n"
  | (some) idx w' where "on_builder (arena_allocate (unat s) n) w = (Ok (Some idx), w')" "builds {} w w'"
      "new_words w w' s idx n" "nsegs w' = nsegs w"
proof -
  have inv: "arena_inv (w_builder w)" and s: "unat s < length (ba_segments (w_builder w))"
    using assms by (simp_all add: wf_builder_def nsegs_def)
  from inv s show ?thesis
  proof (cases rule: arena_allocate_cases [of "w_builder w" "unat s" n])
    case none
    then show ?thesis by (intro that(1)) (auto simp: on_builder_run used_def)
  next
    case (some b')
    from fresh_builds [OF assms(1) some(2,3)] on_builder_run [of "arena_allocate _ _", OF some(1)]
    show ?thesis by (intro that(2) [of _ "w\<lparr>w_builder := b'\<rparr>"]) auto
  qed
qed

lemma new_segment_run:
  assumes wf: "wf_builder w" and n: "n \<le> 2 ^ 29" and segs: "nsegs w < 2 ^ 32"
  obtains w1 where "on_builder (arena_allocate_segment n) w = (Ok (), w1)" "builds {} w w1"
    "nsegs w1 = Suc (nsegs w)" "n \<le> capacity (ba_segments (w_builder w1) ! nsegs w)"
    "allocated (ba_segments (w_builder w1) ! nsegs w) = 0"
proof -
  obtain h where h: "ba_allocator (w_builder w) = Some (Heap h)" "heap_ok h" "max_segment_words h \<le> 2 ^ 29"
    using wf by (auto simp: wf_builder_def)
  from heap_ok_allocate(1) [OF h(2)] obtain p bytes sz h'
    where a: "heap_allocate_segment n h = (Ok (p, bytes, sz), h')"
    by (metis prod.collapse)
  then have a': "allocate_segment n (Heap h) = (Ok (p, bytes, sz), Heap h')" by simp
  have h': "heap_ok h'" "max_segment_words h' = max_segment_words h" "sz = max n (next_size h)"
    using a heap_ok_allocate(2) [OF h(2), of n]
    by (auto simp: heap_allocate_segment_def Let_def split: allocation_strategy.splits if_splits)
  have ok: "allocator_ok (Heap h)" by simp
  let ?seg = "\<lparr>bs_ptr = p, bs_mem = bytes, capacity = sz, allocated = 0\<rparr>"
  let ?b = "(w_builder w)\<lparr>ba_allocator := Some (Heap h'), ba_segments := ba_segments (w_builder w) @ [?seg]\<rparr>"
  let ?w = "w\<lparr>w_builder := ?b\<rparr>"
  have run: "on_builder (arena_allocate_segment n) w = (Ok (), ?w)"
    by (simp add: on_builder_def arena_allocate_segment_def h(1) a)
  have "length bytes = 8 * sz"
    using a by (auto simp: heap_allocate_segment_def Let_def split: allocation_strategy.splits if_splits)
  then have sz: "length bytes \<le> 2 ^ 32" using h n h'(3) by (simp add: heap_ok_def)
  have "segment_inv ?seg"
    using dyn_alloc.block_size [OF ok a'] dyn_alloc.block_zero [OF ok a'] by (simp add: segment_inv_def)
  then have wf': "wf_builder ?w"
    using wf h' h(3) sz segs by (auto simp: wf_builder_def arena_inv_def nsegs_def)
  then have "builds {} w ?w"
    by (auto simp: builds_def touches_def nsegs_def bmem_def used_def in_use_def nth_append)
  then show ?thesis
    using run dyn_alloc.block_size [OF ok a'] by (intro that [of ?w]) (simp_all add: nsegs_def nth_append)
qed

lemma on_builder_bindp: "on_builder (bindp m f) = bindp (on_builder m) (\<lambda>x. on_builder (f x))"
  by (rule ext) (auto simp: on_builder_def bindp_def split: prod.splits outcome.splits)

lemma on_builder_simps [simp]: "on_builder (ret x) = ret x" "on_builder panic = panic"
  by (auto simp: on_builder_def ret_def panic_def)

lemma on_builder_seqp: "on_builder (seqp m n) = seqp (on_builder m) (on_builder n)"
  by (simp add: seqp_def on_builder_bindp)

lemma allocate_anywhere_run:
  assumes wf: "wf_builder w" and n: "n \<le> 2 ^ 29" and segs: "nsegs w < 2 ^ 32"
  obtains i idx w' where "on_builder (allocate_anywhere n) w = (Ok (i, idx), w')" "builds {} w w'"
    "new_words w w' (of_nat i) idx n" "i < nsegs w'" "unat (of_nat i :: u32) = i" "nsegs w' \<le> Suc (nsegs w)"
proof -
  have inv: "arena_inv (w_builder w)" using wf by (simp add: wf_builder_def)
  have len: "on_builder (gets (\<lambda>b. length (ba_segments b))) w = (Ok (nsegs w), w)"
    by (simp add: on_builder_def gets_def nsegs_def)
  have aw: "on_builder (allocate_anywhere n) w = bindp (on_builder (try_segments [0..<nsegs w] n))
      (\<lambda>r. case r of Some p \<Rightarrow> ret p | None \<Rightarrow> seqp (on_builder (arena_allocate_segment n))
        (bindp (on_builder (arena_allocate (nsegs w) n)) (\<lambda>r'. case r' of Some idx \<Rightarrow> ret (nsegs w, idx) | None \<Rightarrow> panic))) w"
    unfolding allocate_anywhere_def on_builder_bindp bindp_Ok [of "on_builder (gets _)", OF len]
    by (auto simp: on_builder_bindp on_builder_seqp option.case_distrib [of on_builder] cong: option.case_cong)
  from try_segments_result [OF inv, of "[0..<nsegs w]" n] consider
      (none) "try_segments [0..<nsegs w] n (w_builder w) = (Ok None, w_builder w)"
    | (some) i idx b' where "try_segments [0..<nsegs w] n (w_builder w) = (Ok (Some (i, idx)), b')"
        "fresh (w_builder w) i idx n b'" "arena_inv b'"
    by (auto simp: nsegs_def)
  then show ?thesis
  proof cases
    case some
    have "on_builder (allocate_anywhere n) w = (Ok (i, idx), w\<lparr>w_builder := b'\<rparr>)"
      unfolding aw bindp_Ok [of "on_builder _", OF on_builder_run [of "try_segments _ _", OF some(1)]] by (simp add: ret_def)
    then show ?thesis
      using fresh_builds [OF wf some(2,3)] some(2) by (intro that [of i idx]) (auto simp: fresh_def nsegs_def)
  next
    case none
    have tries: "on_builder (try_segments [0..<nsegs w] n) w = (Ok None, w)"
      using on_builder_run [of "try_segments _ _", OF none] by simp
    obtain w1 where w1: "on_builder (arena_allocate_segment n) w = (Ok (), w1)" "builds {} w w1"
      "nsegs w1 = Suc (nsegs w)" "n \<le> capacity (ba_segments (w_builder w1) ! nsegs w)"
      "allocated (ba_segments (w_builder w1) ! nsegs w) = 0"
      by (rule new_segment_run [OF wf n segs])
    have u: "unat (of_nat (nsegs w) :: u32) = nsegs w" using segs by (simp add: unat_of_nat)
    from allocate_in_run [OF builds_wf [OF w1(2)], of "of_nat (nsegs w)" n] w1(3-5) u
    obtain idx w2 where w2: "on_builder (arena_allocate (nsegs w) n) w1 = (Ok (Some idx), w2)" "builds {} w1 w2"
      "new_words w1 w2 (of_nat (nsegs w)) idx n" "nsegs w2 = nsegs w1"
      by (auto simp: used_def)
    have "on_builder (allocate_anywhere n) w = (Ok (nsegs w, idx), w2)"
      unfolding aw bindp_Ok [of "on_builder _", OF tries]
      by (simp add: seqp_Ok [of "on_builder _", OF w1(1)] bindp_Ok [of "on_builder _", OF w2(1)]) (simp add: ret_def)
    moreover have "builds {} w w2" using builds_trans [OF w1(2) w2(2)] by simp
    moreover have "new_words w w2 (of_nat (nsegs w)) idx n" using w2(3) u by (simp add: new_words_def)
    ultimately show ?thesis using w1(3) w2(4) u by (intro that [of "nsegs w" idx w2]) simp_all
  qed
qed

lemma new_words_sub: "new_words u v s i n \<Longrightarrow> i \<le> j \<Longrightarrow> j + m \<le> i + n \<Longrightarrow> new_words u v s j m"
  by (auto simp: new_words_def in_use_def)

lemma new_words_builds:
  assumes "new_words u v s i n" and "builds S v w" and "wf_builder v" and "words s i n \<inter> S = {}"
  shows "new_words u w s i n"
proof -
  have iu: "in_use v s i n" and zero: "\<And>b. 8 * i \<le> b \<Longrightarrow> b < 8 * (i + n) \<Longrightarrow> bmem v (unat s) ! b = 0"
    using assms(1) by (simp_all add: new_words_def)
  have hw: "has_words v s i n" by (rule in_use_has_words [OF assms(3) iu])
  have "bmem w (unat s) ! b = 0" if b: "8 * i \<le> b" "b < 8 * (i + n)" for b
  proof -
    have "(s, b div 8) \<in> words s i n" using b by (auto simp: words_def)
    then have "(s, b div 8) \<notin> S" using assms(4) by blast
    then show ?thesis
      using touches_byte [of S v w s b] assms(2) b iu zero [OF b] by (simp add: builds_def in_use_def)
  qed
  then show ?thesis using assms(1) builds_in_use [OF assms(2) iu] by (simp add: new_words_def)
qed

lemma new_words_before: "new_words v w t p n \<Longrightarrow> builds S u v \<Longrightarrow> new_words u w t p n"
  using builds_in_use [of S u v t 0 "used u t"] by (fastforce simp: new_words_def in_use_def)

text \<open>What is new is not what was in use.\<close>

lemma new_words_apart: "new_words u v s i n \<Longrightarrow> in_use u t j m \<Longrightarrow> words t j m \<inter> words s i n = {}"
  by (auto simp: new_words_def in_use_def words_def)

lemma words_1: "words s i 1 = {(s, i)}" "words s i (Suc 0) = {(s, i)}"
  by (auto simp: words_def)

end
