(* ===== verification/Layout_Alloc.thy ===== *)
theory Layout_Alloc
  imports Builder_Memory
begin

text \<open>
  Memory management of the message being built, the \<open>wire_helpers\<close> of
  \<^verbatim>\<open>capnp/src/private/layout.rs\<close>: \<open>allocate\<close>, \<open>follow_builder_fars\<close>, \<open>zero_object\<close>,
  \<open>zero_pointer_and_fars\<close> and \<open>transfer_pointer\<close>.

  Nothing here checks bounds: what is not well formed is undefined behaviour. \<open>zero_object\<close> recurses on the contents of the
  message; its depth argument is the stack it may use, and exhausting the stack counts as a panic.
\<close>

section \<open>Far pointers\<close>

definition follow_builder_fars :: "ptr \<Rightarrow> ptr \<Rightarrow> u32 \<Rightarrow> (world, ptr \<times> ptr \<times> u32) prog" where
  "follow_builder_fars reff ref_target segment_id =
     bindp (deref_wp ABuilder reff) (\<lambda>r.
     if kind r = KFar then
       let segment_id = far_segment_id r in
       bindp (get_segment_mut segment_id) (\<lambda>(seg_start, _).
       let pad = word_ptr seg_start (unat (far_position_in_segment r)) in
       bindp (deref_wp ABuilder pad) (\<lambda>x.
       if \<not> is_double_far r then
         ret (ptr_add pad (int BYTES_PER_WORD * target_offset x), pad, segment_id)
       else
         let reff = word_ptr pad 1; segment_id = far_segment_id x in
         bindp (get_segment_mut segment_id) (\<lambda>(segment_start, _).
         ret (word_ptr segment_start (unat (far_position_in_segment x)), reff, segment_id))))
     else ret (ref_target, reff, segment_id))"

section \<open>Zeroing objects\<close>

text \<open>
  The multiplication of the inline composite case is checked in \<open>u32\<close>, and so is the addition.
\<close>

function zero_object :: "nat \<Rightarrow> u32 \<Rightarrow> ptr \<Rightarrow> (world, unit) prog"
  and zero_object_helper :: "nat \<Rightarrow> u32 \<Rightarrow> ptr \<Rightarrow> ptr \<Rightarrow> (world, unit) prog" where
  "zero_object depth segment_id reff =
     (if depth = 0 then panic
      else
      bindp (deref_wp ABuilder reff) (\<lambda>r.
      if kind r = KFar then
        bindp (get_segment_mut (far_segment_id r)) (\<lambda>(seg_start, _).
        let pad = word_ptr seg_start (unat (far_position_in_segment r)) in
        if is_double_far r then
          bindp (deref_wp ABuilder pad) (\<lambda>x.
          bindp (get_segment_mut (far_segment_id x)) (\<lambda>(seg_start, _).
          let p = word_ptr seg_start (unat (far_position_in_segment x)) in
          seqp (zero_object_helper (depth - 1) (far_segment_id x) (word_ptr pad 1) p)
            (write_zeros pad (2 * BYTES_PER_WORD))))
        else
          seqp (zero_object (depth - 1) (far_segment_id r) pad) (write_zeros pad BYTES_PER_WORD))
      else zero_object_helper (depth - 1) segment_id reff
             (ptr_add reff (int BYTES_PER_WORD * target_offset r))))"
| "zero_object_helper depth segment_id tag p =
     (if depth = 0 then panic
      else
      bindp (deref_wp ABuilder tag) (\<lambda>r.
      case kind r of
        KOther \<Rightarrow> panic
      | KStruct \<Rightarrow>
          let pointer_section = word_ptr p (unat (struct_data_size r)) in
          seqp (foldp (\<lambda>i _. zero_object (depth - 1) segment_id (word_ptr pointer_section i))
                  [0..<unat (struct_ptr_count r)] ())
            (bindp (deref_wp ABuilder tag) (\<lambda>r. write_zeros p (struct_word_size r * BYTES_PER_WORD)))
      | KList \<Rightarrow> (case list_element_size r of
            Void \<Rightarrow> ret ()
          | Pointer \<Rightarrow>
              let count = unat (list_element_count r) in
              seqp (foldp (\<lambda>i _. zero_object (depth - 1) segment_id (word_ptr p i)) [0..<count] ())
                (write_zeros p (count * BYTES_PER_WORD))
          | InlineComposite \<Rightarrow>
              bindp (deref_wp ABuilder p) (\<lambda>element_tag.
              if kind element_tag \<noteq> KStruct then panic
              else
              let data_size = unat (struct_data_size element_tag);
                  pointer_count = unat (struct_ptr_count element_tag);
                  pos = word_ptr p 1;
                  count = unat (inline_composite_list_element_count element_tag) in
              seqp (if pointer_count > 0 then
                      foldp (\<lambda>_ pos.
                          foldp (\<lambda>_ pos. seqp (zero_object (depth - 1) segment_id pos) (ret (word_ptr pos 1)))
                            [0..<pointer_count] (word_ptr pos data_size))
                        [0..<count] pos
                    else ret pos)
                (bindp (deref_wp ABuilder p) (\<lambda>element_tag.
                 if struct_word_size element_tag * count + 1 \<ge> 2 ^ 32 then panic
                 else write_zeros p (BYTES_PER_WORD * (struct_word_size element_tag * count + 1)))))
          | _ \<Rightarrow> write_zeros p (BYTES_PER_WORD * round_bits_up_to_words
                   (unat (list_element_count r) * data_bits_per_element (list_element_size r))))
      | KFar \<Rightarrow> panic))"
  by pat_completeness auto
termination
  by (relation "measure (\<lambda>x. case x of Inl (d, s, r) \<Rightarrow> d | Inr (d, s, t, p) \<Rightarrow> d)") auto

declare zero_object.simps [simp del] zero_object_helper.simps [simp del]

definition zero_pointer_and_fars :: "u32 \<Rightarrow> ptr \<Rightarrow> (world, unit) prog" where
  "zero_pointer_and_fars segment_id reff =
     bindp (deref_wp ABuilder reff) (\<lambda>r.
     seqp (if kind r = KFar then
             bindp (get_segment_mut (far_segment_id r)) (\<lambda>(seg_start, _).
             let pad = word_ptr seg_start (unat (far_position_in_segment r));
                 num_elements = (if is_double_far r then 2 else 1) in
             write_zeros pad (num_elements * BYTES_PER_WORD))
           else ret ())
     (write_zeros reff BYTES_PER_WORD))"

section \<open>Allocation\<close>

text \<open>The part of \<open>allocate\<close> after the old object has been zeroed.\<close>

definition allocate_room :: "ptr \<Rightarrow> u32 \<Rightarrow> nat \<Rightarrow> wire_pointer_kind \<Rightarrow> (world, ptr \<times> ptr \<times> u32) prog" where
  "allocate_room reff segment_id amount k =
     (if amount = 0 \<and> k = KStruct then
        seqp (update_wp reff set_kind_and_target_for_empty_struct) (ret (reff, reff, segment_id))
      else
      bindp (on_builder (arena_allocate (unat segment_id) amount)) (\<lambda>idx. case idx of
        None \<Rightarrow>
          if amount + POINTER_SIZE_IN_WORDS \<ge> 2 ^ 32 then panic
          else
          bindp (on_builder (allocate_anywhere (amount + POINTER_SIZE_IN_WORDS))) (\<lambda>(sid, word_idx).
          let segment_id = of_nat sid in
          bindp (get_segment_mut segment_id) (\<lambda>(seg_start, _).
          let p = word_ptr seg_start word_idx in
          seqp (update_wp reff (set_far False (of_nat word_idx)))
          (seqp (update_wp reff (set_far_segment_id segment_id))
          (let reff = p; ptr1 = word_ptr p 1 in
          seqp (set_target reff k ptr1) (ret (ptr1, reff, segment_id))))))
      | Some idx \<Rightarrow>
          bindp (get_segment_mut segment_id) (\<lambda>(seg_start, _).
          let p = word_ptr seg_start idx in
          seqp (set_target reff k p) (ret (p, reff, segment_id)))))"

definition allocate :: "nat \<Rightarrow> ptr \<Rightarrow> u32 \<Rightarrow> nat \<Rightarrow> wire_pointer_kind \<Rightarrow> (world, ptr \<times> ptr \<times> u32) prog" where
  "allocate depth reff segment_id amount k =
     bindp (deref_wp ABuilder reff) (\<lambda>r.
     seqp (if \<not> wp_is_null r then zero_object depth segment_id reff else ret ())
       (allocate_room reff segment_id amount k))"

section \<open>Moving pointers\<close>

definition copy_upper :: "wire_pointer \<Rightarrow> wire_pointer \<Rightarrow> wire_pointer" where
  "copy_upper src dst = dst\<lparr>upper32bits := upper32bits src\<rparr>"

definition transfer_pointer_split :: "u32 \<Rightarrow> ptr \<Rightarrow> u32 \<Rightarrow> ptr \<Rightarrow> ptr \<Rightarrow> (world, unit) prog" where
  "transfer_pointer_split dst_segment_id dst src_segment_id src_tag src_ptr =
     bindp (deref_wp ABuilder src_tag) (\<lambda>tag.
     if dst_segment_id = src_segment_id then
       seqp (if kind tag = KStruct \<and> struct_word_size tag = 0
             then update_wp dst set_kind_and_target_for_empty_struct
             else set_target dst (kind tag) src_ptr)
         (update_wp dst (copy_upper tag))
     else
     bindp (on_builder (arena_allocate (unat src_segment_id) 1)) (\<lambda>r. case r of
       None \<Rightarrow>
         bindp (on_builder (allocate_anywhere 2)) (\<lambda>(far_sid, word_idx).
         let far_segment_id = of_nat far_sid in
         bindp (get_segment_mut far_segment_id) (\<lambda>(seg_start, _).
         let landing_pad = word_ptr seg_start word_idx in
         bindp (get_segment_mut src_segment_id) (\<lambda>(src_seg_start, _).
         case src_ptr of
           PAt s off \<Rightarrow>
             seqp (update_wp landing_pad (set_far False (word_of_int (off div int BYTES_PER_WORD))))
             (seqp (update_wp landing_pad (set_far_segment_id src_segment_id))
             (let landing_pad1 = word_ptr landing_pad 1 in
             seqp (update_wp landing_pad1 (set_kind_with_zero_offset (kind tag)))
             (seqp (update_wp landing_pad1 (copy_upper tag))
             (seqp (update_wp dst (set_far True (of_nat word_idx)))
             (update_wp dst (set_far_segment_id far_segment_id))))))
         | _ \<Rightarrow> ub)))
     | Some landing_pad_word \<Rightarrow>
         bindp (get_segment_mut src_segment_id) (\<lambda>(seg_start, seg_len).
         seqp (assertp (landing_pad_word < seg_len))
         (let landing_pad = word_ptr seg_start landing_pad_word in
         seqp (set_target landing_pad (kind tag) src_ptr)
         (seqp (update_wp landing_pad (copy_upper tag))
         (seqp (update_wp dst (set_far False (of_nat landing_pad_word)))
         (update_wp dst (set_far_segment_id src_segment_id))))))))"

definition transfer_pointer :: "u32 \<Rightarrow> ptr \<Rightarrow> u32 \<Rightarrow> ptr \<Rightarrow> (world, unit) prog" where
  "transfer_pointer dst_segment_id dst src_segment_id src =
     bindp (deref_wp ABuilder dst) (\<lambda>d.
     seqp (assertp (wp_is_null d))
     (bindp (deref_wp ABuilder src) (\<lambda>s.
     if wp_is_null s then write_zeros dst BYTES_PER_WORD
     else if is_positional s
     then transfer_pointer_split dst_segment_id dst src_segment_id src
            (ptr_add src (int BYTES_PER_WORD * target_offset s))
     else store_wp dst s)))"

section \<open>Object trees\<close>

text \<open>
  The words of an object itself and the positions of its pointers, by its tag and where it
  starts; \<open>None\<close> for what \<open>zero_object\<close> does not handle.
\<close>

definition object_layout :: "world \<Rightarrow> wire_pointer \<Rightarrow> u32 \<Rightarrow> int \<Rightarrow> (nat \<times> nat list) option" where
  "object_layout w r s j = (case kind r of
     KStruct \<Rightarrow> Some (struct_word_size r,
       map (\<lambda>k. nat j + unat (struct_data_size r) + k) [0..<unat (struct_ptr_count r)])
   | KList \<Rightarrow> (case list_element_size r of
       Void \<Rightarrow> Some (0, [])
     | Pointer \<Rightarrow> Some (unat (list_element_count r), map (\<lambda>k. nat j + k) [0..<unat (list_element_count r)])
     | InlineComposite \<Rightarrow>
         if j < 0 \<or> \<not> has_words w s (nat j) 1 then None
         else
         let t = word_at w s (nat j); count = unat (inline_composite_list_element_count t) in
         if kind t \<noteq> KStruct \<or> struct_word_size t * count + 1 \<ge> 2 ^ 32 then None
         else Some (struct_word_size t * count + 1,
           concat (map (\<lambda>e. map (\<lambda>k. nat j + 1 + e * struct_word_size t + unat (struct_data_size t) + k)
             [0..<unat (struct_ptr_count t)]) [0..<count]))
     | e \<Rightarrow> Some (round_bits_up_to_words (unat (list_element_count r) * data_bits_per_element e), []))
   | _ \<Rightarrow> None)"

text \<open>
  \<open>obj w s i F d\<close>: the pointer at word \<open>i\<close> of segment \<open>s\<close> is the root of a tree of objects whose
  words, landing pads included, are \<open>F\<close>, and whose depth is at most \<open>d\<close>; no two objects overlap.
  \<open>body w r s j F d\<close> is the same for an object with tag \<open>r\<close> that starts at word \<open>j\<close>.
\<close>

inductive obj :: "world \<Rightarrow> u32 \<Rightarrow> nat \<Rightarrow> (u32 \<times> nat) set \<Rightarrow> nat \<Rightarrow> bool"
  and body :: "world \<Rightarrow> wire_pointer \<Rightarrow> u32 \<Rightarrow> int \<Rightarrow> (u32 \<times> nat) set \<Rightarrow> nat \<Rightarrow> bool"
  for w :: world where
  direct: "has_words w s i 1 \<Longrightarrow> kind (word_at w s i) \<noteq> KFar \<Longrightarrow>
     body w (word_at w s i) s (int i + target_offset (word_at w s i)) F d \<Longrightarrow> (s, i) \<notin> F \<Longrightarrow>
     obj w s i F (Suc d)"
| far: "has_words w s i 1 \<Longrightarrow> kind (word_at w s i) = KFar \<Longrightarrow> \<not> is_double_far (word_at w s i) \<Longrightarrow>
     obj w (far_segment_id (word_at w s i)) (unat (far_position_in_segment (word_at w s i))) F d \<Longrightarrow>
     G = insert (far_segment_id (word_at w s i), unat (far_position_in_segment (word_at w s i))) F \<Longrightarrow>
     (s, i) \<notin> G \<Longrightarrow>
     obj w s i G (Suc d)"
| double: "has_words w s i 1 \<Longrightarrow> kind (word_at w s i) = KFar \<Longrightarrow> is_double_far (word_at w s i) \<Longrightarrow>
     fs = far_segment_id (word_at w s i) \<Longrightarrow> fp = unat (far_position_in_segment (word_at w s i)) \<Longrightarrow>
     has_words w fs fp 2 \<Longrightarrow> unat (far_segment_id (word_at w fs fp)) < nsegs w \<Longrightarrow>
     body w (word_at w fs (fp + 1)) (far_segment_id (word_at w fs fp))
       (int (unat (far_position_in_segment (word_at w fs fp)))) F d \<Longrightarrow>
     words fs fp 2 \<inter> F = {} \<Longrightarrow> (s, i) \<notin> words fs fp 2 \<union> F \<Longrightarrow>
     obj w s i (words fs fp 2 \<union> F) (Suc d)"
| body: "object_layout w r s j = Some (n, ps) \<Longrightarrow> n = 0 \<or> 0 \<le> j \<and> has_words w s (nat j) n \<Longrightarrow>
     (\<forall>p \<in> set ps. obj w s p (Fs p) d) \<Longrightarrow> distinct ps \<Longrightarrow> {s} \<times> set ps \<subseteq> words s (nat j) n \<Longrightarrow>
     (\<forall>p \<in> set ps. words s (nat j) n \<inter> Fs p = {}) \<Longrightarrow>
     (\<forall>p \<in> set ps. \<forall>q \<in> set ps. p \<noteq> q \<longrightarrow> Fs p \<inter> Fs q = {}) \<Longrightarrow>
     body w r s j (words s (nat j) n \<union> (\<Union>p \<in> set ps. Fs p)) (Suc d)"

inductive_cases objE: "obj w s i F d"
inductive_cases bodyE: "body w r s j F d"

lemma obj_has_words: "obj w s i F d \<Longrightarrow> has_words w s i 1"
  by (auto elim: objE)

lemma object_layout_zeroed:
  assumes "zeroed G w w'" and "object_layout w r s j = Some (n, ps)" and "G \<inter> words s (nat j) n = {}"
  shows "object_layout w' r s j = Some (n, ps)"
proof (cases "kind r = KList \<and> list_element_size r = InlineComposite")
  case True
  then have hw: "has_words w s (nat j) 1" and j: "\<not> j < 0" and "(s, nat j) \<in> words s (nat j) n"
    using assms(2) by (auto simp: object_layout_def Let_def words_def split: if_splits)
  then have "word_at w' s (nat j) = word_at w s (nat j)"
    using word_at_zeroed [OF assms(1) hw] assms(3) by auto
  moreover have "has_words w' s (nat j) 1" using hw has_words_zeroed [OF assms(1)] by blast
  ultimately show ?thesis using assms(2) True hw j by (simp add: object_layout_def)
next
  case False
  then show ?thesis using assms(2) by (auto simp: object_layout_def split: wire_pointer_kind.splits element_size.splits)
qed

text \<open>Zeroing words outside a tree leaves it as it is.\<close>

lemma obj_frame:
  "obj w s i F d \<Longrightarrow> zeroed G w w' \<Longrightarrow> G \<inter> insert (s, i) F = {} \<Longrightarrow> obj w' s i F d"
  "body w r s j F d \<Longrightarrow> zeroed G w w' \<Longrightarrow> G \<inter> F = {} \<Longrightarrow> body w' r s j F d"
proof (induction rule: obj_body.inducts)
  case (direct s i F d)
  note z = direct(6)
  have "word_at w' s i = word_at w s i" using word_at_zeroed [OF z, of s i] direct by auto
  with direct show ?case using has_words_zeroed [OF z]
    by (intro obj_body.direct) auto
next
  case (far s i F d G')
  note z = far(8)
  have w: "word_at w' s i = word_at w s i" using word_at_zeroed [OF z, of s i] far by auto
  have "obj w' (far_segment_id (word_at w' s i)) (unat (far_position_in_segment (word_at w' s i))) F d"
    unfolding w using far by auto
  then show ?case
    using far has_words_zeroed [OF z] by (intro obj_body.far) (simp_all add: w)
next
  case (double s i fs fp F d)
  note z = double(12)
  have w: "word_at w' s i = word_at w s i" using word_at_zeroed [OF z, of s i] double by auto
  have p: "word_at w' fs k = word_at w fs k" if "k = fp \<or> k = fp + 1" for k
  proof -
    have "(fs, k) \<in> words fs fp 2" using that by (auto simp: words_def)
    then have "(fs, k) \<notin> G" using double(13) by blast
    moreover have "has_words w fs k 1" by (rule has_words_sub [OF double(6)]) (use that in auto)
    ultimately show ?thesis using word_at_zeroed [OF z, of fs k] by simp
  qed
  have "body w' (word_at w fs (fp + 1)) (far_segment_id (word_at w fs fp))
      (int (unat (far_position_in_segment (word_at w fs fp)))) F d"
    by (rule double(9) [OF z]) (use double(13) in blast)
  then have "body w' (word_at w' fs (fp + 1)) (far_segment_id (word_at w' fs fp))
      (int (unat (far_position_in_segment (word_at w' fs fp)))) F d"
    using p [of fp] p [of "fp + 1"] by simp
  moreover have "has_words w' s i 1" "has_words w' fs fp 2" "unat (far_segment_id (word_at w' fs fp)) < nsegs w'"
    using double(1,6,7) has_words_zeroed [OF z] zeroed_nsegs [OF z] p [of fp] by simp_all
  ultimately show ?case
    using double(2-5,10,11) by (intro obj_body.double [of w' s i fs fp F d]) (simp_all only: w not_False_eq_True)
next
  case (body r s j n ps Fs d)
  note z = body(8) and disjoint = body(9)
  have lay: "object_layout w' r s j = Some (n, ps)"
    by (rule object_layout_zeroed [OF z body(1)]) (use disjoint in auto)
  have "\<forall>p \<in> set ps. obj w' s p (Fs p) d"
  proof
    fix p assume p: "p \<in> set ps"
    then have "(s, p) \<in> words s (nat j) n" using body(5) by auto
    then have "G \<inter> insert (s, p) (Fs p) = {}" using disjoint p by auto
    then show "obj w' s p (Fs p) d" using body(3) p z by auto
  qed
  then show ?case
    using body lay has_words_zeroed [OF z] by (intro obj_body.body) auto
qed

section \<open>zero_object zeroes a tree\<close>

lemma foldp_map: "foldp f (map g xs) acc = foldp (\<lambda>x. f (g x)) xs acc"
  by (induction xs arbitrary: acc) simp_all

lemma seqp_assoc: "seqp (seqp a b) c = seqp a (seqp b c)"
  by (simp add: seqp_def bindp_assoc)

lemma seqp2_Ok: "seqp a b s = (Ok x, t) \<Longrightarrow> seqp a (seqp b c) s = c t"
  by (simp add: seqp_assoc [symmetric] seqp_Ok)

lemma foldp_unit_append: "foldp (\<lambda>x _. f x) (xs @ ys) () = seqp (foldp (\<lambda>x _. f x) xs ()) (foldp (\<lambda>x _. f x) ys ())"
proof -
  have "foldp (\<lambda>x _. f x) ys = (\<lambda>_. foldp (\<lambda>x _. f x) ys ())" by (rule ext) simp
  then show ?thesis by (metis foldp_append seqp_def)
qed

text \<open>The loops that move a position, as loops over the positions.\<close>

lemma inner_loop:
  "foldp (\<lambda>_ pos. seqp (Z pos) (ret (word_ptr pos 1))) [0..<n] (at_word s a) =
   seqp (foldp (\<lambda>p _. Z (at_word s p)) (map (\<lambda>k. a + k) [0..<n]) ()) (ret (at_word s (a + n)))"
proof (induction n)
  case 0
  then show ?case by (simp add: seqp_def)
next
  case (Suc n)
  then show ?case
    by (simp add: foldp_snoc foldp_unit_append foldp_map seqp_def bindp_assoc)
qed

lemma outer_loop:
  "foldp (\<lambda>_ pos. foldp (\<lambda>_ pos. seqp (Z pos) (ret (word_ptr pos 1))) [0..<pc] (word_ptr pos ds)) [0..<c] (at_word s a) =
   seqp (foldp (\<lambda>p _. Z (at_word s p)) (concat (map (\<lambda>e. map (\<lambda>k. a + e * (ds + pc) + ds + k) [0..<pc]) [0..<c])) ())
     (ret (at_word s (a + c * (ds + pc))))"
proof (induction c)
  case 0
  then show ?case by (simp add: seqp_def)
next
  case (Suc c)
  have "a + c * (ds + pc) + ds + pc = a + Suc c * (ds + pc)" by simp
  then show ?case
    using Suc inner_loop [of Z pc s "a + c * (ds + pc) + ds"]
    by (simp add: foldp_snoc foldp_unit_append seqp_assoc) (simp add: seqp_def bindp_assoc ac_simps)
qed

lemma zero_children:
  assumes A: "\<And>w p F. obj w s p F d \<Longrightarrow> nsegs w \<le> 2 ^ 32 \<Longrightarrow>
      \<exists>w'. Z (at_word s p) w = (Ok (), w') \<and> zeroed F w w'"
    and "\<forall>p \<in> set ps. obj w s p (Fs p) d" and "distinct ps" and "nsegs w \<le> 2 ^ 32"
    and "\<forall>p \<in> set ps. \<forall>q \<in> set ps. (s, q) \<notin> Fs p \<and> (p \<noteq> q \<longrightarrow> Fs p \<inter> Fs q = {})"
  shows "\<exists>w'. foldp (\<lambda>p _. Z (at_word s p)) ps () w = (Ok (), w') \<and> zeroed (\<Union>p \<in> set ps. Fs p) w w'"
  using assms(2-)
proof (induction ps arbitrary: w)
  case Nil
  then show ?case by (simp add: ret_def zeroed_refl)
next
  case (Cons p ps)
  obtain w1 where w1: "Z (at_word s p) w = (Ok (), w1)" "zeroed (Fs p) w w1"
    using A [of w p "Fs p"] Cons.prems by auto
  have "\<forall>q \<in> set ps. obj w1 s q (Fs q) d"
  proof
    fix q assume q: "q \<in> set ps"
    with Cons.prems(2) have "p \<noteq> q" by auto
    then have "Fs p \<inter> insert (s, q) (Fs q) = {}" using Cons.prems(4) q by simp
    then show "obj w1 s q (Fs q) d" using obj_frame(1) [OF _ w1(2)] Cons.prems(1) q by simp
  qed
  then obtain w2 where "foldp (\<lambda>p _. Z (at_word s p)) ps () w1 = (Ok (), w2)" "zeroed (\<Union>p \<in> set ps. Fs p) w1 w2"
    using Cons.IH [of w1] Cons.prems zeroed_nsegs [OF w1(2)] by auto
  with w1 zeroed_trans [OF w1(2)] show ?case by (auto simp: bindp_def)
qed

lemma write_zeros_int:
  assumes "n = 0 \<or> 0 \<le> j \<and> has_words w s (nat j) n" and "nsegs w \<le> 2 ^ 32" and "m = n * 8"
  shows "\<exists>w'. write_zeros (PAt s (j * 8)) m w = (Ok (), w') \<and> zeroed (words s (nat j) n) w w'"
proof (cases "n = 0")
  case True
  then show ?thesis using zeroed_refl [OF assms(2)]
    by (intro exI [of _ w]) (simp add: write_zeros_def store_def words_def assms(3))
next
  case False
  with assms(1) have "PAt s (j * 8) = at_word s (nat j)" "has_words w s (nat j) n" by (auto simp: at_word_def)
  then show ?thesis using write_zeros_run [of n w s "nat j"] assms(2,3) by simp
qed

lemma helper_run:
  assumes A: "\<And>w p F. obj w s p F d \<Longrightarrow> nsegs w \<le> 2 ^ 32 \<Longrightarrow>
      \<exists>w'. zero_object D s (at_word s p) w = (Ok (), w') \<and> zeroed F w w'"
    and lay: "object_layout w r s j = Some (n, ps)" and n: "n = 0 \<or> 0 \<le> j \<and> has_words w s (nat j) n"
    and objs: "\<forall>p \<in> set ps. obj w s p (Fs p) d" and ps: "distinct ps" "{s} \<times> set ps \<subseteq> words s (nat j) n"
    and own: "\<forall>p \<in> set ps. words s (nat j) n \<inter> Fs p = {}"
    and apart: "\<forall>p \<in> set ps. \<forall>q \<in> set ps. p \<noteq> q \<longrightarrow> Fs p \<inter> Fs q = {}"
    and tag: "has_words w ts ti 1" "word_at w ts ti = r" "(ts, ti) \<notin> (\<Union>p \<in> set ps. Fs p)"
    and w: "nsegs w \<le> 2 ^ 32"
  shows "\<exists>w'. zero_object_helper (Suc D) s (at_word ts ti) (PAt s (j * 8)) w = (Ok (), w') \<and>
    zeroed (words s (nat j) n \<union> (\<Union>p \<in> set ps. Fs p)) w w'"
proof -
  let ?G = "\<Union>p \<in> set ps. Fs p"
  have pos: "\<forall>p \<in> set ps. \<forall>q \<in> set ps. (s, q) \<notin> Fs p \<and> (p \<noteq> q \<longrightarrow> Fs p \<inter> Fs q = {})"
    using ps(2) own apart by blast
  obtain w1 where w1: "foldp (\<lambda>p _. zero_object D s (at_word s p)) ps () w = (Ok (), w1)" "zeroed ?G w w1"
    using zero_children [where Z = "zero_object D s" and Fs = Fs, OF A objs ps(1) w pos] by blast
  have w1n: "nsegs w1 \<le> 2 ^ 32" using zeroed_nsegs [OF w1(2)] w by simp
  obtain w2 where w2: "write_zeros (PAt s (j * 8)) (n * 8) w1 = (Ok (), w2)" "zeroed (words s (nat j) n) w1 w2"
    using write_zeros_int [of n j w1 s "n * 8"] n has_words_zeroed [OF w1(2)] w1n by auto
  have z: "zeroed (words s (nat j) n \<union> ?G) w w2"
    using zeroed_trans [OF w1(2) w2(2)] by (simp add: Un_commute)
  have tag1: "deref_wp ABuilder (at_word ts ti) w1 = (Ok r, w1)"
    using deref_wp_run [of w1 ts ti] has_words_zeroed [OF w1(2)] word_at_zeroed [OF w1(2) tag(1)] tag by simp
  have run: "zero_object_helper (Suc D) s (at_word ts ti) (PAt s (j * 8)) w = (Ok (), w2)"
  proof -
    have tag0: "deref_wp ABuilder (at_word ts ti) w = (Ok r, w)" using deref_wp_run [OF tag(1)] tag(2) by simp
    have p: "c = 0 \<or> 0 \<le> j \<Longrightarrow> foldp (\<lambda>i _. zero_object D s (word_ptr (word_ptr (PAt s (j * 8)) a) i)) [0..<c] () =
        foldp (\<lambda>p _. zero_object D s (at_word s p)) (map (\<lambda>k. nat j + a + k) [0..<c]) ()" for a c
    proof (cases "c = 0")
      case False
      assume "c = 0 \<or> 0 \<le> j"
      with False have "PAt s (j * 8) = at_word s (nat j)" by (simp add: at_word_def)
      then show ?thesis by (simp add: foldp_map)
    qed simp
    show ?thesis
    proof (cases "kind r")
      case KStruct
      then have l: "n = struct_word_size r" "ps = map (\<lambda>k. nat j + unat (struct_data_size r) + k) [0..<unat (struct_ptr_count r)]"
        using lay by (auto simp: object_layout_def)
      have c: "unat (struct_ptr_count r) = 0 \<or> 0 \<le> j" using n l(1) by (auto simp: struct_word_size_def)
      show ?thesis
        using KStruct w2(1) by (subst zero_object_helper.simps)
          (simp add: bindp_Ok [of "deref_wp _ _", OF tag0] p [OF c] l(2) [symmetric] seqp_Ok [of "foldp _ _ _", OF w1(1)]
            bindp_Ok [of "deref_wp _ _", OF tag1] l(1))
    next
      case KList
      consider "list_element_size r = Void" | "list_element_size r = Pointer" | "list_element_size r = InlineComposite"
        | "list_element_size r \<notin> {Void, Pointer, InlineComposite}" by auto
      then show ?thesis
      proof cases
        case 1
        then have "n = 0" "ps = []" using lay KList by (auto simp: object_layout_def)
        then have "w1 = w" "w2 = w1" using w1 w2 by (auto simp: ret_def write_zeros_def store_def)
        then show ?thesis using KList 1 by (subst zero_object_helper.simps)
          (simp add: bindp_Ok [of "deref_wp _ _", OF tag0] ret_def)
      next
        case 2
        then have l: "n = unat (list_element_count r)" "ps = map (\<lambda>k. nat j + 0 + k) [0..<unat (list_element_count r)]"
          using lay KList by (auto simp: object_layout_def)
        have c: "unat (list_element_count r) = 0 \<or> 0 \<le> j" using n l(1) by auto
        have p0: "word_ptr (PAt s (j * 8)) 0 = PAt s (j * 8)" by (simp add: word_ptr_def ptr_add.simps)
        have w1': "foldp (\<lambda>p _. zero_object D s (at_word s p)) (map (\<lambda>k. nat j + k) [0..<unat (list_element_count r)]) () w = (Ok (), w1)"
          using w1(1) l(2) by simp
        show ?thesis
          using KList 2 w2(1) p [OF c, of 0] l(1) by (subst zero_object_helper.simps)
            (simp add: bindp_Ok [of "deref_wp _ _", OF tag0] p0 Let_def seqp_Ok [of "foldp _ _ _", OF w1'])
      next
        case 3
        let ?t = "word_at w s (nat j)"
        let ?count = "unat (inline_composite_list_element_count ?t)" and ?ds = "unat (struct_data_size ?t)"
        have j: "0 \<le> j" "has_words w s (nat j) 1" and t: "kind ?t = KStruct" "struct_word_size ?t * ?count + 1 < 2 ^ 32"
          and l: "n = struct_word_size ?t * ?count + 1"
          "ps = concat (map (\<lambda>e. map (\<lambda>k. nat j + 1 + e * struct_word_size ?t + ?ds + k)
             [0..<unat (struct_ptr_count ?t)]) [0..<?count])"
          using lay KList 3 by (auto simp: object_layout_def Let_def simp del: add_Suc_right add_Suc One_nat_def split: if_splits)
        have pj: "PAt s (j * 8) = at_word s (nat j)" using j by (simp add: at_word_def)
        have "(s, nat j) \<notin> ?G" using own l(1) by (fastforce simp: words_def)
        then have t1: "deref_wp ABuilder (at_word s (nat j)) w1 = (Ok ?t, w1)"
          using deref_wp_run [of w1 s "nat j"] has_words_zeroed [OF w1(2)] word_at_zeroed [OF w1(2) j(2)] j(2) by simp
        have size: "struct_word_size ?t = ?ds + unat (struct_ptr_count ?t)" by (simp add: struct_word_size_def)
        have loop: "foldp (\<lambda>_ pos. foldp (\<lambda>_ pos. seqp (zero_object D s pos) (ret (word_ptr pos 1)))
              [0..<unat (struct_ptr_count ?t)] (word_ptr pos ?ds)) [0..<?count] (at_word s (nat j + 1)) w =
            (Ok (at_word s (nat j + 1 + ?count * struct_word_size ?t)), w1)"
          unfolding outer_loop size [symmetric] l(2) [symmetric] seqp_Ok [of "foldp _ _ _", OF w1(1)] by (simp add: ret_def)
        have "\<exists>x. (if 0 < unat (struct_ptr_count ?t) then foldp (\<lambda>_ pos. foldp (\<lambda>_ pos. seqp (zero_object D s pos) (ret (word_ptr pos 1)))
              [0..<unat (struct_ptr_count ?t)] (word_ptr pos ?ds)) [0..<?count] (at_word s (nat j + 1)) else ret (at_word s (nat j + 1))) w =
            (Ok x, w1)"
        proof (cases "0 < unat (struct_ptr_count ?t)")
          case True
          with loop show ?thesis by auto
        next
          case False
          then have "ps = []" by (simp add: l(2))
          with w1(1) False show ?thesis by (auto simp: ret_def)
        qed
        then obtain x where x: "(if 0 < unat (struct_ptr_count ?t) then foldp (\<lambda>_ pos. foldp (\<lambda>_ pos. seqp (zero_object D s pos) (ret (word_ptr pos 1)))
              [0..<unat (struct_ptr_count ?t)] (word_ptr pos ?ds)) [0..<?count] (at_word s (nat j + 1)) else ret (at_word s (nat j + 1))) w =
            (Ok x, w1)" ..
        have wz: "write_zeros (at_word s (nat j)) (8 * (struct_word_size ?t * ?count + 1)) w1 = (Ok (), w2)"
          using w2(1) by (simp only: l(1) pj mult.commute)
        have t2: "\<not> 2 ^ 32 \<le> struct_word_size ?t * ?count + 1" using t(2) by (simp only: not_le)
        show ?thesis
          unfolding zero_object_helper.simps [of "Suc D"] pj
          using KList 3 t(1) t2 wz
          by (simp only: simp_thms nat.distinct if_False bindp_Ok [of "deref_wp _ _", OF tag0] bindp_Ok [of "deref_wp _ _", OF deref_wp_run [OF j(2)]]
              wire_pointer_kind.case element_size.case diff_Suc_1 Let_def not_True_eq_False word_ptr_at_word seqp_Ok [of "if _ then _ else _", OF x]
              bindp_Ok [of "deref_wp _ _", OF t1] BYTES_PER_WORD_def)
      next
        case 4
        then have l: "n = round_bits_up_to_words (unat (list_element_count r) * data_bits_per_element (list_element_size r))" "ps = []"
          using lay KList by (auto simp: object_layout_def split: element_size.splits)
        have "w1 = w" using w1(1) l(2) by (simp add: ret_def)
        then have "write_zeros (PAt s (j * 8)) (8 * n) w = (Ok (), w2)" using w2(1) by (simp add: mult.commute)
        with KList 4 l(1) show ?thesis by (subst zero_object_helper.simps)
          (auto simp: bindp_Ok [of "deref_wp _ _", OF tag0] split: element_size.split)
      qed
    qed (use lay in \<open>auto simp: object_layout_def\<close>)
  qed
  with z show ?thesis by blast
qed


lemma zero_tree:
  "(\<forall>w s i F D. obj w s i F d \<and> nsegs w \<le> 2 ^ 32 \<and> d \<le> D \<longrightarrow>
     (\<exists>w'. zero_object D s (at_word s i) w = (Ok (), w') \<and> zeroed F w w')) \<and>
   (\<forall>w r s j F ts ti D. body w r s j F d \<and> nsegs w \<le> 2 ^ 32 \<and> d \<le> D \<and> has_words w ts ti 1 \<and>
      word_at w ts ti = r \<and> (ts, ti) \<notin> F \<longrightarrow>
     (\<exists>w'. zero_object_helper D s (at_word ts ti) (PAt s (j * 8)) w = (Ok (), w') \<and> zeroed F w w'))"
proof (induction d)
  case 0
  then show ?case by (auto elim: objE bodyE)
next
  case (Suc d)
  have object: "\<exists>w'. zero_object (Suc D) s (at_word s i) w = (Ok (), w') \<and> zeroed F w w'"
    if "obj w s i F (Suc d)" and n: "nsegs w \<le> 2 ^ 32" and D: "d \<le> D" for w s i F D
    using that(1)
  proof (cases rule: obj.cases)
    case direct
    then have b: "body w (word_at w s i) s (int i + target_offset (word_at w s i)) F d" and hw: "has_words w s i 1" by simp_all
    have "ptr_add (at_word s i) (8 * target_offset (word_at w s i)) = PAt s ((int i + target_offset (word_at w s i)) * 8)"
      by (simp add: at_word_def ptr_add.simps)
    moreover obtain w' where "zero_object_helper D s (at_word s i) (PAt s ((int i + target_offset (word_at w s i)) * 8)) w = (Ok (), w')"
        "zeroed F w w'"
      using Suc.IH b hw direct(4) n D by blast
    ultimately show ?thesis
      using direct(2) by (subst zero_object.simps) (simp add: bindp_Ok [of "deref_wp _ _", OF deref_wp_run [OF hw]])
  next
    case (far G)
    then have hw: "has_words w s i 1" and sub: "obj w (far_segment_id (word_at w s i)) (unat (far_position_in_segment (word_at w s i))) G d"
      and "F = insert (far_segment_id (word_at w s i), unat (far_position_in_segment (word_at w s i))) G" by simp_all
    let ?fs = "far_segment_id (word_at w s i)" and ?fp = "unat (far_position_in_segment (word_at w s i))"
    have pad: "has_words w ?fs ?fp 1" by (rule obj_has_words [OF sub])
    then have seg: "unat ?fs < nsegs w" by (simp add: has_words_def)
    obtain w1 where w1: "zero_object D ?fs (at_word ?fs ?fp) w = (Ok (), w1)" "zeroed G w w1"
      using Suc.IH sub n D by blast
    obtain w2 where w2: "write_zeros (at_word ?fs ?fp) (1 * 8) w1 = (Ok (), w2)" "zeroed (words ?fs ?fp 1) w1 w2"
      using write_zeros_run [of 1 w1 ?fs ?fp] pad has_words_zeroed [OF w1(2)] zeroed_nsegs [OF w1(2)] n by auto
    have "F = G \<union> words ?fs ?fp 1" using \<open>F = _\<close> by (auto simp: words_def)
    then have "zeroed F w w2" using zeroed_trans [OF w1(2) w2(2)] by simp
    moreover have "zero_object (Suc D) s (at_word s i) w = (Ok (), w2)"
      using far(2,3) w2(1) by (subst zero_object.simps)
        (simp add: bindp_Ok [of "deref_wp _ _", OF deref_wp_run [OF hw]] Let_def
          bindp_Ok [of "get_segment_mut _", OF get_segment_mut_run [OF seg]] seqp_Ok [of "zero_object _ _ _", OF w1(1)])
    ultimately show ?thesis by blast
  next
    case (double fs fp G)
    then have hw: "has_words w s i 1" and pad2: "has_words w fs fp 2" and F: "F = words fs fp 2 \<union> G" "words fs fp 2 \<inter> G = {}"
      and tseg: "unat (far_segment_id (word_at w fs fp)) < nsegs w"
      and b: "body w (word_at w fs (fp + 1)) (far_segment_id (word_at w fs fp)) (int (unat (far_position_in_segment (word_at w fs fp)))) G d"
      by simp_all
    let ?x = "word_at w fs fp"
    let ?ts = "far_segment_id ?x" and ?tp = "unat (far_position_in_segment ?x)"
    have seg: "unat fs < nsegs w" using pad2 by (simp add: has_words_def)
    have pad: "has_words w fs fp 1" "has_words w fs (fp + 1) 1" using has_words_sub [OF pad2] by auto
    have "(fs, fp + 1) \<in> words fs fp 2" by (simp add: words_def)
    with F(2) have "(fs, fp + 1) \<notin> G" by blast
    then obtain w1 where w1: "zero_object_helper D ?ts (at_word fs (fp + 1)) (PAt ?ts (int ?tp * 8)) w = (Ok (), w1)" "zeroed G w w1"
      using Suc.IH b n D pad(2) by blast
    have w1': "zero_object_helper D ?ts (at_word fs (Suc fp)) (at_word ?ts ?tp) w = (Ok (), w1)"
      using w1(1) by (simp add: at_word_def)
    obtain w2 where w2: "write_zeros (at_word fs fp) (2 * 8) w1 = (Ok (), w2)" "zeroed (words fs fp 2) w1 w2"
      using write_zeros_run [of 2 w1 fs fp] pad2 has_words_zeroed [OF w1(2)] zeroed_nsegs [OF w1(2)] n by auto
    have "zeroed F w w2" using zeroed_trans [OF w1(2) w2(2)] F(1) by (simp add: Un_commute)
    moreover have "zero_object (Suc D) s (at_word s i) w = (Ok (), w2)"
      using double(3,4) double(5,6) [symmetric] w2(1) by (subst zero_object.simps)
        (simp add: bindp_Ok [of "deref_wp _ _", OF deref_wp_run [OF hw]] Let_def
          bindp_Ok [of "deref_wp _ _", OF deref_wp_run [OF pad(1)]]
          bindp_Ok [of "get_segment_mut _", OF get_segment_mut_run [OF seg]]
          bindp_Ok [of "get_segment_mut _", OF get_segment_mut_run [OF tseg]] seqp_Ok [of "zero_object_helper _ _ _ _", OF w1'])
    ultimately show ?thesis by blast
  qed
  have helper: "\<exists>w'. zero_object_helper (Suc D) s (at_word ts ti) (PAt s (j * 8)) w = (Ok (), w') \<and> zeroed F w w'"
    if b: "body w r s j F (Suc d)" and n: "nsegs w \<le> 2 ^ 32" and D: "d \<le> D"
      and tag: "has_words w ts ti 1" "word_at w ts ti = r" "(ts, ti) \<notin> F" for w r s j F ts ti D
    using b
  proof (cases rule: body.cases)
    case (body n ps Fs)
    then have objs: "\<forall>p \<in> set ps. obj w s p (Fs p) d" by simp
    have A: "\<And>w p F. obj w s p F d \<Longrightarrow> nsegs w \<le> 2 ^ 32 \<Longrightarrow>
        \<exists>w'. zero_object D s (at_word s p) w = (Ok (), w') \<and> zeroed F w w'"
      using Suc.IH D by blast
    have tag': "(ts, ti) \<notin> (\<Union>p \<in> set ps. Fs p)" using tag(3) body(1) by simp
    show ?thesis
      unfolding body(1)
      by (rule helper_run [where d = d, OF _ body(2,3) objs body(5,6,7,8) tag(1,2) tag' n]) (rule A)
  qed
  show ?case
  proof (intro conjI allI impI)
    fix w s i F D assume "obj w s i F (Suc d) \<and> nsegs w \<le> 2 ^ 32 \<and> Suc d \<le> D"
    then show "\<exists>w'. zero_object D s (at_word s i) w = (Ok (), w') \<and> zeroed F w w'"
      using object by (cases D) auto
  next
    fix w r s j F ts ti D
    assume "body w r s j F (Suc d) \<and> nsegs w \<le> 2 ^ 32 \<and> Suc d \<le> D \<and> has_words w ts ti 1 \<and>
      word_at w ts ti = r \<and> (ts, ti) \<notin> F"
    then show "\<exists>w'. zero_object_helper D s (at_word ts ti) (PAt s (j * 8)) w = (Ok (), w') \<and> zeroed F w w'"
      using helper by (cases D) auto
  qed
qed

section \<open>Where a pointer leads\<close>

text \<open>
  The start of the object that the pointer at word \<open>i\<close> of segment \<open>s\<close> refers to, and the place of
  the tag that describes it.
\<close>

definition locate :: "world \<Rightarrow> u32 \<Rightarrow> nat \<Rightarrow> (u32 \<times> int) \<times> (u32 \<times> nat)" where
  "locate w s i =
     (let r = word_at w s i in
      if kind r = KFar then
        let fs = far_segment_id r; fp = unat (far_position_in_segment r); x = word_at w fs fp in
        if \<not> is_double_far r then ((fs, int fp + target_offset x), (fs, fp))
        else ((far_segment_id x, int (unat (far_position_in_segment x))), (fs, fp + 1))
      else ((s, int i + target_offset r), (s, i)))"

text \<open>The landing pad of a far pointer lies in the message.\<close>

definition pad_ok :: "world \<Rightarrow> u32 \<Rightarrow> nat \<Rightarrow> bool" where
  "pad_ok w s i \<longleftrightarrow>
     (let r = word_at w s i; fs = far_segment_id r; fp = unat (far_position_in_segment r) in
      kind r = KFar \<longrightarrow> in_use w fs fp (if is_double_far r then 2 else 1) \<and>
        (is_double_far r \<longrightarrow> unat (far_segment_id (word_at w fs fp)) < nsegs w))"

lemma follow_locate:
  assumes "wf_builder w" and "in_use w s i 1" and "pad_ok w s i" and "locate w s i = ((t, p), (ts, ti))"
  shows "follow_builder_fars (at_word s i) (ptr_add (at_word s i) (8 * target_offset (word_at w s i))) s w =
    (Ok (PAt t (p * 8), at_word ts ti, t), w)"
proof -
  let ?r = "word_at w s i"
  let ?fs = "far_segment_id ?r" and ?fp = "unat (far_position_in_segment ?r)"
  note root = bindp_Ok [of "deref_wp _ _", OF deref_wp_run [OF in_use_has_words [OF assms(1,2)]]]
  show ?thesis
  proof (cases "kind ?r = KFar")
    case False
    then have loc: "t = s" "ts = s" "ti = i" "p = int i + target_offset ?r"
      using assms(4) by (auto simp: locate_def Let_def)
    show ?thesis
      using False unfolding loc by (simp add: follow_builder_fars_def root ret_def)
        (simp add: at_word_def ptr_add.simps algebra_simps)
  next
    case True
    then have pad: "in_use w ?fs ?fp 1" "unat ?fs < nsegs w"
      using assms(3) by (auto simp: pad_ok_def Let_def in_use_def split: if_splits)
    note seg = bindp_Ok [of "get_segment_mut _", OF get_segment_mut_run [OF pad(2)]]
    note pad_word = bindp_Ok [of "deref_wp _ _", OF deref_wp_run [OF in_use_has_words [OF assms(1) pad(1)]]]
    show ?thesis
    proof (cases "is_double_far ?r")
      case False
      then have loc: "t = ?fs" "ts = ?fs" "ti = ?fp" "p = int ?fp + target_offset (word_at w ?fs ?fp)"
        using True assms(4) by (auto simp: locate_def Let_def)
      show ?thesis
        using True False unfolding loc by (simp add: follow_builder_fars_def root seg pad_word Let_def ret_def)
          (simp add: at_word_def ptr_add.simps algebra_simps)
    next
      case double: True
      then have "unat (far_segment_id (word_at w ?fs ?fp)) < nsegs w"
        using assms(3) True by (simp add: pad_ok_def Let_def)
      note seg2 = bindp_Ok [of "get_segment_mut _", OF get_segment_mut_run [OF this]]
      have loc: "t = far_segment_id (word_at w ?fs ?fp)" "ts = ?fs" "ti = ?fp + 1"
          "p = int (unat (far_position_in_segment (word_at w ?fs ?fp)))"
        using double True assms(4) by (auto simp: locate_def Let_def)
      show ?thesis
        using True double unfolding loc by (simp add: follow_builder_fars_def root seg pad_word seg2 Let_def ret_def)
          (simp add: at_word_def)
    qed
  qed
qed

section \<open>Allocating an object\<close>

lemma far_fields [simp]:
  "kind (set_far d pos r) = KFar" "upper32bits (set_far d pos r) = upper32bits r"
  "kind (set_far_segment_id s r) = kind r" "far_segment_id (set_far_segment_id s r) = s"
  "is_double_far (set_far_segment_id s r) = is_double_far r"
  "far_position_in_segment (set_far_segment_id s r) = far_position_in_segment r"
proof -
  have e: "push_bit 3 pos OR push_bit 2 (of_bool d) = push_bit 2 (push_bit 1 pos OR of_bool d :: u32)"
    by (simp only: push_bit_or push_bit_push_bit) simp
  have "offset_and_kind (set_far d pos r) = (push_bit 3 pos OR push_bit 2 (of_bool d)) OR kind_code KFar"
    by (simp add: set_far_def or.assoc del: of_bool_eq kind_code.simps)
  then show "kind (set_far d pos r) = KFar" unfolding e by (rule kind_pack)
qed (simp_all add: set_far_def set_far_segment_id_def kind_def kind_outcome_def far_segment_id_def
    is_double_far_def far_position_in_segment_def)

lemma set_far_position [simp]:
  "is_double_far (set_far d pos r) = d"
  "unat pos < 2 ^ 29 \<Longrightarrow> far_position_in_segment (set_far d pos r) = pos"
proof -
  let ?c = "push_bit 2 (of_bool d) OR kind_code KFar"
  have c: "unat ?c < 2 ^ 3" by (cases d) simp_all
  have "drop_bit 2 (push_bit 3 pos OR ?c) AND 1 = of_bool d"
    by (rule bit_word_eqI) (auto simp: bit_simps)
  then show "is_double_far (set_far d pos r) = d"
    by (simp add: is_double_far_def set_far_def or.assoc)
  show "unat pos < 2 ^ 29 \<Longrightarrow> far_position_in_segment (set_far d pos r) = pos"
    using pack_high [of 3 pos ?c] c by (simp add: far_position_in_segment_def set_far_def or.assoc)
qed

lemma empty_struct_fields [simp]:
  "kind (set_kind_and_target_for_empty_struct r) = KStruct"
  "target_offset (set_kind_and_target_for_empty_struct r) = 0"
  "upper32bits (set_kind_and_target_for_empty_struct r) = upper32bits r"
  by (simp_all add: set_kind_and_target_for_empty_struct_def kind_def kind_outcome_def
      wire_pointer_kind_from_def target_offset_def)

lemma null_word: "wp_is_null r \<longleftrightarrow> r = \<lparr>offset_and_kind = 0, upper32bits = 0\<rparr>"
  by (cases r) (simp add: wp_is_null_def)

text \<open>
  Making room for an object: new words, zeroed, that the pointer leads to; apart from the pointer,
  and a landing pad that is new itself, nothing in use changes.
\<close>

lemma allocate_room_run:
  assumes wf: "wf_builder w" and i: "in_use w s i 1"
    and n: "n < 2 ^ 29" and k: "\<not> (n = 0 \<and> k = KStruct)" "k \<noteq> KFar" and segs: "nsegs w < 2 ^ 32"
  shows "\<exists>t p ts ti w'. allocate_room (at_word s i) s n k w = (Ok (at_word t p, at_word ts ti, t), w') \<and>
    builds {(s, i)} w w' \<and> new_words w w' t p n \<and> pad_ok w' s i \<and> locate w' s i = ((t, int p), (ts, ti)) \<and>
    kind (word_at w' ts ti) = k \<and>
    ((ts, ti) = (s, i) \<or> new_words w w' ts ti 0 \<and> ts = t \<and> ti + 1 = p) \<and> nsegs w' \<le> Suc (nsegs w) \<and>
    (kind (word_at w' s i) = KFar \<longrightarrow> \<not> is_double_far (word_at w' s i))"
proof -
  have s: "unat s < nsegs w" using i by (simp add: in_use_def)
  from wf s show ?thesis
  proof (cases rule: allocate_in_run [where n = n])
    case (some idx w1)
    have i1: "in_use w1 s i 1" by (rule builds_in_use [OF some(2) i])
    have "idx \<le> 2 ^ 29" using in_use_bound [OF builds_wf [OF some(2)], of s idx n] some(3) by (simp add: new_words_def)
    then obtain w2 where w2: "set_target (at_word s i) k (at_word s idx) w1 = (Ok (), w2)" "builds {(s, i)} w1 w2"
      "nsegs w2 = nsegs w1" "kind (word_at w2 s i) = k" "target_offset (word_at w2 s i) = int idx - int i"
      "upper32bits (word_at w2 s i) = upper32bits (word_at w1 s i)"
      using set_target_run [OF builds_wf [OF some(2)] i1] by blast
    have "allocate_room (at_word s i) s n k w = (Ok (at_word s idx, at_word s i, s), w2)"
      unfolding allocate_room_def using k(1)
      by (auto simp: Let_def bindp_Ok [of "on_builder _", OF some(1)] bindp_Ok [of "get_segment_mut _", OF get_segment_mut_run [of s w1]]
          some(4) s seqp_Ok [of "set_target _ _ _", OF w2(1)] ret_def)
    moreover have "builds {(s, i)} w w2" using builds_trans [OF some(2) w2(2)] by simp
    moreover have "new_words w w2 s idx n"
      using new_words_builds [OF some(3) w2(2) builds_wf [OF some(2)]] new_words_apart [OF some(3) i] by (auto simp: words_1)
    moreover have "word_at w1 s i = word_at w s i" by (rule builds_word [OF some(2) wf i]) simp
    ultimately show ?thesis
      using w2(3-6) k(2) some(4)
      by (intro exI [of _ s] exI [of _ idx] exI [of _ i] exI [of _ w2]) (auto simp: pad_ok_def locate_def)
  next
    case none
    have "n + 1 \<le> 2 ^ 29" using n by simp
    from wf this segs obtain sid idx w1 where w1: "on_builder (allocate_anywhere (n + 1)) w = (Ok (sid, idx), w1)"
      "builds {} w w1" "new_words w w1 (of_nat sid) idx (n + 1)" "sid < nsegs w1" "unat (of_nat sid :: u32) = sid"
      "nsegs w1 \<le> Suc (nsegs w)"
      by (rule allocate_anywhere_run)
    let ?t = "of_nat sid :: u32" and ?x = "set_far_segment_id (of_nat sid) (set_far False (of_nat idx) (word_at w s i))"
    have i1: "in_use w1 s i 1" by (rule builds_in_use [OF w1(2) i])
    have idx: "in_use w1 ?t idx (n + 1)" using w1(3) by (simp add: new_words_def)
    note idx = idx in_use_bound [OF builds_wf [OF w1(2)] idx]
    have apart: "(s, i) \<notin> words ?t idx (n + 1)" using new_words_apart [OF w1(3) i] by (auto simp: words_1)
    obtain w2 where w2: "update_wp (at_word s i) (set_far False (of_nat idx)) w1 = (Ok (), w2)" "builds {(s, i)} w1 w2"
      "nsegs w2 = nsegs w1" "word_at w2 s i = set_far False (of_nat idx) (word_at w1 s i)"
      using update_wp_run [OF builds_wf [OF w1(2)] i1] by blast
    obtain w3 where w3: "update_wp (at_word s i) (set_far_segment_id ?t) w2 = (Ok (), w3)" "builds {(s, i)} w2 w3"
      "nsegs w3 = nsegs w2" "word_at w3 s i = set_far_segment_id ?t (word_at w2 s i)"
      using update_wp_run [OF builds_wf [OF w2(2)] builds_in_use [OF w2(2) i1]] by blast
    have b3: "builds {(s, i)} w1 w3" using builds_trans [OF w2(2) w3(2)] by simp
    have pad3: "in_use w3 ?t idx 1" using builds_in_use [OF b3 idx(1)] by (rule in_use_sub) simp
    obtain w4 where w4: "set_target (at_word ?t idx) k (at_word ?t (idx + 1)) w3 = (Ok (), w4)" "builds {(?t, idx)} w3 w4"
      "nsegs w4 = nsegs w3" "kind (word_at w4 ?t idx) = k" "target_offset (word_at w4 ?t idx) = int (idx + 1) - int idx"
      "upper32bits (word_at w4 ?t idx) = upper32bits (word_at w3 ?t idx)"
      using set_target_run [OF builds_wf [OF w3(2)] pad3, of "idx + 1" k] idx(2) by auto
    have b4: "builds {(s, i), (?t, idx)} w1 w4" using builds_trans [OF b3 w4(2)] by (simp add: insert_commute)
    have "word_at w1 s i = word_at w s i" by (rule builds_word [OF w1(2) wf i]) simp
    then have x: "word_at w4 s i = ?x"
      using builds_word [OF w4(2) builds_wf [OF w3(2)] builds_in_use [OF b3 i1]] apart w2(4) w3(4) by (auto simp: words_def)
    have pos: "unat (of_nat idx :: u32) = idx" "idx < 2 ^ 29" using idx(2) by (simp_all add: unat_of_nat)
    have pad4: "in_use w4 ?t idx 1" by (rule builds_in_use [OF w4(2) pad3])
    have pad1: "in_use w1 ?t idx 1" by (rule in_use_sub [OF idx(1)]) simp
    have "word_at w3 ?t idx = word_at w1 ?t idx"
      by (rule builds_word [OF b3 builds_wf [OF w1(2)] pad1]) (use apart in \<open>auto simp: words_def\<close>)
    also have "\<dots> = \<lparr>offset_and_kind = 0, upper32bits = 0\<rparr>"
      using new_words_zero [OF w1(3) builds_wf [OF w1(2)], of 0] by simp
    finally have upper: "upper32bits (word_at w4 ?t idx) = 0" using w4(6) by simp
    have "kind ?x = KFar" "\<not> is_double_far ?x" "far_segment_id ?x = ?t" "unat (far_position_in_segment ?x) = idx"
      using pos by simp_all
    then have pad_ok: "pad_ok w4 s i" and loc: "locate w4 s i = ((?t, int (idx + 1)), (?t, idx))"
      using pad4 w4(5) by (simp_all add: pad_ok_def locate_def x Let_def)
    have new: "new_words w w4 ?t (idx + 1) n"
    proof -
      have "words ?t (idx + 1) n \<inter> {(s, i), (?t, idx)} = {}" using apart by (auto simp: words_def)
      then show ?thesis
        using new_words_builds [OF new_words_sub [OF w1(3)] b4 builds_wf [OF w1(2)], of "idx + 1" n] by simp
    qed
    have new_tag: "new_words w w4 ?t idx 0"
      using new_words_builds [OF new_words_sub [OF w1(3)] b4 builds_wf [OF w1(2)], of idx 0] by (simp add: words_def)
    have "allocate_room (at_word s i) s n k w = (Ok (at_word ?t (idx + 1), at_word ?t idx, ?t), w4)"
      unfolding allocate_room_def using k(1) n
      by (auto simp: bindp_Ok [of "on_builder _", OF none(1)] bindp_Ok [of "on_builder _", OF w1(1) [unfolded Suc_eq_plus1 [symmetric]]]
          bindp_Ok [of "get_segment_mut _", OF get_segment_mut_run [of ?t w1]] w1(4,5) Let_def
          seqp_Ok [of "update_wp _ _", OF w2(1)] seqp_Ok [of "update_wp _ _", OF w3(1)]
          seqp_Ok [of "set_target _ _ _", OF w4(1) [unfolded Suc_eq_plus1 [symmetric]]] ret_def)
    moreover have "builds {(s, i)} w w4"
    proof (rule builds_trans_new)
      show "builds {(s, i)} w w1" by (rule builds_mono [OF w1(2)]) simp
      show "used w t \<le> j" if "(t, j) \<in> {(s, i), (?t, idx)} - {(s, i)}" "unat t < nsegs w" for t j
        using that w1(3) by (auto simp: new_words_def)
    qed (rule b4)
    ultimately show ?thesis
      using pad_ok loc new new_tag upper w4(3,4) w3(3) w2(3) w1(6) x
      by (intro exI [of _ ?t] exI [of _ "idx + 1"] exI [of _ idx] exI [of _ w4]) simp
  qed
qed


lemma zeroed_builds:
  assumes z: "zeroed F w w'" and wf: "wf_builder w"
  shows "builds F w w'"
proof -
  have seg: "segment_inv (ba_segments (w_builder w') ! i) \<and> length (bs_mem (ba_segments (w_builder w') ! i)) \<le> 2 ^ 32"
    if "i < nsegs w'" for i
  proof -
    let ?seg = "ba_segments (w_builder w) ! i"
    have i: "i < nsegs w" using that z by (simp add: zeroed_def)
    have old: "segment_inv ?seg" "length (bs_mem ?seg) \<le> 2 ^ 32"
      using wf i by (auto simp: wf_builder_def nsegs_def intro: arena_inv_nth)
    have "bs_mem ?seg ! b = 0" if "allocated ?seg * 8 \<le> b" "b < length (bs_mem ?seg)" for b
    proof -
      have "bs_mem ?seg ! b \<in> set (drop (allocated ?seg * 8) (bs_mem ?seg))"
        using that by (auto simp: in_set_conv_nth intro!: exI [of _ "b - allocated ?seg * 8"])
      then show ?thesis using old(1) by (simp add: segment_inv_def)
    qed
    then have "\<forall>b \<in> set (drop (allocated ?seg * 8) (zero_bytes (of_nat i) F (bs_mem ?seg))). b = 0"
      by (auto simp: in_set_conv_nth nth_zero_bytes)
    moreover have "ba_segments (w_builder w') ! i = ?seg\<lparr>bs_mem := zero_bytes (of_nat i) F (bs_mem ?seg)\<rparr>"
      using z i by (simp add: zeroed_def bmem_def)
    ultimately show ?thesis using old by (simp add: segment_inv_def)
  qed
  have n: "nsegs w' = nsegs w" and a: "ba_allocator (w_builder w') = ba_allocator (w_builder w)"
    using z by (simp_all add: zeroed_def)
  have "arena_inv (w_builder w')"
    using seg wf a by (auto simp: arena_inv_def wf_builder_def in_set_conv_nth nsegs_def)
  moreover have "\<forall>seg \<in> set (ba_segments (w_builder w')). length (bs_mem seg) \<le> 2 ^ 32"
    using seg by (auto simp: in_set_conv_nth nsegs_def)
  ultimately have "wf_builder w'" using wf n a by (simp add: wf_builder_def)
  then show ?thesis using zeroed_touches [OF z wf] by (simp add: builds_def)
qed

text \<open>C18: \<open>zero_object\<close> on the root of a tree of objects returns, stays inside the segments, and
  zeroes exactly the words of the tree, landing pads included: every other byte of the message,
  the pointer itself among them, is what it was. A stack as deep as the tree is enough.\<close>

theorem zero_object_zeroes_tree:
  assumes "obj w s i F d" and "nsegs w \<le> 2 ^ 32" and "d \<le> D"
  shows "\<exists>w'. zero_object D s (at_word s i) w = (Ok (), w') \<and> zeroed F w w'"
  using zero_tree assms by blast



section \<open>A sample message being built\<close>

definition sample_of :: "u8 list \<Rightarrow> world" where
  "sample_of bs = \<lparr>w_reader = reader_arena_new [] None 64,
     w_builder = \<lparr>ba_allocator = Some (Heap heap_allocator_default),
       ba_segments = [\<lparr>bs_ptr = HeapBlock, bs_mem = bs @ replicate 16 0, capacity = 5, allocated = 3\<rparr>]\<rparr>, w_caps = []\<rparr>"

text \<open>A struct of one pointer, to a text of two characters; two words are free.\<close>

definition sample_builder :: world where
  "sample_builder = sample_of [0, 0, 0, 0, 0, 0, 1, 0, 1, 0, 0, 0, 26, 0, 0, 0, 104, 105, 0, 0, 0, 0, 0, 0]"

lemma sample_builder_words:
  "word_at sample_builder 0 0 = \<lparr>offset_and_kind = 0, upper32bits = 0x10000\<rparr>"
  "word_at sample_builder 0 (Suc 0) = \<lparr>offset_and_kind = 1, upper32bits = 26\<rparr>"
  by (simp_all add: sample_builder_def sample_of_def word_at_def bmem_def decode_wire_pointer_def take_at_def)

lemma sample_of_simps:
  "nsegs (sample_of bs) = 1" "in_use (sample_of bs) 0 i n \<longleftrightarrow> i + n \<le> 3"
  "length bs = 24 \<Longrightarrow> wf_builder (sample_of bs)" "length bs = 24 \<Longrightarrow> has_words (sample_of bs) 0 i n \<longleftrightarrow> i + n \<le> 5"
proof -
  show "length bs = 24 \<Longrightarrow> wf_builder (sample_of bs)"
    by (simp add: sample_of_def nsegs_def wf_builder_def arena_inv_def segment_inv_def heap_ok_default)
      (simp add: heap_allocator_default_def)
qed (simp_all add: sample_of_def nsegs_def in_use_def used_def has_words_def bmem_def, arith)

lemmas sample_builder_simps = sample_of_simps [of "[0, 0, 0, 0, 0, 0, 1, 0, 1, 0, 0, 0, 26, 0, 0, 0, 104, 105, 0, 0, 0, 0, 0, 0]",
    folded sample_builder_def, simplified]

lemma text_tag:
  "kind \<lparr>offset_and_kind = 1, upper32bits = 26\<rparr> = KList" "target_offset \<lparr>offset_and_kind = 1, upper32bits = 26\<rparr> = 1"
  "list_element_size \<lparr>offset_and_kind = 1, upper32bits = 26\<rparr> = Byte" "list_element_count \<lparr>offset_and_kind = 1, upper32bits = 26\<rparr> = 3"
  by (simp_all add: kind_def kind_outcome_def wire_pointer_kind_from_def list_element_size_def list_element_size_outcome_def
      element_size_from_def list_element_count_def target_offset_def)

lemma root_tag:
  "kind \<lparr>offset_and_kind = 0, upper32bits = 0x10000\<rparr> = KStruct" "target_offset \<lparr>offset_and_kind = 0, upper32bits = 0x10000\<rparr> = 1"
  "struct_data_size \<lparr>offset_and_kind = 0, upper32bits = 0x10000\<rparr> = 0" "struct_ptr_count \<lparr>offset_and_kind = 0, upper32bits = 0x10000\<rparr> = 1"
  by (simp_all add: kind_def kind_outcome_def wire_pointer_kind_from_def struct_data_size_def struct_ptr_count_def target_offset_def)

lemma sample_builder_tree: "obj sample_builder 0 0 ({0} \<times> {1, 2}) 4"
proof -
  have "body sample_builder \<lparr>offset_and_kind = 1, upper32bits = 26\<rparr> 0 2 (words 0 (nat 2) 1 \<union> (\<Union>p \<in> set ([] :: nat list). {})) (Suc 0)"
    by (rule obj_body.body [where ps = "[]" and Fs = "\<lambda>_ :: nat. {}"]) (simp_all add: object_layout_def text_tag round_bits_up_to_words_def sample_builder_simps)
  then have leaf: "obj sample_builder 0 1 {(0, 2)} (Suc (Suc 0))"
    by (intro direct) (simp_all add: sample_builder_words text_tag sample_builder_simps words_1)
  have "body sample_builder \<lparr>offset_and_kind = 0, upper32bits = 0x10000\<rparr> 0 1 (words 0 (nat 1) 1 \<union> (\<Union>p \<in> set [1 :: nat]. {(0, 2)})) (Suc (Suc (Suc 0)))"
    using leaf by (intro obj_body.body [where ps = "[1]" and Fs = "\<lambda>_ :: nat. {(0, 2)}"])
      (simp_all add: object_layout_def root_tag struct_word_size_def sample_builder_simps words_1)
  then have "obj sample_builder 0 0 (words 0 (nat 1) 1 \<union> (\<Union>p \<in> set [1 :: nat]. {(0, 2)})) (Suc (Suc (Suc (Suc 0))))"
    by (intro direct) (simp_all add: sample_builder_words root_tag sample_builder_simps words_1)
  moreover have "words 0 (nat 1) 1 \<union> (\<Union>p \<in> set [1 :: nat]. {(0, 2)}) = {0 :: u32} \<times> {1, 2 :: nat}" by (auto simp: words_def)
  moreover have "Suc (Suc (Suc (Suc 0))) = 4" by simp
  ultimately show ?thesis by metis
qed

theorem zero_object_zeroes_tree_witness:
  "\<exists>w'. zero_object 4 0 (at_word 0 0) sample_builder = (Ok (), w') \<and> zeroed ({0} \<times> {1, 2}) sample_builder w'"
  by (rule zero_object_zeroes_tree [OF sample_builder_tree]) (simp_all add: sample_builder_simps)

text \<open>Overwriting a capability pointer panics: \<open>zero_object\<close> does not know how to handle the
  kind \<open>Other\<close>, so \<open>allocate\<close> stops before anything is written, however large its stack.\<close>

theorem allocate_over_capability_panics:
  assumes "has_words w s i 1" and "is_capability (word_at w s i)"
  shows "allocate D (at_word s i) s n k w = (Panic, w)"
proof -
  note run = bindp_Ok [of "deref_wp _ _", OF deref_wp_run [OF assms(1)]]
  have other: "kind (word_at w s i) = KOther"
    using assms(2) by (simp add: is_capability_def kind_def kind_outcome_def wire_pointer_kind_from_def)
  have "zero_object_helper E s (at_word s i) p w = (Panic, w)" for E p
    by (subst zero_object_helper.simps) (simp add: run other, simp add: panic_def)
  then have "zero_object D s (at_word s i) w = (Panic, w)"
    by (subst zero_object.simps) (simp add: run other, simp add: panic_def)
  moreover have "\<not> wp_is_null (word_at w s i)" using assms(2) by (simp add: is_capability_def wp_is_null_def)
  ultimately show ?thesis
    unfolding allocate_def run by (simp add: seqp_def bindp_Panic)
qed

lemma cap_sample_word:
  "word_at (sample_of ([3, 0, 0, 0, 0, 0, 0, 0] @ replicate 16 0)) 0 0 = \<lparr>offset_and_kind = 3, upper32bits = 0\<rparr>"
  by (simp add: sample_of_def word_at_def bmem_def decode_wire_pointer_def take_at_def)

theorem allocate_over_capability_panics_witness:
  "allocate 64 (at_word 0 0) 0 2 KStruct (sample_of ([3, 0, 0, 0, 0, 0, 0, 0] @ replicate 16 0)) =
    (Panic, sample_of ([3, 0, 0, 0, 0, 0, 0, 0] @ replicate 16 0))"
  by (rule allocate_over_capability_panics)
    (simp_all add: sample_of_simps(4) cap_sample_word [simplified] is_capability_def)

text \<open>C19: \<open>allocate\<close> replaces the object behind a pointer: the old tree is zeroed, landing pads
  included, and the pointer then leads, through a far pointer if need be, to words that were not in
  use and are zero, and to a tag of the requested kind. Nothing else in use is written.\<close>

theorem allocate_replaces_object:
  assumes wf: "wf_builder w" and i: "in_use w s i 1"
    and tree: "if wp_is_null (word_at w s i) then F = {} else obj w s i F d" "d \<le> D" and F: "\<forall>(t, j) \<in> F. in_use w t j 1"
    and n: "n < 2 ^ 29" "\<not> (n = 0 \<and> k = KStruct)" "k \<noteq> KFar" and segs: "nsegs w < 2 ^ 32"
  shows "\<exists>t p ts ti w'. allocate D (at_word s i) s n k w = (Ok (at_word t p, at_word ts ti, t), w') \<and>
    builds (insert (s, i) F) w w' \<and> new_words w w' t p n \<and>
    (\<forall>(u, j) \<in> F. word_at w' u j = \<lparr>offset_and_kind = 0, upper32bits = 0\<rparr>) \<and>
    pad_ok w' s i \<and> locate w' s i = ((t, int p), (ts, ti)) \<and> kind (word_at w' ts ti) = k"
proof -
  note root = bindp_Ok [of "deref_wp _ _", OF deref_wp_run [OF in_use_has_words [OF wf i]]]
  have nsegs: "nsegs w \<le> 2 ^ 32" using segs by simp
  have apart: "(s, i) \<notin> F" using tree(1) by (auto split: if_splits elim: objE)
  have "\<exists>w1. (if \<not> wp_is_null (word_at w s i) then zero_object D s (at_word s i) else ret ()) w = (Ok (), w1) \<and> zeroed F w w1"
    using tree zero_tree nsegs zeroed_refl [OF nsegs] by (auto simp: ret_def)
  then obtain w1 where w1: "(if \<not> wp_is_null (word_at w s i) then zero_object D s (at_word s i) else ret ()) w = (Ok (), w1)"
    "zeroed F w w1" by blast
  have b1: "builds F w w1" by (rule zeroed_builds [OF w1(2) wf])
  obtain t p ts ti w2 where w2: "allocate_room (at_word s i) s n k w1 = (Ok (at_word t p, at_word ts ti, t), w2)"
    "builds {(s, i)} w1 w2" "new_words w1 w2 t p n" "pad_ok w2 s i" "locate w2 s i = ((t, int p), (ts, ti))"
    "kind (word_at w2 ts ti) = k"
    using allocate_room_run [OF builds_wf [OF b1] builds_in_use [OF b1 i] n] segs zeroed_nsegs [OF w1(2)] by auto
  have "allocate D (at_word s i) s n k w = (Ok (at_word t p, at_word ts ti, t), w2)"
    unfolding allocate_def root by (simp add: seqp_Ok [of "if _ then _ else _", OF w1(1)] w2(1))
  moreover have "builds (insert (s, i) F) w w2" using builds_trans [OF b1 w2(2)] by simp
  moreover have "new_words w w2 t p n" by (rule new_words_before [OF w2(3) b1])
  moreover have "word_at w2 u j = \<lparr>offset_and_kind = 0, upper32bits = 0\<rparr>" if "(u, j) \<in> F" for u j
  proof -
    have u: "in_use w u j 1" using F that by auto
    then have "word_at w2 u j = word_at w1 u j"
      by (intro builds_word [OF w2(2) builds_wf [OF b1] builds_in_use [OF b1]]) (use that apart in auto)
    then show ?thesis using word_at_zeroed [OF w1(2) in_use_has_words [OF wf u]] that zero_word by simp
  qed
  ultimately show ?thesis using w2(4-6) by blast
qed

theorem allocate_replaces_object_witness:
  "\<exists>t p ts ti w'. allocate 4 (at_word 0 0) 0 9 KList sample_builder = (Ok (at_word t p, at_word ts ti, t), w') \<and>
    builds (insert (0, 0) ({0} \<times> {1, 2})) sample_builder w' \<and> new_words sample_builder w' t p 9 \<and>
    (\<forall>(u, j) \<in> {0} \<times> {1, 2}. word_at w' u j = \<lparr>offset_and_kind = 0, upper32bits = 0\<rparr>) \<and>
    pad_ok w' 0 0 \<and> locate w' 0 0 = ((t, int p), (ts, ti)) \<and> kind (word_at w' ts ti) = KList"
  by (rule allocate_replaces_object [where d = 4])
    (simp_all add: sample_builder_simps sample_builder_words sample_builder_tree [simplified] wp_is_null_def split_beta)

section \<open>Moving a pointer\<close>

text \<open>
  What a pointer denotes, wherever it is stored: the position of its object, and the kind and the
  size that its tag gives. A capability and an empty struct have no position.
\<close>

definition denotes :: "world \<Rightarrow> u32 \<Rightarrow> nat \<Rightarrow> (u32 \<times> int) option \<times> wire_pointer_kind \<times> u32" where
  "denotes w s i = (case locate w s i of (pos, (ts, ti)) \<Rightarrow>
     let tag = word_at w ts ti in
     (if kind tag = KOther \<or> kind tag = KStruct \<and> upper32bits tag = 0 then None else Some pos,
      kind tag, upper32bits tag))"

definition pad_words :: "world \<Rightarrow> u32 \<Rightarrow> nat \<Rightarrow> (u32 \<times> nat) set" where
  "pad_words w s i =
     (let r = word_at w s i in
      if kind r = KFar
      then words (far_segment_id r) (unat (far_position_in_segment r)) (if is_double_far r then 2 else 1)
      else {})"

lemma copy_upper_fields [simp]:
  "kind (copy_upper src dst) = kind dst" "upper32bits (copy_upper src dst) = upper32bits src"
  "target_offset (copy_upper src dst) = target_offset dst"
  by (simp_all add: copy_upper_def kind_def kind_outcome_def target_offset_def)

lemma zero_offset_fields [simp]:
  "kind (set_kind_with_zero_offset k r) = k" "upper32bits (set_kind_with_zero_offset k r) = upper32bits r"
  using kind_pack [of "set_kind_with_zero_offset k r" 0 k] by (simp_all add: set_kind_with_zero_offset_def)

lemma is_positional_iff: "is_positional r \<longleftrightarrow> kind r = KStruct \<or> kind r = KList"
proof -
  let ?v = "ucast (offset_and_kind r) AND (3 :: u8)"
  have "offset_and_kind r AND 2 = 0 \<longleftrightarrow> \<not> bit (offset_and_kind r) 1"
    using and_exp_eq_0_iff_not_bit [of "offset_and_kind r" 1] by simp
  moreover have "bit (offset_and_kind r) 1 \<longleftrightarrow> bit ?v 1" by (simp add: bit_simps)
  moreover have "bit ?v 1 \<longleftrightarrow> ?v = 2 \<or> ?v = 3"
    using and_mask_cases(1) [of "ucast (offset_and_kind r)"] by auto
  ultimately show ?thesis
    using and_mask_cases(1) [of "ucast (offset_and_kind r)"]
    by (auto simp: is_positional_def kind_def kind_outcome_def wire_pointer_kind_from_def)
qed

lemma positional_kind: "is_positional r \<Longrightarrow> kind r = KStruct \<or> kind r = KList"
  by (simp add: is_positional_iff)

lemma struct_word_size_upper: "struct_word_size r = 0 \<longleftrightarrow> upper32bits r = 0"
proof
  assume "struct_word_size r = 0"
  then have low: "ucast (upper32bits r) = (0 :: u16)" and high: "ucast (drop_bit 16 (upper32bits r)) = (0 :: u16)"
    by (simp_all add: struct_word_size_def struct_data_size_def struct_ptr_count_def unsigned_eq_0_iff)
  show "upper32bits r = 0"
  proof (rule bit_word_eqI)
    fix k assume "k < LENGTH(32)"
    then have "bit (upper32bits r) k \<longleftrightarrow> (if k < 16 then bit (ucast (upper32bits r) :: u16) k
        else bit (ucast (drop_bit 16 (upper32bits r)) :: u16) (k - 16))"
      by (auto simp: bit_simps)
    then show "bit (upper32bits r) k \<longleftrightarrow> bit (0 :: u32) k" by (simp add: low high)
  qed
qed (simp add: struct_word_size_def struct_data_size_def struct_ptr_count_def)

lemma denotes_direct:
  "kind (word_at w s i) \<noteq> KFar \<Longrightarrow> denotes w s i =
     (let r = word_at w s i in
      (if kind r = KOther \<or> kind r = KStruct \<and> upper32bits r = 0 then None else Some (s, int i + target_offset r),
       kind r, upper32bits r))"
  by (simp add: denotes_def locate_def Let_def)

lemma transfer_same_segment:
  assumes wf: "wf_builder w" and d: "in_use w s di 1" and src: "in_use w s si 1" "is_positional (word_at w s si)"
    and p: "int si + target_offset (word_at w s si) = int p" "p < 2 ^ 29"
  shows "\<exists>w'. transfer_pointer_split s (at_word s di) s (at_word s si) (at_word s p) w = (Ok (), w') \<and>
    builds {(s, di)} w w' \<and> pad_ok w' s di \<and> denotes w' s di = denotes w s si"
proof -
  let ?r = "word_at w s si"
  note tag = bindp_Ok [of "deref_wp _ _", OF deref_wp_run [OF in_use_has_words [OF wf src(1)]]]
  let ?m = "if kind ?r = KStruct \<and> struct_word_size ?r = 0 then update_wp (at_word s di) set_kind_and_target_for_empty_struct
      else set_target (at_word s di) (kind ?r) (at_word s p)"
  have k: "kind ?r \<noteq> KFar" "kind ?r \<noteq> KOther" using positional_kind [OF src(2)] by auto
  obtain w1 where w1: "?m w = (Ok (), w1)" "builds {(s, di)} w w1" "kind (word_at w1 s di) = kind ?r"
    "kind ?r = KStruct \<and> upper32bits ?r = 0 \<or> target_offset (word_at w1 s di) = int p - int di"
    using update_wp_run [OF wf d, of set_kind_and_target_for_empty_struct] set_target_run [OF wf d, of p "kind ?r"] p(2)
    by (cases "kind ?r = KStruct \<and> struct_word_size ?r = 0") (auto simp: struct_word_size_upper)
  obtain w2 where w2: "update_wp (at_word s di) (copy_upper ?r) w1 = (Ok (), w2)" "builds {(s, di)} w1 w2"
    "word_at w2 s di = copy_upper ?r (word_at w1 s di)"
    using update_wp_run [OF builds_wf [OF w1(2)] builds_in_use [OF w1(2) d]] by blast
  have "transfer_pointer_split s (at_word s di) s (at_word s si) (at_word s p) w = (Ok (), w2)"
    unfolding transfer_pointer_split_def tag by (simp add: seqp_Ok [of "if _ then _ else _", OF w1(1)] w2(1))
  moreover have "builds {(s, di)} w w2" using builds_trans [OF w1(2) w2(2)] by simp
  moreover have "denotes w2 s di = denotes w s si"
    using w1(3,4) w2(3) k p(1) by (auto simp: denotes_direct Let_def)
  moreover have "pad_ok w2 s di" using w1(3) w2(3) k by (simp add: pad_ok_def)
  ultimately show ?thesis by blast
qed


text \<open>Filling a new landing pad, and pointing to it.\<close>

lemma far_pointer_run:
  assumes wf: "wf_builder w" and d: "in_use w s di 1" and "pos < 2 ^ 29"
  shows "\<exists>w'. seqp (update_wp (at_word s di) (set_far b (of_nat pos))) (update_wp (at_word s di) (set_far_segment_id f)) w =
      (Ok (), w') \<and> builds {(s, di)} w w' \<and> nsegs w' = nsegs w \<and> kind (word_at w' s di) = KFar \<and>
    far_segment_id (word_at w' s di) = f \<and> unat (far_position_in_segment (word_at w' s di)) = pos \<and>
    (is_double_far (word_at w' s di) \<longleftrightarrow> b)"
proof -
  have pos: "unat (of_nat pos :: u32) = pos" using assms(3) by (simp add: unat_of_nat)
  obtain w1 where w1: "update_wp (at_word s di) (set_far b (of_nat pos)) w = (Ok (), w1)" "builds {(s, di)} w w1"
    "nsegs w1 = nsegs w" "word_at w1 s di = set_far b (of_nat pos) (word_at w s di)"
    using update_wp_run [OF wf d] by blast
  obtain w2 where w2: "update_wp (at_word s di) (set_far_segment_id f) w1 = (Ok (), w2)" "builds {(s, di)} w1 w2"
    "nsegs w2 = nsegs w1" "word_at w2 s di = set_far_segment_id f (word_at w1 s di)"
    using update_wp_run [OF builds_wf [OF w1(2)] builds_in_use [OF w1(2) d]] by blast
  show ?thesis
    using w1(3,4) w2 builds_trans [OF w1(2) w2(2)] pos assms(3)
    by (intro exI [of _ w2]) (simp add: seqp_Ok [of "update_wp _ _", OF w1(1)])
qed

lemma transfer_other_segment:
  assumes wf: "wf_builder w" and d: "in_use w s di 1" and src: "in_use w t si 1" "is_positional (word_at w t si)"
    and p: "int si + target_offset (word_at w t si) = int p" "p < 2 ^ 29" and st: "s \<noteq> t" and segs: "nsegs w < 2 ^ 32"
  shows "\<exists>w'. transfer_pointer_split s (at_word s di) t (at_word t si) (at_word t p) w = (Ok (), w') \<and>
    builds {(s, di)} w w' \<and> pad_ok w' s di \<and> denotes w' s di = denotes w t si"
proof -
  let ?r = "word_at w t si"
  note tag = bindp_Ok [of "deref_wp _ _", OF deref_wp_run [OF in_use_has_words [OF wf src(1)]]]
  have k: "kind ?r \<noteq> KFar" "kind ?r \<noteq> KOther" using positional_kind [OF src(2)] by auto
  have t: "unat t < nsegs w" using src(1) by (simp add: in_use_def)
  from wf t show ?thesis
  proof (cases rule: allocate_in_run [where n = 1])
    case (some pad w1)
    have pad: "in_use w1 t pad 1" using some(3) by (simp add: new_words_def)
    have padb: "pad < 2 ^ 29" using in_use_bound [OF builds_wf [OF some(2)] pad] by simp
    have cap: "pad < capacity (ba_segments (w_builder w1) ! unat t)"
      using wf_segment(1) [OF builds_wf [OF some(2)], of t] pad by (simp add: in_use_def)
    obtain w2 where w2: "set_target (at_word t pad) (kind ?r) (at_word t p) w1 = (Ok (), w2)" "builds {(t, pad)} w1 w2"
      "nsegs w2 = nsegs w1" "kind (word_at w2 t pad) = kind ?r" "target_offset (word_at w2 t pad) = int p - int pad"
      using set_target_run [OF builds_wf [OF some(2)] pad, of p "kind ?r"] p(2) by auto
    have pad2: "in_use w2 t pad 1" by (rule builds_in_use [OF w2(2) pad])
    obtain w3 where w3: "update_wp (at_word t pad) (copy_upper ?r) w2 = (Ok (), w3)" "builds {(t, pad)} w2 w3"
      "nsegs w3 = nsegs w2" "word_at w3 t pad = copy_upper ?r (word_at w2 t pad)"
      using update_wp_run [OF builds_wf [OF w2(2)] pad2] by blast
    have b3: "builds {(t, pad)} w1 w3" using builds_trans [OF w2(2) w3(2)] by simp
    have d3: "in_use w3 s di 1" using builds_in_use [OF some(2) d] by (rule builds_in_use [OF b3])
    obtain w4 where w4: "seqp (update_wp (at_word s di) (set_far False (of_nat pad))) (update_wp (at_word s di) (set_far_segment_id t)) w3 =
        (Ok (), w4)" "builds {(s, di)} w3 w4" "nsegs w4 = nsegs w3" "kind (word_at w4 s di) = KFar"
      "far_segment_id (word_at w4 s di) = t" "unat (far_position_in_segment (word_at w4 s di)) = pad" "\<not> is_double_far (word_at w4 s di)"
      using far_pointer_run [OF builds_wf [OF b3] d3 padb] by blast
    have pad3: "in_use w3 t pad 1" by (rule builds_in_use [OF b3 pad])
    have tag4: "word_at w4 t pad = copy_upper ?r (word_at w2 t pad)"
      using builds_word [OF w4(2) builds_wf [OF b3] pad3] st w3(4) by simp
    have "transfer_pointer_split s (at_word s di) t (at_word t si) (at_word t p) w = (Ok (), w4)"
      unfolding transfer_pointer_split_def tag using st some(4) t
      by (simp add: bindp_Ok [of "on_builder _", OF some(1) [unfolded One_nat_def]]
          bindp_Ok [of "get_segment_mut _", OF get_segment_mut_run [of t w1]] cap Let_def
          seqp_Ok [of "set_target _ _ _", OF w2(1)] seqp_Ok [of "update_wp _ _", OF w3(1)] w4(1))
    moreover have "builds {(s, di)} w w4"
    proof (rule builds_trans_new)
      show "builds {(s, di)} w w1" by (rule builds_mono [OF some(2)]) simp
      show "builds ({(t, pad)} \<union> {(s, di)}) w1 w4" by (rule builds_trans [OF b3 w4(2)])
      show "used w u \<le> j" if "(u, j) \<in> {(t, pad)} \<union> {(s, di)} - {(s, di)}" "unat u < nsegs w" for u j
        using that some(3) by (auto simp: new_words_def)
    qed
    moreover have "pad_ok w4 s di" "denotes w4 s di = denotes w t si"
      using w4(4-7) builds_in_use [OF w4(2) pad3] tag4 w2(4,5) k p(1)
      by (auto simp: pad_ok_def denotes_direct [of w t si] Let_def denotes_def [of w4] locate_def [of w4])
    ultimately show ?thesis by blast
  next
    case none
    have "(2 :: nat) \<le> 2 ^ 29" by simp
    from wf this segs obtain sid idx w1 where w1: "on_builder (allocate_anywhere 2) w = (Ok (sid, idx), w1)"
      "builds {} w w1" "new_words w w1 (of_nat sid) idx 2" "sid < nsegs w1" "unat (of_nat sid :: u32) = sid"
      by (rule allocate_anywhere_run)
    let ?f = "of_nat sid :: u32"
    have pads: "in_use w1 ?f idx 2" using w1(3) by (simp add: new_words_def)
    have idx: "idx < 2 ^ 29" using in_use_bound [OF builds_wf [OF w1(2)] pads] by simp
    have apart: "(s, di) \<notin> words ?f idx 2" using new_words_apart [OF w1(3) d] by (auto simp: words_1)
    have pad1: "in_use w1 ?f idx 1" "in_use w1 ?f (idx + 1) 1" by (rule in_use_sub [OF pads], simp)+
    have t1: "unat t < nsegs w1" using w1(2) t by (auto simp: builds_def touches_def)
    obtain w2 where w2: "seqp (update_wp (at_word ?f idx) (set_far False (of_nat p))) (update_wp (at_word ?f idx) (set_far_segment_id t)) w1 =
        (Ok (), w2)" "builds {(?f, idx)} w1 w2" "nsegs w2 = nsegs w1"
      "far_segment_id (word_at w2 ?f idx) = t" "unat (far_position_in_segment (word_at w2 ?f idx)) = p"
      using far_pointer_run [OF builds_wf [OF w1(2)] pad1(1) p(2)] by blast
    obtain w3 where w3: "update_wp (at_word ?f (idx + 1)) (set_kind_with_zero_offset (kind ?r)) w2 = (Ok (), w3)"
      "builds {(?f, idx + 1)} w2 w3" "nsegs w3 = nsegs w2" "word_at w3 ?f (idx + 1) = set_kind_with_zero_offset (kind ?r) (word_at w2 ?f (idx + 1))"
      using update_wp_run [OF builds_wf [OF w2(2)] builds_in_use [OF w2(2) pad1(2)]] by blast
    have b3: "builds {(?f, idx), (?f, idx + 1)} w1 w3" using builds_trans [OF w2(2) w3(2)] by (simp add: insert_commute)
    obtain w4 where w4: "update_wp (at_word ?f (idx + 1)) (copy_upper ?r) w3 = (Ok (), w4)"
      "builds {(?f, idx + 1)} w3 w4" "nsegs w4 = nsegs w3" "word_at w4 ?f (idx + 1) = copy_upper ?r (word_at w3 ?f (idx + 1))"
      using update_wp_run [OF builds_wf [OF w3(2)] builds_in_use [OF b3 pad1(2)]] by blast
    have b4: "builds {(?f, idx), (?f, idx + 1)} w1 w4" using builds_trans [OF b3 w4(2)] by (simp add: insert_commute)
    have d4: "in_use w4 s di 1" using builds_in_use [OF w1(2) d] by (rule builds_in_use [OF b4])
    obtain w5 where w5: "seqp (update_wp (at_word s di) (set_far True (of_nat idx))) (update_wp (at_word s di) (set_far_segment_id ?f)) w4 =
        (Ok (), w5)" "builds {(s, di)} w4 w5" "nsegs w5 = nsegs w4" "kind (word_at w5 s di) = KFar"
      "far_segment_id (word_at w5 s di) = ?f" "unat (far_position_in_segment (word_at w5 s di)) = idx" "is_double_far (word_at w5 s di)"
      using far_pointer_run [OF builds_wf [OF b4] d4 idx] by blast
    have pads4: "in_use w4 ?f idx 2" by (rule builds_in_use [OF b4 pads])
    have far4: "word_at w4 ?f idx = word_at w2 ?f idx"
      using builds_word [OF w3(2) builds_wf [OF w2(2)] builds_in_use [OF w2(2) pad1(1)]]
        builds_word [OF w4(2) builds_wf [OF w3(2)] builds_in_use [OF b3 pad1(1)]] by simp
    have words5: "word_at w5 ?f idx = word_at w4 ?f idx" "word_at w5 ?f (idx + 1) = word_at w4 ?f (idx + 1)"
      by (rule builds_word [OF w5(2) builds_wf [OF b4] in_use_sub [OF pads4]]; use apart in \<open>auto simp: words_def\<close>)+
    have "word_of_int (int p * 8 div 8) = (of_nat p :: u32)" by simp
    then have "transfer_pointer_split s (at_word s di) t (at_word t si) (at_word t p) w = (Ok (), w5)"
      unfolding transfer_pointer_split_def tag using st
      by (simp add: bindp_Ok [of "on_builder _", OF none(1) [unfolded One_nat_def]] bindp_Ok [of "on_builder _", OF w1(1)]
          bindp_Ok [of "get_segment_mut _", OF get_segment_mut_run [of ?f w1]] w1(4,5)
          bindp_Ok [of "get_segment_mut _", OF get_segment_mut_run [OF t1]] Let_def at_word_def [of t p]
          seqp2_Ok [OF w2(1)] seqp_Ok [of "update_wp _ _", OF w3(1) [unfolded Suc_eq_plus1 [symmetric]]]
          seqp_Ok [of "update_wp _ _", OF w4(1) [unfolded Suc_eq_plus1 [symmetric]]] w5(1))
    moreover have "builds {(s, di)} w w5"
    proof (rule builds_trans_new)
      show "builds {(s, di)} w w1" by (rule builds_mono [OF w1(2)]) simp
      show "builds ({(?f, idx), (?f, idx + 1)} \<union> {(s, di)}) w1 w5" by (rule builds_trans [OF b4 w5(2)])
      show "used w u \<le> j" if "(u, j) \<in> {(?f, idx), (?f, idx + 1)} \<union> {(s, di)} - {(s, di)}" "unat u < nsegs w" for u j
        using that w1(3) by (auto simp: new_words_def)
    qed
    moreover have "pad_ok w5 s di" "denotes w5 s di = denotes w t si"
    proof -
      have "unat t < nsegs w5" using t1 w2(3) w3(3) w4(3) w5(3) by simp
      then show "pad_ok w5 s di"
        using w5(4-7) builds_in_use [OF w5(2) pads4] far4 words5(1) w2(4) by (simp add: pad_ok_def)
      have "uint (far_position_in_segment (word_at w2 ?f idx)) = int p" by (simp flip: w2(5))
      then show "denotes w5 s di = denotes w t si"
        using w5(4-7) words5 far4 w2(4,5) w3(4) w4(4) k p(1)
        by (simp add: denotes_direct [of w t si] Let_def denotes_def [of w5] locate_def [of w5])
    qed
    ultimately show ?thesis by blast
  qed
qed


text \<open>C20: \<open>transfer_pointer\<close> moves a pointer without changing what it denotes: the destination
  leads to the same object with the same kind and size, through a landing pad (or a double one, when
  the object's segment is full) when the two pointers lie in different segments. Only the destination
  is written, of the words in use.\<close>

theorem transfer_pointer_keeps_object:
  assumes wf: "wf_builder w" and d: "in_use w ds di 1" "wp_is_null (word_at w ds di)"
    and src: "in_use w ss si 1" "pad_ok w ss si" "(ds, di) \<notin> insert (ss, si) (pad_words w ss si)"
    and pos: "is_positional (word_at w ss si) \<and> \<not> wp_is_null (word_at w ss si) \<Longrightarrow>
      0 \<le> int si + target_offset (word_at w ss si) \<and> int si + target_offset (word_at w ss si) < 2 ^ 29"
    and segs: "nsegs w < 2 ^ 32"
  shows "\<exists>w'. transfer_pointer ds (at_word ds di) ss (at_word ss si) w = (Ok (), w') \<and>
    builds {(ds, di)} w w' \<and> pad_ok w' ds di \<and> denotes w' ds di = denotes w ss si"
proof -
  let ?r = "word_at w ss si"
  note tags = bindp_Ok [of "deref_wp _ _", OF deref_wp_run [OF in_use_has_words [OF wf d(1)]]]
    bindp_Ok [of "deref_wp _ _", OF deref_wp_run [OF in_use_has_words [OF wf src(1)]]]
  consider (null) "wp_is_null ?r" | (pos) "\<not> wp_is_null ?r" "is_positional ?r" | (far) "\<not> wp_is_null ?r" "kind ?r = KFar"
    | (cap) "\<not> wp_is_null ?r" "kind ?r = KOther"
    using is_positional_iff [of ?r] by (cases "kind ?r") auto
  then show ?thesis
  proof cases
    case null
    obtain w1 where w1: "write_zeros (at_word ds di) 8 w = (Ok (), w1)" "builds {(ds, di)} w w1"
      "word_at w1 ds di = \<lparr>offset_and_kind = 0, upper32bits = 0\<rparr>"
      using store_wp_run [OF wf d(1), of "\<lparr>offset_and_kind = 0, upper32bits = 0\<rparr>"]
      by (auto simp: store_wp_def write_zeros_def encode_wire_pointer_def numeral_eq_Suc)
    have "kind \<lparr>offset_and_kind = 0, upper32bits = 0\<rparr> = KStruct"
      by (simp add: kind_def kind_outcome_def wire_pointer_kind_from_def)
    moreover have "transfer_pointer ds (at_word ds di) ss (at_word ss si) w = (Ok (), w1)"
      using w1(1) null by (simp add: transfer_pointer_def tags d(2))
    ultimately show ?thesis
      using w1(2,3) null unfolding null_word by (intro exI [of _ w1]) (simp add: pad_ok_def denotes_direct)
  next
    case pos
    then obtain p where p: "int si + target_offset ?r = int p" "p < 2 ^ 29"
      using assms(7) by (metis int_nat_eq nat_less_numeral_power_cancel_iff of_nat_less_numeral_power_cancel_iff)
    have target: "ptr_add (at_word ss si) (int BYTES_PER_WORD * target_offset ?r) = at_word ss p"
      using p(1) by (simp add: at_word_def ptr_add.simps algebra_simps)
    have "transfer_pointer ds (at_word ds di) ss (at_word ss si) w =
        transfer_pointer_split ds (at_word ds di) ss (at_word ss si) (at_word ss p) w"
      using pos d(2) target by (simp add: transfer_pointer_def tags)
    then show ?thesis
      using transfer_same_segment [OF wf _ _ pos(2) p, of di] transfer_other_segment [OF wf d(1) src(1) pos(2) p _ segs] d(1) src(1)
      by (cases "ds = ss") auto
  next
    case far
    let ?fs = "far_segment_id ?r" and ?fp = "unat (far_position_in_segment ?r)"
    obtain w1 where w1: "store_wp (at_word ds di) ?r w = (Ok (), w1)" "builds {(ds, di)} w w1" "word_at w1 ds di = ?r"
      "nsegs w1 = nsegs w"
      using store_wp_run [OF wf d(1)] by blast
    have same: "word_at w1 ?fs j = word_at w ?fs j" if "in_use w ?fs j 1" "(?fs, j) \<in> pad_words w ss si" for j
      by (rule builds_word [OF w1(2) wf that(1)]) (use src(3) that(2) in auto)
    have pad: "in_use w ?fs ?fp (if is_double_far ?r then 2 else 1)" using src(2) far by (simp add: pad_ok_def Let_def)
    have first: "word_at w1 ?fs ?fp = word_at w ?fs ?fp"
      by (rule same [OF in_use_sub [OF pad]]) (use far in \<open>auto simp: pad_words_def Let_def words_def\<close>)
    have second: "is_double_far ?r \<Longrightarrow> word_at w1 ?fs (?fp + 1) = word_at w ?fs (?fp + 1)"
      by (rule same [OF in_use_sub [OF pad]]) (use far in \<open>auto simp: pad_words_def Let_def words_def\<close>)
    have "transfer_pointer ds (at_word ds di) ss (at_word ss si) w = (Ok (), w1)"
      using w1(1) far by (simp add: transfer_pointer_def tags d(2) is_positional_iff)
    moreover have "pad_ok w1 ds di"
      using src(2) w1(3,4) first builds_in_use [OF w1(2)] by (auto simp: pad_ok_def Let_def)
    moreover have "denotes w1 ds di = denotes w ss si"
      using far w1(3) first second by (auto simp: denotes_def locate_def Let_def)
    ultimately show ?thesis using w1(2) by blast
  next
    case cap
    obtain w1 where w1: "store_wp (at_word ds di) ?r w = (Ok (), w1)" "builds {(ds, di)} w w1" "word_at w1 ds di = ?r"
      using store_wp_run [OF wf d(1)] by blast
    have "transfer_pointer ds (at_word ds di) ss (at_word ss si) w = (Ok (), w1)"
      using w1(1) cap by (simp add: transfer_pointer_def tags d(2) is_positional_iff)
    with w1(2,3) cap(2) show ?thesis
      by (intro exI [of _ w1]) (simp add: pad_ok_def denotes_direct)
  qed
qed


text \<open>Two pointers in one segment: the second is null and takes over the text of the first.\<close>

lemma sample_orphan_words:
  "word_at (sample_of [5, 0, 0, 0, 26, 0, 0, 0, 0, 0, 0, 0, 0, 0, 0, 0, 104, 105, 0, 0, 0, 0, 0, 0]) 0 0 =
     \<lparr>offset_and_kind = 5, upper32bits = 26\<rparr>"
  "word_at (sample_of [5, 0, 0, 0, 26, 0, 0, 0, 0, 0, 0, 0, 0, 0, 0, 0, 104, 105, 0, 0, 0, 0, 0, 0]) 0 (Suc 0) =
     \<lparr>offset_and_kind = 0, upper32bits = 0\<rparr>"
  by (simp_all add: sample_of_def word_at_def bmem_def decode_wire_pointer_def take_at_def)

theorem transfer_pointer_keeps_object_witness:
  "\<exists>w'. transfer_pointer 0 (at_word 0 1) 0 (at_word 0 0)
      (sample_of [5, 0, 0, 0, 26, 0, 0, 0, 0, 0, 0, 0, 0, 0, 0, 0, 104, 105, 0, 0, 0, 0, 0, 0]) = (Ok (), w') \<and>
    builds {(0, 1)} (sample_of [5, 0, 0, 0, 26, 0, 0, 0, 0, 0, 0, 0, 0, 0, 0, 0, 104, 105, 0, 0, 0, 0, 0, 0]) w' \<and>
    pad_ok w' 0 1 \<and> denotes w' 0 1 =
      denotes (sample_of [5, 0, 0, 0, 26, 0, 0, 0, 0, 0, 0, 0, 0, 0, 0, 0, 104, 105, 0, 0, 0, 0, 0, 0]) 0 0"
proof -
  have "kind \<lparr>offset_and_kind = 5, upper32bits = 26\<rparr> = KList" "target_offset \<lparr>offset_and_kind = 5, upper32bits = 26\<rparr> = 2"
    by (simp_all add: kind_def kind_outcome_def wire_pointer_kind_from_def target_offset_def)
  then show ?thesis
    by (intro transfer_pointer_keeps_object)
      (simp_all add: sample_of_simps sample_orphan_words null_word pad_ok_def pad_words_def)
qed

end
