(* ===== verification/Layout_Build.thy ===== *)
theory Layout_Build
  imports Layout_Alloc
begin

text \<open>
  The writing half of \<^verbatim>\<open>capnp/src/private/layout.rs\<close>: the functions of \<open>wire_helpers\<close> that
  initialise, copy and upgrade objects.

  A builder is the position of its object; the arena it writes to is the builder arena of the
  world. The first argument \<open>D\<close> of the functions that may overwrite an object is the stack of
  \<open>zero_object\<close>. Arithmetic on \<open>u32\<close> that overflows is a panic.
\<close>

section \<open>Builders\<close>

record struct_builder =
  sb_segment_id :: u32
  sb_cap_table :: cap_table
  sb_data :: ptr
  sb_pointers :: ptr
  sb_data_size :: nat
  sb_pointer_count :: nat

record list_builder =
  lb_segment_id :: u32
  lb_cap_table :: cap_table
  lb_ptr :: ptr
  lb_element_count :: nat
  lb_step :: nat
  lb_struct_data_size :: nat
  lb_struct_pointer_count :: nat
  lb_element_size :: element_size

definition list_builder_new_default :: list_builder where
  "list_builder_new_default = \<lparr>lb_segment_id = 0, lb_cap_table = None, lb_ptr = PNull,
     lb_element_count = 0, lb_step = 0, lb_struct_data_size = 0, lb_struct_pointer_count = 0,
     lb_element_size = Void\<rparr>"

text \<open>\<open>text::Builder\<close> and \<open>data::Builder\<close>: a slice of the message; a text has a write position.\<close>

record text_builder =
  tb_ptr :: ptr
  tb_len :: nat
  tb_pos :: nat

record data_builder =
  db_ptr :: ptr
  db_len :: nat

section \<open>Copying bytes\<close>

definition overlapping :: "arena_ref \<Rightarrow> ptr \<Rightarrow> ptr \<Rightarrow> nat \<Rightarrow> bool" where
  "overlapping ar src dst n = (case (src, dst) of
     (PAt s i, PAt t j) \<Rightarrow> ar = ABuilder \<and> s = t \<and> i < j + int n \<and> j < i + int n
   | _ \<Rightarrow> False)"

text \<open>\<open>copy_nonoverlapping_check_zero\<close> of \<open>n\<close> bytes from memory of an arena into the message.\<close>

definition copy_nonoverlapping_check_zero :: "arena_ref \<Rightarrow> ptr \<Rightarrow> ptr \<Rightarrow> nat \<Rightarrow> (world, unit) prog" where
  "copy_nonoverlapping_check_zero ar src dst n =
     (if n > 0 then
        if overlapping ar src dst n then ub
        else bindp (deref ar src n) (\<lambda>bs. store dst bs)
      else ret ())"

definition u32_mul :: "nat \<Rightarrow> nat \<Rightarrow> ('s, nat) prog" where
  "u32_mul a b = (if a * b < 2 ^ 32 then ret (a * b) else panic)"

definition u32_add :: "nat \<Rightarrow> nat \<Rightarrow> ('s, nat) prog" where
  "u32_add a b = (if a + b < 2 ^ 32 then ret (a + b) else panic)"

definition target_ptr :: "ptr \<Rightarrow> wire_pointer \<Rightarrow> ptr" where
  "target_ptr p r = ptr_add p (int BYTES_PER_WORD * target_offset r)"

section \<open>Initialising objects\<close>

definition init_struct_pointer :: "nat \<Rightarrow> ptr \<Rightarrow> u32 \<Rightarrow> cap_table \<Rightarrow> struct_size \<Rightarrow> (world, struct_builder) prog" where
  "init_struct_pointer D reff segment_id ct sz =
     bindp (allocate D reff segment_id (struct_size_total sz) KStruct) (\<lambda>(p, reff, segment_id).
     seqp (update_wp reff (set_struct_size sz))
     (ret \<lparr>sb_segment_id = segment_id, sb_cap_table = ct, sb_data = p,
           sb_pointers = word_ptr p (unat (ss_data sz)),
           sb_data_size = unat (ss_data sz) * BITS_PER_WORD, sb_pointer_count = unat (ss_pointers sz)\<rparr>))"

definition init_list_pointer ::
  "nat \<Rightarrow> ptr \<Rightarrow> u32 \<Rightarrow> cap_table \<Rightarrow> nat \<Rightarrow> element_size \<Rightarrow> (world, list_builder) prog" where
  "init_list_pointer D reff segment_id ct element_count es =
     seqp (assertp (es \<noteq> InlineComposite))
     (let data_size = data_bits_per_element es; pointer_count = pointers_per_element es;
          step = data_size + pointer_count * BITS_PER_POINTER;
          word_count = round_bits_up_to_words (element_count * step) in
      bindp (allocate D reff segment_id word_count KList) (\<lambda>(p, reff, segment_id).
      seqp (update_wp_checked reff (set_list_size_and_count es (of_nat element_count)))
      (ret \<lparr>lb_segment_id = segment_id, lb_cap_table = ct, lb_ptr = p, lb_element_count = element_count,
            lb_step = step, lb_struct_data_size = data_size, lb_struct_pointer_count = pointer_count,
            lb_element_size = es\<rparr>)))"

definition init_struct_list_pointer ::
  "nat \<Rightarrow> ptr \<Rightarrow> u32 \<Rightarrow> cap_table \<Rightarrow> nat \<Rightarrow> struct_size \<Rightarrow> (world, list_builder) prog" where
  "init_struct_list_pointer D reff segment_id ct element_count sz =
     (let words_per_element = struct_size_total sz in
      bindp (u32_mul element_count words_per_element) (\<lambda>word_count.
      bindp (u32_add POINTER_SIZE_IN_WORDS word_count) (\<lambda>n.
      bindp (allocate D reff segment_id n KList) (\<lambda>(p, reff, segment_id).
      seqp (update_wp_checked reff (set_list_inline_composite (of_nat word_count)))
      (seqp (update_wp p (set_kind_and_inline_composite_list_element_count KStruct (of_nat element_count)))
      (seqp (update_wp p (set_struct_size sz))
      (ret \<lparr>lb_segment_id = segment_id, lb_cap_table = ct, lb_ptr = word_ptr p POINTER_SIZE_IN_WORDS,
            lb_element_count = element_count, lb_step = words_per_element * BITS_PER_WORD,
            lb_struct_data_size = unat (ss_data sz) * BITS_PER_WORD,
            lb_struct_pointer_count = unat (ss_pointers sz), lb_element_size = InlineComposite\<rparr>)))))))"

text \<open>Texts and data come with the segment they lie in (\<open>SegmentAnd\<close>).\<close>

definition init_text_pointer :: "nat \<Rightarrow> ptr \<Rightarrow> u32 \<Rightarrow> nat \<Rightarrow> (world, u32 \<times> text_builder) prog" where
  "init_text_pointer D reff segment_id n =
     bindp (u32_add n 1) (\<lambda>byte_size.
     bindp (round_bytes_up_to_words byte_size) (\<lambda>words.
     bindp (allocate D reff segment_id words KList) (\<lambda>(p, reff, segment_id).
     seqp (update_wp_checked reff (set_list_size_and_count Byte (of_nat byte_size)))
     (ret (segment_id, \<lparr>tb_ptr = p, tb_len = n, tb_pos = 0\<rparr>)))))"

text \<open>The length is truncated to \<open>u32\<close>; \<open>copy_from_slice\<close> panics when the lengths differ.\<close>

definition set_text_pointer :: "nat \<Rightarrow> ptr \<Rightarrow> u32 \<Rightarrow> u8 list \<Rightarrow> (world, u32 \<times> text_builder) prog" where
  "set_text_pointer D reff segment_id value_bytes =
     bindp (init_text_pointer D reff segment_id (length value_bytes mod 2 ^ 32)) (\<lambda>(sid, allocation).
     seqp (assertp (tb_len allocation = length value_bytes))
     (seqp (store (tb_ptr allocation) value_bytes)
     (ret (sid, allocation))))"

definition init_data_pointer :: "nat \<Rightarrow> ptr \<Rightarrow> u32 \<Rightarrow> nat \<Rightarrow> (world, u32 \<times> data_builder) prog" where
  "init_data_pointer D reff segment_id n =
     bindp (round_bytes_up_to_words n) (\<lambda>words.
     bindp (allocate D reff segment_id words KList) (\<lambda>(p, reff, segment_id).
     seqp (update_wp_checked reff (set_list_size_and_count Byte (of_nat n)))
     (ret (segment_id, \<lparr>db_ptr = p, db_len = n\<rparr>))))"

text \<open>Here all the bytes are copied, however many were allocated.\<close>

definition set_data_pointer :: "nat \<Rightarrow> ptr \<Rightarrow> u32 \<Rightarrow> u8 list \<Rightarrow> (world, u32 \<times> data_builder) prog" where
  "set_data_pointer D reff segment_id value =
     bindp (init_data_pointer D reff segment_id (length value mod 2 ^ 32)) (\<lambda>(sid, allocation).
     seqp (store (db_ptr allocation) value)
     (ret (sid, allocation)))"

definition set_capability_pointer :: "cap_table \<Rightarrow> ptr \<Rightarrow> nat \<Rightarrow> (world, unit) prog" where
  "set_capability_pointer ct reff cap =
     bindp (inject_cap ct cap) (\<lambda>i. update_wp reff (set_cap (of_nat i)))"

section \<open>Copying a trusted message\<close>

text \<open>
  \<open>copy_message\<close> copies the default value of a field, static words compiled into the program that
  are not checked. Its capability table is only passed on. The result is the new target, the new
  pointer and its segment.
\<close>

function copy_message :: "nat \<Rightarrow> u8 list \<Rightarrow> u32 \<Rightarrow> ptr \<Rightarrow> ptr \<Rightarrow> (world, ptr \<times> ptr \<times> u32) prog"
  and copy_struct :: "nat \<Rightarrow> u8 list \<Rightarrow> u32 \<Rightarrow> ptr \<Rightarrow> ptr \<Rightarrow> nat \<Rightarrow> nat \<Rightarrow> (world, unit) prog" where
  "copy_message D d segment_id dst src =
     (if D = 0 then panic
      else
      bindp (deref_wp (ANull d) src) (\<lambda>r.
      case kind r of
        KStruct \<Rightarrow>
          if wp_is_null r then seqp (write_zeros dst BYTES_PER_WORD) (ret (PNull, dst, segment_id))
          else
          let src_ptr = target_ptr src r in
          bindp (allocate (D - 1) dst segment_id (struct_word_size r) KStruct) (\<lambda>(dst_ptr, dst, segment_id).
          seqp (copy_struct (D - 1) d segment_id dst_ptr src_ptr
                 (unat (struct_data_size r)) (unat (struct_ptr_count r)))
          (seqp (update_wp dst (set_struct_size_from_pieces (struct_data_size r) (struct_ptr_count r)))
          (ret (dst_ptr, dst, segment_id))))
      | KList \<Rightarrow>
          let es = list_element_size r; count = unat (list_element_count r); src_ptr = target_ptr src r in
          if es = Pointer then
            bindp (allocate (D - 1) dst segment_id count KList) (\<lambda>(dst_refs, dst, segment_id).
            seqp (foldp (\<lambda>i _. seqp (copy_message (D - 1) d segment_id (word_ptr dst_refs i) (word_ptr src_ptr i)) (ret ()))
                    [0..<count] ())
            (seqp (update_wp_checked dst (set_list_size_and_count Pointer (list_element_count r)))
            (ret (dst_refs, dst, segment_id))))
          else if es = InlineComposite then
            let wc = unat (list_inline_composite_word_count r) in
            bindp (allocate (D - 1) dst segment_id (wc + 1) KList) (\<lambda>(dst_ptr, dst, segment_id).
            seqp (update_wp_checked dst (set_list_inline_composite (list_inline_composite_word_count r)))
            (bindp (deref_wp (ANull d) src_ptr) (\<lambda>tag.
            seqp (store_wp dst_ptr tag)
            (if kind tag \<noteq> KStruct then panic
             else
             seqp (foldp (\<lambda>_ (src_element, dst_element).
                 seqp (copy_struct (D - 1) d segment_id dst_element src_element
                        (unat (struct_data_size tag)) (unat (struct_ptr_count tag)))
                 (ret (word_ptr src_element (struct_word_size tag), word_ptr dst_element (struct_word_size tag))))
               [0..<unat (inline_composite_list_element_count tag)] (word_ptr src_ptr 1, word_ptr dst_ptr 1))
             (ret (dst_ptr, dst, segment_id))))))
          else
            let word_count = round_bits_up_to_words (count * data_bits_per_element es) in
            bindp (allocate (D - 1) dst segment_id word_count KList) (\<lambda>(dst_ptr, dst, segment_id).
            seqp (copy_nonoverlapping_check_zero (ANull d) src_ptr dst_ptr (word_count * BYTES_PER_WORD))
            (seqp (update_wp_checked dst (set_list_size_and_count es (list_element_count r)))
            (ret (dst_ptr, dst, segment_id))))
      | KOther \<Rightarrow> panic
      | KFar \<Rightarrow> panic))"
| "copy_struct D d segment_id dst src data_size pointer_count =
     (if D = 0 then panic
      else
      seqp (copy_nonoverlapping_check_zero (ANull d) src dst (data_size * BYTES_PER_WORD))
      (foldp (\<lambda>i _. seqp (copy_message (D - 1) d segment_id (word_ptr dst (data_size + i)) (word_ptr src (data_size + i))) (ret ()))
         [0..<pointer_count] ()))"
  by pat_completeness auto
termination
  by (relation "measure (\<lambda>x. case x of Inl (D, _) \<Rightarrow> D | Inr (D, _) \<Rightarrow> D)") auto

declare copy_message.simps [simp del] copy_struct.simps [simp del]

section \<open>Getting existing objects for writing\<close>

text \<open>
  The common start: a null pointer gives \<open>None\<close>, or a copy of the default value; with
  \<open>check_null\<close> a default value that is itself null counts as none. The result is the target,
  the pointer and its segment.
\<close>

definition writable_start ::
  "bool \<Rightarrow> nat \<Rightarrow> ptr \<Rightarrow> u32 \<Rightarrow> u8 list option \<Rightarrow> (world, (ptr \<times> ptr \<times> u32) option) prog" where
  "writable_start check_null D reff segment_id dflt =
     bindp (deref_wp ABuilder reff) (\<lambda>r.
     if \<not> wp_is_null r then ret (Some (target_ptr reff r, reff, segment_id))
     else case dflt of
       None \<Rightarrow> ret None
     | Some d \<Rightarrow>
         if check_null then
           bindp (deref_wp (ANull d) (PAt 0 0)) (\<lambda>dr.
           if wp_is_null dr then ret None
           else bindp (copy_message D d segment_id reff (PAt 0 0)) (\<lambda>x. ret (Some x)))
         else bindp (copy_message D d segment_id reff (PAt 0 0)) (\<lambda>x. ret (Some x)))"

definition get_writable_struct_pointer ::
  "nat \<Rightarrow> ptr \<Rightarrow> u32 \<Rightarrow> cap_table \<Rightarrow> struct_size \<Rightarrow> u8 list option \<Rightarrow> (world, struct_builder) prog" where
  "get_writable_struct_pointer D reff0 segment_id0 ct sz dflt =
     bindp (writable_start True D reff0 segment_id0 dflt) (\<lambda>start. case start of
       None \<Rightarrow> init_struct_pointer D reff0 segment_id0 ct sz
     | Some (ref_target, reff, segment_id) \<Rightarrow>
         bindp (follow_builder_fars reff ref_target segment_id) (\<lambda>(old_ptr, old_ref, old_segment_id).
         bindp (deref_wp ABuilder old_ref) (\<lambda>r.
         if kind r \<noteq> KStruct then err MessageContainsNonStructPointerWhereStructPointerWasExpected
         else
         let old_data_size = struct_data_size r; old_pointer_count = struct_ptr_count r;
             old_pointer_section = word_ptr old_ptr (unat old_data_size) in
         if old_data_size < ss_data sz \<or> old_pointer_count < ss_pointers sz then
           let new_data_size = max old_data_size (ss_data sz);
               new_pointer_count = max old_pointer_count (ss_pointers sz);
               total_size = unat new_data_size + unat new_pointer_count * WORDS_PER_POINTER in
           seqp (zero_pointer_and_fars segment_id reff)
           (bindp (allocate D reff segment_id total_size KStruct) (\<lambda>(p, reff, segment_id).
           seqp (update_wp reff (set_struct_size_from_pieces new_data_size new_pointer_count))
           (seqp (copy_nonoverlapping_check_zero ABuilder old_ptr p (unat old_data_size * BYTES_PER_WORD))
           (let new_pointer_section = word_ptr p (unat new_data_size) in
           seqp (foldp (\<lambda>i _. transfer_pointer segment_id (word_ptr new_pointer_section i) old_segment_id
                                (word_ptr old_pointer_section i))
                   [0..<unat old_pointer_count] ())
           (seqp (write_zeros old_ptr ((unat old_data_size + unat old_pointer_count) * BYTES_PER_WORD))
           (ret \<lparr>sb_segment_id = segment_id, sb_cap_table = ct, sb_data = p, sb_pointers = new_pointer_section,
                 sb_data_size = unat new_data_size * BITS_PER_WORD,
                 sb_pointer_count = unat new_pointer_count\<rparr>))))))
         else
           ret \<lparr>sb_segment_id = old_segment_id, sb_cap_table = ct, sb_data = old_ptr,
                sb_pointers = old_pointer_section, sb_data_size = unat old_data_size * BITS_PER_WORD,
                sb_pointer_count = unat old_pointer_count\<rparr>)))"

text \<open>The test of an existing inline composite list against a primitive or pointer element.\<close>

definition upgraded_list_matches :: "element_size \<Rightarrow> nat \<Rightarrow> nat \<Rightarrow> error_kind option" where
  "upgraded_list_matches es data_size pointer_count = (case es of
     Void \<Rightarrow> None
   | Bit \<Rightarrow> Some FoundStructListWhereBitListWasExpected
   | Pointer \<Rightarrow> if pointer_count < 1 then Some ExistingListValueIsIncompatibleWithExpectedType else None
   | InlineComposite \<Rightarrow> None
   | _ \<Rightarrow> if data_size < 1 then Some ExistingListValueIsIncompatibleWithExpectedType else None)"

definition get_writable_list_pointer ::
  "nat \<Rightarrow> ptr \<Rightarrow> u32 \<Rightarrow> cap_table \<Rightarrow> element_size \<Rightarrow> u8 list option \<Rightarrow> (world, list_builder) prog" where
  "get_writable_list_pointer D orig_ref0 orig_segment_id0 ct es dflt =
     seqp (assertp (es \<noteq> InlineComposite))
     (bindp (writable_start True D orig_ref0 orig_segment_id0 dflt) (\<lambda>start. case start of
       None \<Rightarrow> ret list_builder_new_default
     | Some (orig_ref_target, orig_ref, orig_segment_id) \<Rightarrow>
         bindp (follow_builder_fars orig_ref orig_ref_target orig_segment_id) (\<lambda>(p, reff, segment_id).
         bindp (deref_wp ABuilder reff) (\<lambda>r.
         if kind r \<noteq> KList then err ExistingPointerIsNotAList
         else let old_size = list_element_size r in
         if old_size = InlineComposite then
           bindp (deref_wp ABuilder p) (\<lambda>tag.
           if kind tag \<noteq> KStruct then err InlineCompositeListWithNonStructElementsNotSupported
           else
           let p1 = word_ptr p 1; data_size = unat (struct_data_size tag);
               pointer_count = unat (struct_ptr_count tag) in
           seqp (fail_if (upgraded_list_matches es data_size pointer_count))
           (ret \<lparr>lb_segment_id = segment_id, lb_cap_table = ct,
                 lb_ptr = (if es = Pointer then word_ptr p1 data_size else p1),
                 lb_element_count = unat (inline_composite_list_element_count tag),
                 lb_step = struct_word_size tag * BITS_PER_WORD,
                 lb_struct_data_size = data_size * BITS_PER_WORD,
                 lb_struct_pointer_count = pointer_count, lb_element_size = InlineComposite\<rparr>))
         else
           let data_size = data_bits_per_element old_size; pointer_count = pointers_per_element old_size in
           if data_size < data_bits_per_element es \<or> pointer_count < pointers_per_element es
           then err ExistingListValueIsIncompatibleWithExpectedType
           else
           ret \<lparr>lb_segment_id = segment_id, lb_cap_table = ct, lb_ptr = p,
                lb_element_count = unat (list_element_count r),
                lb_step = data_size + pointer_count * BITS_PER_POINTER, lb_struct_data_size = data_size,
                lb_struct_pointer_count = pointer_count, lb_element_size = old_size\<rparr>))))"

text \<open>
  The new list of an upgrade: room for \<open>total\<close> words behind a tag, reached from \<open>orig_ref\<close>, whose
  old landing pads are zeroed but not its object. The result is the first element and the segment.
\<close>

definition start_list_upgrade ::
  "nat \<Rightarrow> ptr \<Rightarrow> u32 \<Rightarrow> nat \<Rightarrow> u32 \<Rightarrow> u16 \<Rightarrow> u16 \<Rightarrow> (world, ptr \<times> u32) prog" where
  "start_list_upgrade D orig_ref orig_segment_id total_words element_count new_data_size new_pointer_count =
     seqp (zero_pointer_and_fars orig_segment_id orig_ref)
     (bindp (u32_add total_words POINTER_SIZE_IN_WORDS) (\<lambda>n.
     bindp (allocate D orig_ref orig_segment_id n KList) (\<lambda>(new_ptr, new_ref, new_segment_id).
     seqp (update_wp_checked new_ref (set_list_inline_composite (of_nat total_words)))
     (seqp (update_wp new_ptr (set_kind_and_inline_composite_list_element_count KStruct element_count))
     (seqp (update_wp new_ptr (set_struct_size_from_pieces new_data_size new_pointer_count))
     (ret (word_ptr new_ptr 1, new_segment_id)))))))"

definition get_writable_struct_list_pointer ::
  "nat \<Rightarrow> ptr \<Rightarrow> u32 \<Rightarrow> cap_table \<Rightarrow> struct_size \<Rightarrow> u8 list option \<Rightarrow> (world, list_builder) prog" where
  "get_writable_struct_list_pointer D orig_ref0 orig_segment_id0 ct sz dflt =
     bindp (writable_start True D orig_ref0 orig_segment_id0 dflt) (\<lambda>start. case start of
       None \<Rightarrow> ret list_builder_new_default
     | Some (orig_ref_target, orig_ref, orig_segment_id) \<Rightarrow>
         bindp (follow_builder_fars orig_ref orig_ref_target orig_segment_id) (\<lambda>(old_ptr, old_ref, old_segment_id).
         bindp (deref_wp ABuilder old_ref) (\<lambda>r.
         if kind r \<noteq> KList then err ExistingPointerIsNotAList
         else let old_size = list_element_size r in
         if old_size = InlineComposite then
           bindp (deref_wp ABuilder old_ptr) (\<lambda>old_tag.
           if kind old_tag \<noteq> KStruct then err InlineCompositeListWithNonStructElementsNotSupported
           else
           let old_ptr = word_ptr old_ptr 1; old_data_size = struct_data_size old_tag;
               old_pointer_count = struct_ptr_count old_tag;
               old_step = unat old_data_size + unat old_pointer_count * WORDS_PER_POINTER;
               element_count = inline_composite_list_element_count old_tag in
           if old_data_size \<ge> ss_data sz \<and> old_pointer_count \<ge> ss_pointers sz then
             ret \<lparr>lb_segment_id = old_segment_id, lb_cap_table = ct, lb_ptr = old_ptr,
                  lb_element_count = unat element_count, lb_step = old_step * BITS_PER_WORD,
                  lb_struct_data_size = unat old_data_size * BITS_PER_WORD,
                  lb_struct_pointer_count = unat old_pointer_count, lb_element_size = InlineComposite\<rparr>
           else
             let new_data_size = max old_data_size (ss_data sz);
                 new_pointer_count = max old_pointer_count (ss_pointers sz);
                 new_step = unat new_data_size + unat new_pointer_count * WORDS_PER_POINTER in
             bindp (u32_mul new_step (unat element_count)) (\<lambda>total_size.
             bindp (start_list_upgrade D orig_ref orig_segment_id total_size element_count new_data_size
                      new_pointer_count) (\<lambda>(new_ptr, new_segment_id).
             seqp (foldp (\<lambda>_ (src, dst).
                 seqp (copy_nonoverlapping_check_zero ABuilder src dst (unat old_data_size * BYTES_PER_WORD))
                 (seqp (foldp (\<lambda>jj _. transfer_pointer new_segment_id (word_ptr (word_ptr dst (unat new_data_size)) jj)
                                       old_segment_id (word_ptr (word_ptr src (unat old_data_size)) jj))
                          [0..<unat old_pointer_count] ())
                 (ret (word_ptr src old_step, word_ptr dst new_step))))
               [0..<unat element_count] (old_ptr, new_ptr))
             (seqp (write_zeros (ptr_add old_ptr (- int BYTES_PER_WORD)) (old_step * unat element_count * BYTES_PER_WORD))
             (ret \<lparr>lb_segment_id = new_segment_id, lb_cap_table = ct, lb_ptr = new_ptr,
                   lb_element_count = unat element_count, lb_step = new_step * BITS_PER_WORD,
                   lb_struct_data_size = unat new_data_size * BITS_PER_WORD,
                   lb_struct_pointer_count = unat new_pointer_count, lb_element_size = InlineComposite\<rparr>)))))
         else
           let old_data_size = data_bits_per_element old_size; old_pointer_count = pointers_per_element old_size;
               old_step = old_data_size + old_pointer_count * BITS_PER_POINTER;
               element_count = list_element_count r in
           if old_size = Void then
             init_struct_list_pointer D orig_ref orig_segment_id ct (unat element_count) sz
           else if old_size = Bit then err FoundBitListWhereStructListWasExpected
           else
             let new_pointer_count = (if old_size = Pointer then max (ss_pointers sz) 1 else ss_pointers sz);
                 new_data_size = (if old_size = Pointer then ss_data sz else max (ss_data sz) 1);
                 new_step = unat new_data_size + unat new_pointer_count * WORDS_PER_POINTER in
             bindp (u32_mul (unat element_count) new_step) (\<lambda>total_words.
             bindp (start_list_upgrade D orig_ref orig_segment_id total_words element_count new_data_size
                      new_pointer_count) (\<lambda>(new_ptr, new_segment_id).
             seqp (if old_size = Pointer then
                 foldp (\<lambda>i _. transfer_pointer new_segment_id (word_ptr (word_ptr new_ptr (unat new_data_size)) (i * new_step))
                                old_segment_id (word_ptr old_ptr i))
                   [0..<unat element_count] ()
               else
                 let old_byte_step = old_data_size div BITS_PER_BYTE in
                 foldp (\<lambda>i _. copy_nonoverlapping_check_zero ABuilder (ptr_add old_ptr (int (i * old_byte_step)))
                                (word_ptr new_ptr (i * new_step)) old_byte_step)
                   [0..<unat element_count] ())
             (seqp (write_zeros old_ptr (round_bits_up_to_bytes (old_step * unat element_count)))
             (ret \<lparr>lb_segment_id = new_segment_id, lb_cap_table = ct, lb_ptr = new_ptr,
                   lb_element_count = unat element_count, lb_step = new_step * BITS_PER_WORD,
                   lb_struct_data_size = unat new_data_size * BITS_PER_WORD,
                   lb_struct_pointer_count = unat new_pointer_count, lb_element_size = InlineComposite\<rparr>)))))))"

definition get_writable_text_pointer :: "nat \<Rightarrow> ptr \<Rightarrow> u32 \<Rightarrow> u8 list option \<Rightarrow> (world, text_builder) prog" where
  "get_writable_text_pointer D reff0 segment_id0 dflt =
     bindp (writable_start False D reff0 segment_id0 dflt) (\<lambda>start. case start of
       None \<Rightarrow> ret \<lparr>tb_ptr = PNull, tb_len = 0, tb_pos = 0\<rparr>
     | Some (ref_target, reff, segment_id) \<Rightarrow>
         bindp (follow_builder_fars reff ref_target segment_id) (\<lambda>(p, reff, segment_id).
         bindp (deref_wp ABuilder reff) (\<lambda>r.
         if kind r \<noteq> KList then err ExistingPointerIsNotAList
         else if list_element_size r \<noteq> Byte then err ExistingListPointerIsNotByteSized
         else
         let count = unat (list_element_count r) in
         if count = 0 then err TextBlobMissingNULTerminator
         else
         bindp (deref ABuilder (ptr_add p (int (count - 1))) 1) (\<lambda>last.
         if last \<noteq> [0] then err TextBlobMissingNULTerminator
         else ret \<lparr>tb_ptr = p, tb_len = count - 1, tb_pos = count - 1\<rparr>))))"

definition get_writable_data_pointer :: "nat \<Rightarrow> ptr \<Rightarrow> u32 \<Rightarrow> u8 list option \<Rightarrow> (world, data_builder) prog" where
  "get_writable_data_pointer D reff0 segment_id0 dflt =
     bindp (writable_start False D reff0 segment_id0 dflt) (\<lambda>start. case start of
       None \<Rightarrow> ret \<lparr>db_ptr = PNull, db_len = 0\<rparr>
     | Some (ref_target, reff, segment_id) \<Rightarrow>
         bindp (follow_builder_fars reff ref_target segment_id) (\<lambda>(p, reff, segment_id).
         bindp (deref_wp ABuilder reff) (\<lambda>r.
         if kind r \<noteq> KList then err ExistingPointerIsNotAList
         else if list_element_size r \<noteq> Byte then err ExistingListPointerIsNotByteSized
         else ret \<lparr>db_ptr = p, db_len = unat (list_element_count r)\<rparr>)))"

section \<open>Copying objects into the message\<close>

text \<open>A range of a slice; out of range is a panic.\<close>

definition slice_range :: "nat \<Rightarrow> nat \<Rightarrow> u8 list \<Rightarrow> ('s, u8 list) prog" where
  "slice_range start end bs = (if start \<le> end \<and> end \<le> length bs then ret (take_at start (end - start) bs) else panic)"

text \<open>
  The loops of a canonical copy that drop trailing zero words of the data section and trailing
  null pointers. \<open>chop_data\<close> counts bytes, and compares a slice of the window with an array of
  eight zero bytes.
\<close>

function chop_data :: "struct_reader \<Rightarrow> nat \<Rightarrow> (world, nat) prog" where
  "chop_data value data_size =
     (if data_size = 0 then ret 0
      else
      let window = (if data_size mod BYTES_PER_WORD = 0 then BYTES_PER_WORD else data_size mod BYTES_PER_WORD) in
      bindp (sr_get_data_section_as_blob value) (\<lambda>blob.
      bindp (slice_range (data_size - window) data_size blob) (\<lambda>last_word.
      if last_word = replicate 8 0 then chop_data value (data_size - window) else ret data_size)))"
  by pat_completeness auto
termination by (relation "measure snd") auto

declare chop_data.simps [simp del]

primrec chop_words :: "struct_reader \<Rightarrow> nat \<Rightarrow> (world, nat) prog" where
  "chop_words se 0 = ret 0"
| "chop_words se (Suc n) =
     bindp (sr_get_data_section_as_blob se) (\<lambda>blob.
     bindp (slice_range (n * BYTES_PER_WORD) (Suc n * BYTES_PER_WORD) blob) (\<lambda>last_word.
     if last_word \<noteq> replicate 8 0 then ret (Suc n) else chop_words se n))"

primrec chop_pointers :: "struct_reader \<Rightarrow> nat \<Rightarrow> (world, nat) prog" where
  "chop_pointers value 0 = ret 0"
| "chop_pointers value (Suc n) =
     bindp (pr_is_null (sr_get_pointer_field n value)) (\<lambda>null.
     if null then chop_pointers value n else ret (Suc n))"

text \<open>The section sizes of a canonical copy of a struct, and of a list of structs.\<close>

definition canonical_struct_size :: "struct_reader \<Rightarrow> nat \<Rightarrow> (world, nat \<times> nat) prog" where
  "canonical_struct_size value data_size =
     (if \<not> (sr_data_size value = 1 \<or> sr_data_size value mod BITS_PER_BYTE = 0)
      then err StructReaderHadBitwidthOtherThan1
      else
      bindp (if sr_data_size value = 1
             then bindp (sr_get_bool_field 0 value) (\<lambda>b. ret (if b then data_size else 0))
             else chop_data value data_size) (\<lambda>data_size.
      bindp (chop_pointers value (sr_pointer_count value)) (\<lambda>ptr_count.
      ret (data_size, ptr_count))))"

definition canonical_list_size :: "list_reader \<Rightarrow> nat \<Rightarrow> nat \<Rightarrow> (world, nat \<times> nat) prog" where
  "canonical_list_size value decl_data_size decl_pointer_count =
     foldp (\<lambda>ec (data_size, ptr_count).
       let se = lr_get_struct_element ec value in
       bindp (chop_words se decl_data_size) (\<lambda>local_data_size.
       bindp (chop_pointers se decl_pointer_count) (\<lambda>local_ptr_count.
       ret (max data_size local_data_size, max ptr_count local_ptr_count))))
     [0..<lr_element_count value] (0, 0)"

text \<open>The element size of a list of data, by its step.\<close>

definition element_size_of_step :: "nat \<Rightarrow> ('s, element_size) prog" where
  "element_size_of_step step =
     (if step = 0 then ret Void else if step = 1 then ret Bit else if step = 8 then ret Byte
      else if step = 16 then ret TwoBytes else if step = 32 then ret FourBytes
      else if step = 64 then ret EightBytes else panic)"

text \<open>Copying the elements of a list of data: whole bytes, then the bits of the last one.\<close>

definition copy_list_data :: "list_reader \<Rightarrow> ptr \<Rightarrow> (world, unit) prog" where
  "copy_list_data value p =
     (let whole_byte_size = lr_element_count value * lr_step value div BITS_PER_BYTE;
          leftover_bits = lr_element_count value * lr_step value mod BITS_PER_BYTE in
      seqp (copy_nonoverlapping_check_zero (lr_arena value) (lr_ptr value) p whole_byte_size)
      (if leftover_bits > 0 then
         bindp (deref (lr_arena value) (ptr_add (lr_ptr value) (int whole_byte_size)) 1) (\<lambda>bs.
         store (ptr_add p (int whole_byte_size)) [(push_bit leftover_bits 1 - 1) AND hd bs])
       else ret ()))"

function copy_pointer ::
    "nat \<Rightarrow> u32 \<Rightarrow> cap_table \<Rightarrow> ptr \<Rightarrow> arena_ref \<Rightarrow> u32 \<Rightarrow> cap_table \<Rightarrow> ptr \<Rightarrow> int \<Rightarrow> bool \<Rightarrow> (world, u32 \<times> ptr) prog"
  and set_struct_pointer :: "nat \<Rightarrow> u32 \<Rightarrow> cap_table \<Rightarrow> ptr \<Rightarrow> struct_reader \<Rightarrow> bool \<Rightarrow> (world, u32 \<times> ptr) prog"
  and set_list_pointer :: "nat \<Rightarrow> u32 \<Rightarrow> cap_table \<Rightarrow> ptr \<Rightarrow> list_reader \<Rightarrow> bool \<Rightarrow> (world, u32 \<times> ptr) prog" where
  "copy_pointer D dst_segment_id dst_cap_table dst src_arena src_segment_id0 src_cap_table src0 nesting canonicalize =
     bindp (deref_wp src_arena src0) (\<lambda>r0.
     if wp_is_null r0 then seqp (write_zeros dst BYTES_PER_WORD) (ret (dst_segment_id, PNull))
     else
     bindp (follow_fars src_arena src0 src_segment_id0) (\<lambda>(p, src, src_segment_id).
     bindp (deref_wp src_arena src) (\<lambda>r.
     case kind r of
       KStruct \<Rightarrow>
         if nesting \<le> 0 then err MessageIsTooDeeplyNestedOrContainsCycles
         else
         seqp (bounds_check src_arena src_segment_id p (struct_word_size r) KStruct)
         (set_struct_pointer D dst_segment_id dst_cap_table dst
            \<lparr>sr_arena = src_arena, sr_cap_table = src_cap_table, sr_data = p,
             sr_pointers = ptr_add p (int (unat (struct_data_size r)) * int BYTES_PER_WORD),
             sr_segment_id = src_segment_id, sr_data_size = unat (struct_data_size r) * BITS_PER_WORD,
             sr_pointer_count = unat (struct_ptr_count r), sr_nesting_limit = nesting - 1\<rparr> canonicalize)
     | KList \<Rightarrow>
         let es = list_element_size r in
         if nesting \<le> 0 then err MessageIsTooDeeplyNestedOrContainsCycles
         else if es = InlineComposite then
           let wc = unat (list_inline_composite_word_count r) in
           seqp (bounds_check src_arena src_segment_id p (wc + 1) KList)
           (bindp (deref_wp src_arena p) (\<lambda>tag.
           if kind tag \<noteq> KStruct then err InlineCompositeListsOfNonStructTypeAreNotSupported
           else
           let element_count = unat (inline_composite_list_element_count tag);
               words_per_element = struct_word_size tag in
           if words_per_element * element_count > wc then err InlineCompositeListsElementsOverrunItsWordCount
           else
           seqp (if words_per_element = 0 then amplified_read src_arena element_count else ret ())
           (set_list_pointer D dst_segment_id dst_cap_table dst
              \<lparr>lr_arena = src_arena, lr_cap_table = src_cap_table, lr_ptr = ptr_add p (int BYTES_PER_WORD),
               lr_segment_id = src_segment_id, lr_element_count = element_count,
               lr_step = words_per_element * BITS_PER_WORD,
               lr_struct_data_size = unat (struct_data_size tag) * BITS_PER_WORD,
               lr_nesting_limit = nesting - 1, lr_struct_pointer_count = unat (struct_ptr_count tag),
               lr_element_size = es\<rparr> canonicalize)))
         else
           let data_size = data_bits_per_element es; pointer_count = pointers_per_element es;
               step = data_size + pointer_count * BITS_PER_POINTER;
               element_count = unat (list_element_count r);
               wc = round_bits_up_to_words (element_count * step) in
           seqp (bounds_check src_arena src_segment_id p wc KList)
           (seqp (if es = Void then amplified_read src_arena element_count else ret ())
           (set_list_pointer D dst_segment_id dst_cap_table dst
              \<lparr>lr_arena = src_arena, lr_cap_table = src_cap_table, lr_ptr = p, lr_segment_id = src_segment_id,
               lr_element_count = element_count, lr_step = step, lr_struct_data_size = data_size,
               lr_nesting_limit = nesting - 1, lr_struct_pointer_count = pointer_count,
               lr_element_size = es\<rparr> canonicalize))
     | KFar \<Rightarrow> err MalformedDoubleFarPointer
     | KOther \<Rightarrow>
         if \<not> is_capability r then err UnknownPointerType
         else if canonicalize then err CannotCreateACanonicalMessageWithACapability
         else
         bindp (extract_cap src_cap_table (unat (cap_index r))) (\<lambda>hook. case hook of
           Some cap \<Rightarrow> seqp (set_capability_pointer dst_cap_table dst cap) (ret (dst_segment_id, PNull))
         | None \<Rightarrow> err MessageContainsInvalidCapabilityPointer))))"
| "set_struct_pointer D segment_id ct reff value canonicalize =
     (let data_size = round_bits_up_to_bytes (sr_data_size value) in
      bindp (if canonicalize then canonical_struct_size value data_size
             else ret (data_size, sr_pointer_count value)) (\<lambda>(data_size, ptr_count).
      bindp (round_bytes_up_to_words data_size) (\<lambda>data_words.
      bindp (allocate D reff segment_id (data_words + ptr_count * WORDS_PER_POINTER) KStruct) (\<lambda>(p, reff, segment_id).
      seqp (update_wp reff (set_struct_size_from_pieces (of_nat data_words) (of_nat ptr_count)))
      (seqp (if sr_data_size value = 1 then
               if data_size \<noteq> 0 then bindp (sr_get_bool_field 0 value) (\<lambda>b. store p [of_bool b]) else ret ()
             else copy_nonoverlapping_check_zero (sr_arena value) (sr_data value) p data_size)
      (seqp (foldp (\<lambda>i _. seqp (copy_pointer D segment_id ct (word_ptr p (data_words + i)) (sr_arena value)
                                 (sr_segment_id value) (sr_cap_table value) (ptr_add (sr_pointers value) (int i * 8))
                                 (sr_nesting_limit value) canonicalize) (ret ()))
               [0..<ptr_count] ())
      (ret (segment_id, p))))))))"
| "set_list_pointer D segment_id ct reff value canonicalize =
     (let total_size = round_bits_up_to_words (lr_element_count value * lr_step value) in
      if lr_element_size value \<noteq> InlineComposite then
        bindp (allocate D reff segment_id total_size KList) (\<lambda>(p, reff, segment_id).
        seqp (if lr_struct_pointer_count value = 1 then
            seqp (update_wp_checked reff (set_list_size_and_count Pointer (of_nat (lr_element_count value))))
            (foldp (\<lambda>i _. seqp (copy_pointer D segment_id ct (word_ptr p i) (lr_arena value) (lr_segment_id value)
                                  (lr_cap_table value) (ptr_add (lr_ptr value) (int i * 8)) (lr_nesting_limit value)
                                  canonicalize) (ret ()))
               [0..<lr_element_count value] ())
          else
            bindp (element_size_of_step (lr_step value)) (\<lambda>es.
            seqp (update_wp_checked reff (set_list_size_and_count es (of_nat (lr_element_count value))))
            (copy_list_data value p)))
        (ret (segment_id, p)))
      else
        let decl_data_size = lr_struct_data_size value div BITS_PER_WORD;
            decl_pointer_count = lr_struct_pointer_count value in
        bindp (if canonicalize then
                 bindp (canonical_list_size value decl_data_size decl_pointer_count) (\<lambda>(data_size, ptr_count).
                 bindp (u32_mul (data_size + ptr_count) (lr_element_count value)) (\<lambda>total_size.
                 ret (data_size, ptr_count, total_size)))
               else ret (decl_data_size, decl_pointer_count, total_size)) (\<lambda>(data_size, ptr_count, total_size).
        bindp (u32_add total_size POINTER_SIZE_IN_WORDS) (\<lambda>n.
        bindp (allocate D reff segment_id n KList) (\<lambda>(p, reff, segment_id).
        seqp (update_wp_checked reff (set_list_inline_composite (of_nat total_size)))
        (seqp (update_wp p (set_kind_and_inline_composite_list_element_count KStruct (of_nat (lr_element_count value))))
        (seqp (update_wp p (set_struct_size_from_pieces (of_nat data_size) (of_nat ptr_count)))
        (seqp (foldp (\<lambda>_ (src, dst).
            seqp (copy_nonoverlapping_check_zero (lr_arena value) src dst (data_size * BYTES_PER_WORD))
            (seqp (foldp (\<lambda>i _. seqp (copy_pointer D segment_id ct (word_ptr (word_ptr dst data_size) i) (lr_arena value)
                                        (lr_segment_id value) (lr_cap_table value)
                                        (ptr_add (ptr_add src (int (decl_data_size * BYTES_PER_WORD))) (int i * 8))
                                        (lr_nesting_limit value) canonicalize) (ret ()))
                    [0..<ptr_count] ())
            (ret (ptr_add src (int ((decl_data_size + decl_pointer_count) * BYTES_PER_WORD)),
                  word_ptr dst (data_size + ptr_count)))))
          [0..<lr_element_count value] (lr_ptr value, word_ptr p 1))
        (ret (segment_id, p)))))))))"
  by pat_completeness auto
termination
  by (relation "measure (\<lambda>x. case x of Inl (_, _, _, _, _, _, _, _, nl, _) \<Rightarrow> 2 * nat nl
      | Inr (Inl (_, _, _, _, v, _)) \<Rightarrow> 2 * nat (sr_nesting_limit v) + 1
      | Inr (Inr (_, _, _, _, v, _)) \<Rightarrow> 2 * nat (lr_nesting_limit v) + 1)") auto

declare copy_pointer.simps [simp del] set_struct_pointer.simps [simp del] set_list_pointer.simps [simp del]

end
