(* ===== verification/Layout_Builders.thy ===== *)
theory Layout_Builders
  imports Layout_Build
begin

text \<open>
  The methods of \<open>PointerBuilder\<close>, \<open>StructBuilder\<close> and \<open>ListBuilder\<close>, and the primitive
  elements of a list under construction (\<^verbatim>\<open>capnp/src/private/layout.rs\<close>).
\<close>

section \<open>PointerBuilder\<close>

record pointer_builder =
  pb_segment_id :: u32
  pb_cap_table :: cap_table
  pb_pointer :: ptr

definition pb_get_root :: "u32 \<Rightarrow> ptr \<Rightarrow> pointer_builder" where
  "pb_get_root segment_id location = \<lparr>pb_segment_id = segment_id, pb_cap_table = None, pb_pointer = location\<rparr>"

definition pb_imbue :: "cap_table \<Rightarrow> pointer_builder \<Rightarrow> pointer_builder" where
  "pb_imbue ct self = self\<lparr>pb_cap_table := ct\<rparr>"

definition pb_is_null :: "pointer_builder \<Rightarrow> (world, bool) prog" where
  "pb_is_null self = bindp (deref_wp ABuilder (pb_pointer self)) (\<lambda>r. ret (wp_is_null r))"

definition pb_get_struct :: "nat \<Rightarrow> struct_size \<Rightarrow> u8 list option \<Rightarrow> pointer_builder \<Rightarrow> (world, struct_builder) prog" where
  "pb_get_struct D sz dflt self =
     get_writable_struct_pointer D (pb_pointer self) (pb_segment_id self) (pb_cap_table self) sz dflt"

definition pb_get_list :: "nat \<Rightarrow> element_size \<Rightarrow> u8 list option \<Rightarrow> pointer_builder \<Rightarrow> (world, list_builder) prog" where
  "pb_get_list D es dflt self =
     get_writable_list_pointer D (pb_pointer self) (pb_segment_id self) (pb_cap_table self) es dflt"

definition pb_get_struct_list :: "nat \<Rightarrow> struct_size \<Rightarrow> u8 list option \<Rightarrow> pointer_builder \<Rightarrow> (world, list_builder) prog" where
  "pb_get_struct_list D sz dflt self =
     get_writable_struct_list_pointer D (pb_pointer self) (pb_segment_id self) (pb_cap_table self) sz dflt"

definition pb_get_text :: "nat \<Rightarrow> u8 list option \<Rightarrow> pointer_builder \<Rightarrow> (world, text_builder) prog" where
  "pb_get_text D dflt self = get_writable_text_pointer D (pb_pointer self) (pb_segment_id self) dflt"

definition pb_get_data :: "nat \<Rightarrow> u8 list option \<Rightarrow> pointer_builder \<Rightarrow> (world, data_builder) prog" where
  "pb_get_data D dflt self = get_writable_data_pointer D (pb_pointer self) (pb_segment_id self) dflt"

definition pb_get_capability :: "pointer_builder \<Rightarrow> (world, nat) prog" where
  "pb_get_capability self = read_capability_pointer ABuilder (pb_segment_id self) (pb_cap_table self)
     (pb_pointer self) 0x7fffffff"

definition pb_init_struct :: "nat \<Rightarrow> struct_size \<Rightarrow> pointer_builder \<Rightarrow> (world, struct_builder) prog" where
  "pb_init_struct D sz self = init_struct_pointer D (pb_pointer self) (pb_segment_id self) (pb_cap_table self) sz"

definition pb_init_list :: "nat \<Rightarrow> element_size \<Rightarrow> nat \<Rightarrow> pointer_builder \<Rightarrow> (world, list_builder) prog" where
  "pb_init_list D es element_count self =
     init_list_pointer D (pb_pointer self) (pb_segment_id self) (pb_cap_table self) element_count es"

definition pb_init_struct_list :: "nat \<Rightarrow> nat \<Rightarrow> struct_size \<Rightarrow> pointer_builder \<Rightarrow> (world, list_builder) prog" where
  "pb_init_struct_list D element_count sz self =
     init_struct_list_pointer D (pb_pointer self) (pb_segment_id self) (pb_cap_table self) element_count sz"

definition pb_init_text :: "nat \<Rightarrow> nat \<Rightarrow> pointer_builder \<Rightarrow> (world, text_builder) prog" where
  "pb_init_text D n self =
     bindp (init_text_pointer D (pb_pointer self) (pb_segment_id self) n) (\<lambda>(_, v). ret v)"

definition pb_init_data :: "nat \<Rightarrow> nat \<Rightarrow> pointer_builder \<Rightarrow> (world, data_builder) prog" where
  "pb_init_data D n self =
     bindp (init_data_pointer D (pb_pointer self) (pb_segment_id self) n) (\<lambda>(_, v). ret v)"

definition pb_set_struct :: "nat \<Rightarrow> struct_reader \<Rightarrow> bool \<Rightarrow> pointer_builder \<Rightarrow> (world, unit) prog" where
  "pb_set_struct D value canonicalize self =
     seqp (set_struct_pointer D (pb_segment_id self) (pb_cap_table self) (pb_pointer self) value canonicalize) (ret ())"

definition pb_set_list :: "nat \<Rightarrow> list_reader \<Rightarrow> bool \<Rightarrow> pointer_builder \<Rightarrow> (world, unit) prog" where
  "pb_set_list D value canonicalize self =
     seqp (set_list_pointer D (pb_segment_id self) (pb_cap_table self) (pb_pointer self) value canonicalize) (ret ())"

definition pb_set_text :: "nat \<Rightarrow> u8 list \<Rightarrow> pointer_builder \<Rightarrow> (world, unit) prog" where
  "pb_set_text D value self = seqp (set_text_pointer D (pb_pointer self) (pb_segment_id self) value) (ret ())"

definition pb_set_data :: "nat \<Rightarrow> u8 list \<Rightarrow> pointer_builder \<Rightarrow> (world, unit) prog" where
  "pb_set_data D value self = seqp (set_data_pointer D (pb_pointer self) (pb_segment_id self) value) (ret ())"

definition pb_set_capability :: "nat \<Rightarrow> pointer_builder \<Rightarrow> (world, unit) prog" where
  "pb_set_capability cap self = set_capability_pointer (pb_cap_table self) (pb_pointer self) cap"

text \<open>Copying from a reader without a pointer clears the target, if it is a pointer at all.\<close>

definition pb_copy_from :: "nat \<Rightarrow> pointer_reader \<Rightarrow> bool \<Rightarrow> pointer_builder \<Rightarrow> (world, unit) prog" where
  "pb_copy_from D other canonicalize self =
     (if pr_pointer other = PNull then
        if pb_pointer self \<noteq> PNull
        then seqp (zero_object D (pb_segment_id self) (pb_pointer self)) (write_zeros (pb_pointer self) BYTES_PER_WORD)
        else ret ()
      else seqp (copy_pointer D (pb_segment_id self) (pb_cap_table self) (pb_pointer self) (pr_arena other)
                  (pr_segment_id other) (pr_cap_table other) (pr_pointer other) (pr_nesting_limit other) canonicalize)
             (ret ()))"

definition pb_clear :: "nat \<Rightarrow> pointer_builder \<Rightarrow> (world, unit) prog" where
  "pb_clear D self =
     seqp (zero_object D (pb_segment_id self) (pb_pointer self)) (write_zeros (pb_pointer self) BYTES_PER_WORD)"

definition pb_into_reader :: "pointer_builder \<Rightarrow> pointer_reader" where
  "pb_into_reader self = \<lparr>pr_arena = ABuilder, pr_cap_table = pb_cap_table self, pr_pointer = pb_pointer self,
     pr_segment_id = pb_segment_id self, pr_nesting_limit = 0x7fffffff\<rparr>"

section \<open>StructBuilder\<close>

definition sb_into_reader :: "struct_builder \<Rightarrow> struct_reader" where
  "sb_into_reader self = \<lparr>sr_arena = ABuilder, sr_cap_table = sb_cap_table self, sr_data = sb_data self,
     sr_pointers = sb_pointers self, sr_segment_id = sb_segment_id self, sr_data_size = sb_data_size self,
     sr_pointer_count = sb_pointer_count self, sr_nesting_limit = 0x7fffffff\<rparr>"

definition sb_imbue :: "cap_table \<Rightarrow> struct_builder \<Rightarrow> struct_builder" where
  "sb_imbue ct self = self\<lparr>sb_cap_table := ct\<rparr>"

text \<open>
  \<open>set_data_field\<close> and \<open>get_data_field\<close> at a type of \<open>n\<close> bytes; a builder does not compare the
  offset with its size.
\<close>

definition sb_set_data_field :: "nat \<Rightarrow> nat \<Rightarrow> 'a::len word \<Rightarrow> struct_builder \<Rightarrow> (world, unit) prog" where
  "sb_set_data_field n offset v self = store (ptr_add (sb_data self) (int (offset * n))) (to_le_bytes n v)"

definition sb_get_data_field :: "nat \<Rightarrow> nat \<Rightarrow> struct_builder \<Rightarrow> (world, 'a::len word) prog" where
  "sb_get_data_field n offset self =
     bindp (deref ABuilder (ptr_add (sb_data self) (int (offset * n))) n) (\<lambda>bs. ret (from_le_bytes bs))"

definition sb_set_data_field_mask :: "nat \<Rightarrow> nat \<Rightarrow> 'a::len word \<Rightarrow> 'a word \<Rightarrow> struct_builder \<Rightarrow> (world, unit) prog" where
  "sb_set_data_field_mask n offset v m self = sb_set_data_field n offset (mask_value v m) self"

definition sb_get_data_field_mask :: "nat \<Rightarrow> nat \<Rightarrow> 'a::len word \<Rightarrow> struct_builder \<Rightarrow> (world, 'a word) prog" where
  "sb_get_data_field_mask n offset m self = bindp (sb_get_data_field n offset self) (\<lambda>v. ret (mask_value v m))"

text \<open>Reading and writing one bit of a byte.\<close>

definition put_bit :: "nat \<Rightarrow> bool \<Rightarrow> u8 \<Rightarrow> u8" where
  "put_bit bitnum v b = (b AND NOT (push_bit bitnum 1)) OR push_bit bitnum (of_bool v)"

definition bit_store :: "ptr \<Rightarrow> nat \<Rightarrow> bool \<Rightarrow> (world, unit) prog" where
  "bit_store base k v =
     (let p = ptr_add base (int (k div BITS_PER_BYTE)) in
      bindp (deref ABuilder p 1) (\<lambda>bs. store p [put_bit (k mod BITS_PER_BYTE) v (hd bs)]))"

definition bit_load :: "ptr \<Rightarrow> nat \<Rightarrow> (world, bool) prog" where
  "bit_load base k =
     bindp (deref ABuilder (ptr_add base (int (k div BITS_PER_BYTE))) 1)
       (\<lambda>bs. ret (hd bs AND push_bit (k mod BITS_PER_BYTE) 1 \<noteq> 0))"

definition sb_set_bool_field :: "nat \<Rightarrow> bool \<Rightarrow> struct_builder \<Rightarrow> (world, unit) prog" where
  "sb_set_bool_field offset v self = bit_store (sb_data self) offset v"

definition sb_get_bool_field :: "nat \<Rightarrow> struct_builder \<Rightarrow> (world, bool) prog" where
  "sb_get_bool_field offset self = bit_load (sb_data self) offset"

definition sb_set_bool_field_mask :: "nat \<Rightarrow> bool \<Rightarrow> bool \<Rightarrow> struct_builder \<Rightarrow> (world, unit) prog" where
  "sb_set_bool_field_mask offset v m self = sb_set_bool_field offset (v \<noteq> m) self"

definition sb_get_bool_field_mask :: "nat \<Rightarrow> bool \<Rightarrow> struct_builder \<Rightarrow> (world, bool) prog" where
  "sb_get_bool_field_mask offset m self = bindp (sb_get_bool_field offset self) (\<lambda>v. ret (v \<noteq> m))"

definition sb_get_pointer_field :: "nat \<Rightarrow> struct_builder \<Rightarrow> pointer_builder" where
  "sb_get_pointer_field ptr_index self = \<lparr>pb_segment_id = sb_segment_id self, pb_cap_table = sb_cap_table self,
     pb_pointer = word_ptr (sb_pointers self) ptr_index\<rparr>"

definition sb_is_pointer_field_null :: "nat \<Rightarrow> struct_builder \<Rightarrow> (world, bool) prog" where
  "sb_is_pointer_field_null ptr_index self =
     bindp (deref_wp ABuilder (word_ptr (sb_pointers self) ptr_index)) (\<lambda>r. ret (wp_is_null r))"

text \<open>
  \<open>copy_content_from\<close>. Whether the two structs are the same object is decided by comparing
  addresses; memory of another arena has other addresses.
\<close>

definition same_address :: "arena_ref \<Rightarrow> ptr \<Rightarrow> ptr \<Rightarrow> bool" where
  "same_address ar p q \<longleftrightarrow> ar = ABuilder \<and> p = q"

definition sb_copy_content_from :: "nat \<Rightarrow> struct_reader \<Rightarrow> struct_builder \<Rightarrow> (world, unit) prog" where
  "sb_copy_content_from D other self =
     (let shared_data_size = min (sb_data_size self) (sr_data_size other);
          shared_pointer_count = min (sb_pointer_count self) (sr_pointer_count other);
          same_data = same_address (sr_arena other) (sr_data other) (sb_data self);
          same_pointers = same_address (sr_arena other) (sr_pointers other) (sb_pointers self) in
      if (shared_data_size > 0 \<and> same_data) \<or> (shared_pointer_count > 0 \<and> same_pointers) then
        if (shared_data_size = 0 \<or> same_data) \<and> (shared_pointer_count = 0 \<or> same_pointers)
        then err OnlyOneOfTheSectionPointersIsPointingToOurself
        else ret ()
      else
      seqp (if sb_data_size self > shared_data_size then
              if sb_data_size self = 1 then sb_set_bool_field 0 False self
              else write_zeros (ptr_add (sb_data self) (int (shared_data_size div BITS_PER_BYTE)))
                     ((sb_data_size self - shared_data_size) div BITS_PER_BYTE)
            else ret ())
      (seqp (if shared_data_size = 1 then bindp (sr_get_bool_field 0 other) (\<lambda>b. sb_set_bool_field 0 b self)
             else copy_nonoverlapping_check_zero (sr_arena other) (sr_data other) (sb_data self)
                    (shared_data_size div BITS_PER_BYTE))
      (seqp (foldp (\<lambda>i _. zero_object D (sb_segment_id self) (word_ptr (sb_pointers self) i)) [0..<sb_pointer_count self] ())
      (seqp (write_zeros (sb_pointers self) (sb_pointer_count self * BYTES_PER_WORD))
      (foldp (\<lambda>i _. seqp (copy_pointer D (sb_segment_id self) (sb_cap_table self) (word_ptr (sb_pointers self) i)
                            (sr_arena other) (sr_segment_id other) (sr_cap_table other)
                            (ptr_add (sr_pointers other) (int i * 8)) (sr_nesting_limit other) False) (ret ()))
         [0..<shared_pointer_count] ())))))"

section \<open>ListBuilder\<close>

definition lb_into_reader :: "list_builder \<Rightarrow> list_reader" where
  "lb_into_reader self = \<lparr>lr_arena = ABuilder, lr_cap_table = lb_cap_table self, lr_ptr = lb_ptr self,
     lr_segment_id = lb_segment_id self, lr_element_count = lb_element_count self, lr_step = lb_step self,
     lr_struct_data_size = lb_struct_data_size self, lr_nesting_limit = 0x7fffffff,
     lr_struct_pointer_count = lb_struct_pointer_count self, lr_element_size = lb_element_size self\<rparr>"

definition lb_imbue :: "cap_table \<Rightarrow> list_builder \<Rightarrow> list_builder" where
  "lb_imbue ct self = self\<lparr>lb_cap_table := ct\<rparr>"

definition lb_get_struct_element :: "nat \<Rightarrow> list_builder \<Rightarrow> struct_builder" where
  "lb_get_struct_element index self =
     (let index_byte = (index * lb_step self div BITS_PER_BYTE) mod 2 ^ 32;
          struct_data = ptr_add (lb_ptr self) (int index_byte) in
      \<lparr>sb_segment_id = lb_segment_id self, sb_cap_table = lb_cap_table self, sb_data = struct_data,
       sb_pointers = ptr_add struct_data (int (lb_struct_data_size self div BITS_PER_BYTE)),
       sb_data_size = lb_struct_data_size self, sb_pointer_count = lb_struct_pointer_count self\<rparr>)"

definition lb_get_pointer_element :: "nat \<Rightarrow> list_builder \<Rightarrow> pointer_builder" where
  "lb_get_pointer_element index self =
     \<lparr>pb_segment_id = lb_segment_id self, pb_cap_table = lb_cap_table self,
      pb_pointer = ptr_add (lb_ptr self) (int ((index * lb_step self div BITS_PER_BYTE) mod 2 ^ 32))\<rparr>"

definition lb_as_raw_bytes :: "list_builder \<Rightarrow> ptr \<times> nat" where
  "lb_as_raw_bytes self =
     (if lb_element_count self = 0 then (PNull, 0)
      else (lb_ptr self, round_bits_up_to_bytes (lb_step self * lb_element_count self)))"

section \<open>Primitive elements\<close>

definition prim_get_from_builder :: "nat \<Rightarrow> list_builder \<Rightarrow> nat \<Rightarrow> (world, 'a::len word) prog" where
  "prim_get_from_builder n list_builder index =
     bindp (deref ABuilder (ptr_add (lb_ptr list_builder)
         (int ((index * lb_step list_builder div BITS_PER_BYTE) mod 2 ^ 32))) n)
       (\<lambda>bs. ret (from_le_bytes bs))"

definition prim_set :: "nat \<Rightarrow> list_builder \<Rightarrow> nat \<Rightarrow> 'a::len word \<Rightarrow> (world, unit) prog" where
  "prim_set n list_builder index v =
     store (ptr_add (lb_ptr list_builder) (int ((index * lb_step list_builder div BITS_PER_BYTE) mod 2 ^ 32)))
       (to_le_bytes n v)"

definition bool_get_from_builder :: "list_builder \<Rightarrow> nat \<Rightarrow> (world, bool) prog" where
  "bool_get_from_builder list index = bit_load (lb_ptr list) (index * lb_step list)"

definition bool_set :: "list_builder \<Rightarrow> nat \<Rightarrow> bool \<Rightarrow> (world, unit) prog" where
  "bool_set list index v = bit_store (lb_ptr list) (index * lb_step list) v"

end
