(* ===== verification/Build_Objects.thy ===== *)
theory Build_Objects
  imports Layout_Builders
begin

text \<open>
  What building does: objects that were initialised or set are found again, by readers and by
  builders, with the contents that were written.

  \<open>made w w' s i F t p n ts ti\<close> says that between \<open>w\<close> and \<open>w'\<close> the pointer at word \<open>i\<close> of segment
  \<open>s\<close> was made to lead to the \<open>n\<close> new words from word \<open>p\<close> of segment \<open>t\<close>, with the tag at word \<open>ti\<close>
  of segment \<open>ts\<close>, and that nothing else in use changed but the words \<open>F\<close> of the old object.
\<close>

definition made ::
  "world \<Rightarrow> world \<Rightarrow> u32 \<Rightarrow> nat \<Rightarrow> (u32 \<times> nat) set \<Rightarrow> u32 \<Rightarrow> nat \<Rightarrow> nat \<Rightarrow> u32 \<Rightarrow> nat \<Rightarrow> bool" where
  "made w w' s i F t p n ts ti \<longleftrightarrow> builds (insert (s, i) F) w w' \<and> in_use w' t p n \<and> in_use w' ts ti 1 \<and>
     (n > 0 \<and> unat t < nsegs w \<longrightarrow> used w t \<le> p) \<and> pad_ok w' s i \<and> locate w' s i = ((t, int p), (ts, ti)) \<and>
     kind (word_at w' ts ti) \<noteq> KFar \<and> ((ts, ti) = (s, i) \<or> (unat ts < nsegs w \<longrightarrow> used w ts \<le> ti)) \<and>
     (ts, ti) \<notin> words t p n \<and> in_use w s i 1 \<and>
     (kind (word_at w' s i) = KFar \<longrightarrow> \<not> is_double_far (word_at w' s i))"

definition zero_words :: "world \<Rightarrow> u32 \<Rightarrow> nat \<Rightarrow> nat \<Rightarrow> bool" where
  "zero_words w s i n \<longleftrightarrow> (\<forall>b. 8 * i \<le> b \<and> b < 8 * (i + n) \<longrightarrow> bmem w (unat s) ! b = 0)"

section \<open>Making an object\<close>

text \<open>What a pointer may be overwritten: null, or the root of a tree of objects in use.\<close>

definition replaceable :: "nat \<Rightarrow> world \<Rightarrow> u32 \<Rightarrow> nat \<Rightarrow> (u32 \<times> nat) set \<Rightarrow> bool" where
  "replaceable D w s i F \<longleftrightarrow> wf_builder w \<and> in_use w s i 1 \<and> nsegs w < 2 ^ 32 \<and> (\<forall>(t, j) \<in> F. in_use w t j 1) \<and>
     (if wp_is_null (word_at w s i) then F = {} else \<exists>d \<le> D. obj w s i F d)"

lemma sample_replaceable: "replaceable 4 sample_builder 0 0 ({0} \<times> {1, 2})"
  using sample_builder_tree [simplified]
  by (auto simp: replaceable_def sample_builder_simps sample_builder_words wp_is_null_def)

lemma zero_old_run:
  assumes "replaceable D w s i F"
  obtains w1 where "(if \<not> wp_is_null (word_at w s i) then zero_object D s (at_word s i) else ret ()) w = (Ok (), w1)"
    "builds F w w1" "nsegs w1 = nsegs w" "allocate D (at_word s i) s n k w = allocate_room (at_word s i) s n k w1"
proof -
  have nsegs: "nsegs w \<le> 2 ^ 32" and wf: "wf_builder w" and i: "in_use w s i 1" using assms by (auto simp: replaceable_def)
  note root = bindp_Ok [of "deref_wp _ _", OF deref_wp_run [OF in_use_has_words [OF wf i]]]
  have "\<exists>w1. (if \<not> wp_is_null (word_at w s i) then zero_object D s (at_word s i) else ret ()) w = (Ok (), w1) \<and> zeroed F w w1"
    using assms zero_tree nsegs zeroed_refl [OF nsegs] by (auto simp: replaceable_def ret_def)
  then obtain w1 where w1: "(if \<not> wp_is_null (word_at w s i) then zero_object D s (at_word s i) else ret ()) w = (Ok (), w1)"
    "zeroed F w w1" by blast
  have "allocate D (at_word s i) s n k w = allocate_room (at_word s i) s n k w1"
    unfolding allocate_def root by (simp add: seqp_Ok [of "if _ then _ else _", OF w1(1)])
  with w1 zeroed_builds [OF w1(2) wf] zeroed_nsegs [OF w1(2)] show ?thesis by (intro that)
qed

lemma allocate_made:
  assumes r: "replaceable D w s i F" and n: "n < 2 ^ 29" and k: "k \<noteq> KFar"
  obtains t p ts ti w' where "allocate D (at_word s i) s n k w = (Ok (at_word t p, at_word ts ti, t), w')"
    "made w w' s i F t p n ts ti" "zero_words w' t p n" "kind (word_at w' ts ti) = k" "nsegs w' \<le> Suc (nsegs w)"
    "n = 0 \<and> k = KStruct \<Longrightarrow> p = i"
proof -
  have i: "in_use w s i 1" and segs: "nsegs w < 2 ^ 32" using r by (auto simp: replaceable_def)
  obtain w1 where w1: "builds F w w1" "nsegs w1 = nsegs w" "allocate D (at_word s i) s n k w = allocate_room (at_word s i) s n k w1"
    using zero_old_run [OF r] by metis
  have i1: "in_use w1 s i 1" by (rule builds_in_use [OF w1(1) i])
  show ?thesis
  proof (cases "n = 0 \<and> k = KStruct")
    case True
    obtain w2 where w2: "update_wp (at_word s i) set_kind_and_target_for_empty_struct w1 = (Ok (), w2)" "builds {(s, i)} w1 w2"
      "nsegs w2 = nsegs w1" "word_at w2 s i = set_kind_and_target_for_empty_struct (word_at w1 s i)"
      using update_wp_run [OF builds_wf [OF w1(1)] i1] by blast
    have b: "builds (insert (s, i) F) w w2" using builds_trans [OF w1(1) w2(2)] by simp
    have "made w w2 s i F s i n s i"
      using b True i w2(4) builds_in_use [OF b i] by (simp add: made_def pad_ok_def locate_def words_def in_use_def)
    moreover have "allocate D (at_word s i) s n k w = (Ok (at_word s i, at_word s i, s), w2)"
      unfolding w1(3) allocate_room_def using True by (simp add: seqp_Ok [of "update_wp _ _", OF w2(1)]) (simp add: ret_def)
    moreover have "zero_words w2 s i n" using True by (auto simp: zero_words_def)
    ultimately show ?thesis using True w1(2) w2(3,4) by (intro that [of s i s i w2]) auto
  next
    case False
    obtain t p ts ti w2 where w2: "allocate_room (at_word s i) s n k w1 = (Ok (at_word t p, at_word ts ti, t), w2)"
      "builds {(s, i)} w1 w2" "new_words w1 w2 t p n" "pad_ok w2 s i" "locate w2 s i = ((t, int p), (ts, ti))"
      "kind (word_at w2 ts ti) = k" "(ts, ti) = (s, i) \<or> new_words w1 w2 ts ti 0 \<and> ts = t \<and> ti + 1 = p" "nsegs w2 \<le> Suc (nsegs w1)"
      "kind (word_at w2 s i) = KFar \<longrightarrow> \<not> is_double_far (word_at w2 s i)"
      using allocate_room_run [OF builds_wf [OF w1(1)] i1 n False k] segs w1(2) by auto
    have b: "builds (insert (s, i) F) w w2" using builds_trans [OF w1(1) w2(2)] by simp
    have new: "new_words w w2 t p n" by (rule new_words_before [OF w2(3) w1(1)])
    have "(s, i) \<notin> words t p n" using new_words_apart [OF new i] by (auto simp: words_1)
    moreover have "in_use w2 ts ti 1"
    proof (cases "(ts, ti) = (s, i)")
      case True
      then show ?thesis using builds_in_use [OF b i] by simp
    next
      case False
      then show ?thesis using w2(3,7) by (auto simp: new_words_def in_use_def)
    qed
    moreover have "new_words w1 w2 ts ti 0 \<Longrightarrow> unat ts < nsegs w \<longrightarrow> used w ts \<le> ti"
      using new_words_before [OF _ w1(1), of w2 ts ti 0] by (simp add: new_words_def)
    ultimately have "made w w2 s i F t p n ts ti"
      using b w2(4-7,9) new k i by (auto simp: made_def new_words_def words_def)
    then show ?thesis
      using w2(1,6,8) new w1(2,3) False by (intro that [of t p ts ti w2]) (auto simp: zero_words_def new_words_def)
  qed
qed

text \<open>Setting the size in the tag leaves the pointer where it leads.\<close>

lemma made_builds:
  assumes m: "made w w' s i F t p n ts ti" and b: "builds S w' w''"
    and S: "\<And>u j. (u, j) \<in> S \<Longrightarrow> (u, j) = (ts, ti) \<or> (u, j) \<in> words t p n"
    and tag: "offset_and_kind (word_at w'' ts ti) = offset_and_kind (word_at w' ts ti)"
  shows "made w w'' s i F t p n ts ti"
proof -
  have i: "in_use w' s i 1" using m builds_in_use unfolding made_def by blast
  have wf': "wf_builder w'" using m builds_wf unfolding made_def by blast
  have keep: "kind (word_at w'' ts ti) = kind (word_at w' ts ti)" "target_offset (word_at w'' ts ti) = target_offset (word_at w' ts ti)"
    "is_double_far (word_at w'' ts ti) = is_double_far (word_at w' ts ti)"
    using tag by (simp_all add: kind_def kind_outcome_def target_offset_def is_double_far_def)
  have bb: "builds (insert (s, i) F) w w''"
  proof (rule builds_trans_new)
    show "builds (insert (s, i) F) w w'" using m by (simp add: made_def)
    show "used w u \<le> j" if "(u, j) \<in> S - insert (s, i) F" "unat u < nsegs w" for u j
      using S [of u j] that m by (auto simp: made_def words_def)
  qed (rule b)
  have unchanged: "word_at w'' u j = word_at w' u j" if "in_use w' u j 1" "(u, j) \<notin> S" for u j
    by (rule builds_word [OF b wf' that])
  have si: "(s, i) \<notin> S" if "(ts, ti) \<noteq> (s, i)"
  proof
    assume "(s, i) \<in> S"
    then have "(s, i) \<in> words t p n" using S that by auto
    then show False using m by (auto simp: made_def words_def in_use_def)
  qed
  have loc: "locate w'' s i = ((t, int p), (ts, ti)) \<and> pad_ok w'' s i"
  proof (cases "(ts, ti) = (s, i)")
    case True
    then have "kind (word_at w' s i) \<noteq> KFar" using m by (auto simp: made_def)
    then show ?thesis using m keep True by (auto simp: made_def locate_def pad_ok_def)
  next
    case False
    have root: "word_at w'' s i = word_at w' s i" by (rule unchanged [OF i si [OF False]])
    have "kind (word_at w' s i) = KFar"
      by (rule ccontr) (use m False in \<open>auto simp: made_def locate_def Let_def\<close>)
    then have far: "kind (word_at w' s i) = KFar" "\<not> is_double_far (word_at w' s i)"
      using m by (auto simp: made_def)
    then have "far_segment_id (word_at w' s i) = ts" "unat (far_position_in_segment (word_at w' s i)) = ti"
      "t = ts" "int p = int ti + target_offset (word_at w' ts ti)"
      using m by (auto simp: made_def locate_def Let_def)
    then show ?thesis
      using far m keep builds_in_use [OF b] by (auto simp: made_def locate_def pad_ok_def Let_def root)
  qed
  have "kind (word_at w'' s i) = KFar \<longrightarrow> \<not> is_double_far (word_at w'' s i)"
  proof (cases "(ts, ti) = (s, i)")
    case True
    then show ?thesis using m keep by (auto simp: made_def)
  next
    case False
    then show ?thesis using m unchanged [OF i si [OF False]] by (simp add: made_def)
  qed
  then show ?thesis using m bb loc keep builds_in_use [OF b] by (auto simp: made_def)
qed


lemma made_wf: "made w w' s i F t p n ts ti \<Longrightarrow> wf_builder w'"
  by (auto simp: made_def intro: builds_wf)

lemma made_in_use: "made w w' s i F t p n ts ti \<Longrightarrow> in_use w' s i 1"
  by (auto simp: made_def intro: builds_in_use)

lemma zero_words_builds:
  assumes "zero_words w s i n" and "builds S w w'" and "in_use w s i n" and "wf_builder w" and "words s i n \<inter> S = {}"
  shows "zero_words w' s i n"
  unfolding zero_words_def
proof (intro allI impI)
  fix b assume b: "8 * i \<le> b \<and> b < 8 * (i + n)"
  then have "(s, b div 8) \<in> words s i n" by (auto simp: words_def)
  then have "(s, b div 8) \<notin> S" using assms(5) by blast
  then show "bmem w' (unat s) ! b = 0"
    using touches_byte [of S w w' s b] assms(1-3) b by (simp add: builds_def in_use_def zero_words_def)
qed

lemma made_tag:
  assumes m: "made w w' s i F t p n ts ti" and f: "\<And>r. offset_and_kind (f r) = offset_and_kind r"
  obtains w'' where "update_wp (at_word ts ti) f w' = (Ok (), w'')" "made w w'' s i F t p n ts ti"
    "word_at w'' ts ti = f (word_at w' ts ti)" "nsegs w'' = nsegs w'" "zero_words w' t p n \<Longrightarrow> zero_words w'' t p n"
proof -
  have tag: "in_use w' ts ti 1" using m by (simp add: made_def)
  obtain w'' where w'': "update_wp (at_word ts ti) f w' = (Ok (), w'')" "builds {(ts, ti)} w' w''" "nsegs w'' = nsegs w'"
    "word_at w'' ts ti = f (word_at w' ts ti)"
    using update_wp_run [OF made_wf [OF m] tag] by blast
  have "made w w'' s i F t p n ts ti"
    by (rule made_builds [OF m w''(2)]) (use w''(4) f in auto)
  moreover have "zero_words w' t p n \<Longrightarrow> zero_words w'' t p n"
    by (rule zero_words_builds [OF _ w''(2)]) (use m made_wf [OF m] in \<open>auto simp: made_def\<close>)
  ultimately show ?thesis using w'' by (intro that)
qed

lemma update_wp_checked_Ok: "(\<And>r. f r = Ok (g r)) \<Longrightarrow> update_wp_checked p f = update_wp p g"
  by (simp add: update_wp_checked_def update_wp_def)

lemma made_store:
  assumes m: "made w w' s i F t p n ts ti" and off: "8 * p \<le> off" "off + length bs \<le> 8 * (p + n)"
  obtains w'' where "store (PAt t (int off)) bs w' = (Ok (), w'')" "made w w'' s i F t p n ts ti"
    "word_at w'' ts ti = word_at w' ts ti" "nsegs w'' = nsegs w'" "bmem w'' (unat t) = write_at off bs (bmem w' (unat t))"
proof -
  have iu: "in_use w' t p n" "in_use w' ts ti 1" and apart: "(ts, ti) \<notin> words t p n" using m by (simp_all add: made_def)
  obtain w'' where w'': "store (PAt t (int off)) bs w' = (Ok (), w'')" "builds (words t p n) w' w''" "nsegs w'' = nsegs w'"
    "bmem w'' (unat t) = write_at off bs (bmem w' (unat t))"
    using store_run [OF made_wf [OF m] iu(1) off] by blast
  have tag: "word_at w'' ts ti = word_at w' ts ti" by (rule builds_word [OF w''(2) made_wf [OF m] iu(2) apart])
  have "made w w'' s i F t p n ts ti" by (rule made_builds [OF m w''(2)]) (simp_all add: tag)
  with w'' tag show ?thesis by (intro that)
qed

section \<open>Finding an object\<close>

lemma get_segment_builder: "unat s < nsegs w \<Longrightarrow> get_segment ABuilder s w = (Ok (PAt s 0, used w s), w)"
  by (simp add: get_segment_def nsegs_def used_def)

lemma bounds_check_builder [simp]: "bounds_check ABuilder s p n k = ret ()"
  by (simp add: bounds_check_def contains_interval_def)

lemma follow_fars_locate:
  assumes "wf_builder w" and "in_use w s i 1" and "pad_ok w s i" and "locate w s i = ((t, p), (ts, ti))"
  shows "follow_fars ABuilder (at_word s i) s w = (Ok (PAt t (p * 8), at_word ts ti, t), w)"
proof -
  let ?r = "word_at w s i"
  let ?fs = "far_segment_id ?r" and ?fp = "unat (far_position_in_segment ?r)"
  note root = bindp_Ok [of "deref_wp _ _", OF deref_wp_run [OF in_use_has_words [OF assms(1,2)]]]
  show ?thesis
  proof (cases "kind ?r = KFar")
    case False
    then have loc: "t = s" "ts = s" "ti = i" "p = int i + target_offset ?r"
      using assms(4) by (auto simp: locate_def Let_def)
    show ?thesis
      using False unfolding loc by (simp add: follow_fars_def root ret_def target_from_segment_def check_offset_def bindp_assoc)
        (simp add: at_word_def ptr_add.simps algebra_simps)
  next
    case True
    then have pad: "in_use w ?fs ?fp 1" "unat ?fs < nsegs w"
      using assms(3) by (auto simp: pad_ok_def Let_def in_use_def split: if_splits)
    note seg = bindp_Ok [of "get_segment _ _", OF get_segment_builder [OF pad(2)]]
    note pad_word = bindp_Ok [of "deref_wp _ _", OF deref_wp_run [OF in_use_has_words [OF assms(1) pad(1)]]]
    have pp: "ptr_add (PAt ?fs 0) (uint (far_position_in_segment ?r) * 8) = at_word ?fs ?fp"
      "ptr_add (PAt ?fs 0) (8 * uint (far_position_in_segment ?r)) = at_word ?fs ?fp"
      by (simp_all add: at_word_def ptr_add.simps)
    show ?thesis
    proof (cases "is_double_far ?r")
      case False
      then have loc: "t = ?fs" "ts = ?fs" "ti = ?fp" "p = int ?fp + target_offset (word_at w ?fs ?fp)"
        using True assms(4) by (auto simp: locate_def Let_def)
      show ?thesis
        using True False unfolding loc
        by (simp add: follow_fars_def root seg pad_word pp Let_def ret_def target_from_segment_def check_offset_def bindp_assoc)
          (simp add: at_word_def ptr_add.simps algebra_simps)
    next
      case double: True
      then have "unat (far_segment_id (word_at w ?fs ?fp)) < nsegs w"
        using assms(3) True by (simp add: pad_ok_def Let_def)
      note seg2 = bindp_Ok [of "get_segment _ _", OF get_segment_builder [OF this]]
      have loc: "t = far_segment_id (word_at w ?fs ?fp)" "ts = ?fs" "ti = ?fp + 1"
          "p = int (unat (far_position_in_segment (word_at w ?fs ?fp)))"
        using double True assms(4) by (auto simp: locate_def Let_def)
      show ?thesis
        using True double unfolding loc
        by (simp add: follow_fars_def root seg pad_word pp seg2 Let_def ret_def)
          (simp add: at_word_def ptr_add.simps algebra_simps)
    qed
  qed
qed

lemma made_follow:
  assumes m: "made w w' s i F t p n ts ti"
  shows "follow_fars ABuilder (at_word s i) s w' = (Ok (at_word t p, at_word ts ti, t), w')"
    and "follow_builder_fars (at_word s i) (target_ptr (at_word s i) (word_at w' s i)) s w' =
      (Ok (at_word t p, at_word ts ti, t), w')"
    and "deref_wp ABuilder (at_word s i) w' = (Ok (word_at w' s i), w')"
    and "deref_wp ABuilder (at_word ts ti) w' = (Ok (word_at w' ts ti), w')"
proof -
  note wf = made_wf [OF m] and i = made_in_use [OF m]
  have loc: "pad_ok w' s i" "locate w' s i = ((t, int p), (ts, ti))" "in_use w' ts ti 1" using m by (simp_all add: made_def)
  show "follow_fars ABuilder (at_word s i) s w' = (Ok (at_word t p, at_word ts ti, t), w')"
    using follow_fars_locate [OF wf i loc(1,2)] by (simp add: at_word_def)
  show "follow_builder_fars (at_word s i) (target_ptr (at_word s i) (word_at w' s i)) s w' = (Ok (at_word t p, at_word ts ti, t), w')"
    using follow_locate [OF wf i loc(1,2)] by (simp add: at_word_def target_ptr_def)
  show "deref_wp ABuilder (at_word s i) w' = (Ok (word_at w' s i), w')"
    and "deref_wp ABuilder (at_word ts ti) w' = (Ok (word_at w' ts ti), w')"
    using deref_wp_run [OF in_use_has_words [OF wf i]] deref_wp_run [OF in_use_has_words [OF wf loc(3)]] by simp_all
qed

text \<open>A pointer that was made to lead somewhere is null only as the untouched tag of a struct behind it.\<close>

lemma made_null:
  assumes "made w w' s i F t p n ts ti" and "wp_is_null (word_at w' s i)"
  shows "word_at w' ts ti = \<lparr>offset_and_kind = 0, upper32bits = 0\<rparr>" "p = i + 1"
proof -
  have z: "word_at w' s i = \<lparr>offset_and_kind = 0, upper32bits = 0\<rparr>" using assms(2) by (simp add: null_word)
  have "kind \<lparr>offset_and_kind = 0, upper32bits = 0\<rparr> = KStruct" "target_offset \<lparr>offset_and_kind = 0, upper32bits = 0\<rparr> = 1"
    by (simp_all add: kind_def kind_outcome_def wire_pointer_kind_from_def target_offset_def)
  with assms(1) z show "word_at w' ts ti = \<lparr>offset_and_kind = 0, upper32bits = 0\<rparr>" "p = i + 1"
    by (auto simp: made_def locate_def)
qed

section \<open>Texts and data\<close>

lemma deref_words:
  assumes "wf_builder w" and "in_use w t p n" and "8 * p \<le> off" "off + m \<le> 8 * (p + n)"
  shows "deref ABuilder (PAt t (int off)) m w = (Ok (take_at off m (bmem w (unat t))), w)"
  using in_use_has_words [OF assms(1,2)] assms(4)
  by (simp add: deref_def load_def mem_of_def has_words_def nsegs_def bmem_def)

lemma list_kind_not_null: "kind r = KList \<Longrightarrow> r \<noteq> \<lparr>offset_and_kind = 0, upper32bits = 0\<rparr>"
  by (auto simp: kind_def kind_outcome_def wire_pointer_kind_from_def)

lemma set_list_size_run:
  assumes m: "made w w' s i F t p n ts ti" and "unat c < 2 ^ 29"
  obtains w'' where "update_wp_checked (at_word ts ti) (set_list_size_and_count es c) w' = (Ok (), w'')"
    "made w w'' s i F t p n ts ti" "nsegs w'' = nsegs w'" "kind (word_at w'' ts ti) = kind (word_at w' ts ti)"
    "list_element_size (word_at w'' ts ti) = es" "list_element_count (word_at w'' ts ti) = c"
    "zero_words w' t p n \<Longrightarrow> zero_words w'' t p n"
proof -
  let ?g = "\<lambda>r. r\<lparr>upper32bits := push_bit 3 c OR element_size_code es\<rparr>"
  have g: "set_list_size_and_count es c r = Ok (?g r)" for r
    using assms(2) by (simp add: set_list_size_and_count_def word_less_nat_alt)
  obtain w'' where w'': "update_wp (at_word ts ti) ?g w' = (Ok (), w'')" "made w w'' s i F t p n ts ti"
    "word_at w'' ts ti = ?g (word_at w' ts ti)" "nsegs w'' = nsegs w'" "zero_words w' t p n \<Longrightarrow> zero_words w'' t p n"
    by (rule made_tag [OF m, of ?g]) auto
  have "kind (word_at w'' ts ti) = kind (word_at w' ts ti)" using w''(3) by (simp add: kind_def kind_outcome_def)
  then show ?thesis
    using w'' set_list_size_and_count_Ok [OF g [of "word_at w' ts ti"]] update_wp_checked_Ok [OF g]
    by (intro that) auto
qed

lemma init_bytes_run:
  assumes r: "replaceable D w s i F" and n: "n < 2 ^ 29"
  obtains t p ts ti w1 w2 where "allocate D (at_word s i) s ((n + 7) div 8) KList w = (Ok (at_word t p, at_word ts ti, t), w1)"
    "update_wp_checked (at_word ts ti) (set_list_size_and_count Byte (of_nat n)) w1 = (Ok (), w2)"
    "made w w2 s i F t p ((n + 7) div 8) ts ti" "kind (word_at w2 ts ti) = KList" "list_element_size (word_at w2 ts ti) = Byte"
    "unat (list_element_count (word_at w2 ts ti)) = n" "zero_words w2 t p ((n + 7) div 8)" "nsegs w2 \<le> Suc (nsegs w)"
proof -
  have words: "(n + 7) div 8 < 2 ^ 29" using n by simp
  have c: "unat (of_nat n :: u32) = n" using n by (simp add: unat_of_nat)
  obtain t p ts ti w1 where w1: "allocate D (at_word s i) s ((n + 7) div 8) KList w = (Ok (at_word t p, at_word ts ti, t), w1)"
    "made w w1 s i F t p ((n + 7) div 8) ts ti" "zero_words w1 t p ((n + 7) div 8)" "kind (word_at w1 ts ti) = KList"
    "nsegs w1 \<le> Suc (nsegs w)"
    by (rule allocate_made [OF r words, of KList]) auto
  obtain w2 where w2: "update_wp_checked (at_word ts ti) (set_list_size_and_count Byte (of_nat n)) w1 = (Ok (), w2)"
    "made w w2 s i F t p ((n + 7) div 8) ts ti" "kind (word_at w2 ts ti) = kind (word_at w1 ts ti)"
    "list_element_size (word_at w2 ts ti) = Byte" "list_element_count (word_at w2 ts ti) = of_nat n"
    "zero_words w1 t p ((n + 7) div 8) \<Longrightarrow> zero_words w2 t p ((n + 7) div 8)" "nsegs w2 = nsegs w1"
    using set_list_size_run [OF w1(2), of "of_nat n" Byte] c n by metis
  then show ?thesis using w1 c by (intro that [of t p ts ti w1 w2]) auto
qed

text \<open>The pointer at word \<open>i\<close> of segment \<open>s\<close> leads to the text \<open>bs\<close> with its NUL byte.\<close>

definition holds_text :: "world \<Rightarrow> u32 \<Rightarrow> nat \<Rightarrow> u8 list \<Rightarrow> bool" where
  "holds_text w s i bs \<longleftrightarrow> wf_builder w \<and> in_use w s i 1 \<and> \<not> wp_is_null (word_at w s i) \<and> pad_ok w s i \<and>
     length bs + 1 < 2 ^ 29 \<and>
     (\<exists>t p ts ti. locate w s i = ((t, int p), (ts, ti)) \<and> in_use w ts ti 1 \<and> in_use w t p ((length bs + 8) div 8) \<and>
        kind (word_at w ts ti) = KList \<and> list_element_size (word_at w ts ti) = Byte \<and>
        unat (list_element_count (word_at w ts ti)) = length bs + 1 \<and>
        take_at (8 * p) (length bs + 1) (bmem w (unat t)) = bs @ [0])"

lemma set_text_run:
  assumes r: "replaceable D w s i F" and n: "length bs + 1 < 2 ^ 29"
  shows "\<exists>w'. pb_set_text D bs \<lparr>pb_segment_id = s, pb_cap_table = ct, pb_pointer = at_word s i\<rparr> w = (Ok (), w') \<and>
    builds (insert (s, i) F) w w' \<and> holds_text w' s i bs \<and> nsegs w' \<le> Suc (nsegs w)"
proof -
  let ?n = "length bs + 1" and ?m = "(length bs + 1 + 7) div 8"
  obtain t p ts ti w1 w2 where w: "allocate D (at_word s i) s ?m KList w = (Ok (at_word t p, at_word ts ti, t), w1)"
    "update_wp_checked (at_word ts ti) (set_list_size_and_count Byte (of_nat ?n)) w1 = (Ok (), w2)"
    "made w w2 s i F t p ?m ts ti" "kind (word_at w2 ts ti) = KList" "list_element_size (word_at w2 ts ti) = Byte"
    "unat (list_element_count (word_at w2 ts ti)) = ?n" "zero_words w2 t p ?m" "nsegs w2 \<le> Suc (nsegs w)"
    by (rule init_bytes_run [OF r n])
  obtain w3 where w3: "store (PAt t (int (8 * p))) bs w2 = (Ok (), w3)" "made w w3 s i F t p ?m ts ti"
    "word_at w3 ts ti = word_at w2 ts ti" "bmem w3 (unat t) = write_at (8 * p) bs (bmem w2 (unat t))"
    "nsegs w3 = nsegs w2"
    by (rule made_store [OF w(3), of "8 * p" bs]) auto
  have at: "PAt t (int (8 * p)) = at_word t p" by (simp add: at_word_def)
  have "pb_set_text D bs \<lparr>pb_segment_id = s, pb_cap_table = ct, pb_pointer = at_word s i\<rparr> w = (Ok (), w3)"
    using n w3(1) [unfolded at] unfolding pb_set_text_def set_text_pointer_def init_text_pointer_def seqp_def
    by (simp add: u32_add_def round_bytes_up_to_words_def bindp_assoc bindp_Ok [of "allocate _ _ _ _ _", OF w(1) [simplified]]
        bindp_Ok [of "update_wp_checked _ _", OF w(2) [simplified]])
  moreover have "holds_text w3 s i bs"
  proof -
    have null: "\<not> wp_is_null (word_at w3 s i)" using made_null(1) [OF w3(2)] list_kind_not_null w(4) w3(3) by metis
    have hw: "has_words w2 t p ?m" using w(3) made_wf [OF w(3)] by (auto simp: made_def intro: in_use_has_words)
    moreover have "length bs < ?m * 8" by simp
    ultimately have le: "8 * p + length bs < length (bmem w2 (unat t))" unfolding has_words_def add_mult_distrib by linarith
    then have last: "bmem w3 (unat t) ! (8 * p + length bs) = 0"
      using w(7) by (simp add: w3(4) nth_write_at zero_words_def)
    have content: "take_at (8 * p) (length bs) (bmem w3 (unat t)) = bs"
      using le by (simp add: w3(4) take_at_write_at_same)
    have "take_at (8 * p) (length bs + 1) (bmem w3 (unat t)) = bs @ [bmem w3 (unat t) ! (8 * p + length bs)]"
      using content le w3(4) by (simp add: take_at_def take_Suc_conv_app_nth)
    then show ?thesis
      using w3(2) made_wf [OF w3(2)] made_in_use [OF w3(2)] null n last w(4-6) w3(3)
      unfolding holds_text_def made_def by (auto simp: add.commute)
  qed
  ultimately show ?thesis using w(8) w3(2,5) by (auto simp: made_def)
qed

lemma holds_text_null: "holds_text w s i bs \<Longrightarrow> \<not> wp_is_null (word_at w s i)"
  by (simp add: holds_text_def)

text \<open>What a reader and a builder of the pointer both meet: the tag, the bytes and the NUL byte after them.\<close>

lemma holds_text_run:
  assumes "holds_text w s i bs"
  obtains t p ts ti where "follow_fars ABuilder (at_word s i) s w = (Ok (at_word t p, at_word ts ti, t), w)"
    and "follow_builder_fars (at_word s i) (target_ptr (at_word s i) (word_at w s i)) s w = (Ok (at_word t p, at_word ts ti, t), w)"
    and "deref_wp ABuilder (at_word s i) w = (Ok (word_at w s i), w)" "deref_wp ABuilder (at_word ts ti) w = (Ok (word_at w ts ti), w)"
    and "kind (word_at w ts ti) = KList" "list_element_size (word_at w ts ti) = Byte"
    and "unat (list_element_count (word_at w ts ti)) = length bs + 1"
    and "deref ABuilder (at_word t p) (length bs) w = (Ok bs, w)"
    and "deref ABuilder (ptr_add (at_word t p) (int (length bs))) 1 w = (Ok [0], w)"
proof -
  obtain t p ts ti where h: "wf_builder w" "in_use w s i 1" "pad_ok w s i" "locate w s i = ((t, int p), (ts, ti))"
    "in_use w ts ti 1" "in_use w t p ((length bs + 8) div 8)" "kind (word_at w ts ti) = KList"
    "list_element_size (word_at w ts ti) = Byte" "unat (list_element_count (word_at w ts ti)) = length bs + 1"
    "take_at (8 * p) (length bs + 1) (bmem w (unat t)) = bs @ [0]" "length bs + 1 < 2 ^ 29"
    using assms unfolding holds_text_def by auto
  have follow: "follow_fars ABuilder (at_word s i) s w = (Ok (at_word t p, at_word ts ti, t), w)"
    "follow_builder_fars (at_word s i) (target_ptr (at_word s i) (word_at w s i)) s w = (Ok (at_word t p, at_word ts ti, t), w)"
    using follow_fars_locate [OF h(1-4)] follow_locate [OF h(1-4)] by (simp_all add: at_word_def target_ptr_def)
  have parts: "take_at (8 * p) (length bs) (bmem w (unat t)) = bs" "take_at (8 * p + length bs) 1 (bmem w (unat t)) = [0]"
    using arg_cong [OF h(10), of "take (length bs)"] arg_cong [OF h(10), of "drop (length bs)"]
    by (simp_all add: take_at_def drop_take add.commute)
  have read: "deref ABuilder (at_word t p) (length bs) w = (Ok bs, w)"
    "deref ABuilder (ptr_add (at_word t p) (int (length bs))) 1 w = (Ok [0], w)"
    using deref_words [OF h(1,6), of "8 * p" "length bs"] deref_words [OF h(1,6), of "8 * p + length bs" 1] parts
    by (simp_all add: at_word_def ptr_add.simps algebra_simps)
  show ?thesis
    by (rule that [OF follow deref_wp_run [OF in_use_has_words [OF h(1,2)]] deref_wp_run [OF in_use_has_words [OF h(1,5)]] h(7-9) read])
qed

lemma read_text_run:
  assumes "holds_text w s i bs"
  shows "read_text_pointer ABuilder s (at_word s i) dflt w = (Ok bs, w)"
proof -
  obtain t p ts ti where h: "follow_fars ABuilder (at_word s i) s w = (Ok (at_word t p, at_word ts ti, t), w)"
    "deref_wp ABuilder (at_word s i) w = (Ok (word_at w s i), w)" "deref_wp ABuilder (at_word ts ti) w = (Ok (word_at w ts ti), w)"
    "kind (word_at w ts ti) = KList" "list_element_size (word_at w ts ti) = Byte"
    "unat (list_element_count (word_at w ts ti)) = length bs + 1" "deref ABuilder (at_word t p) (length bs) w = (Ok bs, w)"
    "deref ABuilder (ptr_add (at_word t p) (int (length bs))) 1 w = (Ok [0], w)"
    by (rule holds_text_run [OF assms])
  have n: "length bs + 1 < 2 ^ 29" using assms by (simp add: holds_text_def)
  show ?thesis
    unfolding read_text_pointer_def source_or_default_def bindp_assoc bindp_Ok [of "deref_wp _ _", OF h(2)]
    using holds_text_null [OF assms] h(4-6) n
    by (simp add: bindp_Ok [of "follow_fars _ _ _", OF h(1)] bindp_Ok [of "deref_wp _ _", OF h(3)]
        round_bytes_up_to_words_def bindp_Ok [of "deref _ _ _", OF h(8) [simplified]] h(7))
qed

text \<open>The builder of the pointer gives the place of the bytes, the NUL byte left out.\<close>

lemma writable_text_run:
  assumes "holds_text w s i bs"
  shows "\<exists>tb. get_writable_text_pointer D (at_word s i) s dflt w = (Ok tb, w) \<and> tb_len tb = length bs \<and>
    deref ABuilder (tb_ptr tb) (tb_len tb) w = (Ok bs, w)"
proof -
  obtain t p ts ti where h:
    "follow_builder_fars (at_word s i) (target_ptr (at_word s i) (word_at w s i)) s w = (Ok (at_word t p, at_word ts ti, t), w)"
    "deref_wp ABuilder (at_word s i) w = (Ok (word_at w s i), w)" "deref_wp ABuilder (at_word ts ti) w = (Ok (word_at w ts ti), w)"
    "kind (word_at w ts ti) = KList" "list_element_size (word_at w ts ti) = Byte"
    "unat (list_element_count (word_at w ts ti)) = length bs + 1" "deref ABuilder (at_word t p) (length bs) w = (Ok bs, w)"
    "deref ABuilder (ptr_add (at_word t p) (int (length bs))) 1 w = (Ok [0], w)"
    by (rule holds_text_run [OF assms])
  have "get_writable_text_pointer D (at_word s i) s dflt w = (Ok \<lparr>tb_ptr = at_word t p, tb_len = length bs, tb_pos = length bs\<rparr>, w)"
    unfolding get_writable_text_pointer_def writable_start_def bindp_assoc bindp_Ok [of "deref_wp _ _", OF h(2)]
    using holds_text_null [OF assms] h(4-6)
    by (simp add: bindp_Ok [of "follow_builder_fars _ _ _", OF h(1)] bindp_Ok [of "deref_wp _ _", OF h(3)]
        bindp_Ok [of "deref _ _ _", OF h(8) [simplified]]) (simp add: ret_def)
  with h(7) show ?thesis by simp
qed

text \<open>C32: A text that was set is read back: whatever the pointer held before, after \<open>set_text\<close> the
  \<open>get_text\<close> of a reader of the pointer gives the same bytes, and so does the text builder that
  \<open>get_text\<close> of the builder gives, with whatever default. Nothing in use but the pointer and its old object
  was written, and neither way of reading changes the message.\<close>

theorem set_text_get_text:
  assumes r: "replaceable D w s i F" and n: "length bs + 1 < 2 ^ 29"
  shows "\<exists>w'. pb_set_text D bs \<lparr>pb_segment_id = s, pb_cap_table = ct, pb_pointer = at_word s i\<rparr> w = (Ok (), w') \<and>
    builds (insert (s, i) F) w w' \<and>
    pr_get_text dflt (pb_into_reader \<lparr>pb_segment_id = s, pb_cap_table = ct, pb_pointer = at_word s i\<rparr>) w' = (Ok bs, w') \<and>
    (\<exists>tb. pb_get_text D' dflt' \<lparr>pb_segment_id = s, pb_cap_table = ct, pb_pointer = at_word s i\<rparr> w' = (Ok tb, w') \<and>
      tb_len tb = length bs \<and> deref ABuilder (tb_ptr tb) (tb_len tb) w' = (Ok bs, w'))"
proof -
  obtain w' where w': "pb_set_text D bs \<lparr>pb_segment_id = s, pb_cap_table = ct, pb_pointer = at_word s i\<rparr> w = (Ok (), w')"
    "builds (insert (s, i) F) w w'" "holds_text w' s i bs"
    using set_text_run [OF assms, of ct] by blast
  have "pr_get_text dflt (pb_into_reader \<lparr>pb_segment_id = s, pb_cap_table = ct, pb_pointer = at_word s i\<rparr>) w' = (Ok bs, w')"
    using read_text_run [OF w'(3), of dflt] by (simp add: pr_get_text_def pb_into_reader_def pr_reff_def at_word_def)
  moreover have "\<exists>tb. pb_get_text D' dflt' \<lparr>pb_segment_id = s, pb_cap_table = ct, pb_pointer = at_word s i\<rparr> w' = (Ok tb, w') \<and>
      tb_len tb = length bs \<and> deref ABuilder (tb_ptr tb) (tb_len tb) w' = (Ok bs, w')"
    using writable_text_run [OF w'(3), of D' dflt'] by (simp add: pb_get_text_def)
  ultimately show ?thesis using w'(1,2) by blast
qed

theorem set_text_get_text_witness:
  "\<exists>w'. pb_set_text 4 [67, 97, 112] \<lparr>pb_segment_id = 0, pb_cap_table = None, pb_pointer = at_word 0 0\<rparr> sample_builder = (Ok (), w') \<and>
    builds (insert (0, 0) ({0} \<times> {1, 2})) sample_builder w' \<and>
    pr_get_text None (pb_into_reader \<lparr>pb_segment_id = 0, pb_cap_table = None, pb_pointer = at_word 0 0\<rparr>) w' = (Ok [67, 97, 112], w') \<and>
    (\<exists>tb. pb_get_text 4 None \<lparr>pb_segment_id = 0, pb_cap_table = None, pb_pointer = at_word 0 0\<rparr> w' = (Ok tb, w') \<and>
      tb_len tb = length [67, 97, 112 :: u8] \<and> deref ABuilder (tb_ptr tb) (tb_len tb) w' = (Ok [67, 97, 112], w'))"
  by (rule set_text_get_text [OF sample_replaceable]) simp


text \<open>Data that was set is read back.\<close>

theorem set_data_get_data:
  assumes r: "replaceable D w s i F" and n: "length bs < 2 ^ 29"
  shows "\<exists>w'. pb_set_data D bs \<lparr>pb_segment_id = s, pb_cap_table = ct, pb_pointer = at_word s i\<rparr> w = (Ok (), w') \<and>
    builds (insert (s, i) F) w w' \<and>
    pr_get_data dflt (pb_into_reader \<lparr>pb_segment_id = s, pb_cap_table = ct, pb_pointer = at_word s i\<rparr>) w' = (Ok bs, w')"
proof -
  let ?m = "(length bs + 7) div 8"
  obtain t p ts ti w1 w2 where w: "allocate D (at_word s i) s ?m KList w = (Ok (at_word t p, at_word ts ti, t), w1)"
    "update_wp_checked (at_word ts ti) (set_list_size_and_count Byte (of_nat (length bs))) w1 = (Ok (), w2)"
    "made w w2 s i F t p ?m ts ti" "kind (word_at w2 ts ti) = KList" "list_element_size (word_at w2 ts ti) = Byte"
    "unat (list_element_count (word_at w2 ts ti)) = length bs"
    by (rule init_bytes_run [OF r n])
  have m: "length bs \<le> 8 * ?m" by simp
  obtain w3 where w3: "store (PAt t (int (8 * p))) bs w2 = (Ok (), w3)" "made w w3 s i F t p ?m ts ti"
    "word_at w3 ts ti = word_at w2 ts ti" "bmem w3 (unat t) = write_at (8 * p) bs (bmem w2 (unat t))"
    by (rule made_store [OF w(3), of "8 * p" bs]) (use m in \<open>auto simp: algebra_simps\<close>)
  have at: "PAt t (int (8 * p)) = at_word t p" by (simp add: at_word_def)
  have "pb_set_data D bs \<lparr>pb_segment_id = s, pb_cap_table = ct, pb_pointer = at_word s i\<rparr> w = (Ok (), w3)"
    using n w3(1) [unfolded at] unfolding pb_set_data_def set_data_pointer_def init_data_pointer_def seqp_def
    by (simp add: round_bytes_up_to_words_def bindp_assoc bindp_Ok [of "allocate _ _ _ _ _", OF w(1)]
        bindp_Ok [of "update_wp_checked _ _", OF w(2)])
  moreover have "pr_get_data dflt (pb_into_reader \<lparr>pb_segment_id = s, pb_cap_table = ct, pb_pointer = at_word s i\<rparr>) w3 = (Ok bs, w3)"
  proof -
    have wf: "wf_builder w3" and iu: "in_use w3 t p ?m" using w3(2) by (auto simp: made_def intro: builds_wf)
    have null: "\<not> wp_is_null (word_at w3 s i)" using made_null(1) [OF w3(2)] list_kind_not_null w(4) w3(3) by metis
    have hw: "has_words w2 t p ?m" using w(3) made_wf [OF w(3)] by (auto simp: made_def intro: in_use_has_words)
    then have "8 * p + length bs \<le> length (bmem w2 (unat t))" using m unfolding has_words_def add_mult_distrib by linarith
    then have content: "take_at (8 * p) (length bs) (bmem w3 (unat t)) = bs" by (simp add: w3(4) take_at_write_at_same)
    have read: "deref ABuilder (at_word t p) (length bs) w3 = (Ok bs, w3)"
      using deref_words [OF wf iu, of "8 * p" "length bs"] content m by (simp add: at_word_def algebra_simps)
    note follow = made_follow [OF w3(2)]
    have tag: "kind (word_at w3 ts ti) = KList" "list_element_size (word_at w3 ts ti) = Byte"
      "unat (list_element_count (word_at w3 ts ti)) = length bs" using w(4-6) w3(3) by simp_all
    have "read_data_pointer ABuilder s (at_word s i) dflt w3 = (Ok bs, w3)"
      unfolding read_data_pointer_def source_or_default_def bindp_assoc bindp_Ok [of "deref_wp _ _", OF follow(3)]
      using null n
      by (simp add: bindp_Ok [of "follow_fars _ _ _", OF follow(1)] bindp_Ok [of "deref_wp _ _", OF follow(4)] tag
          round_bytes_up_to_words_def read)
    then show ?thesis by (simp add: pr_get_data_def pb_into_reader_def pr_reff_def at_word_def)
  qed
  ultimately show ?thesis using w3(2) by (auto simp: made_def)
qed

theorem set_data_get_data_witness:
  "\<exists>w'. pb_set_data 4 (replicate 40 255) \<lparr>pb_segment_id = 0, pb_cap_table = None, pb_pointer = at_word 0 0\<rparr> sample_builder = (Ok (), w') \<and>
    builds (insert (0, 0) ({0} \<times> {1, 2})) sample_builder w' \<and>
    pr_get_data None (pb_into_reader \<lparr>pb_segment_id = 0, pb_cap_table = None, pb_pointer = at_word 0 0\<rparr>) w' =
      (Ok (replicate 40 255), w')"
  by (rule set_data_get_data [OF sample_replaceable]) simp

text \<open>The length of data is truncated to 32 bits for the allocation, but all of it is copied:
  data of \<open>2 ^ 32\<close> bytes or more is written past the end of the object that was allocated for it, and
  from a segment no larger than \<open>2 ^ 29\<close> words out of the segment.\<close>

theorem set_data_overruns:
  assumes r: "replaceable D w s i F" and n: "2 ^ 32 < length bs" "length bs mod 2 ^ 32 < 2 ^ 29"
  shows "fst (pb_set_data D bs \<lparr>pb_segment_id = s, pb_cap_table = ct, pb_pointer = at_word s i\<rparr> w) = UB"
proof -
  let ?n = "length bs mod 2 ^ 32" and ?m = "(length bs mod 2 ^ 32 + 7) div 8"
  obtain t p ts ti w1 w2 where w: "allocate D (at_word s i) s ?m KList w = (Ok (at_word t p, at_word ts ti, t), w1)"
    "update_wp_checked (at_word ts ti) (set_list_size_and_count Byte (of_nat ?n)) w1 = (Ok (), w2)"
    "made w w2 s i F t p ?m ts ti"
    by (rule init_bytes_run [OF r n(2)])
  have "in_use w2 t p ?m" using w(3) by (simp add: made_def)
  then have "length (bmem w2 (unat t)) \<le> 2 ^ 32" using wf_segment(4) [OF made_wf [OF w(3)], of t] by (simp add: in_use_def)
  then have "\<not> nat (int p * 8) + length bs \<le> length (bmem w2 (unat t))" using n(1) by linarith
  then have store: "store (at_word t p) bs w2 = (UB, w2)"
    using n(1) by (auto simp: store_def at_word_def)
  have small: "?n + 7 < 2 ^ 32" using n(2) by simp
  have init: "init_data_pointer D (at_word s i) s ?n w = (Ok (t, \<lparr>db_ptr = at_word t p, db_len = ?n\<rparr>), w2)"
    unfolding init_data_pointer_def seqp_def round_bytes_up_to_words_def
    using small by (simp only: if_True ret_bindp BYTES_PER_WORD_def bindp_Ok [of "allocate _ _ _ _ _", OF w(1)]
        prod.case bindp_Ok [of "update_wp_checked _ _", OF w(2)]) (simp add: ret_def)
  have "set_data_pointer D (at_word s i) s bs w = (UB, w2)"
    unfolding set_data_pointer_def bindp_Ok [of "init_data_pointer _ _ _ _", OF init] by (simp add: seqp_def bindp_def store)
  then show ?thesis by (simp add: pb_set_data_def seqp_def bindp_def)
qed

theorem set_data_overruns_witness:
  "fst (pb_set_data 4 (replicate (2 ^ 32 + 1) 7) \<lparr>pb_segment_id = 0, pb_cap_table = None, pb_pointer = at_word 0 0\<rparr> sample_builder) = UB"
  by (rule set_data_overruns [OF sample_replaceable]) (simp_all only: length_replicate, simp_all)

section \<open>Fields of a struct\<close>

text \<open>A struct builder whose sections lie in words in use: \<open>d\<close> data words from word \<open>p\<close> of segment \<open>t\<close>.\<close>

definition struct_builder_at :: "world \<Rightarrow> struct_builder \<Rightarrow> u32 \<Rightarrow> nat \<Rightarrow> nat \<Rightarrow> bool" where
  "struct_builder_at w sb t p d \<longleftrightarrow> sb_data sb = at_word t p \<and> sb_pointers sb = at_word t (p + d) \<and>
     sb_data_size sb = 64 * d \<and> sb_segment_id sb = t \<and> in_use w t p (d + sb_pointer_count sb)"

lemma from_le_bytes_zero [simp]: "from_le_bytes (replicate n 0) = 0"
  by (induction n) simp_all

lemma field_ptr: "struct_builder_at w sb t p d \<Longrightarrow> ptr_add (sb_data sb) (int k) = PAt t (int (8 * p + k))"
  by (simp add: struct_builder_at_def at_word_def ptr_add.simps)

lemma field_bound: "(k + 1) * n \<le> 8 * d \<Longrightarrow> 8 * p + k * n + n \<le> 8 * (p + (d + c :: nat))"
  by (simp add: algebra_simps)

lemma get_data_field_run:
  assumes "wf_builder w" and sb: "struct_builder_at w sb t p d" and "(k + 1) * n \<le> 8 * d"
  shows "sb_get_data_field n k sb w = (Ok (from_le_bytes (take_at (8 * p + k * n) n (bmem w (unat t)))), w)"
proof -
  have "deref ABuilder (PAt t (int (8 * p + k * n))) n w = (Ok (take_at (8 * p + k * n) n (bmem w (unat t))), w)"
    by (rule deref_words [OF assms(1), of t p "d + sb_pointer_count sb"])
      (use sb field_bound [OF assms(3)] in \<open>auto simp: struct_builder_at_def\<close>)
  then show ?thesis
    using field_ptr [OF sb, of "k * n"] by (simp add: sb_get_data_field_def bindp_def ret_def)
qed

text \<open>A data field that was set is read back, by the builder and by a reader of the same struct,
  and setting it changes no other field: at any two widths and offsets that do not overlap.\<close>

theorem data_field_set_get:
  fixes v :: "'a::len word"
  assumes wf: "wf_builder w" and sb: "struct_builder_at w sb t p d" and k: "(k + 1) * n \<le> 8 * d" and len: "LENGTH('a) \<le> 8 * n"
  shows "\<exists>w'. sb_set_data_field n k v sb w = (Ok (), w') \<and> builds (words t p d) w w' \<and>
    sb_get_data_field n k sb w' = (Ok v, w') \<and> sr_get_data_field n k (sb_into_reader sb) w' = (Ok v, w') \<and>
    (\<forall>m j. (j + 1) * m \<le> 8 * d \<and> ((j + 1) * m \<le> k * n \<or> (k + 1) * n \<le> j * m) \<longrightarrow>
      fst (sb_get_data_field m j sb w' :: ('b::len word) outcome \<times> world) = fst (sb_get_data_field m j sb w))"
proof -
  let ?off = "8 * p + k * n"
  have iu: "in_use w t p d" using sb by (auto simp: struct_builder_at_def intro: in_use_sub)
  have le: "8 * p \<le> ?off" "?off + n \<le> 8 * (p + d)" using k by (auto simp: algebra_simps)
  obtain w' where w': "store (PAt t (int ?off)) (to_le_bytes n v) w = (Ok (), w')" "builds (words t p d) w w'"
    "bmem w' (unat t) = write_at ?off (to_le_bytes n v) (bmem w (unat t))"
    using store_run [OF wf iu le(1), of "to_le_bytes n v"] le(2) by auto
  have sb': "struct_builder_at w' sb t p d" using sb builds_in_use [OF w'(2)] by (auto simp: struct_builder_at_def)
  have mem: "?off + n \<le> length (bmem w (unat t))" using in_use_has_words [OF wf iu] le by (simp add: has_words_def)
  have same: "take_at ?off n (bmem w' (unat t)) = to_le_bytes n v"
    using take_at_write_at_same [of ?off "to_le_bytes n v" "bmem w (unat t)"] mem w'(3) by simp
  have addr: "(k + 1) * (n * 8) < 2 ^ 64" using k in_use_bound [OF wf iu] by (simp add: algebra_simps)
  have get: "sb_get_data_field n k sb w' = (Ok v, w')"
    using len by (simp add: get_data_field_run [OF builds_wf [OF w'(2)] sb' k] same)
  moreover have "sr_get_data_field n k (sb_into_reader sb) w' = (Ok v, w')"
    using get k sb addr by (simp add: sr_get_data_field_def sb_into_reader_def sb_get_data_field_def struct_builder_at_def bits_per_element_def)
  moreover have "fst (sb_get_data_field m j sb w' :: ('b word) outcome \<times> world) = fst (sb_get_data_field m j sb w)"
    if "(j + 1) * m \<le> 8 * d" "(j + 1) * m \<le> k * n \<or> (k + 1) * n \<le> j * m" for m j
  proof -
    have "take_at (8 * p + j * m) m (bmem w' (unat t)) = take_at (8 * p + j * m) m (bmem w (unat t))"
      unfolding w'(3) by (rule take_at_write_at_disjoint)
        (use mem that in_use_has_words [OF wf iu] in \<open>auto simp: has_words_def algebra_simps\<close>)
    then show ?thesis
      by (simp add: get_data_field_run [OF wf sb that(1)] get_data_field_run [OF builds_wf [OF w'(2)] sb' that(1)])
  qed
  moreover have "sb_set_data_field n k v sb w = (Ok (), w')"
    using w'(1) field_ptr [OF sb, of "k * n"] by (simp add: sb_set_data_field_def)
  ultimately show ?thesis using w'(2) by blast
qed

text \<open>A struct of one data word and one pointer, in the sample message.\<close>

definition sample_struct :: struct_builder where
  "sample_struct = \<lparr>sb_segment_id = 0, sb_cap_table = None, sb_data = at_word 0 1, sb_pointers = at_word 0 2,
     sb_data_size = 64, sb_pointer_count = 1\<rparr>"

lemma sample_struct_at: "struct_builder_at sample_builder sample_struct 0 1 1"
  by (simp add: struct_builder_at_def sample_struct_def sample_builder_simps numeral_2_eq_2)

theorem data_field_set_get_witness:
  "\<exists>w'. sb_set_data_field 4 1 (0xdeadbeef :: u32) sample_struct sample_builder = (Ok (), w') \<and> builds (words 0 1 1) sample_builder w' \<and>
    sb_get_data_field 4 1 sample_struct w' = (Ok (0xdeadbeef :: u32), w') \<and>
    sr_get_data_field 4 1 (sb_into_reader sample_struct) w' = (Ok (0xdeadbeef :: u32), w') \<and>
    (\<forall>m j. (j + 1) * m \<le> 8 * 1 \<and> ((j + 1) * m \<le> 1 * 4 \<or> (1 + 1) * 4 \<le> j * m) \<longrightarrow>
      fst (sb_get_data_field m j sample_struct w' :: u16 outcome \<times> world) = fst (sb_get_data_field m j sample_struct sample_builder))"
  by (rule data_field_set_get [OF _ sample_struct_at]) (simp_all add: sample_builder_simps)


subsection \<open>Bits\<close>

lemma bit_put_bit: "k < 8 \<Longrightarrow> bit (put_bit k v b) j \<longleftrightarrow> (if j = k then v else bit b j)"
  using bit_imp_le_length [of b j] by (auto simp: put_bit_def bit_simps)

text \<open>Bit \<open>k\<close> counted from byte \<open>off\<close> of a segment.\<close>

definition bit_at :: "world \<Rightarrow> u32 \<Rightarrow> nat \<Rightarrow> nat \<Rightarrow> bool" where
  "bit_at w t off k = bit (bmem w (unat t) ! (off + k div 8)) (k mod 8)"

lemma bit_load_run:
  assumes "wf_builder w" and "in_use w t p n" and "8 * p \<le> off" and "off + k div 8 < 8 * (p + n)"
  shows "bit_load (PAt t (int off)) k w = (Ok (bit_at w t off k), w)"
proof -
  have le: "off + k div 8 + 1 \<le> 8 * (p + n)" "8 * p \<le> off + k div 8" using assms(3,4) by simp_all
  have hw: "off + k div 8 < length (bmem w (unat t))" using in_use_has_words [OF assms(1,2)] le by (simp add: has_words_def)
  then have one: "take_at (off + k div 8) 1 (bmem w (unat t)) = [bmem w (unat t) ! (off + k div 8)]"
    by (intro nth_equalityI) (auto simp: nth_take_at)
  have "deref ABuilder (PAt t (int (off + k div 8))) 1 w = (Ok [bmem w (unat t) ! (off + k div 8)], w)"
    using deref_words [OF assms(1,2) le(2,1)] one by simp
  then show ?thesis by (simp add: bit_load_def ptr_add.simps bindp_def ret_def and_exp_eq_0_iff_not_bit bit_at_def)
qed

lemma bit_store_run:
  assumes "wf_builder w" and "in_use w t p n" and "8 * p \<le> off" and "off + k div 8 < 8 * (p + n)"
  obtains w' where "bit_store (PAt t (int off)) k v w = (Ok (), w')" "builds (words t p n) w w'"
    "\<And>j. off + j div 8 < 8 * (p + n) \<Longrightarrow> bit_at w' t off j = (if j = k then v else bit_at w t off j)"
proof -
  let ?i = "off + k div 8"
  have le: "?i + 1 \<le> 8 * (p + n)" "8 * p \<le> ?i" using assms(3,4) by simp_all
  have hw: "8 * (p + n) \<le> length (bmem w (unat t))" using in_use_has_words [OF assms(1,2)] by (simp add: has_words_def algebra_simps)
  then have one: "take_at ?i 1 (bmem w (unat t)) = [bmem w (unat t) ! ?i]"
    using le by (intro nth_equalityI) (auto simp: nth_take_at)
  have load: "deref ABuilder (PAt t (int ?i)) 1 w = (Ok [bmem w (unat t) ! ?i], w)"
    using deref_words [OF assms(1,2) le(2,1)] one by simp
  obtain w' where w': "store (PAt t (int ?i)) [put_bit (k mod 8) v (bmem w (unat t) ! ?i)] w = (Ok (), w')" "builds (words t p n) w w'"
    "bmem w' (unat t) = write_at ?i [put_bit (k mod 8) v (bmem w (unat t) ! ?i)] (bmem w (unat t))"
    using store_run [OF assms(1,2) le(2), of "[put_bit (k mod 8) v (bmem w (unat t) ! ?i)]"] le by auto
  have "bit_store (PAt t (int off)) k v w = (Ok (), w')"
    using load w'(1) by (simp add: bit_store_def ptr_add.simps bindp_def Let_def)
  moreover have "bit_at w' t off j = (if j = k then v else bit_at w t off j)" if "off + j div 8 < 8 * (p + n)" for j
  proof (cases "j div 8 = k div 8")
    case True
    then have "j mod 8 = k mod 8 \<longleftrightarrow> j = k" by (metis div_mult_mod_eq)
    then show ?thesis using True w'(3) le hw by (simp add: bit_at_def nth_write_at bit_put_bit)
  next
    case False
    then show ?thesis using w'(3) le hw that by (auto simp: bit_at_def nth_write_at)
  qed
  ultimately show ?thesis using w'(2) that by blast
qed

text \<open>C33: A boolean field that was set is read back, by the builder and by a reader of the same struct,
  and no other bit of the data section changes.\<close>

theorem bool_field_set_get:
  assumes wf: "wf_builder w" and sb: "struct_builder_at w sb t p d" and k: "k < 64 * d"
  shows "\<exists>w'. sb_set_bool_field k v sb w = (Ok (), w') \<and> builds (words t p d) w w' \<and>
    sb_get_bool_field k sb w' = (Ok v, w') \<and> (k < 2 ^ 32 \<longrightarrow> sr_get_bool_field k (sb_into_reader sb) w' = (Ok v, w')) \<and>
    (\<forall>j < 64 * d. j \<noteq> k \<longrightarrow> fst (sb_get_bool_field j sb w') = fst (sb_get_bool_field j sb w))"
proof -
  have iu: "in_use w t p d" using sb by (auto simp: struct_builder_at_def intro: in_use_sub)
  have data: "sb_data sb = PAt t (int (8 * p))" using sb by (simp add: struct_builder_at_def at_word_def)
  have le: "8 * p + j div 8 < 8 * (p + d)" if "j < 64 * d" for j using that by simp
  obtain w' where w': "bit_store (PAt t (int (8 * p))) k v w = (Ok (), w')" "builds (words t p d) w w'"
    "\<And>j. 8 * p + j div 8 < 8 * (p + d) \<Longrightarrow> bit_at w' t (8 * p) j = (if j = k then v else bit_at w t (8 * p) j)"
    using bit_store_run [OF wf iu order_refl le [OF k]] by metis
  have load: "sb_get_bool_field j sb w = (Ok (bit_at w t (8 * p) j), w)"
    "sb_get_bool_field j sb w' = (Ok (if j = k then v else bit_at w t (8 * p) j), w')" if "j < 64 * d" for j
    using bit_load_run [OF wf iu order_refl le [OF that]]
      bit_load_run [OF builds_wf [OF w'(2)] builds_in_use [OF w'(2) iu] order_refl le [OF that]] w'(3) [OF le [OF that]]
    by (simp_all add: sb_get_bool_field_def data)
  have "sr_get_bool_field k (sb_into_reader sb) w' = (Ok v, w')" if "k < 2 ^ 32"
    using load(2) [OF k] that k sb
    by (simp add: sr_get_bool_field_def sb_into_reader_def sb_get_bool_field_def bit_load_def struct_builder_at_def)
  then show ?thesis
    using w'(1,2) load k by (auto simp: sb_set_bool_field_def data)
qed

theorem bool_field_set_get_witness:
  "\<exists>w'. sb_set_bool_field 9 True sample_struct sample_builder = (Ok (), w') \<and> builds (words 0 1 1) sample_builder w' \<and>
    sb_get_bool_field 9 sample_struct w' = (Ok True, w') \<and>
    (9 < (2 ^ 32 :: nat) \<longrightarrow> sr_get_bool_field 9 (sb_into_reader sample_struct) w' = (Ok True, w')) \<and>
    (\<forall>j < 64 * 1. j \<noteq> 9 \<longrightarrow> fst (sb_get_bool_field j sample_struct w') = fst (sb_get_bool_field j sample_struct sample_builder))"
  by (rule bool_field_set_get [OF _ sample_struct_at]) (simp_all add: sample_builder_simps)


section \<open>A new struct\<close>

lemma zero_take:
  assumes "zero_words w t p n" and "wf_builder w" and "in_use w t p n" and "8 * p \<le> off" and "off + m \<le> 8 * (p + n)"
  shows "take_at off m (bmem w (unat t)) = replicate m 0"
  using in_use_has_words [OF assms(2,3)] assms(1,4,5)
  by (intro nth_equalityI) (auto simp: has_words_def nth_take_at zero_words_def)

lemma zero_word_at:
  assumes "zero_words w t p n" and "wf_builder w" and "in_use w t p n" and "k < n"
  shows "word_at w t (p + k) = \<lparr>offset_and_kind = 0, upper32bits = 0\<rparr>"
  using zero_take [OF assms(1-3), of "8 * (p + k)" 8] assms(4) by (simp add: word_at_def zero_word)

lemma kind_set_struct_size [simp]: "kind (set_struct_size sz r) = kind r"
  by (simp add: kind_def kind_outcome_def)

text \<open>A struct that was initialised lies in words in use, every data field of it reads zero and
  every pointer is null; getting the struct for writing again gives the same builder, without a copy.\<close>

theorem init_struct_get_struct:
  assumes r: "replaceable D w s i F"
  shows "\<exists>w' sb t p. pb_init_struct D sz \<lparr>pb_segment_id = s, pb_cap_table = ct, pb_pointer = at_word s i\<rparr> w = (Ok sb, w') \<and>
    builds (insert (s, i) F) w w' \<and> struct_builder_at w' sb t p (unat (ss_data sz)) \<and>
    sb_pointer_count sb = unat (ss_pointers sz) \<and>
    (\<forall>n k. (k + 1) * n \<le> 8 * unat (ss_data sz) \<longrightarrow> sb_get_data_field n k sb w' = (Ok (0 :: 'a::len word), w')) \<and>
    (\<forall>k < unat (ss_pointers sz). sb_is_pointer_field_null k sb w' = (Ok True, w')) \<and>
    pb_get_struct D sz None \<lparr>pb_segment_id = s, pb_cap_table = ct, pb_pointer = at_word s i\<rparr> w' = (Ok sb, w')"
proof -
  let ?d = "unat (ss_data sz)" and ?c = "unat (ss_pointers sz)"
  let ?n = "?d + ?c"
  have n: "?n < 2 ^ 29" using unsigned_less [of "ss_data sz", where 'a = nat] unsigned_less [of "ss_pointers sz", where 'a = nat] by simp
  obtain t p ts ti w1 where w1: "allocate D (at_word s i) s ?n KStruct w = (Ok (at_word t p, at_word ts ti, t), w1)"
    "made w w1 s i F t p ?n ts ti" "zero_words w1 t p ?n" "kind (word_at w1 ts ti) = KStruct" "?n = 0 \<Longrightarrow> p = i"
    by (rule allocate_made [OF r n, of KStruct]) auto
  obtain w2 where w2: "update_wp (at_word ts ti) (set_struct_size sz) w1 = (Ok (), w2)" "made w w2 s i F t p ?n ts ti"
    "word_at w2 ts ti = set_struct_size sz (word_at w1 ts ti)" "zero_words w1 t p ?n \<Longrightarrow> zero_words w2 t p ?n"
    by (rule made_tag [OF w1(2), of "set_struct_size sz"]) auto
  let ?sb = "\<lparr>sb_segment_id = t, sb_cap_table = ct, sb_data = at_word t p, sb_pointers = at_word t (p + ?d),
      sb_data_size = ?d * 64, sb_pointer_count = ?c\<rparr>"
  let ?pb = "\<lparr>pb_segment_id = s, pb_cap_table = ct, pb_pointer = at_word s i\<rparr>"
  have wf: "wf_builder w2" and iu: "in_use w2 t p ?n" using made_wf [OF w2(2)] w2(2) by (auto simp: made_def)
  have zero: "zero_words w2 t p ?n" by (rule w2(4) [OF w1(3)])
  have at: "struct_builder_at w2 ?sb t p ?d" using iu by (simp add: struct_builder_at_def)
  have init: "pb_init_struct D sz ?pb w = (Ok ?sb, w2)"
    by (simp add: pb_init_struct_def init_struct_pointer_def struct_size_total_def bindp_Ok [of "allocate _ _ _ _ _", OF w1(1)]
        seqp_Ok [of "update_wp _ _", OF w2(1)]) (simp add: ret_def)
  have data: "sb_get_data_field n k ?sb w2 = (Ok (0 :: 'a word), w2)" if "(k + 1) * n \<le> 8 * ?d" for n k
    using zero_take [OF zero wf iu, of "8 * p + k * n" n] field_bound [OF that, of p ?c]
    by (simp add: get_data_field_run [OF wf at that])
  have null: "sb_is_pointer_field_null k ?sb w2 = (Ok True, w2)" if "k < ?c" for k
  proof -
    have "in_use w2 t (p + (?d + k)) 1" using iu that by (auto intro: in_use_sub)
    from deref_wp_run [OF in_use_has_words [OF wf this]] show ?thesis
      using zero_word_at [OF zero wf iu, of "?d + k"] that
      by (simp add: sb_is_pointer_field_null_def bindp_def ret_def wp_is_null_def add.assoc)
  qed
  have root: "\<not> wp_is_null (word_at w2 s i)"
  proof
    assume null: "wp_is_null (word_at w2 s i)"
    from made_null [OF w2(2) null] have "struct_data_size (word_at w2 ts ti) = 0" "struct_ptr_count (word_at w2 ts ti) = 0" "p = i + 1"
      by (simp_all add: struct_data_size_def struct_ptr_count_def)
    with w1(5) show False by (simp add: w2(3))
  qed
  note follow = made_follow [OF w2(2)]
  have "pb_get_struct D sz None ?pb w2 = (Ok ?sb, w2)"
    unfolding pb_get_struct_def get_writable_struct_pointer_def writable_start_def pointer_builder.simps bindp_assoc
      bindp_Ok [of "deref_wp _ _", OF follow(3)]
    using root w1(4)
    by (simp add: bindp_Ok [of "follow_builder_fars _ _ _", OF follow(2)] bindp_Ok [of "deref_wp _ _", OF follow(4)] w2(3) Let_def)
      (simp add: ret_def)
  then show ?thesis
    using init data null at w2(2) by (intro exI [of _ w2] exI [of _ ?sb] exI [of _ t] exI [of _ p]) (auto simp: made_def)
qed

theorem init_struct_get_struct_witness:
  "\<exists>w' sb t p. pb_init_struct 4 \<lparr>ss_data = 2, ss_pointers = 1\<rparr> \<lparr>pb_segment_id = 0, pb_cap_table = None, pb_pointer = at_word 0 0\<rparr>
      sample_builder = (Ok sb, w') \<and>
    builds (insert (0, 0) ({0} \<times> {1, 2})) sample_builder w' \<and> struct_builder_at w' sb t p (unat (ss_data \<lparr>ss_data = 2, ss_pointers = 1\<rparr>)) \<and>
    sb_pointer_count sb = unat (ss_pointers \<lparr>ss_data = 2, ss_pointers = 1\<rparr>) \<and>
    (\<forall>n k. (k + 1) * n \<le> 8 * unat (ss_data \<lparr>ss_data = 2, ss_pointers = 1\<rparr>) \<longrightarrow> sb_get_data_field n k sb w' = (Ok (0 :: u64), w')) \<and>
    (\<forall>k < unat (ss_pointers \<lparr>ss_data = 2, ss_pointers = 1\<rparr>). sb_is_pointer_field_null k sb w' = (Ok True, w')) \<and>
    pb_get_struct 4 \<lparr>ss_data = 2, ss_pointers = 1\<rparr> None \<lparr>pb_segment_id = 0, pb_cap_table = None, pb_pointer = at_word 0 0\<rparr> w' = (Ok sb, w')"
  by (rule init_struct_get_struct [OF sample_replaceable])


section \<open>Lists\<close>

text \<open>A list builder whose \<open>m\<close> words from word \<open>p\<close> of segment \<open>t\<close> are in use and hold its elements.\<close>

definition list_builder_at :: "world \<Rightarrow> list_builder \<Rightarrow> u32 \<Rightarrow> nat \<Rightarrow> nat \<Rightarrow> bool" where
  "list_builder_at w lb t p m \<longleftrightarrow> lb_ptr lb = at_word t p \<and> lb_segment_id lb = t \<and> in_use w t p m \<and>
     lb_element_count lb * lb_step lb \<le> 64 * m \<and> 8 * m < 2 ^ 32"

lemma list_words:
  assumes "count < 2 ^ 29"
  shows "round_bits_up_to_words (count * (data_bits_per_element es + pointers_per_element es * 64)) < 2 ^ 29"
    and "count * (data_bits_per_element es + pointers_per_element es * 64) \<le>
      64 * round_bits_up_to_words (count * (data_bits_per_element es + pointers_per_element es * 64))"
proof -
  let ?bits = "count * (data_bits_per_element es + pointers_per_element es * 64)"
  have "data_bits_per_element es + pointers_per_element es * 64 \<le> 64" by (cases es) simp_all
  then have "?bits \<le> count * 64" by simp
  then have "(?bits + 63) div 64 \<le> count" by linarith
  with assms show "round_bits_up_to_words ?bits < 2 ^ 29" "?bits \<le> 64 * round_bits_up_to_words ?bits"
    by (simp_all add: round_bits_up_to_words_def)
qed

text \<open>A list that was initialised is zero, lies in words in use, and a reader of the pointer, with
  the same element size, sees the same list.\<close>

theorem init_list_get_list:
  assumes r: "replaceable D w s i F" and es: "es \<noteq> InlineComposite" and n: "count < 2 ^ 29"
  shows "\<exists>w' lb t p m. pb_init_list D es count \<lparr>pb_segment_id = s, pb_cap_table = ct, pb_pointer = at_word s i\<rparr> w = (Ok lb, w') \<and>
    builds (insert (s, i) F) w w' \<and> list_builder_at w' lb t p m \<and> zero_words w' t p m \<and> lb_element_count lb = count \<and>
    pr_get_list es dflt (pb_into_reader \<lparr>pb_segment_id = s, pb_cap_table = ct, pb_pointer = at_word s i\<rparr>) w' =
      (Ok ((lb_into_reader lb)\<lparr>lr_nesting_limit := 0x7ffffffe\<rparr>), w')"
proof -
  let ?bits = "count * (data_bits_per_element es + pointers_per_element es * 64)"
  let ?m = "round_bits_up_to_words ?bits"
  let ?pb = "\<lparr>pb_segment_id = s, pb_cap_table = ct, pb_pointer = at_word s i\<rparr>"
  note m = list_words [OF n, of es]
  have c: "unat (of_nat count :: u32) = count" using n by (simp add: unat_of_nat)
  obtain t p ts ti w1 where w1: "allocate D (at_word s i) s ?m KList w = (Ok (at_word t p, at_word ts ti, t), w1)"
    "made w w1 s i F t p ?m ts ti" "zero_words w1 t p ?m" "kind (word_at w1 ts ti) = KList"
    by (rule allocate_made [OF r m(1), of KList]) auto
  have "unat (of_nat count :: u32) < 2 ^ 29" using c n by simp
  from set_list_size_run [OF w1(2) this, of es] obtain w2 where w2: "update_wp_checked (at_word ts ti) (set_list_size_and_count es (of_nat count)) w1 = (Ok (), w2)"
    "made w w2 s i F t p ?m ts ti" "kind (word_at w2 ts ti) = KList" "list_element_size (word_at w2 ts ti) = es"
    "list_element_count (word_at w2 ts ti) = of_nat count" "zero_words w2 t p ?m"
    using w1(3,4) by metis
  let ?lb = "\<lparr>lb_segment_id = t, lb_cap_table = ct, lb_ptr = at_word t p, lb_element_count = count,
      lb_step = data_bits_per_element es + pointers_per_element es * 64, lb_struct_data_size = data_bits_per_element es,
      lb_struct_pointer_count = pointers_per_element es, lb_element_size = es\<rparr>"
  have init: "pb_init_list D es count ?pb w = (Ok ?lb, w2)"
    using es by (simp add: pb_init_list_def init_list_pointer_def bindp_Ok [of "allocate _ _ _ _ _", OF w1(1)] Let_def
        seqp_Ok [of "update_wp_checked _ _", OF w2(1)]) (simp add: ret_def)
  have at: "list_builder_at w2 ?lb t p ?m" using w2(2) m by (simp add: list_builder_at_def made_def)
  note follow = made_follow [OF w2(2)]
  have root: "\<not> wp_is_null (word_at w2 s i)" using made_null(1) [OF w2(2)] list_kind_not_null [OF w2(3)] by blast
  have "read_list_pointer ABuilder s ct (at_word s i) dflt (Some es) 0x7fffffff w2 =
      (Ok ((lb_into_reader ?lb)\<lparr>lr_nesting_limit := 0x7ffffffe\<rparr>), w2)"
    unfolding read_list_pointer_def source_or_default_def bindp_assoc bindp_Ok [of "deref_wp _ _", OF follow(3)]
    using root w2(3-5) es c
    by (simp add: bindp_Ok [of "follow_fars _ _ _", OF follow(1)] bindp_Ok [of "deref_wp _ _", OF follow(4)] Let_def
        primitive_matches_def fail_if_def amplified_read_def lb_into_reader_def) (simp add: ret_def)
  then show ?thesis
    using init at w2 by (intro exI [of _ w2] exI [of _ ?lb] exI [of _ t] exI [of _ p] exI [of _ ?m])
      (auto simp: made_def pr_get_list_def pb_into_reader_def pr_reff_def at_word_def)
qed

theorem init_list_get_list_witness:
  "\<exists>w' lb t p m. pb_init_list 4 TwoBytes 7 \<lparr>pb_segment_id = 0, pb_cap_table = None, pb_pointer = at_word 0 0\<rparr> sample_builder = (Ok lb, w') \<and>
    builds (insert (0, 0) ({0} \<times> {1, 2})) sample_builder w' \<and> list_builder_at w' lb t p m \<and> zero_words w' t p m \<and> lb_element_count lb = 7 \<and>
    pr_get_list TwoBytes None (pb_into_reader \<lparr>pb_segment_id = 0, pb_cap_table = None, pb_pointer = at_word 0 0\<rparr>) w' =
      (Ok ((lb_into_reader lb)\<lparr>lr_nesting_limit := 0x7ffffffe\<rparr>), w')"
  by (rule init_list_get_list [OF sample_replaceable]) simp_all


lemma element_offset:
  assumes "list_builder_at w lb t p m" and "lb_step lb = 8 * q" and "k < lb_element_count lb"
  shows "(k * lb_step lb div BITS_PER_BYTE) mod 2 ^ 32 = k * q" and "k * q + q \<le> 8 * m"
proof -
  have "Suc k * q \<le> lb_element_count lb * q" using assms(3) by (intro mult_right_mono) auto
  also have "\<dots> \<le> 8 * m" using assms(1,2) by (simp add: list_builder_at_def mult.commute)
  finally show le: "k * q + q \<le> 8 * m" by simp
  have "8 * m < 2 ^ 32" using assms(1) by (simp add: list_builder_at_def)
  with le have "k * q < 2 ^ 32" by linarith
  then show "(k * lb_step lb div BITS_PER_BYTE) mod 2 ^ 32 = k * q" by (simp add: assms(2))
qed

lemma prim_get_run:
  assumes "wf_builder w" and lb: "list_builder_at w lb t p m" and q: "lb_step lb = 8 * q" "n \<le> q" and k: "k < lb_element_count lb"
  shows "prim_get_from_builder n lb k w = (Ok (from_le_bytes (take_at (8 * p + k * q) n (bmem w (unat t)))), w)"
proof -
  note off = element_offset [OF lb q(1) k]
  have "deref ABuilder (PAt t (int (8 * p + k * q))) n w = (Ok (take_at (8 * p + k * q) n (bmem w (unat t))), w)"
    by (rule deref_words [OF assms(1), of t p m]) (use lb off q in \<open>auto simp: list_builder_at_def\<close>)
  moreover have "ptr_add (lb_ptr lb) (int (k * q)) = PAt t (int (8 * p + k * q))"
    using lb by (simp add: list_builder_at_def at_word_def ptr_add.simps)
  ultimately show ?thesis
    unfolding prim_get_from_builder_def off(1) by (simp add: bindp_def ret_def)
qed

text \<open>A list element that was set is read back, by the builder and by a reader of the same list, and
  no other element changes; this also holds in a list of larger structs, with the step of the struct.\<close>

theorem list_element_set_get:
  fixes v :: "'a::len word"
  assumes wf: "wf_builder w" and lb: "list_builder_at w lb t p m" and q: "lb_step lb = 8 * q" "n \<le> q"
    and k: "k < lb_element_count lb" and len: "LENGTH('a) \<le> 8 * n"
  shows "\<exists>w'. prim_set n lb k v w = (Ok (), w') \<and> builds (words t p m) w w' \<and>
    prim_get_from_builder n lb k w' = (Ok v, w') \<and> prim_get n (lb_into_reader lb) k w' = (Ok v, w') \<and>
    (\<forall>j < lb_element_count lb. j \<noteq> k \<longrightarrow>
      fst (prim_get_from_builder n lb j w' :: 'a word outcome \<times> world) = fst (prim_get_from_builder n lb j w))"
proof -
  note off = element_offset [OF lb q(1) k]
  let ?off = "8 * p + k * q"
  have iu: "in_use w t p m" using lb by (simp add: list_builder_at_def)
  have le: "8 * p \<le> ?off" "?off + length (to_le_bytes n v) \<le> 8 * (p + m)" using off(2) q(2) by auto
  obtain w' where w': "store (PAt t (int ?off)) (to_le_bytes n v) w = (Ok (), w')" "builds (words t p m) w w'"
    "bmem w' (unat t) = write_at ?off (to_le_bytes n v) (bmem w (unat t))"
    using store_run [OF wf iu le] by auto
  have lb': "list_builder_at w' lb t p m" using lb builds_in_use [OF w'(2)] by (auto simp: list_builder_at_def)
  note get = prim_get_run [OF builds_wf [OF w'(2)] lb' q]
  have mem: "8 * (p + m) \<le> length (bmem w (unat t))" using in_use_has_words [OF wf iu] by (simp add: has_words_def algebra_simps)
  have same: "take_at ?off n (bmem w' (unat t)) = to_le_bytes n v"
    using take_at_write_at_same [of ?off "to_le_bytes n v" "bmem w (unat t)"] mem le w'(3) by simp
  have set: "prim_set n lb k v w = (Ok (), w')"
    using w'(1) lb unfolding prim_set_def off(1) by (simp add: list_builder_at_def at_word_def ptr_add.simps algebra_simps)
  have g: "prim_get_from_builder n lb k w' = (Ok v, w')" using len by (simp add: get [OF k] same)
  then have "prim_get n (lb_into_reader lb) k w' = (Ok v, w')"
    by (simp add: prim_get_def lb_into_reader_def prim_get_from_builder_def Let_def)
  moreover have "fst (prim_get_from_builder n lb j w' :: 'a word outcome \<times> world) = fst (prim_get_from_builder n lb j w)"
    if j: "j < lb_element_count lb" "j \<noteq> k" for j
  proof -
    have "Suc j * q \<le> k * q \<or> Suc k * q \<le> j * q"
      using j(2) by (cases "j < k") (auto intro!: mult_right_mono simp del: mult_Suc)
    then have "take_at (8 * p + j * q) n (bmem w' (unat t)) = take_at (8 * p + j * q) n (bmem w (unat t))"
      unfolding w'(3) by (intro take_at_write_at_disjoint) (use mem le q(2) element_offset(2) [OF lb q(1) j(1)] in auto)
    then show ?thesis by (simp add: get [OF j(1)] prim_get_run [OF wf lb q j(1)])
  qed
  ultimately show ?thesis using set g w'(2) by blast
qed

theorem list_element_set_get_witness:
  "\<exists>w'. prim_set 2 \<lparr>lb_segment_id = 0, lb_cap_table = None, lb_ptr = at_word 0 1, lb_element_count = 5, lb_step = 16,
      lb_struct_data_size = 16, lb_struct_pointer_count = 0, lb_element_size = TwoBytes\<rparr> 4 (513 :: u16) sample_builder = (Ok (), w') \<and>
    builds (words 0 1 2) sample_builder w' \<and>
    prim_get_from_builder 2 \<lparr>lb_segment_id = 0, lb_cap_table = None, lb_ptr = at_word 0 1, lb_element_count = 5, lb_step = 16,
      lb_struct_data_size = 16, lb_struct_pointer_count = 0, lb_element_size = TwoBytes\<rparr> 4 w' = (Ok (513 :: u16), w')"
  using list_element_set_get [of sample_builder "\<lparr>lb_segment_id = 0, lb_cap_table = None, lb_ptr = at_word 0 1, lb_element_count = 5,
      lb_step = 16, lb_struct_data_size = 16, lb_struct_pointer_count = 0, lb_element_size = TwoBytes\<rparr>" 0 1 2 2 2 4 "513 :: u16"]
  by (auto simp: list_builder_at_def sample_builder_simps)


section \<open>Copying a struct onto itself\<close>

text \<open>\<open>copy_content_from\<close> tests the aliasing of the two structs the wrong way round: copying a
  struct onto itself, which needs no copying, is reported as an error, and a source that shares only
  one of the two sections, which cannot be right, is silently accepted.\<close>

theorem copy_content_from_inverted:
  assumes "0 < sb_data_size sb" and "0 < sb_pointer_count sb" and "q \<noteq> sb_pointers sb"
  shows "sb_copy_content_from D (sb_into_reader sb) sb w = (Err OnlyOneOfTheSectionPointersIsPointingToOurself, w) \<and>
    sb_copy_content_from D ((sb_into_reader sb)\<lparr>sr_pointers := q\<rparr>) sb w = (Ok (), w)"
  using assms by (simp_all add: sb_copy_content_from_def sb_into_reader_def same_address_def err_def ret_def Let_def)

theorem copy_content_from_inverted_witness:
  "sb_copy_content_from 4 (sb_into_reader sample_struct) sample_struct sample_builder =
    (Err OnlyOneOfTheSectionPointersIsPointingToOurself, sample_builder) \<and>
   sb_copy_content_from 4 ((sb_into_reader sample_struct)\<lparr>sr_pointers := PNull\<rparr>) sample_struct sample_builder = (Ok (), sample_builder)"
  by (rule copy_content_from_inverted) (simp_all add: sample_struct_def at_word_def)

section \<open>A list of structs seen as a list of pointers\<close>

text \<open>\<open>ListBuilder::into_reader\<close> of a list of structs that is used as a list of pointers: the
  builder's position already skips the data section of the first struct, and the reader skips it once
  more, so the two disagree on where every element is, by the size of the data section.\<close>

theorem upgraded_pointer_list_reader_is_off:
  assumes wf: "wf_builder w" and i: "in_use w s i 1" and r: "pad_ok w s i" "locate w s i = ((t, int p), (ts, ti))"
    and tag: "\<not> wp_is_null (word_at w s i)" "in_use w ts ti 1" "kind (word_at w ts ti) = KList"
      "list_element_size (word_at w ts ti) = InlineComposite"
    and elem: "in_use w t p 1" "kind (word_at w t p) = KStruct" "struct_ptr_count (word_at w t p) \<noteq> 0"
    and k: "k * struct_word_size (word_at w t p) < 2 ^ 29"
  shows "\<exists>lb. pb_get_list D Pointer None \<lparr>pb_segment_id = s, pb_cap_table = ct, pb_pointer = at_word s i\<rparr> w = (Ok lb, w) \<and>
    pb_pointer (lb_get_pointer_element k lb) =
      at_word t (p + 1 + k * struct_word_size (word_at w t p) + unat (struct_data_size (word_at w t p))) \<and>
    pr_pointer (lr_get_pointer_element k (lb_into_reader lb)) =
      at_word t (p + 1 + k * struct_word_size (word_at w t p) + 2 * unat (struct_data_size (word_at w t p)))"
proof -
  let ?tag = "word_at w t p"
  let ?lb = "\<lparr>lb_segment_id = t, lb_cap_table = ct, lb_ptr = at_word t (p + 1 + unat (struct_data_size ?tag)),
      lb_element_count = unat (inline_composite_list_element_count ?tag), lb_step = struct_word_size ?tag * 64,
      lb_struct_data_size = unat (struct_data_size ?tag) * 64, lb_struct_pointer_count = unat (struct_ptr_count ?tag),
      lb_element_size = InlineComposite\<rparr>"
  note run = deref_wp_run [OF in_use_has_words [OF wf i]] deref_wp_run [OF in_use_has_words [OF wf tag(2)]]
    deref_wp_run [OF in_use_has_words [OF wf elem(1)]]
  have follow: "follow_builder_fars (at_word s i) (target_ptr (at_word s i) (word_at w s i)) s w = (Ok (at_word t p, at_word ts ti, t), w)"
    using follow_locate [OF wf i r] by (simp add: target_ptr_def at_word_def)
  have pc: "\<not> unat (struct_ptr_count ?tag) < 1" using elem(3) by (simp add: unsigned_eq_0_iff)
  have start: "writable_start True D (at_word s i) s None w = (Ok (Some (target_ptr (at_word s i) (word_at w s i), at_word s i, s)), w)"
    unfolding writable_start_def bindp_Ok [of "deref_wp _ _", OF run(1)] using tag(1) by (simp add: ret_def)
  have body: "get_writable_list_pointer D (at_word s i) s ct Pointer None w = (Ok ?lb, w)"
    unfolding get_writable_list_pointer_def by (simp add: bindp_Ok [of "writable_start _ _ _ _ _", OF start]
        bindp_Ok [of "follow_builder_fars _ _ _", OF follow] bindp_Ok [of "deref_wp _ _", OF run(2)]
        bindp_Ok [of "deref_wp _ _", OF run(3)] tag(3,4) elem(2,3) pc upgraded_list_matches_def fail_if_def Let_def unsigned_eq_0_iff) (simp add: ret_def)
  have get: "pb_get_list D Pointer None \<lparr>pb_segment_id = s, pb_cap_table = ct, pb_pointer = at_word s i\<rparr> w = (Ok ?lb, w)"
    using body by (simp add: pb_get_list_def)
  have "(k * (struct_word_size ?tag * 64) div 8) mod 2 ^ 32 = 8 * (k * struct_word_size ?tag)"
    using k by simp
  then have "pb_pointer (lb_get_pointer_element k ?lb) = at_word t (p + 1 + k * struct_word_size ?tag + unat (struct_data_size ?tag))"
    and "pr_pointer (lr_get_pointer_element k (lb_into_reader ?lb)) =
      at_word t (p + 1 + k * struct_word_size ?tag + 2 * unat (struct_data_size ?tag))"
    by (simp_all add: lb_get_pointer_element_def lr_get_pointer_element_def lb_into_reader_def at_word_def ptr_add.simps algebra_simps)
  with get show ?thesis by blast
qed

text \<open>A list of one struct, of one data word and one pointer.\<close>

definition sample_struct_list :: world where
  "sample_struct_list = \<lparr>w_reader = reader_arena_new [] None 64,
     w_builder = \<lparr>ba_allocator = Some (Heap heap_allocator_default),
       ba_segments = [\<lparr>bs_ptr = HeapBlock, bs_mem = [1, 0, 0, 0, 23, 0, 0, 0, 4, 0, 0, 0, 1, 0, 1, 0, 7, 0, 0, 0, 0, 0, 0, 0] @
         replicate 8 0, capacity = 4, allocated = 4\<rparr>]\<rparr>, w_caps = []\<rparr>"

lemma sample_struct_list_simps:
  "nsegs sample_struct_list = 1" "in_use sample_struct_list 0 i n \<longleftrightarrow> i + n \<le> 4" "wf_builder sample_struct_list"
  "word_at sample_struct_list 0 0 = \<lparr>offset_and_kind = 1, upper32bits = 23\<rparr>"
  "word_at sample_struct_list 0 (Suc 0) = \<lparr>offset_and_kind = 4, upper32bits = 0x10001\<rparr>"
proof -
  show "wf_builder sample_struct_list"
    by (simp add: sample_struct_list_def nsegs_def wf_builder_def arena_inv_def segment_inv_def heap_ok_default)
      (simp add: heap_allocator_default_def)
qed (simp_all add: sample_struct_list_def nsegs_def in_use_def used_def word_at_def bmem_def decode_wire_pointer_def take_at_def)

lemma sample_struct_list_tags:
  "kind \<lparr>offset_and_kind = 1, upper32bits = 23\<rparr> = KList" "target_offset \<lparr>offset_and_kind = 1, upper32bits = 23\<rparr> = 1"
  "list_element_size \<lparr>offset_and_kind = 1, upper32bits = 23\<rparr> = InlineComposite"
  "kind \<lparr>offset_and_kind = 4, upper32bits = 0x10001\<rparr> = KStruct"
  "struct_data_size \<lparr>offset_and_kind = 4, upper32bits = 0x10001\<rparr> = 1" "struct_ptr_count \<lparr>offset_and_kind = 4, upper32bits = 0x10001\<rparr> = 1"
  by (simp_all add: kind_def kind_outcome_def wire_pointer_kind_from_def list_element_size_def list_element_size_outcome_def
      element_size_from_def target_offset_def struct_data_size_def struct_ptr_count_def)

theorem upgraded_pointer_list_reader_is_off_witness:
  "\<exists>lb. pb_get_list 4 Pointer None \<lparr>pb_segment_id = 0, pb_cap_table = None, pb_pointer = at_word 0 0\<rparr> sample_struct_list = (Ok lb, sample_struct_list) \<and>
    pb_pointer (lb_get_pointer_element 0 lb) = at_word 0 3 \<and>
    pr_pointer (lr_get_pointer_element 0 (lb_into_reader lb)) = at_word 0 4"
proof -
  have w1: "word_at sample_struct_list 0 1 = \<lparr>offset_and_kind = 4, upper32bits = 0x10001\<rparr>"
    using sample_struct_list_simps(5) by simp
  have r: "pad_ok sample_struct_list 0 0" "locate sample_struct_list 0 0 = ((0, int 1), (0, 0))"
    by (simp_all add: locate_def pad_ok_def sample_struct_list_simps(4) sample_struct_list_tags)
  have three: "Suc (Suc (Suc 0)) = 3" by simp
  show ?thesis
    using upgraded_pointer_list_reader_is_off [OF sample_struct_list_simps(3) _ r, of 0 4 None]
    unfolding w1 sample_struct_list_simps(4) sample_struct_list_tags
    by (simp add: sample_struct_list_simps(2) wp_is_null_def three)
qed

end
