(* ===== verification/Message.thy ===== *)
theory Message
  imports Canonical Build_Objects Serialize
begin

text \<open>
  Messages, \<^verbatim>\<open>capnp/src/message.rs\<close>: a \<open>Reader\<close> over the segments of a serialized message and a
  \<open>Builder\<close> over an allocator, with their root pointers, and the text builder of
  \<^verbatim>\<open>capnp/src/text.rs\<close>.

  The type parameter of \<open>get_root\<close> and its relatives is a type with accessors of a pointer; it is
  modelled by the accessor that its trait (\<open>FromPointerReader\<close>, \<open>FromPointerBuilder\<close>,
  \<open>SetterInput\<close>) provides, for example \<open>pr_get_text None\<close>.
\<close>

section \<open>Reading a message\<close>

definition message_reader_new :: "segment list \<Rightarrow> reader_options \<Rightarrow> world \<Rightarrow> world" where
  "message_reader_new segments options w =
     w\<lparr>w_reader := reader_arena_new segments (traversal_limit_in_words options) (option_nesting_limit options)\<rparr>"

definition reader_get_root_internal :: "(world, pointer_reader) prog" where
  "reader_get_root_internal =
     bindp (get_segment AReader 0) (\<lambda>(segment_start, _).
     bindp (nesting_limit AReader) (\<lambda>nl. pr_get_root AReader 0 segment_start nl))"

definition reader_get_root :: "(pointer_reader \<Rightarrow> (world, 'a) prog) \<Rightarrow> (world, 'a) prog" where
  "reader_get_root get_from_pointer = bindp reader_get_root_internal get_from_pointer"

definition reader_is_canonical :: "(world, bool) prog" where
  "reader_is_canonical =
     bindp (get_segment AReader 0) (\<lambda>(segment_start, seg_len).
     bindp (gets (\<lambda>w. case get_segment AReader 1 w of (Ok _, _) \<Rightarrow> True | _ \<Rightarrow> False)) (\<lambda>more.
     if more then ret False
     else
     bindp (nesting_limit AReader) (\<lambda>nl.
     bindp (pr_get_root AReader 0 segment_start nl) (\<lambda>pointer_reader.
     bindp (pr_is_canonical (ptr_add segment_start (int BYTES_PER_WORD)) pointer_reader) (\<lambda>(root_is_canonical, read_head).
     let all_words_consumed = (case (read_head, segment_start) of
         (PAt _ a, PAt _ b) \<Rightarrow> nat (a - b) div BYTES_PER_WORD = seg_len | _ \<Rightarrow> False) in
     ret (root_is_canonical \<and> all_words_consumed))))))"

section \<open>Building a message\<close>

definition message_builder_new :: "allocator \<Rightarrow> world \<Rightarrow> world" where
  "message_builder_new a w = w\<lparr>w_builder := builder_arena_new a\<rparr>"

text \<open>The first use of the builder makes the first segment and the root pointer in it.\<close>

definition ensure_root :: "(world, unit) prog" where
  "ensure_root =
     bindp (gets (\<lambda>w. ba_segments (w_builder w) = [])) (\<lambda>is_empty.
     if is_empty then
       seqp (on_builder (arena_allocate_segment 1))
       (bindp (on_builder (arena_allocate 0 1)) (\<lambda>r. case r of Some _ \<Rightarrow> ret () | None \<Rightarrow> panic))
     else ret ())"

definition builder_get_root_internal :: "(world, pointer_builder) prog" where
  "builder_get_root_internal =
     seqp ensure_root (bindp (get_segment_mut 0) (\<lambda>(seg_start, _). ret (pb_get_root 0 seg_start)))"

definition builder_init_root :: "(pointer_builder \<Rightarrow> (world, 'a) prog) \<Rightarrow> (world, 'a) prog" where
  "builder_init_root init_pointer = bindp builder_get_root_internal init_pointer"

definition builder_initn_root :: "(nat \<Rightarrow> pointer_builder \<Rightarrow> (world, 'a) prog) \<Rightarrow> nat \<Rightarrow> (world, 'a) prog" where
  "builder_initn_root init_pointer n = bindp builder_get_root_internal (init_pointer n)"

definition builder_get_root :: "(pointer_builder \<Rightarrow> (world, 'a) prog) \<Rightarrow> (world, 'a) prog" where
  "builder_get_root get_from_pointer = bindp builder_get_root_internal get_from_pointer"

definition builder_set_root :: "(bool \<Rightarrow> pointer_builder \<Rightarrow> (world, unit) prog) \<Rightarrow> (world, unit) prog" where
  "builder_set_root set_pointer_builder = bindp builder_get_root_internal (set_pointer_builder False)"

definition builder_set_root_canonical :: "(bool \<Rightarrow> pointer_builder \<Rightarrow> (world, unit) prog) \<Rightarrow> (world, unit) prog" where
  "builder_set_root_canonical set_pointer_builder =
     seqp (bindp builder_get_root_internal (set_pointer_builder True))
     (bindp (gets (\<lambda>w. length (get_segments_for_output (w_builder w)))) (\<lambda>n. assertp (n = 1)))"

definition builder_get_root_as_reader :: "(pointer_reader \<Rightarrow> (world, 'a) prog) \<Rightarrow> (world, 'a) prog" where
  "builder_get_root_as_reader get_from_pointer =
     bindp (gets (\<lambda>w. ba_segments (w_builder w) = [])) (\<lambda>is_empty.
     if is_empty then get_from_pointer pointer_reader_new_default
     else
     bindp (get_segment ABuilder 0) (\<lambda>(segment_start, _).
     bindp (pr_get_root ABuilder 0 segment_start 0x7fffffff) get_from_pointer))"

text \<open>A builder as \<open>ReaderSegments\<close>: segments are aligned to words by the contract of the allocator.\<close>

definition builder_get_segment :: "builder_arena \<Rightarrow> u32 \<Rightarrow> u8 list option outcome" where
  "builder_get_segment b sid = vec_get_segment (get_segments_for_output b) sid"

definition builder_len :: "builder_arena \<Rightarrow> nat outcome" where
  "builder_len b = vec_len (get_segments_for_output b)"

definition aligned_segments :: "u8 list list \<Rightarrow> segment list" where
  "aligned_segments segs = map (\<lambda>bs. \<lparr>seg_addr = 0, seg_bytes = bs\<rparr>) segs"

text \<open>A reader over any \<open>ReaderSegments\<close> whose memory is aligned.\<close>

definition segments_of :: "('c \<Rightarrow> u32 \<Rightarrow> u8 list option outcome) \<Rightarrow> nat \<Rightarrow> 'c \<Rightarrow> u8 list list" where
  "segments_of get_seg n c = map (\<lambda>i. case get_seg c (of_nat i) of Ok (Some seg) \<Rightarrow> seg | _ \<Rightarrow> []) [0..<n]"

definition builder_into_reader :: "world \<Rightarrow> world" where
  "builder_into_reader w =
     message_reader_new (aligned_segments (get_segments_for_output (w_builder w)))
       \<lparr>traversal_limit_in_words = None, option_nesting_limit = 0x7fffffff\<rparr> w"

definition message_size_in_words :: "arena_ref \<Rightarrow> (world, nat) prog" where
  "message_size_in_words ar = arena_size_in_words ar"

text \<open>
  \<open>canonicalize\<close>: the root is copied into a new builder whose first segment has the size of the
  message; \<open>Word::allocate_zeroed_vec\<close> and the copy give the bytes of the segment.
\<close>

definition canonicalize :: "nat \<Rightarrow> (world, u8 list) prog" where
  "canonicalize D =
     bindp reader_get_root_internal (\<lambda>root.
     bindp (pr_total_size root) (\<lambda>target.
     if word_count target + 1 \<ge> 2 ^ 64 then panic
     else
     let sz = word_count target + 1 in
     bindp (of_outcome (heap_first_segment_words (sz mod 2 ^ 32) heap_allocator_default)) (\<lambda>allocator.
     seqp (modifyp (message_builder_new (Heap allocator)))
     (seqp (builder_set_root_canonical (\<lambda>canonical builder. pb_copy_from D root canonical builder))
     (bindp (gets (\<lambda>w. get_segments_for_output (w_builder w))) (\<lambda>output_segments.
     seqp (assertp (length output_segments = 1))
     (let output = output_segments ! 0 in
      seqp (assertp (length output div BYTES_PER_WORD \<le> sz)) (ret output))))))))"

section \<open>The text builder\<close>

text \<open>The bytes of the builder are memory of the message, \<open>tb_len\<close> bytes from \<open>tb_ptr\<close>.\<close>

definition tb_push_ascii :: "u8 \<Rightarrow> text_builder \<Rightarrow> (world, text_builder) prog" where
  "tb_push_ascii ascii self =
     (if \<not> ascii < 128 then panic
      else if \<not> tb_pos self < tb_len self then panic
      else seqp (store (ptr_add (tb_ptr self) (int (tb_pos self))) [ascii]) (ret (self\<lparr>tb_pos := tb_pos self + 1\<rparr>)))"

definition tb_push_str :: "u8 list \<Rightarrow> text_builder \<Rightarrow> (world, text_builder) prog" where
  "tb_push_str bytes self =
     (if \<not> tb_pos self + length bytes \<le> tb_len self then panic
      else seqp (store (ptr_add (tb_ptr self) (int (tb_pos self))) bytes)
             (ret (self\<lparr>tb_pos := tb_pos self + length bytes\<rparr>)))"

definition tb_clear :: "text_builder \<Rightarrow> (world, text_builder) prog" where
  "tb_clear self =
     (if \<not> tb_pos self \<le> tb_len self then panic
      else seqp (store (tb_ptr self) (replicate (tb_pos self) 0)) (ret (self\<lparr>tb_pos := 0\<rparr>)))"

definition tb_bytes :: "text_builder \<Rightarrow> (world, u8 list) prog" where
  "tb_bytes self = deref ABuilder (tb_ptr self) (tb_len self)"

section \<open>The canonical test of a whole message\<close>

lemma pr_is_canonical_reads: "pointer_reader_ok W r \<Longrightarrow> reads W (pr_is_canonical head r) (\<lambda>_. True) no_panic"
  using is_canonical_safe [of W "Suc (nat (pr_nesting_limit r))"]
  unfolding pr_is_canonical_def safe_test_def by blast

lemma pr_get_root_reads:
  assumes "in_seg W AReader sid p m" and "p = PAt sid 0"
  shows "reads W (pr_get_root AReader sid p nl) (pointer_reader_ok W) no_panic"
  unfolding pr_get_root_def POINTER_SIZE_IN_WORDS_def
  by (rule reads_seqp [OF bounds_check_reads [of AReader, where i = 0]])
    (use assms(2) in \<open>auto intro!: reads_ret simp: pointer_reader_ok_def\<close>)

lemma reader_is_canonical_reads: "reads W reader_is_canonical (\<lambda>_. True) no_panic"
proof -
  have nl: "reads W (nesting_limit AReader) (\<lambda>_. True) no_panic"
    by (rule readsI) (simp add: nesting_limit_def wp_gets)
  have more: "reads W (gets f) (\<lambda>_. True) no_panic" for f :: "world \<Rightarrow> bool"
    by (rule readsI) (simp add: wp_gets)
  show ?thesis
    unfolding reader_is_canonical_def Let_def
    by (intro reads_bindp [OF get_segment_reads [of AReader]] reads_prod reads_bindp [OF more] reads_if reads_ret TrueI
        reads_bindp [OF nl] reads_bindp [OF pr_get_root_reads] reads_bindp [OF pr_is_canonical_reads]) auto
qed

text \<open>C12: Whatever bytes a message holds, the test for canonical form returns a verdict or an error and
  leaves the message as it is: it neither panics nor reads outside of the segments, and the recursion
  ends. A message with a second segment that can be read is never canonical.\<close>

theorem reader_is_canonical_safe:
  "case reader_is_canonical w of
     (Ok b, w') \<Rightarrow> still w' = still w \<and> \<not> (b \<and> (\<exists>x. fst (get_segment AReader 1 w) = Ok x))
   | (Err e, w') \<Rightarrow> still w' = still w
   | _ \<Rightarrow> False"
proof -
  have "case reader_is_canonical w of (Ok b, w') \<Rightarrow> still w' = still w | (Err e, w') \<Rightarrow> still w' = still w | _ \<Rightarrow> False"
    using reads_outcome [OF reader_is_canonical_reads, of w] by (auto split: prod.splits outcome.splits)
  moreover have "fst (reader_is_canonical w) = Ok True \<Longrightarrow> fst (get_segment AReader 1 w) \<noteq> Ok x" for x
    by (auto simp: reader_is_canonical_def get_segment_def Let_def bindp_def gets_def ret_def split: if_splits)
  ultimately show ?thesis by (auto split: prod.splits outcome.splits)
qed

text \<open>The test on a concrete message, of a struct with one data word.\<close>

lemma sample_is_canonical: "fst (reader_is_canonical (sample_world None)) = Ok True"
  by (simp add: reader_is_canonical_def pr_get_root_def nesting_limit_def pr_is_canonical_def pr_get_pointer_type_def
      pr_is_null_def pr_get_struct_def read_struct_pointer_def pr_reff_def source_or_default_def follow_fars_def
      target_from_segment_def sr_is_canonical_def sr_get_data_field_def is_positional_def sample_eval run_simps
      struct_word_size_def bits_per_element_def)

end
