(* ===== verification/Message_Trip.thy ===== *)
theory Message_Trip
  imports Message
begin

text \<open>
  From a builder to a reader: what was built is what is read from the serialized message.

  A reader over the output segments of a builder checks bounds and charges its traversal limit,
  which the builder's own reader does not. \<open>takes V k m x\<close> says that on the message \<open>V\<close> the
  program \<open>m\<close> returns \<open>x\<close> whenever \<open>k\<close> words are left of the limit, and takes no more than those.
\<close>

section \<open>Programs that read within a budget\<close>

definition affords :: "nat \<Rightarrow> world \<Rightarrow> bool" where
  "affords k w \<longleftrightarrow> (error_on_limit_exceeded (ra_limiter (w_reader w)) \<longrightarrow> k \<le> unat (limit (ra_limiter (w_reader w))))"

definition takes :: "world \<Rightarrow> nat \<Rightarrow> (world, 'a) prog \<Rightarrow> 'a \<Rightarrow> bool" where
  "takes V k m x \<longleftrightarrow> (\<forall>v j. still v = V \<and> affords (k + j) v \<and> k + j < 2 ^ 64 \<longrightarrow>
     (\<exists>v'. m v = (Ok x, v') \<and> still v' = V \<and> affords j v'))"

lemma takesI:
  assumes "\<And>v j. still v = V \<Longrightarrow> affords (k + j) v \<Longrightarrow> k + j < 2 ^ 64 \<Longrightarrow>
    \<exists>v'. m v = (Ok x, v') \<and> still v' = V \<and> affords j v'"
  shows "takes V k m x"
  using assms by (auto simp: takes_def)

lemma takes_pure: "(\<And>v. still v = V \<Longrightarrow> m v = (Ok x, v)) \<Longrightarrow> takes V 0 m x"
  by (simp add: takes_def)

lemma takes_ret: "takes V 0 (ret x) x"
  by (simp add: takes_pure ret_def)

lemma takesE:
  assumes "takes V k m x" and "still v = V" and "affords (k + j) v" and "k + j < 2 ^ 64"
  obtains v' where "m v = (Ok x, v')" "still v' = V" "affords j v'"
  using assms unfolding takes_def by blast

lemma takes_bindp:
  assumes "takes V k m x" and "takes V l (f x) y"
  shows "takes V (k + l) (bindp m f) y"
proof (rule takesI)
  fix v j assume v: "still v = V" "affords (k + l + j) v" "k + l + j < 2 ^ 64"
  then have lj: "affords (k + (l + j)) v" "k + (l + j) < 2 ^ 64" "l + j < 2 ^ 64" by (simp_all add: add.assoc)
  obtain v1 where v1: "m v = (Ok x, v1)" "still v1 = V" "affords (l + j) v1"
    by (rule takesE [OF assms(1) v(1) lj(1,2)])
  obtain v2 where "f x v1 = (Ok y, v2)" "still v2 = V" "affords j v2"
    by (rule takesE [OF assms(2) v1(2,3) lj(3)])
  with v1(1) show "\<exists>v'. bindp m f v = (Ok y, v') \<and> still v' = V \<and> affords j v'" by (simp add: bindp_Ok)
qed

lemma takes_seqp: "takes V k m x \<Longrightarrow> takes V l n y \<Longrightarrow> takes V (k + l) (seqp m n) y"
  unfolding seqp_def by (rule takes_bindp)

lemma affords_mono: "affords k v \<Longrightarrow> j \<le> k \<Longrightarrow> affords j v"
  by (auto simp: affords_def)

lemma takes_mono:
  assumes "takes V k m x" and "k \<le> l"
  shows "takes V l m x"
proof (rule takesI)
  fix v j assume v: "still v = V" "affords (l + j) v" "l + j < 2 ^ 64"
  then have "affords (k + j) v" "k + j < 2 ^ 64" using assms(2) by (auto intro: affords_mono)
  then show "\<exists>v'. m v = (Ok x, v') \<and> still v' = V \<and> affords j v'" using assms(1) v(1) unfolding takes_def by blast
qed

text \<open>A pure step takes nothing.\<close>

lemma takes_after: "takes V 0 m x \<Longrightarrow> takes V k (f x) y \<Longrightarrow> takes V k (bindp m f) y"
  using takes_bindp [of V 0 m x k f y] by simp

lemma takes_charge: "takes V n (charge n) ()"
proof (rule takesI)
  fix v j assume v: "still v = V" "affords (n + j) v" "n + j < 2 ^ 64"
  let ?l = "ra_limiter (w_reader v)"
  have n: "unat (of_nat n :: u64) = n" using v(3) by (simp add: unat_of_nat)
  show "\<exists>v'. charge n v = (Ok (), v') \<and> still v' = V \<and> affords j v'"
  proof (cases "error_on_limit_exceeded ?l")
    case True
    then have le: "n + j \<le> unat (limit ?l)" using v(2) by (simp add: affords_def)
    then have "\<not> of_nat n > limit ?l" using n by (simp add: word_less_nat_alt)
    moreover have "unat (limit ?l - of_nat n) = unat (limit ?l) - n"
      using le n by (simp add: unat_sub word_le_nat_alt)
    ultimately show ?thesis using v(1) le n True by (auto simp: charge_def can_read_def Let_def still_def affords_def)
  next
    case False
    then show ?thesis using v(1) by (auto simp: charge_def can_read_def Let_def still_def affords_def)
  qed
qed

section \<open>Reading the output of a builder\<close>

text \<open>\<open>V\<close> is a reader of the output segments of the builder of \<open>w\<close>.\<close>

definition reads_output :: "world \<Rightarrow> world \<Rightarrow> bool" where
  "reads_output w V \<longleftrightarrow> wf_builder w \<and> still V = V \<and>
     map seg_bytes (ra_segments (w_reader V)) = get_segments_for_output (w_builder w) \<and>
     (\<forall>seg \<in> set (ra_segments (w_reader V)). seg_addr seg mod 8 = 0)"

lemma output_segment:
  assumes "reads_output w V" and "unat s < nsegs w"
  shows "unat s < length (ra_segments (w_reader V))"
    and "seg_bytes (ra_segments (w_reader V) ! unat s) = take (8 * used w s) (bmem w (unat s))"
    and "seg_addr (ra_segments (w_reader V) ! unat s) mod 8 = 0"
    and "8 * used w s \<le> length (bmem w (unat s))" and "used w s \<le> 2 ^ 29"
proof -
  have len: "length (ra_segments (w_reader V)) = nsegs w"
    using arg_cong [OF conjunct1 [OF conjunct2 [OF conjunct2 [OF assms(1) [unfolded reads_output_def]]]], of length]
    by (simp add: get_segments_for_output_def nsegs_def)
  then show "unat s < length (ra_segments (w_reader V))" using assms(2) by simp
  then have "seg_bytes (ra_segments (w_reader V) ! unat s) = map seg_bytes (ra_segments (w_reader V)) ! unat s" by simp
  also have "\<dots> = get_segments_for_output (w_builder w) ! unat s" using assms(1) by (simp add: reads_output_def)
  finally show "seg_bytes (ra_segments (w_reader V) ! unat s) = take (8 * used w s) (bmem w (unat s))"
    using assms(2) by (simp add: get_segments_for_output_def used_def bmem_def nsegs_def mult.commute)
  show "seg_addr (ra_segments (w_reader V) ! unat s) mod 8 = 0"
    using assms len by (auto simp: reads_output_def)
  have wf: "wf_builder w" using assms(1) by (simp add: reads_output_def)
  show "8 * used w s \<le> length (bmem w (unat s))" using wf_segment(1,3) [OF wf assms(2)] by simp
  show "used w s \<le> 2 ^ 29" using wf_segment(1,2) [OF wf assms(2)] by simp
qed

lemma output_mem:
  "reads_output w V \<Longrightarrow> unat s < nsegs w \<Longrightarrow> mem_of V AReader s = Some (take (8 * used w s) (bmem w (unat s)))"
  using output_segment [of w V s] by (simp add: mem_of_def)

lemma takes_deref:
  assumes V: "reads_output w V" and "in_use w t p n" and "off + m \<le> 8 * (p + n)"
  shows "takes V 0 (deref AReader (PAt t (int off)) m) (take_at off m (bmem w (unat t)))"
proof (rule takes_pure)
  fix v assume v: "still v = V"
  have t: "unat t < nsegs w" and le: "off + m \<le> 8 * used w t" using assms(2,3) by (auto simp: in_use_def)
  have "load v AReader (PAt t (int off)) m = load V AReader (PAt t (int off)) m" unfolding v [symmetric] by simp
  also have "\<dots> = Some (take_at off m (bmem w (unat t)))"
    using output_mem [OF V t] output_segment(4) [OF V t] le by (simp add: load_def take_at_def drop_take)
  finally show "deref AReader (PAt t (int off)) m v = (Ok (take_at off m (bmem w (unat t))), v)" by (simp add: deref_def)
qed

lemma takes_deref_wp:
  assumes "reads_output w V" and "in_use w s i 1"
  shows "takes V 0 (deref_wp AReader (at_word s i)) (word_at w s i)"
proof -
  have "at_word s i = PAt s (int (8 * i))" by (simp add: at_word_def)
  then show ?thesis
    unfolding deref_wp_def word_at_def
    by (simp only:) (rule takes_after [OF takes_deref [OF assms, of "8 * i" 8]], simp_all add: takes_ret)
qed

lemma takes_get_segment:
  assumes V: "reads_output w V" and s: "unat s < nsegs w"
  shows "takes V 0 (get_segment AReader s) (PAt s 0, used w s)"
proof (rule takes_pure)
  fix v assume "still v = V"
  then have "ra_segments (w_reader v) = ra_segments (w_reader V)" by (auto simp: still_def)
  then show "get_segment AReader s v = (Ok (PAt s 0, used w s), v)"
    using output_segment [OF V s] by (simp add: get_segment_def Let_def)
qed

lemma takes_bounds_check:
  assumes V: "reads_output w V" and iu: "in_use w t p n"
  shows "takes V n (bounds_check AReader t (at_word t p) n k) ()"
proof -
  have t: "unat t < nsegs w" and le: "p + n \<le> used w t" using iu by (auto simp: in_use_def)
  have le': "int p * 8 + int (n * 8) \<le> int (used w t * 8)" using le by linarith
  have "takes V 0 (interval_ok AReader t (at_word t p) n) ()"
    unfolding interval_ok_def
    by (rule takes_after [OF takes_get_segment [OF V t]]) (use le' in \<open>simp add: at_word_def takes_ret\<close>)
  from takes_seqp [OF this takes_charge] show ?thesis by (simp add: bounds_check_def contains_interval_def)
qed

lemma takes_check_offset:
  assumes V: "reads_output w V" and s: "unat s < nsegs w" and q: "int i + k = int q" "q \<le> used w s"
  shows "takes V 0 (check_offset AReader s (at_word s i) k) (at_word s q)"
proof -
  have e: "int i * 8 + k * 8 = int q * 8" using q(1) by (simp flip: distrib_right)
  have "used w s * 8 < 2 ^ 64" using output_segment(5) [OF V s] by simp
  with q(2) have "q * 8 < 2 ^ 64" by linarith
  then have "int q * 8 < 2 ^ 64" by (simp flip: of_nat_less_iff [of _ "2 ^ 64", where 'a = int])
  then have m: "(int q * 8) mod 2 ^ 64 = int q * 8" by (intro mod_pos_pos_trivial) auto
  have "takes V 0 (check_offset_default AReader s (at_word s i) k) (at_word s q)"
    unfolding check_offset_default_def
    by (rule takes_after [OF takes_get_segment [OF V s]]) (use m q(2) in \<open>simp add: at_word_def e takes_ret\<close>)
  then show ?thesis by (simp add: check_offset_def)
qed

text \<open>The pointer at word \<open>i\<close> of segment \<open>s\<close> leads to the \<open>n\<close> words from \<open>p\<close> on, all in use.\<close>

definition leads_to :: "world \<Rightarrow> u32 \<Rightarrow> nat \<Rightarrow> u32 \<Rightarrow> nat \<Rightarrow> nat \<Rightarrow> u32 \<Rightarrow> nat \<Rightarrow> bool" where
  "leads_to w s i t p n ts ti \<longleftrightarrow> in_use w s i 1 \<and> pad_ok w s i \<and> locate w s i = ((t, int p), (ts, ti)) \<and>
     in_use w ts ti 1 \<and> in_use w t p n"

lemma leads_toD:
  assumes "leads_to w s i t p n ts ti"
  shows "in_use w s i 1" "pad_ok w s i" "locate w s i = ((t, int p), (ts, ti))" "in_use w ts ti 1" "in_use w t p n"
    "unat t < nsegs w" "p \<le> used w t"
  using assms by (auto simp: leads_to_def in_use_def)

lemma takes_follow_fars:
  assumes V: "reads_output w V" and l: "leads_to w s i t p n ts ti"
  shows "takes V 2 (follow_fars AReader (at_word s i) s) (at_word t p, at_word ts ti, t)"
proof -
  note l = leads_toD [OF l]
  let ?r = "word_at w s i"
  let ?fs = "far_segment_id ?r" and ?fp = "unat (far_position_in_segment ?r)"
  have target: "takes V 0 (target_from_segment (at_word u j) AReader u) (at_word u q)"
    if "in_use w u j 1" "int j + target_offset (word_at w u j) = int q" "q \<le> used w u" for u j q
    unfolding target_from_segment_def
    by (rule takes_after [OF takes_deref_wp [OF V that(1)]])
      (rule takes_check_offset [OF V _ that(2,3)], use that(1) in \<open>simp add: in_use_def\<close>)
  show ?thesis
  proof (cases "kind ?r = KFar")
    case False
    then have loc: "t = s" "ts = s" "ti = i" "int p = int i + target_offset ?r"
      using l(3) by (auto simp: locate_def Let_def)
    have "takes V 0 (follow_fars AReader (at_word s i) s) (at_word s p, at_word s i, s)"
      unfolding follow_fars_def
      by (rule takes_after [OF takes_deref_wp [OF V l(1)]])
        (use False loc l(7) in \<open>auto intro!: takes_after [OF target [OF l(1)]] takes_ret\<close>)
    then show ?thesis using loc by (auto intro: takes_mono)
  next
    case True
    then have pad: "in_use w ?fs ?fp (if is_double_far ?r then 2 else 1)" "in_use w ?fs ?fp 1" "unat ?fs < nsegs w"
      using l(2) by (auto simp: pad_ok_def Let_def in_use_def split: if_splits)
    have pp: "ptr_add (PAt ?fs 0) (int ?fp * int BYTES_PER_WORD) = at_word ?fs ?fp"
      by (simp add: at_word_def ptr_add.simps)
    note start = takes_after [OF takes_deref_wp [OF V l(1)]] takes_after [OF takes_get_segment [OF V pad(3)]]
      takes_bounds_check [OF V pad(1), of KFar]
    show ?thesis
    proof (cases "is_double_far ?r")
      case False
      then have loc: "t = ?fs" "ts = ?fs" "ti = ?fp" "int p = int ?fp + target_offset (word_at w ?fs ?fp)"
        using True l(3) by (auto simp: locate_def Let_def)
      have "takes V 0 (bindp (target_from_segment (at_word ?fs ?fp) AReader ?fs) (\<lambda>q. ret (q, at_word ?fs ?fp, ?fs)))
          (at_word t p, at_word ts ti, t)"
        using takes_after [OF target [OF pad(2)] takes_ret, of p "\<lambda>q. (q, at_word ?fs ?fp, ?fs)"] loc l(7) by simp
      from takes_seqp [OF start(3) this]
      have "takes V 1 (seqp (bounds_check AReader ?fs (at_word ?fs ?fp) 1 KFar)
          (bindp (target_from_segment (at_word ?fs ?fp) AReader ?fs) (\<lambda>q. ret (q, at_word ?fs ?fp, ?fs))))
          (at_word t p, at_word ts ti, t)" using False by simp
      then have "takes V 1 (follow_fars AReader (at_word s i) s) (at_word t p, at_word ts ti, t)"
        unfolding follow_fars_def using True False
        by (intro start(1)) (simp add: Let_def pp [simplified], intro start(2), simp add: pp [simplified])
      then show ?thesis by (rule takes_mono) simp
    next
      case double: True
      let ?x = "word_at w ?fs ?fp"
      have x: "unat (far_segment_id ?x) < nsegs w" using l(2) True double by (simp add: pad_ok_def Let_def)
      have loc: "t = far_segment_id ?x" "ts = ?fs" "ti = ?fp + 1" "int p = int (unat (far_position_in_segment ?x))"
        using double True l(3) by (auto simp: locate_def Let_def)
      then have p: "unat (far_position_in_segment ?x) = p" by (simp only: of_nat_eq_iff)
      have res: "ptr_add (PAt t 0) (int p * int BYTES_PER_WORD) = at_word t p" "ptr_add (at_word ?fs ?fp) (int BYTES_PER_WORD) = at_word ts ti"
        using loc by (simp_all add: at_word_def ptr_add.simps)
      have "takes V 0 (bindp (deref_wp AReader (at_word ?fs ?fp)) (\<lambda>pad. bindp (get_segment AReader (far_segment_id pad))
          (\<lambda>(segment_start, segment_len).
            ret (ptr_add segment_start (int (unat (far_position_in_segment pad)) * int BYTES_PER_WORD),
                 ptr_add (at_word ?fs ?fp) (int BYTES_PER_WORD), far_segment_id pad))))
          (at_word t p, at_word ts ti, t)"
        by (rule takes_after [OF takes_deref_wp [OF V pad(2)]], rule takes_after [OF takes_get_segment [OF V x]])
          (simp only: prod.case p loc(1) [symmetric] res takes_ret)
      from takes_seqp [OF start(3) this] show ?thesis
        unfolding follow_fars_def using True double
        by (intro start(1)) (simp add: Let_def pp [simplified], intro start(2), simp add: pp [simplified])
    qed
  qed
qed

section \<open>Objects in the output\<close>

lemma takes_source:
  assumes V: "reads_output w V" and "in_use w s i 1" and "\<not> wp_is_null (word_at w s i)"
  shows "takes V 0 (source_or_default cn AReader s (at_word s i) dflt) (Some (AReader, s, at_word s i))"
  unfolding source_or_default_def
  by (rule takes_after [OF takes_deref_wp [OF V assms(2)]]) (simp add: assms(3) takes_ret)

text \<open>The common shape of the read functions, as for \<open>object_reads\<close>.\<close>

lemma takes_object:
  assumes V: "reads_output w V" and l: "leads_to w s i t p n ts ti" and "takes V k (rest (at_word t p) t (word_at w ts ti)) x"
  shows "takes V (2 + k) (bindp (follow_fars AReader (at_word s i) s) (\<lambda>(p, tag, seg). bindp (deref_wp AReader tag) (rest p seg))) x"
  by (rule takes_bindp [OF takes_follow_fars [OF V l]], unfold prod.case,
      rule takes_after [OF takes_deref_wp [OF V leads_toD(4) [OF l]]], rule assms(3))

lemma holds_text_leads:
  assumes "holds_text w s i bs"
  obtains t p ts ti where "leads_to w s i t p ((length bs + 8) div 8) ts ti" "kind (word_at w ts ti) = KList"
    "list_element_size (word_at w ts ti) = Byte" "unat (list_element_count (word_at w ts ti)) = length bs + 1"
    "take_at (8 * p) (length bs) (bmem w (unat t)) = bs" "take_at (8 * p + length bs) 1 (bmem w (unat t)) = [0]"
proof -
  obtain t p ts ti where h: "leads_to w s i t p ((length bs + 8) div 8) ts ti" "kind (word_at w ts ti) = KList"
    "list_element_size (word_at w ts ti) = Byte" "unat (list_element_count (word_at w ts ti)) = length bs + 1"
    "take_at (8 * p) (length bs + 1) (bmem w (unat t)) = bs @ [0]"
    using assms unfolding holds_text_def leads_to_def by auto
  have "take_at (8 * p) (length bs) (bmem w (unat t)) = bs" "take_at (8 * p + length bs) 1 (bmem w (unat t)) = [0]"
    using arg_cong [OF h(5), of "take (length bs)"] arg_cong [OF h(5), of "drop (length bs)"]
    by (simp_all add: take_at_def drop_take add.commute)
  with h show ?thesis by (intro that)
qed

lemma takes_text:
  assumes V: "reads_output w V" and h: "holds_text w s i bs"
  shows "takes V (2 + (length bs + 8) div 8) (read_text_pointer AReader s (at_word s i) dflt) bs"
proof -
  obtain t p ts ti where l: "leads_to w s i t p ((length bs + 8) div 8) ts ti" and tag: "kind (word_at w ts ti) = KList"
    "list_element_size (word_at w ts ti) = Byte" "unat (list_element_count (word_at w ts ti)) = length bs + 1"
    and bytes: "take_at (8 * p) (length bs) (bmem w (unat t)) = bs" "take_at (8 * p + length bs) 1 (bmem w (unat t)) = [0]"
    by (rule holds_text_leads [OF h])
  note iu = leads_toD [OF l]
  have n: "length bs + 1 < 2 ^ 29" "\<not> wp_is_null (word_at w s i)" using h by (simp_all add: holds_text_def)
  have words: "round_bytes_up_to_words (length bs + 1) = (ret ((length bs + 8) div 8) :: (world, nat) prog)"
    using n by (simp add: round_bytes_up_to_words_def add.commute)
  have content: "takes V 0 (deref AReader (at_word t p) (length bs)) bs"
    using takes_deref [OF V iu(5), of "8 * p" "length bs"] bytes(1) by (simp add: at_word_def mult.commute)
  have last: "takes V 0 (deref AReader (ptr_add (at_word t p) (int (length bs + 1 - 1))) 1) [0]"
    using takes_deref [OF V iu(5), of "8 * p + length bs" 1] bytes(2) by (simp add: at_word_def ptr_add.simps mult.commute)
  have "takes V 0 (bindp (deref AReader (ptr_add (at_word t p) (int (length bs + 1 - 1))) 1) (\<lambda>last.
      if last \<noteq> [0] then err MessageContainsTextThatIsNotNULTerminated else deref AReader (at_word t p) (length bs + 1 - 1))) bs"
    by (rule takes_after [OF last]) (use content in simp)
  from takes_seqp [OF takes_bounds_check [OF V iu(5), of KList] this]
  show ?thesis
    unfolding read_text_pointer_def
    by (intro takes_after [OF takes_source [OF V iu(1) n(2)]], unfold option.case prod.case, intro takes_object [OF V l])
      (simp add: tag words Let_def del: One_nat_def add_Suc_right)
qed

text \<open>The reader of a struct, once its tag is known.\<close>

definition struct_reader_of :: "arena_ref \<Rightarrow> cap_table \<Rightarrow> u32 \<Rightarrow> nat \<Rightarrow> wire_pointer \<Rightarrow> int \<Rightarrow> struct_reader" where
  "struct_reader_of ar ct t p r nesting = \<lparr>sr_arena = ar, sr_cap_table = ct, sr_data = at_word t p,
     sr_pointers = at_word t (p + unat (struct_data_size r)), sr_segment_id = t,
     sr_data_size = unat (struct_data_size r) * BITS_PER_WORD, sr_pointer_count = unat (struct_ptr_count r),
     sr_nesting_limit = nesting - 1\<rparr>"

lemma takes_struct:
  assumes V: "reads_output w V" and l: "leads_to w s i t p (struct_word_size (word_at w ts ti)) ts ti"
    and tag: "kind (word_at w ts ti) = KStruct" "\<not> wp_is_null (word_at w s i)" and nesting: "0 < nesting"
  shows "takes V (2 + struct_word_size (word_at w ts ti)) (read_struct_pointer AReader s ct (at_word s i) dflt nesting)
    (struct_reader_of AReader ct t p (word_at w ts ti) nesting)"
proof -
  let ?r = "word_at w ts ti"
  note iu = leads_toD [OF l]
  let ?res = "\<lparr>sr_arena = AReader, sr_cap_table = ct, sr_data = at_word t p,
      sr_pointers = ptr_add (at_word t p) (int (unat (struct_data_size ?r)) * int BYTES_PER_WORD), sr_segment_id = t,
      sr_data_size = unat (struct_data_size ?r) * BITS_PER_WORD, sr_pointer_count = unat (struct_ptr_count ?r),
      sr_nesting_limit = nesting - 1\<rparr>"
  have "takes V (struct_word_size ?r + 0) (seqp (bounds_check AReader t (at_word t p) (struct_word_size ?r) KStruct) (ret ?res)) ?res"
    by (rule takes_seqp [OF takes_bounds_check [OF V iu(5)] takes_ret])
  moreover have res: "?res = struct_reader_of AReader ct t p ?r nesting"
    by (simp add: struct_reader_of_def at_word_def ptr_add.simps algebra_simps)
  ultimately show ?thesis
    unfolding read_struct_pointer_def res [symmetric]
    using nesting
    by (intro takes_after [OF takes_source [OF V iu(1) tag(2)]], unfold option.case prod.case not_le [symmetric] if_not_P,
        intro takes_object [OF V l]) (simp add: tag)
qed

section \<open>The root of a new message\<close>

lemma new_builder_wf:
  assumes "heap_ok h" and "max_segment_words h \<le> 2 ^ 29"
  shows "wf_builder (message_builder_new (Heap h) w)" "nsegs (message_builder_new (Heap h) w) = 0"
  using assms by (simp_all add: message_builder_new_def wf_builder_def builder_arena_new_def arena_inv_def nsegs_def)

lemma ensure_root_run:
  assumes wf: "wf_builder w" and empty: "nsegs w = 0"
  obtains w1 where "ensure_root w = (Ok (), w1)" "wf_builder w1" "nsegs w1 = 1" "in_use w1 0 0 1"
    "wp_is_null (word_at w1 0 0)"
proof -
  obtain w1 where w1: "on_builder (arena_allocate_segment 1) w = (Ok (), w1)" "builds {} w w1" "nsegs w1 = Suc (nsegs w)"
    "1 \<le> capacity (ba_segments (w_builder w1) ! nsegs w)" "allocated (ba_segments (w_builder w1) ! nsegs w) = 0"
    by (rule new_segment_run [OF wf, of 1]) (use empty in simp_all)
  note wf1 = builds_wf [OF w1(2)]
  have inv: "arena_inv (w_builder w1)" "0 < length (ba_segments (w_builder w1))"
    using wf1 w1(3) by (simp_all add: wf_builder_def nsegs_def)
  obtain b' where b': "arena_allocate 0 1 (w_builder w1) = (Ok (Some 0), b')" "fresh (w_builder w1) 0 0 1 b'" "arena_inv b'"
    using arena_allocate_cases [OF inv, of 1] w1(4,5) empty by (metis One_nat_def add.left_neutral leD)
  let ?w2 = "w1\<lparr>w_builder := b'\<rparr>"
  note new = fresh_builds [OF wf1 b'(2,3)]
  have "wp_is_null (word_at ?w2 0 0)"
    using new_words_zero [OF new(2) builds_wf [OF new(1)], of 0] by (simp add: wp_is_null_def)
  moreover have "ensure_root w = (Ok (), ?w2)"
    using empty unfolding ensure_root_def
    by (simp add: gets_def bindp_def nsegs_def seqp_Ok [of "on_builder _", OF w1(1) [unfolded One_nat_def]]
        on_builder_run [of "arena_allocate 0 1", OF b'(1), simplified] ret_def)
  moreover have "nsegs ?w2 = 1" using b'(2) w1(3) empty by (simp add: fresh_def nsegs_def)
  ultimately show ?thesis
    using new builds_wf [OF new(1)] by (intro that [of ?w2]) (auto simp: new_words_def)
qed

lemma root_builder_run:
  assumes "wf_builder w" and "nsegs w = 0"
  obtains w1 where "builder_get_root_internal w = (Ok \<lparr>pb_segment_id = 0, pb_cap_table = None, pb_pointer = at_word 0 0\<rparr>, w1)"
    "replaceable D w1 0 0 {}" "nsegs w1 = 1"
proof -
  obtain w1 where w1: "ensure_root w = (Ok (), w1)" "wf_builder w1" "nsegs w1 = 1" "in_use w1 0 0 1" "wp_is_null (word_at w1 0 0)"
    by (rule ensure_root_run [OF assms])
  have "get_segment_mut 0 w1 = (Ok (PAt 0 0, capacity (ba_segments (w_builder w1) ! 0)), w1)"
    using get_segment_mut_run [of 0 w1] w1(3) by simp
  then have "builder_get_root_internal w = (Ok \<lparr>pb_segment_id = 0, pb_cap_table = None, pb_pointer = at_word 0 0\<rparr>, w1)"
    unfolding builder_get_root_internal_def by (simp add: seqp_Ok [of ensure_root, OF w1(1)] bindp_def pb_get_root_def ret_def at_word_def)
  then show ?thesis using w1 by (intro that) (simp_all add: replaceable_def)
qed

lemma takes_nesting_limit: "takes V 0 (nesting_limit AReader) (ra_nesting_limit (w_reader V))"
  by (rule takes_pure) (auto simp: nesting_limit_def gets_def still_def)

lemma takes_root:
  assumes V: "reads_output w V" and iu: "in_use w 0 0 1"
  shows "takes V 1 reader_get_root_internal \<lparr>pr_arena = AReader, pr_cap_table = None, pr_pointer = at_word 0 0,
     pr_segment_id = 0, pr_nesting_limit = ra_nesting_limit (w_reader V)\<rparr>"
proof -
  have s: "unat (0 :: u32) < nsegs w" using iu by (simp add: in_use_def)
  have "takes V (1 + 0) (pr_get_root AReader 0 (PAt 0 0) (ra_nesting_limit (w_reader V)))
     \<lparr>pr_arena = AReader, pr_cap_table = None, pr_pointer = at_word 0 0,
      pr_segment_id = 0, pr_nesting_limit = ra_nesting_limit (w_reader V)\<rparr>"
    unfolding pr_get_root_def POINTER_SIZE_IN_WORDS_def
    using takes_seqp [OF takes_bounds_check [OF V iu, of KStruct] takes_ret] by (simp add: at_word_def)
  then show ?thesis
    unfolding reader_get_root_internal_def
    by (intro takes_after [OF takes_get_segment [OF V s]], unfold prod.case,
        intro takes_after [OF takes_nesting_limit]) simp
qed

section \<open>From the builder through the stream to the reader\<close>

definition message_words :: "world \<Rightarrow> nat" where
  "message_words w = sum_list (map (\<lambda>s. length s div 8) (get_segments_for_output (w_builder w)))"

lemma sum_list_le_bound: "(\<And>x. x \<in> set xs \<Longrightarrow> x \<le> b) \<Longrightarrow> sum_list xs \<le> length xs * (b :: nat)"
  by (induction xs) (auto intro: add_mono)

definition admits :: "reader_options \<Rightarrow> nat \<Rightarrow> bool" where
  "admits options k \<longleftrightarrow> (case traversal_limit_in_words options of None \<Rightarrow> True | Some l \<Rightarrow> k \<le> unat l)"

lemma output_lengths:
  assumes "wf_builder w" and "i < nsegs w"
  shows "length (get_segments_for_output (w_builder w) ! i) = 8 * used w (of_nat i)" "used w (of_nat i) \<le> 2 ^ 29"
proof -
  have u: "unat (of_nat i :: u32) = i" using assms by (auto simp: wf_builder_def unat_of_nat)
  then have i: "unat (of_nat i :: u32) < nsegs w" using assms(2) by simp
  note seg = wf_segment [OF assms(1) i]
  show "used w (of_nat i) \<le> 2 ^ 29" using seg(1,2) by simp
  have "8 * used w (of_nat i) \<le> length (bmem w i)" using seg(1,3) u by simp
  then show "length (get_segments_for_output (w_builder w) ! i) = 8 * used w (of_nat i)"
    using assms(2) u by (simp add: get_segments_for_output_def nsegs_def used_def bmem_def mult.commute)
qed

lemma output_sendable:
  assumes wf: "wf_builder w" and n: "0 < nsegs w" "nsegs w < SEGMENTS_COUNT_LIMIT" and "admits options (message_words w)"
  shows "sendable options (get_segments_for_output (w_builder w))"
proof -
  have len: "length (get_segments_for_output (w_builder w)) = nsegs w"
    by (simp add: get_segments_for_output_def nsegs_def)
  have "length s mod 8 = 0 \<and> length s div 8 < 2 ^ 32" if s: "s \<in> set (get_segments_for_output (w_builder w))" for s
  proof -
    obtain i where i: "i < nsegs w" "s = get_segments_for_output (w_builder w) ! i" using s len by (auto simp: in_set_conv_nth)
    show ?thesis using output_lengths [OF wf i(1)] i(2) by simp
  qed
  moreover have "get_segments_for_output (w_builder w) \<noteq> []" using len n(1) by auto
  ultimately show ?thesis
    using assms len by (auto simp: sendable_def admits_def message_words_def split: option.splits)
qed

lemma words_le_message:
  assumes "wf_builder w" and "in_use w t p n"
  shows "n \<le> message_words w"
proof -
  let ?segs = "get_segments_for_output (w_builder w)"
  have t: "unat t < nsegs w" using assms(2) by (simp add: in_use_def)
  have "length ?segs = nsegs w" by (simp add: get_segments_for_output_def nsegs_def)
  then have "length (?segs ! unat t) div 8 \<in> set (map (\<lambda>s. length s div 8) ?segs)" using t by simp
  moreover have "length (?segs ! unat t) = 8 * used w t" using output_lengths(1) [OF assms(1) t] by simp
  ultimately have "used w t \<in> set (map (\<lambda>s. length s div 8) ?segs)" by simp
  then have "used w t \<le> message_words w" unfolding message_words_def by (intro member_le_sum_list) simp_all
  then show ?thesis using assms(2) by (simp add: in_use_def)
qed

lemma new_reader_output:
  assumes "wf_builder w" and "segs = get_segments_for_output (w_builder w)"
  shows "reads_output w (still (message_reader_new (aligned_segments segs) options v))"
  using assms by (simp add: reads_output_def message_reader_new_def reader_arena_new_def still_def aligned_segments_def comp_def)

lemma new_reader_affords: "admits options k \<Longrightarrow> affords k (message_reader_new segs options v)"
  by (simp add: admits_def affords_def message_reader_new_def reader_arena_new_def read_limiter_new_def split: option.splits)

lemma segments_of_get:
  assumes "\<And>i. get_seg c i = Ok (if unat i < length segs then Some (segs ! unat i) else None)" and "length segs < 2 ^ 32"
  shows "segments_of get_seg (length segs) c = segs"
proof (rule nth_equalityI)
  fix i assume "i < length (segments_of get_seg (length segs) c)"
  then have i: "i < length segs" by (simp add: segments_of_def)
  then have "unat (of_nat i :: u32) = i" using assms(2) by (simp add: unat_of_nat)
  then show "segments_of get_seg (length segs) c ! i = segs ! i" using i by (simp add: segments_of_def assms(1))
qed (simp add: segments_of_def)

lemma takes_root_text:
  assumes V: "reads_output w V" and h: "holds_text w 0 0 bs"
  shows "takes V (message_words w + 3) (reader_get_root (pr_get_text None)) bs"
proof -
  have iu: "in_use w 0 0 1" and wf: "wf_builder w" using h by (simp_all add: holds_text_def)
  have "(length bs + 8) div 8 \<le> message_words w"
    by (rule holds_text_leads [OF h]) (rule words_le_message [OF wf leads_toD(5)])
  moreover have "takes V (1 + (2 + (length bs + 8) div 8)) (reader_get_root (pr_get_text None)) bs"
    unfolding reader_get_root_def
    by (rule takes_bindp [OF takes_root [OF V iu]])
      (use takes_text [OF V h, of None] in \<open>simp add: pr_get_text_def pr_reff_def at_word_def\<close>)
  ultimately show ?thesis by (elim takes_mono) simp
qed

text \<open>C10: A text built as the root of a new message, serialized, sent in pieces of any sizes with anything
  behind it, and read back as a message with any options whose traversal limit admits its words (and
  three more, for the root and a far pointer), is the same text.\<close>

theorem built_text_is_read:
  assumes h: "heap_ok h" "max_segment_words h \<le> 2 ^ 29" and n: "length bs + 1 < 2 ^ 29"
  shows "\<exists>w1 bytes. builder_set_root (\<lambda>_. pb_set_text D bs) (message_builder_new (Heap h) w) = (Ok (), w1) \<and>
    write_message vec_write_all (w_builder w1) [] = (Ok (), bytes) \<and>
    (\<forall>options pieces rest v. admits options (message_words w1 + 3) \<and> concat pieces = bytes @ rest \<longrightarrow>
      (\<exists>owned pieces' k. read_message chunk_read options pieces = (Ok owned, pieces') \<and> concat pieces' = rest \<and>
         owned_len owned = Ok k \<and>
         fst (reader_get_root (pr_get_text None)
           (message_reader_new (aligned_segments (segments_of owned_get_segment k owned)) options v)) = Ok bs))"
proof -
  obtain wr where wr: "builder_get_root_internal (message_builder_new (Heap h) w) =
      (Ok \<lparr>pb_segment_id = 0, pb_cap_table = None, pb_pointer = at_word 0 0\<rparr>, wr)" "replaceable D wr 0 0 {}" "nsegs wr = 1"
    by (rule root_builder_run [OF new_builder_wf [OF h]])
  obtain w1 where w1: "pb_set_text D bs \<lparr>pb_segment_id = 0, pb_cap_table = None, pb_pointer = at_word 0 0\<rparr> wr = (Ok (), w1)"
    "holds_text w1 0 0 bs" "nsegs w1 \<le> 2"
    using set_text_run [OF wr(2) n, of None] wr(3) by (metis One_nat_def Suc_1)
  let ?segs = "get_segments_for_output (w_builder w1)"
  have wf: "wf_builder w1" and iu: "in_use w1 0 0 1" using w1(2) by (simp_all add: holds_text_def)
  have count: "0 < nsegs w1" "nsegs w1 < SEGMENTS_COUNT_LIMIT" "length ?segs = nsegs w1"
    using iu w1(3) by (auto simp: in_use_def SEGMENTS_COUNT_LIMIT_def get_segments_for_output_def nsegs_def)
  have set: "builder_set_root (\<lambda>_. pb_set_text D bs) (message_builder_new (Heap h) w) = (Ok (), w1)"
    unfolding builder_set_root_def using w1(1) by (simp add: bindp_Ok [of builder_get_root_internal, OF wr(1)])
  have nonempty: "?segs \<noteq> []" using count(1,3) by auto
  have wrote: "write_message vec_write_all (w_builder w1) [] = (Ok (), message_bytes ?segs)"
    "write_message_segments vec_write_all vec_get_segment vec_len ?segs [] = (Ok (), message_bytes ?segs)"
    using vec_to_vec.write_whole [OF _ nonempty, of "[]"] count(2,3)
    by (auto simp: write_message_def write_message_segments_def Let_def SEGMENTS_COUNT_LIMIT_def)
  have read: "\<exists>owned pieces' k. read_message chunk_read options pieces = (Ok owned, pieces') \<and> concat pieces' = rest \<and>
         owned_len owned = Ok k \<and>
         fst (reader_get_root (pr_get_text None)
           (message_reader_new (aligned_segments (segments_of owned_get_segment k owned)) options v)) = Ok bs"
    if opt: "admits options (message_words w1 + 3)" and pieces: "concat pieces = message_bytes ?segs @ rest" for options pieces rest v
  proof -
    have "admits options (message_words w1)" using opt by (auto simp: admits_def split: option.splits)
    from write_then_read [OF output_sendable [OF wf count(1,2) this] wrote(2) pieces]
    obtain owned pieces' where o: "read_message chunk_read options pieces = (Ok owned, pieces')" "concat pieces' = rest"
      "owned_len owned = Ok (length ?segs)"
      "\<And>i. owned_get_segment owned i = Ok (if unat i < length ?segs then Some (?segs ! unat i) else None)" by blast
    have segs: "segments_of owned_get_segment (length ?segs) owned = ?segs"
      by (rule segments_of_get [of owned_get_segment], rule o(4)) (use count in \<open>simp add: SEGMENTS_COUNT_LIMIT_def\<close>)
    let ?v = "message_reader_new (aligned_segments ?segs) options v"
    have "message_words w1 < 2 ^ 60"
    proof -
      have "x \<le> 2 ^ 29" if "x \<in> set (map (\<lambda>s. length s div 8) ?segs)" for x
        using that output_lengths [OF wf] count(3) by (fastforce simp: in_set_conv_nth)
      then have "message_words w1 \<le> length ?segs * 2 ^ 29"
        unfolding message_words_def using sum_list_le_bound [of "map (\<lambda>s. length s div 8) ?segs" "2 ^ 29"] by simp
      then show ?thesis using count(3) w1(3) by simp
    qed
    then have bound: "message_words w1 + 3 + 0 < 2 ^ 64" by simp
    have "affords (message_words w1 + 3 + 0) ?v" using new_reader_affords [OF opt] by simp
    then obtain v' where "reader_get_root (pr_get_text None) ?v = (Ok bs, v')"
      by (rule takesE [OF takes_root_text [OF new_reader_output [OF wf refl] w1(2)] refl _ bound])
    then show ?thesis using o(1-3) segs by auto
  qed
  show ?thesis using set wrote(1) read by blast
qed

theorem built_text_is_read_witness:
  "\<exists>w1 bytes. builder_set_root (\<lambda>_. pb_set_text 1 [104, 105]) (message_builder_new (Heap heap_allocator_default) sample_builder) = (Ok (), w1) \<and>
    write_message vec_write_all (w_builder w1) [] = (Ok (), bytes) \<and>
    (\<exists>owned pieces' k. read_message chunk_read \<lparr>traversal_limit_in_words = None, option_nesting_limit = 64\<rparr> [bytes, [7]] = (Ok owned, pieces') \<and>
         concat pieces' = [7] \<and> owned_len owned = Ok k \<and>
         fst (reader_get_root (pr_get_text None)
           (message_reader_new (aligned_segments (segments_of owned_get_segment k owned))
             \<lparr>traversal_limit_in_words = None, option_nesting_limit = 64\<rparr> sample_builder)) = Ok [104, 105])"
proof -
  have "max_segment_words heap_allocator_default \<le> 2 ^ 29" by (simp add: heap_allocator_default_def)
  moreover have "length [104, 105 :: u8] + 1 < 2 ^ 29" by simp
  moreover have "admits \<lparr>traversal_limit_in_words = None, option_nesting_limit = 64\<rparr> n" for n by (simp add: admits_def)
  moreover have "concat [bytes, [7 :: u8]] = bytes @ [7]" for bytes by simp
  ultimately show ?thesis using built_text_is_read [OF heap_ok_default, of "[104, 105]" 1 sample_builder] by blast
qed

end
