(* ===== verification/Byte_Channel.thy ===== *)
theory Byte_Channel
  imports Prelude
begin

text \<open>
  \<^verbatim>\<open>async-byte-channel/src/lib.rs\<close>: an in-memory byte stream between two tasks, one
  buffer of 8096 bytes behind a mutex. The writer fills the buffer from the front and starts
  over only when the reader has taken all of it. A task that cannot go on leaves its waker and
  is parked.

  Every operation takes the lock for its whole body, so the interleavings of the two tasks are
  the sequences of operations. Shown: over any such sequence nothing panics and the bytes
  written are the bytes read followed by the bytes buffered (the channel refines a queue), a
  parked task has nothing to do, and the two ends are never stuck together.
\<close>

section \<open>State\<close>

datatype 'a poll = Pending | Ready 'a

text \<open>The only I/O error that the channel makes.\<close>

datatype io_error = ConnectionAborted

text \<open>
  \<open>Inner\<close>. A waker is the number of the task that it wakes; \<open>woken\<close> records the wake-ups in
  the order in which they happen.
\<close>

record channel_inner =
  buffer :: "u8 list"
  write_cursor :: nat
  read_cursor :: nat
  write_end_closed :: bool
  read_end_closed :: bool
  read_waker :: "nat option"
  write_waker :: "nat option"
  woken :: "nat list"

definition CHANNEL_SIZE :: nat where
  "CHANNEL_SIZE = 8096"

definition channel_new :: channel_inner where
  "channel_new = \<lparr>buffer = replicate CHANNEL_SIZE 0, write_cursor = 0, read_cursor = 0,
     write_end_closed = False, read_end_closed = False, read_waker = None, write_waker = None,
     woken = []\<rparr>"

section \<open>Operations\<close>

text \<open>\<open>if let Some(waker) = waker.take() { waker.wake(); }\<close>\<close>

definition wake_reader :: "channel_inner \<Rightarrow> channel_inner" where
  "wake_reader c = (case read_waker c of
     Some t \<Rightarrow> c\<lparr>read_waker := None, woken := woken c @ [t]\<rparr>
   | None \<Rightarrow> c)"

definition wake_writer :: "channel_inner \<Rightarrow> channel_inner" where
  "wake_writer c = (case write_waker c of
     Some t \<Rightarrow> c\<lparr>write_waker := None, woken := woken c @ [t]\<rparr>
   | None \<Rightarrow> c)"

text \<open>\<open>Drop for Sender\<close> and \<open>Drop for Receiver\<close>.\<close>

definition drop_sender :: "(channel_inner, unit) prog" where
  "drop_sender c = (Ok (), wake_reader (c\<lparr>write_end_closed := True\<rparr>))"

definition drop_receiver :: "(channel_inner, unit) prog" where
  "drop_receiver c = (Ok (), wake_writer (c\<lparr>read_end_closed := True\<rparr>))"

text \<open>
  \<open>AsyncRead::poll_read\<close> of the task \<open>t\<close> into a buffer of \<open>len\<close> bytes; the result is what was
  copied to the front of that buffer.
\<close>

definition poll_read :: "nat \<Rightarrow> nat \<Rightarrow> (channel_inner, u8 list poll) prog" where
  "poll_read t len =
     bindp (gets (\<lambda>c. c)) (\<lambda>c.
     if read_cursor c = write_cursor c then
       if write_end_closed c then ret (Ready [])
       else seqp (modifyp (\<lambda>c. c\<lparr>read_waker := Some t\<rparr>)) (ret Pending)
     else seqp (assertp (read_cursor c < write_cursor c))
       (let copy_len = min len (write_cursor c - read_cursor c) in
        seqp (assertp (read_cursor c + copy_len \<le> length (buffer c)))
        (seqp (modifyp (\<lambda>c. wake_writer (c\<lparr>read_cursor := read_cursor c + copy_len\<rparr>)))
          (ret (Ready (take_at (read_cursor c) copy_len (buffer c)))))))"

text \<open>\<open>AsyncWrite::poll_write\<close> of the task \<open>t\<close>; the result is the number of bytes taken.\<close>

definition poll_write :: "nat \<Rightarrow> u8 list \<Rightarrow> (channel_inner, (io_error + nat) poll) prog" where
  "poll_write t buf =
     bindp (gets (\<lambda>c. c)) (\<lambda>c.
     if read_end_closed c then ret (Ready (Inl ConnectionAborted))
     else if write_cursor c = length (buffer c) \<and> read_cursor c \<noteq> length (buffer c) then
       seqp (modifyp (\<lambda>c. c\<lparr>write_waker := Some t\<rparr>)) (ret Pending)
     else seqp (if write_cursor c = length (buffer c)
                then modifyp (\<lambda>c. c\<lparr>write_cursor := 0, read_cursor := 0\<rparr>) else ret ())
       (bindp (gets (\<lambda>c. c)) (\<lambda>c.
        seqp (assertp (write_cursor c < length (buffer c)))
        (let copy_len = min (length buf) (length (buffer c) - write_cursor c) in
         seqp (modifyp (\<lambda>c. wake_reader
             (c\<lparr>buffer := write_at (write_cursor c) (take copy_len buf) (buffer c),
                write_cursor := write_cursor c + copy_len\<rparr>)))
           (ret (Ready (Inr copy_len)))))))"

text \<open>\<open>poll_flush\<close> does nothing; \<open>poll_close\<close> closes the writing end.\<close>

definition poll_flush :: "(channel_inner, unit poll) prog" where
  "poll_flush = ret (Ready ())"

definition poll_close :: "(channel_inner, unit poll) prog" where
  "poll_close = seqp (modifyp (\<lambda>c. wake_reader (c\<lparr>write_end_closed := True\<rparr>))) (ret (Ready ()))"

section \<open>The invariant\<close>

text \<open>
  The cursors are in order and within the buffer; a waker is only left behind by a task that
  has nothing to do: a parked reader has an empty open channel before it, a parked writer a
  full one that the reader has not emptied.
\<close>

definition channel_ok :: "channel_inner \<Rightarrow> bool" where
  "channel_ok c \<longleftrightarrow> length (buffer c) = CHANNEL_SIZE \<and> read_cursor c \<le> write_cursor c \<and>
     write_cursor c \<le> CHANNEL_SIZE \<and>
     (read_waker c \<noteq> None \<longrightarrow> read_cursor c = write_cursor c \<and> \<not> write_end_closed c) \<and>
     (write_waker c \<noteq> None \<longrightarrow> write_cursor c = CHANNEL_SIZE \<and> read_cursor c < CHANNEL_SIZE \<and>
        \<not> read_end_closed c)"

text \<open>The queue that the channel stands for.\<close>

definition buffered :: "channel_inner \<Rightarrow> u8 list" where
  "buffered c = take_at (read_cursor c) (write_cursor c - read_cursor c) (buffer c)"

lemma channel_ok_new: "channel_ok channel_new"
  by (simp add: channel_ok_def channel_new_def CHANNEL_SIZE_def)

lemma buffered_new: "buffered channel_new = []"
  by (simp add: buffered_def channel_new_def)

lemma wake_simps [simp]:
  "buffer (wake_reader c) = buffer c" "write_cursor (wake_reader c) = write_cursor c"
  "read_cursor (wake_reader c) = read_cursor c" "read_waker (wake_reader c) = None"
  "write_waker (wake_reader c) = write_waker c" "write_end_closed (wake_reader c) = write_end_closed c"
  "read_end_closed (wake_reader c) = read_end_closed c"
  "buffer (wake_writer c) = buffer c" "write_cursor (wake_writer c) = write_cursor c"
  "read_cursor (wake_writer c) = read_cursor c" "write_waker (wake_writer c) = None"
  "read_waker (wake_writer c) = read_waker c" "write_end_closed (wake_writer c) = write_end_closed c"
  "read_end_closed (wake_writer c) = read_end_closed c"
  by (simp_all add: wake_reader_def wake_writer_def split: option.splits)

lemma length_buffered: "channel_ok c \<Longrightarrow> length (buffered c) = write_cursor c - read_cursor c"
  by (auto simp: channel_ok_def buffered_def)

lemma take_at_split: "take_at i (m + n) xs = take_at i m xs @ take_at (i + m) n xs"
  by (simp add: take_at_def take_add add.commute)

lemma take_at_grow:
  assumes "i \<le> j" "j + length ys \<le> length xs"
  shows "take_at i (j + length ys - i) (write_at j ys xs) = take_at i (j - i) xs @ ys"
proof -
  have "j + length ys - i = (j - i) + length ys" using assms by simp
  then have "take_at i (j + length ys - i) (write_at j ys xs) =
      take_at i (j - i) (write_at j ys xs) @ take_at (i + (j - i)) (length ys) (write_at j ys xs)"
    by (simp only: take_at_split)
  also have "take_at i (j - i) (write_at j ys xs) = take_at i (j - i) xs"
    by (rule take_at_write_at_disjoint) (use assms in auto)
  also have "take_at (i + (j - i)) (length ys) (write_at j ys xs) = ys"
    using assms by (simp add: take_at_write_at_same)
  finally show ?thesis .
qed


section \<open>What the operations do\<close>

lemma poll_read_run:
  assumes ok: "channel_ok c"
  obtains (eof) "poll_read t len c = (Ok (Ready []), c)" "buffered c = []" "write_end_closed c"
  | (parked) "poll_read t len c = (Ok Pending, c\<lparr>read_waker := Some t\<rparr>)" "buffered c = []"
      "\<not> write_end_closed c"
  | (data) bs c' where "poll_read t len c = (Ok (Ready bs), c')" "buffered c = bs @ buffered c'"
      "length bs = min len (length (buffered c))" "buffered c \<noteq> []"
      "c' = wake_writer (c\<lparr>read_cursor := read_cursor c + length bs\<rparr>)" "channel_ok c'"
proof (cases "read_cursor c = write_cursor c")
  case True
  then have "buffered c = []" by (simp add: buffered_def)
  with True eof parked show ?thesis
    by (cases "write_end_closed c") (simp_all add: poll_read_def run_simps)
next
  case False
  let ?n = "min len (write_cursor c - read_cursor c)"
  let ?c = "wake_writer (c\<lparr>read_cursor := read_cursor c + ?n\<rparr>)"
  let ?bs = "take_at (read_cursor c) ?n (buffer c)"
  have lt: "read_cursor c < write_cursor c" and le: "write_cursor c \<le> length (buffer c)"
    using ok False by (auto simp: channel_ok_def)
  have len: "length ?bs = ?n" using lt le by auto
  have run: "poll_read t len c = (Ok (Ready ?bs), ?c)"
    using lt le by (simp add: poll_read_def run_simps)
  have split: "buffered c = ?bs @ buffered ?c"
    using take_at_split [of "read_cursor c" ?n "write_cursor c - (read_cursor c + ?n)" "buffer c"] lt
    by (simp add: buffered_def)
  have ok': "channel_ok ?c"
    using ok lt by (auto simp: channel_ok_def)
  have "length (buffered c) = write_cursor c - read_cursor c" by (rule length_buffered [OF ok])
  then show ?thesis
    using data [OF run split] len lt ok' by (metis length_greater_0_conv zero_less_diff)
qed

lemma channel_ok_parked:
  assumes "channel_ok c" "buffered c = []" "\<not> write_end_closed c"
  shows "channel_ok (c\<lparr>read_waker := Some t\<rparr>)"
  using assms length_buffered [OF assms(1)] by (auto simp: channel_ok_def)

lemma poll_write_run:
  assumes ok: "channel_ok c"
  obtains (aborted) "poll_write t buf c = (Ok (Ready (Inl ConnectionAborted)), c)" "read_end_closed c"
  | (parked) "poll_write t buf c = (Ok Pending, c\<lparr>write_waker := Some t\<rparr>)" "\<not> read_end_closed c"
      "buffered c \<noteq> []" "write_cursor c = CHANNEL_SIZE" "channel_ok (c\<lparr>write_waker := Some t\<rparr>)"
  | (data) n c' where "poll_write t buf c = (Ok (Ready (Inr n)), c')" "\<not> read_end_closed c"
      "n \<le> length buf" "n = 0 \<longleftrightarrow> buf = []" "buffered c' = buffered c @ take n buf" "channel_ok c'"
      "read_waker c' = None" "write_end_closed c' = write_end_closed c"
      "read_end_closed c' = read_end_closed c"
proof (cases "read_end_closed c")
  case True
  with aborted show ?thesis by (simp add: poll_write_def run_simps)
next
  case opened: False
  show ?thesis
  proof (cases "write_cursor c = length (buffer c) \<and> read_cursor c \<noteq> length (buffer c)")
    case True
    then have "channel_ok (c\<lparr>write_waker := Some t\<rparr>)" "write_cursor c = CHANNEL_SIZE" "buffered c \<noteq> []"
      using ok opened length_buffered [OF ok] by (auto simp: channel_ok_def)
    with True opened parked show ?thesis by (simp add: poll_write_def run_simps)
  next
    case False
    define d where "d = (if write_cursor c = length (buffer c)
      then c\<lparr>write_cursor := 0, read_cursor := 0\<rparr> else c)"
    define n where "n = min (length buf) (length (buffer d) - write_cursor d)"
    define e where "e = wake_reader (d\<lparr>buffer := write_at (write_cursor d) (take n buf) (buffer d),
        write_cursor := write_cursor d + n\<rparr>)"
    have room: "write_cursor d < length (buffer d)"
      using ok by (auto simp: d_def channel_ok_def CHANNEL_SIZE_def)
    have same: "buffered d = buffered c"
      using False by (auto simp: d_def buffered_def)
    have okd: "channel_ok d" using ok False by (auto simp: d_def channel_ok_def)
    have le: "write_cursor d + n \<le> length (buffer d)" "n \<le> length buf" "length (take n buf) = n"
      using room by (auto simp: n_def)
    have run: "poll_write t buf c = (Ok (Ready (Inr n)), e)"
      using opened False room ok unfolding poll_write_def e_def n_def d_def
      by (auto simp: run_simps channel_ok_def CHANNEL_SIZE_def)
    have grow: "buffered e = buffered c @ take n buf"
      using take_at_grow [of "read_cursor d" "write_cursor d" "take n buf" "buffer d"] le okd
      by (simp add: e_def same [symmetric]) (simp add: buffered_def channel_ok_def)
    have "channel_ok e"
      using okd le room False by (auto simp: e_def channel_ok_def d_def)
    moreover have "n = 0 \<longleftrightarrow> buf = []" using room by (auto simp: n_def min_def split: if_splits)
    ultimately show ?thesis
      using data [OF run opened le(2) _ grow] by (simp add: e_def d_def)
  qed
qed

section \<open>Two tasks and what passes between them\<close>

text \<open>
  A channel together with the bytes that the sender's polls have reported as taken and the
  bytes that the receiver's polls have delivered.
\<close>

record channel_system =
  inner :: channel_inner
  sent :: "u8 list"
  received :: "u8 list"

definition channel :: channel_system where
  "channel = \<lparr>inner = channel_new, sent = [], received = []\<rparr>"

datatype channel_op = PollRead nat nat | PollWrite nat "u8 list" | PollFlush | PollClose
  | DropSender | DropReceiver

definition on_inner :: "(channel_inner, 'a) prog \<Rightarrow> (channel_system, 'a) prog" where
  "on_inner m s = (case m (inner s) of (r, c) \<Rightarrow> (r, s\<lparr>inner := c\<rparr>))"

definition do_read :: "nat \<Rightarrow> nat \<Rightarrow> (channel_system, unit) prog" where
  "do_read t len = bindp (on_inner (poll_read t len)) (\<lambda>r. case r of
     Ready bs \<Rightarrow> modifyp (\<lambda>s. s\<lparr>received := received s @ bs\<rparr>)
   | Pending \<Rightarrow> ret ())"

definition do_write :: "nat \<Rightarrow> u8 list \<Rightarrow> (channel_system, nat) prog" where
  "do_write t buf = bindp (on_inner (poll_write t buf)) (\<lambda>r. case r of
     Ready (Inr n) \<Rightarrow> seqp (modifyp (\<lambda>s. s\<lparr>sent := sent s @ take n buf\<rparr>)) (ret n)
   | _ \<Rightarrow> ret 0)"

fun channel_step :: "channel_op \<Rightarrow> (channel_system, unit) prog" where
  "channel_step (PollRead t len) = do_read t len"
| "channel_step (PollWrite t buf) = seqp (do_write t buf) (ret ())"
| "channel_step PollFlush = seqp (on_inner poll_flush) (ret ())"
| "channel_step PollClose = seqp (on_inner poll_close) (ret ())"
| "channel_step DropSender = on_inner drop_sender"
| "channel_step DropReceiver = on_inner drop_receiver"

definition channel_run :: "channel_op list \<Rightarrow> (channel_system, unit) prog" where
  "channel_run ops = foldp (\<lambda>op _. channel_step op) ops ()"

definition system_ok :: "channel_system \<Rightarrow> bool" where
  "system_ok s \<longleftrightarrow> channel_ok (inner s) \<and> sent s = received s @ buffered (inner s)"

lemma on_inner_run: "m (inner s) = (r, c) \<Longrightarrow> on_inner m s = (r, s\<lparr>inner := c\<rparr>)"
  by (simp add: on_inner_def)

lemma closing_ok:
  "channel_ok c \<Longrightarrow> channel_ok (wake_reader (c\<lparr>write_end_closed := True\<rparr>))"
  "channel_ok c \<Longrightarrow> channel_ok (wake_writer (c\<lparr>read_end_closed := True\<rparr>))"
  by (simp_all add: channel_ok_def)

lemma closing_buffered:
  "buffered (wake_reader (c\<lparr>write_end_closed := b\<rparr>)) = buffered c"
  "buffered (wake_writer (c\<lparr>read_end_closed := b\<rparr>)) = buffered c"
  "buffered (c\<lparr>read_waker := w\<rparr>) = buffered c" "buffered (c\<lparr>write_waker := w\<rparr>) = buffered c"
  by (simp_all add: buffered_def)

lemma do_read_run:
  assumes "system_ok s"
  obtains s' where "do_read t len s = (Ok (), s')" "system_ok s'" "sent s' = sent s"
    "read_end_closed (inner s') = read_end_closed (inner s)"
    "length (buffered (inner s')) = length (buffered (inner s)) - len"
proof -
  have ok: "channel_ok (inner s)" and fifo: "sent s = received s @ buffered (inner s)"
    using assms by (simp_all add: system_ok_def)
  from ok show ?thesis
  proof (cases rule: poll_read_run [where t = t and len = len])
    case eof
    show ?thesis
      using that [of "s\<lparr>inner := inner s, received := received s @ []\<rparr>"] eof assms
      by (simp add: do_read_def on_inner_def run_simps)
  next
    case parked
    show ?thesis
      using that [of "s\<lparr>inner := inner s\<lparr>read_waker := Some t\<rparr>\<rparr>"] parked ok fifo
        channel_ok_parked [OF ok parked(2,3)]
      by (simp add: do_read_def on_inner_def run_simps system_ok_def closing_buffered)
  next
    case (data bs c')
    let ?s = "s\<lparr>inner := c', received := received s @ bs\<rparr>"
    have "read_end_closed c' = read_end_closed (inner s)" by (simp add: data(5))
    moreover have "length (buffered c') = length (buffered (inner s)) - len"
      using arg_cong [OF data(2), of length] data(3) by simp
    moreover have "do_read t len s = (Ok (), ?s)"
      using data(1) by (simp add: do_read_def on_inner_def run_simps)
    moreover have "system_ok ?s" using data(2,6) fifo by (simp add: system_ok_def)
    ultimately show ?thesis using that [of ?s] by simp
  qed
qed

lemma do_write_run:
  assumes "system_ok s"
  obtains n s' where "do_write t buf s = (Ok n, s')" "system_ok s'" "sent s' = sent s @ take n buf"
    "read_end_closed (inner s') = read_end_closed (inner s)" "n \<le> length buf"
    "length (buffered (inner s')) = length (buffered (inner s)) + n"
    "n = 0 \<Longrightarrow> buf \<noteq> [] \<Longrightarrow> \<not> read_end_closed (inner s) \<Longrightarrow> buffered (inner s') \<noteq> []"
proof -
  have ok: "channel_ok (inner s)" and fifo: "sent s = received s @ buffered (inner s)"
    using assms by (simp_all add: system_ok_def)
  from ok show ?thesis
  proof (cases rule: poll_write_run [where t = t and buf = buf])
    case aborted
    show ?thesis
      using that [of 0 s] aborted assms by (simp add: do_write_def on_inner_def run_simps)
  next
    case parked
    show ?thesis
      using that [of 0 "s\<lparr>inner := inner s\<lparr>write_waker := Some t\<rparr>\<rparr>"] parked fifo
      by (simp add: do_write_def on_inner_def run_simps system_ok_def closing_buffered)
  next
    case (data n c')
    show ?thesis
      using that [of n "s\<lparr>inner := c', sent := sent s @ take n buf\<rparr>"] data fifo
      by (simp add: do_write_def on_inner_def run_simps system_ok_def)
  qed
qed

lemma channel_step_run:
  assumes "system_ok s"
  shows "\<exists>s'. channel_step op s = (Ok (), s') \<and> system_ok s'"
proof (cases op)
  case (PollRead t len)
  then show ?thesis using do_read_run [OF assms, of t len] by auto
next
  case (PollWrite t buf)
  obtain n s' where "do_write t buf s = (Ok n, s')" "system_ok s'"
    using do_write_run [OF assms, of t buf] by blast
  then show ?thesis using PollWrite by (simp add: run_simps)
qed (use assms in \<open>simp_all add: on_inner_def poll_flush_def poll_close_def drop_sender_def
  drop_receiver_def run_simps system_ok_def closing_ok closing_buffered\<close>)

lemma channel_run_ok:
  assumes "system_ok s"
  shows "\<exists>s'. channel_run ops s = (Ok (), s') \<and> system_ok s'"
  using assms
proof (induction ops arbitrary: s)
  case Nil
  then show ?case by (simp add: channel_run_def ret_def)
next
  case (Cons op ops)
  obtain t where "channel_step op s = (Ok (), t)" "system_ok t"
    using channel_step_run [OF Cons.prems] by blast
  then show ?case using Cons.IH [of t] by (simp add: channel_run_def bindp_def)
qed

lemma channel_start_ok: "system_ok channel"
  by (simp add: system_ok_def channel_def channel_ok_new buffered_new)

text \<open>C35: Whatever the two tasks do and in whatever order, no assertion and no slice of the
  channel fails, and the bytes taken from the sender are exactly the bytes handed to the receiver
  followed by the bytes in the buffer: the channel is a queue of bounded length.\<close>

theorem channel_is_fifo:
  "\<exists>s. channel_run ops channel = (Ok (), s) \<and> sent s = received s @ buffered (inner s) \<and>
     length (buffered (inner s)) \<le> CHANNEL_SIZE"
proof -
  obtain s where s: "channel_run ops channel = (Ok (), s)" "system_ok s"
    using channel_run_ok [OF channel_start_ok] by blast
  then have "length (buffered (inner s)) \<le> CHANNEL_SIZE"
    by (auto simp: system_ok_def length_buffered channel_ok_def)
  with s show ?thesis by (auto simp: system_ok_def)
qed

section \<open>Progress\<close>

text \<open>
  The schedule of a task that writes all of \<open>data\<close> and a task that reads \<open>k\<close> bytes at a time,
  polled in turn. The result is what is left to write.
\<close>

fun transfer :: "nat \<Rightarrow> nat \<Rightarrow> u8 list \<Rightarrow> (channel_system, u8 list) prog" where
  "transfer 0 k data = ret data"
| "transfer (Suc rounds) k data =
     bindp (do_write 0 data) (\<lambda>n. seqp (do_read 1 k) (transfer rounds k (drop n data)))"

lemma transfer_run:
  assumes "system_ok s" "0 < k" "\<not> read_end_closed (inner s)"
    "2 * length data + length (buffered (inner s)) \<le> rounds"
  shows "\<exists>s'. transfer rounds k data s = (Ok [], s') \<and> sent s' = sent s @ data \<and>
    received s' = sent s'"
  using assms(1,3,4)
proof (induction rounds arbitrary: s data)
  case 0
  then show ?case by (simp add: ret_def system_ok_def)
next
  case (Suc rounds)
  obtain n t where w: "do_write 0 data s = (Ok n, t)" "system_ok t" "sent t = sent s @ take n data"
    "read_end_closed (inner t) = read_end_closed (inner s)" "n \<le> length data"
    "length (buffered (inner t)) = length (buffered (inner s)) + n"
    "n = 0 \<Longrightarrow> data \<noteq> [] \<Longrightarrow> \<not> read_end_closed (inner s) \<Longrightarrow> buffered (inner t) \<noteq> []"
    using do_write_run [OF Suc.prems(1)] by blast
  obtain u where r: "do_read 1 k t = (Ok (), u)" "system_ok u" "sent u = sent t"
    "read_end_closed (inner u) = read_end_closed (inner t)"
    "length (buffered (inner u)) = length (buffered (inner t)) - k"
    using do_read_run [OF w(2)] by blast
  have "2 * length (drop n data) + length (buffered (inner u)) \<le> rounds"
    using Suc.prems(2,3) w(5,6,7) r(5) \<open>0 < k\<close>
    by (cases "data = []"; cases "n = 0") (auto simp: diff_le_mono2 simp flip: length_greater_0_conv)
  then obtain v where "transfer rounds k (drop n data) u = (Ok [], v)"
    "sent v = sent u @ drop n data" "received v = sent v"
    using Suc.IH [of u "drop n data"] r(2,4) w(4) Suc.prems(2) by auto
  then show ?case using w(1,3) r(1,3) by (simp add: bindp_def seqp_def)
qed

text \<open>C36: The channel delivers. Whatever was done before, as long as the receiver is there, a
  task that keeps polling a write of \<open>data\<close> and a task that keeps polling reads of at least one
  byte never block each other: within twice the number of bytes to write plus the buffer size
  rounds everything is written and everything ever written has arrived, in order.\<close>

theorem channel_delivers:
  assumes "channel_run ops channel = (Ok (), s)" "\<not> read_end_closed (inner s)" "0 < k"
  shows "\<exists>s'. transfer (2 * length data + CHANNEL_SIZE) k data s = (Ok [], s') \<and>
    sent s' = sent s @ data \<and> received s' = sent s'"
proof -
  have ok: "system_ok s" using channel_run_ok [OF channel_start_ok, of ops] assms(1) by simp
  then have "length (buffered (inner s)) \<le> CHANNEL_SIZE"
    by (auto simp: system_ok_def length_buffered channel_ok_def)
  with ok assms(2,3) show ?thesis by (intro transfer_run) simp_all
qed

lemma channel_delivers_witness:
  "\<exists>s'. transfer (2 * length [1, 2, 3 :: u8] + CHANNEL_SIZE) 2 [1, 2, 3] channel = (Ok [], s') \<and>
    sent s' = [1, 2, 3] \<and> received s' = sent s'"
  using channel_delivers [of "[]" channel 2 "[1, 2, 3]"]
  by (simp add: channel_run_def ret_def channel_def channel_new_def)

text \<open>
  No wake-up is lost: the reader that was parked is woken by the next write, and by the closing
  of the other end.
\<close>

lemma parked_reader_is_woken:
  assumes "channel_ok c" "read_waker c = Some t" "poll_write t' buf c = (Ok (Ready (Inr n)), c')"
  shows "woken c' = woken c @ [t]"
  using assms by (auto simp: poll_write_def run_simps wake_reader_def channel_ok_def split: if_splits)

lemma parked_reader_is_woken_by_close:
  "read_waker c = Some t \<Longrightarrow> woken (snd (poll_close c)) = woken c @ [t]"
  "read_waker c = Some t \<Longrightarrow> woken (snd (drop_sender c)) = woken c @ [t]"
  by (simp_all add: poll_close_def drop_sender_def wake_reader_def run_simps)

lemma parked_writer_is_woken:
  assumes "channel_ok c" "write_waker c = Some t"
  shows "woken (snd (poll_read t' len c)) = woken c @ [t]"
  using assms by (auto simp: poll_read_def run_simps wake_writer_def channel_ok_def)

end
