(* ===== verification/Rpc_Tables.thy ===== *)
theory Rpc_Tables
  imports Prelude
begin

text \<open>
  The tables of \<^verbatim>\<open>capnp-rpc/src/rpc.rs\<close> that hand out ids: \<^verbatim>\<open>ExportTable\<close>, which holds
  the exports, the questions and the embargoes of a connection. A freed id goes to a heap and the
  lowest free id is used first.

  The locale \<open>id_table\<close> is what the clients of the table rely on: a table stands for a finite map
  from ids to values, a new value gets an id that is not in use, and only the id that is erased
  goes away. It is interpreted on the table of the code.
\<close>

section \<open>The table\<close>

text \<open>
  \<open>free_ids\<close> is a \<open>BinaryHeap<Reverse<u32>>\<close>: a bag of ids of which \<open>pop\<close> takes the least; the
  order of the list has no meaning.
\<close>

record 'a export_table =
  slots :: "'a option list"
  free_ids :: "u32 list"

definition table_new :: "'a export_table" where
  "table_new = \<lparr>slots = [], free_ids = []\<rparr>"

fun heap_pop :: "u32 list \<Rightarrow> (u32 \<times> u32 list) option" where
  "heap_pop [] = None"
| "heap_pop (i # is) = (let k = fold min is i in Some (k, remove1 k (i # is)))"

text \<open>\<open>erase\<close>: an index out of range panics, and the id is freed whatever the slot held.\<close>

definition table_erase :: "u32 \<Rightarrow> ('a export_table, unit) prog" where
  "table_erase i =
     bindp (gets slots) (\<lambda>sl.
     seqp (assertp (unat i < length sl))
       (modifyp (\<lambda>t. t\<lparr>slots := (slots t)[unat i := None], free_ids := i # free_ids t\<rparr>)))"

text \<open>\<open>push\<close>: \<open>self.slots.len() as u32 - 1\<close> overflows when the length is a multiple of \<open>2 ^ 32\<close>.\<close>

definition table_push :: "'a \<Rightarrow> ('a export_table, u32) prog" where
  "table_push v =
     bindp (gets (\<lambda>t. t)) (\<lambda>t. case heap_pop (free_ids t) of
       Some (i, rest) \<Rightarrow>
         seqp (modifyp (\<lambda>t. t\<lparr>free_ids := rest\<rparr>))
         (seqp (assertp (unat i < length (slots t)))
         (seqp (modifyp (\<lambda>t. t\<lparr>slots := (slots t)[unat i := Some v]\<rparr>)) (ret i)))
     | None \<Rightarrow>
         seqp (modifyp (\<lambda>t. t\<lparr>slots := slots t @ [Some v]\<rparr>))
         (bindp (gets (\<lambda>t. of_nat (length (slots t)))) (\<lambda>len.
          seqp (assertp (len \<noteq> 0)) (ret (len - 1)))))"

text \<open>\<open>find\<close>, and what the caller does through the reference that it returns.\<close>

definition table_find :: "u32 \<Rightarrow> 'a export_table \<Rightarrow> 'a option" where
  "table_find i t = (if unat i < length (slots t) then slots t ! unat i else None)"

definition table_set :: "u32 \<Rightarrow> 'a \<Rightarrow> 'a export_table \<Rightarrow> 'a export_table" where
  "table_set i v t = t\<lparr>slots := (slots t)[unat i := Some v]\<rparr>"

text \<open>\<open>slots[i as usize]\<close>: unlike \<open>find\<close> it panics out of range.\<close>

definition table_index :: "u32 \<Rightarrow> 'a export_table \<Rightarrow> 'a option outcome" where
  "table_index i t = (if unat i < length (slots t) then Ok (slots t ! unat i) else Panic)"

text \<open>
  \<open>ExportTableIter::next\<close> on a position: the next value and the position behind it; and all the
  values that the iterator of \<open>iter\<close> yields.
\<close>

function iter_next :: "'a option list \<Rightarrow> nat \<Rightarrow> 'a option \<times> nat" where
  "iter_next sl idx = (if idx < length sl then
     (case sl ! idx of Some v \<Rightarrow> (Some v, Suc idx) | None \<Rightarrow> iter_next sl (Suc idx))
   else (None, idx))"
  by pat_completeness auto
termination
  by (relation "measure (\<lambda>(sl, idx). length sl - idx)") auto

declare iter_next.simps [simp del]

lemma iter_next_progress: "iter_next sl idx = (Some v, idx') \<Longrightarrow> idx < idx' \<and> idx' \<le> length sl"
proof (induction sl idx rule: iter_next.induct)
  case (1 sl idx)
  show ?case
  proof (cases "idx < length sl \<and> sl ! idx = None")
    case True
    then have "iter_next sl (Suc idx) = (Some v, idx')"
      using "1.prems" by (subst (asm) iter_next.simps) simp
    then show ?thesis using "1.IH" True by auto
  next
    case False
    then show ?thesis using "1.prems"
      by (subst (asm) iter_next.simps) (auto split: if_splits option.splits)
  qed
qed

function iter_all :: "'a option list \<Rightarrow> nat \<Rightarrow> 'a list" where
  "iter_all sl idx = (case iter_next sl idx of (Some v, idx') \<Rightarrow> v # iter_all sl idx' | (None, _) \<Rightarrow> [])"
  by pat_completeness auto
termination
  by (relation "measure (\<lambda>(sl, idx). length sl - idx)") (auto dest: sym [THEN iter_next_progress])

declare iter_all.simps [simp del]

definition table_iter :: "'a export_table \<Rightarrow> 'a list" where
  "table_iter t = iter_all (slots t) 0"

section \<open>The iterator yields the values in the order of their ids\<close>

lemma iter_all_values: "iter_all sl idx = List.map_filter (\<lambda>x. x) (drop idx sl)"
proof (induction "length sl - idx" arbitrary: idx)
  case 0
  then show ?case by (subst iter_all.simps) (simp add: iter_next.simps List.map_filter_def)
next
  case (Suc n)
  then have lt: "idx < length sl" and IH: "iter_all sl (Suc idx) = List.map_filter (\<lambda>x. x) (drop (Suc idx) sl)"
    by simp_all
  have d: "drop idx sl = sl ! idx # drop (Suc idx) sl" using lt by (simp add: Cons_nth_drop_Suc)
  show ?case
  proof (cases "sl ! idx")
    case None
    have "iter_next sl idx = iter_next sl (Suc idx)" using lt None by (subst iter_next.simps) simp
    then have "iter_all sl idx = iter_all sl (Suc idx)" by (subst (1 2) iter_all.simps) simp
    then show ?thesis using IH None by (simp add: d List.map_filter_simps)
  next
    case (Some v)
    have "iter_next sl idx = (Some v, Suc idx)" using lt Some by (subst iter_next.simps) simp
    then show ?thesis using IH Some by (subst iter_all.simps) (simp add: d List.map_filter_simps)
  qed
qed

lemma table_iter_values: "table_iter t = List.map_filter (\<lambda>x. x) (slots t)"
  by (simp add: table_iter_def iter_all_values)

section \<open>What the clients rely on\<close>

locale id_table =
  fixes push :: "'v \<Rightarrow> ('t, u32) prog" and erase :: "u32 \<Rightarrow> ('t, unit) prog"
    and look :: "u32 \<Rightarrow> 't \<Rightarrow> 'v option" and put :: "u32 \<Rightarrow> 'v \<Rightarrow> 't \<Rightarrow> 't" and inv :: "'t \<Rightarrow> bool"
  assumes push_law: "inv t \<Longrightarrow> push v t = (Ok i, t') \<Longrightarrow>
      inv t' \<and> look i t = None \<and> (\<forall>j. look j t' = (if j = i then Some v else look j t))"
    and erase_law: "inv t \<Longrightarrow> look i t \<noteq> None \<Longrightarrow>
      \<exists>t'. erase i t = (Ok (), t') \<and> inv t' \<and> (\<forall>j. look j t' = (if j = i then None else look j t))"
    and put_law: "inv t \<Longrightarrow> look i t \<noteq> None \<Longrightarrow>
      inv (put i v t) \<and> (\<forall>j. look j (put i v t) = (if j = i then Some v else look j t))"
begin

lemma pushE:
  assumes "push v t = (Ok i, t')" "inv t"
  obtains "inv t'" "look i t = None" "\<And>j. look j t' = (if j = i then Some v else look j t)"
  using push_law [OF assms(2,1)] that by blast

lemma eraseE:
  assumes "inv t" "look i t \<noteq> None"
  obtains t' where "erase i t = (Ok (), t')" "inv t'" "\<And>j. look j t' = (if j = i then None else look j t)"
  using erase_law [OF assms] that by blast

lemma look_put: "inv t \<Longrightarrow> look i t \<noteq> None \<Longrightarrow> look j (put i v t) = (if j = i then Some v else look j t)"
  using put_law by blast

lemma inv_put: "inv t \<Longrightarrow> look i t \<noteq> None \<Longrightarrow> inv (put i v t)"
  using put_law by blast

text \<open>An id stays with its value until it is erased, whatever else is pushed.\<close>

lemma push_keeps: "push v t = (Ok i, t') \<Longrightarrow> inv t \<Longrightarrow> look j t = Some w \<Longrightarrow> look j t' = Some w \<and> j \<noteq> i"
  by (erule (1) pushE) auto

lemma push_then_erase:
  assumes "push v t = (Ok i, t')" "inv t"
  obtains t'' where "erase i t' = (Ok (), t'')" "inv t''" "\<And>j. look j t'' = look j t"
proof -
  note p = push_law [OF assms(2,1)]
  then have "look i t' \<noteq> None" by simp
  with p obtain t'' where "erase i t' = (Ok (), t'')" "inv t''"
    "\<And>j. look j t'' = (if j = i then None else look j t')"
    using eraseE [of t' i] by blast
  with p show ?thesis by (intro that [of t'']) auto
qed

end

section \<open>The table of the code provides it\<close>

text \<open>The free ids are exactly the ids of the empty slots, each of them once.\<close>

definition table_ok :: "'a export_table \<Rightarrow> bool" where
  "table_ok t \<longleftrightarrow> distinct (free_ids t) \<and> length (slots t) < 2 ^ 32 \<and>
     (\<forall>i. i \<in> set (free_ids t) \<longleftrightarrow> unat i < length (slots t) \<and> slots t ! unat i = None)"

lemma table_ok_new: "table_ok table_new"
  by (simp add: table_ok_def table_new_def)

lemma heap_pop_min:
  assumes "heap_pop is = Some (i, rest)"
  shows "i \<in> set is" "\<And>j. j \<in> set is \<Longrightarrow> i \<le> j" "rest = remove1 i is"
proof -
  obtain x xs where xs: "is = x # xs" using assms by (cases "is") auto
  have "i = fold min xs x" and r: "rest = remove1 i is"
    using assms by (auto simp: xs Let_def)
  then have i: "i = Min (set is)" by (simp only: xs Min.set_eq_fold)
  show "i \<in> set is" unfolding i by (rule Min_in) (simp_all add: xs)
  show "i \<le> j" if "j \<in> set is" for j unfolding i using that by simp
  show "rest = remove1 i is" by (rule r)
qed

lemma heap_pop_None: "heap_pop is = None \<longleftrightarrow> is = []"
  by (cases "is") (simp_all add: Let_def)

text \<open>A push takes the least free id, and a new slot only when no id is free.\<close>

lemma table_push_cases:
  assumes "table_ok t"
  obtains (reuse) i where "table_push v t = (Ok i, t\<lparr>slots := (slots t)[unat i := Some v],
        free_ids := remove1 i (free_ids t)\<rparr>)"
      "i \<in> set (free_ids t)" "\<And>j. j \<in> set (free_ids t) \<Longrightarrow> i \<le> j"
  | (grow) "table_push v t = (Ok (of_nat (length (slots t))), t\<lparr>slots := slots t @ [Some v]\<rparr>)"
      "free_ids t = []" "Suc (length (slots t)) < 2 ^ 32"
  | (full) t' where "table_push v t = (Panic, t')" "free_ids t = []" "Suc (length (slots t)) = 2 ^ 32"
proof (cases "heap_pop (free_ids t)")
  case None
  have len: "length (slots t) < 2 ^ 32" using assms by (simp add: table_ok_def)
  have u: "unat (of_nat (Suc (length (slots t))) :: u32) = (if Suc (length (slots t)) = 2 ^ 32 then 0 else Suc (length (slots t)))"
    using len unfolding unat_of_nat by simp
  show ?thesis
  proof (cases "Suc (length (slots t)) = 2 ^ 32")
    case True
    then have "of_nat (Suc (length (slots t))) = (0 :: u32)" using u by (metis unat_eq_zero)
    then have "table_push v t = (Panic, t\<lparr>slots := slots t @ [Some v]\<rparr>)"
      using None by (simp add: table_push_def run_simps)
    then show ?thesis using full None True by (simp add: heap_pop_None)
  next
    case False
    then have "of_nat (Suc (length (slots t))) \<noteq> (0 :: u32)" using u by (metis nat.simps(3) unat_0)
    then have "table_push v t = (Ok (of_nat (length (slots t))), t\<lparr>slots := slots t @ [Some v]\<rparr>)"
      using None by (simp add: table_push_def run_simps)
    then show ?thesis using grow None False len by (simp add: heap_pop_None)
  qed
next
  case (Some p)
  then obtain i rest where p: "heap_pop (free_ids t) = Some (i, rest)" by (cases p) simp
  note i = heap_pop_min [OF p]
  then have "unat i < length (slots t)" using assms by (auto simp: table_ok_def)
  then have "table_push v t = (Ok i, t\<lparr>slots := (slots t)[unat i := Some v], free_ids := remove1 i (free_ids t)\<rparr>)"
    using p i(3) by (simp add: table_push_def run_simps)
  then show ?thesis using i reuse by blast
qed

lemma table_push_outcome:
  assumes "table_ok t"
  obtains (pushed) i t' where "table_push v t = (Ok i, t')"
  | (full) t' where "table_push v t = (Panic, t')" "free_ids t = []" "Suc (length (slots t)) = 2 ^ 32"
  using assms
proof (cases rule: table_push_cases [where v = v])
  case reuse
  then show ?thesis by (intro pushed)
next
  case grow
  then show ?thesis by (intro pushed)
next
  case (full t')
  then show ?thesis by (rule that(2))
qed

lemma table_find_nth:
  "table_find i (t\<lparr>slots := (slots t)[unat k := x]\<rparr>) =
     (if i = k \<and> unat k < length (slots t) then x else table_find i t)"
  by (auto simp: table_find_def nth_list_update word_unat_eq_iff)

lemma table_push_law:
  assumes "table_ok t" "table_push v t = (Ok i, t')"
  shows "table_ok t' \<and> table_find i t = None \<and>
    (\<forall>j. table_find j t' = (if j = i then Some v else table_find j t))"
  using assms(1)
proof (cases rule: table_push_cases [where v = v])
  case (reuse k)
  then have k: "k = i" and t': "t' = t\<lparr>slots := (slots t)[unat i := Some v], free_ids := remove1 i (free_ids t)\<rparr>"
    using assms(2) by simp_all
  have free: "unat i < length (slots t)" "slots t ! unat i = None"
    using assms(1) reuse(2) by (auto simp: table_ok_def k)
  have "table_ok t'"
    using assms(1) free by (auto simp: t' table_ok_def nth_list_update word_unat_eq_iff split: if_splits)
  moreover have "table_find j t' = (if j = i then Some v else table_find j t)" for j
    using free by (auto simp: t' table_find_def nth_list_update word_unat_eq_iff)
  ultimately show ?thesis using free by (simp add: table_find_def)
next
  case grow
  let ?n = "length (slots t)"
  have i: "i = of_nat ?n" and t': "t' = t\<lparr>slots := slots t @ [Some v]\<rparr>"
    using grow(1) assms(2) by simp_all
  have u: "unat i = ?n" using grow(3) by (simp add: i unat_of_nat)
  have full: "slots t ! m \<noteq> None" if "m < ?n" for m
  proof
    assume "slots t ! m = None"
    moreover have "unat (of_nat m :: u32) = m" using that grow(3) by (simp add: unat_of_nat)
    ultimately have "of_nat m \<in> set (free_ids t)" using assms(1) that by (simp add: table_ok_def)
    then show False using grow(2) by simp
  qed
  have "table_ok t'"
    using grow(2,3) full by (auto simp: t' table_ok_def nth_append less_Suc_eq)
  moreover have "table_find j t' = (if j = i then Some v else table_find j t)" for j
    using u by (auto simp: t' table_find_def nth_append word_unat_eq_iff)
  ultimately show ?thesis using u by (simp add: table_find_def)
next
  case full
  then show ?thesis using assms(2) by simp
qed

lemma table_find_live: "table_find i t \<noteq> None \<Longrightarrow> unat i < length (slots t) \<and> slots t ! unat i \<noteq> None"
  by (auto simp: table_find_def split: if_splits)

lemma table_erase_law:
  assumes "table_ok t" "table_find i t \<noteq> None"
  shows "\<exists>t'. table_erase i t = (Ok (), t') \<and> table_ok t' \<and>
    (\<forall>j. table_find j t' = (if j = i then None else table_find j t))"
proof -
  note live = table_find_live [OF assms(2)]
  let ?t = "t\<lparr>slots := (slots t)[unat i := None], free_ids := i # free_ids t\<rparr>"
  have "table_erase i t = (Ok (), ?t)" using live by (simp add: table_erase_def run_simps)
  moreover have "table_ok ?t"
    using assms(1) live by (auto simp: table_ok_def nth_list_update word_unat_eq_iff)
  moreover have "table_find j ?t = (if j = i then None else table_find j t)" for j
    using live by (auto simp: table_find_def nth_list_update word_unat_eq_iff)
  ultimately show ?thesis by blast
qed

lemma table_set_law:
  assumes "table_ok t" "table_find i t \<noteq> None"
  shows "table_ok (table_set i v t) \<and>
    (\<forall>j. table_find j (table_set i v t) = (if j = i then Some v else table_find j t))"
  using assms(1) table_find_live [OF assms(2)]
  by (auto simp: table_ok_def table_set_def table_find_nth nth_list_update word_unat_eq_iff)

interpretation ids: id_table table_push table_erase table_find table_set table_ok
  by unfold_locales (fact table_push_law table_erase_law table_set_law)+

text \<open>An id erased twice is handed out twice: the clients have to check before they erase.\<close>

lemma erased_twice:
  "fst (bindp (seqp (table_erase 0) (table_erase 0)) (\<lambda>_. bindp (table_push 2) (\<lambda>i.
     bindp (table_push 3) (\<lambda>j. ret (i, j)))) \<lparr>slots = [Some (1 :: nat)], free_ids = []\<rparr>) = Ok (0, 0)"
  by (simp add: table_erase_def table_push_def run_simps)

end
