(* ===== verification/Rpc_Connection.thy ===== *)
theory Rpc_Connection
  imports Rpc_Tables
begin

text \<open>
  One end of an RPC connection: \<^verbatim>\<open>ConnectionState\<close> of \<^verbatim>\<open>capnp-rpc/src/rpc.rs\<close> with
  its four tables and every operation that changes them: sending calls, dropping references,
  completing calls, resolving promises, handling each kind of message, and disconnecting.

  A message is its decoded value; of a payload the capability descriptors are kept and the
  content is not. The objects behind \<^verbatim>\<open>dyn ClientHook\<close> may be the application's own, so a
  hook that is passed to an operation is a view: its address, its brand and what
  \<open>get_resolved\<close> and \<open>when_more_resolved\<close> say at that moment.
\<close>

section \<open>Messages\<close>

datatype pipeline_op = Noop | GetPointerField u16

datatype cap_descriptor = CapNone | SenderHosted u32 | SenderPromise u32 | ReceiverHosted u32
  | ReceiverAnswer u32 "pipeline_op list" | ThirdPartyHosted

datatype message_target = ImportedCap u32 | PromisedAnswer u32 "pipeline_op list"

datatype exception_type = ExFailed | ExOverloaded | ExDisconnected | ExUnimplemented

datatype send_results_to = ToCaller | ToYourself | ToThirdParty

datatype return_body = Results "cap_descriptor list" | ReturnException exception_type | Canceled
  | ResultsSentElsewhere | TakeFromOtherQuestion u32 | AcceptFromThirdParty

datatype resolution = ResolveCap cap_descriptor | ResolveException exception_type

datatype disembargo_context = SenderLoopback u32 | ReceiverLoopback u32 | OtherContext

text \<open>
  The messages of \<^verbatim>\<open>rpc.capnp\<close>: \<open>MCall id target interface method caps to\<close>,
  \<open>MReturn id no_finish_needed body\<close>, \<open>MFinish id release_result_caps\<close>, \<open>MRelease id count\<close>.
  \<open>MOther\<close> stands for the kinds that the code does not implement.
\<close>

datatype rpc_message = MUnimplemented rpc_message | MAbort exception_type | MBootstrap u32
  | MCall u32 message_target u64 u16 "cap_descriptor list" send_results_to
  | MReturn u32 bool return_body | MFinish u32 bool | MResolve u32 resolution | MRelease u32 u32
  | MDisembargo message_target disembargo_context | MOther

text \<open>\<open>from_error\<close> and \<open>remote_exception_to_error\<close>, up to the text of the error.\<close>

definition from_error :: "error_kind \<Rightarrow> exception_type" where
  "from_error e = (case e of
     Failed \<Rightarrow> ExFailed
   | Overloaded \<Rightarrow> ExOverloaded
   | Disconnected \<Rightarrow> ExDisconnected
   | Unimplemented \<Rightarrow> ExUnimplemented
   | SettingDynamicCapabilitiesIsUnsupported \<Rightarrow> ExUnimplemented
   | _ \<Rightarrow> ExFailed)"

fun remote_exception_to_error :: "exception_type \<Rightarrow> error_kind" where
  "remote_exception_to_error ExFailed = Failed"
| "remote_exception_to_error ExOverloaded = Overloaded"
| "remote_exception_to_error ExDisconnected = Disconnected"
| "remote_exception_to_error ExUnimplemented = Unimplemented"

section \<open>Clients\<close>

text \<open>
  A hook as it is seen when it is used. \<open>LocalHook a r w\<close> is a client of another brand at the
  address \<open>a\<close>, with \<open>get_resolved() = r\<close> and \<open>when_more_resolved().is_some() = w\<close>. The others
  are the variants of \<^verbatim>\<open>Client\<close> of this connection: an import by its id, a pipelined
  capability of a question, and a promise with its capability and \<open>is_resolved\<close>.
\<close>

datatype client_hook = LocalHook nat "client_hook option" bool
  | ImportHook u32
  | PipelineHook nat u32 "pipeline_op list"
  | PromiseHook nat client_hook bool

text \<open>\<open>get_ptr\<close>: the addresses of live objects are distinct; an import client is the only one of
  its id.\<close>

datatype hook_ptr = LocalPtr nat | ImportPtr u32 | PipelinePtr nat | PromisePtr nat

fun get_ptr :: "client_hook \<Rightarrow> hook_ptr" where
  "get_ptr (LocalHook a r w) = LocalPtr a"
| "get_ptr (ImportHook i) = ImportPtr i"
| "get_ptr (PipelineHook a q ops) = PipelinePtr a"
| "get_ptr (PromiseHook a cap res) = PromisePtr a"

text \<open>Whether \<open>get_brand\<close> is the brand of this connection.\<close>

fun own_brand :: "client_hook \<Rightarrow> bool" where
  "own_brand (LocalHook a r w) = False"
| "own_brand _ = True"

fun get_resolved :: "client_hook \<Rightarrow> client_hook option" where
  "get_resolved (LocalHook a r w) = r"
| "get_resolved (PromiseHook a cap res) = (if res then Some cap else None)"
| "get_resolved _ = None"

fun when_more_resolved :: "client_hook \<Rightarrow> bool" where
  "when_more_resolved (LocalHook a r w) = w"
| "when_more_resolved (PromiseHook a cap res) = True"
| "when_more_resolved _ = False"

text \<open>\<open>while let Some(inner) = client.get_resolved() { client = inner; }\<close>\<close>

fun innermost :: "client_hook \<Rightarrow> client_hook" where
  "innermost (LocalHook a (Some h) w) = innermost h"
| "innermost (PromiseHook a cap True) = innermost cap"
| "innermost h = h"

text \<open>
  What \<open>receive_cap\<close> hands to the application: a new \<^verbatim>\<open>Client\<close> object (an import or a
  promise, with the flow controller that comes with the object), a hook of its own, a broken
  capability, or a capability of a pipeline.
\<close>

datatype received_cap = ImportRef u32 nat | PromiseRef nat nat | OwnCap client_hook | BrokenCap
  | PipelinedCap u32 "pipeline_op list"

section \<open>The state of a connection\<close>

record export_entry =
  refcount :: u32
  canonical :: bool
  client_hook :: client_hook
  resolving :: bool

text \<open>\<open>self_ref\<close> is \<open>None\<close> when the \<open>QuestionRef\<close> is gone, and otherwise says whether the
  reference still has its fulfiller.\<close>

record question =
  is_awaiting_return :: bool
  param_exports :: "u32 list"
  is_tail_call :: bool
  self_ref :: "bool option"
  skip_finish :: bool

text \<open>Of the pipeline and of the promises only their presence is kept.\<close>

record answer =
  return_has_been_sent :: bool
  pipeline :: bool
  redirected_results :: bool
  received_finish :: bool
  call_completion :: bool
  result_exports :: "u32 list"

text \<open>An entry of the import table together with the \<open>remote_ref_count\<close> of its import client.\<close>

record import_entry =
  remote_ref_count :: u32
  app_client :: "received_cap option"
  promise_client_to_resolve :: "nat option"

record promise_client =
  is_resolved :: bool
  cap :: client_hook
  import_id :: "u32 option"
  received_call :: bool

datatype reply = ReplyResults "received_cap option list" | ReplyError error_kind | ReplyRedirected

text \<open>
  \<open>client_downcast_map\<close> maps an address to the flow controller that the weak client in it refers
  to; \<open>flows\<close> are the flow controllers that are alive. An object is alive as long as it is in the
  map, because its destructor removes it. \<open>connection\<close> is \<open>None\<close> while there is a connection and
  the error after a disconnect. \<open>tasks\<close> are the scheduled answers to disembargoes, \<open>outbox\<close> is
  what was sent and \<open>replies\<close> what the promises of questions were resolved with.
\<close>

record connection_state =
  bootstrap_cap :: client_hook
  exports :: "export_entry export_table"
  questions :: "question export_table"
  answers :: "u32 \<rightharpoonup> answer"
  import_table :: "u32 \<rightharpoonup> import_entry"
  exports_by_cap :: "hook_ptr \<rightharpoonup> u32"
  embargoes :: "bool export_table"
  connection :: "error_kind option"
  client_downcast_map :: "hook_ptr \<rightharpoonup> nat"
  flows :: "nat set"
  next_object :: nat
  promises :: "nat \<rightharpoonup> promise_client"
  tasks :: "(client_hook \<times> u32) list"
  outbox :: "rpc_message list"
  replies :: "(u32 \<times> reply) list"

definition connection_new :: "client_hook \<Rightarrow> connection_state" where
  "connection_new h = \<lparr>bootstrap_cap = h, exports = table_new, questions = table_new,
     answers = Map.empty, import_table = Map.empty, exports_by_cap = Map.empty,
     embargoes = table_new, connection = None, client_downcast_map = Map.empty, flows = {},
     next_object = 0, promises = Map.empty, tasks = [], outbox = [], replies = []\<rparr>"

definition question_new :: question where
  "question_new = \<lparr>is_awaiting_return = True, param_exports = [], is_tail_call = False,
     self_ref = None, skip_finish = False\<rparr>"

definition answer_new :: answer where
  "answer_new = \<lparr>return_has_been_sent = False, pipeline = False, redirected_results = False,
     received_finish = False, call_completion = False, result_exports = []\<rparr>"

definition export_entry_new :: "client_hook \<Rightarrow> export_entry" where
  "export_entry_new h = \<lparr>refcount = 1, canonical = False, client_hook = h, resolving = False\<rparr>"

definition import_entry_new :: import_entry where
  "import_entry_new = \<lparr>remote_ref_count = 0, app_client = None, promise_client_to_resolve = None\<rparr>"

type_synonym 'a rpc = "(connection_state, 'a) prog"

text \<open>The operations of the tables on the state of the connection.\<close>

definition on_exports :: "(export_entry export_table, 'a) prog \<Rightarrow> 'a rpc" where
  "on_exports m s = (case m (exports s) of (r, t) \<Rightarrow> (r, s\<lparr>exports := t\<rparr>))"

definition on_questions :: "(question export_table, 'a) prog \<Rightarrow> 'a rpc" where
  "on_questions m s = (case m (questions s) of (r, t) \<Rightarrow> (r, s\<lparr>questions := t\<rparr>))"

definition on_embargoes :: "(bool export_table, 'a) prog \<Rightarrow> 'a rpc" where
  "on_embargoes m s = (case m (embargoes s) of (r, t) \<Rightarrow> (r, s\<lparr>embargoes := t\<rparr>))"

definition update_answer :: "u32 \<Rightarrow> (answer \<Rightarrow> answer) \<Rightarrow> connection_state \<Rightarrow> connection_state" where
  "update_answer i f s = s\<lparr>answers := (answers s)(i := map_option f (answers s i))\<rparr>"

definition update_import :: "u32 \<Rightarrow> (import_entry \<Rightarrow> import_entry) \<Rightarrow> connection_state \<Rightarrow> connection_state" where
  "update_import i f s = s\<lparr>import_table := (import_table s)(i := map_option f (import_table s i))\<rparr>"

definition update_promise :: "nat \<Rightarrow> (promise_client \<Rightarrow> promise_client) \<Rightarrow> connection_state \<Rightarrow> connection_state" where
  "update_promise p f s = s\<lparr>promises := (promises s)(p := map_option f (promises s p))\<rparr>"

text \<open>
  \<open>new_outgoing_message\<close>, and the sending of a message: after a disconnect the write queue has
  been terminated and what is sent goes nowhere.
\<close>

definition new_outgoing_message :: "unit rpc" where
  "new_outgoing_message = bindp (gets connection) (\<lambda>c. case c of None \<Rightarrow> ret () | Some e \<Rightarrow> err e)"

definition send_message :: "rpc_message \<Rightarrow> unit rpc" where
  "send_message msg = modifyp (\<lambda>s. if connection s = None then s\<lparr>outbox := outbox s @ [msg]\<rparr> else s)"

section \<open>Client objects\<close>

text \<open>
  \<open>Client::new\<close>: a flow controller of its own, and a weak client in the map under the address
  of the variant, in place of the one that was there.
\<close>

definition client_new :: "hook_ptr \<Rightarrow> nat rpc" where
  "client_new p = bindp (gets next_object) (\<lambda>f.
     seqp (modifyp (\<lambda>s. s\<lparr>next_object := Suc f, flows := insert f (flows s),
       client_downcast_map := (client_downcast_map s)(p \<mapsto> f)\<rparr>)) (ret f))"

text \<open>
  \<open>Client::from_ptr\<close> succeeds when the weak client in the map can be upgraded: the flow
  controller that it refers to has to be alive. The callers take a failure for unreachable.
\<close>

definition from_ptr :: "hook_ptr \<Rightarrow> connection_state \<Rightarrow> bool" where
  "from_ptr p s = (case client_downcast_map s p of Some f \<Rightarrow> f \<in> flows s | None \<Rightarrow> False)"

definition downcast :: "hook_ptr \<Rightarrow> unit rpc" where
  "downcast p = bindp (gets (from_ptr p)) assertp"

text \<open>The last clone of a \<^verbatim>\<open>Client\<close> object goes, and its flow controller with it.\<close>

definition drop_client :: "nat \<Rightarrow> unit rpc" where
  "drop_client f = modifyp (\<lambda>s. s\<lparr>flows := flows s - {f}\<rparr>)"

text \<open>\<open>Drop for ImportClient\<close>.\<close>

definition forget_ptr :: "hook_ptr \<Rightarrow> unit rpc" where
  "forget_ptr p = bindp (gets client_downcast_map) (\<lambda>mp.
     seqp (modifyp (\<lambda>s. s\<lparr>client_downcast_map := (client_downcast_map s)(p := None)\<rparr>))
       (assertp (mp p \<noteq> None)))"

definition drop_import :: "u32 \<Rightarrow> unit rpc" where
  "drop_import i = bindp (gets (\<lambda>s. import_table s i)) (\<lambda>imp.
     seqp (forget_ptr (ImportPtr i))
     (seqp (modifyp (\<lambda>s. s\<lparr>import_table := (import_table s)(i := None)\<rparr>))
       (case imp of
          Some e \<Rightarrow> if remote_ref_count e > 0 then send_message (MRelease i (remote_ref_count e)) else ret ()
        | None \<Rightarrow> ret ())))"

text \<open>\<open>Drop for PipelineClient\<close>.\<close>

definition drop_pipeline_client :: "nat \<Rightarrow> unit rpc" where
  "drop_pipeline_client a = forget_ptr (PipelinePtr a)"

text \<open>
  \<open>Drop for PromiseClient\<close>. The destructor wants to reset \<open>app_client\<close> when it refers to this
  promise, but the weak reference to an object under destruction cannot be upgraded, so that
  \<open>c.upgrade()\<close> is \<open>None\<close> and the entry stays.
\<close>

definition drop_promise_client :: "nat \<Rightarrow> unit rpc" where
  "drop_promise_client a =
     seqp (modifyp (\<lambda>s. s\<lparr>promises := (promises s)(a := None)\<rparr>)) (forget_ptr (PromisePtr a))"

text \<open>\<open>PromiseClient::new\<close> with the \<^verbatim>\<open>Client\<close> around it.\<close>

definition promise_client_new :: "client_hook \<Rightarrow> u32 option \<Rightarrow> received_cap rpc" where
  "promise_client_new c i = bindp (gets next_object) (\<lambda>a.
     seqp (modifyp (\<lambda>s. s\<lparr>next_object := Suc a, promises := (promises s)(a \<mapsto>
       \<lparr>is_resolved = False, cap = c, import_id = i, received_call = False\<rparr>)\<rparr>))
     (bindp (client_new (PromisePtr a)) (\<lambda>f. ret (PromiseRef a f))))"

text \<open>\<open>Pipeline::get_pipelined_cap_move\<close> while the pipeline waits: a pipeline client, wrapped in
  a promise when the pipeline may be redirected later.\<close>

definition pipelined_cap :: "u32 \<Rightarrow> pipeline_op list \<Rightarrow> bool \<Rightarrow> nat rpc" where
  "pipelined_cap q ops redirect_later = bindp (gets next_object) (\<lambda>a.
     seqp (modifyp (\<lambda>s. s\<lparr>next_object := Suc a\<rparr>))
     (bindp (client_new (PipelinePtr a)) (\<lambda>_.
      if redirect_later then seqp (promise_client_new (PipelineHook a q ops) None) (ret a) else ret a)))"

section \<open>Exports\<close>

text \<open>\<open>release_export\<close> and \<open>release_exports\<close>.\<close>

definition release_export :: "u32 \<Rightarrow> u32 \<Rightarrow> unit rpc" where
  "release_export i n = bindp (gets (\<lambda>s. table_find i (exports s))) (\<lambda>found. case found of
     None \<Rightarrow> err Failed
   | Some e \<Rightarrow>
       if n > refcount e then err Failed
       else if refcount e - n = 0 then
         seqp (modifyp (\<lambda>s. s\<lparr>exports := table_set i (e\<lparr>refcount := 0\<rparr>) (exports s)\<rparr>))
         (seqp (if canonical e
                then modifyp (\<lambda>s. s\<lparr>exports_by_cap := (exports_by_cap s)(get_ptr (client_hook e) := None)\<rparr>)
                else ret ())
           (on_exports (table_erase i)))
       else modifyp (\<lambda>s. s\<lparr>exports := table_set i (e\<lparr>refcount := refcount e - n\<rparr>) (exports s)\<rparr>))"

definition release_exports :: "u32 list \<Rightarrow> unit rpc" where
  "release_exports is = foldp (\<lambda>i _. release_export i 1) is ()"

text \<open>
  The part of \<open>write_descriptor\<close> for a hook that is not of this connection: one more reference
  to the export that there is, or a new export. The increment overflows at \<open>2 ^ 32\<close>.
\<close>

definition export_cap :: "client_hook \<Rightarrow> (cap_descriptor \<times> u32 option) rpc" where
  "export_cap h = bindp (gets (\<lambda>s. exports_by_cap s (get_ptr h))) (\<lambda>known. case known of
     Some i \<Rightarrow> bindp (gets (\<lambda>s. table_find i (exports s))) (\<lambda>found. case found of
         None \<Rightarrow> panic
       | Some e \<Rightarrow> seqp (assertp (refcount e \<noteq> - 1))
           (seqp (modifyp (\<lambda>s. s\<lparr>exports := table_set i (e\<lparr>refcount := refcount e + 1\<rparr>) (exports s)\<rparr>))
             (ret (SenderHosted i, Some i))))
   | None \<Rightarrow>
       bindp (on_exports (table_push ((export_entry_new h)\<lparr>canonical := True\<rparr>))) (\<lambda>i.
       seqp (modifyp (\<lambda>s. s\<lparr>exports_by_cap := (exports_by_cap s)(get_ptr h \<mapsto> i)\<rparr>))
         (if when_more_resolved h then
            seqp (modifyp (\<lambda>s. s\<lparr>exports := (case table_find i (exports s) of
                Some e \<Rightarrow> table_set i (e\<lparr>resolving := True\<rparr>) (exports s)
              | None \<Rightarrow> exports s)\<rparr>)) (ret (SenderPromise i, Some i))
          else ret (SenderHosted i, Some i))))"

text \<open>\<open>ConnectionState::write_descriptor\<close> with \<open>Client::write_descriptor\<close>.\<close>

fun write_descriptor :: "client_hook \<Rightarrow> (cap_descriptor \<times> u32 option) rpc" where
  "write_descriptor (LocalHook a (Some h) w) = write_descriptor h"
| "write_descriptor (PromiseHook a c True) = write_descriptor c"
| "write_descriptor (LocalHook a None w) = export_cap (LocalHook a None w)"
| "write_descriptor (ImportHook i) = seqp (downcast (ImportPtr i)) (ret (ReceiverHosted i, None))"
| "write_descriptor (PipelineHook a q ops) =
     seqp (downcast (PipelinePtr a)) (ret (ReceiverAnswer q ops, None))"
| "write_descriptor (PromiseHook a c False) =
     seqp (downcast (PromisePtr a))
     (seqp (modifyp (update_promise a (\<lambda>p. p\<lparr>received_call := True\<rparr>))) (write_descriptor c))"

text \<open>\<open>write_descriptors\<close>: the descriptors of a payload and the exports among them.\<close>

definition write_descriptors :: "client_hook option list \<Rightarrow> (cap_descriptor list \<times> u32 list) rpc" where
  "write_descriptors caps = foldp (\<lambda>c (ds, es). case c of
       Some h \<Rightarrow> bindp (write_descriptor h) (\<lambda>(d, e).
         ret (ds @ [d], case e of Some i \<Rightarrow> es @ [i] | None \<Rightarrow> es))
     | None \<Rightarrow> ret (ds @ [CapNone], es)) caps ([], [])"

text \<open>\<open>Client::write_target\<close> with \<open>ConnectionState::write_target\<close>; \<open>Inr h\<close> is a redirect.\<close>

fun write_target :: "client_hook \<Rightarrow> (message_target + client_hook) rpc" where
  "write_target (ImportHook i) = ret (Inl (ImportedCap i))"
| "write_target (PipelineHook a q ops) = ret (Inl (PromisedAnswer q ops))"
| "write_target (PromiseHook a c res) =
     seqp (modifyp (update_promise a (\<lambda>p. p\<lparr>received_call := True\<rparr>)))
       (if own_brand c then seqp (downcast (get_ptr c)) (write_target c) else ret (Inr c))"
| "write_target (LocalHook a r w) = ret (Inr (LocalHook a r w))"

section \<open>Imports\<close>

text \<open>Whether \<open>app_client\<close> can still be upgraded.\<close>

definition upgradable :: "received_cap \<Rightarrow> connection_state \<Rightarrow> bool" where
  "upgradable c s = (case c of
     ImportRef i f \<Rightarrow> client_downcast_map s (ImportPtr i) \<noteq> None \<and> f \<in> flows s
   | PromiseRef a f \<Rightarrow> client_downcast_map s (PromisePtr a) \<noteq> None \<and> f \<in> flows s
   | _ \<Rightarrow> False)"

text \<open>\<open>import\<close>: one more remote reference, and a client for it.\<close>

definition import_cap :: "u32 \<Rightarrow> bool \<Rightarrow> received_cap rpc" where
  "import_cap i is_promise =
     seqp (modifyp (\<lambda>s. if import_table s i = None
         then s\<lparr>import_table := (import_table s)(i \<mapsto> import_entry_new)\<rparr> else s))
     (bindp (gets (\<lambda>s. import_table s i)) (\<lambda>entry. case entry of None \<Rightarrow> panic | Some e \<Rightarrow>
      seqp (assertp (remote_ref_count e \<noteq> - 1))
      (seqp (modifyp (update_import i (\<lambda>e. e\<lparr>remote_ref_count := remote_ref_count e + 1\<rparr>)))
        (if is_promise then
           (case app_client e of
              Some c \<Rightarrow> bindp (gets (upgradable c)) (\<lambda>b. seqp (assertp b) (ret c))
            | None \<Rightarrow>
                bindp (client_new (ImportPtr i)) (\<lambda>_.
                bindp (promise_client_new (ImportHook i) (Some i)) (\<lambda>c.
                seqp (modifyp (update_import i (\<lambda>e. e\<lparr>app_client := Some c,
                    promise_client_to_resolve := (case c of PromiseRef a f \<Rightarrow> Some a | _ \<Rightarrow> None)\<rparr>)))
                  (ret c))))
         else
           bindp (client_new (ImportPtr i)) (\<lambda>f.
           seqp (modifyp (update_import i (\<lambda>e. e\<lparr>app_client := Some (ImportRef i f)\<rparr>)))
             (ret (ImportRef i f)))))))"

text \<open>\<open>receive_cap\<close> and \<open>receive_caps\<close>.\<close>

definition receive_cap :: "cap_descriptor \<Rightarrow> received_cap option rpc" where
  "receive_cap d = (case d of
     CapNone \<Rightarrow> ret None
   | SenderHosted i \<Rightarrow> bindp (import_cap i False) (\<lambda>c. ret (Some c))
   | SenderPromise i \<Rightarrow> bindp (import_cap i True) (\<lambda>c. ret (Some c))
   | ReceiverHosted i \<Rightarrow> bindp (gets (\<lambda>s. table_find i (exports s))) (\<lambda>found. case found of
         Some e \<Rightarrow> ret (Some (OwnCap (client_hook e)))
       | None \<Rightarrow> ret (Some BrokenCap))
   | ReceiverAnswer q ops \<Rightarrow> bindp (gets (\<lambda>s. answers s q)) (\<lambda>found. case found of
         Some a \<Rightarrow> ret (Some (if pipeline a then PipelinedCap q ops else BrokenCap))
       | None \<Rightarrow> ret (Some BrokenCap))
   | ThirdPartyHosted \<Rightarrow> err Unimplemented)"

definition receive_caps :: "cap_descriptor list \<Rightarrow> received_cap option list rpc" where
  "receive_caps ds = foldp (\<lambda>d cs. bindp (receive_cap d) (\<lambda>c. ret (cs @ [c]))) ds []"

section \<open>Questions\<close>

text \<open>\<open>questions.slots[id as usize]\<close>, which has to be there.\<close>

definition the_question :: "u32 \<Rightarrow> question rpc" where
  "the_question q = bindp (gets questions) (\<lambda>t. case table_index q t of
     Ok (Some qu) \<Rightarrow> ret qu
   | _ \<Rightarrow> panic)"

definition set_question :: "u32 \<Rightarrow> question \<Rightarrow> unit rpc" where
  "set_question q qu = modifyp (\<lambda>s. s\<lparr>questions := table_set q qu (questions s)\<rparr>)"

text \<open>The new \<open>QuestionRef\<close> is entered in the table.\<close>

definition register_ref :: "u32 \<Rightarrow> unit rpc" where
  "register_ref q = bindp (the_question q) (\<lambda>qu. set_question q (qu\<lparr>self_ref := Some True\<rparr>))"

text \<open>\<open>send_internal\<close>.\<close>

definition send_call ::
  "message_target \<Rightarrow> u64 \<Rightarrow> u16 \<Rightarrow> client_hook option list \<Rightarrow> bool \<Rightarrow> u32 rpc" where
  "send_call target interface method caps tail =
     bindp (write_descriptors caps) (\<lambda>(ds, es).
     bindp (on_questions (table_push (question_new\<lparr>param_exports := es, is_tail_call := tail\<rparr>))) (\<lambda>q.
     seqp (send_message (MCall q target interface method ds (if tail then ToYourself else ToCaller)))
     (seqp (register_ref q) (ret q))))"

text \<open>\<open>Request::new\<close> and \<open>Request::send\<close>: without a connection there is no request, and a target
  that is no longer behind the connection gets a new request of its own (\<open>Inr\<close>).\<close>

definition request_new :: "unit rpc" where
  "request_new = new_outgoing_message"

definition request_send ::
  "client_hook \<Rightarrow> u64 \<Rightarrow> u16 \<Rightarrow> client_hook option list \<Rightarrow> (u32 + client_hook) rpc" where
  "request_send h interface method caps = bindp (write_target h) (\<lambda>t. case t of
     Inr redirect \<Rightarrow> ret (Inr redirect)
   | Inl target \<Rightarrow> bindp (send_call target interface method caps False) (\<lambda>q. ret (Inl q)))"

text \<open>\<open>tail_send\<close>.\<close>

definition tail_send ::
  "client_hook \<Rightarrow> u64 \<Rightarrow> u16 \<Rightarrow> client_hook option list \<Rightarrow> u32 option rpc" where
  "tail_send h interface method caps = bindp (gets connection) (\<lambda>c.
     if c \<noteq> None then ret None
     else bindp (write_target h) (\<lambda>t. case t of
       Inr redirect \<Rightarrow> ret None
     | Inl target \<Rightarrow> bindp (send_call target interface method caps True) (\<lambda>q. ret (Some q))))"

text \<open>\<open>ConnectionState::bootstrap\<close>.\<close>

definition bootstrap :: "u32 rpc" where
  "bootstrap = bindp (on_questions (table_push question_new)) (\<lambda>q.
     seqp (register_ref q)
     (bindp (gets connection) (\<lambda>c.
      if c \<noteq> None then panic else seqp (send_message (MBootstrap q)) (ret q))))"

text \<open>\<open>QuestionRef::fulfill\<close> and \<open>reject\<close>: the first one counts.\<close>

definition fulfill :: "u32 \<Rightarrow> reply \<Rightarrow> unit rpc" where
  "fulfill q r = bindp (the_question q) (\<lambda>qu.
     if self_ref qu = Some True
     then seqp (set_question q (qu\<lparr>self_ref := Some False\<rparr>))
       (modifyp (\<lambda>s. s\<lparr>replies := replies s @ [(q, r)]\<rparr>))
     else ret ())"

text \<open>\<open>Drop for QuestionRef\<close>.\<close>

definition drop_question_ref :: "u32 \<Rightarrow> unit rpc" where
  "drop_question_ref q = bindp (the_question q) (\<lambda>qu.
     seqp (if skip_finish qu then ret () else send_message (MFinish q (is_awaiting_return qu)))
       (if is_awaiting_return qu then set_question q (qu\<lparr>self_ref := None\<rparr>)
        else on_questions (table_erase q)))"

text \<open>\<open>send_streaming_internal\<close>: with a flow controller the message goes through it; without a
  connection to make one the question is dropped again.\<close>

definition send_streaming ::
  "message_target \<Rightarrow> u64 \<Rightarrow> u16 \<Rightarrow> client_hook option list \<Rightarrow> bool \<Rightarrow> u32 rpc" where
  "send_streaming target interface method caps has_flow =
     bindp (write_descriptors caps) (\<lambda>(ds, es).
     bindp (on_questions (table_push (question_new\<lparr>param_exports := es\<rparr>))) (\<lambda>q.
     seqp (register_ref q)
     (bindp (gets connection) (\<lambda>c.
      if \<not> has_flow \<and> c \<noteq> None then seqp (drop_question_ref q) (err Failed)
      else seqp (send_message (MCall q target interface method ds ToCaller)) (ret q)))))"

section \<open>Answers\<close>

text \<open>\<open>answer_has_sent_return\<close>.\<close>

definition answer_has_sent_return :: "u32 \<Rightarrow> u32 list \<Rightarrow> unit rpc" where
  "answer_has_sent_return i es = bindp (gets (\<lambda>s. answers s i)) (\<lambda>found. case found of
     None \<Rightarrow> panic
   | Some a \<Rightarrow>
       if received_finish a then modifyp (\<lambda>s. s\<lparr>answers := (answers s)(i := None)\<rparr>)
       else modifyp (update_answer i (\<lambda>a. a\<lparr>return_has_been_sent := True, result_exports := es\<rparr>)))"

text \<open>
  \<open>ResultsDone::from_results_inner\<close> for a call whose results go to the peer: the call \<open>i\<close> ended
  with \<open>status\<close> (\<open>None\<close> is \<open>Ok(())\<close>) and its results hold \<open>caps\<close>. Results that are redirected, or
  that were first touched after a disconnect, stay local and change nothing here.
\<close>

definition results_done :: "u32 \<Rightarrow> error_kind option \<Rightarrow> client_hook option list \<Rightarrow> unit rpc" where
  "results_done i status caps = bindp (gets (\<lambda>s. answers s i)) (\<lambda>found.
     if (case found of Some a \<Rightarrow> received_finish a | None \<Rightarrow> False) then
       seqp (send_message (MReturn i False Canceled)) (answer_has_sent_return i [])
     else (case status of
       None \<Rightarrow>
         seqp (if caps = [] then modifyp (update_answer i (\<lambda>a. a\<lparr>received_finish := True\<rparr>)) else ret ())
         (bindp (write_descriptors caps) (\<lambda>(ds, es).
          seqp (send_message (MReturn i (caps = []) (Results ds))) (answer_has_sent_return i es)))
     | Some e \<Rightarrow>
         seqp (send_message (MReturn i False (ReturnException (from_error e))))
           (answer_has_sent_return i [])))"

section \<open>Promises and embargoes\<close>

text \<open>
  \<open>PromiseClient::resolve\<close>, when the promise is still there. \<open>pl\<close> is the capability that a
  pipeline gives. When the replacement is local and calls were made to the promise, the calls
  have to echo back first: an embargo is set and a \<open>Disembargo\<close> sent to the original target.
\<close>

type_synonym pipelines = "u32 \<Rightarrow> pipeline_op list \<Rightarrow> client_hook"

fun local_cap :: "pipelines \<Rightarrow> received_cap \<Rightarrow> bool" where
  "local_cap pl (OwnCap h) = (\<not> own_brand h)"
| "local_cap pl (PipelinedCap q ops) = (\<not> own_brand (pl q ops))"
| "local_cap pl BrokenCap = True"
| "local_cap pl _ = False"

definition promise_resolve :: "pipelines \<Rightarrow> nat \<Rightarrow> error_kind + received_cap \<Rightarrow> unit rpc" where
  "promise_resolve pl a replacement = bindp (gets (\<lambda>s. s)) (\<lambda>s. case promises s a of
     None \<Rightarrow> ret ()
   | Some p \<Rightarrow>
       seqp (if (case replacement of Inr c \<Rightarrow> local_cap pl c | Inl e \<Rightarrow> False)
               \<and> received_call p \<and> connection s = None then
           bindp (on_embargoes (table_push True)) (\<lambda>eid.
           seqp new_outgoing_message
           (if own_brand (cap p) then
              seqp (downcast (get_ptr (cap p)))
              (bindp (write_target (cap p)) (\<lambda>t. case t of
                 Inr redirect \<Rightarrow> panic
               | Inl target \<Rightarrow> send_message (MDisembargo target (SenderLoopback eid))))
            else panic))
         else ret ())
       (modifyp (update_promise a (\<lambda>p. p\<lparr>is_resolved := True\<rparr>))))"

text \<open>
  What happens when an exported promise resolves (\<open>resolve_exported_promise\<close>): the export now
  points to the resolution, and the peer is told, unless the resolution is again a local promise
  that is not exported yet, for which the entry is used further.
\<close>

definition announce_resolution :: "u32 \<Rightarrow> client_hook \<Rightarrow> unit rpc" where
  "announce_resolution i h = seqp new_outgoing_message
     (bindp (write_descriptor h) (\<lambda>(d, _). send_message (MResolve i (ResolveCap d))))"

definition reuses_export :: "u32 \<Rightarrow> client_hook \<Rightarrow> (hook_ptr \<rightharpoonup> u32) \<Rightarrow> bool" where
  "reuses_export i h known \<longleftrightarrow> \<not> own_brand h \<and> when_more_resolved h \<and>
     (case known (get_ptr h) of Some j \<Rightarrow> j = i | None \<Rightarrow> True)"

definition repoint_export :: "u32 \<Rightarrow> client_hook \<Rightarrow> unit rpc" where
  "repoint_export i h = bindp (gets (\<lambda>s. table_find i (exports s))) (\<lambda>found. case found of
     None \<Rightarrow> err Failed
   | Some e \<Rightarrow>
      seqp (if canonical e
            then modifyp (\<lambda>s. s\<lparr>exports_by_cap := (exports_by_cap s)(get_ptr (client_hook e) := None)\<rparr>)
            else ret ())
      (bindp (gets exports_by_cap) (\<lambda>known.
        if reuses_export i h known then
          modifyp (\<lambda>s. s\<lparr>exports_by_cap := (exports_by_cap s)(get_ptr h \<mapsto> i),
            exports := table_set i (e\<lparr>client_hook := h, canonical := True\<rparr>) (exports s)\<rparr>)
        else
          seqp (modifyp (\<lambda>s. s\<lparr>exports :=
            table_set i (e\<lparr>client_hook := h, canonical := False\<rparr>) (exports s)\<rparr>))
          (announce_resolution i h))))"

definition exported_promise_resolved :: "u32 \<Rightarrow> error_kind + client_hook \<Rightarrow> unit rpc" where
  "exported_promise_resolved i result = (case result of
     Inl e \<Rightarrow> seqp new_outgoing_message (send_message (MResolve i (ResolveException (from_error e))))
   | Inr resolved \<Rightarrow>
       (let h = innermost resolved in
        seqp (if own_brand h then downcast (get_ptr h) else ret ()) (repoint_export i h)))"

section \<open>Handling messages\<close>

text \<open>\<open>get_message_target\<close>; \<open>None\<close> is a broken capability.\<close>

definition get_message_target :: "pipelines \<Rightarrow> message_target \<Rightarrow> client_hook option rpc" where
  "get_message_target pl target = (case target of
     ImportedCap i \<Rightarrow> bindp (gets (\<lambda>s. table_find i (exports s))) (\<lambda>found. case found of
         Some e \<Rightarrow> ret (Some (client_hook e))
       | None \<Rightarrow> err Failed)
   | PromisedAnswer q ops \<Rightarrow> bindp (gets (\<lambda>s. answers s q)) (\<lambda>found. case found of
         Some a \<Rightarrow> ret (if pipeline a then Some (pl q ops) else None)
       | None \<Rightarrow> ret None))"

definition handle_unimplemented :: "rpc_message \<Rightarrow> unit rpc" where
  "handle_unimplemented msg = (case msg of
     MResolve i (ResolveCap (SenderHosted e)) \<Rightarrow> release_export e 1
   | MResolve i (ResolveCap (SenderPromise e)) \<Rightarrow> release_export e 1
   | MResolve i (ResolveCap ThirdPartyHosted) \<Rightarrow> err Failed
   | MResolve i r \<Rightarrow> ret ()
   | _ \<Rightarrow> err Failed)"

definition handle_bootstrap :: "u32 \<Rightarrow> unit rpc" where
  "handle_bootstrap i = bindp (gets (\<lambda>s. s)) (\<lambda>s.
     if connection s \<noteq> None then ret ()
     else seqp new_outgoing_message
       (bindp (write_descriptors [Some (bootstrap_cap s)]) (\<lambda>(ds, es).
        bindp (gets (\<lambda>s. answers s i)) (\<lambda>found. case found of
          Some a \<Rightarrow> seqp (release_exports es) (err Failed)
        | None \<Rightarrow>
            seqp (modifyp (\<lambda>s. s\<lparr>answers := (answers s)(i \<mapsto>
              answer_new\<lparr>return_has_been_sent := True, result_exports := es, pipeline := True\<rparr>)\<rparr>))
            (send_message (MReturn i False (Results ds)))))))"

definition handle_finish :: "u32 \<Rightarrow> bool \<Rightarrow> unit rpc" where
  "handle_finish i release_result_caps = bindp (gets (\<lambda>s. answers s i)) (\<lambda>found. case found of
     None \<Rightarrow> release_exports []
   | Some a \<Rightarrow>
       seqp (modifyp (\<lambda>s. s\<lparr>answers := (answers s)(i := if return_has_been_sent a then None
           else Some (a\<lparr>received_finish := True, pipeline := False, call_completion := False,
             result_exports := if release_result_caps then [] else result_exports a\<rparr>))\<rparr>))
         (release_exports (if release_result_caps then result_exports a else [])))"

definition handle_resolve :: "pipelines \<Rightarrow> u32 \<Rightarrow> resolution \<Rightarrow> unit rpc" where
  "handle_resolve pl i r =
     bindp (case r of
         ResolveCap d \<Rightarrow> bindp (receive_cap d) (\<lambda>c. case c of
             Some c \<Rightarrow> ret (Inr c)
           | None \<Rightarrow> err Failed)
       | ResolveException e \<Rightarrow> ret (Inl (remote_exception_to_error e))) (\<lambda>replacement.
     bindp (gets (\<lambda>s. import_table s i)) (\<lambda>found. case found of
       None \<Rightarrow> ret ()
     | Some e \<Rightarrow>
         seqp (modifyp (update_import i (\<lambda>e. e\<lparr>promise_client_to_resolve := None\<rparr>)))
         (case promise_client_to_resolve e of
            Some a \<Rightarrow> promise_resolve pl a replacement
          | None \<Rightarrow> err Failed)))"

text \<open>
  \<open>handle_disembargo\<close>. \<open>now\<close> is the view of a hook at this moment, from which the resolved hooks
  are followed. The answer to a \<open>senderLoopback\<close> is a task, run by \<open>run_disembargo\<close>.
\<close>

definition handle_disembargo ::
  "pipelines \<Rightarrow> (client_hook \<Rightarrow> client_hook) \<Rightarrow> message_target \<Rightarrow> disembargo_context \<Rightarrow> unit rpc" where
  "handle_disembargo pl now target ctx = (case ctx of
     SenderLoopback eid \<Rightarrow> bindp (get_message_target pl target) (\<lambda>found. case found of
         None \<Rightarrow> err Failed
       | Some h \<Rightarrow>
           (let h' = innermost (now h) in
            if \<not> own_brand h' then err Failed
            else modifyp (\<lambda>s. s\<lparr>tasks := tasks s @ [(h', eid)]\<rparr>)))
   | ReceiverLoopback eid \<Rightarrow> bindp (gets (\<lambda>s. table_find eid (embargoes s))) (\<lambda>found. case found of
         Some fulfiller \<Rightarrow> seqp (assertp fulfiller) (on_embargoes (table_erase eid))
       | None \<Rightarrow> err Failed)
   | OtherContext \<Rightarrow> err Unimplemented)"

definition run_disembargo :: "unit rpc" where
  "run_disembargo = bindp (gets (\<lambda>s. s)) (\<lambda>s. case tasks s of
     [] \<Rightarrow> ret ()
   | (h, eid) # rest \<Rightarrow>
       seqp (modifyp (\<lambda>s. s\<lparr>tasks := rest\<rparr>))
       (if connection s \<noteq> None then ret ()
        else seqp (downcast (get_ptr h)) (bindp (write_target h) (\<lambda>t. case t of
          Inl target \<Rightarrow> send_message (MDisembargo target (ReceiverLoopback eid))
        | Inr redirect \<Rightarrow> err Failed))))"

definition handle_call ::
  "pipelines \<Rightarrow> u32 \<Rightarrow> message_target \<Rightarrow> cap_descriptor list \<Rightarrow> send_results_to \<Rightarrow> unit rpc" where
  "handle_call pl i target ds to =
     bindp (get_message_target pl target) (\<lambda>_.
     if to = ToThirdParty then err Failed
     else bindp (receive_caps ds) (\<lambda>_.
       bindp (gets (\<lambda>s. answers s i)) (\<lambda>found. case found of
         Some a \<Rightarrow> err Failed
       | None \<Rightarrow> modifyp (\<lambda>s. s\<lparr>answers := (answers s)(i \<mapsto> answer_new\<lparr>pipeline := True,
           redirected_results := (to = ToYourself), call_completion := (to = ToCaller)\<rparr>)\<rparr>))))"

definition handle_return :: "rpc_message \<Rightarrow> u32 \<Rightarrow> bool \<Rightarrow> return_body \<Rightarrow> unit rpc" where
  "handle_return msg q no_finish body = bindp (gets questions) (\<lambda>t. case table_index q t of
     Ok (Some qu) \<Rightarrow>
       seqp (set_question q (qu\<lparr>is_awaiting_return := False, skip_finish := skip_finish qu \<or> no_finish\<rparr>))
       (if self_ref qu = None then
          (case body of
             TakeFromOtherQuestion k \<Rightarrow> seqp new_outgoing_message (send_message (MUnimplemented msg))
           | _ \<Rightarrow> on_questions (table_erase q))
        else (case body of
            Results ds \<Rightarrow> bindp (receive_caps ds) (\<lambda>cs. fulfill q (ReplyResults cs))
          | ReturnException e \<Rightarrow> fulfill q (ReplyError (remote_exception_to_error e))
          | TakeFromOtherQuestion k \<Rightarrow> bindp (gets (\<lambda>s. answers s k)) (\<lambda>found. case found of
              Some a \<Rightarrow>
                if redirected_results a then
                  seqp (modifyp (update_answer k (\<lambda>a. a\<lparr>redirected_results := False\<rparr>)))
                    (fulfill q ReplyRedirected)
                else err Failed
            | None \<Rightarrow> err Failed)
          | _ \<Rightarrow> seqp new_outgoing_message (send_message (MUnimplemented msg))))
   | Ok None \<Rightarrow> err Failed
   | _ \<Rightarrow> panic)"

definition handle_message ::
  "pipelines \<Rightarrow> (client_hook \<Rightarrow> client_hook) \<Rightarrow> rpc_message \<Rightarrow> unit rpc" where
  "handle_message pl now msg = (case msg of
     MUnimplemented m' \<Rightarrow> handle_unimplemented m'
   | MAbort e \<Rightarrow> err (remote_exception_to_error e)
   | MBootstrap i \<Rightarrow> handle_bootstrap i
   | MCall i target interface method ds to \<Rightarrow> handle_call pl i target ds to
   | MReturn q no_finish body \<Rightarrow> handle_return msg q no_finish body
   | MFinish i release \<Rightarrow> handle_finish i release
   | MResolve i r \<Rightarrow> handle_resolve pl i r
   | MRelease i n \<Rightarrow> release_export i n
   | MDisembargo target ctx \<Rightarrow> handle_disembargo pl now target ctx
   | MOther \<Rightarrow> seqp new_outgoing_message (send_message (MUnimplemented msg)))"

section \<open>Disconnecting\<close>

definition reject_questions :: "error_kind \<Rightarrow> unit rpc" where
  "reject_questions e = bindp (gets questions) (\<lambda>t.
     foldp (\<lambda>k _. case slots t ! k of
         Some qu \<Rightarrow> if self_ref qu = None then ret () else fulfill (of_nat k) (ReplyError e)
       | None \<Rightarrow> ret ()) [0..<length (slots t)] ())"

text \<open>
  \<open>ConnectionState::disconnect\<close>. The pending import promises are resolved with the error, which
  needs no embargo; the exports and the embargoes are replaced by empty tables.
\<close>

definition disconnect :: "error_kind \<Rightarrow> unit rpc" where
  "disconnect e = bindp (gets connection) (\<lambda>c.
     if c \<noteq> None then ret ()
     else seqp (reject_questions e)
       (seqp (modifyp (\<lambda>s. s\<lparr>
          answers := (\<lambda>i. map_option (\<lambda>a. a\<lparr>pipeline := False\<rparr>) (answers s i)),
          exports := table_new,
          promises := (\<lambda>a. map_option (\<lambda>p. case import_id p of
              Some i \<Rightarrow> (case import_table s i of
                  Some imp \<Rightarrow> if promise_client_to_resolve imp = Some a then p\<lparr>is_resolved := True\<rparr> else p
                | None \<Rightarrow> p)
            | None \<Rightarrow> p) (promises s a)),
          import_table := (\<lambda>i. map_option (\<lambda>imp. imp\<lparr>promise_client_to_resolve := None\<rparr>) (import_table s i)),
          embargoes := table_new\<rparr>))
       (seqp (send_message (MAbort (from_error e)))
         (modifyp (\<lambda>s. s\<lparr>connection := Some e\<rparr>)))))"

text \<open>The message loop: a message that cannot be handled ends the connection.\<close>

definition message_loop_step ::
  "pipelines \<Rightarrow> (client_hook \<Rightarrow> client_hook) \<Rightarrow> rpc_message option \<Rightarrow> unit rpc" where
  "message_loop_step pl now incoming s = (case incoming of
     None \<Rightarrow> disconnect Disconnected s
   | Some msg \<Rightarrow> (case handle_message pl now msg s of
       (Err e, t) \<Rightarrow> disconnect e t
     | r \<Rightarrow> r))"

end
