(* ===== verification/Rpc_Invariant.thy ===== *)
theory Rpc_Invariant
  imports Rpc_Connection
begin

text \<open>
  What every operation of a connection keeps, whatever the peer sends: the tables are well
  formed, every export has a reference, \<open>exports_by_cap\<close> is the index of the canonical exports,
  and every embargo can still be fulfilled. From it follows that the lookups that the code
  takes for granted succeed while the connection lasts. After a disconnect they do not: the
  exports are gone and their index is not.
\<close>

section \<open>The invariant\<close>

definition exports_rel :: "export_entry export_table \<Rightarrow> (hook_ptr \<rightharpoonup> u32) \<Rightarrow> bool" where
  "exports_rel t bc \<longleftrightarrow> table_ok t \<and> (\<forall>i e. table_find i t = Some e \<longrightarrow> refcount e \<noteq> 0) \<and>
     (\<forall>p i. bc p = Some i \<longleftrightarrow>
        (\<exists>e. table_find i t = Some e \<and> canonical e \<and> get_ptr (client_hook e) = p))"

definition exports_inv :: "connection_state \<Rightarrow> bool" where
  "exports_inv s \<longleftrightarrow> table_ok (exports s) \<and> (connection s = None \<longrightarrow> exports_rel (exports s) (exports_by_cap s))"

definition questions_inv :: "connection_state \<Rightarrow> bool" where
  "questions_inv s \<longleftrightarrow> table_ok (questions s)"

definition embargoes_inv :: "connection_state \<Rightarrow> bool" where
  "embargoes_inv s \<longleftrightarrow> table_ok (embargoes s) \<and> (\<forall>i b. table_find i (embargoes s) = Some b \<longrightarrow> b)"

definition conn_ok :: "connection_state \<Rightarrow> bool" where
  "conn_ok s \<longleftrightarrow> exports_inv s \<and> questions_inv s \<and> embargoes_inv s"

lemma table_find_new [simp]: "table_find i table_new = None"
  by (simp add: table_find_def table_new_def)

lemma exports_rel_new: "exports_rel table_new Map.empty"
  by (simp add: exports_rel_def table_ok_new)

lemma conn_ok_new: "conn_ok (connection_new h)"
  by (simp add: conn_ok_def exports_inv_def questions_inv_def embargoes_inv_def connection_new_def
      exports_rel_new table_ok_new)

section \<open>The exports and their index\<close>

lemma exports_relD:
  assumes "exports_rel t bc"
  shows "table_ok t" "table_find i t = Some e \<Longrightarrow> refcount e \<noteq> 0"
    "bc p = Some i \<longleftrightarrow> (\<exists>e. table_find i t = Some e \<and> canonical e \<and> get_ptr (client_hook e) = p)"
  using assms by (auto simp: exports_rel_def)

lemma exports_relI:
  assumes "table_ok t" "\<And>i e. table_find i t = Some e \<Longrightarrow> refcount e \<noteq> 0"
    "\<And>p i. bc p = Some i \<longleftrightarrow> (\<exists>e. table_find i t = Some e \<and> canonical e \<and> get_ptr (client_hook e) = p)"
  shows "exports_rel t bc"
  using assms by (simp add: exports_rel_def)

lemma exports_rel_push:
  assumes rel: "exports_rel t bc" and new: "bc (get_ptr h) = None"
    and e: "refcount e \<noteq> 0" "canonical e" "client_hook e = h"
    and push: "table_push e t = (Ok i, t')"
  shows "exports_rel t' (bc(get_ptr h \<mapsto> i))"
proof -
  note d = exports_relD [OF rel]
  obtain ok: "table_ok t'" and fresh: "table_find i t = None"
    and find: "\<And>j. table_find j t' = (if j = i then Some e else table_find j t)"
    by (rule ids.pushE [OF push d(1)], rule that)
  show ?thesis
  proof (rule exports_relI [OF ok])
    fix j e' assume "table_find j t' = Some e'"
    then show "refcount e' \<noteq> 0" using find [of j] d(2) [of j e'] e(1) by (auto split: if_splits)
  next
    fix p j
    show "(bc(get_ptr h \<mapsto> i)) p = Some j \<longleftrightarrow>
        (\<exists>e. table_find j t' = Some e \<and> canonical e \<and> get_ptr (client_hook e) = p)"
    proof (cases "j = i")
      case True
      have "bc p \<noteq> Some i" using d(3) [of p i] fresh by simp
      then show ?thesis using True find [of i] e(2,3) by (auto simp: fun_upd_def)
    next
      case False
      then show ?thesis using find [of j] d(3) [of p j] new by (auto simp: fun_upd_def)
    qed
  qed
qed

lemma exports_rel_set:
  assumes rel: "exports_rel t bc" and e: "table_find i t = Some e"
    and e': "refcount e' \<noteq> 0" "canonical e' = canonical e" "client_hook e' = client_hook e"
  shows "exports_rel (table_set i e' t) bc"
proof -
  note d = exports_relD [OF rel]
  have live: "table_find i t \<noteq> None" using e by simp
  note find = ids.look_put [OF d(1) live]
  show ?thesis
  proof (rule exports_relI [OF ids.inv_put [OF d(1) live]])
    fix j f assume "table_find j (table_set i e' t) = Some f"
    then show "refcount f \<noteq> 0" using find [of j e'] d(2) [of j f] e'(1) by (auto split: if_splits)
  next
    fix p j
    show "bc p = Some j \<longleftrightarrow>
        (\<exists>e. table_find j (table_set i e' t) = Some e \<and> canonical e \<and> get_ptr (client_hook e) = p)"
      using find [of j e'] d(3) [of p j] e e'(2,3) by auto
  qed
qed

lemma exports_rel_erase:
  assumes rel: "exports_rel t bc" and e: "table_find i t = Some e"
  obtains t' where "table_erase i (table_set i e\<^sub>0 t) = (Ok (), t')"
    "exports_rel t' (if canonical e then bc(get_ptr (client_hook e) := None) else bc)"
    "\<And>j. table_find j t' = (if j = i then None else table_find j t)"
proof -
  note d = exports_relD [OF rel]
  have live: "table_find i t \<noteq> None" using e by simp
  note put = ids.look_put [OF d(1) live]
  have live': "table_find i (table_set i e\<^sub>0 t) \<noteq> None" using put [of i e\<^sub>0] by simp
  obtain t' where t': "table_erase i (table_set i e\<^sub>0 t) = (Ok (), t')" and ok: "table_ok t'"
    and find': "\<And>j. table_find j t' = (if j = i then None else table_find j (table_set i e\<^sub>0 t))"
    by (rule ids.eraseE [OF ids.inv_put [OF d(1) live] live'], rule that)
  have find: "table_find j t' = (if j = i then None else table_find j t)" for j
    using find' [of j] put [of j e\<^sub>0] by simp
  let ?p = "get_ptr (client_hook e)"
  have "exports_rel t' (if canonical e then bc(?p := None) else bc)"
  proof (rule exports_relI [OF ok])
    fix j f assume "table_find j t' = Some f"
    then show "refcount f \<noteq> 0" using find [of j] d(2) [of j f] by (auto split: if_splits)
  next
    fix p j
    have idx: "bc p = Some i \<longleftrightarrow> canonical e \<and> p = ?p" using d(3) [of p i] e by auto
    show "(if canonical e then bc(?p := None) else bc) p = Some j \<longleftrightarrow>
        (\<exists>e. table_find j t' = Some e \<and> canonical e \<and> get_ptr (client_hook e) = p)"
    proof (cases "j = i")
      case True
      then show ?thesis using find [of i] idx by auto
    next
      case False
      then show ?thesis using find [of j] d(3) [of p j] idx by auto
    qed
  qed
  then show ?thesis using that t' find by blast
qed

text \<open>The export of a promise that has resolved, before the peer is told.\<close>

lemma exports_rel_resolved:
  assumes rel: "exports_rel t bc" and e: "table_find i t = Some e"
    and bc': "bc' = (if canonical e then bc(get_ptr (client_hook e) := None) else bc)"
  shows "exports_rel (table_set i (e\<lparr>client_hook := h, canonical := False\<rparr>) t) bc'"
    and "bc' (get_ptr h) = None \<or> bc' (get_ptr h) = Some i \<Longrightarrow>
      exports_rel (table_set i (e\<lparr>client_hook := h, canonical := True\<rparr>) t) (bc'(get_ptr h \<mapsto> i))"
proof -
  note d = exports_relD [OF rel]
  have live: "table_find i t \<noteq> None" using e by simp
  note find = ids.look_put [OF d(1) live]
  have idx: "bc' p = Some j \<longleftrightarrow> j \<noteq> i \<and> (\<exists>e. table_find j t = Some e \<and> canonical e \<and> get_ptr (client_hook e) = p)"
    for p j
  proof -
    have i: "bc p = Some i \<longleftrightarrow> canonical e \<and> get_ptr (client_hook e) = p"
      using d(3) [of p i] e by simp
    show ?thesis
    proof (cases "j = i")
      case True
      then show ?thesis using i by (auto simp: bc')
    next
      case False
      then show ?thesis using i d(3) [of p j] by (auto simp: bc')
    qed
  qed
  have r: "refcount e \<noteq> 0" by (rule d(2) [OF e])
  show "exports_rel (table_set i (e\<lparr>client_hook := h, canonical := False\<rparr>) t) bc'"
  proof (rule exports_relI [OF ids.inv_put [OF d(1) live]])
    fix j f assume "table_find j (table_set i (e\<lparr>client_hook := h, canonical := False\<rparr>) t) = Some f"
    then show "refcount f \<noteq> 0" using find [of j] d(2) [of j f] r by (auto split: if_splits)
  next
    fix p j
    show "bc' p = Some j \<longleftrightarrow> (\<exists>f. table_find j (table_set i (e\<lparr>client_hook := h, canonical := False\<rparr>) t) = Some f \<and>
        canonical f \<and> get_ptr (client_hook f) = p)"
      using find [of j] idx [of p j] by auto
  qed
  assume new: "bc' (get_ptr h) = None \<or> bc' (get_ptr h) = Some i"
  show "exports_rel (table_set i (e\<lparr>client_hook := h, canonical := True\<rparr>) t) (bc'(get_ptr h \<mapsto> i))"
  proof (rule exports_relI [OF ids.inv_put [OF d(1) live]])
    fix j f assume "table_find j (table_set i (e\<lparr>client_hook := h, canonical := True\<rparr>) t) = Some f"
    then show "refcount f \<noteq> 0" using find [of j] d(2) [of j f] r by (auto split: if_splits)
  next
    fix p j
    show "(bc'(get_ptr h \<mapsto> i)) p = Some j \<longleftrightarrow>
        (\<exists>f. table_find j (table_set i (e\<lparr>client_hook := h, canonical := True\<rparr>) t) = Some f \<and>
        canonical f \<and> get_ptr (client_hook f) = p)"
      using find [of j] idx [of p j] new by (auto simp: fun_upd_def)
  qed
qed

section \<open>What the operations keep\<close>

named_theorems keep_rules \<open>one rule per program construct or operation of a connection\<close>

text \<open>A program maintains a property unless it panics, which ends the process.\<close>

definition maintains :: "('s \<Rightarrow> bool) \<Rightarrow> ('s, 'a) prog \<Rightarrow> bool" where
  "maintains P m \<longleftrightarrow> (\<forall>s. P s \<longrightarrow> fst (m s) = Panic \<or> P (snd (m s)))"

lemma maintains_bindp [keep_rules]:
  "maintains P m \<Longrightarrow> (\<And>x. maintains P (f x)) \<Longrightarrow> maintains P (bindp m f)"
  by (fastforce simp: maintains_def bindp_def split: prod.splits outcome.splits)

lemma maintains_seqp [keep_rules]: "maintains P m \<Longrightarrow> maintains P n \<Longrightarrow> maintains P (seqp m n)"
  unfolding seqp_def by (rule maintains_bindp)

lemma maintains_foldp [keep_rules]: "(\<And>x a. maintains P (f x a)) \<Longrightarrow> maintains P (foldp f xs acc)"
proof (induction xs arbitrary: acc)
  case Nil
  then show ?case by (simp add: maintains_def ret_def)
next
  case (Cons x xs)
  then show ?case by (simp add: maintains_bindp)
qed

lemma maintainsD: "maintains P m \<Longrightarrow> P s \<Longrightarrow> m s = (r, t) \<Longrightarrow> r \<noteq> Panic \<Longrightarrow> P t"
  unfolding maintains_def by (metis fst_conv snd_conv)

lemma maintainsI: "(\<And>s r t. P s \<Longrightarrow> m s = (r, t) \<Longrightarrow> r \<noteq> Panic \<Longrightarrow> P t) \<Longrightarrow> maintains P m"
  unfolding maintains_def by (metis prod.collapse)

text \<open>The fields that the invariant does not look at.\<close>

lemma conn_ok_frame [simp]:
  "conn_ok (s\<lparr>answers := a\<rparr>) = conn_ok s" "conn_ok (s\<lparr>import_table := b\<rparr>) = conn_ok s"
  "conn_ok (s\<lparr>client_downcast_map := c\<rparr>) = conn_ok s" "conn_ok (s\<lparr>flows := d\<rparr>) = conn_ok s"
  "conn_ok (s\<lparr>next_object := e\<rparr>) = conn_ok s" "conn_ok (s\<lparr>promises := f\<rparr>) = conn_ok s"
  "conn_ok (s\<lparr>tasks := g\<rparr>) = conn_ok s" "conn_ok (s\<lparr>outbox := h\<rparr>) = conn_ok s"
  "conn_ok (s\<lparr>replies := i\<rparr>) = conn_ok s"
  "conn_ok (update_answer k fa s) = conn_ok s" "conn_ok (update_import k fi s) = conn_ok s"
  "conn_ok (update_promise n fp s) = conn_ok s"
  by (simp_all add: conn_ok_def exports_inv_def questions_inv_def embargoes_inv_def
      update_answer_def update_import_def update_promise_def)

lemma maintains_modifyp [keep_rules]: "(\<And>s. P s \<Longrightarrow> P (f s)) \<Longrightarrow> maintains P (modifyp f)"
  by (simp add: maintains_def modifyp_def)

lemma maintains_simples [keep_rules]:
  "maintains P (ret x)" "maintains P (err e)" "maintains P panic" "maintains P (gets f)" "maintains P (assertp b)"
  by (simp_all add: maintains_def ret_def err_def panic_def gets_def assertp_def)

lemma maintains_split [keep_rules]:
  "(\<And>x. maintains P (f x)) \<Longrightarrow> maintains P n \<Longrightarrow> maintains P (case r of Some x \<Rightarrow> f x | None \<Rightarrow> n)"
  "maintains P m \<Longrightarrow> maintains P n \<Longrightarrow> maintains P (if b then m else n)"
  "(\<And>x y. maintains P (g x y)) \<Longrightarrow> maintains P (case p of (x, y) \<Rightarrow> g x y)"
  "(\<And>x. maintains P (h x)) \<Longrightarrow> (\<And>y. maintains P (k y)) \<Longrightarrow> maintains P (case u of Inl x \<Rightarrow> h x | Inr y \<Rightarrow> k y)"
  "maintains P n \<Longrightarrow> (\<And>x xs. maintains P (c x xs)) \<Longrightarrow> maintains P (case l of [] \<Rightarrow> n | x # xs \<Rightarrow> c x xs)"
  by (auto split: option.splits prod.splits sum.splits list.splits)

text \<open>A program that depends on what it reads from the state.\<close>

lemma maintains_reading:
  "(\<And>s r t. P s \<Longrightarrow> f (g s) s = (r, t) \<Longrightarrow> r \<noteq> Panic \<Longrightarrow> P t) \<Longrightarrow> maintains P (bindp (gets g) f)"
  by (intro maintainsI) (simp add: bindp_def gets_def)

lemma send_message_keeps [keep_rules]: "maintains conn_ok (send_message msg)"
  unfolding send_message_def by (rule maintains_modifyp) simp

lemma new_outgoing_message_keeps [keep_rules]: "maintains conn_ok new_outgoing_message"
  unfolding new_outgoing_message_def by (intro keep_rules)

lemma client_keeps [keep_rules]:
  "maintains conn_ok (client_new p)" "maintains conn_ok (downcast p)" "maintains conn_ok (drop_client f)"
  "maintains conn_ok (forget_ptr p)" "maintains conn_ok (promise_client_new c i)"
  unfolding client_new_def downcast_def drop_client_def forget_ptr_def promise_client_new_def
  by (intro keep_rules; simp)+

lemma drop_object_keeps [keep_rules]:
  "maintains conn_ok (drop_import i)" "maintains conn_ok (drop_pipeline_client a)"
  "maintains conn_ok (drop_promise_client a)" "maintains conn_ok (pipelined_cap q ops b)"
  unfolding drop_import_def drop_pipeline_client_def drop_promise_client_def pipelined_cap_def
  by (intro keep_rules; simp)+

lemma conn_ok_exports:
  "conn_ok s \<Longrightarrow> exports_rel t bc \<Longrightarrow> conn_ok (s\<lparr>exports := t, exports_by_cap := bc\<rparr>)"
  "conn_ok s \<Longrightarrow> exports_rel t (exports_by_cap s) \<Longrightarrow> conn_ok (s\<lparr>exports := t\<rparr>)"
  "conn_ok s \<Longrightarrow> exports_rel t bc \<Longrightarrow> conn_ok (s\<lparr>exports_by_cap := bc, exports := t\<rparr>)"
  unfolding conn_ok_def exports_inv_def questions_inv_def embargoes_inv_def
  by (auto simp: exports_relD(1))

text \<open>After a disconnect the index may be stale, and only the table itself matters.\<close>

lemma conn_ok_exports_closed:
  "conn_ok s \<Longrightarrow> connection s \<noteq> None \<Longrightarrow> table_ok t \<Longrightarrow> conn_ok (s\<lparr>exports := t, exports_by_cap := bc\<rparr>)"
  unfolding conn_ok_def exports_inv_def questions_inv_def embargoes_inv_def by auto

lemma conn_ok_rel: "conn_ok s \<Longrightarrow> connection s = None \<Longrightarrow> exports_rel (exports s) (exports_by_cap s)"
  by (simp add: conn_ok_def exports_inv_def)

lemma conn_ok_exports_table: "conn_ok s \<Longrightarrow> table_ok (exports s)"
  by (simp add: conn_ok_def exports_inv_def)

text \<open>\<open>release_export\<close> on every branch.\<close>

lemma release_export_run:
  assumes "exports_rel (exports s) (exports_by_cap s)"
  obtains (absent) "release_export i n s = (Err Failed, s)" "table_find i (exports s) = None"
  | (below) e where "release_export i n s = (Err Failed, s)" "table_find i (exports s) = Some e"
      "refcount e < n"
  | (freed) e t where "release_export i n s = (Ok (), s\<lparr>exports := t, exports_by_cap :=
        (if canonical e then (exports_by_cap s)(get_ptr (client_hook e) := None) else exports_by_cap s)\<rparr>)"
      "table_find i (exports s) = Some e" "refcount e = n"
      "exports_rel t (if canonical e then (exports_by_cap s)(get_ptr (client_hook e) := None) else exports_by_cap s)"
      "\<And>j. table_find j t = (if j = i then None else table_find j (exports s))"
  | (kept) e where "release_export i n s = (Ok (), s\<lparr>exports := table_set i (e\<lparr>refcount := refcount e - n\<rparr>) (exports s)\<rparr>)"
      "table_find i (exports s) = Some e" "n < refcount e" "refcount e - n \<noteq> 0"
      "exports_rel (table_set i (e\<lparr>refcount := refcount e - n\<rparr>) (exports s)) (exports_by_cap s)"
proof (cases "table_find i (exports s)")
  case None
  then show ?thesis by (intro absent) (simp_all add: release_export_def run_simps)
next
  case (Some e)
  show ?thesis
  proof (cases "n > refcount e")
    case True
    with Some show ?thesis by (intro below [of e]) (simp_all add: release_export_def run_simps)
  next
    case le: False
    show ?thesis
    proof (cases "refcount e - n = 0")
      case True
      obtain t where t: "table_erase i (table_set i (e\<lparr>refcount := 0\<rparr>) (exports s)) = (Ok (), t)"
        "exports_rel t (if canonical e then (exports_by_cap s)(get_ptr (client_hook e) := None) else exports_by_cap s)"
        "\<And>j. table_find j t = (if j = i then None else table_find j (exports s))"
        using exports_rel_erase [OF assms Some, of "e\<lparr>refcount := 0\<rparr>"] by blast
      show ?thesis
        by (rule freed [of e t]) (use Some le True t in \<open>simp_all add: release_export_def run_simps on_exports_def\<close>)
    next
      case False
      have "exports_rel (table_set i (e\<lparr>refcount := refcount e - n\<rparr>) (exports s)) (exports_by_cap s)"
        by (rule exports_rel_set [OF assms Some]) (use False in simp_all)
      moreover have "n < refcount e" using le False by (auto simp: not_less)
      ultimately show ?thesis
        by (intro kept [of e]) (use Some le False in \<open>simp_all add: release_export_def run_simps\<close>)
    qed
  qed
qed

text \<open>An operation changes the exports and their index to values that suit the state of the connection.\<close>

definition updates_exports :: "'a rpc \<Rightarrow> bool" where
  "updates_exports m \<longleftrightarrow> (\<forall>s r t. table_ok (exports s) \<longrightarrow> m s = (r, t) \<longrightarrow> r \<noteq> Panic \<longrightarrow>
     (\<exists>x bc. t = s\<lparr>exports := x, exports_by_cap := bc\<rparr> \<and> table_ok x))"

lemma updates_exportsI:
  assumes "\<And>s r t. table_ok (exports s) \<Longrightarrow> m s = (r, t) \<Longrightarrow> r \<noteq> Panic \<Longrightarrow>
    \<exists>x bc. t = s\<lparr>exports := x, exports_by_cap := bc\<rparr> \<and> table_ok x"
  shows "updates_exports m"
  using assms by (simp add: updates_exports_def)

lemma maintains_cases:
  assumes m: "updates_exports m"
    and live: "\<And>s r t. conn_ok s \<Longrightarrow> connection s = None \<Longrightarrow> m s = (r, t) \<Longrightarrow> r \<noteq> Panic \<Longrightarrow> conn_ok t"
  shows "maintains conn_ok m"
proof (rule maintainsI)
  fix s r t assume s: "conn_ok s" and run: "m s = (r, t)" "r \<noteq> Panic"
  show "conn_ok t"
  proof (cases "connection s = None")
    case True
    with s run live show ?thesis by blast
  next
    case False
    obtain x bc where "t = s\<lparr>exports := x, exports_by_cap := bc\<rparr>" "table_ok x"
      using m conn_ok_exports_table [OF s] run unfolding updates_exports_def by blast
    with s False show ?thesis by (simp add: conn_ok_exports_closed)
  qed
qed

lemma exports_update_swap:
  "s\<lparr>exports_by_cap := bc, exports := x\<rparr> = s\<lparr>exports := x, exports_by_cap := bc\<rparr>" for s :: connection_state
  by (cases s) simp

lemma same_index: "table_ok v \<Longrightarrow> \<exists>x bc. s\<lparr>exports := v\<rparr> = s\<lparr>exports := x, exports_by_cap := bc\<rparr> \<and> table_ok x"
  for s :: connection_state
  by (rule exI [of _ v], rule exI [of _ "exports_by_cap s"]) simp

lemma unchanged_exports: "table_ok (exports s) \<Longrightarrow> \<exists>x bc. s = s\<lparr>exports := x, exports_by_cap := bc\<rparr> \<and> table_ok x"
  for s :: connection_state
  using same_index [of "exports s" s] by simp

lemma release_export_updates: "updates_exports (release_export i n)"
proof (rule updates_exportsI)
  fix s r t assume ok: "table_ok (exports s)" and run: "release_export i n s = (r, t)"
  show "\<exists>x bc. t = s\<lparr>exports := x, exports_by_cap := bc\<rparr> \<and> table_ok x"
  proof (cases "table_find i (exports s)")
    case None
    then show ?thesis using run unchanged_exports [OF ok] by (simp add: release_export_def run_simps)
  next
    case (Some e)
    then have live: "table_find i (exports s) \<noteq> None" by simp
    note put = ids.inv_put [OF ok live] ids.look_put [OF ok live]
    obtain x where x: "table_erase i (table_set i (e\<lparr>refcount := 0\<rparr>) (exports s)) = (Ok (), x)" "table_ok x"
      by (rule ids.eraseE [OF put(1) [of "e\<lparr>refcount := 0\<rparr>"], of i]) (simp_all add: put(2))
    consider "n > refcount e" | "\<not> n > refcount e" "refcount e - n = 0" | "\<not> n > refcount e" "refcount e - n \<noteq> 0" by blast
    then show ?thesis
    proof cases
      case 1
      then show ?thesis using run Some unchanged_exports [OF ok] by (simp add: release_export_def run_simps)
    next
      case 2
      then have "t = s\<lparr>exports := x, exports_by_cap := (if canonical e
          then (exports_by_cap s)(get_ptr (client_hook e) := None) else exports_by_cap s)\<rparr>"
        using run Some x(1) by (auto simp: release_export_def run_simps on_exports_def exports_update_swap split: if_splits)
      with x(2) show ?thesis by blast
    next
      case 3
      then have "t = s\<lparr>exports := table_set i (e\<lparr>refcount := refcount e - n\<rparr>) (exports s)\<rparr>"
        using run Some by (simp add: release_export_def run_simps)
      with same_index [OF put(1)] show ?thesis by simp
    qed
  qed
qed

lemma release_export_keeps [keep_rules]: "maintains conn_ok (release_export i n)"
proof (rule maintains_cases [OF release_export_updates])
  fix s r t assume s: "conn_ok s" "connection s = None" and run: "release_export i n s = (r, t)"
  show "conn_ok t"
    by (rule release_export_run [OF conn_ok_rel [OF s], of i n])
      (use s run in \<open>auto simp: conn_ok_exports\<close>)
qed

lemma release_exports_keeps [keep_rules]: "maintains conn_ok (release_exports is)"
  unfolding release_exports_def by (intro keep_rules)

text \<open>\<open>export_cap\<close> on every branch: the lookup in the table cannot fail.\<close>

lemma export_cap_run:
  assumes "exports_rel (exports s) (exports_by_cap s)"
  obtains (shared) i e where "export_cap h s = (Ok (SenderHosted i, Some i),
        s\<lparr>exports := table_set i (e\<lparr>refcount := refcount e + 1\<rparr>) (exports s)\<rparr>)"
      "exports_by_cap s (get_ptr h) = Some i" "table_find i (exports s) = Some e"
      "refcount e \<noteq> - 1"
      "exports_rel (table_set i (e\<lparr>refcount := refcount e + 1\<rparr>) (exports s)) (exports_by_cap s)"
  | (overflow) i e where "export_cap h s = (Panic, s)" "table_find i (exports s) = Some e" "refcount e = - 1"
  | (fresh) i t d where "export_cap h s = (Ok (d, Some i),
        s\<lparr>exports := t, exports_by_cap := (exports_by_cap s)(get_ptr h \<mapsto> i)\<rparr>)"
      "d = (if when_more_resolved h then SenderPromise i else SenderHosted i)"
      "table_find i (exports s) = None"
      "\<And>j. table_find j t = (if j = i then Some ((export_entry_new h)\<lparr>canonical := True,
          resolving := when_more_resolved h\<rparr>) else table_find j (exports s))"
      "exports_rel t ((exports_by_cap s)(get_ptr h \<mapsto> i))"
  | (full) s' where "export_cap h s = (Panic, s')" "free_ids (exports s) = []"
      "Suc (length (slots (exports s))) = 2 ^ 32"
proof (cases "exports_by_cap s (get_ptr h)")
  case (Some i)
  then obtain e where e: "table_find i (exports s) = Some e"
    using exports_relD(3) [OF assms, of "get_ptr h" i] by blast
  show ?thesis
  proof (cases "refcount e = - 1")
    case True
    with Some e show ?thesis by (intro overflow [of i e]) (simp_all add: export_cap_def run_simps)
  next
    case False
    then have "refcount e + 1 \<noteq> 0" using eq_neg_iff_add_eq_0 [of "refcount e" 1] by blast
    then have "exports_rel (table_set i (e\<lparr>refcount := refcount e + 1\<rparr>) (exports s)) (exports_by_cap s)"
      by (intro exports_rel_set [OF assms e]) simp_all
    with Some e False show ?thesis
      by (intro shared [of i e]) (simp_all add: export_cap_def run_simps)
  qed
next
  case None
  let ?e = "(export_entry_new h)\<lparr>canonical := True\<rparr>"
  have ok: "table_ok (exports s)" by (rule exports_relD [OF assms])
  show ?thesis
    using ok
  proof (cases rule: table_push_outcome [where v = ?e])
    case (full t')
    then show ?thesis
      by (intro that(4) [of "s\<lparr>exports := t'\<rparr>"])
        (use None full in \<open>simp_all add: export_cap_def run_simps on_exports_def\<close>)
  next
    case (pushed i t')
    let ?bc = "(exports_by_cap s)(get_ptr h \<mapsto> i)"
    have rel: "exports_rel t' ?bc"
      by (rule exports_rel_push [OF assms None _ _ _ pushed]) (simp_all add: export_entry_new_def)
    note law = table_push_law [OF ok pushed]
    then have find: "table_find i t' = Some ?e" by simp
    show ?thesis
    proof (cases "when_more_resolved h")
      case True
      let ?t = "table_set i (?e\<lparr>resolving := True\<rparr>) t'"
      have "exports_rel ?t ?bc"
        by (rule exports_rel_set [OF rel find]) (simp_all add: export_entry_new_def)
      moreover have "table_find j ?t = (if j = i then Some (?e\<lparr>resolving := True\<rparr>) else table_find j (exports s))" for j
        using ids.look_put [OF exports_relD(1) [OF rel], of i j] law by simp
      ultimately show ?thesis
        by (intro fresh [of "SenderPromise i" i ?t])
          (use True None pushed find law in \<open>simp_all add: export_cap_def run_simps on_exports_def export_entry_new_def\<close>)
    next
      case False
      show ?thesis
        by (intro fresh [of "SenderHosted i" i t'])
          (use False None pushed rel law in \<open>simp_all add: export_cap_def run_simps on_exports_def export_entry_new_def\<close>)
    qed
  qed
qed

lemma export_cap_updates: "updates_exports (export_cap h)"
proof (rule updates_exportsI)
  fix s r t assume ok: "table_ok (exports s)" and run: "export_cap h s = (r, t)" "r \<noteq> Panic"
  show "\<exists>x bc. t = s\<lparr>exports := x, exports_by_cap := bc\<rparr> \<and> table_ok x"
  proof (cases "exports_by_cap s (get_ptr h)")
    case known: (Some i)
    obtain e where e: "table_find i (exports s) = Some e" "refcount e \<noteq> - 1"
      using run known by (cases "table_find i (exports s)") (auto simp: export_cap_def run_simps split: if_splits)
    then have "t = s\<lparr>exports := table_set i (e\<lparr>refcount := refcount e + 1\<rparr>) (exports s)\<rparr>"
      using run known by (simp add: export_cap_def run_simps)
    moreover have "table_ok (table_set i v (exports s))" for v using ids.inv_put [OF ok] e(1) by simp
    ultimately show ?thesis using same_index by simp
  next
    case None
    let ?e = "(export_entry_new h)\<lparr>canonical := True\<rparr>"
    show ?thesis
      using ok
    proof (cases rule: table_push_outcome [where v = ?e])
      case (full t')
      then show ?thesis using run None by (simp add: export_cap_def run_simps on_exports_def)
    next
      case (pushed i t')
      let ?x = "if when_more_resolved h then table_set i (?e\<lparr>resolving := True\<rparr>) t' else t'"
      note law = table_push_law [OF ok pushed]
      then have x: "table_ok t'" "table_find i t' = Some ?e" by simp_all
      have "t = s\<lparr>exports := ?x, exports_by_cap := (exports_by_cap s)(get_ptr h \<mapsto> i)\<rparr>"
        using run None pushed x(2) by (auto simp: export_cap_def run_simps on_exports_def)
      moreover have "table_ok ?x" using x ids.inv_put [OF x(1), of i] by simp
      ultimately show ?thesis by blast
    qed
  qed
qed

lemma export_cap_maintains [keep_rules]: "maintains conn_ok (export_cap h)"
proof (rule maintains_cases [OF export_cap_updates])
  fix s r t assume s: "conn_ok s" "connection s = None" and run: "export_cap h s = (r, t)" "r \<noteq> Panic"
  show "conn_ok t"
    by (rule export_cap_run [OF conn_ok_rel [OF s], of h])
      (use s run in \<open>auto simp: conn_ok_exports\<close>)
qed

lemma write_descriptor_maintains [keep_rules]: "maintains conn_ok (write_descriptor h)"
  by (induction h rule: write_descriptor.induct) (auto intro!: keep_rules)

lemma write_descriptors_maintains [keep_rules]: "maintains conn_ok (write_descriptors caps)"
  unfolding write_descriptors_def by (intro keep_rules)

lemma write_target_maintains [keep_rules]: "maintains conn_ok (write_target h)"
  by (induction h) (auto intro!: keep_rules)

lemma receive_caps_maintains [keep_rules]:
  "maintains conn_ok (import_cap i b)" "maintains conn_ok (receive_cap d)" "maintains conn_ok (receive_caps ds)"
proof -
  show i: "maintains conn_ok (import_cap i b)" for i b
    unfolding import_cap_def by (intro keep_rules; simp)
  show r: "maintains conn_ok (receive_cap d)" for d
    unfolding receive_cap_def by (cases d) (auto intro!: keep_rules i)
  show "maintains conn_ok (receive_caps ds)"
    unfolding receive_caps_def by (intro keep_rules r)
qed

section \<open>Questions and embargoes\<close>

lemma conn_ok_questions: "conn_ok s \<Longrightarrow> questions_inv (s\<lparr>questions := t\<rparr>) \<Longrightarrow> conn_ok (s\<lparr>questions := t\<rparr>)"
  unfolding conn_ok_def exports_inv_def questions_inv_def embargoes_inv_def by auto

lemma conn_ok_embargoes: "conn_ok s \<Longrightarrow> embargoes_inv (s\<lparr>embargoes := t\<rparr>) \<Longrightarrow> conn_ok (s\<lparr>embargoes := t\<rparr>)"
  unfolding conn_ok_def exports_inv_def questions_inv_def embargoes_inv_def by auto

lemma push_question_maintains [keep_rules]:
  "maintains conn_ok (on_questions (table_push qu))"
proof (rule maintainsI)
  fix s r t assume s: "conn_ok s" and run: "on_questions (table_push qu) s = (r, t)" "r \<noteq> Panic"
  have inv: "questions_inv s" using s by (simp add: conn_ok_def)
  then have ok: "table_ok (questions s)" by (simp add: questions_inv_def)
  show "conn_ok t"
    using ok
  proof (cases rule: table_push_outcome [where v = qu])
    case (pushed i t')
    have "questions_inv (s\<lparr>questions := t'\<rparr>)"
      using table_push_law [OF ok pushed] by (simp add: questions_inv_def)
    then show ?thesis
      using pushed run conn_ok_questions [OF s] by (auto simp: on_questions_def)
  next
    case full
    then show ?thesis using run by (simp add: on_questions_def)
  qed
qed

lemma conn_ok_tables: "conn_ok s \<Longrightarrow> table_ok (questions s)" "conn_ok s \<Longrightarrow> table_ok (embargoes s)"
  by (simp_all add: conn_ok_def questions_inv_def embargoes_inv_def)

lemma erase_question_run:
  assumes s: "conn_ok s" and live: "table_find q (questions s) \<noteq> None"
  obtains t where "on_questions (table_erase q) s = (Ok (), s\<lparr>questions := t\<rparr>)"
    "conn_ok (s\<lparr>questions := t\<rparr>)" "\<And>j. table_find j t = (if j = q then None else table_find j (questions s))"
proof -
  obtain t where t: "table_erase q (questions s) = (Ok (), t)" "table_ok t"
    "\<And>j. table_find j t = (if j = q then None else table_find j (questions s))"
    using table_erase_law [OF conn_ok_tables(1) [OF s] live] by blast
  have "questions_inv (s\<lparr>questions := t\<rparr>)"
    using s t(2,3) by (simp add: conn_ok_def questions_inv_def)
  then show ?thesis using that [of t] t conn_ok_questions [OF s] by (simp add: on_questions_def)
qed

lemma set_question_ok:
  assumes s: "conn_ok s" and live: "table_find q (questions s) \<noteq> None"
  shows "conn_ok (s\<lparr>questions := table_set q qu (questions s)\<rparr>)"
proof (rule conn_ok_questions [OF s])
  show "questions_inv (s\<lparr>questions := table_set q qu (questions s)\<rparr>)"
    using table_set_law [OF conn_ok_tables(1) [OF s] live, of qu] by (simp add: questions_inv_def)
qed

lemma find_set_question:
  assumes "conn_ok s" "table_find q (questions s) \<noteq> None"
  shows "table_find j (table_set q qu (questions s)) = (if j = q then Some qu else table_find j (questions s))"
  by (rule ids.look_put [OF conn_ok_tables(1) [OF assms(1)] assms(2)])

lemma the_question_run:
  "the_question q s = (case table_find q (questions s) of Some qu \<Rightarrow> (Ok qu, s) | None \<Rightarrow> (Panic, s))"
  by (simp add: the_question_def run_simps table_index_def table_find_def split: option.splits)

lemma set_question_run: "set_question q qu s = (Ok (), s\<lparr>questions := table_set q qu (questions s)\<rparr>)"
  by (simp add: set_question_def modifyp_def)

text \<open>Updating a question that was looked up.\<close>

lemma on_question_maintains:
  assumes "\<And>qu s r t. conn_ok s \<Longrightarrow> table_find q (questions s) = Some qu \<Longrightarrow> f qu s = (r, t) \<Longrightarrow>
    r \<noteq> Panic \<Longrightarrow> conn_ok t"
  shows "maintains conn_ok (bindp (the_question q) f)"
  by (rule maintainsI) (auto simp: bindp_def the_question_run intro: assms split: option.splits)

lemma register_ref_maintains [keep_rules]: "maintains conn_ok (register_ref q)"
  unfolding register_ref_def
  by (rule on_question_maintains) (auto simp: set_question_run intro!: set_question_ok)

lemma fulfill_maintains [keep_rules]: "maintains conn_ok (fulfill q r)"
  unfolding fulfill_def
  by (rule on_question_maintains)
    (auto simp: set_question_run run_simps intro!: set_question_ok split: if_splits)

lemma send_message_run:
  "send_message msg s = (Ok (), if connection s = None then s\<lparr>outbox := outbox s @ [msg]\<rparr> else s)"
  by (simp add: send_message_def modifyp_def)

lemma drop_question_ref_maintains [keep_rules]: "maintains conn_ok (drop_question_ref q)"
  unfolding drop_question_ref_def
proof (rule on_question_maintains)
  fix qu s r t
  assume s: "conn_ok s" and qu: "table_find q (questions s) = Some qu"
    and run: "seqp (if skip_finish qu then ret () else send_message (MFinish q (is_awaiting_return qu)))
       (if is_awaiting_return qu then set_question q (qu\<lparr>self_ref := None\<rparr>)
        else on_questions (table_erase q)) s = (r, t)"
  define u where "u = (if skip_finish qu \<or> connection s \<noteq> None then s
    else s\<lparr>outbox := outbox s @ [MFinish q (is_awaiting_return qu)]\<rparr>)"
  have u: "conn_ok u" "table_find q (questions u) = Some qu"
    using s qu by (simp_all add: u_def)
  have "(if skip_finish qu then ret () else send_message (MFinish q (is_awaiting_return qu))) s = (Ok (), u)"
    by (simp add: u_def send_message_run ret_def)
  with run have run': "(if is_awaiting_return qu then set_question q (qu\<lparr>self_ref := None\<rparr>)
        else on_questions (table_erase q)) u = (r, t)"
    by (simp add: seqp_Ok)
  show "conn_ok t"
  proof (cases "is_awaiting_return qu")
    case True
    with run' u show ?thesis
      by (auto simp: set_question_run intro!: set_question_ok)
  next
    case False
    obtain w where "on_questions (table_erase q) u = (Ok (), u\<lparr>questions := w\<rparr>)" "conn_ok (u\<lparr>questions := w\<rparr>)"
      using erase_question_run [OF u(1), of q] u(2) by auto
    with False run' show ?thesis by simp
  qed
qed

lemma send_call_maintains [keep_rules]:
  "maintains conn_ok (send_call target ifc meth caps b)"
  "maintains conn_ok (send_streaming target ifc meth caps b)"
  "maintains conn_ok bootstrap"
  unfolding send_call_def send_streaming_def bootstrap_def
  by (intro keep_rules)+

lemma request_maintains [keep_rules]:
  "maintains conn_ok (request_send h ifc meth caps)" "maintains conn_ok (tail_send h ifc meth caps)"
  unfolding request_send_def tail_send_def by (intro keep_rules)+

lemma answer_has_sent_return_maintains [keep_rules]: "maintains conn_ok (answer_has_sent_return i es)"
  unfolding answer_has_sent_return_def by (intro keep_rules; simp)

lemma results_done_maintains [keep_rules]: "maintains conn_ok (results_done i status caps)"
  unfolding results_done_def by (intro keep_rules; simp)

lemma push_embargo_maintains [keep_rules]: "maintains conn_ok (on_embargoes (table_push True))"
proof (rule maintainsI)
  fix s r t assume s: "conn_ok s" and run: "on_embargoes (table_push True) s = (r, t)" "r \<noteq> Panic"
  have inv: "embargoes_inv s" using s by (simp add: conn_ok_def)
  show "conn_ok t"
    using conn_ok_tables(2) [OF s]
  proof (cases rule: table_push_outcome [where v = True])
    case (pushed i t')
    have "embargoes_inv (s\<lparr>embargoes := t'\<rparr>)"
      using table_push_law [OF conn_ok_tables(2) [OF s] pushed] inv unfolding embargoes_inv_def
      by (auto split: if_splits)
    then show ?thesis
      using pushed run conn_ok_embargoes [OF s] by (auto simp: on_embargoes_def)
  next
    case full
    then show ?thesis using run by (simp add: on_embargoes_def)
  qed
qed

lemma erase_embargo_run:
  assumes s: "conn_ok s" and live: "table_find i (embargoes s) \<noteq> None"
  obtains t where "on_embargoes (table_erase i) s = (Ok (), s\<lparr>embargoes := t\<rparr>)"
    "conn_ok (s\<lparr>embargoes := t\<rparr>)"
proof -
  obtain t where t: "table_erase i (embargoes s) = (Ok (), t)" "table_ok t"
    "\<And>j. table_find j t = (if j = i then None else table_find j (embargoes s))"
    using table_erase_law [OF conn_ok_tables(2) [OF s] live] by blast
  have "embargoes_inv (s\<lparr>embargoes := t\<rparr>)"
    using s t(2,3) unfolding conn_ok_def embargoes_inv_def by (auto split: if_splits)
  then show ?thesis using that [of t] t conn_ok_embargoes [OF s] by (simp add: on_embargoes_def)
qed

text \<open>The echo of an embargo finds its fulfiller.\<close>

lemma embargo_fulfiller: "conn_ok s \<Longrightarrow> table_find i (embargoes s) = Some b \<Longrightarrow> b"
  unfolding conn_ok_def embargoes_inv_def by blast

lemma promise_resolve_maintains [keep_rules]: "maintains conn_ok (promise_resolve pl a r)"
  unfolding promise_resolve_def by (intro keep_rules; simp)

lemma announce_resolution_maintains [keep_rules]: "maintains conn_ok (announce_resolution i h)"
  unfolding announce_resolution_def by (intro keep_rules)

lemma repoint_export_maintains [keep_rules]: "maintains conn_ok (repoint_export i h)"
proof (rule maintainsI)
  fix s r t assume s: "conn_ok s" and run: "repoint_export i h s = (r, t)" "r \<noteq> Panic"
  show "conn_ok t"
  proof (cases "table_find i (exports s)")
    case None
    then show ?thesis using run s by (auto simp: repoint_export_def run_simps)
  next
    case (Some e)
    define bc where "bc = (if canonical e then (exports_by_cap s)(get_ptr (client_hook e) := None)
      else exports_by_cap s)"
    let ?keep = "table_set i (e\<lparr>client_hook := h, canonical := False\<rparr>) (exports s)"
    let ?reuse = "table_set i (e\<lparr>client_hook := h, canonical := True\<rparr>) (exports s)"
    have set_ok: "table_ok (table_set i v (exports s))" for v
      using ids.inv_put [OF conn_ok_exports_table [OF s]] Some by simp
    have rel: "conn_ok (s\<lparr>exports := ?keep, exports_by_cap := bc\<rparr>)"
      "bc (get_ptr h) = None \<or> bc (get_ptr h) = Some i \<Longrightarrow>
        conn_ok (s\<lparr>exports := ?reuse, exports_by_cap := bc(get_ptr h \<mapsto> i)\<rparr>)"
      using exports_rel_resolved [OF conn_ok_rel [OF s] Some bc_def] conn_ok_exports(1) [OF s]
        conn_ok_exports_closed [OF s _ set_ok]
      by (cases "connection s = None"; blast)+
    show ?thesis
    proof (cases "reuses_export i h bc")
      case True
      then have "bc (get_ptr h) = None \<or> bc (get_ptr h) = Some i"
        by (auto simp: reuses_export_def split: option.splits)
      moreover have "t = s\<lparr>exports_by_cap := bc(get_ptr h \<mapsto> i), exports := ?reuse\<rparr>"
        using run(1) Some True by (cases "canonical e") (simp_all add: repoint_export_def run_simps bc_def)
      ultimately show ?thesis
        using rel(2) by (simp add: exports_update_swap)
    next
      case False
      let ?u = "s\<lparr>exports_by_cap := bc, exports := ?keep\<rparr>"
      have "announce_resolution i h ?u = (r, t)"
        using run(1) Some False by (cases "canonical e") (simp_all add: repoint_export_def run_simps bc_def)
      moreover have "conn_ok ?u" using rel(1) by (simp add: exports_update_swap)
      ultimately show ?thesis using maintainsD [OF announce_resolution_maintains] run(2) by blast
    qed
  qed
qed

lemma exported_promise_resolved_maintains [keep_rules]: "maintains conn_ok (exported_promise_resolved i r)"
  unfolding exported_promise_resolved_def Let_def by (intro keep_rules)

section \<open>Messages\<close>

lemma get_message_target_maintains [keep_rules]: "maintains conn_ok (get_message_target pl target)"
  unfolding get_message_target_def by (cases target) (auto intro!: keep_rules)

lemma handler_maintains [keep_rules]:
  "maintains conn_ok (handle_bootstrap i)" "maintains conn_ok (handle_finish i b)"
  "maintains conn_ok (handle_call pl i target ds to)" "maintains conn_ok run_disembargo"
  unfolding handle_bootstrap_def handle_finish_def handle_call_def run_disembargo_def
  by (intro keep_rules; simp)+

lemma handle_unimplemented_maintains [keep_rules]: "maintains conn_ok (handle_unimplemented msg)"
proof (cases msg)
  case (MResolve i r)
  show ?thesis
  proof (cases r)
    case (ResolveCap d)
    with MResolve show ?thesis by (cases d) (simp_all add: handle_unimplemented_def keep_rules)
  next
    case ResolveException
    with MResolve show ?thesis by (simp add: handle_unimplemented_def keep_rules)
  qed
qed (simp_all add: handle_unimplemented_def keep_rules)

lemma handle_resolve_maintains [keep_rules]: "maintains conn_ok (handle_resolve pl i r)"
  unfolding handle_resolve_def by (cases r) (auto intro!: keep_rules)

lemma handle_disembargo_maintains [keep_rules]: "maintains conn_ok (handle_disembargo pl now target ctx)"
proof (cases ctx)
  case (ReceiverLoopback eid)
  show ?thesis
  proof (rule maintainsI)
    fix s r t assume s: "conn_ok s" and run: "handle_disembargo pl now target ctx s = (r, t)"
    show "conn_ok t"
    proof (cases "table_find eid (embargoes s)")
      case None
      then show ?thesis using run s ReceiverLoopback by (simp add: handle_disembargo_def run_simps)
    next
      case (Some b)
      have b using embargo_fulfiller [OF s Some] .
      obtain e where "on_embargoes (table_erase eid) s = (Ok (), s\<lparr>embargoes := e\<rparr>)"
        "conn_ok (s\<lparr>embargoes := e\<rparr>)"
        using erase_embargo_run [OF s, of eid] Some by auto
      then show ?thesis using run Some ReceiverLoopback \<open>b\<close> by (simp add: handle_disembargo_def run_simps)
    qed
  qed
qed (auto simp: handle_disembargo_def Let_def intro!: keep_rules)

lemma handle_return_maintains [keep_rules]: "maintains conn_ok (handle_return msg q nf body)"
proof (rule maintainsI)
  fix s r t assume s: "conn_ok s" and run: "handle_return msg q nf body s = (r, t)" "r \<noteq> Panic"
  show "conn_ok t"
  proof (cases "table_find q (questions s)")
    case None
    then have "handle_return msg q nf body s = (Err Failed, s) \<or> handle_return msg q nf body s = (Panic, s)"
      by (simp add: handle_return_def run_simps table_index_def table_find_def split: if_splits)
    then show ?thesis using run s by auto
  next
    case (Some qu)
    let ?qu = "qu\<lparr>is_awaiting_return := False, skip_finish := skip_finish qu \<or> nf\<rparr>"
    let ?s = "s\<lparr>questions := table_set q ?qu (questions s)\<rparr>"
    have live: "table_find q (questions s) \<noteq> None" using Some by simp
    have ok: "conn_ok ?s" by (rule set_question_ok [OF s live])
    have live': "table_find q (questions ?s) \<noteq> None"
      using find_set_question [OF s live, of q] by simp
    have idx: "table_index q (questions s) = Ok (Some qu)"
      using Some by (simp add: table_index_def table_find_def split: if_splits)
    define rest where "rest = (if self_ref qu = None then
          (case body of
             TakeFromOtherQuestion k \<Rightarrow> seqp new_outgoing_message (send_message (MUnimplemented msg))
           | _ \<Rightarrow> on_questions (table_erase q))
        else (case body of
            Results ds \<Rightarrow> bindp (receive_caps ds) (\<lambda>cs. fulfill q (ReplyResults cs))
          | ReturnException e \<Rightarrow> fulfill q (ReplyError (remote_exception_to_error e))
          | TakeFromOtherQuestion k \<Rightarrow> bindp (gets (\<lambda>s. answers s k)) (\<lambda>found. case found of
              Some a \<Rightarrow>
                if redirected_results a then
                  seqp (modifyp (update_answer k (\<lambda>a. a\<lparr>redirected_results := False\<rparr>)))
                    (fulfill q ReplyRedirected)
                else err Failed
            | None \<Rightarrow> err Failed)
          | _ \<Rightarrow> seqp new_outgoing_message (send_message (MUnimplemented msg))))"
    have run': "rest ?s = (r, t)"
      using run(1) idx unfolding handle_return_def rest_def
      by (simp add: set_question_run bindp_def gets_def seqp_Ok)
    show ?thesis
    proof (cases "self_ref qu = None \<and> (case body of TakeFromOtherQuestion k \<Rightarrow> False | _ \<Rightarrow> True)")
      case True
      then have "rest = on_questions (table_erase q)" by (auto simp: rest_def split: return_body.splits)
      then show ?thesis using erase_question_run [OF ok live'] run' by (metis prod.inject)
    next
      case False
      then have "maintains conn_ok rest"
        unfolding rest_def by (cases body) (auto intro!: keep_rules)
      then show ?thesis by (rule maintainsD [where P = conn_ok]) (rule ok run' run(2))+
    qed
  qed
qed

lemma handle_message_maintains [keep_rules]: "maintains conn_ok (handle_message pl now msg)"
  unfolding handle_message_def by (cases msg) (auto intro!: keep_rules)

lemma reject_questions_maintains [keep_rules]: "maintains conn_ok (reject_questions e)"
  unfolding reject_questions_def by (intro keep_rules)

lemma disconnect_maintains [keep_rules]: "maintains conn_ok (disconnect e)"
proof (rule maintainsI)
  fix s r t assume s: "conn_ok s" and run: "disconnect e s = (r, t)" "r \<noteq> Panic"
  show "conn_ok t"
  proof (cases "connection s")
    case (Some c)
    then show ?thesis using run s by (simp add: disconnect_def run_simps)
  next
    case None
    obtain o' u where rej: "reject_questions e s = (o', u)" by (cases "reject_questions e s")
    show ?thesis
    proof (cases o')
      case (Ok x)
      then have u: "conn_ok u" using maintainsD [OF reject_questions_maintains s rej] by simp
      have "connection t \<noteq> None \<and> exports t = table_new \<and> questions t = questions u \<and> embargoes t = table_new"
        using run(1) rej Ok None by (auto simp: disconnect_def run_simps send_message_def)
      then show ?thesis
        using u by (auto simp: conn_ok_def exports_inv_def questions_inv_def embargoes_inv_def table_ok_new)
    next
      case (Err x)
      then have "conn_ok u" using maintainsD [OF reject_questions_maintains s rej] by simp
      moreover have "t = u" using run(1) rej Err None by (simp add: disconnect_def run_simps)
      ultimately show ?thesis by simp
    next
      case Panic
      then show ?thesis using run rej None by (simp add: disconnect_def run_simps)
    next
      case UB
      then have "conn_ok u" using maintainsD [OF reject_questions_maintains s rej] by simp
      moreover have "t = u" using run(1) rej UB None by (simp add: disconnect_def run_simps)
      ultimately show ?thesis by simp
    qed
  qed
qed

lemma message_loop_step_maintains [keep_rules]: "maintains conn_ok (message_loop_step pl now incoming)"
proof (rule maintainsI)
  fix s r t assume s: "conn_ok s" and run: "message_loop_step pl now incoming s = (r, t)" "r \<noteq> Panic"
  show "conn_ok t"
  proof (cases incoming)
    case None
    then show ?thesis
      using run maintainsD [OF disconnect_maintains s] by (simp add: message_loop_step_def)
  next
    case (Some msg)
    obtain o' u where h: "handle_message pl now msg s = (o', u)" by (cases "handle_message pl now msg s")
    show ?thesis
    proof (cases o')
      case (Err e)
      have "conn_ok u" using maintainsD [OF handle_message_maintains s h] Err by simp
      then show ?thesis
        using run h Err Some maintainsD [OF disconnect_maintains] by (simp add: message_loop_step_def)
    qed (use run h Some maintainsD [OF handle_message_maintains s h] in \<open>auto simp: message_loop_step_def\<close>)
  qed
qed

section \<open>Every state of a connection\<close>

text \<open>
  What can happen at one end: the application sends calls and drops references, calls are
  completed, promises resolve, messages come in, the connection is shut down.
\<close>

datatype rpc_event = SendCall message_target u64 u16 "client_hook option list" bool
  | SendStreaming message_target u64 u16 "client_hook option list" bool
  | RequestSend client_hook u64 u16 "client_hook option list"
  | SendBootstrap
  | DropQuestionRef u32 | DropClient nat | DropImport u32 | DropPipelineClient nat | DropPromiseClient nat
  | GetPipelinedCap u32 "pipeline_op list" bool
  | ResultsDone u32 "error_kind option" "client_hook option list"
  | PromiseResolved nat "error_kind + received_cap"
  | ExportedPromiseResolved u32 "error_kind + client_hook"
  | RunDisembargo
  | Incoming "rpc_message option"
  | Shutdown

fun rpc_step :: "pipelines \<Rightarrow> (client_hook \<Rightarrow> client_hook) \<Rightarrow> rpc_event \<Rightarrow> unit rpc" where
  "rpc_step pl now (SendCall target ifc meth caps tail) = seqp (send_call target ifc meth caps tail) (ret ())"
| "rpc_step pl now (SendStreaming target ifc meth caps b) = seqp (send_streaming target ifc meth caps b) (ret ())"
| "rpc_step pl now (RequestSend h ifc meth caps) = seqp (request_send h ifc meth caps) (ret ())"
| "rpc_step pl now SendBootstrap = seqp bootstrap (ret ())"
| "rpc_step pl now (DropQuestionRef q) = drop_question_ref q"
| "rpc_step pl now (DropClient f) = drop_client f"
| "rpc_step pl now (DropImport i) = drop_import i"
| "rpc_step pl now (DropPipelineClient a) = drop_pipeline_client a"
| "rpc_step pl now (DropPromiseClient a) = drop_promise_client a"
| "rpc_step pl now (GetPipelinedCap q ops b) = seqp (pipelined_cap q ops b) (ret ())"
| "rpc_step pl now (ResultsDone i status caps) = results_done i status caps"
| "rpc_step pl now (PromiseResolved a r) = promise_resolve pl a r"
| "rpc_step pl now (ExportedPromiseResolved i r) = exported_promise_resolved i r"
| "rpc_step pl now RunDisembargo = run_disembargo"
| "rpc_step pl now (Incoming msg) = message_loop_step pl now msg"
| "rpc_step pl now Shutdown = disconnect Disconnected"

lemma rpc_step_maintains [keep_rules]: "maintains conn_ok (rpc_step pl now ev)"
  by (cases ev) (auto intro!: keep_rules)

text \<open>The states of a connection with the bootstrap capability \<open>h\<close>.\<close>

inductive connection_reachable :: "client_hook \<Rightarrow> connection_state \<Rightarrow> bool" for h where
  opened: "connection_reachable h (connection_new h)"
| step: "connection_reachable h s \<Longrightarrow> rpc_step pl now ev s = (r, t) \<Longrightarrow> r \<noteq> Panic \<Longrightarrow>
    connection_reachable h t"

lemma reachable_conn_ok: "connection_reachable h s \<Longrightarrow> conn_ok s"
proof (induction rule: connection_reachable.induct)
  case opened
  show ?case by (rule conn_ok_new)
next
  case (step s pl now ev r t)
  show ?case by (rule maintainsD [OF rpc_step_maintains step.IH step.hyps(2,3)])
qed

text \<open>C7: In every state of a live connection, whatever the application does and whatever
  messages a peer sends, the index of the exports is exact (it leads to an export for precisely the
  canonical exports, each with its own capability), no export is without a reference, and exporting
  a capability again always finds the entry that the code takes for granted: it can only fail by
  overflowing the reference count or running out of ids.\<close>

theorem exports_index_exact:
  assumes "connection_reachable h s" "connection s = None"
  shows "(exports_by_cap s p = Some i \<longleftrightarrow>
      (\<exists>e. table_find i (exports s) = Some e \<and> canonical e \<and> get_ptr (client_hook e) = p)) \<and>
    (table_find i (exports s) = Some e \<longrightarrow> refcount e \<noteq> 0) \<and>
    (fst (export_cap c s) = Panic \<longrightarrow>
      (\<exists>j e. table_find j (exports s) = Some e \<and> refcount e = - 1) \<or>
      free_ids (exports s) = [] \<and> Suc (length (slots (exports s))) = 2 ^ 32)"
proof -
  have rel: "exports_rel (exports s) (exports_by_cap s)"
    by (rule conn_ok_rel [OF reachable_conn_ok [OF assms(1)] assms(2)])
  have "(\<exists>j e. table_find j (exports s) = Some e \<and> refcount e = - 1) \<or>
      free_ids (exports s) = [] \<and> Suc (length (slots (exports s))) = 2 ^ 32"
    if "fst (export_cap c s) = Panic"
    by (rule export_cap_run [OF rel, of c]) (use that in auto)
  then show ?thesis using exports_relD(2,3) [OF rel] by blast
qed

text \<open>A connection that has sent a call with one capability.\<close>

definition sample_connection :: connection_state where
  "sample_connection = snd (send_call (ImportedCap 0) 1 2 [Some (LocalHook 7 None False)] False
     (connection_new (LocalHook 5 None False)))"

lemma sample_call_run:
  "send_call (ImportedCap 0) 1 2 [Some (LocalHook 7 None False)] False
     (connection_new (LocalHook 5 None False)) = (Ok 0, sample_connection)"
  by (simp add: sample_connection_def send_call_def write_descriptors_def export_cap_def run_simps
      connection_new_def on_exports_def on_questions_def table_push_def table_new_def
      register_ref_def the_question_def table_index_def set_question_def send_message_def)

lemma sample_connection_exports:
  "exports sample_connection = \<lparr>slots = [Some \<lparr>refcount = 1, canonical = True,
     client_hook = LocalHook 7 None False, resolving = False\<rparr>], free_ids = []\<rparr>"
  "exports_by_cap sample_connection = [LocalPtr 7 \<mapsto> 0]" "connection sample_connection = None"
  "answers sample_connection = Map.empty"
  by (simp_all add: sample_connection_def send_call_def write_descriptors_def export_cap_def run_simps
      connection_new_def on_exports_def on_questions_def table_push_def table_new_def
      register_ref_def the_question_def table_index_def set_question_def send_message_def
      export_entry_new_def)

lemma sample_connection_reachable:
  "connection_reachable (LocalHook 5 None False) sample_connection"
proof (rule connection_reachable.step [OF connection_reachable.opened])
  show "rpc_step pl now (SendCall (ImportedCap 0) 1 2 [Some (LocalHook 7 None False)] False)
      (connection_new (LocalHook 5 None False)) = (Ok (), sample_connection)" for pl now
    by (simp add: seqp_def bindp_def sample_call_run ret_def)
qed simp

lemma exports_index_exact_witness:
  "(exports_by_cap sample_connection (LocalPtr 7) = Some 0) \<and>
   (\<exists>e. table_find 0 (exports sample_connection) = Some e \<and> canonical e \<and> get_ptr (client_hook e) = LocalPtr 7)
   \<and> fst (export_cap (LocalHook 7 None False) sample_connection) \<noteq> Panic"
proof -
  note idx = exports_index_exact [OF sample_connection_reachable sample_connection_exports(3),
      of "LocalPtr 7" 0 undefined "LocalHook 7 None False"]
  have known: "exports_by_cap sample_connection (LocalPtr 7) = Some 0"
    by (simp add: sample_connection_exports)
  have "fst (export_cap (LocalHook 7 None False) sample_connection) \<noteq> Panic"
    using idx by (auto simp: sample_connection_exports table_find_def split: if_splits)
  then show ?thesis using known idx by blast
qed

text \<open>C8: The state of a connection stays well typed, whatever the application does and whatever arrives,
  before and after a disconnect:
  in the tables of questions, embargoes and exports the free ids are exactly those of the empty slots,
  each once, no table outgrows its ids, and an embargo that is in the table is unresolved.\<close>

theorem tables_well_formed:
  assumes "connection_reachable h s"
  shows "table_ok (questions s) \<and> table_ok (embargoes s) \<and> table_ok (exports s) \<and>
    (\<forall>i b. table_find i (embargoes s) = Some b \<longrightarrow> b)"
  using reachable_conn_ok [OF assms] by (auto simp: conn_ok_def exports_inv_def questions_inv_def embargoes_inv_def)

lemma tables_well_formed_witness:
  "table_ok (questions sample_connection) \<and> table_ok (embargoes sample_connection) \<and> table_ok (exports sample_connection)"
  using tables_well_formed [OF sample_connection_reachable] by simp

end
