(* ===== verification/Rpc_Protocol.thy ===== *)
theory Rpc_Protocol
  imports Rpc_Invariant
begin

text \<open>
  Two connection states that talk to each other over two ordered streams of messages, as they
  do in \<^verbatim>\<open>twoparty.rs\<close>. For every question id the two ends together are in one of a few
  configurations: what the asker's table says, what the answerer's table says, and which
  messages about the id are under way. Each event moves between them, so that ids may be reused
  as soon as the code frees them although a late \<open>Finish\<close> may still be under way: a \<open>Call\<close> never
  meets an answer that is still there, and a \<open>Return\<close> always meets its question.
\<close>

section \<open>What one end shows of a question id\<close>

text \<open>The messages about a question id, from the asker and from the answerer.\<close>

datatype ask_msg = Ask | Fin

datatype return_msg = RetFull | RetDone | RetCanceled | RetOther

definition asks_of :: "u32 \<Rightarrow> rpc_message \<Rightarrow> ask_msg list" where
  "asks_of q msg = (case msg of
     MCall i target ifc meth ds to \<Rightarrow> if i = q then [Ask] else []
   | MBootstrap i \<Rightarrow> if i = q then [Ask] else []
   | MFinish i b \<Rightarrow> if i = q then [Fin] else []
   | _ \<Rightarrow> [])"

definition return_kind :: "bool \<Rightarrow> return_body \<Rightarrow> return_msg" where
  "return_kind no_finish body = (case body of
     Results ds \<Rightarrow> if no_finish then RetDone else RetFull
   | ReturnException e \<Rightarrow> if no_finish then RetDone else RetFull
   | Canceled \<Rightarrow> if no_finish then RetOther else RetCanceled
   | _ \<Rightarrow> RetOther)"

definition returns_of :: "u32 \<Rightarrow> rpc_message \<Rightarrow> return_msg list" where
  "returns_of q msg = (case msg of
     MReturn i no_finish body \<Rightarrow> if i = q then [return_kind no_finish body] else []
   | _ \<Rightarrow> [])"

definition asks :: "u32 \<Rightarrow> rpc_message list \<Rightarrow> ask_msg list" where
  "asks q ms = concat (map (asks_of q) ms)"

definition returns :: "u32 \<Rightarrow> rpc_message list \<Rightarrow> return_msg list" where
  "returns q ms = concat (map (returns_of q) ms)"

lemma message_lists [simp]:
  "asks q [] = []" "returns q [] = []" "asks q (ms @ ns) = asks q ms @ asks q ns"
  "returns q (ms @ ns) = returns q ms @ returns q ns"
  "asks q (m # ms) = asks_of q m @ asks q ms" "returns q (m # ms) = returns_of q m @ returns q ms"
  by (simp_all add: asks_def returns_def)

text \<open>A question as (awaiting, referred to, no finish needed); an answer as (return sent, finish
  received).\<close>

definition question_view :: "connection_state \<Rightarrow> u32 \<Rightarrow> (bool \<times> bool \<times> bool) option" where
  "question_view s q = map_option (\<lambda>qu. (is_awaiting_return qu, self_ref qu \<noteq> None, skip_finish qu))
     (table_find q (questions s))"

definition answer_view :: "connection_state \<Rightarrow> u32 \<Rightarrow> (bool \<times> bool) option" where
  "answer_view s i = map_option (\<lambda>a. (return_has_been_sent a, received_finish a)) (answers s i)"

section \<open>The configurations of an id\<close>

text \<open>
  \<open>config q a fwd bwd\<close>: the question at the asker, the answer at the other end, the messages under
  way to the answerer and back. A \<open>Fin\<close> in front of an \<open>Ask\<close> belongs to an earlier use of the id.
\<close>

fun config :: "(bool \<times> bool \<times> bool) option \<Rightarrow> (bool \<times> bool) option \<Rightarrow> ask_msg list \<Rightarrow>
    return_msg list \<Rightarrow> bool" where
  "config None a fwd bwd \<longleftrightarrow> bwd = [] \<and>
     (fwd = [] \<and> a = None \<or> fwd = [Fin] \<and> (a = None \<or> a = Some (True, False)))"
| "config (Some (True, alive, skip)) a fwd bwd \<longleftrightarrow> \<not> skip \<and>
     (let rest = (if alive then [] else [Fin]) in
      bwd = [] \<and> (fwd = Ask # rest \<and> a = None \<or>
        fwd = Fin # Ask # rest \<and> (a = None \<or> a = Some (True, False))) \<or>
      fwd = rest \<and> (a = Some (False, False) \<and> bwd = [] \<or> a = Some (True, False) \<and> bwd = [RetFull] \<or>
        a = None \<and> bwd = [RetDone]) \<or>
      \<not> alive \<and> fwd = [] \<and> (a = Some (False, True) \<and> bwd = [] \<or>
        a = None \<and> (bwd = [RetFull] \<or> bwd = [RetDone] \<or> bwd = [RetCanceled])))"
| "config (Some (False, alive, skip)) a fwd bwd \<longleftrightarrow> alive \<and> fwd = [] \<and> bwd = [] \<and>
     a = (if skip then None else Some (True, False))"

text \<open>The moves of the asker.\<close>

lemma config_ask: "config None a fwd bwd \<Longrightarrow> config (Some (True, True, False)) a (fwd @ [Ask]) bwd"
  by auto

lemma config_drop:
  assumes "config (Some (w, True, skip)) a fwd bwd"
  shows "config (if w then Some (w, False, skip) else None) a (fwd @ (if skip then [] else [Fin])) bwd"
  using assms by (cases w) auto

lemma config_return:
  assumes "config q a fwd (r # bwd)"
  shows "\<exists>alive. q = Some (True, alive, False) \<and> r \<noteq> RetOther \<and> (alive \<longrightarrow> r \<noteq> RetCanceled) \<and>
    config (if alive then Some (False, True, r = RetDone) else None) a fwd bwd"
proof (cases q)
  case None
  with assms show ?thesis by simp
next
  case (Some v)
  obtain w alive skip where v: "v = (w, alive, skip)" by (cases v) auto
  with assms Some show ?thesis by (cases w; cases alive; simp add: Let_def; elim disjE conjE; simp; blast?)
qed

text \<open>The moves of the answerer.\<close>

lemma config_asked:
  assumes "config q a (Ask # fwd) bwd"
  shows "a = None \<and> config q (Some (False, False)) fwd bwd \<and> config q (Some (True, False)) fwd (bwd @ [RetFull])"
proof (cases q)
  case None
  with assms show ?thesis by simp
next
  case (Some v)
  obtain w alive skip where v: "v = (w, alive, skip)" by (cases v) auto
  with assms Some show ?thesis by (cases w; cases alive; simp add: Let_def; elim disjE conjE; simp)
qed

lemma config_finish:
  assumes "config q a (Fin # fwd) bwd"
  shows "config q (case a of Some (sent, fin) \<Rightarrow> if sent then None else Some (False, True) | None \<Rightarrow> None) fwd bwd"
proof (cases q)
  case None
  with assms show ?thesis by auto
next
  case (Some v)
  obtain w alive skip where v: "v = (w, alive, skip)" by (cases v) auto
  with assms Some show ?thesis by (cases w; cases alive; simp add: Let_def; elim disjE conjE; simp)
qed

lemma config_answer:
  assumes "config q (Some (False, fin)) fwd bwd"
  shows "if fin then config q None fwd (bwd @ [RetCanceled])
    else config q None fwd (bwd @ [RetDone]) \<and> config q (Some (True, False)) fwd (bwd @ [RetFull])"
proof -
  obtain w alive skip where q: "q = Some (w, alive, skip)" using assms by (cases q) auto
  show ?thesis
    using assms unfolding q
    by (cases w; cases alive; cases skip; cases fin; simp add: Let_def; elim disjE conjE; simp)
qed

section \<open>Operations that do not touch questions and answers\<close>

definition quiet :: "connection_state \<Rightarrow> connection_state \<Rightarrow> bool" where
  "quiet s t \<longleftrightarrow> connection t = connection s \<and> questions t = questions s \<and> answers t = answers s \<and>
     (\<exists>ms. outbox t = outbox s @ ms \<and> (\<forall>q. asks q ms = [] \<and> returns q ms = []))"

lemma quiet_refl [simp]: "quiet s s"
  by (simp add: quiet_def)

lemma quiet_trans: "quiet s t \<Longrightarrow> quiet t u \<Longrightarrow> quiet s u"
  unfolding quiet_def by (metis append.assoc append_Nil2 message_lists(3,4))

lemma quiet_frame [simp]:
  "quiet s (t\<lparr>exports := a\<rparr>) = quiet s t" "quiet s (t\<lparr>exports_by_cap := b\<rparr>) = quiet s t"
  "quiet s (t\<lparr>import_table := c\<rparr>) = quiet s t" "quiet s (t\<lparr>client_downcast_map := d\<rparr>) = quiet s t"
  "quiet s (t\<lparr>flows := e\<rparr>) = quiet s t" "quiet s (t\<lparr>next_object := f\<rparr>) = quiet s t"
  "quiet s (t\<lparr>promises := g\<rparr>) = quiet s t" "quiet s (t\<lparr>tasks := h\<rparr>) = quiet s t"
  "quiet s (t\<lparr>replies := i\<rparr>) = quiet s t" "quiet s (t\<lparr>embargoes := j\<rparr>) = quiet s t"
  "quiet s (update_import k fi t) = quiet s t" "quiet s (update_promise n fp t) = quiet s t"
  by (simp_all add: quiet_def update_import_def update_promise_def)

named_theorems quiet_rules \<open>rules for \<open>maintains (quiet s)\<close>\<close>

lemma quiet_on_table [quiet_rules]:
  "maintains (quiet s) (on_exports m)" "maintains (quiet s) (on_embargoes m')"
  by (simp_all add: maintains_def on_exports_def on_embargoes_def split: prod.splits)

lemma quiet_send [quiet_rules]:
  assumes "\<And>q. asks_of q msg = []" "\<And>q. returns_of q msg = []"
  shows "maintains (quiet s) (send_message msg)"
proof (rule maintainsI)
  fix t r u assume t: "quiet s t" and run: "send_message msg t = (r, u)"
  show "quiet s u"
  proof (cases "connection t = None")
    case True
    then have "u = t\<lparr>outbox := outbox t @ [msg]\<rparr>" using run by (simp add: send_message_run)
    then have "quiet t u" using assms by (simp add: quiet_def)
    with t show ?thesis by (rule quiet_trans)
  next
    case False
    then show ?thesis using run t by (auto simp: send_message_run)
  qed
qed

lemma quiet_outgoing [quiet_rules]: "maintains (quiet s) new_outgoing_message"
  unfolding new_outgoing_message_def by (intro keep_rules)

lemma quiet_client [quiet_rules]:
  "maintains (quiet s) (client_new p)" "maintains (quiet s) (downcast p)" "maintains (quiet s) (drop_client f)"
  "maintains (quiet s) (forget_ptr p)" "maintains (quiet s) (promise_client_new c i)"
proof -
  show c: "maintains (quiet s) (client_new p)" for p
    unfolding client_new_def by (intro keep_rules; simp)
  show "maintains (quiet s) (downcast p)" "maintains (quiet s) (drop_client f)"
    "maintains (quiet s) (forget_ptr p)"
    unfolding downcast_def drop_client_def forget_ptr_def by (intro keep_rules; simp)+
  show "maintains (quiet s) (promise_client_new c i)"
    unfolding promise_client_new_def by (intro keep_rules c; simp)
qed

lemma quiet_drop [quiet_rules]:
  "maintains (quiet s) (drop_import i)" "maintains (quiet s) (drop_pipeline_client a)"
  "maintains (quiet s) (drop_promise_client a)" "maintains (quiet s) (pipelined_cap q ops b)"
  unfolding drop_import_def drop_pipeline_client_def drop_promise_client_def pipelined_cap_def
  by (intro keep_rules quiet_rules; simp add: asks_of_def returns_of_def)+

lemma quiet_exports [quiet_rules]:
  "maintains (quiet s) (release_export i n)" "maintains (quiet s) (export_cap h)"
  unfolding release_export_def export_cap_def by (intro keep_rules quiet_rules; simp)+

lemma quiet_release [quiet_rules]: "maintains (quiet s) (release_exports is)"
  unfolding release_exports_def by (intro keep_rules quiet_rules)

lemma quiet_descriptor [quiet_rules]: "maintains (quiet s) (write_descriptor h)"
  by (induction h rule: write_descriptor.induct) (auto intro!: keep_rules quiet_rules)

lemma quiet_descriptors [quiet_rules]: "maintains (quiet s) (write_descriptors caps)"
  unfolding write_descriptors_def by (intro keep_rules quiet_rules)

lemma quiet_target [quiet_rules]: "maintains (quiet s) (write_target h)"
  by (induction h) (auto intro!: keep_rules quiet_rules)

lemma quiet_import [quiet_rules]: "maintains (quiet s) (import_cap i b)"
  unfolding import_cap_def by (intro keep_rules quiet_rules; simp)

lemma quiet_receive [quiet_rules]: "maintains (quiet s) (receive_cap d)"
  unfolding receive_cap_def by (cases d) (auto intro!: keep_rules quiet_rules)

lemma quiet_receives [quiet_rules]: "maintains (quiet s) (receive_caps ds)"
  unfolding receive_caps_def by (intro keep_rules quiet_rules)

lemma quiet_resolve [quiet_rules]: "maintains (quiet s) (promise_resolve pl a r)"
  unfolding promise_resolve_def
  by (intro keep_rules quiet_rules; simp add: asks_of_def returns_of_def)

lemma quiet_repoint [quiet_rules]: "maintains (quiet s) (repoint_export i h)"
  unfolding repoint_export_def announce_resolution_def
  by (intro keep_rules quiet_rules; simp add: asks_of_def returns_of_def)

lemma quiet_promise [quiet_rules]: "maintains (quiet s) (exported_promise_resolved i r)"
  unfolding exported_promise_resolved_def Let_def
  by (intro keep_rules quiet_rules; simp add: asks_of_def returns_of_def)

lemma quiet_get_target [quiet_rules]: "maintains (quiet s) (get_message_target pl target)"
  unfolding get_message_target_def by (cases target) (auto intro!: keep_rules)

lemma quiet_handle_resolve [quiet_rules]: "maintains (quiet s) (handle_resolve pl i r)"
  unfolding handle_resolve_def by (cases r) (auto intro!: keep_rules quiet_rules)

lemma quiet_disembargo [quiet_rules]: "maintains (quiet s) (handle_disembargo pl now target ctx)"
  unfolding handle_disembargo_def by (cases ctx) (auto simp: Let_def intro!: keep_rules quiet_rules)

lemma quiet_run_disembargo [quiet_rules]: "maintains (quiet s) run_disembargo"
  unfolding run_disembargo_def
  by (intro keep_rules quiet_rules; simp add: asks_of_def returns_of_def)

lemma quiet_unimplemented [quiet_rules]: "maintains (quiet s) (handle_unimplemented msg)"
proof (cases msg)
  case (MResolve i r)
  show ?thesis
  proof (cases r)
    case (ResolveCap d)
    with MResolve show ?thesis
      by (cases d) (simp_all add: handle_unimplemented_def keep_rules quiet_rules)
  next
    case ResolveException
    with MResolve show ?thesis by (simp add: handle_unimplemented_def keep_rules)
  qed
qed (simp_all add: handle_unimplemented_def keep_rules)

text \<open>A quiet beginning of a program.\<close>

lemma quietD: "maintains (quiet s) m \<Longrightarrow> m s = (r, t) \<Longrightarrow> r \<noteq> Panic \<Longrightarrow> quiet s t"
  by (rule maintainsD [where P = "quiet s" and m = m and s = s]) simp_all

lemma quiet_bindp:
  assumes "maintains (quiet s) m" "bindp m f s = (r, t)" "r \<noteq> Panic"
  obtains (failed) "quiet s t" "\<nexists>x. r = Ok x" | (continued) x u where "m s = (Ok x, u)" "quiet s u" "f x u = (r, t)"
proof (cases "m s")
  case (Pair r' u)
  show ?thesis
  proof (cases r')
    case (Ok x)
    then have "quiet s u" using quietD [OF assms(1) Pair] by simp
    moreover have "f x u = (r, t)" using assms(2) Pair Ok by (simp add: bindp_def)
    ultimately show ?thesis using continued Pair Ok by blast
  qed (use failed assms Pair quietD [OF assms(1) Pair] in \<open>auto simp: bindp_def\<close>)
qed

section \<open>The effect of an operation on one id\<close>

definition effect :: "connection_state \<Rightarrow> connection_state \<Rightarrow> u32 \<Rightarrow> (bool \<times> bool \<times> bool) option \<Rightarrow>
    (bool \<times> bool) option \<Rightarrow> ask_msg list \<Rightarrow> return_msg list \<Rightarrow> bool" where
  "effect s t i q a fwd bwd \<longleftrightarrow> connection t = connection s \<and>
     (\<forall>j. question_view t j = (if j = i then q else question_view s j)) \<and>
     (\<forall>j. answer_view t j = (if j = i then a else answer_view s j)) \<and>
     (\<exists>ms. outbox t = outbox s @ ms \<and> (\<forall>j. asks j ms = (if j = i then fwd else []) \<and>
        returns j ms = (if j = i then bwd else [])))"

lemma effect_trans:
  assumes "effect s t i q a fwd bwd" "effect t u i q' a' fwd' bwd'"
  shows "effect s u i q' a' (fwd @ fwd') (bwd @ bwd')"
proof -
  obtain ms where ms: "outbox t = outbox s @ ms" "\<And>j. asks j ms = (if j = i then fwd else [])"
    "\<And>j. returns j ms = (if j = i then bwd else [])"
    using assms(1) by (auto simp: effect_def)
  obtain ns where ns: "outbox u = outbox t @ ns" "\<And>j. asks j ns = (if j = i then fwd' else [])"
    "\<And>j. returns j ns = (if j = i then bwd' else [])"
    using assms(2) by (auto simp: effect_def)
  have "outbox u = outbox s @ (ms @ ns)" using ms(1) ns(1) by simp
  moreover have "asks j (ms @ ns) = (if j = i then fwd @ fwd' else [])"
    "returns j (ms @ ns) = (if j = i then bwd @ bwd' else [])" for j
    using ms(2,3) ns(2,3) by simp_all
  ultimately show ?thesis using assms unfolding effect_def by (auto intro!: exI [of _ "ms @ ns"])
qed

lemma quiet_effect: "quiet s t \<Longrightarrow> effect s t i (question_view s i) (answer_view s i) [] []"
  by (auto simp: effect_def quiet_def question_view_def answer_view_def)

lemma quiet_then_effect: "quiet s t \<Longrightarrow> effect t u i q a fwd bwd \<Longrightarrow> effect s u i q a fwd bwd"
  using effect_trans [OF quiet_effect] by fastforce

lemma effect_then_quiet: "effect s t i q a fwd bwd \<Longrightarrow> quiet t u \<Longrightarrow> effect s u i q a fwd bwd"
proof -
  assume e: "effect s t i q a fwd bwd" and "quiet t u"
  then have "effect t u i q a [] []"
    using quiet_effect [of t u i] by (simp add: effect_def)
  from effect_trans [OF e this] show ?thesis by simp
qed

lemma quiet_views: "quiet s t \<Longrightarrow> question_view t i = question_view s i \<and> answer_view t i = answer_view s i \<and>
    connection t = connection s"
  by (simp add: quiet_def question_view_def answer_view_def)

lemma effect_views: "effect s t i q a fwd bwd \<Longrightarrow> question_view t i = q \<and> answer_view t i = a \<and>
    connection t = connection s"
  by (simp add: effect_def)

lemma effect_send:
  assumes "send_message msg s = (r, t)" "connection s = None"
    and "\<And>j. j \<noteq> i \<Longrightarrow> asks_of j msg = [] \<and> returns_of j msg = []"
  shows "effect s t i (question_view s i) (answer_view s i) (asks_of i msg) (returns_of i msg)"
  using assms by (auto simp: effect_def send_message_run question_view_def answer_view_def intro!: exI [of _ "[msg]"])

definition view_question :: "question \<Rightarrow> bool \<times> bool \<times> bool" where
  "view_question qu = (is_awaiting_return qu, self_ref qu \<noteq> None, skip_finish qu)"

definition view_answer :: "answer \<Rightarrow> bool \<times> bool" where
  "view_answer a = (return_has_been_sent a, received_finish a)"

lemma question_view_find: "question_view s q = map_option view_question (table_find q (questions s))"
  by (simp add: question_view_def view_question_def [abs_def])

lemma answer_view_find: "answer_view s i = map_option view_answer (answers s i)"
  by (simp add: answer_view_def view_answer_def [abs_def])

lemma effect_questions:
  assumes "\<And>j. table_find j t = (if j = i then x else table_find j (questions s))"
  shows "effect s (s\<lparr>questions := t\<rparr>) i (map_option view_question x) (answer_view s i) [] []"
  using assms by (simp add: effect_def question_view_find answer_view_def)

lemma effect_answers:
  "effect s (s\<lparr>answers := (answers s)(i := x)\<rparr>) i (question_view s i) (map_option view_answer x) [] []"
  by (simp add: effect_def answer_view_find question_view_def)

lemma effect_set_question:
  assumes "conn_ok s" "table_find q (questions s) \<noteq> None"
  shows "effect s (s\<lparr>questions := table_set q qu (questions s)\<rparr>) q (Some (view_question qu)) (answer_view s q) [] []"
  using effect_questions [of "table_set q qu (questions s)" q "Some qu" s] find_set_question [OF assms]
  by simp

lemma effect_push_question:
  assumes s: "conn_ok s" and run: "on_questions (table_push qu) s = (r, t)" "r \<noteq> Panic"
  obtains q where "r = Ok q" "question_view s q = None" "conn_ok t" "table_find q (questions t) = Some qu"
    "effect s t q (Some (view_question qu)) (answer_view s q) [] []"
proof -
  have t: "conn_ok t" by (rule maintainsD [OF push_question_maintains s run])
  have ok: "table_ok (questions s)" by (rule conn_ok_tables [OF s])
  show ?thesis
    using ok
  proof (cases rule: table_push_outcome [where v = qu])
    case (pushed q t')
    note law = table_push_law [OF ok pushed]
    have "t = s\<lparr>questions := t'\<rparr>" "r = Ok q" using run(1) pushed by (simp_all add: on_questions_def)
    then show ?thesis
      using that [of q] t law effect_questions [of t' q "Some qu" s] by (simp add: question_view_find)
  next
    case full
    then show ?thesis using run by (simp add: on_questions_def)
  qed
qed

lemma register_ref_run:
  assumes "table_find q (questions s) = Some qu"
  shows "register_ref q s = (Ok (), s\<lparr>questions := table_set q (qu\<lparr>self_ref := Some True\<rparr>) (questions s)\<rparr>)"
  using assms by (simp add: register_ref_def bindp_def the_question_run set_question_run)

section \<open>Asking\<close>

text \<open>A fresh question, its message and its reference, in either order.\<close>

lemma ask_effect:
  assumes v: "conn_ok v" "connection v = None" "table_find q (questions v) = Some qu"
    and msg: "asks_of q msg = [Ask]" "\<And>j. j \<noteq> q \<Longrightarrow> asks_of j msg = []" "\<And>j. returns_of j msg = []"
    and qu: "is_awaiting_return qu" "\<not> skip_finish qu"
    and t: "t = v\<lparr>outbox := outbox v @ [msg], questions := table_set q (qu\<lparr>self_ref := Some True\<rparr>) (questions v)\<rparr>"
  shows "effect v t q (Some (True, True, False)) (answer_view v q) [Ask] []"
proof -
  let ?w = "v\<lparr>questions := table_set q (qu\<lparr>self_ref := Some True\<rparr>) (questions v)\<rparr>"
  have 1: "effect v ?w q (Some (True, True, False)) (answer_view v q) [] []"
    using effect_set_question [OF v(1), of q "qu\<lparr>self_ref := Some True\<rparr>"] v(3) qu
    by (simp add: view_question_def)
  have "send_message msg ?w = (Ok (), t)" using v(2) by (simp add: send_message_run t)
  from effect_send [OF this, of q] have "effect ?w t q (question_view ?w q) (answer_view ?w q) [Ask] []"
    using v(2) msg by simp
  then have "effect ?w t q (Some (True, True, False)) (answer_view v q) [Ask] []"
    using effect_views [OF 1] by simp
  from effect_trans [OF 1 this] show ?thesis by simp
qed

lemma send_call_effect:
  assumes s: "conn_ok s" "connection s = None"
    and run: "send_call target ifc meth caps tail s = (r, t)" "r \<noteq> Panic"
  obtains "quiet s t" | q where "question_view s q = None"
    "effect s t q (Some (True, True, False)) (answer_view s q) [Ask] []"
  using quiet_descriptors run(1) [unfolded send_call_def] run(2)
proof (cases rule: quiet_bindp)
  case failed
  then show ?thesis using that by blast
next
  case (continued x u)
  obtain ds es where x: "x = (ds, es)" by (cases x)
  let ?qu = "question_new\<lparr>param_exports := es, is_tail_call := tail\<rparr>"
  have u: "conn_ok u" "connection u = None"
    using maintainsD [OF write_descriptors_maintains s(1) continued(1)] quiet_views [OF continued(2)] s(2)
    by simp_all
  obtain r' v where push: "on_questions (table_push ?qu) u = (r', v)"
    by (cases "on_questions (table_push ?qu) u")
  have "r' \<noteq> Panic" using continued(3) run(2) push by (auto simp: x bindp_def)
  then obtain q where q: "r' = Ok q" "question_view u q = None" "conn_ok v"
    "table_find q (questions v) = Some ?qu"
    "effect u v q (Some (view_question ?qu)) (answer_view u q) [] []"
    using effect_push_question [OF u(1) push] by blast
  have v: "connection v = None" using effect_views [OF q(5)] u(2) by simp
  let ?msg = "MCall q target ifc meth ds (if tail then ToYourself else ToCaller)"
  have "t = v\<lparr>outbox := outbox v @ [?msg], questions := table_set q (?qu\<lparr>self_ref := Some True\<rparr>) (questions v)\<rparr>"
    using continued(3) push q(1,4) v
    by (simp add: x bindp_def seqp_def send_message_run register_ref_run ret_def)
  then have "effect v t q (Some (True, True, False)) (answer_view v q) [Ask] []"
    by (intro ask_effect [OF q(3) v q(4)]) (simp_all add: asks_of_def returns_of_def question_new_def)
  then have "effect u t q (Some (True, True, False)) (answer_view u q) [Ask] []"
    using effect_trans [OF q(5)] effect_views [OF q(5)] by fastforce
  from quiet_then_effect [OF continued(2) this] q(2) quiet_views [OF continued(2)] that
  show ?thesis by simp
qed

lemma push_then_ask:
  assumes u: "conn_ok u" "connection u = None"
    and run: "bindp (on_questions (table_push qu)) (\<lambda>q. seqp (register_ref q) (seqp (send_message (msg q)) (ret q))) u = (r, t)"
      "r \<noteq> Panic"
    and msg: "\<And>q. asks_of q (msg q) = [Ask]" "\<And>j q. j \<noteq> q \<Longrightarrow> asks_of j (msg q) = []"
      "\<And>j q. returns_of j (msg q) = []"
    and qu: "is_awaiting_return qu" "\<not> skip_finish qu"
  obtains q where "question_view u q = None"
    "effect u t q (Some (True, True, False)) (answer_view u q) [Ask] []"
proof -
  obtain r' v where push: "on_questions (table_push qu) u = (r', v)"
    by (cases "on_questions (table_push qu) u")
  have "r' \<noteq> Panic" using run push by (auto simp: bindp_def)
  then obtain q where q: "r' = Ok q" "question_view u q = None" "conn_ok v"
    "table_find q (questions v) = Some qu"
    "effect u v q (Some (view_question qu)) (answer_view u q) [] []"
    using effect_push_question [OF u(1) push] by blast
  have v: "connection v = None" using effect_views [OF q(5)] u(2) by simp
  have "t = v\<lparr>questions := table_set q (qu\<lparr>self_ref := Some True\<rparr>) (questions v), outbox := outbox v @ [msg q]\<rparr>"
    using run(1) push q(1,4) v by (simp add: bindp_def seqp_def send_message_run register_ref_run ret_def)
  then have "t = v\<lparr>outbox := outbox v @ [msg q], questions := table_set q (qu\<lparr>self_ref := Some True\<rparr>) (questions v)\<rparr>"
    by simp
  then have "effect v t q (Some (True, True, False)) (answer_view v q) [Ask] []"
    by (intro ask_effect [OF q(3) v q(4)]) (simp_all add: msg qu)
  then have "effect u t q (Some (True, True, False)) (answer_view u q) [Ask] []"
    using effect_trans [OF q(5)] effect_views [OF q(5)] by fastforce
  with q(2) show ?thesis by (rule that)
qed

lemma send_streaming_effect:
  assumes s: "conn_ok s" "connection s = None"
    and run: "send_streaming target ifc meth caps b s = (r, t)" "r \<noteq> Panic"
  obtains "quiet s t" | q where "question_view s q = None"
    "effect s t q (Some (True, True, False)) (answer_view s q) [Ask] []"
  using quiet_descriptors run(1) [unfolded send_streaming_def] run(2)
proof (cases rule: quiet_bindp)
  case failed
  then show ?thesis using that by blast
next
  case (continued x u)
  obtain ds es where x: "x = (ds, es)" by (cases x)
  let ?qu = "question_new\<lparr>param_exports := es\<rparr>"
  have u: "conn_ok u" "connection u = None"
    using maintainsD [OF write_descriptors_maintains s(1) continued(1)] quiet_views [OF continued(2)] s(2)
    by simp_all
  have "bindp (on_questions (table_push ?qu)) (\<lambda>q. seqp (register_ref q)
      (seqp (send_message (MCall q target ifc meth ds ToCaller)) (ret q))) u = (r, t)"
  proof -
    obtain r' v where push: "on_questions (table_push ?qu) u = (r', v)"
      by (cases "on_questions (table_push ?qu) u")
    have "connection v = None"
      using push u(2) by (auto simp: on_questions_def split: prod.splits)
    with push continued(3) show ?thesis
      by (auto simp: x bindp_def seqp_def gets_def register_ref_def the_question_run set_question_run
          split: outcome.splits option.splits prod.splits)
  qed
  then obtain q where "question_view u q = None"
    "effect u t q (Some (True, True, False)) (answer_view u q) [Ask] []"
    by (rule push_then_ask [OF u]) (use run(2) in \<open>auto simp: asks_of_def returns_of_def question_new_def\<close>)
  then show ?thesis
    using that(2) [of q] quiet_then_effect [OF continued(2)] quiet_views [OF continued(2)] by simp
qed

lemma bootstrap_effect:
  assumes s: "conn_ok s" "connection s = None" and run: "bootstrap s = (r, t)" "r \<noteq> Panic"
  obtains q where "question_view s q = None"
    "effect s t q (Some (True, True, False)) (answer_view s q) [Ask] []"
proof -
  have "bindp (on_questions (table_push question_new)) (\<lambda>q. seqp (register_ref q)
      (seqp (send_message (MBootstrap q)) (ret q))) s = (r, t)"
  proof -
    obtain r' v where push: "on_questions (table_push question_new) s = (r', v)"
      by (cases "on_questions (table_push question_new) s")
    have "connection v = None" using push s(2) by (auto simp: on_questions_def split: prod.splits)
    with push run(1) show ?thesis
      by (auto simp: bootstrap_def bindp_def seqp_def gets_def register_ref_def the_question_run set_question_run
          split: outcome.splits option.splits prod.splits)
  qed
  then show ?thesis
    by (rule push_then_ask [OF s]) (use run(2) that in \<open>auto simp: asks_of_def returns_of_def question_new_def\<close>)
qed

lemma request_send_effect:
  assumes s: "conn_ok s" "connection s = None"
    and run: "request_send h ifc meth caps s = (r, t)" "r \<noteq> Panic"
  obtains "quiet s t" | q where "question_view s q = None"
    "effect s t q (Some (True, True, False)) (answer_view s q) [Ask] []"
  using quiet_target run(1) [unfolded request_send_def] run(2)
proof (cases rule: quiet_bindp)
  case failed
  then show ?thesis using that by blast
next
  case (continued x u)
  have u: "conn_ok u" "connection u = None"
    using maintainsD [OF write_target_maintains s(1) continued(1)] quiet_views [OF continued(2)] s(2)
    by simp_all
  show ?thesis
  proof (cases x)
    case (Inr redirect)
    then show ?thesis using continued that by (simp add: ret_def)
  next
    case (Inl target)
    obtain r' v where call: "send_call target ifc meth caps False u = (r', v)"
      by (cases "send_call target ifc meth caps False u")
    have "r' \<noteq> Panic" "t = v"
      using continued(3) run(2) call Inl by (auto simp: bindp_def ret_def split: outcome.splits)
    with call show ?thesis
      using send_call_effect [OF u call] that quiet_trans [OF continued(2)]
        quiet_then_effect [OF continued(2)] quiet_views [OF continued(2)] by metis
  qed
qed

section \<open>Dropping the reference to a question\<close>

lemma drop_question_ref_effect:
  assumes s: "conn_ok s" "connection s = None" and q: "question_view s q = Some (w, True, skip)"
    and run: "drop_question_ref q s = (r, t)"
  shows "effect s t q (if w then Some (w, False, skip) else None) (answer_view s q)
    (if skip then [] else [Fin]) []"
proof -
  obtain qu where qu: "table_find q (questions s) = Some qu" "is_awaiting_return qu = w"
    "skip_finish qu = skip"
    using q by (auto simp: question_view_def)
  define u where "u = (if skip then s else s\<lparr>outbox := outbox s @ [MFinish q w]\<rparr>)"
  have u: "conn_ok u" "table_find q (questions u) = Some qu" using s qu by (simp_all add: u_def)
  have 1: "effect s u q (question_view s q) (answer_view s q) (if skip then [] else [Fin]) []"
  proof (cases skip)
    case True
    then show ?thesis using quiet_effect [OF quiet_refl, of s q] by (simp add: u_def)
  next
    case False
    have "send_message (MFinish q w) s = (Ok (), u)" using s(2) False by (simp add: u_def send_message_run)
    from effect_send [OF this s(2), of q] False show ?thesis by (simp add: asks_of_def returns_of_def)
  qed
  have run': "(if w then set_question q (qu\<lparr>self_ref := None\<rparr>) else on_questions (table_erase q)) u = (r, t)"
  proof -
    have pre: "(if skip then ret () else send_message (MFinish q w)) s = (Ok (), u)"
      using s(2) by (simp add: u_def send_message_run ret_def)
    have "the_question q s = (Ok qu, s)" using qu(1) by (simp add: the_question_run)
    then have "drop_question_ref q s = seqp (if skip then ret () else send_message (MFinish q w))
        (if w then set_question q (qu\<lparr>self_ref := None\<rparr>) else on_questions (table_erase q)) s"
      by (simp add: drop_question_ref_def bindp_Ok qu(2,3))
    then show ?thesis using run
      by (simp only: seqp_Ok [of "if skip then ret () else send_message (MFinish q w)" s "()" u, OF pre])
  qed
  have "effect u t q (if w then Some (w, False, skip) else None) (answer_view u q) [] []"
  proof (cases w)
    case True
    then have "t = u\<lparr>questions := table_set q (qu\<lparr>self_ref := None\<rparr>) (questions u)\<rparr>"
      using run' by (simp add: set_question_run)
    then show ?thesis
      using effect_set_question [OF u(1), of q "qu\<lparr>self_ref := None\<rparr>"] u(2) qu True
      by (simp add: view_question_def)
  next
    case False
    obtain tq where "on_questions (table_erase q) u = (Ok (), u\<lparr>questions := tq\<rparr>)"
      "\<And>j. table_find j tq = (if j = q then None else table_find j (questions u))"
      using erase_question_run [OF u(1), of q] u(2) by auto
    then show ?thesis using run' False effect_questions [of tq q None u] by simp
  qed
  moreover have "answer_view u q = answer_view s q" using effect_views [OF 1] by simp
  ultimately show ?thesis using effect_trans [OF 1] by fastforce
qed

section \<open>Completing a call\<close>

lemma effect_update_answer:
  assumes "answers s i = Some a"
  shows "effect s (update_answer i f s) i (question_view s i) (Some (view_answer (f a))) [] []"
  using effect_answers [of s i "Some (f a)"] assms by (simp add: update_answer_def)

lemma answer_has_sent_return_effect:
  assumes "answers s i = Some a" "answer_has_sent_return i es s = (r, t)"
  shows "effect s t i (question_view s i) (if received_finish a then None else Some (True, False)) [] []"
proof (cases "received_finish a")
  case True
  then show ?thesis
    using assms effect_answers [of s i None] by (simp add: answer_has_sent_return_def run_simps)
next
  case False
  then have "t = update_answer i (\<lambda>a. a\<lparr>return_has_been_sent := True, result_exports := es\<rparr>) s"
    using assms by (simp add: answer_has_sent_return_def run_simps)
  then show ?thesis
    using effect_update_answer [OF assms(1), of "\<lambda>a. a\<lparr>return_has_been_sent := True, result_exports := es\<rparr>"] False
    by (simp add: view_answer_def)
qed

text \<open>The return is sent and the answer told so.\<close>

lemma send_return_effect:
  assumes s: "connection s = None" "answers s i = Some a"
    and run: "seqp (send_message (MReturn i nf body)) (answer_has_sent_return i es) s = (r, t)"
  shows "effect s t i (question_view s i) (if received_finish a then None else Some (True, False)) []
    [return_kind nf body]"
proof -
  let ?u = "s\<lparr>outbox := outbox s @ [MReturn i nf body]\<rparr>"
  have send: "send_message (MReturn i nf body) s = (Ok (), ?u)" using s(1) by (simp add: send_message_run)
  have 1: "effect s ?u i (question_view s i) (answer_view s i) [] [return_kind nf body]"
    using effect_send [OF send s(1), of i] by (simp add: asks_of_def returns_of_def)
  have "answer_has_sent_return i es ?u = (r, t)" using run by (simp add: seqp_Ok [of "send_message (MReturn i nf body)", OF send])
  from answer_has_sent_return_effect [OF _ this, of a] s(2)
  have "effect ?u t i (question_view s i) (if received_finish a then None else Some (True, False)) [] []"
    using effect_views [OF 1] by simp
  from effect_trans [OF 1 this] show ?thesis by simp
qed

lemma results_done_effect:
  assumes s: "connection s = None" and a: "answers s i = Some a" "\<not> return_has_been_sent a"
    and run: "results_done i status caps s = (r, t)" "r \<noteq> Panic"
  obtains (canceled) "received_finish a" "effect s t i (question_view s i) None [] [RetCanceled]"
  | (finished) "\<not> received_finish a" "effect s t i (question_view s i) None [] [RetDone]"
  | (full) "\<not> received_finish a" "effect s t i (question_view s i) (Some (True, False)) [] [RetFull]"
  | (failed) "quiet s t"
proof (cases "received_finish a")
  case True
  then have "seqp (send_message (MReturn i False Canceled)) (answer_has_sent_return i []) s = (r, t)"
    using run(1) a(1) by (simp add: results_done_def bindp_def gets_def)
  from send_return_effect [OF s a(1) this] canceled True show ?thesis by (simp add: return_kind_def)
next
  case False
  show ?thesis
  proof (cases status)
    case (Some e)
    then have "seqp (send_message (MReturn i False (ReturnException (from_error e)))) (answer_has_sent_return i []) s = (r, t)"
      using run(1) a(1) False by (simp add: results_done_def bindp_def gets_def)
    from send_return_effect [OF s a(1) this] full False show ?thesis by (simp add: return_kind_def)
  next
    case None
    define u where "u = (if caps = [] then update_answer i (\<lambda>a. a\<lparr>received_finish := True\<rparr>) s else s)"
    define b where "b = (if caps = [] then a\<lparr>received_finish := True\<rparr> else a)"
    have u: "answers u i = Some b" "connection u = None"
      "effect s u i (question_view s i) (Some (view_answer b)) [] []"
      using effect_update_answer [OF a(1), of "\<lambda>a. a\<lparr>received_finish := True\<rparr>"] s a(1)
        quiet_effect [OF quiet_refl, of s i]
      by (simp_all add: u_def b_def update_answer_def answer_view_find)
    have "bindp (write_descriptors caps) (\<lambda>(ds, es).
          seqp (send_message (MReturn i (caps = []) (Results ds))) (answer_has_sent_return i es)) u = (r, t)"
      using run(1) a(1) False None
      by (cases "caps = []") (simp_all add: results_done_def bindp_def gets_def seqp_def modifyp_def ret_def u_def)
    from quiet_descriptors this run(2) show ?thesis
    proof (cases rule: quiet_bindp)
      case failed
      have "caps \<noteq> []"
      proof
        assume "caps = []"
        then have "seqp (send_message (MReturn i True (Results []))) (answer_has_sent_return i []) u = (r, t)"
          using \<open>bindp (write_descriptors caps) _ u = (r, t)\<close> by (simp add: write_descriptors_def)
        then have "r = Ok ()"
          using u(1) by (auto simp: seqp_def bindp_def send_message_def modifyp_def
              answer_has_sent_return_def gets_def split: if_splits)
        then show False using failed(2) by simp
      qed
      then show ?thesis using that(4) failed(1) by (simp add: u_def)
    next
      case (continued x v)
      obtain ds es where x: "x = (ds, es)" by (cases x)
      have v: "answers v i = Some b" "connection v = None"
        using continued(2) u(1,2) by (simp_all add: quiet_def)
      have "seqp (send_message (MReturn i (caps = []) (Results ds))) (answer_has_sent_return i es) v = (r, t)"
        using continued(3) by (simp add: x)
      from send_return_effect [OF v(2,1) this]
      have "effect u t i (question_view u i) (if received_finish b then None else Some (True, False)) []
          [return_kind (caps = []) (Results ds)]"
        using quiet_then_effect [OF continued(2)] quiet_views [OF continued(2)] by simp
      then have "effect s t i (question_view s i) (if received_finish b then None else Some (True, False)) []
          [return_kind (caps = []) (Results ds)]"
        using effect_trans [OF u(3)] effect_views [OF u(3)] by fastforce
      then show ?thesis
        using finished full False by (cases "caps = []") (simp_all add: b_def return_kind_def)
    qed
  qed
qed

section \<open>Handling the messages about a question\<close>

lemma ok_not_panic: "Ok x \<noteq> Panic"
  by simp

lemma gets_run: "bindp (gets g) f s = f (g s) s"
  by (simp add: bindp_def gets_def)

lemma handle_bootstrap_effect:
  assumes s: "connection s = None" and run: "handle_bootstrap i s = (Ok (), t)"
  shows "effect s t i (question_view s i) (Some (True, False)) [] [RetFull]"
proof -
  have "bindp (write_descriptors [Some (bootstrap_cap s)]) (\<lambda>(ds, es).
        bindp (gets (\<lambda>s. answers s i)) (\<lambda>found. case found of
          Some a \<Rightarrow> seqp (release_exports es) (err Failed)
        | None \<Rightarrow>
            seqp (modifyp (\<lambda>s. s\<lparr>answers := (answers s)(i \<mapsto>
              answer_new\<lparr>return_has_been_sent := True, result_exports := es, pipeline := True\<rparr>)\<rparr>))
            (send_message (MReturn i False (Results ds))))) s = (Ok (), t)" (is "bindp _ ?rest s = _")
  proof -
    have out: "new_outgoing_message s = (Ok (), s)"
      using s by (simp add: new_outgoing_message_def bindp_def gets_def ret_def)
    have "handle_bootstrap i s = bindp (write_descriptors [Some (bootstrap_cap s)]) ?rest s"
      using s by (simp add: handle_bootstrap_def gets_run seqp_Ok [of new_outgoing_message, OF out])
    then show ?thesis using run by simp
  qed
  from quiet_descriptors this ok_not_panic show ?thesis
  proof (cases rule: quiet_bindp)
    case failed
    then show ?thesis by simp
  next
    case (continued x u)
    obtain ds es where x: "x = (ds, es)" by (cases x)
    have conn: "connection u = None" using quiet_views [OF continued(2)] s by simp
    let ?a = "answer_new\<lparr>return_has_been_sent := True, result_exports := es, pipeline := True\<rparr>"
    let ?v = "u\<lparr>answers := (answers u)(i \<mapsto> ?a)\<rparr>"
    have "answers u i = None"
      using continued(3) by (cases "answers u i") (auto simp: x bindp_def seqp_def gets_def err_def
          split: prod.splits outcome.splits)
    then have send: "send_message (MReturn i False (Results ds)) ?v = (Ok (), t)"
      using continued(3) by (simp add: x bindp_def seqp_def gets_def modifyp_def)
    have 1: "effect u ?v i (question_view u i) (Some (True, False)) [] []"
      using effect_answers [of u i "Some ?a"] by (simp add: view_answer_def answer_new_def)
    have "effect ?v t i (question_view u i) (Some (True, False)) [] [RetFull]"
      using effect_send [OF send, of i] conn effect_views [OF 1]
      by (simp add: asks_of_def returns_of_def return_kind_def)
    from quiet_then_effect [OF continued(2) effect_trans [OF 1 this]] quiet_views [OF continued(2)]
    show ?thesis by simp
  qed
qed

lemma handle_call_effect:
  assumes run: "handle_call pl i target ds to s = (Ok (), t)"
  shows "answers s i = None \<and> effect s t i (question_view s i) (Some (False, False)) [] []"
  using quiet_get_target [of s pl target] run [unfolded handle_call_def] ok_not_panic
proof (cases rule: quiet_bindp)
  case failed
  then show ?thesis by simp
next
  case (continued h u)
  then have "bindp (receive_caps ds) (\<lambda>_.
       bindp (gets (\<lambda>s. answers s i)) (\<lambda>found. case found of
         Some a \<Rightarrow> err Failed
       | None \<Rightarrow> modifyp (\<lambda>s. s\<lparr>answers := (answers s)(i \<mapsto> answer_new\<lparr>pipeline := True,
           redirected_results := (to = ToYourself), call_completion := (to = ToCaller)\<rparr>)\<rparr>))) u = (Ok (), t)"
    by (auto simp: err_def split: if_splits)
  from quiet_receives this ok_not_panic show ?thesis
  proof (cases rule: quiet_bindp)
    case failed
    then show ?thesis by simp
  next
    case (continued cs v)
    let ?a = "answer_new\<lparr>pipeline := True, redirected_results := (to = ToYourself), call_completion := (to = ToCaller)\<rparr>"
    have q: "quiet s v" by (rule quiet_trans [OF \<open>quiet s u\<close> continued(2)])
    have none: "answers v i = None" and t: "t = v\<lparr>answers := (answers v)(i \<mapsto> ?a)\<rparr>"
      using continued(3) by (auto simp: bindp_def gets_def err_def modifyp_def split: option.splits)
    have "effect v t i (question_view v i) (Some (False, False)) [] []"
      using effect_answers [of v i "Some ?a"] by (simp add: t view_answer_def answer_new_def)
    from quiet_then_effect [OF q this] quiet_views [OF q] none q show ?thesis
      by (simp add: quiet_def)
  qed
qed

lemma handle_finish_effect:
  assumes run: "handle_finish i b s = (Ok (), t)"
  shows "effect s t i (question_view s i)
    (case answer_view s i of Some (sent, fin) \<Rightarrow> if sent then None else Some (False, True) | None \<Rightarrow> None) [] []"
proof (cases "answers s i")
  case None
  then have "release_exports [] s = (Ok (), t)" using run by (simp add: handle_finish_def bindp_def gets_def)
  from quiet_effect [OF quietD [OF quiet_release this], of i] None show ?thesis
    by (simp add: answer_view_def)
next
  case (Some a)
  let ?x = "if return_has_been_sent a then None
     else Some (a\<lparr>received_finish := True, pipeline := False, call_completion := False,
       result_exports := if b then [] else result_exports a\<rparr>)"
  let ?u = "s\<lparr>answers := (answers s)(i := ?x)\<rparr>"
  have "release_exports (if b then result_exports a else []) ?u = (Ok (), t)"
    using run Some by (simp add: handle_finish_def bindp_def gets_def seqp_def modifyp_def)
  then have q: "quiet ?u t" by (rule quietD [OF quiet_release]) simp
  have v: "map_option view_answer ?x = (if return_has_been_sent a then None else Some (False, True))"
    by (simp add: view_answer_def)
  have "effect s ?u i (question_view s i) (map_option view_answer ?x) [] []" by (rule effect_answers)
  from effect_then_quiet [OF this [unfolded v] q] Some show ?thesis
    by (simp add: answer_view_find view_answer_def)
qed

lemma fulfill_effect:
  assumes s: "conn_ok s" and q: "question_view s q = Some (w, True, skip)" and run: "fulfill q x s = (r, t)"
  shows "r = Ok () \<and> effect s t q (question_view s q) (answer_view s q) [] []"
proof -
  obtain qu where qu: "table_find q (questions s) = Some qu" "self_ref qu \<noteq> None" "is_awaiting_return qu = w"
    "skip_finish qu = skip"
    using q by (auto simp: question_view_def)
  have eq: "fulfill q x s = (if self_ref qu = Some True
     then seqp (set_question q (qu\<lparr>self_ref := Some False\<rparr>))
       (modifyp (\<lambda>s. s\<lparr>replies := replies s @ [(q, x)]\<rparr>)) else ret ()) s"
    using qu(1) by (simp add: fulfill_def bindp_def the_question_run)
  show ?thesis
  proof (cases "self_ref qu = Some True")
    case False
    then have "r = Ok ()" "t = s" using run eq by (simp_all add: ret_def)
    then show ?thesis using quiet_effect [OF quiet_refl] by simp
  next
    case True
    let ?u = "s\<lparr>questions := table_set q (qu\<lparr>self_ref := Some False\<rparr>) (questions s)\<rparr>"
    have "r = Ok ()" "t = ?u\<lparr>replies := replies ?u @ [(q, x)]\<rparr>"
      using run eq True by (simp_all add: seqp_def bindp_def set_question_run modifyp_def)
    moreover have "effect s ?u q (question_view s q) (answer_view s q) [] []"
      using effect_set_question [OF s, of q "qu\<lparr>self_ref := Some False\<rparr>"] qu
      by (simp add: view_question_def question_view_find)
    ultimately show ?thesis by (simp add: effect_then_quiet)
  qed
qed

lemma handle_return_effect:
  assumes s: "conn_ok s" and q: "question_view s q = Some (True, alive, False)"
    and kind: "return_kind nf body \<noteq> RetOther" "alive \<Longrightarrow> return_kind nf body \<noteq> RetCanceled"
    and run: "handle_return msg q nf body s = (Ok (), t)"
  shows "effect s t q (if alive then Some (False, True, return_kind nf body = RetDone) else None)
    (answer_view s q) [] []"
proof -
  obtain qu where qu: "table_find q (questions s) = Some qu" "(self_ref qu \<noteq> None) = alive"
    "\<not> skip_finish qu"
    using q by (auto simp: question_view_def)
  have idx: "table_index q (questions s) = Ok (Some qu)"
    using qu(1) by (simp add: table_index_def table_find_def split: if_splits)
  let ?qu = "qu\<lparr>is_awaiting_return := False, skip_finish := skip_finish qu \<or> nf\<rparr>"
  let ?u = "s\<lparr>questions := table_set q ?qu (questions s)\<rparr>"
  have u: "conn_ok ?u" by (rule set_question_ok [OF s]) (simp add: qu(1))
  have live: "table_find q (questions ?u) \<noteq> None" using find_set_question [OF s, of q q] qu(1) by simp
  have 1: "effect s ?u q (Some (False, alive, nf)) (answer_view s q) [] []"
    using effect_set_question [OF s, of q ?qu] qu by (simp add: view_question_def)
  show ?thesis
  proof (cases alive)
    case False
    then have none: "self_ref qu = None" using qu(2) by simp
    have "on_questions (table_erase q) ?u = (Ok (), t)"
      using run idx none kind(1) unfolding handle_return_def
      by (cases body) (simp_all add: bindp_def seqp_def gets_def set_question_run return_kind_def)
    moreover obtain tq where "on_questions (table_erase q) ?u = (Ok (), ?u\<lparr>questions := tq\<rparr>)"
      "\<And>j. table_find j tq = (if j = q then None else table_find j (questions ?u))"
      using erase_question_run [OF u live] by blast
    ultimately have "effect ?u t q None (answer_view ?u q) [] []"
      using effect_questions [of tq q None ?u] by simp
    then show ?thesis using effect_trans [OF 1] effect_views [OF 1] False by fastforce
  next
    case True
    then have some: "self_ref qu \<noteq> None" using qu(2) by simp
    have view: "question_view ?u q = Some (False, True, nf)" using effect_views [OF 1] True by simp
    have "effect ?u t q (Some (False, True, nf)) (answer_view ?u q) [] [] \<and> (return_kind nf body = RetDone) = nf"
    proof (cases body)
      case (Results ds)
      have "bindp (receive_caps ds) (\<lambda>cs. fulfill q (ReplyResults cs)) ?u = (Ok (), t)"
        using run idx some Results unfolding handle_return_def
        by (simp add: bindp_def seqp_def gets_def set_question_run)
      from quiet_receives this ok_not_panic show ?thesis
      proof (cases rule: quiet_bindp)
        case failed
        then show ?thesis by simp
      next
        case (continued cs v)
        have v: "conn_ok v" using maintainsD [OF receive_caps_maintains(3) u continued(1)] by simp
        have "question_view v q = Some (False, True, nf)" using quiet_views [OF continued(2)] view by simp
        from fulfill_effect [OF v this continued(3)] quiet_then_effect [OF continued(2)] quiet_views [OF continued(2)]
          view Results show ?thesis by (simp add: return_kind_def)
      qed
    next
      case (ReturnException e)
      have "fulfill q (ReplyError (remote_exception_to_error e)) ?u = (Ok (), t)"
        using run idx some ReturnException unfolding handle_return_def
        by (simp add: bindp_def seqp_def gets_def set_question_run)
      from fulfill_effect [OF u view this] view ReturnException show ?thesis by (simp add: return_kind_def)
    qed (use kind True in \<open>auto simp: return_kind_def split: if_splits\<close>)
    then show ?thesis using effect_trans [OF 1] effect_views [OF 1] True by fastforce
  qed
qed

section \<open>Two ends\<close>

text \<open>
  \<open>ends\<close> are the two connection states and \<open>handled x\<close> the number of messages of the other end
  that the end \<open>x\<close> has handled; what the other end has sent beyond that is on its way to \<open>x\<close>.
\<close>

record network =
  ends :: "bool \<Rightarrow> connection_state"
  handled :: "bool \<Rightarrow> nat"

definition in_flight :: "network \<Rightarrow> bool \<Rightarrow> rpc_message list" where
  "in_flight n x = drop (handled n x) (outbox (ends n (\<not> x)))"

definition network_new :: "(bool \<Rightarrow> client_hook) \<Rightarrow> network" where
  "network_new h = \<lparr>ends = (\<lambda>x. connection_new (h x)), handled = (\<lambda>x. 0)\<rparr>"

text \<open>
  What the application can do at an end: use only imports that are there, since a client keeps its
  import alive, drop only references that are there, complete each call once. Tail calls are left
  out: nothing in the library issues them.
\<close>

fun target_alive :: "connection_state \<Rightarrow> message_target \<Rightarrow> bool" where
  "target_alive s (ImportedCap i) \<longleftrightarrow> import_table s i \<noteq> None"
| "target_alive s (PromisedAnswer q ops) \<longleftrightarrow> True"

fun hook_alive :: "connection_state \<Rightarrow> client_hook \<Rightarrow> bool" where
  "hook_alive s (ImportHook i) \<longleftrightarrow> import_table s i \<noteq> None"
| "hook_alive s (PromiseHook a c r) \<longleftrightarrow> hook_alive s c"
| "hook_alive s _ \<longleftrightarrow> True"

definition allowed :: "rpc_event \<Rightarrow> connection_state \<Rightarrow> bool" where
  "allowed ev s \<longleftrightarrow> (case ev of
     SendCall target ifc meth caps tail \<Rightarrow> \<not> tail \<and> target_alive s target
   | SendStreaming target ifc meth caps b \<Rightarrow> target_alive s target
   | RequestSend h ifc meth caps \<Rightarrow> hook_alive s h
   | DropQuestionRef q \<Rightarrow> (case table_find q (questions s) of Some qu \<Rightarrow> self_ref qu \<noteq> None | None \<Rightarrow> False)
   | ResultsDone i status caps \<Rightarrow> (case answers s i of Some a \<Rightarrow> \<not> return_has_been_sent a | None \<Rightarrow> False)
   | Incoming msg \<Rightarrow> False
   | Shutdown \<Rightarrow> False
   | _ \<Rightarrow> True)"

inductive network_step :: "network \<Rightarrow> network \<Rightarrow> bool" where
  local: "allowed ev (ends n x) \<Longrightarrow> rpc_step pl now ev (ends n x) = (r, t) \<Longrightarrow> r \<noteq> Panic \<Longrightarrow>
    network_step n (n\<lparr>ends := (ends n)(x := t)\<rparr>)"
| deliver: "in_flight n x = msg # rest \<Longrightarrow> handle_message pl now msg (ends n x) = (Ok (), t) \<Longrightarrow>
    network_step n (n\<lparr>ends := (ends n)(x := t), handled := (handled n)(x := Suc (handled n x))\<rparr>)"

inductive network_reachable :: "network \<Rightarrow> bool" where
  start: "network_reachable (network_new h)"
| step: "network_reachable n \<Longrightarrow> network_step n m \<Longrightarrow> network_reachable m"

definition network_inv :: "network \<Rightarrow> bool" where
  "network_inv n \<longleftrightarrow>
     (\<forall>x. conn_ok (ends n x) \<and> connection (ends n x) = None \<and>
        handled n x \<le> length (outbox (ends n (\<not> x)))) \<and>
     (\<forall>x q. config (question_view (ends n x) q) (answer_view (ends n (\<not> x)) q)
        (asks q (in_flight n (\<not> x))) (returns q (in_flight n x)))"

lemma network_inv_new: "network_inv (network_new h)"
proof -
  have "question_view (connection_new h') q = None" "answer_view (connection_new h') q = None"
    "outbox (connection_new h') = []" "connection (connection_new h') = None" for h' q
    by (simp_all add: question_view_def answer_view_def connection_new_def)
  then show ?thesis by (simp add: network_inv_def network_new_def in_flight_def conn_ok_new)
qed

text \<open>
  One lemma for all steps: the end \<open>x\<close> takes the messages \<open>hm\<close> (none or one) and has an effect on
  the id \<open>i\<close>, both as the one who asks under \<open>i\<close> and as the one who answers.
\<close>

lemma network_inv_effect:
  assumes inv: "network_inv n" and flight: "in_flight n x = hm @ rest"
    and eff: "effect (ends n x) t i q a fwd bwd" and t: "conn_ok t"
    and other: "\<And>j. j \<noteq> i \<Longrightarrow> asks j hm = [] \<and> returns j hm = []"
    and asker: "\<And>av fw bw. config (question_view (ends n x) i) av fw (returns i hm @ bw) \<Longrightarrow> config q av (fw @ fwd) bw"
    and answerer: "\<And>qv fw bw. config qv (answer_view (ends n x) i) (asks i hm @ fw) bw \<Longrightarrow> config qv a fw (bw @ bwd)"
  shows "network_inv (n\<lparr>ends := (ends n)(x := t), handled := (handled n)(x := handled n x + length hm)\<rparr>)"
    (is "network_inv ?m")
proof -
  let ?s = "ends n x"
  have ok: "\<And>y. conn_ok (ends n y)" "\<And>y. connection (ends n y) = None"
    "\<And>y. handled n y \<le> length (outbox (ends n (\<not> y)))"
    and cfg: "\<And>y q. config (question_view (ends n y) q) (answer_view (ends n (\<not> y)) q)
        (asks q (in_flight n (\<not> y))) (returns q (in_flight n y))"
    using inv by (auto simp: network_inv_def)
  obtain ms where ms: "outbox t = outbox ?s @ ms" "\<And>j. asks j ms = (if j = i then fwd else [])"
    "\<And>j. returns j ms = (if j = i then bwd else [])"
    using eff by (auto simp: effect_def)
  have views: "connection t = None" "\<And>j. question_view t j = (if j = i then q else question_view ?s j)"
    "\<And>j. answer_view t j = (if j = i then a else answer_view ?s j)"
    using eff ok(2) by (auto simp: effect_def)
  have here: "in_flight ?m x = rest"
    using flight by (simp add: in_flight_def drop_drop [symmetric] add.commute del: drop_drop)
  have there: "in_flight ?m (\<not> x) = in_flight n (\<not> x) @ ms"
    using ok(3) [of "\<not> x"] by (simp add: in_flight_def ms(1))
  have len: "handled n x + length hm \<le> length (outbox (ends n (\<not> x)))"
  proof -
    have "length (in_flight n x) = length hm + length rest" using flight by simp
    then show ?thesis using ok(3) [of x] by (simp add: in_flight_def)
  qed
  have asks: "asks j rest = (if j = i then asks i rest else asks j (in_flight n x))"
    "returns j rest = (if j = i then returns i rest else returns j (in_flight n x))" for j
    using other [of j] flight by simp_all
  have as_asker: "config (question_view t j) (answer_view (ends n (\<not> x)) j)
      (asks j (in_flight n (\<not> x) @ ms)) (returns j rest)" for j
  proof (cases "j = i")
    case True
    have "config (question_view ?s i) (answer_view (ends n (\<not> x)) i) (asks i (in_flight n (\<not> x)))
        (returns i hm @ returns i rest)"
      using cfg [of x i] flight by simp
    from asker [OF this] True show ?thesis by (simp add: views(2) ms(2))
  next
    case False
    then show ?thesis using cfg [of x j] asks(2) [of j] by (simp add: views(2) ms(2))
  qed
  have as_answerer: "config (question_view (ends n (\<not> x)) j) (answer_view t j)
      (asks j rest) (returns j (in_flight n (\<not> x) @ ms))" for j
  proof (cases "j = i")
    case True
    have "config (question_view (ends n (\<not> x)) i) (answer_view ?s i) (asks i hm @ asks i rest)
        (returns i (in_flight n (\<not> x)))"
      using cfg [of "\<not> x" i] flight by simp
    from answerer [OF this] True show ?thesis by (simp add: views(3) ms(3))
  next
    case False
    then show ?thesis using cfg [of "\<not> x" j] asks(1) [of j] by (simp add: views(3) ms(3))
  qed
  show ?thesis
    unfolding network_inv_def
  proof (intro conjI allI)
    fix y
    show "conn_ok (ends ?m y)" using t ok(1) by simp
    show "connection (ends ?m y) = None" using views(1) ok(2) by simp
    show "handled ?m y \<le> length (outbox (ends ?m (\<not> y)))"
      using len ok(3) [of y] by (cases "y = x") (auto simp: ms(1))
  next
    fix y j
    show "config (question_view (ends ?m y) j) (answer_view (ends ?m (\<not> y)) j)
        (asks j (in_flight ?m (\<not> y))) (returns j (in_flight ?m y))"
    proof (cases "y = x")
      case True
      then show ?thesis using as_asker [of j] here there by simp
    next
      case False
      then have "y = (\<not> x)" by auto
      then show ?thesis using as_answerer [of j] here there by simp
    qed
  qed
qed

lemma network_inv_local:
  assumes "network_inv n" "effect (ends n x) t i q a fwd bwd" "conn_ok t"
    "\<And>av fw bw. config (question_view (ends n x) i) av fw bw \<Longrightarrow> config q av (fw @ fwd) bw"
    "\<And>qv fw bw. config qv (answer_view (ends n x) i) fw bw \<Longrightarrow> config qv a fw (bw @ bwd)"
  shows "network_inv (n\<lparr>ends := (ends n)(x := t)\<rparr>)"
  using network_inv_effect [OF assms(1), of x "[]" "in_flight n x" t i q a fwd bwd] assms by simp

lemma network_inv_quiet:
  assumes "network_inv n" "quiet (ends n x) t" "conn_ok t"
  shows "network_inv (n\<lparr>ends := (ends n)(x := t)\<rparr>)"
  by (rule network_inv_local [OF assms(1) quiet_effect [OF assms(2), of 0] assms(3)]) simp_all

lemma network_inv_ask:
  assumes "network_inv n" "question_view (ends n x) q = None" "conn_ok t"
    "effect (ends n x) t q (Some (True, True, False)) (answer_view (ends n x) q) [Ask] []"
  shows "network_inv (n\<lparr>ends := (ends n)(x := t)\<rparr>)"
  by (rule network_inv_local [OF assms(1,4,3)]) (use assms(2) config_ask in auto)

lemma rpc_step_unit: "seqp m (ret ()) s = (r, t) \<Longrightarrow> \<exists>r'. m s = (r', t) \<and> (r' = Panic \<longleftrightarrow> r = Panic)"
  by (auto simp: seqp_def bindp_def ret_def split: prod.splits outcome.splits)

lemma network_inv_local_step:
  assumes inv: "network_inv n" and al: "allowed ev (ends n x)"
    and run: "rpc_step pl now ev (ends n x) = (r, t)" "r \<noteq> Panic"
  shows "network_inv (n\<lparr>ends := (ends n)(x := t)\<rparr>)"
proof -
  let ?s = "ends n x"
  have s: "conn_ok ?s" "connection ?s = None" using inv by (simp_all add: network_inv_def)
  have t: "conn_ok t" by (rule maintainsD [OF rpc_step_maintains s(1) run])
  have quiet: "network_inv (n\<lparr>ends := (ends n)(x := t)\<rparr>)" if "maintains (quiet ?s) (rpc_step pl now ev)"
    by (rule network_inv_quiet [OF inv quietD [OF that run] t])
  show ?thesis
  proof (cases ev)
    case (SendCall target ifc meth caps tail)
    obtain r' where "send_call target ifc meth caps tail ?s = (r', t)" "r' \<noteq> Panic"
      using rpc_step_unit [of "send_call target ifc meth caps tail" ?s r t] run SendCall by auto
    then show ?thesis
      by (rule send_call_effect [OF s]) (auto intro: network_inv_quiet network_inv_ask inv t)
  next
    case (SendStreaming target ifc meth caps b)
    obtain r' where "send_streaming target ifc meth caps b ?s = (r', t)" "r' \<noteq> Panic"
      using rpc_step_unit [of "send_streaming target ifc meth caps b" ?s r t] run SendStreaming by auto
    then show ?thesis
      by (rule send_streaming_effect [OF s]) (auto intro: network_inv_quiet network_inv_ask inv t)
  next
    case (RequestSend h ifc meth caps)
    obtain r' where "request_send h ifc meth caps ?s = (r', t)" "r' \<noteq> Panic"
      using rpc_step_unit [of "request_send h ifc meth caps" ?s r t] run RequestSend by auto
    then show ?thesis
      by (rule request_send_effect [OF s]) (auto intro: network_inv_quiet network_inv_ask inv t)
  next
    case SendBootstrap
    obtain r' where "bootstrap ?s = (r', t)" "r' \<noteq> Panic"
      using rpc_step_unit [of bootstrap ?s r t] run SendBootstrap by auto
    then show ?thesis
      by (rule bootstrap_effect [OF s]) (auto intro: network_inv_ask inv t)
  next
    case (DropQuestionRef q)
    then obtain w skip where view: "question_view ?s q = Some (w, True, skip)"
      using al by (auto simp: allowed_def question_view_def split: option.splits)
    have "drop_question_ref q ?s = (r, t)" using run DropQuestionRef by simp
    from drop_question_ref_effect [OF s view this] show ?thesis
      by (rule network_inv_local [OF inv _ t]) (use config_drop view in auto)
  next
    case (ResultsDone i status caps)
    then obtain a where a: "answers ?s i = Some a" "\<not> return_has_been_sent a"
      using al by (auto simp: allowed_def split: option.splits)
    then have view: "answer_view ?s i = Some (False, received_finish a)" by (simp add: answer_view_def)
    have "results_done i status caps ?s = (r, t)" using run ResultsDone by simp
    from s(2) a this run(2) show ?thesis
    proof (cases rule: results_done_effect)
      case canceled
      show ?thesis
        by (rule network_inv_local [OF inv canceled(2) t]) (use canceled(1) view config_answer in fastforce)+
    next
      case finished
      show ?thesis
        by (rule network_inv_local [OF inv finished(2) t]) (use finished(1) view config_answer in fastforce)+
    next
      case full
      show ?thesis
        by (rule network_inv_local [OF inv full(2) t]) (use full(1) view config_answer in fastforce)+
    next
      case failed
      show ?thesis by (rule network_inv_quiet [OF inv failed t])
    qed
  next
    case (GetPipelinedCap q ops b)
    show ?thesis
      by (rule quiet) (use GetPipelinedCap in \<open>auto intro!: keep_rules quiet_rules\<close>)
  qed (use al quiet in \<open>auto simp: allowed_def intro!: quiet_rules\<close>)
qed

lemma network_inv_deliver_effect:
  assumes "network_inv n" "in_flight n x = msg # rest" "effect (ends n x) t i q a fwd bwd" "conn_ok t"
    "\<And>j. j \<noteq> i \<Longrightarrow> asks_of j msg = [] \<and> returns_of j msg = []"
    "\<And>av fw bw. config (question_view (ends n x) i) av fw (returns_of i msg @ bw) \<Longrightarrow> config q av (fw @ fwd) bw"
    "\<And>qv fw bw. config qv (answer_view (ends n x) i) (asks_of i msg @ fw) bw \<Longrightarrow> config qv a fw (bw @ bwd)"
  shows "network_inv (n\<lparr>ends := (ends n)(x := t), handled := (handled n)(x := Suc (handled n x))\<rparr>)"
  using network_inv_effect [OF assms(1), of x "[msg]" rest t i q a fwd bwd] assms by simp

text \<open>The head of what is under way fits the tables of the end that handles it.\<close>

lemma head_config:
  assumes "network_inv n" "in_flight n x = msg # rest"
  shows "config (question_view (ends n (\<not> x)) i) (answer_view (ends n x) i) (asks_of i msg @ asks i rest)
      (returns i (in_flight n (\<not> x)))"
    and "config (question_view (ends n x) i) (answer_view (ends n (\<not> x)) i) (asks i (in_flight n (\<not> x)))
      (returns_of i msg @ returns i rest)"
proof -
  have c: "config (question_view (ends n y) q) (answer_view (ends n (\<not> y)) q)
        (asks q (in_flight n (\<not> y))) (returns q (in_flight n y))" for y q
    using assms(1) by (simp add: network_inv_def)
  show "config (question_view (ends n (\<not> x)) i) (answer_view (ends n x) i) (asks_of i msg @ asks i rest)
      (returns i (in_flight n (\<not> x)))"
    using c [of "\<not> x" i] assms(2) by simp
  show "config (question_view (ends n x) i) (answer_view (ends n (\<not> x)) i) (asks i (in_flight n (\<not> x)))
      (returns_of i msg @ returns i rest)"
    using c [of x i] assms(2) by simp
qed

lemma network_inv_deliver_step:
  assumes inv: "network_inv n" and head: "in_flight n x = msg # rest"
    and run: "handle_message pl now msg (ends n x) = (Ok (), t)"
  shows "network_inv (n\<lparr>ends := (ends n)(x := t), handled := (handled n)(x := Suc (handled n x))\<rparr>)"
    (is "network_inv ?m")
proof -
  let ?s = "ends n x"
  have s: "conn_ok ?s" "connection ?s = None" using inv by (simp_all add: network_inv_def)
  have t: "conn_ok t" by (rule maintainsD [OF handle_message_maintains s(1) run]) simp
  have quiet: "network_inv ?m"
    if "quiet ?s t" "\<And>j. asks_of j msg = [] \<and> returns_of j msg = []"
    by (rule network_inv_deliver_effect [OF inv head quiet_effect [OF that(1), of 0] t]) (use that(2) in simp_all)
  have quiet_run: "network_inv ?m" if "maintains (quiet ?s) (handle_message pl now msg)"
    "\<And>j. asks_of j msg = [] \<and> returns_of j msg = []"
    by (rule quiet [OF quietD [OF that(1) run]]) (use that(2) in simp_all)
  show ?thesis
  proof (cases msg)
    case (MBootstrap i)
    have "handle_bootstrap i ?s = (Ok (), t)" using run MBootstrap by (simp add: handle_message_def)
    from handle_bootstrap_effect [OF s(2) this] show ?thesis
      by (rule network_inv_deliver_effect [OF inv head _ t])
        (use MBootstrap config_asked in \<open>auto simp: asks_of_def returns_of_def\<close>)
  next
    case (MCall i target ifc meth ds to)
    have "handle_call pl i target ds to ?s = (Ok (), t)" using run MCall by (simp add: handle_message_def)
    from conjunct2 [OF handle_call_effect [OF this]] show ?thesis
      by (rule network_inv_deliver_effect [OF inv head _ t])
        (use MCall config_asked in \<open>auto simp: asks_of_def returns_of_def\<close>)
  next
    case (MFinish i b)
    have "handle_finish i b ?s = (Ok (), t)" using run MFinish by (simp add: handle_message_def)
    from handle_finish_effect [OF this] show ?thesis
      by (rule network_inv_deliver_effect [OF inv head _ t])
        (use MFinish config_finish in \<open>auto simp: asks_of_def returns_of_def\<close>)
  next
    case (MReturn q nf body)
    obtain alive where c: "question_view ?s q = Some (True, alive, False)" "return_kind nf body \<noteq> RetOther"
      "alive \<Longrightarrow> return_kind nf body \<noteq> RetCanceled"
      using config_return [OF head_config(2) [OF inv head, of q, unfolded MReturn returns_of_def, simplified]]
      by blast
    have "handle_return msg q nf body ?s = (Ok (), t)" using run MReturn by (simp add: handle_message_def)
    from handle_return_effect [OF s(1) c this] show ?thesis
      by (rule network_inv_deliver_effect [OF inv head _ t])
        (use MReturn config_return c(1) in \<open>fastforce simp: asks_of_def returns_of_def\<close>)+
  next
    case MAbort
    then show ?thesis using run by (simp add: handle_message_def err_def)
  qed (rule quiet_run;
    auto simp: handle_message_def asks_of_def returns_of_def intro!: keep_rules quiet_rules)+
qed

lemma network_reachable_inv: "network_reachable n \<Longrightarrow> network_inv n"
proof (induction rule: network_reachable.induct)
  case start
  show ?case by (rule network_inv_new)
next
  case (step n m)
  from step.hyps(2) show ?case
  proof cases
    case local
    with step.IH show ?thesis by (auto intro: network_inv_local_step)
  next
    case deliver
    with step.IH show ?thesis by (auto intro: network_inv_deliver_step)
  qed
qed

text \<open>C2: Two ends running this code never accuse each other over question ids, although ids are
  reused as soon as they are free and messages take arbitrarily long: a \<open>Bootstrap\<close> or \<open>Call\<close> that
  arrives finds its id unused among the answers, and a \<open>Return\<close> that arrives finds its question in
  the table, still awaiting it, and brings a result when somebody still refers to the question.\<close>

theorem question_ids_never_clash:
  assumes "network_reachable n" "in_flight n x = msg # rest"
  shows "case msg of
      MBootstrap i \<Rightarrow> answers (ends n x) i = None
    | MCall i target ifc meth ds to \<Rightarrow> answers (ends n x) i = None
    | MReturn q no_finish body \<Rightarrow> (\<exists>qu. table_find q (questions (ends n x)) = Some qu \<and> is_awaiting_return qu \<and>
        (self_ref qu = None \<or> (\<exists>ds. body = Results ds) \<or> (\<exists>e. body = ReturnException e)))
    | _ \<Rightarrow> True"
proof -
  have inv: "network_inv n" by (rule network_reachable_inv [OF assms(1)])
  note head = head_config [OF inv assms(2)]
  show ?thesis
  proof (cases msg)
    case (MBootstrap i)
    then have "answer_view (ends n x) i = None"
      using config_asked head(1) [of i] by (simp add: asks_of_def)
    then show ?thesis using MBootstrap by (simp add: answer_view_def)
  next
    case (MCall i target ifc meth ds to)
    then have "answer_view (ends n x) i = None"
      using config_asked head(1) [of i] by (simp add: asks_of_def)
    then show ?thesis using MCall by (simp add: answer_view_def)
  next
    case (MReturn q nf body)
    obtain alive where c: "question_view (ends n x) q = Some (True, alive, False)"
      "return_kind nf body \<noteq> RetOther" "alive \<Longrightarrow> return_kind nf body \<noteq> RetCanceled"
      using config_return [OF head(2) [of q, unfolded MReturn returns_of_def, simplified]] by blast
    then show ?thesis using MReturn
      by (cases body) (auto simp: question_view_def return_kind_def split: if_splits)
  qed simp_all
qed

text \<open>A client asks for the bootstrap capability of a server, which answers.\<close>

definition asking_end :: connection_state where
  "asking_end = snd (bootstrap (connection_new (LocalHook 5 None False)))"

definition answering_end :: connection_state where
  "answering_end = snd (handle_bootstrap 0 (connection_new (LocalHook 5 None False)))"

definition sample_network :: network where
  "sample_network = \<lparr>ends = (\<lambda>x. if x then asking_end else answering_end),
     handled = (\<lambda>x. if x then 0 else 1)\<rparr>"

lemmas run_connection = bootstrap_def handle_bootstrap_def write_descriptors_def export_cap_def run_simps
  connection_new_def on_exports_def on_questions_def table_push_def table_new_def new_outgoing_message_def
  register_ref_def the_question_def table_index_def set_question_def send_message_def

lemma sample_ends:
  "bootstrap (connection_new (LocalHook 5 None False)) = (Ok 0, asking_end)"
  "handle_bootstrap 0 (connection_new (LocalHook 5 None False)) = (Ok (), answering_end)"
  "outbox asking_end = [MBootstrap 0]" "outbox answering_end = [MReturn 0 False (Results [SenderHosted 0])]"
  by (simp_all add: asking_end_def answering_end_def run_connection)

lemma sample_network_reachable: "network_reachable sample_network"
proof -
  let ?h = "\<lambda>x :: bool. LocalHook 5 None False"
  let ?n = "network_new ?h"
  let ?m = "?n\<lparr>ends := (ends ?n)(True := asking_end)\<rparr>"
  have "network_step ?n ?m"
    by (rule network_step.local [where ev = SendBootstrap and r = "Ok ()"])
      (simp_all add: allowed_def network_new_def seqp_def bindp_def sample_ends(1) ret_def)
  then have m: "network_reachable ?m" by (rule network_reachable.step [OF network_reachable.start])
  have "handle_message pl now (MBootstrap 0) (ends ?m False) = (Ok (), answering_end)" for pl now
    by (simp add: handle_message_def network_new_def sample_ends(2))
  moreover have "in_flight ?m False = MBootstrap 0 # []"
    by (simp add: in_flight_def network_new_def sample_ends(3))
  ultimately have "network_step ?m (?m\<lparr>ends := (ends ?m)(False := answering_end),
      handled := (handled ?m)(False := Suc (handled ?m False))\<rparr>)"
    by (intro network_step.deliver)
  moreover have "?m\<lparr>ends := (ends ?m)(False := answering_end),
      handled := (handled ?m)(False := Suc (handled ?m False))\<rparr> = sample_network"
    by (auto simp: sample_network_def network_new_def fun_eq_iff)
  ultimately show ?thesis using network_reachable.step [OF m] by simp
qed

lemma question_ids_never_clash_witness:
  "in_flight sample_network True = [MReturn 0 False (Results [SenderHosted 0])] \<and>
   (\<exists>qu. table_find 0 (questions (ends sample_network True)) = Some qu \<and> is_awaiting_return qu)"
proof -
  have flight: "in_flight sample_network True = [MReturn 0 False (Results [SenderHosted 0])]"
    by (simp add: in_flight_def sample_network_def sample_ends(4))
  from question_ids_never_clash [OF sample_network_reachable flight] flight show ?thesis by auto
qed

end
