(* ===== verification/Rpc_Runs.thy ===== *)
theory Rpc_Runs
  imports Rpc_Protocol
begin

text \<open>
  Concrete runs of the two ends of a connection, computed by the definitions of the code, and what
  holds when a run has come to rest.
\<close>

section \<open>Running two ends\<close>

text \<open>
  Runs of two ends: at an end something happens, or it handles the next message. The hooks that
  the code outside would supply are fixed.
\<close>

datatype network_action = Happens bool rpc_event | Handles bool

definition no_pipelines :: pipelines where
  "no_pipelines q ops = LocalHook 0 None False"

fun run_network :: "network_action list \<Rightarrow> network \<Rightarrow> network option" where
  "run_network [] n = Some n"
| "run_network (Happens x ev # as) n =
     (if allowed ev (ends n x) then (case rpc_step no_pipelines id ev (ends n x) of
        (Ok _, t) \<Rightarrow> run_network as (n\<lparr>ends := (ends n)(x := t)\<rparr>)
      | _ \<Rightarrow> None)
      else None)"
| "run_network (Handles x # as) n = (case in_flight n x of
     [] \<Rightarrow> None
   | msg # _ \<Rightarrow> (case handle_message no_pipelines id msg (ends n x) of
       (Ok _, t) \<Rightarrow> run_network as (n\<lparr>ends := (ends n)(x := t), handled := (handled n)(x := Suc (handled n x))\<rparr>)
     | _ \<Rightarrow> None))"

lemma run_network_reachable:
  "run_network as n = Some m \<Longrightarrow> network_reachable n \<Longrightarrow> network_reachable m"
proof (induction as n rule: run_network.induct)
  case (1 n)
  then show ?case by simp
next
  case (2 x ev as n)
  then obtain t where "allowed ev (ends n x)" "rpc_step no_pipelines id ev (ends n x) = (Ok (), t)"
    "run_network as (n\<lparr>ends := (ends n)(x := t)\<rparr>) = Some m"
    by (auto split: if_splits prod.splits outcome.splits)
  moreover from this have "network_step n (n\<lparr>ends := (ends n)(x := t)\<rparr>)"
    by (intro network_step.local [where r = "Ok ()"]) simp_all
  ultimately show ?case using "2.IH" "2.prems"(2) network_reachable.step by auto
next
  case (3 x as n)
  then obtain msg rest t where *: "in_flight n x = msg # rest"
    "handle_message no_pipelines id msg (ends n x) = (Ok (), t)"
    "run_network as (n\<lparr>ends := (ends n)(x := t), handled := (handled n)(x := Suc (handled n x))\<rparr>) = Some m"
    by (auto split: list.splits prod.splits outcome.splits)
  from network_step.deliver [OF *(1,2)] show ?case
    using "3.IH" * "3.prems"(2) network_reachable.step by auto
qed

lemmas run_calls = handle_message_def handle_return_def receive_caps_def receive_cap_def import_cap_def
  update_import_def import_entry_new_def client_new_def fulfill_def question_new_def table_set_def
  request_send_def send_call_def handle_call_def get_message_target_def promise_client_new_def
  table_find_def drop_promise_client_def drop_import_def forget_ptr_def release_export_def
  table_erase_def answer_new_def export_entry_new_def

lemmas run_resolutions = exported_promise_resolved_def repoint_export_def reuses_export_def
  announce_resolution_def downcast_def from_ptr_def upgradable_def handle_resolve_def
  promise_resolve_def update_promise_def

section \<open>At rest\<close>

text \<open>C9: When nothing is under way between two ends, their tables agree: no answer is kept for a
  question that is gone, and a question that nobody refers to any more is kept only as long as its
  call is still being computed, which then has been told that nobody waits for it.\<close>

theorem idle_tables_agree:
  assumes "network_reachable n" "in_flight n x = []" "in_flight n (\<not> x) = []"
  shows "(answers (ends n (\<not> x)) q \<noteq> None \<longrightarrow> table_find q (questions (ends n x)) \<noteq> None) \<and>
    (\<forall>qu. table_find q (questions (ends n x)) = Some qu \<and> self_ref qu = None \<longrightarrow>
      (\<exists>a. answers (ends n (\<not> x)) q = Some a \<and> \<not> return_has_been_sent a \<and> received_finish a))"
proof -
  have c: "config (question_view (ends n x) q) (answer_view (ends n (\<not> x)) q) [] []"
    using network_reachable_inv [OF assms(1)] assms(2,3) by (metis message_lists(1,2) network_inv_def)
  have "\<exists>a. answers (ends n (\<not> x)) q = Some a \<and> \<not> return_has_been_sent a \<and> received_finish a"
    if "table_find q (questions (ends n x)) = Some qu" "self_ref qu = None" for qu
    using c that by (cases "is_awaiting_return qu") (auto simp: question_view_def answer_view_def)
  moreover have "table_find q (questions (ends n x)) \<noteq> None" if "answers (ends n (\<not> x)) q \<noteq> None"
    using c that by (cases "table_find q (questions (ends n x))") (auto simp: question_view_def answer_view_def)
  ultimately show ?thesis by blast
qed

text \<open>A client asks for the bootstrap capability, calls it, and drops the call; the server learns
  of that while the call is still being computed.\<close>

definition canceled_call :: "network_action list" where
  "canceled_call =
     [Happens True SendBootstrap, Handles False, Handles True,
      Happens True (RequestSend (ImportHook 0) 1 2 []), Happens True (DropQuestionRef 1),
      Handles False, Handles False]"

definition canceled_network :: network where
  "canceled_network = the (run_network canceled_call (network_new (\<lambda>x. LocalHook 5 None False)))"

lemmas run_drops = drop_question_ref_def handle_finish_def release_exports_def

lemma canceled_call_runs:
  "\<exists>n. run_network canceled_call (network_new (\<lambda>x. LocalHook 5 None False)) = Some n \<and>
     in_flight n True = [] \<and> in_flight n False = [] \<and>
     map_option self_ref (table_find 1 (questions (ends n True))) = Some None"
  unfolding canceled_call_def
  by (simp add: network_new_def allowed_def in_flight_def run_connection run_calls run_drops
      bindp_def seqp_def ret_def)

lemma idle_tables_agree_witness:
  "in_flight canceled_network True = [] \<and> in_flight canceled_network False = [] \<and>
   (\<exists>qu a. table_find 1 (questions (ends canceled_network True)) = Some qu \<and> self_ref qu = None \<and>
      answers (ends canceled_network False) 1 = Some a \<and> received_finish a)"
proof -
  obtain n qu where run: "run_network canceled_call (network_new (\<lambda>x. LocalHook 5 None False)) = Some n"
    and flight: "in_flight n True = []" "in_flight n False = []"
    and qu: "table_find 1 (questions (ends n True)) = Some qu" "self_ref qu = None"
    using canceled_call_runs by auto
  have "network_reachable n" by (rule run_network_reachable [OF run network_reachable.start])
  from idle_tables_agree [OF this, of True 1] flight qu show ?thesis
    by (auto simp: canceled_network_def run)
qed

end
