(* ===== verification/Rpc_Defects.thy ===== *)
theory Rpc_Defects
  imports Rpc_Runs
begin

text \<open>
  Where the connection does not do what it means to, as runs of the model: what stays behind after
  a disconnect, a client that is taken for gone because a second client of the same import is, a
  promise that is announced as a settled capability, and messages of a peer that panic.
\<close>

section \<open>After a disconnect\<close>

lemma reject_questions_index: "maintains (\<lambda>t. exports_by_cap t = b) (reject_questions e)"
  unfolding reject_questions_def fulfill_def the_question_def set_question_def
  by (intro keep_rules) (simp_all add: maintains_def ret_def panic_def split: outcome.splits option.splits)

lemma disconnect_run:
  assumes "disconnect e s = (Ok (), t)" "connection s = None"
  shows "exports t = table_new" "exports_by_cap t = exports_by_cap s" "connection t = Some e"
proof -
  obtain r u where rej: "reject_questions e s = (r, u)" by (cases "reject_questions e s")
  then obtain x where r: "r = Ok x" using assms by (cases r) (auto simp: disconnect_def run_simps)
  have "exports_by_cap u = exports_by_cap s"
    using maintainsD [OF reject_questions_index refl rej] r by simp
  then show "exports t = table_new" "exports_by_cap t = exports_by_cap s" "connection t = Some e"
    using assms rej r by (auto simp: disconnect_def run_simps send_message_def split: if_splits)
qed

text \<open>The disconnect empties the export table but not its index. A request that was built
  before the disconnect and passes a capability that was exported before still finds the capability
  in the index, looks for an export that is gone, and panics instead of failing.\<close>

theorem exporting_after_disconnect_panics:
  assumes "connection s = None" "exports_by_cap s (LocalPtr a) = Some i"
    and "disconnect e s = (Ok (), t)"
  shows "fst (send_call target ifc meth [Some (LocalHook a None w)] False t) = Panic"
  using disconnect_run [OF assms(3,1)] assms(2)
  by (simp add: send_call_def write_descriptors_def export_cap_def run_simps)

lemma exporting_after_disconnect_panics_witness:
  "fst (send_call (ImportedCap 0) 1 2 [Some (LocalHook 7 None False)] False
     (snd (disconnect Disconnected sample_connection))) = Panic"
proof -
  have "fst (disconnect Disconnected sample_connection) = Ok ()"
    by (simp add: disconnect_def reject_questions_def fulfill_def sample_connection_def send_call_def
        run_connection question_new_def table_set_def)
  then have "disconnect Disconnected sample_connection = (Ok (), snd (disconnect Disconnected sample_connection))"
    by (metis prod.collapse)
  from exporting_after_disconnect_panics [OF sample_connection_exports(3) _ this, of 7 0] show ?thesis
    by (simp add: sample_connection_exports)
qed

section \<open>Two clients of one import\<close>

lemma import_again:
  assumes "import_cap i False s = (Ok c, t)"
  shows "c = ImportRef i (next_object s)" "next_object t = Suc (next_object s)"
    "flows t = insert (next_object s) (flows s)" "client_downcast_map t (ImportPtr i) = Some (next_object s)"
  using assms by (auto simp: import_cap_def client_new_def run_simps update_import_def split: option.splits if_splits)

text \<open>Receiving a capability again replaces the weak client that the connection keeps for it
  by one of the new client. When the new client is dropped, the first client is still there, but
  passing it to the peer panics in a branch that is marked unreachable.\<close>

theorem second_client_breaks_first:
  assumes "import_cap i False s = (Ok c\<^sub>1, s\<^sub>1)" "import_cap i False s\<^sub>1 = (Ok c\<^sub>2, s\<^sub>2)"
    and "c\<^sub>2 = ImportRef i f" "drop_client f s\<^sub>2 = (Ok (), t)"
  shows "\<exists>f\<^sub>1. c\<^sub>1 = ImportRef i f\<^sub>1 \<and> f\<^sub>1 \<in> flows t \<and> fst (write_descriptor (ImportHook i) t) = Panic"
proof -
  note 1 = import_again [OF assms(1)] and 2 = import_again [OF assms(2)]
  have f: "f = Suc (next_object s)" using 1(2) 2(1) assms(3) by simp
  have t: "t = s\<^sub>2\<lparr>flows := flows s\<^sub>2 - {f}\<rparr>" using assms(4) by (simp add: drop_client_def modifyp_def)
  have "\<not> from_ptr (ImportPtr i) t" using 1(2) 2(4) f by (simp add: from_ptr_def t)
  then have "fst (write_descriptor (ImportHook i) t) = Panic"
    by (simp add: downcast_def run_simps)
  moreover have "next_object s \<in> flows t" using 1(3) 2(3) f by (simp add: t)
  ultimately show ?thesis using 1(1) by blast
qed

definition imported_once :: connection_state where
  "imported_once = snd (import_cap 0 False (connection_new (LocalHook 5 None False)))"

definition imported_twice :: connection_state where
  "imported_twice = snd (import_cap 0 False imported_once)"

lemma import_runs:
  "import_cap 0 False (connection_new (LocalHook 5 None False)) = (Ok (ImportRef 0 0), imported_once)"
  "import_cap 0 False imported_once = (Ok (ImportRef 0 (Suc 0)), imported_twice)"
  by (simp_all add: imported_twice_def imported_once_def import_cap_def client_new_def run_simps
      connection_new_def update_import_def import_entry_new_def)

lemma second_client_breaks_first_witness:
  "\<exists>f. ImportRef 0 0 = ImportRef 0 f \<and> f \<in> flows (snd (drop_client (Suc 0) imported_twice)) \<and>
     fst (write_descriptor (ImportHook 0) (snd (drop_client (Suc 0) imported_twice))) = Panic"
  by (rule second_client_breaks_first [OF import_runs refl]) (simp add: drop_client_def modifyp_def)

section \<open>Messages that panic\<close>

text \<open>A \<open>Return\<close> for an id beyond the table indexes out of range.\<close>

lemma return_out_of_range_panics:
  assumes "length (slots (questions s)) \<le> unat q"
  shows "fst (handle_message pl now (MReturn q no_finish body) s) = Panic"
  using assms by (simp add: handle_message_def handle_return_def table_index_def run_simps)

text \<open>A canceled question whose return is \<open>takeFromOtherQuestion\<close> is never erased.\<close>

lemma take_from_other_leaks_question:
  assumes "conn_ok s" "connection s = None" "table_find q (questions s) = Some qu" "self_ref qu = None"
  shows "\<exists>t. handle_message pl now (MReturn q nf (TakeFromOtherQuestion k)) s = (Ok (), t) \<and>
    (\<exists>qu'. table_find q (questions t) = Some qu' \<and> \<not> is_awaiting_return qu' \<and> self_ref qu' = None)"
proof -
  have "table_index q (questions s) = Ok (Some qu)"
    using assms(3) by (simp add: table_index_def table_find_def split: if_splits)
  then show ?thesis
    using assms find_set_question [OF assms(1), of q q]
    by (simp add: handle_message_def handle_return_def run_simps set_question_def new_outgoing_message_def
        send_message_def)
qed

section \<open>A promise that is sent twice\<close>

text \<open>
  The server (\<open>False\<close>) gets the client's bootstrap capability and calls it with a promise; the
  client drops the promise, but its \<open>Release\<close> is under way when the server calls with the same
  promise again, so that the server's export is still there. Then the promise resolves.
\<close>

definition promise_race :: "network_action list" where
  "promise_race =
     [Happens False SendBootstrap, Handles True, Handles False,
      Happens False (RequestSend (ImportHook 0) 1 2 [Some (LocalHook 9 None True)]),
      Handles True,
      Happens True (DropPromiseClient 1), Happens True (DropImport 0),
      Happens False (RequestSend (ImportHook 0) 1 2 [Some (LocalHook 9 None True)]),
      Handles True, Handles False,
      Happens False (ExportedPromiseResolved 0 (Inr (LocalHook 11 None False)))]"

definition race_start :: network where
  "race_start = network_new (\<lambda>x. LocalHook 5 None False)"

definition race_outcome :: "(rpc_message \<times> unit outcome) option" where
  "race_outcome = (case run_network promise_race race_start of
     Some n \<Rightarrow> (case in_flight n True of
       msg # _ \<Rightarrow> Some (msg, fst (handle_message no_pipelines id msg (ends n True)))
     | [] \<Rightarrow> None)
   | None \<Rightarrow> None)"

lemma race_value: "race_outcome = Some (MResolve 0 (ResolveCap (SenderHosted 1)), Err Failed)"
  unfolding race_outcome_def promise_race_def
  by (simp add: race_start_def network_new_def allowed_def in_flight_def run_connection run_calls
      run_resolutions bindp_def seqp_def ret_def)

text \<open>C40: Two ends that follow the protocol can lose their connection over a promise. An export
  that is a promise is announced as \<open>senderHosted\<close> when it is sent again, so the peer, having
  dropped its first reference, imports it as no promise, and aborts when it is resolved.\<close>

theorem promise_sent_twice_is_refused:
  "\<exists>n rest. network_reachable n \<and> in_flight n True = MResolve 0 (ResolveCap (SenderHosted 1)) # rest \<and>
     fst (handle_message no_pipelines id (MResolve 0 (ResolveCap (SenderHosted 1))) (ends n True)) = Err Failed"
proof -
  obtain n rest where run: "run_network promise_race race_start = Some n"
    "in_flight n True = MResolve 0 (ResolveCap (SenderHosted 1)) # rest"
    "fst (handle_message no_pipelines id (MResolve 0 (ResolveCap (SenderHosted 1))) (ends n True)) = Err Failed"
    using race_value by (auto simp: race_outcome_def split: option.splits list.splits)
  have "network_reachable n"
    by (rule run_network_reachable [OF run(1)]) (simp add: race_start_def network_reachable.start)
  then show ?thesis using run(2,3) by blast
qed

end
