(* ===== verification/Rpc_Ledger.thy ===== *)
theory Rpc_Ledger
  imports Rpc_Protocol
begin

text \<open>
  Who holds references to the exports of a connection. Every descriptor that an end sends adds a
  reference to the export, every descriptor that it receives one to the import, and a
  \<open>Release\<close> takes references back. What an operation does to the reference counts of its end,
  compared with the messages it sends, is computed here operation by operation; that the books
  of two ends balance is shown in \<^verbatim>\<open>Rpc_Refcount\<close>.
\<close>

section \<open>References in messages\<close>

text \<open>How many references to the export \<open>i\<close> a descriptor or a message carries to the other end.\<close>

fun exported :: "u32 \<Rightarrow> cap_descriptor \<Rightarrow> nat" where
  "exported i (SenderHosted j) = (if j = i then 1 else 0)"
| "exported i (SenderPromise j) = (if j = i then 1 else 0)"
| "exported i _ = 0"

definition count_caps :: "u32 \<Rightarrow> cap_descriptor list \<Rightarrow> nat" where
  "count_caps i ds = sum_list (map (exported i) ds)"

fun body_caps :: "return_body \<Rightarrow> cap_descriptor list" where
  "body_caps (Results ds) = ds"
| "body_caps _ = []"

fun message_caps :: "rpc_message \<Rightarrow> cap_descriptor list" where
  "message_caps (MCall q target ifc meth ds to) = ds"
| "message_caps (MReturn q nf body) = body_caps body"
| "message_caps (MResolve i (ResolveCap d)) = [d]"
| "message_caps _ = []"

definition carried :: "u32 \<Rightarrow> rpc_message list \<Rightarrow> nat" where
  "carried i ms = sum_list (map (\<lambda>m. count_caps i (message_caps m)) ms)"

text \<open>How many references to an export of the other end a message gives back.\<close>

fun given_back :: "u32 \<Rightarrow> rpc_message \<Rightarrow> nat" where
  "given_back i (MRelease j n) = (if j = i then unat n else 0)"
| "given_back i (MUnimplemented (MResolve p (ResolveCap d))) = exported i d"
| "given_back i _ = 0"

definition given :: "u32 \<Rightarrow> rpc_message list \<Rightarrow> nat" where
  "given i ms = sum_list (map (given_back i) ms)"

text \<open>A \<open>Release\<close> of no reference, which the code never sends.\<close>

fun proper :: "rpc_message \<Rightarrow> bool" where
  "proper (MRelease i n) \<longleftrightarrow> n \<noteq> 0"
| "proper _ \<longleftrightarrow> True"

lemma counts_simps [simp]:
  "count_caps i [] = 0" "count_caps i (d # ds) = exported i d + count_caps i ds"
  "count_caps i (ds @ es) = count_caps i ds + count_caps i es"
  "carried i [] = 0" "carried i (m # ms) = count_caps i (message_caps m) + carried i ms"
  "carried i (ms @ ns) = carried i ms + carried i ns"
  "given i [] = 0" "given i (m # ms) = given_back i m + given i ms"
  "given i (ms @ ns) = given i ms + given i ns"
  by (simp_all add: count_caps_def carried_def given_def)

section \<open>The books of one end\<close>

text \<open>The references that the peer holds to an export, those held to an import, and the exports
  that the results of an answer keep.\<close>

definition refs :: "connection_state \<Rightarrow> u32 \<Rightarrow> nat" where
  "refs s i = (case table_find i (exports s) of Some e \<Rightarrow> unat (refcount e) | None \<Rightarrow> 0)"

definition imps :: "connection_state \<Rightarrow> u32 \<Rightarrow> nat" where
  "imps s i = (case import_table s i of Some e \<Rightarrow> unat (remote_ref_count e) | None \<Rightarrow> 0)"

definition held :: "connection_state \<Rightarrow> u32 \<Rightarrow> u32 list" where
  "held s q = (case answers s q of Some a \<Rightarrow> result_exports a | None \<Rightarrow> [])"

text \<open>
  From \<open>s\<close> to \<open>t\<close> messages are sent; apart from what they carry, the references to the exports
  change by \<open>dx\<close> and those to the imports by \<open>di\<close>.
\<close>

definition moves :: "connection_state \<Rightarrow> connection_state \<Rightarrow> (u32 \<Rightarrow> int) \<Rightarrow> (u32 \<Rightarrow> int) \<Rightarrow> bool" where
  "moves s t dx di \<longleftrightarrow> connection t = connection s \<and>
     (\<exists>ms. outbox t = outbox s @ ms \<and> (\<forall>m \<in> set ms. proper m) \<and>
       (\<forall>i. int (refs t i) = int (refs s i) + int (carried i ms) + dx i \<and>
            int (imps t i) = int (imps s i) - int (given i ms) + di i))"

abbreviation balanced :: "connection_state \<Rightarrow> connection_state \<Rightarrow> bool" where
  "balanced s t \<equiv> moves s t (\<lambda>_. 0) (\<lambda>_. 0)"

lemma moves_trans:
  assumes "moves s t a b" "moves t u c d"
  shows "moves s u (\<lambda>i. a i + c i) (\<lambda>i. b i + d i)"
proof -
  obtain ms where ms: "outbox t = outbox s @ ms" "\<forall>m \<in> set ms. proper m"
    "\<And>i. int (refs t i) = int (refs s i) + int (carried i ms) + a i"
    "\<And>i. int (imps t i) = int (imps s i) - int (given i ms) + b i"
    using assms(1) by (auto simp: moves_def)
  obtain ns where ns: "outbox u = outbox t @ ns" "\<forall>m \<in> set ns. proper m"
    "\<And>i. int (refs u i) = int (refs t i) + int (carried i ns) + c i"
    "\<And>i. int (imps u i) = int (imps t i) - int (given i ns) + d i"
    using assms(2) by (auto simp: moves_def)
  have "outbox u = outbox s @ (ms @ ns)" "\<forall>m \<in> set (ms @ ns). proper m"
    using ms(1,2) ns(1,2) by auto
  moreover have "int (refs u i) = int (refs s i) + int (carried i (ms @ ns)) + (a i + c i)"
    "int (imps u i) = int (imps s i) - int (given i (ms @ ns)) + (b i + d i)" for i
    using ms(3,4) ns(3,4) by simp_all
  ultimately show ?thesis using assms unfolding moves_def by (metis (no_types, lifting))
qed

lemma moves_frame:
  assumes "connection t = connection s" "outbox t = outbox s" "exports t = exports s"
    "import_table t = import_table s"
  shows "moves r t a b = moves r s a b" "moves t r a b = moves s r a b"
  using assms by (simp_all add: moves_def refs_def imps_def)

lemma even_refl [simp]: "balanced s s"
  by (auto simp: moves_def)

lemma even_trans: "balanced s t \<Longrightarrow> balanced t u \<Longrightarrow> balanced s u"
  using moves_trans [of s t "\<lambda>_. 0" "\<lambda>_. 0" u] by simp

lemma even_frame [simp]:
  "balanced s (t\<lparr>exports_by_cap := b\<rparr>) = balanced s t" "balanced s (t\<lparr>client_downcast_map := d\<rparr>) = balanced s t"
  "balanced s (t\<lparr>flows := e\<rparr>) = balanced s t" "balanced s (t\<lparr>next_object := f\<rparr>) = balanced s t"
  "balanced s (t\<lparr>promises := g\<rparr>) = balanced s t" "balanced s (t\<lparr>tasks := h\<rparr>) = balanced s t"
  "balanced s (t\<lparr>replies := i\<rparr>) = balanced s t" "balanced s (t\<lparr>embargoes := j\<rparr>) = balanced s t"
  "balanced s (t\<lparr>questions := q\<rparr>) = balanced s t" "balanced s (t\<lparr>answers := an\<rparr>) = balanced s t"
  "balanced s (update_answer k fa t) = balanced s t" "balanced s (update_promise n fp t) = balanced s t"
  by (rule moves_frame; simp add: update_promise_def update_answer_def)+

section \<open>Operations that only move messages\<close>

named_theorems even_rules \<open>rules for \<open>maintains (balanced s)\<close>\<close>

lemma even_on_table [even_rules]:
  "maintains (balanced s) (on_questions m)" "maintains (balanced s) (on_embargoes m')"
  by (simp_all add: maintains_def on_questions_def on_embargoes_def split: prod.splits)

lemma even_send [even_rules]:
  assumes "message_caps msg = []" "\<And>i. given_back i msg = 0" "proper msg"
  shows "maintains (balanced s) (send_message msg)"
proof (rule maintainsI)
  fix t r u assume t: "balanced s t" and run: "send_message msg t = (r, u)"
  show "balanced s u"
  proof (cases "connection t = None")
    case True
    then have "u = t\<lparr>outbox := outbox t @ [msg]\<rparr>" using run by (simp add: send_message_run)
    then have "balanced t u" using assms by (simp add: moves_def refs_def imps_def)
    with t show ?thesis by (rule even_trans)
  next
    case False
    then show ?thesis using run t by (auto simp: send_message_run)
  qed
qed

lemma even_outgoing [even_rules]: "maintains (balanced s) new_outgoing_message"
  unfolding new_outgoing_message_def by (intro keep_rules)

lemma even_client [even_rules]:
  "maintains (balanced s) (client_new p)" "maintains (balanced s) (downcast p)" "maintains (balanced s) (drop_client f)"
  "maintains (balanced s) (forget_ptr p)" "maintains (balanced s) (promise_client_new c i)"
proof -
  show c: "maintains (balanced s) (client_new p)" for p
    unfolding client_new_def by (intro keep_rules; simp)
  show "maintains (balanced s) (downcast p)" "maintains (balanced s) (drop_client f)"
    "maintains (balanced s) (forget_ptr p)"
    unfolding downcast_def drop_client_def forget_ptr_def by (intro keep_rules; simp)+
  show "maintains (balanced s) (promise_client_new c i)"
    unfolding promise_client_new_def by (intro keep_rules c; simp)
qed

lemma even_objects [even_rules]:
  "maintains (balanced s) (drop_pipeline_client a)" "maintains (balanced s) (drop_promise_client a)"
  "maintains (balanced s) (pipelined_cap q ops b)"
  unfolding drop_pipeline_client_def drop_promise_client_def pipelined_cap_def
  by (intro keep_rules even_rules; simp)+

lemma even_target [even_rules]: "maintains (balanced s) (write_target h)"
  by (induction h) (auto intro!: keep_rules even_rules)

lemma even_get_target [even_rules]: "maintains (balanced s) (get_message_target pl target)"
  unfolding get_message_target_def by (cases target) (auto intro!: keep_rules)

lemma even_resolve [even_rules]: "maintains (balanced s) (promise_resolve pl a r)"
  unfolding promise_resolve_def by (intro keep_rules even_rules; simp)

lemma even_disembargo [even_rules]:
  "maintains (balanced s) (handle_disembargo pl now target ctx)" "maintains (balanced s) run_disembargo"
proof -
  show "maintains (balanced s) (handle_disembargo pl now target ctx)"
    unfolding handle_disembargo_def by (cases ctx) (auto simp: Let_def intro!: keep_rules even_rules)
  show "maintains (balanced s) run_disembargo"
    unfolding run_disembargo_def by (intro keep_rules even_rules; simp)
qed

lemma even_question [even_rules]:
  "maintains (balanced s) (the_question q)" "maintains (balanced s) (set_question q qu)"
  "maintains (balanced s) (register_ref q)" "maintains (balanced s) (fulfill q r)"
  "maintains (balanced s) (drop_question_ref q)" "maintains (balanced s) bootstrap"
proof -
  have the: "maintains (balanced s) (the_question q)" for q
    unfolding the_question_def by (auto intro!: keep_rules split: outcome.splits option.splits)
  have set: "maintains (balanced s) (set_question q qu)" for q qu
    unfolding set_question_def by (intro keep_rules; simp)
  show "maintains (balanced s) (the_question q)" "maintains (balanced s) (set_question q qu)"
    by (rule the, rule set)
  show reg: "maintains (balanced s) (register_ref q)" for q
    unfolding register_ref_def by (intro keep_rules the set)
  show "maintains (balanced s) (fulfill q r)" "maintains (balanced s) (drop_question_ref q)"
    unfolding fulfill_def drop_question_ref_def
    by (intro keep_rules even_rules the set; simp)+
  show "maintains (balanced s) bootstrap"
    unfolding bootstrap_def by (intro keep_rules even_rules reg; simp)
qed

lemma even_sent_return [even_rules]: "maintains (balanced s) (answer_has_sent_return i es)"
  unfolding answer_has_sent_return_def by (intro keep_rules; simp)

section \<open>Operations that take and give references\<close>

definition live_ok :: "connection_state \<Rightarrow> bool" where
  "live_ok s \<longleftrightarrow> conn_ok s \<and> connection s = None"

text \<open>
  \<open>pays m dx di\<close>: when \<open>m\<close> succeeds with \<open>x\<close>, the references have moved by \<open>dx x\<close> and \<open>di x\<close>.
\<close>

definition pays :: "'a rpc \<Rightarrow> ('a \<Rightarrow> u32 \<Rightarrow> int) \<Rightarrow> ('a \<Rightarrow> u32 \<Rightarrow> int) \<Rightarrow> bool" where
  "pays m dx di \<longleftrightarrow> (\<forall>s x t. live_ok s \<longrightarrow> m s = (Ok x, t) \<longrightarrow> live_ok t \<and> moves s t (dx x) (di x))"

text \<open>Programs that succeed or panic.\<close>

definition never_fails :: "('s, 'a) prog \<Rightarrow> bool" where
  "never_fails m \<longleftrightarrow> (\<forall>s. fst (m s) = Panic \<or> (\<exists>x. fst (m s) = Ok x))"

named_theorems safe_rules \<open>rules for \<open>never_fails\<close>\<close>

lemma never_fails_bindp [safe_rules]:
  "never_fails m \<Longrightarrow> (\<And>x. never_fails (f x)) \<Longrightarrow> never_fails (bindp m f)"
  unfolding never_fails_def bindp_def
  by (auto split: prod.splits outcome.splits) (metis fst_conv outcome.distinct outcome.inject)+

lemma never_fails_seqp [safe_rules]: "never_fails m \<Longrightarrow> never_fails n \<Longrightarrow> never_fails (seqp m n)"
  unfolding seqp_def by (rule never_fails_bindp)

lemma never_fails_simples [safe_rules]:
  "never_fails (ret x)" "never_fails panic" "never_fails (gets g)" "never_fails (modifyp f)" "never_fails (assertp b)"
  by (simp_all add: never_fails_def run_simps assertp_def)

lemma never_fails_foldp [safe_rules]: "(\<And>x a. never_fails (f x a)) \<Longrightarrow> never_fails (foldp f xs acc)"
  by (induction xs arbitrary: acc) (simp_all add: safe_rules)

lemma never_fails_split [safe_rules]:
  "(\<And>x. never_fails (f x)) \<Longrightarrow> never_fails n \<Longrightarrow> never_fails (case r of Some x \<Rightarrow> f x | None \<Rightarrow> n)"
  "never_fails m \<Longrightarrow> never_fails n' \<Longrightarrow> never_fails (if b then m else n')"
  "(\<And>x y. never_fails (g x y)) \<Longrightarrow> never_fails (case p of (x, y) \<Rightarrow> g x y)"
  "(\<And>x. never_fails (h x)) \<Longrightarrow> (\<And>y. never_fails (k y)) \<Longrightarrow> never_fails (case u of Inl x \<Rightarrow> h x | Inr y \<Rightarrow> k y)"
  "(\<And>x. never_fails (f x)) \<Longrightarrow> never_fails m' \<Longrightarrow>
    never_fails (case w of Ok x \<Rightarrow> f x | _ \<Rightarrow> m')"
  by (auto split: option.splits prod.splits sum.splits outcome.splits)

text \<open>\<open>pays m dx di\<close>, continued.\<close>

lemma paysI: "(\<And>s x t. live_ok s \<Longrightarrow> m s = (Ok x, t) \<Longrightarrow> live_ok t \<and> moves s t (dx x) (di x)) \<Longrightarrow> pays m dx di"
  by (simp add: pays_def)

lemma paysD:
  assumes "pays m dx di" "live_ok s" "m s = (Ok x, t)"
  shows "live_ok t" "moves s t (dx x) (di x)"
  using assms by (auto simp: pays_def)

lemma pays_even:
  assumes "\<And>s. maintains (balanced s) m" "maintains conn_ok m"
  shows "pays m (\<lambda>_ _. 0) (\<lambda>_ _. 0)"
proof (rule paysI)
  fix s x t assume s: "live_ok s" and run: "m s = (Ok x, t)"
  have "balanced s t" by (rule maintainsD [OF assms(1)]) (use run in auto)
  moreover have "conn_ok t" by (rule maintainsD [OF assms(2) _ run]) (use s in \<open>auto simp: live_ok_def\<close>)
  ultimately show "live_ok t \<and> balanced s t" using s by (simp add: live_ok_def moves_def)
qed

lemma pays_bindp:
  assumes "pays m a b" "\<And>x. pays (f x) (c x) (d x)"
    and "\<And>x y i. dx y i = a x i + c x y i" "\<And>x y i. di y i = b x i + d x y i"
  shows "pays (bindp m f) dx di"
proof (rule paysI)
  fix s y u assume s: "live_ok s" and run: "bindp m f s = (Ok y, u)"
  then obtain x t where m: "m s = (Ok x, t)" "f x t = (Ok y, u)"
    by (auto simp: bindp_def split: prod.splits outcome.splits)
  note 1 = paysD [OF assms(1) s m(1)] and 2 = paysD [OF assms(2) paysD(1) [OF assms(1) s m(1)] m(2)]
  have "dx y = (\<lambda>i. a x i + c x y i)" "di y = (\<lambda>i. b x i + d x y i)" using assms(3,4) by auto
  then show "live_ok u \<and> moves s u (dx y) (di y)"
    using 2(1) moves_trans [OF 1(2) 2(2)] by simp
qed

text \<open>Sequences in which only the first, or only the last program moves references.\<close>

lemma pays_then_even:
  assumes "pays m a b" "\<And>x. pays (f x) (\<lambda>_ _. 0) (\<lambda>_ _. 0)" "\<And>x y i. dx y i = a x i" "\<And>x y i. di y i = b x i"
  shows "pays (bindp m f) dx di"
  by (rule pays_bindp [OF assms(1,2)]) (simp_all add: assms(3,4))

lemma even_then_pays:
  assumes "pays m (\<lambda>_ _. 0) (\<lambda>_ _. 0)" "\<And>x. pays (f x) dx di"
  shows "pays (bindp m f) dx di"
  by (rule pays_bindp [OF assms]) simp_all

lemma pays_send:
  assumes "proper msg"
  shows "pays (send_message msg) (\<lambda>_ i. - int (count_caps i (message_caps msg))) (\<lambda>_ i. int (given_back i msg))"
proof (rule paysI)
  fix s x t assume s: "live_ok s" and run: "send_message msg s = (Ok x, t)"
  then have "t = s\<lparr>outbox := outbox s @ [msg]\<rparr>" by (simp add: live_ok_def send_message_run)
  then show "live_ok t \<and> moves s t (\<lambda>i. - int (count_caps i (message_caps msg))) (\<lambda>i. int (given_back i msg))"
    using s assms by (auto simp: live_ok_def moves_def refs_def imps_def intro!: exI [of _ "[msg]"])
qed

lemma pays_ret: "pays (ret x) (\<lambda>_ _. 0) (\<lambda>_ _. 0)"
  by (rule pays_even) (rule keep_rules)+

lemma pays_fails [simp]: "pays (err e) dx di" "pays panic dx di"
  by (simp_all add: pays_def err_def panic_def)

subsection \<open>Exports\<close>

lemma refs_update:
  assumes "\<And>j. table_find j t = (if j = i then e else table_find j (exports s))"
  shows "refs (s\<lparr>exports := t\<rparr>) j = (if j = i then (case e of Some e \<Rightarrow> unat (refcount e) | None \<Rightarrow> 0) else refs s j)"
    "refs (s\<lparr>exports := t, exports_by_cap := bc\<rparr>) j =
      (if j = i then (case e of Some e \<Rightarrow> unat (refcount e) | None \<Rightarrow> 0) else refs s j)"
  using assms by (simp_all add: refs_def)

lemma movesI:
  assumes "connection t = connection s" "outbox t = outbox s"
    "\<And>i. int (refs t i) = int (refs s i) + dx i" "\<And>i. int (imps t i) = int (imps s i) + di i"
  shows "moves s t dx di"
  using assms by (simp add: moves_def)

lemma release_export_pays:
  "pays (release_export i n) (\<lambda>_ j. - (if j = i then int (unat n) else 0)) (\<lambda>_ _. 0)"
proof (rule paysI)
  fix s x t assume s: "live_ok s" and run: "release_export i n s = (Ok x, t)"
  have ok: "conn_ok s" "connection s = None" using s by (simp_all add: live_ok_def)
  have "conn_ok t" by (rule maintainsD [OF release_export_keeps ok(1) run]) simp
  moreover have "moves s t (\<lambda>j. - (if j = i then int (unat n) else 0)) (\<lambda>_. 0) \<and> connection t = None"
  proof (cases rule: release_export_run [OF conn_ok_rel [OF ok], of i n])
    case 1
    then show ?thesis using run by simp
  next
    case (2 e)
    then show ?thesis using run by simp
  next
    case (3 e t')
    then have t: "t = s\<lparr>exports := t', exports_by_cap :=
        (if canonical e then (exports_by_cap s)(get_ptr (client_hook e) := None) else exports_by_cap s)\<rparr>"
      using run by simp
    have "moves s t (\<lambda>j. - (if j = i then int (unat n) else 0)) (\<lambda>_. 0)"
      by (rule movesI) (use 3 in \<open>simp_all add: t refs_update(2) imps_def\<close>, simp add: refs_def)
    then show ?thesis using ok by (simp add: t)
  next
    case (4 e)
    have t: "t = s\<lparr>exports := table_set i (e\<lparr>refcount := refcount e - n\<rparr>) (exports s)\<rparr>"
      using run 4 by simp
    have live: "table_find i (exports s) \<noteq> None" using 4 by simp
    note find = ids.look_put [OF exports_relD(1) [OF conn_ok_rel [OF ok]] live]
    have "moves s t (\<lambda>j. - (if j = i then int (unat n) else 0)) (\<lambda>_. 0)"
      by (rule movesI)
        (use 4 in \<open>simp_all add: t find imps_def refs_def unat_sub order_less_imp_le
          word_less_nat_alt of_nat_diff\<close>)
    then show ?thesis using ok by (simp add: t)
  qed
  ultimately show "live_ok t \<and> moves s t (\<lambda>j. - (if j = i then int (unat n) else 0)) (\<lambda>_. 0)"
    by (simp add: live_ok_def)
qed

lemma foldp_pays:
  assumes "\<And>x acc. pays (f x acc) (\<lambda>acc' i. a x i + M acc' i - M acc i) (\<lambda>acc' i. b x i + N acc' i - N acc i)"
  shows "pays (foldp f xs acc) (\<lambda>acc' i. (\<Sum>x\<leftarrow>xs. a x i) + M acc' i - M acc i)
    (\<lambda>acc' i. (\<Sum>x\<leftarrow>xs. b x i) + N acc' i - N acc i)"
proof (induction xs arbitrary: acc)
  case Nil
  show ?case by (auto simp: pays_def ret_def moves_def)
next
  case (Cons x xs)
  show ?case
    unfolding foldp.simps by (rule pays_bindp [OF assms Cons.IH]) simp_all
qed

lemma release_exports_pays: "pays (release_exports es) (\<lambda>_ j. - int (count_list es j)) (\<lambda>_ _. 0)"
proof -
  have "(\<Sum>i\<leftarrow>es. - (if j = i then int (unat (1::u32)) else 0)) = - int (count_list es j)" for j
    by (induction es) auto
  then show ?thesis
    using foldp_pays [of "\<lambda>i _. release_export i 1" "\<lambda>i j. - (if j = i then int (unat (1::u32)) else 0)"
        "\<lambda>_ _. 0" "\<lambda>_ _. 0" "\<lambda>_ _. 0" es "()"] release_export_pays
    by (simp add: release_exports_def)
qed

text \<open>One more reference, to an export that is there or to a new one.\<close>

lemma export_cap_pays: "pays (export_cap h) (\<lambda>x j. int (exported j (fst x))) (\<lambda>_ _. 0)"
proof (rule paysI)
  fix s x t assume s: "live_ok s" and run: "export_cap h s = (Ok x, t)"
  have ok: "conn_ok s" "connection s = None" using s by (simp_all add: live_ok_def)
  obtain d e where x: "x = (d, e)" by (cases x)
  have "conn_ok t" by (rule maintainsD [OF export_cap_maintains ok(1) run]) simp
  moreover have "moves s t (\<lambda>j. int (exported j d)) (\<lambda>_. 0) \<and> connection t = None"
  proof (cases rule: export_cap_run [OF conn_ok_rel [OF ok], of h])
    case (1 i e')
    have d: "d = SenderHosted i" "t = s\<lparr>exports := table_set i (e'\<lparr>refcount := refcount e' + 1\<rparr>) (exports s)\<rparr>"
      using run 1 by (simp_all add: x)
    have live: "table_find i (exports s) \<noteq> None" using 1 by simp
    note find = ids.look_put [OF exports_relD(1) [OF conn_ok_rel [OF ok]] live]
    have "unat (refcount e' + 1) = Suc (unat (refcount e'))"
      using 1 by (metis add.commute add_eq_0_iff2 add.inverse_inverse unatSuc)
    then have "moves s t (\<lambda>j. int (exported j d)) (\<lambda>_. 0)"
      by (intro movesI) (use 1 in \<open>auto simp: d find imps_def refs_def\<close>)
    then show ?thesis using ok by (simp add: d)
  next
    case (3 i t' d')
    have d: "d = d'" "t = s\<lparr>exports := t', exports_by_cap := (exports_by_cap s)(get_ptr h \<mapsto> i)\<rparr>"
      using run [unfolded 3(1)] by (auto simp: x)
    have "moves s t (\<lambda>j. int (exported j d)) (\<lambda>_. 0)"
      by (rule movesI) (use 3 in \<open>auto simp: d imps_def refs_def export_entry_new_def\<close>)
    then show ?thesis using ok 3 by (simp add: d)
  qed (use run in simp_all)
  ultimately show "live_ok t \<and> moves s t (\<lambda>j. int (exported j (fst x))) (\<lambda>_. 0)"
    by (simp add: live_ok_def x)
qed

lemma pays_even_then: "pays m (\<lambda>_ _. 0) (\<lambda>_ _. 0) \<Longrightarrow> pays n dx di \<Longrightarrow> pays (seqp m n) dx di"
  unfolding seqp_def by (rule even_then_pays)

lemma downcast_pays: "pays (downcast p) (\<lambda>_ _. 0) (\<lambda>_ _. 0)"
  by (rule pays_even) (rule even_rules keep_rules)+

lemma promise_pays: "pays (modifyp (update_promise a f)) (\<lambda>_ _. 0) (\<lambda>_ _. 0)"
  by (rule pays_even; intro keep_rules; simp)

lemma pays_ret_zero: "(\<And>i. dx x i = 0) \<Longrightarrow> (\<And>i. di x i = 0) \<Longrightarrow> pays (ret x) dx di"
  by (auto simp: pays_def ret_def moves_def)

lemma write_descriptor_pays: "pays (write_descriptor h) (\<lambda>x j. int (exported j (fst x))) (\<lambda>_ _. 0)"
  by (induction h rule: write_descriptor.induct)
    (simp_all add: export_cap_pays pays_even_then downcast_pays promise_pays pays_ret_zero)

lemma write_descriptors_pays: "pays (write_descriptors caps) (\<lambda>x j. int (count_caps j (fst x))) (\<lambda>_ _. 0)"
proof -
  let ?f = "\<lambda>c (ds, es). case c of
       Some h \<Rightarrow> bindp (write_descriptor h) (\<lambda>(d, e).
         ret (ds @ [d], case e of Some i \<Rightarrow> es @ [i] | None \<Rightarrow> es))
     | None \<Rightarrow> ret (ds @ [CapNone], es)"
  have "pays (?f c acc) (\<lambda>acc' j. 0 + int (count_caps j (fst acc')) - int (count_caps j (fst acc)))
      (\<lambda>acc' j. 0 + 0 - 0)" for c and acc :: "cap_descriptor list \<times> u32 list"
  proof (cases c)
    case None
    then show ?thesis by (auto intro: pays_ret_zero split: prod.splits)
  next
    case (Some h)
    have "pays (bindp (write_descriptor h) (\<lambda>(d, e). ret (fst acc @ [d], case e of Some i \<Rightarrow> snd acc @ [i] | None \<Rightarrow> snd acc)))
      (\<lambda>acc' j. 0 + int (count_caps j (fst acc')) - int (count_caps j (fst acc))) (\<lambda>acc' j. 0 + 0 - 0)"
      by (rule pays_bindp [OF write_descriptor_pays, where c = "\<lambda>x acc' j. int (count_caps j (fst acc')) -
            int (count_caps j (fst acc)) - int (exported j (fst x))" and d = "\<lambda>_ _ _. 0"])
        (auto intro: pays_ret_zero split: prod.splits)
    then show ?thesis using Some by (simp add: case_prod_beta)
  qed
  from foldp_pays [of ?f, OF this, where xs = caps and acc = "([], [])"]
  show ?thesis by (simp add: write_descriptors_def)
qed

subsection \<open>Imports\<close>

lemma imps_update [simp]:
  "refs (update_import k f s) j = refs s j" "connection (update_import k f s) = connection s"
  "outbox (update_import k f s) = outbox s"
  by (simp_all add: refs_def update_import_def)

lemma imps_same_count:
  assumes "\<And>e. remote_ref_count (f e) = remote_ref_count e"
  shows "imps (update_import k f s) j = imps s j"
  using assms by (simp add: imps_def update_import_def split: option.splits)

lemma import_frame_pays:
  assumes "\<And>e. remote_ref_count (f e) = remote_ref_count e"
  shows "pays (modifyp (update_import k f)) (\<lambda>_ _. 0) (\<lambda>_ _. 0)"
  by (rule paysI) (auto simp: live_ok_def modifyp_def moves_def imps_same_count [of f, OF assms])

lemma client_pays:
  "pays (client_new p) (\<lambda>_ _. 0) (\<lambda>_ _. 0)" "pays (promise_client_new c i) (\<lambda>_ _. 0) (\<lambda>_ _. 0)"
  by (rule pays_even; rule even_rules keep_rules)+

lemma pays_gets: "(\<And>x. pays (f x) dx di) \<Longrightarrow> pays (bindp (gets g) f) dx di"
  by (auto simp: pays_def bindp_def gets_def)

lemma pays_assert: "pays n dx di \<Longrightarrow> pays (seqp (assertp b) n) dx di"
  by (cases b) (auto simp: seqp_def)

lemma pays_then:
  "pays m (\<lambda>_. a) (\<lambda>_. b) \<Longrightarrow> pays n (\<lambda>_. c) (\<lambda>_. d) \<Longrightarrow>
    pays (seqp m n) (\<lambda>_ i. a i + c i) (\<lambda>_ i. b i + d i)"
  unfolding seqp_def by (rule pays_bindp) auto

lemma modifyp_then: "seqp (modifyp f) n s = n (f s)"
  by (simp add: seqp_def bindp_def modifyp_def)

lemma assertp_then: "seqp (assertp b) n s = (if b then n s else (Panic, s))"
  by (simp add: seqp_def bindp_def assertp_def ret_def panic_def)

lemma import_cap_pays: "pays (import_cap i b) (\<lambda>_ _. 0) (\<lambda>_ j. if j = i then 1 else 0)"
proof (rule paysI)
  fix s x t assume s: "live_ok s" and run: "import_cap i b s = (Ok x, t)"
  define u where "u = (if import_table s i = None
    then s\<lparr>import_table := (import_table s)(i \<mapsto> import_entry_new)\<rparr> else s)"
  obtain e where e: "import_table u i = Some e" by (cases "import_table s i") (auto simp: u_def)
  define v where "v = update_import i (\<lambda>e. e\<lparr>remote_ref_count := remote_ref_count e + 1\<rparr>) u"
  define rest where "rest = (if b then
           (case app_client e of
              Some c \<Rightarrow> bindp (gets (upgradable c)) (\<lambda>b. seqp (assertp b) (ret c))
            | None \<Rightarrow>
                bindp (client_new (ImportPtr i)) (\<lambda>_.
                bindp (promise_client_new (ImportHook i) (Some i)) (\<lambda>c.
                seqp (modifyp (update_import i (\<lambda>e. e\<lparr>app_client := Some c,
                    promise_client_to_resolve := (case c of PromiseRef a f \<Rightarrow> Some a | _ \<Rightarrow> None)\<rparr>)))
                  (ret c))))
         else
           bindp (client_new (ImportPtr i)) (\<lambda>f.
           seqp (modifyp (update_import i (\<lambda>e. e\<lparr>app_client := Some (ImportRef i f)\<rparr>)))
             (ret (ImportRef i f))))"
  have "import_cap i b s = seqp (assertp (remote_ref_count e \<noteq> - 1))
      (seqp (modifyp (update_import i (\<lambda>e. e\<lparr>remote_ref_count := remote_ref_count e + 1\<rparr>))) rest) u"
    unfolding import_cap_def rest_def by (simp add: modifyp_then gets_run e flip: u_def)
  then have bound: "remote_ref_count e \<noteq> - 1" and tail: "rest v = (Ok x, t)"
    using run by (auto simp: assertp_then modifyp_then v_def split: if_splits)
  have pays: "pays rest (\<lambda>_ _. 0) (\<lambda>_ _. 0)"
    unfolding rest_def
    by (auto intro!: pays_gets pays_assert even_then_pays client_pays pays_even_then import_frame_pays pays_ret
        split: option.splits)
  have cnt: "imps v j = imps s j + (if j = i then 1 else 0)" for j
  proof -
    have "unat (remote_ref_count e + 1) = Suc (unat (remote_ref_count e))"
      using bound by (metis add.commute add_eq_0_iff2 add.inverse_inverse unatSuc)
    moreover have "imps u j = imps s j" by (simp add: u_def imps_def import_entry_new_def)
    ultimately show ?thesis using e by (auto simp: v_def imps_def update_import_def)
  qed
  have same: "refs v j = refs s j" "conn_ok v = conn_ok s" "connection v = connection s" "outbox v = outbox s" for j
    by (simp_all add: v_def u_def refs_def update_import_def)
  have v: "live_ok v" "moves s v (\<lambda>_. 0) (\<lambda>j. if j = i then 1 else 0)"
    using s cnt by (auto simp: same live_ok_def intro!: movesI)
  note w = paysD [OF pays v(1) tail]
  from moves_trans [OF v(2) w(2)] w(1)
  show "live_ok t \<and> moves s t (\<lambda>_. 0) (\<lambda>j. if j = i then 1 else 0)" by simp
qed

lemma receive_cap_pays: "pays (receive_cap d) (\<lambda>_ _. 0) (\<lambda>_ j. int (exported j d))"
proof (cases d)
  case (SenderHosted i)
  have eq: "(\<lambda>_ j. int (exported j d)) = (\<lambda>_ :: received_cap option. \<lambda>j. if j = i then 1 else 0)"
    using SenderHosted by (auto simp: fun_eq_iff)
  show ?thesis
    unfolding eq using SenderHosted
    by (auto simp: receive_cap_def intro!: pays_then_even [OF import_cap_pays] pays_ret)
next
  case (SenderPromise i)
  have eq: "(\<lambda>_ j. int (exported j d)) = (\<lambda>_ :: received_cap option. \<lambda>j. if j = i then 1 else 0)"
    using SenderPromise by (auto simp: fun_eq_iff)
  show ?thesis
    unfolding eq using SenderPromise
    by (auto simp: receive_cap_def intro!: pays_then_even [OF import_cap_pays] pays_ret)
qed (auto simp: receive_cap_def intro!: pays_gets pays_ret split: option.splits)

lemma receive_caps_pays: "pays (receive_caps ds) (\<lambda>_ _. 0) (\<lambda>_ j. int (count_caps j ds))"
proof -
  have "pays (bindp (receive_cap d) (\<lambda>c. ret (cs @ [c]))) (\<lambda>_ j. 0 + 0 - 0) (\<lambda>_ j. int (exported j d) + 0 - 0)"
    for d cs by (rule pays_then_even [OF receive_cap_pays]) (auto intro: pays_ret_zero)
  from foldp_pays [of "\<lambda>d cs. bindp (receive_cap d) (\<lambda>c. ret (cs @ [c]))", OF this, where xs = ds and acc = "[]"]
  moreover have "(\<Sum>d\<leftarrow>xs. int (exported j d)) = int (count_caps j xs)" for j xs by (induction xs) simp_all
  ultimately show ?thesis by (simp add: receive_caps_def)
qed

text \<open>Dropping an import gives all its references back.\<close>

lemma drop_import_pays: "pays (drop_import i) (\<lambda>_ _. 0) (\<lambda>_ _. 0)"
proof (rule paysI)
  fix s x t assume s: "live_ok s" and run: "drop_import i s = (Ok x, t)"
  define u where "u = s\<lparr>client_downcast_map := (client_downcast_map s)(ImportPtr i := None)\<rparr>"
  define v where "v = u\<lparr>import_table := (import_table u)(i := None)\<rparr>"
  have tail: "(case import_table s i of
          Some e \<Rightarrow> if remote_ref_count e > 0 then send_message (MRelease i (remote_ref_count e)) else ret ()
        | None \<Rightarrow> ret ()) v = (Ok x, t)"
  proof -
    have "seqp (assertp (client_downcast_map s (ImportPtr i) \<noteq> None))
      (seqp (modifyp (\<lambda>s. s\<lparr>import_table := (import_table s)(i := None)\<rparr>))
      (case import_table s i of
          Some e \<Rightarrow> if remote_ref_count e > 0 then send_message (MRelease i (remote_ref_count e)) else ret ()
        | None \<Rightarrow> ret ())) u = (Ok x, t)"
      using run by (simp add: drop_import_def forget_ptr_def gets_run seqp_def bindp_assoc u_def
          bindp_def [of "modifyp _"] modifyp_def)
    then show ?thesis by (auto simp: assertp_then modifyp_then v_def split: if_splits)
  qed
  have v: "connection v = None" "conn_ok v" "outbox v = outbox s" "\<And>j. refs v j = refs s j"
    "\<And>j. imps v j = (if j = i then 0 else imps s j)"
    using s by (simp_all add: v_def u_def live_ok_def refs_def imps_def)
  show "live_ok t \<and> balanced s t"
  proof (cases "import_table s i")
    case None
    then have "t = v" using tail by (simp add: ret_def)
    moreover have "imps s i = 0" using None by (simp add: imps_def)
    ultimately show ?thesis using s v by (auto simp: live_ok_def intro!: movesI)
  next
    case (Some e)
    show ?thesis
    proof (cases "remote_ref_count e = 0")
      case True
      then have "t = v" using tail Some by (simp add: ret_def)
      moreover have "imps s i = 0" using Some True by (simp add: imps_def)
      ultimately show ?thesis using s v by (auto simp: live_ok_def intro!: movesI)
    next
      case False
      then have t: "t = v\<lparr>outbox := outbox s @ [MRelease i (remote_ref_count e)]\<rparr>"
        using tail Some v by (simp add: send_message_run word_gt_0)
      have "imps s i = unat (remote_ref_count e)" using Some by (simp add: imps_def)
      then have "int (imps t j) = int (imps s j) - int (given j [MRelease i (remote_ref_count e)])" for j
        using v(5) [of j] by (simp add: t imps_def [of "v\<lparr>outbox := _\<rparr>"] flip: imps_def [of v])
      moreover have "refs t j = refs s j" for j using v(4) [of j] by (simp add: t refs_def)
      ultimately show ?thesis
        using s v False by (auto simp: live_ok_def moves_def t intro!: exI [of _ "[MRelease i (remote_ref_count e)]"])
    qed
  qed
qed

section \<open>What the application does\<close>

text \<open>The books stay balanced, whether the operation succeeds or returns an error.\<close>

definition settles :: "'a rpc \<Rightarrow> bool" where
  "settles m \<longleftrightarrow> (\<forall>s r t. live_ok s \<longrightarrow> m s = (r, t) \<longrightarrow> r \<noteq> Panic \<longrightarrow> live_ok t \<and> balanced s t)"

named_theorems settle_rules \<open>rules for \<open>settles\<close>\<close>

lemma settlesD: "settles m \<Longrightarrow> live_ok s \<Longrightarrow> m s = (r, t) \<Longrightarrow> r \<noteq> Panic \<Longrightarrow> live_ok t \<and> balanced s t"
  by (simp add: settles_def)

lemma settles_even:
  assumes "\<And>s. maintains (balanced s) m" "maintains conn_ok m"
  shows "settles m"
  unfolding settles_def
proof (intro allI impI)
  fix s r t assume s: "live_ok s" and run: "m s = (r, t)" "r \<noteq> Panic"
  have "balanced s t" by (rule maintainsD [OF assms(1) _ run]) simp
  moreover have "conn_ok t" by (rule maintainsD [OF assms(2) _ run]) (use s in \<open>auto simp: live_ok_def\<close>)
  ultimately show "live_ok t \<and> balanced s t" using s by (simp add: live_ok_def moves_def)
qed

lemma settles_pays:
  assumes "pays m (\<lambda>_ _. 0) (\<lambda>_ _. 0)" "never_fails m"
  shows "settles m"
  unfolding settles_def
proof (intro allI impI)
  fix s r t assume s: "live_ok s" and run: "m s = (r, t)" "r \<noteq> Panic"
  have "fst (m s) = Panic \<or> (\<exists>x. fst (m s) = Ok x)" using assms(2) by (simp add: never_fails_def)
  then obtain x where "m s = (Ok x, t)" using run by auto
  then show "live_ok t \<and> balanced s t" using paysD [OF assms(1) s] by blast
qed

lemma settles_bindp:
  assumes "settles m" "\<And>x. settles (f x)"
  shows "settles (bindp m f)"
  unfolding settles_def
proof (intro allI impI)
  fix s r u assume s: "live_ok s" and run: "bindp m f s = (r, u)" "r \<noteq> Panic"
  obtain r' t where m: "m s = (r', t)" by (cases "m s")
  have np: "r' \<noteq> Panic" using run m by (auto simp: bindp_def)
  note t = settlesD [OF assms(1) s m np]
  show "live_ok u \<and> balanced s u"
  proof (cases r')
    case (Ok x)
    then have "f x t = (r, u)" using run(1) m by (simp add: bindp_def)
    from settlesD [OF assms(2) _ this run(2)] t show ?thesis using even_trans by blast
  qed (use run m t np in \<open>auto simp: bindp_def\<close>)
qed

lemma settles_seqp: "settles m \<Longrightarrow> settles n \<Longrightarrow> settles (seqp m n)"
  unfolding seqp_def by (rule settles_bindp)

lemma settles_gets: "(\<And>x. settles (f x)) \<Longrightarrow> settles (bindp (gets g) f)"
  by (simp add: settles_def gets_run)

lemma on_table_never_fails:
  "never_fails m \<Longrightarrow> never_fails (on_questions m)" "never_fails m' \<Longrightarrow> never_fails (on_exports m')"
  by (simp_all add: never_fails_def on_questions_def on_exports_def split: prod.splits) (metis fst_conv)+

lemma push_never_fails [safe_rules]: "never_fails (table_push v)"
  unfolding table_push_def by (intro safe_rules)

lemma table_never_fails [safe_rules]:
  "never_fails (on_questions (table_push qu))" "never_fails (the_question q)" "never_fails (set_question q qu)"
  "never_fails (register_ref q)"
proof -
  show "never_fails (on_questions (table_push qu))"
    by (rule on_table_never_fails) (rule safe_rules)
  show the: "never_fails (the_question q)" for q
    unfolding the_question_def by (auto intro!: safe_rules split: outcome.splits option.splits)
  show set: "never_fails (set_question q qu)" for q qu
    unfolding set_question_def by (rule safe_rules)
  show "never_fails (register_ref q)"
    unfolding register_ref_def by (intro safe_rules the set)
qed

lemma send_never_fails [safe_rules]: "never_fails (send_message msg)" "never_fails (downcast p)"
  unfolding send_message_def downcast_def by (intro safe_rules)+

lemma export_never_fails [safe_rules]: "never_fails (export_cap h)"
  unfolding export_cap_def
  by (intro safe_rules on_table_never_fails)

lemma descriptor_never_fails [safe_rules]: "never_fails (write_descriptor h)"
  by (induction h rule: write_descriptor.induct) (auto intro!: safe_rules)

lemma descriptors_never_fail [safe_rules]: "never_fails (write_descriptors caps)" "never_fails (write_target h)"
proof -
  show "never_fails (write_descriptors caps)"
    unfolding write_descriptors_def by (intro safe_rules)
  show "never_fails (write_target h)"
    by (induction h) (auto intro!: safe_rules)
qed

lemma question_pays:
  "pays (on_questions (table_push qu)) (\<lambda>_ _. 0) (\<lambda>_ _. 0)" "pays (register_ref q) (\<lambda>_ _. 0) (\<lambda>_ _. 0)"
  "pays (drop_question_ref q) (\<lambda>_ _. 0) (\<lambda>_ _. 0)" "pays (write_target h) (\<lambda>_ _. 0) (\<lambda>_ _. 0)"
  "pays (answer_has_sent_return i es) (\<lambda>_ _. 0) (\<lambda>_ _. 0)"
  by (rule pays_even; rule even_rules keep_rules)+

lemma pays_if: "pays m dx di \<Longrightarrow> pays n dx di \<Longrightarrow> pays (if b then m else n) dx di"
  by simp

text \<open>A message with descriptors that were written before.\<close>

lemma write_then_send_pays:
  assumes "\<And>ds es. pays (k ds es) (\<lambda>_ j. - int (count_caps j ds)) (\<lambda>_ _. 0)"
  shows "pays (bindp (write_descriptors caps) (\<lambda>(ds, es). k ds es)) (\<lambda>_ _. 0) (\<lambda>_ _. 0)"
  by (rule pays_bindp [OF write_descriptors_pays, where c = "\<lambda>x _ j. - int (count_caps j (fst x))" and d = "\<lambda>_ _ _. 0"])
    (use assms in \<open>auto split: prod.splits\<close>)

lemma send_then_even:
  assumes "proper msg" "\<And>i. given_back i msg = 0" "\<And>i. count_caps i (message_caps msg) = count_caps i ds"
    and "pays n (\<lambda>_ _. 0) (\<lambda>_ _. 0)"
  shows "pays (seqp (send_message msg) n) (\<lambda>_ j. - int (count_caps j ds)) (\<lambda>_ _. 0)"
  unfolding seqp_def
  by (rule pays_then_even [OF pays_send [OF assms(1)]]) (simp_all add: assms)

lemma send_call_settles [settle_rules]: "settles (send_call target ifc meth caps tail)"
proof (rule settles_pays)
  show "never_fails (send_call target ifc meth caps tail)"
    unfolding send_call_def by (intro safe_rules)
  show "pays (send_call target ifc meth caps tail) (\<lambda>_ _. 0) (\<lambda>_ _. 0)"
    unfolding send_call_def
    by (intro write_then_send_pays even_then_pays [OF question_pays(1)] send_then_even)
      (auto intro!: pays_even_then question_pays pays_ret)
qed

lemma gets_connection_live: "live_ok s \<Longrightarrow> bindp (gets connection) f s = f None s"
  by (simp add: gets_run live_ok_def)

lemma pays_connection: "pays (f None) dx di \<Longrightarrow> pays (bindp (gets connection) f) dx di"
  by (simp add: pays_def gets_connection_live)

lemma settles_connection: "settles (f None) \<Longrightarrow> settles (bindp (gets connection) f)"
  by (simp add: settles_def gets_connection_live)

lemma outgoing_live: "live_ok s \<Longrightarrow> new_outgoing_message s = (Ok (), s)"
  by (simp add: new_outgoing_message_def gets_connection_live ret_def)

lemma settles_outgoing: "settles n \<Longrightarrow> settles (seqp new_outgoing_message n)"
  by (simp add: settles_def seqp_Ok [of new_outgoing_message, OF outgoing_live])

lemma pays_outgoing: "pays n dx di \<Longrightarrow> pays (seqp new_outgoing_message n) dx di"
  by (simp add: pays_def seqp_Ok [of new_outgoing_message, OF outgoing_live])

text \<open>With a connection there is no way for a streaming call to fail.\<close>

lemma settles_cong:
  assumes "\<And>s. live_ok s \<Longrightarrow> m s = n s" "settles n"
  shows "settles m"
  using assms by (simp add: settles_def)

lemma send_streaming_live:
  assumes s: "live_ok s"
  shows "send_streaming target ifc meth caps b s = bindp (write_descriptors caps) (\<lambda>(ds, es).
    bindp (on_questions (table_push (question_new\<lparr>param_exports := es\<rparr>))) (\<lambda>q.
      seqp (register_ref q) (seqp (send_message (MCall q target ifc meth ds ToCaller)) (ret q)))) s"
proof -
  let ?k = "\<lambda>ds es. bindp (on_questions (table_push (question_new\<lparr>param_exports := es\<rparr>))) (\<lambda>q.
     seqp (register_ref q) (seqp (send_message (MCall q target ifc meth ds ToCaller)) (ret q)))"
  have ref: "seqp (register_ref q) (bindp (gets connection) (\<lambda>c.
      if \<not> b \<and> c \<noteq> None then seqp (drop_question_ref q) (err Failed)
      else seqp (send_message (msg q)) (ret q))) u = seqp (register_ref q) (seqp (send_message (msg q)) (ret q)) u"
    if "connection u = None" for msg :: "u32 \<Rightarrow> rpc_message" and q u
  proof (cases "register_ref q u")
    case (Pair r v)
    then have "connection v = connection u"
      by (auto simp: register_ref_def the_question_def set_question_def run_simps table_index_def
          split: if_splits outcome.splits option.splits)
    with Pair that show ?thesis by (auto simp: seqp_def bindp_def gets_def split: outcome.splits)
  qed
  have step: "bindp (on_questions (table_push (question_new\<lparr>param_exports := es\<rparr>))) (\<lambda>q.
      seqp (register_ref q) (bindp (gets connection) (\<lambda>c.
      if \<not> b \<and> c \<noteq> None then seqp (drop_question_ref q) (err Failed)
      else seqp (send_message (MCall q target ifc meth ds ToCaller)) (ret q)))) u = ?k ds es u"
    if "connection u = None" for ds es u
  proof (cases "on_questions (table_push (question_new\<lparr>param_exports := es\<rparr>)) u")
    case (Pair r v)
    then have "connection v = None" using that by (auto simp: on_questions_def split: prod.splits)
    from ref [OF this, of _ "\<lambda>q. MCall q target ifc meth ds ToCaller"] Pair show ?thesis
      by (simp add: bindp_def [of "on_questions _"] split: outcome.splits)
  qed
  obtain r u where w: "write_descriptors caps s = (r, u)" by (cases "write_descriptors caps s")
  show ?thesis
  proof (cases r)
    case (Ok x)
    then have "connection u = None" using paysD(1) [OF write_descriptors_pays s] w by (simp add: live_ok_def)
    from step [OF this] w Ok show ?thesis using w by (cases x) (simp add: send_streaming_def bindp_Ok)
  qed (simp_all add: send_streaming_def bindp_def w)
qed

lemma send_streaming_settles [settle_rules]: "settles (send_streaming target ifc meth caps b)"
proof -
  let ?k = "\<lambda>ds es. bindp (on_questions (table_push (question_new\<lparr>param_exports := es\<rparr>))) (\<lambda>q.
     seqp (register_ref q) (seqp (send_message (MCall q target ifc meth ds ToCaller)) (ret q)))"
  have "settles (bindp (write_descriptors caps) (\<lambda>(ds, es). ?k ds es))"
  proof (rule settles_pays)
    show "never_fails (bindp (write_descriptors caps) (\<lambda>(ds, es). ?k ds es))" by (intro safe_rules)
    show "pays (bindp (write_descriptors caps) (\<lambda>(ds, es). ?k ds es)) (\<lambda>_ _. 0) (\<lambda>_ _. 0)"
      by (intro write_then_send_pays even_then_pays [OF question_pays(1)] pays_even_then [OF question_pays(2)]
          send_then_even) (auto intro!: pays_ret)
  qed
  with send_streaming_live show ?thesis by (rule settles_cong)
qed

lemma ret_settles: "settles (ret x)"
  by (rule settles_pays [OF pays_ret]) (rule safe_rules)

lemma request_settles [settle_rules]: "settles (request_send h ifc meth caps)" "settles bootstrap"
proof -
  have "settles (write_target h)" by (rule settles_pays) (rule question_pays safe_rules)+
  then show "settles (request_send h ifc meth caps)"
    unfolding request_send_def
    by (rule settles_bindp) (auto intro!: settles_bindp send_call_settles ret_settles split: sum.splits)
  show "settles bootstrap" by (rule settles_even) (rule even_rules keep_rules)+
qed

lemma objects_settle [settle_rules]:
  "settles (drop_question_ref q)" "settles (drop_client f)" "settles (drop_import i)" "settles (drop_pipeline_client a)"
  "settles (drop_promise_client a)" "settles (pipelined_cap q ops b)" "settles (promise_resolve pl a' r)"
  "settles run_disembargo"
proof -
  show "settles (drop_import i)"
    by (rule settles_pays [OF drop_import_pays]) (unfold drop_import_def forget_ptr_def, intro safe_rules)
qed (rule settles_even; rule even_rules keep_rules)+

lemma results_done_settles [settle_rules]: "settles (results_done i status caps)"
proof (rule settles_pays)
  show "never_fails (results_done i status caps)"
    unfolding results_done_def answer_has_sent_return_def by (intro safe_rules)
  have upd: "pays (modifyp (update_answer i f)) (\<lambda>_ _. 0) (\<lambda>_ _. 0)" for f
    by (rule pays_even; intro keep_rules; simp)
  have plain: "pays (seqp (send_message msg) (answer_has_sent_return i es)) (\<lambda>_ _. 0) (\<lambda>_ _. 0)"
    if "proper msg" "\<And>i. given_back i msg = 0" "message_caps msg = []" for msg es
    using send_then_even [OF that(1,2), of "[]", OF _ question_pays(5)] that(3) by simp
  have canceled: "pays (seqp (send_message (MReturn i False Canceled)) (answer_has_sent_return i [])) (\<lambda>_ _. 0) (\<lambda>_ _. 0)"
    and failed: "pays (seqp (send_message (MReturn i False (ReturnException x))) (answer_has_sent_return i []))
      (\<lambda>_ _. 0) (\<lambda>_ _. 0)" for x
    by (rule plain; simp)+
  have "pays (bindp (write_descriptors caps) (\<lambda>(ds, es).
          seqp (send_message (MReturn i nf (Results ds))) (answer_has_sent_return i es))) (\<lambda>_ _. 0) (\<lambda>_ _. 0)" for nf
    by (intro write_then_send_pays send_then_even question_pays) simp_all
  then have full: "pays (seqp (if caps = [] then modifyp (update_answer i (\<lambda>a. a\<lparr>received_finish := True\<rparr>)) else ret ())
      (bindp (write_descriptors caps) (\<lambda>(ds, es).
          seqp (send_message (MReturn i (caps = []) (Results ds))) (answer_has_sent_return i es)))) (\<lambda>_ _. 0) (\<lambda>_ _. 0)"
    by (rule pays_even_then [rotated]) (auto intro: upd pays_ret)
  show "pays (results_done i status caps) (\<lambda>_ _. 0) (\<lambda>_ _. 0)"
    unfolding results_done_def
    by (intro pays_gets pays_if canceled; cases status; simp only: option.case failed full)
qed

text \<open>The export of a resolved promise keeps its references.\<close>

lemma announce_resolution_settles: "settles (announce_resolution i h)"
  unfolding announce_resolution_def
proof (rule settles_outgoing, rule settles_pays)
  show "never_fails (bindp (write_descriptor h) (\<lambda>(d, _). send_message (MResolve i (ResolveCap d))))"
    by (intro safe_rules)
  show "pays (bindp (write_descriptor h) (\<lambda>(d, _). send_message (MResolve i (ResolveCap d)))) (\<lambda>_ _. 0) (\<lambda>_ _. 0)"
    by (rule pays_bindp [OF write_descriptor_pays, where c = "\<lambda>x _ j. - int (exported j (fst x))" and d = "\<lambda>_ _ _. 0"])
      (use pays_send [of "MResolve i (ResolveCap _)"] in \<open>auto split: prod.splits\<close>)
qed

lemma repoint_export_settles: "settles (repoint_export i h)"
  unfolding settles_def
proof (intro allI impI)
  fix s r t assume s: "live_ok s" and run: "repoint_export i h s = (r, t)" "r \<noteq> Panic"
  have ok: "conn_ok s" "connection s = None" using s by (simp_all add: live_ok_def)
  show "live_ok t \<and> balanced s t"
  proof (cases "table_find i (exports s)")
    case None
    then show ?thesis using run s by (auto simp: repoint_export_def run_simps)
  next
    case (Some e)
    define bc where "bc = (if canonical e then (exports_by_cap s)(get_ptr (client_hook e) := None)
      else exports_by_cap s)"
    have live: "table_find i (exports s) \<noteq> None" using Some by simp
    note find = ids.look_put [OF exports_relD(1) [OF conn_ok_rel [OF ok]] live]
    have same: "balanced s (s\<lparr>exports_by_cap := m, exports := table_set i (e\<lparr>client_hook := h, canonical := b\<rparr>) (exports s)\<rparr>)"
      for m b
      by (rule movesI) (use Some in \<open>auto simp: refs_def imps_def find\<close>)
    show ?thesis
    proof (cases "reuses_export i h bc")
      case True
      have "t = s\<lparr>exports_by_cap := bc(get_ptr h \<mapsto> i),
          exports := table_set i (e\<lparr>client_hook := h, canonical := True\<rparr>) (exports s)\<rparr>"
        using run(1) Some True by (cases "canonical e") (simp_all add: repoint_export_def run_simps bc_def)
      moreover have "conn_ok t" by (rule maintainsD [OF repoint_export_maintains ok(1) run])
      ultimately show ?thesis using same ok by (simp add: live_ok_def)
    next
      case False
      let ?u = "s\<lparr>exports_by_cap := bc, exports := table_set i (e\<lparr>client_hook := h, canonical := False\<rparr>) (exports s)\<rparr>"
      have a: "announce_resolution i h ?u = (r, t)"
        using run(1) Some False by (cases "canonical e") (simp_all add: repoint_export_def run_simps bc_def)
      have "live_ok ?u"
        using conn_ok_exports(3) [OF ok(1) exports_rel_resolved(1) [OF conn_ok_rel [OF ok] Some bc_def]] ok(2)
        by (simp add: live_ok_def)
      from settlesD [OF announce_resolution_settles this a run(2)] show ?thesis
        using even_trans [OF same] by blast
    qed
  qed
qed

lemma exported_promise_resolved_settles [settle_rules]: "settles (exported_promise_resolved i r)"
proof (cases r)
  case (Inl e)
  have "settles (send_message (MResolve i (ResolveException (from_error e))))"
    by (rule settles_even; intro even_rules keep_rules; simp)
  then show ?thesis using Inl by (simp add: exported_promise_resolved_def settles_outgoing)
next
  case (Inr c)
  have "settles (downcast p)" for p by (rule settles_even) (rule even_rules keep_rules)+
  then show ?thesis
    using Inr by (auto simp: exported_promise_resolved_def Let_def
        intro!: settles_seqp repoint_export_settles)
qed

text \<open>Everything that the application does keeps the books balanced.\<close>

lemma local_step_settles:
  assumes "allowed ev s" "live_ok s" "rpc_step pl now ev s = (r, t)" "r \<noteq> Panic"
  shows "live_ok t" "balanced s t"
proof -
  have "settles (rpc_step pl now ev)"
  proof (cases ev)
    case (Incoming m)
    then show ?thesis using assms(1) by (simp add: allowed_def)
  next
    case Shutdown
    then show ?thesis using assms(1) by (simp add: allowed_def)
  qed (auto intro!: settle_rules settles_seqp ret_settles simp del: seqp_ret_unit)
  from settlesD [OF this assms(2-4)] show "live_ok t" "balanced s t" by simp_all
qed

section \<open>What the messages do\<close>

lemma pays_err: "pays (seqp m (err e)) dx di"
  by (auto simp: pays_def seqp_def bindp_def err_def split: prod.splits outcome.splits)

lemma pays_modify:
  "(\<And>s. connection (f s) = connection s \<and> outbox (f s) = outbox s \<and> exports (f s) = exports s \<and>
      import_table (f s) = import_table s \<and> conn_ok (f s) = conn_ok s) \<Longrightarrow> pays (modifyp f) (\<lambda>_ _. 0) (\<lambda>_ _. 0)"
  by (auto simp: pays_def modifyp_def live_ok_def refs_def imps_def intro!: movesI)

lemma handle_unimplemented_pays:
  "pays (handle_unimplemented m) (\<lambda>_ j. - int (given_back j (MUnimplemented m))) (\<lambda>_ _. 0)"
proof -
  have one: "(\<lambda>_ :: unit. \<lambda>j. - (if j = e then int (unat (1 :: u32)) else 0)) = (\<lambda>_ j. - int (if e = j then 1 else 0))" for e
    by (auto simp: fun_eq_iff)
  show ?thesis
  proof (cases m)
    case (MResolve i r)
    show ?thesis
    proof (cases r)
      case (ResolveCap d)
      then show ?thesis
        using MResolve release_export_pays [of _ 1, unfolded one]
        by (cases d) (simp_all add: handle_unimplemented_def pays_ret)
    next
      case ResolveException
      then show ?thesis using MResolve by (simp add: handle_unimplemented_def pays_ret)
    qed
  qed (simp_all add: handle_unimplemented_def)
qed

lemma handle_bootstrap_pays: "pays (handle_bootstrap i) (\<lambda>_ _. 0) (\<lambda>_ _. 0)"
proof -
  have send: "pays (send_message (MReturn i False (Results ds))) (\<lambda>_ j. - int (count_caps j ds)) (\<lambda>_ _. 0)" for ds
    using pays_send [of "MReturn i False (Results ds)"] by simp
  have "pays (bindp (write_descriptors [Some h]) (\<lambda>(ds, es).
        bindp (gets (\<lambda>s. answers s i)) (\<lambda>found. case found of
          Some a \<Rightarrow> seqp (release_exports es) (err Failed)
        | None \<Rightarrow>
            seqp (modifyp (\<lambda>s. s\<lparr>answers := (answers s)(i \<mapsto>
              answer_new\<lparr>return_has_been_sent := True, result_exports := es, pipeline := True\<rparr>)\<rparr>))
            (send_message (MReturn i False (Results ds)))))) (\<lambda>_ _. 0) (\<lambda>_ _. 0)" for h
    by (intro write_then_send_pays pays_gets) (auto intro!: pays_err pays_even_then [OF pays_modify send] split: option.splits)
  then show ?thesis
    unfolding handle_bootstrap_def by (auto intro!: pays_gets pays_outgoing pays_ret)
qed

lemma handle_call_pays: "pays (handle_call pl i target ds to) (\<lambda>_ _. 0) (\<lambda>_ j. int (count_caps j ds))"
proof -
  have target: "pays (get_message_target pl target) (\<lambda>_ _. 0) (\<lambda>_ _. 0)"
    by (rule pays_even; rule even_rules keep_rules)
  show ?thesis
    unfolding handle_call_def
    by (rule even_then_pays [OF target])
      (auto intro!: pays_then_even [OF receive_caps_pays] pays_gets pays_modify split: option.splits)
qed

lemma handle_resolve_pays:
  "pays (handle_resolve pl i r) (\<lambda>_ _. 0) (\<lambda>_ j. int (count_caps j (message_caps (MResolve i r))))"
proof -
  have resolve: "pays (promise_resolve pl a x) (\<lambda>_ _. 0) (\<lambda>_ _. 0)" for a x
    by (rule pays_even; rule even_rules keep_rules)
  have rest: "pays (bindp (gets (\<lambda>s. import_table s i)) (\<lambda>found. case found of
       None \<Rightarrow> ret ()
     | Some e \<Rightarrow>
         seqp (modifyp (update_import i (\<lambda>e. e\<lparr>promise_client_to_resolve := None\<rparr>)))
         (case promise_client_to_resolve e of
            Some a \<Rightarrow> promise_resolve pl a x
          | None \<Rightarrow> err Failed))) (\<lambda>_ _. 0) (\<lambda>_ _. 0)" for x
    by (intro pays_gets) (auto intro!: pays_even_then import_frame_pays resolve pays_ret split: option.splits)
  show ?thesis
  proof (cases r)
    case (ResolveCap d)
    have "pays (bindp (receive_cap d) (\<lambda>c. case c of
             Some c \<Rightarrow> ret (Inr c) | None \<Rightarrow> err Failed)) (\<lambda>_ _. 0) (\<lambda>_ j. int (exported j d))"
      by (rule pays_then_even [OF receive_cap_pays]) (auto intro: pays_ret split: option.splits)
    then show ?thesis
      using ResolveCap unfolding handle_resolve_def by (auto intro!: pays_then_even [OF _ rest])
  next
    case (ResolveException e)
    then show ?thesis unfolding handle_resolve_def by (simp add: rest)
  qed
qed

lemma handle_finish_pays:
  assumes "live_ok s" "handle_finish i b s = (Ok x, t)"
  shows "live_ok t \<and> moves s t (\<lambda>j. - int (if b then count_list (held s i) j else 0)) (\<lambda>_. 0)"
proof (cases "answers s i")
  case None
  then have "release_exports [] s = (Ok x, t)" using assms(2) by (simp add: handle_finish_def gets_run)
  then show ?thesis using assms(1) None
    by (auto simp: release_exports_def ret_def held_def [of t] moves_def)
next
  case (Some a)
  define u where "u = s\<lparr>answers := (answers s)(i := if return_has_been_sent a then None
           else Some (a\<lparr>received_finish := True, pipeline := False, call_completion := False,
             result_exports := if b then [] else result_exports a\<rparr>))\<rparr>"
  have run: "release_exports (if b then result_exports a else []) u = (Ok x, t)"
    using assms(2) Some by (simp add: handle_finish_def gets_run modifyp_then u_def)
  have u: "live_ok u" "balanced s u"
    using assms(1) by (auto simp: live_ok_def u_def refs_def imps_def intro!: movesI)
  from paysD [OF release_exports_pays u(1) run] moves_trans [OF u(2)] Some show ?thesis
    by (cases b) (auto simp: held_def)
qed

lemma handle_return_pays:
  assumes s: "live_ok s" and q: "question_view s q = Some (True, alive, False)"
    and kind: "return_kind nf body \<noteq> RetOther" "alive \<Longrightarrow> return_kind nf body \<noteq> RetCanceled"
    and run: "handle_return msg q nf body s = (Ok x, t)"
  shows "live_ok t \<and> moves s t (\<lambda>_. 0) (\<lambda>j. int (if alive then count_caps j (body_caps body) else 0))"
proof -
  have ok: "conn_ok s" using s by (simp add: live_ok_def)
  obtain qu where qu: "table_find q (questions s) = Some qu" "(self_ref qu \<noteq> None) = alive"
    using q by (auto simp: question_view_def)
  have idx: "table_index q (questions s) = Ok (Some qu)"
    using qu(1) by (simp add: table_index_def table_find_def split: if_splits)
  let ?qu = "qu\<lparr>is_awaiting_return := False, skip_finish := skip_finish qu \<or> nf\<rparr>"
  let ?u = "s\<lparr>questions := table_set q ?qu (questions s)\<rparr>"
  have u: "conn_ok ?u" by (rule set_question_ok [OF ok]) (simp add: qu(1))
  then have u': "live_ok ?u" using s by (simp add: live_ok_def)
  have su: "balanced s ?u" by simp
  have fulfill: "pays (fulfill q r) (\<lambda>_ _. 0) (\<lambda>_ _. 0)" for r
    by (rule pays_even; rule even_rules keep_rules)
  have t: "conn_ok t" by (rule maintainsD [OF handle_return_maintains ok run]) simp
  show ?thesis
  proof (cases alive)
    case False
    then have "on_questions (table_erase q) ?u = (Ok (), t)"
      using run idx kind(1) qu(2) unfolding handle_return_def
      by (cases body) (simp_all add: bindp_def seqp_def gets_def set_question_run return_kind_def)
    then have "balanced ?u t" by (intro maintainsD [OF even_on_table(1) even_refl]) auto
    with False t u' show ?thesis using even_trans [OF su] by (simp add: live_ok_def moves_def)
  next
    case True
    then have some: "self_ref qu \<noteq> None" using qu(2) by simp
    show ?thesis
    proof (cases body)
      case (Results ds)
      have "bindp (receive_caps ds) (\<lambda>cs. fulfill q (ReplyResults cs)) ?u = (Ok x, t)"
        using run idx some Results unfolding handle_return_def
        by (simp add: bindp_def seqp_def gets_def set_question_run)
      note run' = this
      have "pays (bindp (receive_caps ds) (\<lambda>cs. fulfill q (ReplyResults cs))) (\<lambda>_ _. 0)
          (\<lambda>_ j. int (count_caps j ds))"
        by (rule pays_then_even [OF receive_caps_pays fulfill]) simp_all
      from paysD [OF this u' run'] have "live_ok t \<and> moves ?u t (\<lambda>_. 0) (\<lambda>j. int (count_caps j ds))"
        by simp
      then show ?thesis using moves_trans [OF su, of t "\<lambda>_. 0"] True Results by simp
    next
      case (ReturnException e)
      have "fulfill q (ReplyError (remote_exception_to_error e)) ?u = (Ok x, t)"
        using run idx some ReturnException unfolding handle_return_def
        by (simp add: bindp_def seqp_def gets_def set_question_run)
      from paysD [OF fulfill u' this] even_trans [OF su, of t] show ?thesis using ReturnException by (simp cong: if_cong)
    qed (use kind True in \<open>auto simp: return_kind_def split: if_splits\<close>)
  qed
qed

text \<open>What handling a message takes from the exports, and adds to the imports.\<close>

definition taken :: "(u32 \<Rightarrow> u32 list) \<Rightarrow> u32 \<Rightarrow> rpc_message \<Rightarrow> nat" where
  "taken h j msg = (case msg of
     MFinish i True \<Rightarrow> count_list (h i) j
   | _ \<Rightarrow> given_back j msg)"

definition alive :: "connection_state \<Rightarrow> u32 \<Rightarrow> bool" where
  "alive s q \<longleftrightarrow> (case table_find q (questions s) of Some qu \<Rightarrow> self_ref qu \<noteq> None | None \<Rightarrow> False)"

definition wanted :: "connection_state \<Rightarrow> rpc_message \<Rightarrow> bool" where
  "wanted s msg \<longleftrightarrow> (case msg of MReturn q nf body \<Rightarrow> alive s q | _ \<Rightarrow> True)"

lemma handle_message_pays:
  assumes s: "live_ok s" and run: "handle_message pl now msg s = (Ok (), t)"
    and ret: "\<And>q nf body. msg = MReturn q nf body \<Longrightarrow> \<exists>alive. question_view s q = Some (True, alive, False) \<and>
      return_kind nf body \<noteq> RetOther \<and> (alive \<longrightarrow> return_kind nf body \<noteq> RetCanceled)"
  shows "live_ok t \<and> moves s t (\<lambda>j. - int (taken (held s) j msg)) (\<lambda>j. int (carried j (filter (wanted s) [msg])))"
proof (cases msg)
  case (MUnimplemented m)
  with paysD [OF handle_unimplemented_pays s, of m] run show ?thesis
    by (auto simp: handle_message_def taken_def wanted_def)
next
  case (MAbort e)
  then show ?thesis using run by (simp add: handle_message_def err_def)
next
  case (MBootstrap i)
  with paysD [OF handle_bootstrap_pays s, of i] run show ?thesis
    by (auto simp: handle_message_def taken_def wanted_def)
next
  case (MCall i target ifc meth ds to)
  with paysD [OF handle_call_pays s, of pl i target ds to] run show ?thesis
    by (auto simp: handle_message_def taken_def wanted_def)
next
  case (MReturn q nf body)
  obtain al where q: "question_view s q = Some (True, al, False)" "return_kind nf body \<noteq> RetOther"
    "al \<Longrightarrow> return_kind nf body \<noteq> RetCanceled" using ret [OF MReturn] by blast
  have "alive s q = al" using q(1) by (auto simp: question_view_def alive_def)
  with handle_return_pays [OF s q, of msg] run MReturn show ?thesis
    by (auto simp: handle_message_def taken_def wanted_def)
next
  case (MFinish i b)
  with handle_finish_pays [OF s, of i b] run show ?thesis
    by (cases b) (auto simp: handle_message_def taken_def wanted_def)
next
  case (MResolve i r)
  with paysD [OF handle_resolve_pays s, of pl i r] run show ?thesis
    by (auto simp: handle_message_def taken_def wanted_def simp del: message_caps.simps)
next
  case (MRelease i n)
  have "(\<lambda>j. - (if j = i then int (unat n) else 0)) = (\<lambda>j. - int (given_back j msg))"
    using MRelease by (auto simp: fun_eq_iff)
  with MRelease paysD [OF release_export_pays s, of i n] run show ?thesis
    by (simp add: handle_message_def taken_def wanted_def)
next
  case (MDisembargo target ctx)
  have "settles (handle_disembargo pl now target ctx)" by (rule settles_even; rule even_rules keep_rules)
  from settlesD [OF this s] run MDisembargo show ?thesis
    by (auto simp: handle_message_def taken_def wanted_def)
next
  case MOther
  have "settles (seqp new_outgoing_message (send_message (MUnimplemented MOther)))"
    by (rule settles_even; intro even_rules keep_rules; simp)
  from settlesD [OF this s] run MOther show ?thesis
    by (auto simp: handle_message_def taken_def wanted_def)
qed

end
