(* ===== verification/Rpc_Refcount.thy ===== *)
theory Rpc_Refcount
  imports Rpc_Ledger Rpc_Runs
begin

text \<open>
  The references to the exports of two ends that talk to each other. The reference count of an
  export is always the number of references that the peer holds, plus those that are on their
  way to it in descriptors that it will accept, plus those that are on their way back, in
  \<open>Release\<close> messages and in \<open>Finish\<close> messages that release the exports of results. So an export
  lives exactly as long as somebody may still use it, and no release is ever refused.
\<close>

section \<open>References on their way back\<close>

text \<open>The exports that the answers keep, once a message has been handled.\<close>

definition settle :: "rpc_message \<Rightarrow> (u32 \<Rightarrow> u32 list) \<Rightarrow> u32 \<Rightarrow> u32 list" where
  "settle m h = (case m of
     MFinish q b \<Rightarrow> h(q := [])
   | MCall q target ifc meth ds to \<Rightarrow> h(q := [])
   | MBootstrap q \<Rightarrow> h(q := [])
   | _ \<Rightarrow> h)"

fun owed :: "u32 \<Rightarrow> (u32 \<Rightarrow> u32 list) \<Rightarrow> rpc_message list \<Rightarrow> nat" where
  "owed i h [] = 0"
| "owed i h (m # ms) = taken h i m + owed i (settle m h) ms"

fun settles_to :: "rpc_message list \<Rightarrow> (u32 \<Rightarrow> u32 list) \<Rightarrow> u32 \<Rightarrow> u32 list" where
  "settles_to [] h = h"
| "settles_to (m # ms) h = settles_to ms (settle m h)"

lemma owed_append: "owed i h (ms @ ns) = owed i h ms + owed i (settles_to ms h) ns"
  by (induction ms arbitrary: h) simp_all

lemma settles_to_apply: "settles_to ms h q = (if asks q ms = [] then h q else [])"
proof (induction ms arbitrary: h)
  case (Cons m ms)
  then show ?case by (cases m) (simp_all add: settle_def asks_of_def)
qed simp

text \<open>The flags of the \<open>Finish\<close> messages about an id.\<close>

definition finish_flags :: "u32 \<Rightarrow> rpc_message list \<Rightarrow> bool list" where
  "finish_flags q ms = concat (map (\<lambda>m. case m of MFinish i b \<Rightarrow> if i = q then [b] else [] | _ \<Rightarrow> []) ms)"

lemma finish_flags_simps [simp]:
  "finish_flags q [] = []" "finish_flags q (ms @ ns) = finish_flags q ms @ finish_flags q ns"
  "finish_flags q (m # ms) = (case m of MFinish i b \<Rightarrow> if i = q then [b] else [] | _ \<Rightarrow> []) @ finish_flags q ms"
  by (simp_all add: finish_flags_def)

lemma asks_flags: "asks q ms = [] \<Longrightarrow> finish_flags q ms = []"
proof (induction ms)
  case (Cons m ms)
  then show ?case by (cases m) (auto simp: asks_of_def split: if_splits)
qed simp

lemma asks_one_flag: "asks q ms = [Fin] \<Longrightarrow> \<exists>b. finish_flags q ms = [b]"
proof (induction ms)
  case (Cons m ms)
  then show ?case by (cases m) (auto simp: asks_of_def asks_flags split: if_splits)
qed simp

lemma owed_irrelevant: "asks q ms = [] \<Longrightarrow> owed i (h(q := v)) ms = owed i h ms"
proof (induction ms arbitrary: h)
  case (Cons m ms)
  have tl: "asks q ms = []" and hd: "asks_of q m = []" using Cons.prems by simp_all
  have 1: "taken (h(q := v)) i m = taken h i m"
    using hd by (cases m) (auto simp: taken_def asks_of_def split: bool.splits)
  have 2: "settle m (h(q := v)) = (settle m h)(q := v)"
    using hd by (cases m) (auto simp: settle_def asks_of_def split: if_splits)
  show ?case unfolding owed.simps 1 2 Cons.IH [OF tl] ..
qed simp

lemma owed_finish:
  "asks q ms = [Fin] \<Longrightarrow> finish_flags q ms = [True] \<Longrightarrow> h q = [] \<Longrightarrow>
    owed i (h(q := v)) ms = owed i h ms + count_list v i"
proof (induction ms arbitrary: h)
  case (Cons m ms)
  show ?case
  proof (cases "asks_of q m = []")
    case True
    have 1: "taken (h(q := v)) i m = taken h i m"
      using True by (cases m) (auto simp: taken_def asks_of_def split: bool.splits)
    have 2: "settle m (h(q := v)) = (settle m h)(q := v)" "settle m h q = []"
      using True Cons.prems(3) by (cases m; auto simp: settle_def asks_of_def split: if_splits)+
    have 3: "asks q ms = [Fin]" "finish_flags q ms = [True]"
      using True Cons.prems by (cases m; auto simp: asks_of_def split: if_splits)+
    show ?thesis unfolding owed.simps 1 2(1) Cons.IH [where h = "settle m h", OF 3 2(2)] by simp
  next
    case False
    then obtain b where m: "m = MFinish q b" "asks q ms = []"
      using Cons.prems(1) by (cases m) (auto simp: asks_of_def split: if_splits)
    then have b: "b = True" using Cons.prems(2) asks_flags [of q ms] by simp
    have 1: "settle m (h(q := v)) = h" "settle m h = h"
      using Cons.prems(3) by (auto simp: m settle_def fun_eq_iff)
    show ?thesis unfolding owed.simps 1 using Cons.prems(3) by (simp add: m b taken_def)
  qed
qed simp

lemma owed_given: "(\<And>q. MFinish q True \<notin> set ms) \<Longrightarrow> owed i h ms = given i ms"
proof (induction ms arbitrary: h)
  case (Cons m ms)
  have "taken h i m = given_back i m" using Cons.prems by (cases m) (auto simp: taken_def split: bool.splits)
  then show ?case using Cons by simp
qed simp

section \<open>References on their way to the peer\<close>

definition is_return :: "u32 \<Rightarrow> rpc_message \<Rightarrow> bool" where
  "is_return q m \<longleftrightarrow> (case m of MReturn i nf body \<Rightarrow> i = q | _ \<Rightarrow> False)"

lemma returns_filter: "length (returns q ms) = length (filter (is_return q) ms)"
proof (induction ms)
  case (Cons m ms)
  then show ?case by (cases m) (auto simp: returns_of_def is_return_def)
qed simp

lemma filter_return_cases:
  assumes "length (returns q ms) \<le> 1"
  obtains "filter (is_return q) ms = []" "returns q ms = []"
  | nf body where "filter (is_return q) ms = [MReturn q nf body]" "MReturn q nf body \<in> set ms"
      "returns q ms \<noteq> []"
proof (cases "filter (is_return q) ms")
  case Nil
  then show ?thesis using that(1) returns_filter [of q ms] by simp
next
  case (Cons m l)
  then have l: "l = []" using assms returns_filter [of q ms] by simp
  have m: "m \<in> set ms" "is_return q m" using Cons_eq_filterD [OF Cons [symmetric]] by auto
  have "returns q ms \<noteq> []" using Cons returns_filter [of q ms] by auto
  moreover obtain nf body where "m = MReturn q nf body"
    using m(2) by (cases m) (auto simp: is_return_def)
  ultimately show ?thesis using that(2) Cons l m(1) by simp
qed

lemma carried_split:
  assumes "\<And>j. j \<noteq> q \<Longrightarrow> alive t j = alive s j \<or> returns j ms = []" "alive s q" "\<not> alive t q"
  shows "carried i (filter (wanted s) ms) = carried i (filter (wanted t) ms) + carried i (filter (is_return q) ms)"
  using assms(1)
proof (induction ms)
  case (Cons m ms)
  have tl: "j \<noteq> q \<Longrightarrow> alive t j = alive s j \<or> returns j ms = []" for j using Cons.prems [of j] by auto
  show ?case
  proof (cases "\<exists>j nf body. m = MReturn j nf body")
    case True
    then obtain j nf body where m: "m = MReturn j nf body" by blast
    show ?thesis
    proof (cases "j = q")
      case True
      then show ?thesis using Cons.IH [OF tl] assms(2,3) by (simp add: m wanted_def is_return_def)
    next
      case False
      then have "alive t j = alive s j" using Cons.prems [of j] by (auto simp: m returns_of_def)
      with False Cons.IH [OF tl] show ?thesis by (simp add: m wanted_def is_return_def)
    qed
  next
    case False
    then have "wanted s m" "wanted t m" "\<not> is_return q m" by (cases m; simp add: wanted_def is_return_def)+
    then show ?thesis using Cons.IH [OF tl] by simp
  qed
qed simp

lemma carried_same:
  assumes "\<And>j. alive t j = alive s j \<or> returns j ms = []"
  shows "carried i (filter (wanted s) ms) = carried i (filter (wanted t) ms)"
proof -
  have "filter (wanted s) ms = filter (wanted t) ms"
  proof (rule filter_cong [OF refl])
    fix m assume m: "m \<in> set ms"
    show "wanted s m = wanted t m"
    proof (cases "\<exists>j nf body. m = MReturn j nf body")
      case True
      then obtain j nf body where j: "m = MReturn j nf body" by blast
      then have "filter (is_return j) ms \<noteq> []" using m by (force simp: filter_empty_conv is_return_def)
      then have "returns j ms \<noteq> []" using returns_filter [of j ms] by auto
      with assms [of j] show ?thesis by (simp add: j wanted_def)
    qed (cases m; simp add: wanted_def)
  qed
  then show ?thesis by simp
qed

lemma carried_all:
  assumes "\<And>j. returns j ms = [] \<or> alive s j"
  shows "carried i (filter (wanted s) ms) = carried i ms"
proof -
  have "filter (wanted s) ms = ms"
  proof (rule filter_True, rule ballI)
    fix m assume m: "m \<in> set ms"
    show "wanted s m"
    proof (cases "\<exists>j nf body. m = MReturn j nf body")
      case True
      then obtain j nf body where j: "m = MReturn j nf body" by blast
      then have "filter (is_return j) ms \<noteq> []" using m by (force simp: filter_empty_conv is_return_def)
      then have "returns j ms \<noteq> []" using returns_filter [of j ms] by auto
      with assms [of j] show ?thesis by (simp add: j wanted_def)
    qed (cases m; simp add: wanted_def)
  qed
  then show ?thesis by simp
qed

lemma carried_dead:
  assumes "\<And>j. j \<noteq> q \<Longrightarrow> returns j ms = []" "\<not> alive s q"
  shows "carried i ms = carried i (filter (wanted s) ms) + carried i (filter (is_return q) ms)"
  using assms(1)
proof (induction ms)
  case (Cons m ms)
  have tl: "j \<noteq> q \<Longrightarrow> returns j ms = []" for j using Cons.prems [of j] by auto
  show ?case
    using Cons.IH [OF tl] Cons.prems assms(2)
    by (cases m) (force simp: wanted_def is_return_def returns_of_def)+
qed simp

section \<open>The books of two ends\<close>

text \<open>
  \<open>s\<close> exports to \<open>u\<close>; \<open>F\<close> is under way to \<open>u\<close> and \<open>G\<close> to \<open>s\<close>. A \<open>Return\<close> for a question that was
  canceled brings nothing; the \<open>Finish\<close> that canceled it releases its exports.
\<close>

definition books :: "connection_state \<Rightarrow> connection_state \<Rightarrow> rpc_message list \<Rightarrow> rpc_message list \<Rightarrow> bool" where
  "books s u F G \<longleftrightarrow> (\<forall>i. refs s i = imps u i + carried i (filter (wanted u) F) + owed i (held s) G)"

definition returns_kept :: "connection_state \<Rightarrow> connection_state \<Rightarrow> rpc_message list \<Rightarrow> bool" where
  "returns_kept s u F \<longleftrightarrow> (\<forall>q nf body i. MReturn q nf body \<in> set F \<longrightarrow> alive u q \<longrightarrow>
     count_caps i (body_caps body) = count_list (held s q) i)"

definition dead :: "connection_state \<Rightarrow> u32 \<Rightarrow> bool" where
  "dead s q \<longleftrightarrow> (case table_find q (questions s) of Some qu \<Rightarrow> self_ref qu = None | None \<Rightarrow> False)"

definition cancels_release :: "connection_state \<Rightarrow> rpc_message list \<Rightarrow> bool" where
  "cancels_release u G \<longleftrightarrow> (\<forall>q. dead u q \<longrightarrow> finish_flags q G = [] \<or> last (finish_flags q G))"

definition results_ok :: "connection_state \<Rightarrow> bool" where
  "results_ok s \<longleftrightarrow> (\<forall>i a. answers s i = Some a \<longrightarrow> \<not> return_has_been_sent a \<longrightarrow> result_exports a = [])"

definition side :: "connection_state \<Rightarrow> connection_state \<Rightarrow> rpc_message list \<Rightarrow> rpc_message list \<Rightarrow> bool" where
  "side s u F G \<longleftrightarrow> books s u F G \<and> returns_kept s u F \<and> cancels_release u G \<and> results_ok s \<and>
     (\<forall>m \<in> set G. proper m)"

lemma sideD:
  assumes "side s u F G"
  shows "refs s i = imps u i + carried i (filter (wanted u) F) + owed i (held s) G"
    "MReturn q nf body \<in> set F \<Longrightarrow> alive u q \<Longrightarrow> count_caps i (body_caps body) = count_list (held s q) i"
    "dead u q \<Longrightarrow> finish_flags q G = [] \<or> last (finish_flags q G)" "results_ok s" "m \<in> set G \<Longrightarrow> proper m"
  using assms by (auto simp: side_def books_def returns_kept_def cancels_release_def)

lemma in_returns: "MReturn q nf body \<in> set ms \<Longrightarrow> returns q ms \<noteq> []"
  using returns_filter [of q ms] by (force simp: filter_empty_conv is_return_def)

lemma cancels_drop: "cancels_release u (hm @ rest) \<Longrightarrow> cancels_release u rest"
  unfolding cancels_release_def
  by (metis append_is_Nil_conv finish_flags_simps(2) last_appendR)

text \<open>The exporting end acts: it sends descriptors, and answers nothing.\<close>

lemma exporter_plain:
  assumes side: "side s u F (hm @ rest)"
    and moved: "\<And>j. refs t j + owed j (held s) hm = refs s j + carried j ms"
    and held: "held t = settles_to hm (held s)" and none: "\<And>q. returns q ms = []"
    and others: "\<And>q. returns q F \<noteq> [] \<Longrightarrow> alive u q \<Longrightarrow> held t q = held s q" and ok: "results_ok t"
  shows "side t u (F @ ms) rest"
  unfolding side_def
proof (intro conjI)
  show "books t u (F @ ms) rest"
    unfolding books_def
  proof
    fix i
    have "carried i (filter (wanted u) ms) = carried i ms" by (rule carried_all) (simp add: none)
    then show "refs t i = imps u i + carried i (filter (wanted u) (F @ ms)) + owed i (held t) rest"
      using sideD(1) [OF side, of i] moved [of i] by (simp add: held owed_append)
  qed
  show "returns_kept t u (F @ ms)"
    unfolding returns_kept_def
  proof (intro allI impI)
    fix q nf body i assume m: "MReturn q nf body \<in> set (F @ ms)" and al: "alive u q"
    then have "MReturn q nf body \<in> set F" using in_returns [of q nf body ms] none by auto
    then show "count_caps i (body_caps body) = count_list (held t q) i"
      using sideD(2) [OF side _ al] others [OF in_returns al] by simp
  qed
  show "cancels_release u rest"
    by (rule cancels_drop [where hm = hm]) (use side in \<open>simp add: side_def\<close>)
qed (use ok sideD(5) [OF side] in auto)

text \<open>The exporting end answers the question \<open>i\<close>.\<close>

lemma exporter_return:
  assumes side: "side s u F (hm @ rest)"
    and moved: "\<And>j. refs t j + owed j (held s) hm = refs s j + carried j ms"
    and held: "\<And>j. j \<noteq> i \<Longrightarrow> held t j = settles_to hm (held s) j" "settles_to hm (held s) i = []"
    and none: "\<And>j. j \<noteq> i \<Longrightarrow> returns j ms = []" and one: "length (returns i ms) = 1"
    and body: "\<And>nf body j. MReturn i nf body \<in> set ms \<Longrightarrow> count_caps j (body_caps body) = count_list (held t i) j"
    and al: "alive u i \<Longrightarrow> asks i rest = [] \<and> returns i F = []"
    and dead: "\<not> alive u i \<Longrightarrow> asks i rest = [] \<and> held t i = [] \<or> asks i rest = [Fin] \<and> finish_flags i rest = [True]"
    and others: "\<And>q. q \<noteq> i \<Longrightarrow> returns q F \<noteq> [] \<Longrightarrow> alive u q \<Longrightarrow> held t q = held s q" and ok: "results_ok t"
  shows "side t u (F @ ms) rest"
  unfolding side_def
proof (intro conjI)
  let ?h = "settles_to hm (held s)"
  have held': "held t = ?h(i := held t i)" using held(1) by auto
  obtain nf body where ret: "filter (is_return i) ms = [MReturn i nf body]" "MReturn i nf body \<in> set ms"
  proof (rule filter_return_cases [of i ms])
    show "length (returns i ms) \<le> 1" using one by simp
  qed (use one that in auto)
  show "books t u (F @ ms) rest"
    unfolding books_def
  proof
    fix j
    have "carried j ms + owed j ?h rest = carried j (filter (wanted u) ms) + owed j (held t) rest"
    proof (cases "alive u i")
      case True
      then have "carried j (filter (wanted u) ms) = carried j ms" using none by (intro carried_all) metis
      moreover have "owed j (held t) rest = owed j ?h rest"
        using owed_irrelevant al [OF True] held' by metis
      ultimately show ?thesis by simp
    next
      case False
      have "carried j ms = carried j (filter (wanted u) ms) + count_caps j (body_caps body)"
        using carried_dead [OF none False, of j] ret(1) by simp
      moreover have "count_caps j (body_caps body) = count_list (held t i) j" by (rule body [OF ret(2)])
      moreover have "owed j (held t) rest = owed j ?h rest + count_list (held t i) j"
        using dead [OF False]
      proof
        assume a: "asks i rest = [] \<and> held t i = []"
        then show ?thesis using owed_irrelevant [of i rest j ?h "[]"] held' by simp
      next
        assume a: "asks i rest = [Fin] \<and> finish_flags i rest = [True]"
        then show ?thesis using owed_finish [of i rest ?h j "held t i"] held(2) held' by simp
      qed
      ultimately show ?thesis by simp
    qed
    then show "refs t j = imps u j + carried j (filter (wanted u) (F @ ms)) + owed j (held t) rest"
      using sideD(1) [OF side, of j] moved [of j] by (simp add: owed_append)
  qed
  show "returns_kept t u (F @ ms)"
    unfolding returns_kept_def
  proof (intro allI impI)
    fix q nf body j assume m: "MReturn q nf body \<in> set (F @ ms)" and alq: "alive u q"
    show "count_caps j (body_caps body) = count_list (held t q) j"
    proof (cases "q = i")
      case True
      then have "MReturn i nf body \<in> set ms" using m al alq in_returns [of i nf body F] by auto
      with True show ?thesis using body by simp
    next
      case False
      then have "MReturn q nf body \<in> set F" using m in_returns [of q nf body ms] none [OF False] by auto
      then show ?thesis using sideD(2) [OF side _ alq] others [OF False in_returns alq] by simp
    qed
  qed
  show "cancels_release u rest"
    by (rule cancels_drop [where hm = hm]) (use side in \<open>simp add: side_def\<close>)
qed (use ok sideD(5) [OF side] in auto)

text \<open>The importing end acts.\<close>

lemma importer_step:
  assumes side: "side u s (hm @ rest) F"
    and moved: "\<And>j. imps t j + given j ms = imps s j + carried j (filter (wanted s) hm)"
    and balance: "\<And>j. carried j (filter (wanted s) rest) + given j ms =
      carried j (filter (wanted t) rest) + owed j (settles_to F (held u)) ms"
    and stays: "\<And>q. alive t q \<Longrightarrow> returns q rest \<noteq> [] \<Longrightarrow> alive s q"
    and cancel: "\<And>q. dead t q \<Longrightarrow> dead s q \<and> finish_flags q ms = [] \<or> finish_flags q ms = [True]"
    and proper: "\<And>m. m \<in> set ms \<Longrightarrow> proper m"
  shows "side u t rest (F @ ms)"
  unfolding side_def
proof (intro conjI)
  show "books u t rest (F @ ms)"
    unfolding books_def
  proof
    fix j
    show "refs u j = imps t j + carried j (filter (wanted t) rest) + owed j (held u) (F @ ms)"
      using sideD(1) [OF side, of j] moved [of j] balance [of j] by (simp add: owed_append)
  qed
  show "returns_kept u t rest"
    using sideD(2) [OF side] stays in_returns unfolding returns_kept_def
    by (metis Un_iff set_append)
  show "cancels_release t (F @ ms)"
    unfolding cancels_release_def
  proof (intro allI impI)
    fix q assume "dead t q"
    from cancel [OF this] sideD(3) [OF side, of q]
    show "finish_flags q (F @ ms) = [] \<or> last (finish_flags q (F @ ms))" by auto
  qed
qed (use sideD(4,5) [OF side] proper in auto)

section \<open>One step of the network\<close>

definition ledger_inv :: "network \<Rightarrow> bool" where
  "ledger_inv n \<longleftrightarrow> (\<forall>x. side (ends n x) (ends n (\<not> x)) (in_flight n (\<not> x)) (in_flight n x))"

text \<open>The network after the end \<open>x\<close> has handled \<open>k\<close> messages and is in state \<open>t\<close>.\<close>

definition after :: "network \<Rightarrow> bool \<Rightarrow> connection_state \<Rightarrow> nat \<Rightarrow> network" where
  "after n x t k = n\<lparr>ends := (ends n)(x := t), handled := (handled n)(x := handled n x + k)\<rparr>"

lemma after_simps [simp]:
  "ends (after n x t k) x = t" "ends (after n x t k) (\<not> x) = ends n (\<not> x)"
  "ends (after n (\<not> x) t k) x = ends n x"
  by (simp_all add: after_def)

lemma after_flight:
  assumes "network_inv n" "in_flight n x = hm @ rest" "outbox t = outbox (ends n x) @ ms"
  shows "in_flight (after n x t (length hm)) x = rest"
    "in_flight (after n x t (length hm)) (\<not> x) = in_flight n (\<not> x) @ ms"
proof -
  show "in_flight (after n x t (length hm)) x = rest"
    using assms(2) by (simp add: in_flight_def after_def drop_drop [symmetric] add.commute del: drop_drop)
  have "handled n (\<not> x) \<le> length (outbox (ends n x))"
    using assms(1) spec [of "\<lambda>y. handled n y \<le> length (outbox (ends n (\<not> y)))" "\<not> x"]
    by (simp add: network_inv_def)
  then show "in_flight (after n x t (length hm)) (\<not> x) = in_flight n (\<not> x) @ ms"
    using assms(3) by (simp add: in_flight_def after_def)
qed

lemma ledger_invI:
  assumes "network_inv n" "in_flight n x = hm @ rest" "outbox t = outbox (ends n x) @ ms"
    and "side t (ends n (\<not> x)) (in_flight n (\<not> x) @ ms) rest"
    and "side (ends n (\<not> x)) t rest (in_flight n (\<not> x) @ ms)"
  shows "ledger_inv (after n x t (length hm))"
  unfolding ledger_inv_def
proof
  fix y
  note f = after_flight [OF assms(1-3)]
  show "side (ends (after n x t (length hm)) y) (ends (after n x t (length hm)) (\<not> y))
      (in_flight (after n x t (length hm)) (\<not> y)) (in_flight (after n x t (length hm)) y)"
  proof (cases "y = x")
    case True
    then show ?thesis using f assms(4) by simp
  next
    case False
    then have "y = (\<not> x)" by auto
    then show ?thesis using f assms(5) by simp
  qed
qed

lemma ledger_side: "ledger_inv n \<Longrightarrow> side (ends n x) (ends n (\<not> x)) (in_flight n (\<not> x)) (in_flight n x)"
  by (simp add: ledger_inv_def)

lemma ledger_other: "ledger_inv n \<Longrightarrow> side (ends n (\<not> x)) (ends n x) (in_flight n x) (in_flight n (\<not> x))"
  using ledger_side [of n "\<not> x"] by simp

lemma view_alive: "alive s q \<longleftrightarrow> (\<exists>w k. question_view s q = Some (w, True, k))"
  and view_dead: "dead s q \<longleftrightarrow> (\<exists>w k. question_view s q = Some (w, False, k))"
  by (auto simp: alive_def dead_def question_view_def split: option.splits)

lemma configs:
  assumes "network_inv n"
  shows "config (question_view (ends n x) q) (answer_view (ends n (\<not> x)) q) (asks q (in_flight n (\<not> x))) (returns q (in_flight n x))"
    "config (question_view (ends n (\<not> x)) q) (answer_view (ends n x) q) (asks q (in_flight n x)) (returns q (in_flight n (\<not> x)))"
proof -
  have c: "config (question_view (ends n y) q) (answer_view (ends n (\<not> y)) q) (asks q (in_flight n (\<not> y)))
      (returns q (in_flight n y))" for y
    using assms by (simp add: network_inv_def)
  show "config (question_view (ends n x) q) (answer_view (ends n (\<not> x)) q) (asks q (in_flight n (\<not> x))) (returns q (in_flight n x))"
    by (rule c)
  show "config (question_view (ends n (\<not> x)) q) (answer_view (ends n x) q) (asks q (in_flight n x)) (returns q (in_flight n (\<not> x)))"
    using c [of "\<not> x"] by simp
qed

text \<open>While a return is on its way to a question that is still there, nothing is asked under its id.\<close>

lemma config_alive: "config (Some (w, True, k)) a fwd bwd \<Longrightarrow> bwd \<noteq> [] \<Longrightarrow> fwd = [] \<and> length bwd = 1"
  by (cases w) (auto simp: Let_def)

lemma config_None: "config None a fwd bwd \<Longrightarrow> bwd = []"
  by simp

lemma config_dead:
  "config (Some (w, False, k)) a fwd bwd \<Longrightarrow> bwd \<noteq> [] \<Longrightarrow> fwd = [Fin] \<or> fwd = [] \<and> a = None"
  by (cases w) (auto simp: Let_def)

lemma config_length: "config q a fwd bwd \<Longrightarrow> length bwd \<le> 1"
  by (induction q a fwd bwd rule: config.induct) (auto simp: Let_def)

lemma plain_step:
  assumes inv: "network_inv n" "ledger_inv n" and flight: "in_flight n x = hm @ rest"
    and out: "outbox t = outbox (ends n x) @ ms"
    and refs: "\<And>j. refs t j + owed j (held (ends n x)) hm = refs (ends n x) j + carried j ms"
    and imps: "\<And>j. imps t j + given j ms = imps (ends n x) j + carried j (filter (wanted (ends n x)) hm)"
    and held: "held t = settles_to hm (held (ends n x))" and ok: "results_ok t"
    and none: "\<And>q. returns q ms = []" and alive: "\<And>j. alive t j = alive (ends n x) j \<or> returns j rest = []"
    and dead: "\<And>q. dead t q \<Longrightarrow> dead (ends n x) q \<and> finish_flags q ms = []"
    and fins: "\<And>q. MFinish q True \<notin> set ms" and proper: "\<And>m. m \<in> set ms \<Longrightarrow> proper m"
  shows "ledger_inv (after n x t (length hm))"
proof (rule ledger_invI [OF inv(1) flight out])
  note side = ledger_side [OF inv(2), of x] ledger_other [OF inv(2), of x]
  show "side t (ends n (\<not> x)) (in_flight n (\<not> x) @ ms) rest"
  proof (rule exporter_plain [OF _ refs held none _ ok])
    show "side (ends n x) (ends n (\<not> x)) (in_flight n (\<not> x)) (hm @ rest)" using side(1) flight by simp
    fix q assume r: "returns q (in_flight n (\<not> x)) \<noteq> []" and "alive (ends n (\<not> x)) q"
    then obtain w k where "question_view (ends n (\<not> x)) q = Some (w, True, k)" by (auto simp: view_alive)
    from config_alive [OF configs(2) [OF inv(1), of x q, unfolded this] r] have "asks q hm = []"
      using flight by simp
    then show "held t q = held (ends n x) q" by (simp add: held settles_to_apply)
  qed
  show "side (ends n (\<not> x)) t rest (in_flight n (\<not> x) @ ms)"
  proof (rule importer_step [OF _ imps])
    show "side (ends n (\<not> x)) (ends n x) (hm @ rest) (in_flight n (\<not> x))" using side(2) flight by simp
    fix j
    show "carried j (filter (wanted (ends n x)) rest) + given j ms = carried j (filter (wanted t) rest) +
        owed j (settles_to (in_flight n (\<not> x)) (held (ends n (\<not> x)))) ms"
      using carried_same [of t "ends n x" rest j] alive owed_given [of ms j, OF fins] by simp
  qed (use alive dead proper in auto)
qed

lemma return_step:
  assumes inv: "network_inv n" "ledger_inv n" and flight: "in_flight n x = hm @ rest"
    and after: "network_inv (after n x t (length hm))" and out: "outbox t = outbox (ends n x) @ ms"
    and refs: "\<And>j. refs t j + owed j (held (ends n x)) hm = refs (ends n x) j + carried j ms"
    and imps: "\<And>j. imps t j + given j ms = imps (ends n x) j + carried j (filter (wanted (ends n x)) hm)"
    and held: "\<And>j. j \<noteq> i \<Longrightarrow> held t j = settles_to hm (held (ends n x)) j" "settles_to hm (held (ends n x)) i = []"
    and ok: "results_ok t" and none: "\<And>j. j \<noteq> i \<Longrightarrow> returns j ms = []" and one: "length (returns i ms) = 1"
    and body: "\<And>nf body j. MReturn i nf body \<in> set ms \<Longrightarrow> count_caps j (body_caps body) = count_list (held t i) j"
    and asks: "\<And>q. asks q ms = []" and questions: "\<And>q. question_view t q = question_view (ends n x) q"
    and proper: "\<And>m. m \<in> set ms \<Longrightarrow> proper m"
  shows "ledger_inv (after n x t (length hm))"
proof (rule ledger_invI [OF inv(1) flight out])
  note side = ledger_side [OF inv(2), of x] ledger_other [OF inv(2), of x]
  note f = after_flight [OF inv(1) flight out]
  let ?u = "ends n (\<not> x)" and ?F = "in_flight n (\<not> x)"
  have cfg: "config (question_view ?u i) (answer_view t i) (asks i rest) (returns i ?F @ returns i ms)"
    using configs(2) [OF after, of x i] f by simp
  have some: "returns i ?F @ returns i ms \<noteq> []" using one by auto
  show "side t ?u (?F @ ms) rest"
  proof (rule exporter_return [OF _ refs held none one body _ _ _ ok])
    show s: "side (ends n x) ?u ?F (hm @ rest)" using side(1) flight by simp
    show "asks i rest = [] \<and> returns i ?F = []" if al: "alive ?u i"
    proof -
      obtain w k where "question_view ?u i = Some (w, True, k)" using al by (auto simp: view_alive)
      from config_alive [OF cfg [unfolded this] some] one show ?thesis by simp
    qed
    show "asks i rest = [] \<and> held t i = [] \<or> asks i rest = [Fin] \<and> finish_flags i rest = [True]"
      if no: "\<not> alive ?u i"
    proof -
      obtain w al k where v': "question_view ?u i = Some (w, al, k)"
        using config_None cfg some by (cases "question_view ?u i") auto
      with no have v: "question_view ?u i = Some (w, False, k)" by (cases al) (auto simp: view_alive)
      then have d: "dead ?u i" by (auto simp: view_dead)
      from config_dead [OF cfg [unfolded v] some] show ?thesis
      proof
        assume a: "asks i rest = [Fin]"
        then obtain b where "finish_flags i rest = [b]" using asks_one_flag by blast
        moreover from this have b using sideD(3) [OF s d] by auto
        ultimately show ?thesis using a by simp
      next
        assume "asks i rest = [] \<and> answer_view t i = None"
        then show ?thesis by (auto simp: answer_view_def held_def split: option.splits)
      qed
    qed
    fix q assume "q \<noteq> i" and r: "returns q ?F \<noteq> []" and "alive ?u q"
    then obtain w k where "question_view ?u q = Some (w, True, k)" by (auto simp: view_alive)
    from config_alive [OF configs(2) [OF inv(1), of x q, unfolded this] r] have "asks q hm = []"
      using flight by simp
    then show "held t q = held (ends n x) q" using held(1) [OF \<open>q \<noteq> i\<close>] by (simp add: settles_to_apply)
  qed
  have same: "alive t q = alive (ends n x) q" "dead t q = dead (ends n x) q" for q
    by (simp_all add: view_alive view_dead questions)
  show "side ?u t rest (?F @ ms)"
  proof (rule importer_step [OF _ imps])
    show "side ?u (ends n x) (hm @ rest) ?F" using side(2) flight by simp
    have "MFinish q b \<notin> set ms" for q b
      using asks [of q] by (auto simp: asks_def asks_of_def)
    then show "carried j (filter (wanted (ends n x)) rest) + given j ms = carried j (filter (wanted t) rest) +
        owed j (settles_to ?F (held ?u)) ms" for j
      using carried_same [of t "ends n x" rest j] same owed_given [of ms j] by simp
  qed (use same proper asks asks_flags in auto)
qed

text \<open>A question is canceled: the \<open>Finish\<close> takes over the references of a return under way.\<close>

lemma cancel_step:
  assumes inv: "network_inv n" "ledger_inv n" and q: "question_view (ends n x) q = Some (True, True, k)"
    and out: "outbox t = outbox (ends n x) @ [MFinish q True]"
    and refs: "\<And>j. refs t j = refs (ends n x) j" and imps: "\<And>j. imps t j = imps (ends n x) j"
    and answers: "answers t = answers (ends n x)"
    and view: "\<And>j. question_view t j = (if j = q then Some (True, False, k) else question_view (ends n x) j)"
  shows "ledger_inv (after n x t 0)"
proof -
  note side = ledger_side [OF inv(2), of x] ledger_other [OF inv(2), of x]
  let ?s = "ends n x" and ?u = "ends n (\<not> x)" and ?F = "in_flight n (\<not> x)" and ?G = "in_flight n x"
  have held: "held t = held ?s" using answers by (simp add: held_def fun_eq_iff)
  have ok: "results_ok t" using sideD(4) [OF side(1)] answers by (simp add: results_ok_def)
  have alive: "alive t j = (if j = q then False else alive ?s j)" "dead t j = (if j = q then True else dead ?s j)"
    "alive ?s q" for j
    using q by (auto simp: view_alive view_dead view)
  have cfg: "config (Some (True, True, k)) (answer_view ?u q) (asks q ?F) (returns q ?G)"
    using configs(1) [OF inv(1), of x q] q by simp
  have "ledger_inv (after n x t (length ([] :: rpc_message list)))"
  proof (rule ledger_invI [OF inv(1) _ out])
    show "in_flight n x = [] @ ?G" by simp
    show "side t ?u (?F @ [MFinish q True]) ?G"
      by (rule exporter_plain [where s = ?s and hm = "[]"]) (use side(1) refs held ok in \<open>simp_all add: returns_of_def\<close>)
    show "side ?u t ?G (?F @ [MFinish q True])"
    proof (rule importer_step [where s = ?s and hm = "[]"])
      show "side ?u ?s ([] @ ?G) ?F" using side(2) by simp
      fix j
      have "carried j (filter (is_return q) ?G) = count_list (settles_to ?F (held ?u) q) j"
      proof (rule filter_return_cases [OF config_length [OF cfg]])
        assume r: "filter (is_return q) ?G = []" "returns q ?G = []"
        have "settles_to ?F (held ?u) q = []"
        proof (cases "asks q ?F = []")
          case True
          then have "answer_view ?u q = Some (False, False)" using cfg r(2) by (auto simp: Let_def)
          then have "held ?u q = []" using sideD(4) [OF side(2)]
            by (auto simp: answer_view_def held_def results_ok_def split: option.splits)
          then show ?thesis by (simp add: settles_to_apply)
        qed (simp add: settles_to_apply)
        then show ?thesis using r(1) by simp
      next
        fix nf body assume r: "filter (is_return q) ?G = [MReturn q nf body]" "MReturn q nf body \<in> set ?G"
          "returns q ?G \<noteq> []"
        have "asks q ?F = []" using config_alive [OF cfg r(3)] by simp
        then show ?thesis
          using r(1) sideD(2) [OF side(2) r(2) alive(3), of j] by (simp add: settles_to_apply)
      qed
      then show "carried j (filter (wanted ?s) ?G) + given j [MFinish q True] =
          carried j (filter (wanted t) ?G) + owed j (settles_to ?F (held ?u)) [MFinish q True]"
        using carried_split [of q t ?s ?G j] alive by (simp add: taken_def)
    qed (use imps alive in \<open>auto split: if_splits\<close>)
  qed
  then show ?thesis by simp
qed

section \<open>Answers that stay as they are\<close>

lemma quiet_answers: "(\<And>s. maintains (quiet s) m) \<Longrightarrow> maintains (\<lambda>t. answers t = A) m"
proof (rule maintainsI)
  fix s r t assume q: "\<And>s. maintains (quiet s) m" and s: "answers s = A" and run: "m s = (r, t)" "r \<noteq> Panic"
  have "quiet s t" by (rule quietD [OF q run])
  with s show "answers t = A" by (simp add: quiet_def)
qed

lemma asking_answers:
  "maintains (\<lambda>t. answers t = A) (send_call target ifc meth caps tail)"
  "maintains (\<lambda>t. answers t = A) (send_streaming target ifc meth caps b)"
  "maintains (\<lambda>t. answers t = A) (request_send h ifc meth caps)"
  "maintains (\<lambda>t. answers t = A) bootstrap" "maintains (\<lambda>t. answers t = A) (drop_question_ref q)"
proof -
  have q: "maintains (\<lambda>t. answers t = A) (on_questions m)" for m :: "(question export_table, 'b) prog"
    by (simp add: maintains_def on_questions_def split: prod.splits)
  have the: "maintains (\<lambda>t. answers t = A) (the_question q)" for q
    unfolding the_question_def by (auto intro!: keep_rules split: outcome.splits option.splits)
  have set: "maintains (\<lambda>t. answers t = A) (set_question q qu)" for q qu
    unfolding set_question_def by (intro keep_rules; simp)
  have send: "maintains (\<lambda>t. answers t = A) (send_message msg)" for msg
    unfolding send_message_def by (intro keep_rules; simp)
  have reg: "maintains (\<lambda>t. answers t = A) (register_ref q)" for q
    unfolding register_ref_def by (intro keep_rules the set)
  have descs: "maintains (\<lambda>t. answers t = A) (write_descriptors caps)" for caps
    by (rule quiet_answers) (rule quiet_rules)
  have target: "maintains (\<lambda>t. answers t = A) (write_target h)" for h
    by (rule quiet_answers) (rule quiet_rules)
  show drop: "maintains (\<lambda>t. answers t = A) (drop_question_ref q)" for q
    unfolding drop_question_ref_def by (intro keep_rules the set send q)
  show call: "maintains (\<lambda>t. answers t = A) (send_call target ifc meth caps tail)" for target ifc meth caps tail
    unfolding send_call_def by (intro keep_rules descs q send reg)
  show "maintains (\<lambda>t. answers t = A) (send_streaming target ifc meth caps b)"
    unfolding send_streaming_def by (intro keep_rules descs q send reg drop)
  show "maintains (\<lambda>t. answers t = A) (request_send h ifc meth caps)"
    unfolding request_send_def by (intro keep_rules target call)
  show "maintains (\<lambda>t. answers t = A) bootstrap"
    unfolding bootstrap_def by (intro keep_rules q send reg)
qed

section \<open>Answering\<close>

text \<open>The descriptors and the exports that \<open>write_descriptors\<close> returns count the same.\<close>

definition yields :: "('s, 'a) prog \<Rightarrow> ('a \<Rightarrow> bool) \<Rightarrow> bool" where
  "yields m P \<longleftrightarrow> (\<forall>s x t. m s = (Ok x, t) \<longrightarrow> P x)"

lemma yields_bindp: "(\<And>x. yields (f x) P) \<Longrightarrow> yields (bindp m f) P"
  by (auto simp: yields_def bindp_def split: prod.splits outcome.splits)

lemma yields_bindp_with: "yields m Q \<Longrightarrow> (\<And>x. Q x \<Longrightarrow> yields (f x) P) \<Longrightarrow> yields (bindp m f) P"
  by (fastforce simp: yields_def bindp_def split: prod.splits outcome.splits)

lemma yields_seqp: "yields n P \<Longrightarrow> yields (seqp m n) P"
  unfolding seqp_def by (rule yields_bindp)

lemma yields_simple: "yields (ret x) P = P x" "yields panic P"
  by (simp_all add: yields_def ret_def panic_def)

definition matching :: "cap_descriptor \<times> u32 option \<Rightarrow> bool" where
  "matching x \<longleftrightarrow> (\<forall>j. exported j (fst x) = count_list (case snd x of Some i \<Rightarrow> [i] | None \<Rightarrow> []) j)"

lemma export_cap_matching: "yields (export_cap h) matching"
  unfolding export_cap_def matching_def
  by (intro yields_bindp) (auto simp: yields_simple intro!: yields_bindp yields_seqp split: option.splits)

lemma write_descriptor_matching: "yields (write_descriptor h) matching"
proof -
  have "yields (seqp m (ret (ReceiverHosted i, None))) matching"
    "yields (seqp m' (ret (ReceiverAnswer q ops, None))) matching"
    for m m' :: "unit rpc" and i q ops
    by (auto intro!: yields_seqp simp: yields_simple matching_def)
  then show ?thesis
    by (induction h rule: write_descriptor.induct) (auto intro!: export_cap_matching yields_seqp)
qed

lemma write_descriptors_matching: "yields (write_descriptors caps) (\<lambda>(ds, es). \<forall>j. count_caps j ds = count_list es j)"
proof -
  let ?f = "\<lambda>c (ds, es). case c of
       Some h \<Rightarrow> bindp (write_descriptor h) (\<lambda>(d, e).
         ret (ds @ [d], case e of Some i \<Rightarrow> es @ [i] | None \<Rightarrow> es))
     | None \<Rightarrow> ret (ds @ [CapNone], es)"
  let ?P = "\<lambda>(ds, es). \<forall>j. count_caps j ds = count_list es j"
  have step: "yields (?f c (ds, es)) ?P" if "?P (ds, es)" for c ds es
  proof (cases c)
    case None
    then show ?thesis using that by (simp add: yields_simple)
  next
    case (Some h)
    have "yields (bindp (write_descriptor h) (\<lambda>(d, e).
         ret (ds @ [d], case e of Some i \<Rightarrow> es @ [i] | None \<Rightarrow> es))) ?P"
      by (rule yields_bindp_with [OF write_descriptor_matching])
        (use that in \<open>auto simp: yields_simple matching_def split: option.splits\<close>)
    then show ?thesis using Some by simp
  qed
  have "yields (foldp ?f caps acc) ?P" if "?P acc" for acc
    using that
  proof (induction caps arbitrary: acc)
    case Nil
    then show ?case by (simp add: yields_simple)
  next
    case (Cons c caps)
    obtain ds es where acc: "acc = (ds, es)" by (cases acc)
    show ?case
      unfolding foldp.simps using Cons.prems
      by (intro yields_bindp_with [OF _ Cons.IH]) (use step acc in auto)
  qed
  from this [of "([], [])"] show ?thesis by (simp add: write_descriptors_def)
qed

lemma send_return_ledger:
  assumes "connection s = None" "answers s i = Some a"
    "seqp (send_message (MReturn i nf body)) (answer_has_sent_return i es) s = (r, t)"
  shows "outbox t = outbox s @ [MReturn i nf body]" "\<And>j. j \<noteq> i \<Longrightarrow> answers t j = answers s j"
    "held t i = (if received_finish a then [] else es)"
    "\<And>a'. answers t i = Some a' \<Longrightarrow> return_has_been_sent a'"
  using assms by (auto simp: seqp_def bindp_def send_message_run answer_has_sent_return_def gets_def modifyp_def
      update_answer_def held_def split: if_splits)

lemma results_done_ledger:
  assumes s: "connection s = None" and a: "answers s i = Some a"
    and run: "results_done i status caps s = (Ok x, t)"
  obtains ms where "outbox t = outbox s @ ms" "\<And>j. j \<noteq> i \<Longrightarrow> answers t j = answers s j"
    "\<And>nf body j. MReturn i nf body \<in> set ms \<Longrightarrow> count_caps j (body_caps body) = count_list (held t i) j"
    "\<And>a'. answers t i = Some a' \<Longrightarrow> return_has_been_sent a'"
proof (cases "received_finish a")
  case True
  then have "seqp (send_message (MReturn i False Canceled)) (answer_has_sent_return i []) s = (Ok x, t)"
    using run a by (simp add: results_done_def gets_run)
  note r = send_return_ledger [OF s a this]
  show ?thesis by (rule that [OF r(1,2) _ r(4)]) (use r(3) True in auto)
next
  case False
  show ?thesis
  proof (cases status)
    case (Some e)
    then have "seqp (send_message (MReturn i False (ReturnException (from_error e)))) (answer_has_sent_return i []) s = (Ok x, t)"
      using run a False by (simp add: results_done_def gets_run)
    note r = send_return_ledger [OF s a this]
    show ?thesis by (rule that [OF r(1,2) _ r(4)]) (use r(3) False in auto)
  next
    case None
    define u where "u = (if caps = [] then update_answer i (\<lambda>a. a\<lparr>received_finish := True\<rparr>) s else s)"
    define b where "b = (if caps = [] then a\<lparr>received_finish := True\<rparr> else a)"
    have u: "answers u i = Some b" "connection u = None" "outbox u = outbox s" "\<And>j. j \<noteq> i \<Longrightarrow> answers u j = answers s j"
      using a s by (simp_all add: u_def b_def update_answer_def)
    have "bindp (write_descriptors caps) (\<lambda>(ds, es).
          seqp (send_message (MReturn i (caps = []) (Results ds))) (answer_has_sent_return i es)) u = (Ok x, t)"
      using run a False None
      by (cases "caps = []") (simp_all add: results_done_def gets_run modifyp_then u_def)
    then obtain ds es v where w: "write_descriptors caps u = (Ok (ds, es), v)"
      and tail: "seqp (send_message (MReturn i (caps = []) (Results ds))) (answer_has_sent_return i es) v = (Ok x, t)"
      by (auto simp: bindp_def split: prod.splits outcome.splits)
    have q: "quiet u v" by (rule quietD [OF quiet_descriptors w]) simp
    then obtain ns where ns: "outbox v = outbox u @ ns" "\<And>q. returns q ns = []" "answers v = answers u"
        "connection v = None"
      using u(2) by (auto simp: quiet_def)
    have v: "answers v i = Some b" using ns(3) u(1) by simp
    note r = send_return_ledger [OF ns(4) v tail]
    have match: "count_caps j ds = count_list es j" for j
      using write_descriptors_matching [of caps] w by (auto simp: yields_def)
    have none: "caps = [] \<Longrightarrow> ds = [] \<and> es = []" using w by (simp add: write_descriptors_def ret_def)
    show ?thesis
    proof (rule that)
      show "outbox t = outbox s @ (ns @ [MReturn i (caps = []) (Results ds)])" using r(1) ns(1) u(3) by simp
      show "answers t j = answers s j" if "j \<noteq> i" for j using r(2) ns(3) u(4) that by simp
      show "count_caps j (body_caps body) = count_list (held t i) j"
        if m: "MReturn i nf body \<in> set (ns @ [MReturn i (caps = []) (Results ds)])" for nf body j
      proof -
        have "body = Results ds" using m in_returns [of i nf body ns] ns(2) by auto
        then show ?thesis using r(3) none match [of j] False by (cases "caps = []") (simp_all add: b_def)
      qed
    qed (rule r(4))
  qed
qed

section \<open>The application acts\<close>

lemma after_zero: "after n x t 0 = n\<lparr>ends := (ends n)(x := t)\<rparr>"
  by (simp add: after_def)

lemma balancedE:
  assumes "balanced s t"
  obtains ms where "outbox t = outbox s @ ms" "\<And>m. m \<in> set ms \<Longrightarrow> proper m"
    "\<And>i. refs t i = refs s i + carried i ms" "\<And>i. imps t i + given i ms = imps s i"
proof -
  obtain ms where ms: "outbox t = outbox s @ ms" "\<forall>m \<in> set ms. proper m"
    "\<And>i. int (refs t i) = int (refs s i) + int (carried i ms)"
    "\<And>i. int (imps t i) = int (imps s i) - int (given i ms)"
    using assms by (auto simp: moves_def)
  show ?thesis
  proof (rule that [OF ms(1)])
    show "refs t i = refs s i + carried i ms" "imps t i + given i ms = imps s i" for i
      using ms(3,4) [of i] by linarith+
  qed (use ms(2) in auto)
qed

lemma results_ok_cong: "answers t = answers s \<Longrightarrow> results_ok t = results_ok s"
  and held_cong: "answers t = answers s \<Longrightarrow> held t = held s"
  by (auto simp: results_ok_def held_def fun_eq_iff)

lemma no_asks_flags: "asks q ms = [] \<Longrightarrow> MFinish q b \<notin> set ms"
  by (auto simp: asks_def asks_of_def)

text \<open>An operation that says nothing about questions and answers, or asks a new question.\<close>

lemma quiet_local:
  assumes inv: "network_inv n" "ledger_inv n" and b: "balanced (ends n x) t" and q: "quiet (ends n x) t"
  shows "ledger_inv (after n x t 0)"
proof -
  let ?s = "ends n x"
  obtain ms where ms: "outbox t = outbox ?s @ ms" "\<And>m. m \<in> set ms \<Longrightarrow> proper m"
    "\<And>i. refs t i = refs ?s i + carried i ms" "\<And>i. imps t i + given i ms = imps ?s i"
    by (rule balancedE [OF b], rule that)
  have same: "answers t = answers ?s" "questions t = questions ?s" "\<And>q. asks q ms = []" "\<And>q. returns q ms = []"
    using q ms(1) by (auto simp: quiet_def)
  have ok: "results_ok ?s" using ledger_side [OF inv(2), of x] by (simp add: side_def)
  have "ledger_inv (after n x t (length ([] :: rpc_message list)))"
    by (rule plain_step [OF inv _ ms(1)])
      (use ms same ok no_asks_flags asks_flags in
        \<open>auto simp: results_ok_cong [OF same(1)] held_cong [OF same(1)] alive_def dead_def\<close>)
  then show ?thesis by simp
qed

lemma ask_local:
  assumes inv: "network_inv n" "ledger_inv n" and b: "balanced (ends n x) t"
    and answers: "answers t = answers (ends n x)" and q: "question_view (ends n x) q = None"
    and e: "effect (ends n x) t q (Some (True, True, False)) (answer_view (ends n x) q) [Ask] []"
  shows "ledger_inv (after n x t 0)"
proof -
  let ?s = "ends n x"
  obtain ms where ms: "outbox t = outbox ?s @ ms" "\<And>m. m \<in> set ms \<Longrightarrow> proper m"
    "\<And>i. refs t i = refs ?s i + carried i ms" "\<And>i. imps t i + given i ms = imps ?s i"
    by (rule balancedE [OF b], rule that)
  have view: "question_view t j = (if j = q then Some (True, True, False) else question_view ?s j)"
    "asks j ms = (if j = q then [Ask] else [])" "returns j ms = []" for j
    using e ms(1) by (auto simp: effect_def)
  have fin: "MFinish j b \<notin> set ms" for j b
  proof
    assume "MFinish j b \<in> set ms"
    then have "Fin \<in> set (asks j ms)" by (auto simp: asks_def asks_of_def intro!: bexI)
    then show False using view(2) [of j] by (auto split: if_splits)
  qed
  then have flags: "finish_flags j ms = []" for j
    by (auto simp: finish_flags_def split: rpc_message.splits)
  have ok: "results_ok ?s" using ledger_side [OF inv(2), of x] by (simp add: side_def)
  have none: "returns q (in_flight n x) = []"
    using configs(1) [OF inv(1), of x q] q by simp
  have "ledger_inv (after n x t (length ([] :: rpc_message list)))"
  proof (rule plain_step [OF inv _ ms(1)])
    show "in_flight n x = [] @ in_flight n x" by simp
    show "alive t j = alive ?s j \<or> returns j (in_flight n x) = []" for j
      using none by (auto simp: view_alive view)
    show "dead ?s j \<and> finish_flags j ms = []" if "dead t j" for j
      using that flags by (auto simp: view_dead view split: if_splits)
  qed (use ms view(3) ok fin in \<open>auto simp: results_ok_cong [OF answers] held_cong [OF answers]\<close>)
  then show ?thesis by simp
qed

lemma drop_question_ref_out:
  assumes "connection s = None" "question_view s q = Some (w, True, skip)" "drop_question_ref q s = (r, t)" "r \<noteq> Panic"
  shows "outbox t = outbox s @ (if skip then [] else [MFinish q w])"
proof -
  obtain qu where qu: "table_find q (questions s) = Some qu" "is_awaiting_return qu = w" "skip_finish qu = skip"
    using assms(2) by (auto simp: question_view_def)
  define u where "u = (if skip then s else s\<lparr>outbox := outbox s @ [MFinish q w]\<rparr>)"
  have pre: "(if skip then ret () else send_message (MFinish q w)) s = (Ok (), u)"
    using assms(1) by (simp add: u_def send_message_run ret_def)
  have "the_question q s = (Ok qu, s)" using qu(1) by (simp add: the_question_run)
  then have "drop_question_ref q s = seqp (if skip then ret () else send_message (MFinish q w))
      (if w then set_question q (qu\<lparr>self_ref := None\<rparr>) else on_questions (table_erase q)) s"
    by (simp add: drop_question_ref_def bindp_Ok qu(2,3))
  then have "(if w then set_question q (qu\<lparr>self_ref := None\<rparr>) else on_questions (table_erase q)) u = (r, t)"
    using assms(3)
    by (simp only: seqp_Ok [of "if skip then ret () else send_message (MFinish q w)" s "()" u, OF pre])
  then have "outbox t = outbox u"
    by (auto simp: set_question_run on_questions_def split: if_splits prod.splits)
  then show ?thesis by (simp add: u_def)
qed

lemma drop_local:
  assumes inv: "network_inv n" "ledger_inv n" and b: "balanced (ends n x) t"
    and answers: "answers t = answers (ends n x)" and q: "question_view (ends n x) q = Some (w, True, skip)"
    and run: "drop_question_ref q (ends n x) = (r, t)" "r \<noteq> Panic"
  shows "ledger_inv (after n x t 0)"
proof -
  let ?s = "ends n x"
  have s: "conn_ok ?s" "connection ?s = None" using inv(1) by (simp_all add: network_inv_def)
  have out: "outbox t = outbox ?s @ (if skip then [] else [MFinish q w])" by (rule drop_question_ref_out [OF s(2) q run])
  have view: "question_view t j = (if j = q then (if w then Some (w, False, skip) else None) else question_view ?s j)" for j
    using drop_question_ref_effect [OF s q run(1)] by (simp add: effect_def)
  have cfg: "config (Some (w, True, skip)) (answer_view (ends n (\<not> x)) q) (asks q (in_flight n (\<not> x))) (returns q (in_flight n x))"
    using configs(1) [OF inv(1), of x q] q by simp
  obtain ms where ms: "outbox t = outbox ?s @ ms" "\<And>m. m \<in> set ms \<Longrightarrow> proper m"
    "\<And>i. refs t i = refs ?s i + carried i ms" "\<And>i. imps t i + given i ms = imps ?s i"
    by (rule balancedE [OF b], rule that)
  then have ms': "ms = (if skip then [] else [MFinish q w])" using out by simp
  show ?thesis
  proof (cases w)
    case True
    then have k: "\<not> skip" using cfg by simp
    show ?thesis
      by (rule cancel_step [OF inv, of x q skip]) (use q True k out ms(3,4) ms' answers view in simp_all)
  next
    case False
    then have none: "returns q (in_flight n x) = []" using cfg by simp
    have ok: "results_ok ?s" using ledger_side [OF inv(2), of x] by (simp add: side_def)
    have "ledger_inv (after n x t (length ([] :: rpc_message list)))"
    proof (rule plain_step [OF inv _ ms(1)])
      show "in_flight n x = [] @ in_flight n x" by simp
      show "alive t j = alive ?s j \<or> returns j (in_flight n x) = []" for j
        using none by (auto simp: view_alive view)
      show "dead ?s j \<and> finish_flags j ms = []" if "dead t j" for j
        using that False by (auto simp: view_dead view ms' split: if_splits)
    qed (use ms(2-4) ms' False ok in \<open>auto simp: results_ok_cong [OF answers] held_cong [OF answers] returns_of_def split: if_splits\<close>)
    then show ?thesis by simp
  qed
qed

lemma results_local:
  assumes inv: "network_inv n" "ledger_inv n" and b: "balanced (ends n x) t"
    and a: "answers (ends n x) i = Some a" "\<not> return_has_been_sent a"
    and run: "results_done i status caps (ends n x) = (r, t)" "r \<noteq> Panic"
    and post: "network_inv (after n x t 0)"
  shows "ledger_inv (after n x t 0)"
proof -
  let ?s = "ends n x"
  have s: "connection ?s = None" using inv(1) by (simp add: network_inv_def)
  have "never_fails (results_done i status caps)"
    unfolding results_done_def answer_has_sent_return_def by (intro safe_rules)
  then have "fst (results_done i status caps ?s) = Panic \<or> (\<exists>y. fst (results_done i status caps ?s) = Ok y)"
    by (simp add: never_fails_def)
  then obtain y where run': "results_done i status caps ?s = (Ok y, t)" using run by auto
  obtain ns where ns: "outbox t = outbox ?s @ ns" "\<And>j. j \<noteq> i \<Longrightarrow> answers t j = answers ?s j"
    "\<And>nf body j. MReturn i nf body \<in> set ns \<Longrightarrow> count_caps j (body_caps body) = count_list (held t i) j"
    "\<And>a'. answers t i = Some a' \<Longrightarrow> return_has_been_sent a'"
    by (rule results_done_ledger [OF s a(1) run'], rule that)
  obtain ms where ms: "outbox t = outbox ?s @ ms" "\<And>m. m \<in> set ms \<Longrightarrow> proper m"
    "\<And>i. refs t i = refs ?s i + carried i ms" "\<And>i. imps t i + given i ms = imps ?s i"
    by (rule balancedE [OF b], rule that)
  have eq: "ns = ms" using ns(1) ms(1) by simp
  have oks: "results_ok ?s" using ledger_side [OF inv(2), of x] by (simp add: side_def)
  have ok: "results_ok t"
    unfolding results_ok_def
  proof (intro allI impI)
    fix j a' assume "answers t j = Some a'" "\<not> return_has_been_sent a'"
    then show "result_exports a' = []" using oks ns(2) [of j] ns(4) by (cases "j = i") (auto simp: results_ok_def)
  qed
  have step: "ledger_inv (after n x t 0)"
    if e: "effect ?s t i (question_view ?s i) av [] [k]" for av k
  proof -
    have facts: "asks j ms = []" "returns j ms = (if j = i then [k] else [])" "question_view t j = question_view ?s j" for j
      using e ms(1) by (auto simp: effect_def)
    have "ledger_inv (after n x t (length ([] :: rpc_message list)))"
    proof (rule return_step [OF inv _ _ ms(1), where i = i])
      show "in_flight n x = [] @ in_flight n x" by simp
      show "held t j = settles_to [] (held ?s) j" if "j \<noteq> i" for j using ns(2) [OF that] by (simp add: held_def)
      show "settles_to [] (held ?s) i = []" using a oks by (simp add: held_def results_ok_def)
    qed (use post ms facts ns(3) eq ok in auto)
    then show ?thesis by simp
  qed
  from s a run show ?thesis
  proof (cases rule: results_done_effect)
    case failed
    then show ?thesis by (rule quiet_local [OF inv b])
  qed (rule step; assumption)+
qed

lemma local_step:
  assumes inv: "network_inv n" "ledger_inv n" and al: "allowed ev (ends n x)"
    and run: "rpc_step pl now ev (ends n x) = (r, t)" "r \<noteq> Panic"
  shows "ledger_inv (n\<lparr>ends := (ends n)(x := t)\<rparr>)"
proof -
  let ?s = "ends n x"
  have s: "conn_ok ?s" "connection ?s = None" using inv(1) by (simp_all add: network_inv_def)
  have b: "balanced ?s t" using local_step_settles(2) [OF al _ run] s by (simp add: live_ok_def)
  have post: "network_inv (after n x t 0)" using network_inv_local_step [OF inv(1) al run] by (simp add: after_zero)
  have quiet: "ledger_inv (after n x t 0)" if "maintains (quiet ?s) (rpc_step pl now ev)"
    by (rule quiet_local [OF inv b quietD [OF that run]])
  have "ledger_inv (after n x t 0)"
  proof (cases ev)
    case (SendCall target ifc meth caps tail)
    obtain r' where r': "send_call target ifc meth caps tail ?s = (r', t)" "r' \<noteq> Panic"
      using rpc_step_unit [of "send_call target ifc meth caps tail" ?s r t] run SendCall by auto
    have a: "answers t = answers ?s" by (rule maintainsD [OF asking_answers(1) refl r'])
    from s r' show ?thesis by (rule send_call_effect) (auto intro: quiet_local ask_local inv b a)
  next
    case (SendStreaming target ifc meth caps fl)
    obtain r' where r': "send_streaming target ifc meth caps fl ?s = (r', t)" "r' \<noteq> Panic"
      using rpc_step_unit [of "send_streaming target ifc meth caps fl" ?s r t] run SendStreaming by auto
    have a: "answers t = answers ?s" by (rule maintainsD [OF asking_answers(2) refl r'])
    from s r' show ?thesis by (rule send_streaming_effect) (auto intro: quiet_local ask_local inv b a)
  next
    case (RequestSend h ifc meth caps)
    obtain r' where r': "request_send h ifc meth caps ?s = (r', t)" "r' \<noteq> Panic"
      using rpc_step_unit [of "request_send h ifc meth caps" ?s r t] run RequestSend by auto
    have a: "answers t = answers ?s" by (rule maintainsD [OF asking_answers(3) refl r'])
    from s r' show ?thesis by (rule request_send_effect) (auto intro: quiet_local ask_local inv b a)
  next
    case SendBootstrap
    obtain r' where r': "bootstrap ?s = (r', t)" "r' \<noteq> Panic"
      using rpc_step_unit [of bootstrap ?s r t] run SendBootstrap by auto
    have a: "answers t = answers ?s" by (rule maintainsD [OF asking_answers(4) refl r'])
    from s r' show ?thesis by (rule bootstrap_effect) (auto intro: ask_local inv b a)
  next
    case (DropQuestionRef q)
    then obtain w skip where view: "question_view ?s q = Some (w, True, skip)"
      using al by (auto simp: allowed_def question_view_def split: option.splits)
    have r': "drop_question_ref q ?s = (r, t)" using run DropQuestionRef by simp
    have a: "answers t = answers ?s" by (rule maintainsD [OF asking_answers(5) refl r' run(2)])
    show ?thesis by (rule drop_local [OF inv b a view r' run(2)])
  next
    case (ResultsDone i status caps)
    then obtain a where a: "answers ?s i = Some a" "\<not> return_has_been_sent a"
      using al by (auto simp: allowed_def split: option.splits)
    have "results_done i status caps ?s = (r, t)" using run ResultsDone by simp
    from results_local [OF inv b a this run(2) post] show ?thesis .
  next
    case (GetPipelinedCap q ops fl)
    show ?thesis
      by (rule quiet) (use GetPipelinedCap in \<open>auto intro!: keep_rules quiet_rules\<close>)
  qed (use al quiet in \<open>auto simp: allowed_def intro!: quiet_rules\<close>)
  then show ?thesis by (simp add: after_zero)
qed

section \<open>A message is handled\<close>

lemma after_one: "after n x t (Suc 0) = n\<lparr>ends := (ends n)(x := t), handled := (handled n)(x := Suc (handled n x))\<rparr>"
  by (simp add: after_def)

lemma handledE:
  assumes "moves s t (\<lambda>j. - int (taken (held s) j msg)) (\<lambda>j. int (carried j (filter (wanted s) [msg])))"
  obtains ms where "outbox t = outbox s @ ms" "\<And>m. m \<in> set ms \<Longrightarrow> proper m"
    "\<And>j. refs t j + owed j (held s) [msg] = refs s j + carried j ms"
    "\<And>j. imps t j + given j ms = imps s j + carried j (filter (wanted s) [msg])"
proof -
  obtain ms where ms: "outbox t = outbox s @ ms" "\<forall>m \<in> set ms. proper m"
    "\<And>i. int (refs t i) = int (refs s i) + int (carried i ms) - int (taken (held s) i msg)"
    "\<And>i. int (imps t i) = int (imps s i) - int (given i ms) + int (carried i (filter (wanted s) [msg]))"
    using assms unfolding moves_def by (metis (no_types, lifting) uminus_add_conv_diff add.commute)
  show ?thesis
  proof (rule that [OF ms(1)])
    show "refs t j + owed j (held s) [msg] = refs s j + carried j ms" for j using ms(3) [of j] by simp
    show "imps t j + given j ms = imps s j + carried j (filter (wanted s) [msg])" for j using ms(4) [of j] by linarith
  qed (use ms(2) in auto)
qed

lemma handle_bootstrap_ledger:
  assumes s: "connection s = None" and run: "handle_bootstrap i s = (Ok (), t)"
  obtains ms where "outbox t = outbox s @ ms" "\<And>j. j \<noteq> i \<Longrightarrow> answers t j = answers s j" "answers s i = None"
    "\<And>nf body j. MReturn i nf body \<in> set ms \<Longrightarrow> count_caps j (body_caps body) = count_list (held t i) j"
    "\<And>a'. answers t i = Some a' \<Longrightarrow> return_has_been_sent a'"
proof -
  let ?rest = "\<lambda>(ds, es). bindp (gets (\<lambda>s. answers s i)) (\<lambda>found. case found of
          Some a \<Rightarrow> seqp (release_exports es) (err Failed)
        | None \<Rightarrow>
            seqp (modifyp (\<lambda>s. s\<lparr>answers := (answers s)(i \<mapsto>
              answer_new\<lparr>return_has_been_sent := True, result_exports := es, pipeline := True\<rparr>)\<rparr>))
            (send_message (MReturn i False (Results ds))))"
  have out: "new_outgoing_message s = (Ok (), s)"
    using s by (simp add: new_outgoing_message_def bindp_def gets_def ret_def)
  have "handle_bootstrap i s = bindp (write_descriptors [Some (bootstrap_cap s)]) ?rest s"
    using s by (simp add: handle_bootstrap_def gets_run seqp_Ok [of new_outgoing_message, OF out])
  then obtain ds es v where w: "write_descriptors [Some (bootstrap_cap s)] s = (Ok (ds, es), v)"
    and tail: "?rest (ds, es) v = (Ok (), t)"
    using run by (auto simp: bindp_def [of "write_descriptors _"] split: prod.splits outcome.splits)
  have q: "quiet s v" by (rule quietD [OF quiet_descriptors w]) simp
  then obtain ns where ns: "outbox v = outbox s @ ns" "\<And>q. returns q ns = []" "answers v = answers s"
      "connection v = None"
    using s by (auto simp: quiet_def)
  have none: "answers v i = None"
  proof (rule ccontr)
    assume "answers v i \<noteq> None"
    then obtain a where "seqp (release_exports es) (err Failed) v = (Ok (), t)"
      using tail by (auto simp: gets_run)
    then show False by (simp add: seqp_def bindp_def err_def split: prod.splits outcome.splits)
  qed
  let ?a = "answer_new\<lparr>return_has_been_sent := True, result_exports := es, pipeline := True\<rparr>"
  have t: "t = v\<lparr>answers := (answers v)(i \<mapsto> ?a), outbox := outbox v @ [MReturn i False (Results ds)]\<rparr>"
    using tail none ns(4) by (simp add: gets_run modifyp_then send_message_run)
  have match: "count_caps j ds = count_list es j" for j
    using write_descriptors_matching [of "[Some (bootstrap_cap s)]"] w by (auto simp: yields_def)
  show ?thesis
  proof (rule that)
    show "outbox t = outbox s @ (ns @ [MReturn i False (Results ds)])" using ns(1) by (simp add: t)
    show "count_caps j (body_caps body) = count_list (held t i) j"
      if m: "MReturn i nf body \<in> set (ns @ [MReturn i False (Results ds)])" for nf body j
    proof -
      have "body = Results ds" using m in_returns [of i nf body ns] ns(2) by auto
      then show ?thesis using match by (simp add: t held_def)
    qed
    show "answers t j = answers s j" if "j \<noteq> i" for j using that ns(3) by (simp add: t)
    show "answers s i = None" using none ns(3) by simp
    show "return_has_been_sent a'" if "answers t i = Some a'" for a' using that by (auto simp: t)
  qed
qed

lemma quiet_gives: "maintains (quiet s) m \<Longrightarrow> m s = (Ok x, t) \<Longrightarrow> answers t = answers s"
  using quietD [of s m "Ok x" t] by (simp add: quiet_def)

lemma handle_call_answers:
  assumes run: "handle_call pl i target ds to s = (Ok (), t)"
  obtains a where "answers t = (answers s)(i \<mapsto> a)" "result_exports a = []"
proof -
  obtain h u where u: "get_message_target pl target s = (Ok h, u)" "answers u = answers s"
    and run1: "bindp (receive_caps ds) (\<lambda>_. bindp (gets (\<lambda>s. answers s i)) (\<lambda>found. case found of
         Some a \<Rightarrow> err Failed
       | None \<Rightarrow> modifyp (\<lambda>s. s\<lparr>answers := (answers s)(i \<mapsto> answer_new\<lparr>pipeline := True,
           redirected_results := (to = ToYourself), call_completion := (to = ToCaller)\<rparr>)\<rparr>))) u = (Ok (), t)"
    using run quiet_gives [OF quiet_get_target] unfolding handle_call_def bindp_def [of "get_message_target _ _"]
    by (auto simp: err_def split: prod.splits outcome.splits if_splits)
  obtain cs v where v: "receive_caps ds u = (Ok cs, v)" "answers v = answers u"
    and run2: "bindp (gets (\<lambda>s. answers s i)) (\<lambda>found. case found of
         Some a \<Rightarrow> err Failed
       | None \<Rightarrow> modifyp (\<lambda>s. s\<lparr>answers := (answers s)(i \<mapsto> answer_new\<lparr>pipeline := True,
           redirected_results := (to = ToYourself), call_completion := (to = ToCaller)\<rparr>)\<rparr>)) v = (Ok (), t)"
    using run1 quiet_gives [OF quiet_receives] unfolding bindp_def [of "receive_caps _"]
    by (auto split: prod.splits outcome.splits)
  let ?a = "answer_new\<lparr>pipeline := True, redirected_results := (to = ToYourself), call_completion := (to = ToCaller)\<rparr>"
  have "answers t = (answers s)(i \<mapsto> ?a)"
    using run2 u(2) v(2) by (auto simp: gets_run err_def modifyp_def split: option.splits)
  then show ?thesis by (rule that) (simp add: answer_new_def)
qed

lemma handle_finish_answers:
  assumes run: "handle_finish i b s = (Ok (), t)"
  obtains "answers s i = None" "answers t = answers s"
  | a a' where "answers s i = Some a" "answers t = (answers s)(i := a')"
      "\<And>c. a' = Some c \<Longrightarrow> \<not> return_has_been_sent a \<and> (b \<and> result_exports c = [] \<or> result_exports c = result_exports a)"
proof (cases "answers s i")
  case None
  then have "release_exports [] s = (Ok (), t)" using run by (simp add: handle_finish_def gets_run)
  then have "t = s" by (simp add: release_exports_def ret_def)
  with None show ?thesis by (intro that(1)) simp_all
next
  case (Some a)
  let ?x = "if return_has_been_sent a then None
     else Some (a\<lparr>received_finish := True, pipeline := False, call_completion := False,
       result_exports := if b then [] else result_exports a\<rparr>)"
  let ?u = "s\<lparr>answers := (answers s)(i := ?x)\<rparr>"
  have "release_exports (if b then result_exports a else []) ?u = (Ok (), t)"
    using run Some by (simp add: handle_finish_def gets_run modifyp_then)
  from quiet_gives [OF quiet_release this] have *: "answers t = (answers s)(i := ?x)" by simp
  show ?thesis by (rule that(2) [OF Some *]) (auto split: if_splits)
qed

lemma handle_return_answers:
  assumes q: "question_view s q = Some (True, al, False)"
    and kind: "return_kind nf body \<noteq> RetOther" "al \<Longrightarrow> return_kind nf body \<noteq> RetCanceled"
    and run: "handle_return msg q nf body s = (Ok (), t)"
  shows "answers t = answers s"
proof -
  obtain qu where qu: "table_find q (questions s) = Some qu" "(self_ref qu \<noteq> None) = al"
    using q by (auto simp: question_view_def)
  have idx: "table_index q (questions s) = Ok (Some qu)"
    using qu(1) by (simp add: table_index_def table_find_def split: if_splits)
  let ?qu = "qu\<lparr>is_awaiting_return := False, skip_finish := skip_finish qu \<or> nf\<rparr>"
  let ?u = "s\<lparr>questions := table_set q ?qu (questions s)\<rparr>"
  have fulfill: "maintains (\<lambda>t. answers t = A) (fulfill q r)" for r A
    unfolding fulfill_def the_question_def set_question_def
    by (intro keep_rules) (auto intro!: keep_rules split: outcome.splits option.splits)
  have "answers t = answers ?u"
  proof (cases al)
    case False
    then have "on_questions (table_erase q) ?u = (Ok (), t)"
      using run idx kind(1) qu(2) unfolding handle_return_def
      by (cases body) (simp_all add: bindp_def seqp_def gets_def set_question_run return_kind_def)
    then show ?thesis by (auto simp: on_questions_def split: prod.splits)
  next
    case True
    then have some: "self_ref qu \<noteq> None" using qu(2) by simp
    show ?thesis
    proof (cases body)
      case (Results ds)
      have "bindp (receive_caps ds) (\<lambda>cs. fulfill q (ReplyResults cs)) ?u = (Ok (), t)"
        using run idx some Results unfolding handle_return_def
        by (simp add: bindp_def seqp_def gets_def set_question_run)
      moreover have "maintains (\<lambda>t. answers t = answers ?u) (receive_caps ds)"
        by (rule quiet_answers) (rule quiet_rules)
      then have "maintains (\<lambda>t. answers t = answers ?u) (bindp (receive_caps ds) (\<lambda>cs. fulfill q (ReplyResults cs)))"
        by (rule maintains_bindp) (rule fulfill)
      from maintainsD [OF this refl] calculation show ?thesis by simp
    next
      case (ReturnException e)
      have "fulfill q (ReplyError (remote_exception_to_error e)) ?u = (Ok (), t)"
        using run idx some ReturnException unfolding handle_return_def
        by (simp add: bindp_def seqp_def gets_def set_question_run)
      then show ?thesis by (rule maintainsD [OF fulfill refl]) simp
    qed (use kind True in \<open>auto simp: return_kind_def split: if_splits\<close>)
  qed
  then show ?thesis by simp
qed

lemma deliver_step:
  assumes inv: "network_inv n" "ledger_inv n" and head: "in_flight n x = msg # rest"
    and run: "handle_message pl now msg (ends n x) = (Ok (), t)"
  shows "ledger_inv (n\<lparr>ends := (ends n)(x := t), handled := (handled n)(x := Suc (handled n x))\<rparr>)"
proof -
  let ?s = "ends n x"
  have s: "conn_ok ?s" "connection ?s = None" using inv(1) by (simp_all add: network_inv_def)
  have live: "live_ok ?s" using s by (simp add: live_ok_def)
  have post: "network_inv (after n x t (Suc 0))" using network_inv_deliver_step [OF inv(1) head run] by (simp add: after_one)
  have ret: "\<exists>al. question_view ?s q = Some (True, al, False) \<and> return_kind nf body \<noteq> RetOther \<and>
      (al \<longrightarrow> return_kind nf body \<noteq> RetCanceled)" if "msg = MReturn q nf body" for q nf body
    using config_return [OF head_config(2) [OF inv(1) head, of q, unfolded that returns_of_def, simplified]] by blast
  have moves: "moves ?s t (\<lambda>j. - int (taken (held ?s) j msg)) (\<lambda>j. int (carried j (filter (wanted ?s) [msg])))"
    using handle_message_pays [OF live run ret] by blast
  obtain ms where ms: "outbox t = outbox ?s @ ms" "\<And>m. m \<in> set ms \<Longrightarrow> proper m"
    "\<And>j. refs t j + owed j (held ?s) [msg] = refs ?s j + carried j ms"
    "\<And>j. imps t j + given j ms = imps ?s j + carried j (filter (wanted ?s) [msg])"
    by (rule handledE [OF moves], rule that)
  have flight: "in_flight n x = [msg] @ rest" using head by simp
  have ok: "results_ok ?s" using ledger_side [OF inv(2), of x] by (simp add: side_def)
  have plain: "ledger_inv (after n x t (length [msg]))"
    if "\<And>q. asks q ms = []" "\<And>q. returns q ms = []" "held t = settle msg (held ?s)" "results_ok t"
      "\<And>j. alive t j = alive ?s j" "\<And>j. dead t j \<Longrightarrow> dead ?s j"
    by (rule plain_step [OF inv flight ms(1)])
      (use ms that no_asks_flags asks_flags in simp_all)
  have quiet: "ledger_inv (after n x t (length [msg]))"
    if q: "quiet ?s t" and st: "settle msg (held ?s) = held ?s"
  proof -
    have same: "answers t = answers ?s" "questions t = questions ?s" "\<And>q. asks q ms = []" "\<And>q. returns q ms = []"
      using q ms(1) by (auto simp: quiet_def)
    show ?thesis
      by (rule plain) (use same st ok in \<open>simp_all add: held_cong [OF same(1)] results_ok_cong [OF same(1)] alive_def dead_def\<close>)
  qed
  have quiet_run: "ledger_inv (after n x t (length [msg]))"
    if "maintains (quiet ?s) (handle_message pl now msg)" "settle msg (held ?s) = held ?s"
    by (rule quiet [OF quietD [OF that(1) run] that(2)]) simp
  have eff: "(\<forall>j. asks j ms = (if j = i then fwd else [])) \<and> (\<forall>j. returns j ms = (if j = i then bwd else [])) \<and>
      (\<forall>j. question_view t j = (if j = i then q else question_view ?s j))"
    if "effect ?s t i q a fwd bwd" for i q a fwd bwd
    using that ms(1) by (auto simp: effect_def)
  have "ledger_inv (after n x t (length [msg]))"
  proof (cases msg)
    case (MBootstrap i)
    have run': "handle_bootstrap i ?s = (Ok (), t)" using run MBootstrap by (simp add: handle_message_def)
    obtain ns where ns: "outbox t = outbox ?s @ ns" "\<And>j. j \<noteq> i \<Longrightarrow> answers t j = answers ?s j" "answers ?s i = None"
      "\<And>nf body j. MReturn i nf body \<in> set ns \<Longrightarrow> count_caps j (body_caps body) = count_list (held t i) j"
      "\<And>a'. answers t i = Some a' \<Longrightarrow> return_has_been_sent a'"
      by (rule handle_bootstrap_ledger [OF s(2) run'], rule that)
    have eq: "ns = ms" using ns(1) ms(1) by simp
    have okt: "results_ok t"
      unfolding results_ok_def
    proof (intro allI impI)
      fix j a' assume "answers t j = Some a'" "\<not> return_has_been_sent a'"
      then show "result_exports a' = []" using ok ns(2) [of j] ns(5) by (cases "j = i") (auto simp: results_ok_def)
    qed
    note e = eff [OF handle_bootstrap_effect [OF s(2) run']]
    show ?thesis
    proof (rule return_step [OF inv flight _ ms(1), where i = i])
      show "network_inv (after n x t (length [msg]))" using post by simp
      show "held t j = settles_to [msg] (held ?s) j" if "j \<noteq> i" for j
        using ns(2) [OF that] that by (simp add: held_def MBootstrap settle_def)
      show "settles_to [msg] (held ?s) i = []" by (simp add: MBootstrap settle_def)
    qed (use ms e ns(4) eq okt in auto)
  next
    case (MCall i target ifc meth ds to)
    have run': "handle_call pl i target ds to ?s = (Ok (), t)" using run MCall by (simp add: handle_message_def)
    note e = eff [OF conjunct2 [OF handle_call_effect [OF run']]]
    obtain a where a: "answers t = (answers ?s)(i \<mapsto> a)" "result_exports a = []"
      by (rule handle_call_answers [OF run'], rule that)
    show ?thesis
    proof (rule plain)
      show "held t = settle msg (held ?s)" using a by (auto simp: held_def MCall settle_def fun_eq_iff)
      show "results_ok t" using ok a by (auto simp: results_ok_def)
    qed (use e in \<open>auto simp: view_alive view_dead split: if_splits\<close>)
  next
    case (MFinish i b)
    have run': "handle_finish i b ?s = (Ok (), t)" using run MFinish by (simp add: handle_message_def)
    note e = eff [OF handle_finish_effect [OF run']]
    show ?thesis
    proof (rule plain)
      show "held t = settle msg (held ?s)"
        by (rule handle_finish_answers [OF run'])
          (use ok in \<open>auto simp: held_def MFinish settle_def fun_eq_iff results_ok_def split: option.splits\<close>)
      show "results_ok t"
        by (rule handle_finish_answers [OF run']) (use ok in \<open>auto simp: results_ok_def split: if_splits\<close>)
    qed (use e in \<open>auto simp: view_alive view_dead split: if_splits\<close>)
  next
    case (MReturn q nf body)
    obtain al where c: "question_view ?s q = Some (True, al, False)" "return_kind nf body \<noteq> RetOther"
      "al \<Longrightarrow> return_kind nf body \<noteq> RetCanceled" using ret [OF MReturn] by blast
    have run': "handle_return msg q nf body ?s = (Ok (), t)" using run MReturn by (simp add: handle_message_def)
    note e = eff [OF handle_return_effect [OF s(1) c run']]
    have a: "answers t = answers ?s" by (rule handle_return_answers [OF c run'])
    show ?thesis
    proof (rule plain)
      show "held t = settle msg (held ?s)" by (simp add: held_cong [OF a] MReturn settle_def)
      show "results_ok t" using ok results_ok_cong [OF a] by simp
    qed (use e c(1) in \<open>auto simp: view_alive view_dead split: if_splits\<close>)
  next
    case MAbort
    then show ?thesis using run by (simp add: handle_message_def err_def)
  qed (rule quiet_run;
    auto simp: handle_message_def settle_def asks_of_def returns_of_def intro!: keep_rules quiet_rules)+
  then show ?thesis by (simp add: after_one)
qed

section \<open>Every export is accounted for\<close>

lemma ledger_inv_new: "ledger_inv (network_new h)"
  by (simp add: ledger_inv_def side_def books_def returns_kept_def cancels_release_def results_ok_def
      network_new_def in_flight_def connection_new_def refs_def imps_def alive_def dead_def)

lemma network_reachable_ledger: "network_reachable n \<Longrightarrow> network_inv n \<and> ledger_inv n"
proof (induction rule: network_reachable.induct)
  case start
  show ?case by (simp add: network_inv_new ledger_inv_new)
next
  case (step n m)
  have "network_inv m" by (rule network_reachable_inv [OF network_reachable.step [OF step.hyps]])
  moreover from step.hyps(2) have "ledger_inv m"
  proof cases
    case local
    then show ?thesis using step.IH by (auto intro: local_step)
  next
    case deliver
    then show ?thesis using step.IH by (auto intro: deliver_step)
  qed
  ultimately show ?case ..
qed

lemma given_le_owed: "given i ms \<le> owed i h ms"
proof (induction ms arbitrary: h)
  case (Cons m ms)
  have "given_back i m \<le> taken h i m" by (cases m) (auto simp: taken_def split: bool.splits)
  then show ?case using Cons.IH [of "settle m h"] by simp
qed simp

text \<open>C3: The reference count of every export is exact, at every moment of a conversation between two
  ends: it is the number of references that the other end holds, plus those in descriptors under
  way to it, except in results that nobody waits for any more, plus those that are under way back,
  in a \<open>Release\<close> or with a \<open>Finish\<close> that releases the exports of results.\<close>

theorem reference_counts_balance:
  assumes "network_reachable n"
  shows "refs (ends n x) i = imps (ends n (\<not> x)) i +
    carried i (filter (wanted (ends n (\<not> x))) (in_flight n (\<not> x))) + owed i (held (ends n x)) (in_flight n x)"
  using sideD(1) [OF ledger_side] network_reachable_ledger [OF assms] by blast

lemma refs_balance_ge:
  assumes "network_reachable n"
  shows "owed i (held (ends n x)) (in_flight n x) \<le> refs (ends n x) i" "imps (ends n (\<not> x)) i \<le> refs (ends n x) i"
    "imps (ends n (\<not> x)) i + given i (in_flight n x) \<le> refs (ends n x) i"
  using sideD(1) [OF ledger_side [OF conjunct2 [OF network_reachable_ledger [OF assms]]], of x i]
    given_le_owed [of i "in_flight n x" "held (ends n x)"] by simp_all

lemma release_exports_runs:
  assumes "live_ok s" "\<And>j. count_list es j \<le> refs s j"
  shows "\<exists>t. release_exports es s = (Ok (), t)"
  using assms
proof (induction es arbitrary: s)
  case Nil
  then show ?case by (simp add: release_exports_def ret_def)
next
  case (Cons e es)
  have ok: "conn_ok s" "connection s = None" using Cons.prems(1) by (simp_all add: live_ok_def)
  have pos: "refs s e \<noteq> 0" using Cons.prems(2) [of e] by auto
  obtain t where t: "release_export e 1 s = (Ok (), t)"
  proof (cases rule: release_export_run [OF conn_ok_rel [OF ok], of e 1])
    case 1
    then show ?thesis using pos by (simp add: refs_def)
  next
    case (2 entry)
    then show ?thesis using pos by (simp add: refs_def word_less_nat_alt)
  qed (use that in blast)+
  note m = paysD [OF release_export_pays Cons.prems(1) t]
  have "moves s t (\<lambda>j. - (if j = e then 1 else 0)) (\<lambda>_. 0)" using m(2) by (simp cong: if_cong)
  moreover have "outbox t = outbox s"
    using t by (auto simp: release_export_def run_simps on_exports_def table_erase_def split: option.splits if_splits)
  ultimately have "int (refs t j) = int (refs s j) - (if j = e then 1 else 0)" for j by (simp add: moves_def)
  then have "count_list es j \<le> refs t j" for j
    using Cons.prems(2) [of j] by (smt (verit) count_list.simps(2) of_nat_le_iff of_nat_Suc Suc_eq_plus1)
  from Cons.IH [OF m(1) this] obtain u where "release_exports es t = (Ok (), u)" by blast
  then show ?case using t by (simp add: release_exports_def bindp_Ok)
qed

text \<open>C4: No release is ever refused: a \<open>Release\<close> or a \<open>Finish\<close> of the other end always finds the
  exports that it gives back, with enough references.\<close>

theorem releases_are_accepted:
  assumes "network_reachable n" "in_flight n x = msg # rest"
    and "(\<exists>i k. msg = MRelease i k) \<or> (\<exists>q b. msg = MFinish q b)"
  shows "fst (handle_message pl now msg (ends n x)) = Ok ()"
  using assms(3)
proof (elim disjE exE)
  let ?s = "ends n x"
  have inv: "network_inv n" "ledger_inv n" using network_reachable_ledger [OF assms(1)] by simp_all
  have ok: "conn_ok ?s" "connection ?s = None" using inv(1) by (simp_all add: network_inv_def)
  note side = ledger_side [OF inv(2), of x]
  fix i k assume msg: "msg = MRelease i k"
  have k: "k \<noteq> 0" using sideD(5) [OF side, of msg] assms(2) msg by simp
  have "unat k \<le> given i (in_flight n x)" using assms(2) msg by simp
  then have le: "unat k \<le> refs ?s i" using refs_balance_ge(3) [OF assms(1), where x = x and i = i] by simp
  show "fst (handle_message pl now msg ?s) = Ok ()"
  proof (cases rule: release_export_run [OF conn_ok_rel [OF ok], of i k])
    case 1
    then show ?thesis using le k by (simp add: refs_def unat_eq_zero)
  next
    case (2 e)
    then show ?thesis using le by (simp add: refs_def word_less_nat_alt)
  qed (simp_all add: msg handle_message_def)
next
  let ?s = "ends n x"
  have inv: "network_inv n" "ledger_inv n" using network_reachable_ledger [OF assms(1)] by simp_all
  have live: "live_ok ?s" using inv(1) by (simp add: network_inv_def live_ok_def)
  fix q b assume msg: "msg = MFinish q b"
  show "fst (handle_message pl now msg ?s) = Ok ()"
  proof (cases "answers ?s q")
    case None
    then show ?thesis by (simp add: msg handle_message_def handle_finish_def gets_run release_exports_def ret_def)
  next
    case (Some a)
    define u where "u = ?s\<lparr>answers := (answers ?s)(q := if return_has_been_sent a then None
           else Some (a\<lparr>received_finish := True, pipeline := False, call_completion := False,
             result_exports := if b then [] else result_exports a\<rparr>))\<rparr>"
    have u: "live_ok u" "refs u j = refs ?s j" for j using live by (simp_all add: u_def live_ok_def refs_def)
    have "count_list (if b then result_exports a else []) j \<le> refs u j" for j
    proof (cases b)
      case True
      have "count_list (result_exports a) j \<le> owed j (held ?s) (in_flight n x)"
        using True Some by (simp add: assms(2) msg taken_def held_def)
      then show ?thesis using refs_balance_ge(1) [OF assms(1), of j x] u(2) True by simp
    qed simp
    from release_exports_runs [OF u(1) this] obtain v where
      "release_exports (if b then result_exports a else []) u = (Ok (), v)" by blast
    then show ?thesis using Some by (simp add: msg handle_message_def handle_finish_def gets_run modifyp_then u_def)
  qed
qed

text \<open>At rest the exports of one end are the imports of the other.\<close>

lemma references_at_rest:
  assumes "network_reachable n" "in_flight n x = []" "in_flight n (\<not> x) = []"
  shows "refs (ends n x) i = imps (ends n (\<not> x)) i"
  using sideD(1) [OF ledger_side [OF conjunct2 [OF network_reachable_ledger [OF assms(1)]]], of x i] assms(2,3)
  by simp

text \<open>A client asks for the bootstrap capability and gives up while the answer is under way.\<close>

definition given_up :: "network_action list" where
  "given_up = [Happens True SendBootstrap, Handles False, Happens True (DropQuestionRef 0)]"

definition given_up_network :: network where
  "given_up_network = the (run_network given_up (network_new (\<lambda>x. LocalHook 5 None False)))"

lemma given_up_runs:
  "\<exists>n. run_network given_up (network_new (\<lambda>x. LocalHook 5 None False)) = Some n \<and>
     in_flight n False = [MFinish 0 True] \<and> in_flight n True = [MReturn 0 False (Results [SenderHosted 0])] \<and>
     refs (ends n False) 0 = Suc 0 \<and> imps (ends n True) 0 = 0 \<and> held (ends n False) 0 = [0] \<and>
     \<not> alive (ends n True) 0"
  unfolding given_up_def
  by (simp add: network_new_def allowed_def in_flight_def run_connection run_calls run_drops
      bindp_def seqp_def ret_def refs_def imps_def held_def alive_def)

lemma given_up_network:
  "network_reachable given_up_network" "in_flight given_up_network False = [MFinish 0 True]"
  "in_flight given_up_network True = [MReturn 0 False (Results [SenderHosted 0])]"
  "refs (ends given_up_network False) 0 = Suc 0" "imps (ends given_up_network True) 0 = 0"
  "held (ends given_up_network False) 0 = [0]" "\<not> alive (ends given_up_network True) 0"
  using given_up_runs run_network_reachable [OF _ network_reachable.start]
  by (auto simp: given_up_network_def)

lemma reference_counts_balance_witness:
  "refs (ends given_up_network False) 0 = Suc 0 \<and> imps (ends given_up_network True) 0 = 0 \<and>
   carried 0 (filter (wanted (ends given_up_network True)) (in_flight given_up_network True)) = 0 \<and>
   owed 0 (held (ends given_up_network False)) (in_flight given_up_network False) = Suc 0"
proof -
  have "carried 0 (filter (wanted (ends given_up_network True)) (in_flight given_up_network True)) = 0"
    by (simp add: given_up_network wanted_def)
  then show ?thesis
    using reference_counts_balance [OF given_up_network(1), of False 0] given_up_network(4,5) by simp
qed

lemma releases_are_accepted_witness:
  "fst (handle_message (\<lambda>q ops. LocalHook 0 None False) id (MFinish 0 True) (ends given_up_network False)) = Ok ()"
  by (rule releases_are_accepted [OF given_up_network(1,2)]) blast

end
