(* ===== verification/Rpc_Targets.thy ===== *)
theory Rpc_Targets
  imports Rpc_Refcount
begin

text \<open>
  What the exact reference counts are for: a capability that an end has imported is always backed
  by an export of the other end, and a call to it finds this export when it arrives, however the
  call and the release of the import are interleaved.
\<close>

section \<open>Imports hold references\<close>

definition imports_ok :: "connection_state \<Rightarrow> bool" where
  "imports_ok s \<longleftrightarrow> (\<forall>i e. import_table s i = Some e \<longrightarrow> remote_ref_count e \<noteq> 0)"

lemma imports_ok_cong: "import_table t = import_table s \<Longrightarrow> imports_ok t = imports_ok s"
  by (simp add: imports_ok_def)

lemma imports_ok_frame [simp]:
  "imports_ok (s\<lparr>exports := a\<rparr>) = imports_ok s" "imports_ok (s\<lparr>exports_by_cap := b\<rparr>) = imports_ok s"
  "imports_ok (s\<lparr>client_downcast_map := d\<rparr>) = imports_ok s" "imports_ok (s\<lparr>flows := e\<rparr>) = imports_ok s"
  "imports_ok (s\<lparr>next_object := f\<rparr>) = imports_ok s" "imports_ok (s\<lparr>promises := g\<rparr>) = imports_ok s"
  "imports_ok (s\<lparr>tasks := h\<rparr>) = imports_ok s" "imports_ok (s\<lparr>replies := r\<rparr>) = imports_ok s"
  "imports_ok (s\<lparr>embargoes := j\<rparr>) = imports_ok s" "imports_ok (s\<lparr>questions := q\<rparr>) = imports_ok s"
  "imports_ok (s\<lparr>answers := an\<rparr>) = imports_ok s" "imports_ok (s\<lparr>outbox := ob\<rparr>) = imports_ok s"
  "imports_ok (update_answer k fa s) = imports_ok s" "imports_ok (update_promise n fp s) = imports_ok s"
  by (rule imports_ok_cong; simp add: update_answer_def update_promise_def)+

lemma imports_ok_update:
  "(\<And>e. remote_ref_count (f e) = remote_ref_count e) \<Longrightarrow> imports_ok s \<Longrightarrow> imports_ok (update_import i f s)"
  by (auto simp: imports_ok_def update_import_def)

named_theorems import_rules \<open>rules for \<open>maintains imports_ok\<close>\<close>

lemma imports_tables [import_rules]:
  "maintains imports_ok (on_questions m)" "maintains imports_ok (on_embargoes m')" "maintains imports_ok (on_exports m'')"
  by (simp_all add: maintains_def on_questions_def on_embargoes_def on_exports_def split: prod.splits)

lemma imports_messages [import_rules]: "maintains imports_ok (send_message msg)" "maintains imports_ok new_outgoing_message"
  unfolding send_message_def new_outgoing_message_def by (intro keep_rules; simp)+

lemma imports_client [import_rules]:
  "maintains imports_ok (client_new p)" "maintains imports_ok (downcast p)" "maintains imports_ok (drop_client f)"
  "maintains imports_ok (forget_ptr p)"
  unfolding client_new_def downcast_def drop_client_def forget_ptr_def by (intro keep_rules; simp)+

lemma imports_objects [import_rules]:
  "maintains imports_ok (promise_client_new c i)" "maintains imports_ok (drop_pipeline_client a)"
  "maintains imports_ok (drop_promise_client a)"
  unfolding promise_client_new_def drop_pipeline_client_def drop_promise_client_def
  by (intro keep_rules import_rules; simp)+

lemma imports_pipelined [import_rules]: "maintains imports_ok (pipelined_cap q ops b)"
  unfolding pipelined_cap_def by (intro keep_rules import_rules; simp)

lemma imports_drop [import_rules]: "maintains imports_ok (drop_import i)"
  unfolding drop_import_def by (intro keep_rules import_rules) (auto simp: imports_ok_def)

lemma imports_exports [import_rules]:
  "maintains imports_ok (release_export i n)" "maintains imports_ok (export_cap h)"
  unfolding release_export_def export_cap_def by (intro keep_rules import_rules; simp)+

lemma imports_release [import_rules]: "maintains imports_ok (release_exports is)"
  unfolding release_exports_def by (intro keep_rules import_rules)

lemma imports_descriptor [import_rules]: "maintains imports_ok (write_descriptor h)"
  by (induction h rule: write_descriptor.induct) (auto intro!: keep_rules import_rules)

lemma imports_target [import_rules]: "maintains imports_ok (write_target h)"
  by (induction h) (auto intro!: keep_rules import_rules)

lemma imports_descriptors [import_rules]: "maintains imports_ok (write_descriptors caps)"
  unfolding write_descriptors_def by (intro keep_rules import_rules)

text \<open>A new entry gets its first reference at once.\<close>

lemma imports_import [import_rules]: "maintains imports_ok (import_cap i b)"
proof (rule maintainsI)
  fix s r t assume s: "imports_ok s" and run: "import_cap i b s = (r, t)" "r \<noteq> Panic"
  define u where "u = (if import_table s i = None
    then s\<lparr>import_table := (import_table s)(i \<mapsto> import_entry_new)\<rparr> else s)"
  obtain e where e: "import_table u i = Some e" by (cases "import_table s i") (auto simp: u_def)
  define v where "v = update_import i (\<lambda>e. e\<lparr>remote_ref_count := remote_ref_count e + 1\<rparr>) u"
  define rest where "rest = (if b then
           (case app_client e of
              Some c \<Rightarrow> bindp (gets (upgradable c)) (\<lambda>b. seqp (assertp b) (ret c))
            | None \<Rightarrow>
                bindp (client_new (ImportPtr i)) (\<lambda>_.
                bindp (promise_client_new (ImportHook i) (Some i)) (\<lambda>c.
                seqp (modifyp (update_import i (\<lambda>e. e\<lparr>app_client := Some c,
                    promise_client_to_resolve := (case c of PromiseRef a f \<Rightarrow> Some a | _ \<Rightarrow> None)\<rparr>)))
                  (ret c))))
         else
           bindp (client_new (ImportPtr i)) (\<lambda>f.
           seqp (modifyp (update_import i (\<lambda>e. e\<lparr>app_client := Some (ImportRef i f)\<rparr>)))
             (ret (ImportRef i f))))"
  have "import_cap i b s = seqp (assertp (remote_ref_count e \<noteq> - 1))
      (seqp (modifyp (update_import i (\<lambda>e. e\<lparr>remote_ref_count := remote_ref_count e + 1\<rparr>))) rest) u"
    unfolding import_cap_def rest_def by (simp add: modifyp_then gets_run e flip: u_def)
  then have bound: "remote_ref_count e \<noteq> - 1" and tail: "rest v = (r, t)"
    using run by (auto simp: assertp_then modifyp_then v_def split: if_splits)
  have "remote_ref_count e + 1 \<noteq> 0" using bound eq_neg_iff_add_eq_0 [of "remote_ref_count e" 1] by blast
  then have v: "imports_ok v"
    using s e by (auto simp: v_def u_def imports_ok_def update_import_def)
  have "maintains imports_ok rest"
    unfolding rest_def by (intro keep_rules import_rules imports_ok_update; simp)
  from maintainsD [OF this v tail run(2)] show "imports_ok t" .
qed

lemma imports_receive [import_rules]: "maintains imports_ok (receive_cap d)" "maintains imports_ok (receive_caps ds)"
proof -
  show r: "maintains imports_ok (receive_cap d)" for d
    unfolding receive_cap_def by (cases d) (auto intro!: keep_rules import_rules)
  show "maintains imports_ok (receive_caps ds)"
    unfolding receive_caps_def by (intro keep_rules r)
qed

lemma imports_question [import_rules]:
  "maintains imports_ok (the_question q)" "maintains imports_ok (set_question q qu)"
  "maintains imports_ok (answer_has_sent_return i es)" "maintains imports_ok (get_message_target pl target)"
proof -
  show "maintains imports_ok (the_question q)"
    unfolding the_question_def by (auto intro!: keep_rules split: outcome.splits option.splits)
  show "maintains imports_ok (get_message_target pl target)"
    unfolding get_message_target_def by (cases target) (auto intro!: keep_rules)
qed (unfold set_question_def answer_has_sent_return_def, (intro keep_rules; simp)+)

lemma imports_reference [import_rules]:
  "maintains imports_ok (register_ref q)" "maintains imports_ok (fulfill q r)" "maintains imports_ok (drop_question_ref q)"
  unfolding register_ref_def fulfill_def drop_question_ref_def by (intro keep_rules import_rules; simp)+

lemma imports_calls [import_rules]:
  "maintains imports_ok (send_call target ifc meth caps tail)" "maintains imports_ok (send_streaming target ifc meth caps b)"
  "maintains imports_ok bootstrap" "maintains imports_ok (results_done i status caps)"
  unfolding send_call_def send_streaming_def bootstrap_def results_done_def
  by (intro keep_rules import_rules; simp)+

lemma imports_request [import_rules]: "maintains imports_ok (request_send h ifc meth caps)"
  unfolding request_send_def by (intro keep_rules import_rules)

lemma imports_resolve [import_rules]: "maintains imports_ok (promise_resolve pl a r)"
  unfolding promise_resolve_def by (intro keep_rules import_rules; simp)

lemma imports_announce [import_rules]: "maintains imports_ok (repoint_export i h)"
  unfolding repoint_export_def announce_resolution_def by (intro keep_rules import_rules; simp)

lemma imports_promise [import_rules]: "maintains imports_ok (exported_promise_resolved i r)" "maintains imports_ok run_disembargo"
  unfolding exported_promise_resolved_def run_disembargo_def Let_def by (intro keep_rules import_rules; simp)+

lemma imports_handlers [import_rules]:
  "maintains imports_ok (handle_bootstrap i)" "maintains imports_ok (handle_finish i b)"
  "maintains imports_ok (handle_call pl i target ds to)"
  unfolding handle_bootstrap_def handle_finish_def handle_call_def by (intro keep_rules import_rules; simp)+

lemma imports_unimplemented [import_rules]: "maintains imports_ok (handle_unimplemented msg)"
proof (cases msg)
  case (MResolve i r)
  show ?thesis
  proof (cases r)
    case (ResolveCap d)
    with MResolve show ?thesis by (cases d) (simp_all add: handle_unimplemented_def keep_rules import_rules)
  next
    case ResolveException
    with MResolve show ?thesis by (simp add: handle_unimplemented_def keep_rules)
  qed
qed (simp_all add: handle_unimplemented_def keep_rules)

lemma imports_handle_resolve [import_rules]: "maintains imports_ok (handle_resolve pl i r)"
  unfolding handle_resolve_def by (cases r) (auto intro!: keep_rules import_rules imports_ok_update)

lemma imports_disembargo [import_rules]: "maintains imports_ok (handle_disembargo pl now target ctx)"
  unfolding handle_disembargo_def by (cases ctx) (auto simp: Let_def intro!: keep_rules import_rules)

lemma imports_return [import_rules]: "maintains imports_ok (handle_return msg q nf body)"
  unfolding handle_return_def
  by (cases body) (auto intro!: keep_rules import_rules split: outcome.splits option.splits)

lemma imports_message [import_rules]: "maintains imports_ok (handle_message pl now msg)"
  unfolding handle_message_def by (cases msg) (auto intro!: keep_rules import_rules)

lemma imports_local: "allowed ev s \<Longrightarrow> maintains imports_ok (rpc_step pl now ev)"
  by (cases ev) (auto simp: allowed_def intro!: keep_rules import_rules)

lemma reachable_imports: "network_reachable n \<Longrightarrow> imports_ok (ends n x)"
proof (induction arbitrary: x rule: network_reachable.induct)
  case start
  show ?case by (simp add: imports_ok_def network_new_def connection_new_def)
next
  case (step n m)
  from step.hyps(2) show ?case
  proof cases
    case (local ev y pl now r t)
    have "imports_ok t" by (rule maintainsD [OF imports_local [OF local(2)] step.IH local(3,4)])
    then show ?thesis using step.IH local(1) by simp
  next
    case (deliver y msg rest pl now t)
    have "imports_ok t" by (rule maintainsD [OF imports_message step.IH deliver(3)]) simp
    then show ?thesis using step.IH deliver(1) by simp
  qed
qed

section \<open>What a call is sent to\<close>

lemma descriptors_silent: "maintains (\<lambda>t. outbox t = A) (write_descriptors caps)"
proof -
  have down: "maintains (\<lambda>t. outbox t = A) (downcast p)" for p
    unfolding downcast_def by (intro keep_rules)
  have tables: "maintains (\<lambda>t. outbox t = A) (on_exports m)" for m :: "(export_entry export_table, u32) prog"
    by (simp add: maintains_def on_exports_def split: prod.splits)
  have export: "maintains (\<lambda>t. outbox t = A) (export_cap h)" for h
    unfolding export_cap_def by (intro keep_rules tables; simp)
  have promise: "maintains (\<lambda>t. outbox t = A) (modifyp (update_promise a f))" for a f
    by (intro keep_rules) (simp add: update_promise_def)
  have "maintains (\<lambda>t. outbox t = A) (write_descriptor h)" for h
    by (induction h rule: write_descriptor.induct) (auto intro!: keep_rules down export promise)
  then show ?thesis unfolding write_descriptors_def by (intro keep_rules)
qed

lemma target_silent: "maintains (\<lambda>t. outbox t = A \<and> import_table t = I) (write_target h)"
proof -
  have down: "maintains (\<lambda>t. outbox t = A \<and> import_table t = I) (downcast p)" for p
    unfolding downcast_def by (intro keep_rules)
  show ?thesis
    by (induction h) (auto simp: update_promise_def intro!: keep_rules down)
qed

lemma target_from_hook:
  "write_target h s = (Ok (Inl target), t) \<Longrightarrow> hook_alive s h \<Longrightarrow> target_alive s target"
proof (induction h arbitrary: s t)
  case (PromiseHook a c res)
  let ?u = "update_promise a (\<lambda>p. p\<lparr>received_call := True\<rparr>) s"
  have "(if own_brand c then seqp (downcast (get_ptr c)) (write_target c) else ret (Inr c)) ?u = (Ok (Inl target), t)"
    using PromiseHook.prems(1) by (simp add: modifyp_then)
  then obtain v where v: "write_target c v = (Ok (Inl target), t)" "import_table v = import_table s"
    by (auto simp: downcast_def gets_run assertp_then seqp_def [of "bindp _ _"] bindp_def [of "bindp _ _"] assertp_def
        ret_def panic_def update_promise_def split: if_splits)
  have same: "hook_alive v h = hook_alive s h" "target_alive v target = target_alive s target" for h
    by (induction h) (use v(2) in \<open>cases target; simp\<close>)+
  from PromiseHook.IH [OF v(1)] PromiseHook.prems(2) show ?case by (simp add: same)
qed (auto simp: ret_def)

lemma send_call_out:
  assumes live: "live_ok s" and run: "send_call target ifc meth caps tail s = (r, t)" "r \<noteq> Panic"
  shows "\<exists>q ds to. outbox t = outbox s @ [MCall q target ifc meth ds to]"
proof -
  have "never_fails (send_call target ifc meth caps tail)"
    unfolding send_call_def by (intro safe_rules)
  then have "fst (send_call target ifc meth caps tail s) = Panic \<or> (\<exists>y. fst (send_call target ifc meth caps tail s) = Ok y)"
    by (simp add: never_fails_def)
  then obtain q' where "send_call target ifc meth caps tail s = (Ok q', t)" using run by auto
  then obtain ds es u q v where w: "write_descriptors caps s = (Ok (ds, es), u)"
    and push: "on_questions (table_push (question_new\<lparr>param_exports := es, is_tail_call := tail\<rparr>)) u = (Ok q, v)"
    and tail: "seqp (send_message (MCall q target ifc meth ds (if tail then ToYourself else ToCaller)))
      (seqp (register_ref q) (ret q)) v = (Ok q', t)"
    unfolding send_call_def bindp_def [of "write_descriptors _"] bindp_def [of "on_questions _"]
    by (auto split: prod.splits outcome.splits)
  have u: "outbox u = outbox s" "connection u = None"
    using maintainsD [OF descriptors_silent refl w] paysD(1) [OF write_descriptors_pays live w]
    by (simp_all add: live_ok_def)
  have v: "outbox v = outbox s" "connection v = None"
    using push u by (auto simp: on_questions_def split: prod.splits)
  let ?w = "v\<lparr>outbox := outbox v @ [MCall q target ifc meth ds (if tail then ToYourself else ToCaller)]\<rparr>"
  have "seqp (register_ref q) (ret q) ?w = (Ok q', t)"
    using tail v(2) by (simp add: seqp_def [of "send_message _"] bindp_def [of "send_message _"] send_message_run)
  then have "outbox t = outbox ?w"
    by (auto simp: seqp_def bindp_def register_ref_def the_question_def set_question_def gets_def modifyp_def ret_def
        panic_def table_index_def split: if_splits outcome.splits option.splits)
  then show ?thesis using v(1) by auto
qed

lemma register_silent: "register_ref q s = (r, t) \<Longrightarrow> r \<noteq> Panic \<Longrightarrow> outbox t = outbox s \<and> connection t = connection s"
  by (auto simp: register_ref_def the_question_def set_question_def run_simps table_index_def
      split: if_splits outcome.splits option.splits)

lemma send_streaming_out:
  assumes live: "live_ok s" and run: "send_streaming target ifc meth caps b s = (r, t)" "r \<noteq> Panic"
  shows "\<exists>q ds to. outbox t = outbox s @ [MCall q target ifc meth ds to]"
proof -
  let ?p = "bindp (write_descriptors caps) (\<lambda>(ds, es).
    bindp (on_questions (table_push (question_new\<lparr>param_exports := es\<rparr>))) (\<lambda>q.
      seqp (register_ref q) (seqp (send_message (MCall q target ifc meth ds ToCaller)) (ret q))))"
  have run': "?p s = (r, t)" using run(1) send_streaming_live [OF live] by simp
  have "never_fails ?p" by (intro safe_rules)
  then have "fst (?p s) = Panic \<or> (\<exists>y. fst (?p s) = Ok y)" by (simp add: never_fails_def)
  then obtain q' where "?p s = (Ok q', t)" using run' run(2) by auto
  then obtain ds es u q v where w: "write_descriptors caps s = (Ok (ds, es), u)"
    and push: "on_questions (table_push (question_new\<lparr>param_exports := es\<rparr>)) u = (Ok q, v)"
    and tail: "seqp (register_ref q) (seqp (send_message (MCall q target ifc meth ds ToCaller)) (ret q)) v = (Ok q', t)"
    unfolding bindp_def [of "write_descriptors _"] bindp_def [of "on_questions _"]
    by (auto split: prod.splits outcome.splits)
  have u: "outbox u = outbox s" "connection u = None"
    using maintainsD [OF descriptors_silent refl w] paysD(1) [OF write_descriptors_pays live w]
    by (simp_all add: live_ok_def)
  have v: "outbox v = outbox s" "connection v = None"
    using push u by (auto simp: on_questions_def split: prod.splits)
  obtain z where z: "register_ref q v = (Ok (), z)"
    "seqp (send_message (MCall q target ifc meth ds ToCaller)) (ret q) z = (Ok q', t)"
    using tail by (auto simp: seqp_def [of "register_ref _"] bindp_def [of "register_ref _"] split: prod.splits outcome.splits)
  have "outbox z = outbox s" "connection z = None" using register_silent [OF z(1)] v by simp_all
  then show ?thesis
    using z(2) by (auto simp: seqp_def bindp_def send_message_run ret_def)
qed

lemma request_send_out:
  assumes live: "live_ok s" and run: "request_send h ifc meth caps s = (r, t)" "r \<noteq> Panic" and h: "hook_alive s h"
  shows "outbox t = outbox s \<or> (\<exists>q target ds to. target_alive s target \<and>
    outbox t = outbox s @ [MCall q target ifc meth ds to])"
proof -
  have "never_fails (write_target h)" by (rule safe_rules)
  then have "fst (write_target h s) = Panic \<or> (\<exists>y. fst (write_target h s) = Ok y)" by (simp add: never_fails_def)
  then obtain x u where x: "write_target h s = (Ok x, u)" "(case x of Inr redirect \<Rightarrow> ret (Inr redirect)
   | Inl target \<Rightarrow> bindp (send_call target ifc meth caps False) (\<lambda>q. ret (Inl q))) u = (r, t)"
    using run by (auto simp: request_send_def bindp_def split: prod.splits)
  have u: "outbox u = outbox s" using maintainsD [OF target_silent _ x(1), of "outbox s" "import_table s"] by simp
  have live': "live_ok u" by (rule paysD(1) [OF question_pays(4) live x(1)])
  show ?thesis
  proof (cases x)
    case (Inr redirect)
    then show ?thesis using x(2) u by (simp add: ret_def)
  next
    case (Inl target)
    obtain r' v where call: "send_call target ifc meth caps False u = (r', v)"
      by (cases "send_call target ifc meth caps False u")
    have "r' \<noteq> Panic" "t = v"
      using x(2) run(2) call Inl by (auto simp: bindp_def ret_def split: outcome.splits)
    then obtain q ds to where "outbox t = outbox u @ [MCall q target ifc meth ds to]"
      using send_call_out [OF live' call] by auto
    moreover have "target_alive s target" using target_from_hook [OF _ h] x(1) Inl by simp
    ultimately show ?thesis using u by auto
  qed
qed

lemma bootstrap_out:
  assumes "connection s = None" "bootstrap s = (r, t)" "r \<noteq> Panic"
  shows "\<exists>q. outbox t = outbox s @ [MBootstrap q]"
proof -
  obtain r' u where push: "on_questions (table_push question_new) s = (r', u)"
    by (cases "on_questions (table_push question_new) s")
  have "never_fails (on_questions (table_push question_new))" by (rule safe_rules)
  then have "fst (on_questions (table_push question_new) s) = Panic \<or> (\<exists>y. fst (on_questions (table_push question_new) s) = Ok y)"
    by (simp add: never_fails_def)
  then obtain q where q: "r' = Ok q" using push assms(2,3) by (auto simp: bootstrap_def bindp_def)
  have u: "outbox u = outbox s" "connection u = None"
    using push assms(1) by (auto simp: on_questions_def split: prod.splits)
  let ?rest = "bindp (gets connection) (\<lambda>c. if c \<noteq> None then panic else seqp (send_message (MBootstrap q)) (ret q))"
  have tail: "seqp (register_ref q) ?rest u = (r, t)" using assms(2) push q by (simp add: bootstrap_def bindp_Ok)
  obtain r2 z where z: "register_ref q u = (r2, z)" by (cases "register_ref q u")
  have "never_fails (register_ref q)" by (rule safe_rules)
  then have "fst (register_ref q u) = Panic \<or> (\<exists>y. fst (register_ref q u) = Ok y)" by (simp add: never_fails_def)
  then obtain y where y: "r2 = Ok y" using z tail assms(3) by (auto simp: seqp_def bindp_def)
  have "outbox z = outbox s" "connection z = None" using register_silent [OF z] y u by simp_all
  moreover have "?rest z = (r, t)" using tail z y by (simp add: seqp_Ok)
  ultimately have "seqp (send_message (MBootstrap q)) (ret q) z = (r, t)" by (simp add: gets_run)
  with \<open>connection z = None\<close> have "t = z\<lparr>outbox := outbox z @ [MBootstrap q]\<rparr>"
    by (auto simp: seqp_def bindp_def send_message_run ret_def)
  with \<open>outbox z = outbox s\<close> show ?thesis by auto
qed

section \<open>A call finds its target\<close>

text \<open>
  A call under way to an imported capability is followed by all the references that its sender held:
  they are still held, or given back by messages behind the call.
\<close>

definition backed :: "connection_state \<Rightarrow> rpc_message list \<Rightarrow> bool" where
  "backed s ms \<longleftrightarrow> (\<forall>pre q i ifc meth ds to post. ms = pre @ MCall q (ImportedCap i) ifc meth ds to # post \<longrightarrow>
     0 < imps s i + given i post)"

lemma backedD: "backed s (pre @ MCall q (ImportedCap i) ifc meth ds to # post) \<Longrightarrow> 0 < imps s i + given i post"
  by (simp add: backed_def)

lemma backed_tail: "backed s (ms @ ns) \<Longrightarrow> backed s ns"
  unfolding backed_def by (metis append.assoc)

lemma backed_append:
  assumes "backed s F" and imps: "\<And>i. imps s i \<le> imps t i + given i ms" and new: "backed t ms"
  shows "backed t (F @ ms)"
  unfolding backed_def
proof (intro allI impI)
  fix pre q i ifc meth ds to post
  assume eq: "F @ ms = pre @ MCall q (ImportedCap i) ifc meth ds to # post"
  obtain us where us: "F = pre @ us \<and> us @ ms = MCall q (ImportedCap i) ifc meth ds to # post \<or>
      F @ us = pre \<and> ms = us @ MCall q (ImportedCap i) ifc meth ds to # post"
    using eq unfolding append_eq_append_conv2 by blast
  consider zs where "F = pre @ MCall q (ImportedCap i) ifc meth ds to # zs" "post = zs @ ms"
    | zs where "ms = zs @ MCall q (ImportedCap i) ifc meth ds to # post"
  proof (cases "us = []")
    case True
    then have "ms = [] @ MCall q (ImportedCap i) ifc meth ds to # post" using us by auto
    then show ?thesis by (rule that(2))
  next
    case False
    show ?thesis
    proof (cases "F @ us = pre")
      case True
      then have "ms = us @ MCall q (ImportedCap i) ifc meth ds to # post" using eq by auto
      then show ?thesis by (rule that(2))
    next
      case other: False
      then have F: "F = pre @ us" "us @ ms = MCall q (ImportedCap i) ifc meth ds to # post" using us by auto
      then obtain zs where zs: "us = MCall q (ImportedCap i) ifc meth ds to # zs" using False by (cases us) auto
      have "F = pre @ MCall q (ImportedCap i) ifc meth ds to # zs" using F(1) zs by simp
      moreover have "post = zs @ ms" using F(2) zs by simp
      ultimately show ?thesis by (rule that(1))
    qed
  qed
  then show "0 < imps t i + given i post"
  proof cases
    case (1 zs)
    have "0 < imps s i + given i zs" by (rule backedD [OF assms(1) [unfolded 1(1)]])
    with imps [of i] have "0 < imps t i + given i zs + given i ms" by linarith
    then show ?thesis using 1(2) by simp
  next
    case (2 zs)
    show ?thesis by (rule backedD [OF new [unfolded 2]])
  qed
qed

lemma backed_no_calls: "(\<And>q target ifc meth ds to. MCall q target ifc meth ds to \<notin> set ms) \<Longrightarrow> backed s ms"
  unfolding backed_def by (metis in_set_conv_decomp)

lemma backed_one: "target_alive s target \<Longrightarrow> imports_ok s \<Longrightarrow> imps t = imps s \<Longrightarrow> backed t [MCall q target ifc meth ds to]"
  by (cases target) (auto simp: backed_def Cons_eq_append_conv imps_def imports_ok_def unat_gt_0)

lemma no_asks_calls: "asks q ms = [] \<Longrightarrow> MCall q target ifc meth ds to \<notin> set ms"
  by (auto simp: asks_def asks_of_def)

text \<open>What the application sends is backed; handling a message sends no calls.\<close>

lemma local_backed:
  assumes inv: "network_inv n" and al: "allowed ev (ends n x)" and iok: "imports_ok (ends n x)"
    and run: "rpc_step pl now ev (ends n x) = (r, t)" "r \<noteq> Panic"
    and out: "outbox t = outbox (ends n x) @ ms" and imps: "\<And>i. imps t i + given i ms = imps (ends n x) i"
  shows "backed t ms"
proof -
  let ?s = "ends n x"
  have s: "conn_ok ?s" "connection ?s = None" using inv by (simp_all add: network_inv_def)
  have live: "live_ok ?s" using s by (simp add: live_ok_def)
  have one: "backed t ms"
    if sent: "\<exists>q ds to. outbox t = outbox ?s @ [MCall q target ifc meth ds to]" and target: "target_alive ?s target"
    for target ifc meth
  proof -
    obtain q ds to where ms: "ms = [MCall q target ifc meth ds to]" using sent out by auto
    have "imps t = imps ?s" using imps ms by (auto simp: fun_eq_iff)
    from backed_one [OF target iok this] ms show ?thesis by simp
  qed
  have silent: "backed t ms" if "\<And>q. asks q ms = []"
    by (rule backed_no_calls) (use that no_asks_calls in blast)
  have quiet: "backed t ms" if "maintains (quiet ?s) (rpc_step pl now ev)"
    by (rule silent) (use quietD [OF that run] out in \<open>auto simp: quiet_def\<close>)
  show ?thesis
  proof (cases ev)
    case (SendCall target ifc meth caps tail)
    obtain r' where r': "send_call target ifc meth caps tail ?s = (r', t)" "r' \<noteq> Panic"
      using rpc_step_unit [of "send_call target ifc meth caps tail" ?s r t] run SendCall by auto
    show ?thesis by (rule one [OF send_call_out [OF live r']]) (use al SendCall in \<open>simp add: allowed_def\<close>)
  next
    case (SendStreaming target ifc meth caps fl)
    obtain r' where r': "send_streaming target ifc meth caps fl ?s = (r', t)" "r' \<noteq> Panic"
      using rpc_step_unit [of "send_streaming target ifc meth caps fl" ?s r t] run SendStreaming by auto
    show ?thesis by (rule one [OF send_streaming_out [OF live r']]) (use al SendStreaming in \<open>simp add: allowed_def\<close>)
  next
    case (RequestSend h ifc meth caps)
    obtain r' where r': "request_send h ifc meth caps ?s = (r', t)" "r' \<noteq> Panic"
      using rpc_step_unit [of "request_send h ifc meth caps" ?s r t] run RequestSend by auto
    have "hook_alive ?s h" using al RequestSend by (simp add: allowed_def)
    from request_send_out [OF live r' this] show ?thesis
    proof
      assume "outbox t = outbox ?s"
      then have "ms = []" using out by simp
      then show ?thesis by (simp add: backed_def)
    qed (use one in blast)
  next
    case SendBootstrap
    obtain r' where r': "bootstrap ?s = (r', t)" "r' \<noteq> Panic"
      using rpc_step_unit [of bootstrap ?s r t] run SendBootstrap by auto
    obtain q where "ms = [MBootstrap q]" using bootstrap_out [OF s(2) r'] out by auto
    then show ?thesis by (intro backed_no_calls) simp
  next
    case (DropQuestionRef q)
    then obtain w skip where view: "question_view ?s q = Some (w, True, skip)"
      using al by (auto simp: allowed_def question_view_def split: option.splits)
    have r': "drop_question_ref q ?s = (r, t)" using run DropQuestionRef by simp
    have "ms = (if skip then [] else [MFinish q w])" using drop_question_ref_out [OF s(2) view r' run(2)] out by simp
    then show ?thesis by (intro backed_no_calls) auto
  next
    case (ResultsDone i status caps)
    then obtain a where a: "answers ?s i = Some a" "\<not> return_has_been_sent a"
      using al by (auto simp: allowed_def split: option.splits)
    have r': "results_done i status caps ?s = (r, t)" using run ResultsDone by simp
    from s(2) a r' run(2) show ?thesis
      by (cases rule: results_done_effect; intro silent) (use out in \<open>auto simp: effect_def quiet_def\<close>)
  next
    case (GetPipelinedCap q ops fl)
    show ?thesis
      by (rule quiet) (use GetPipelinedCap in \<open>auto intro!: keep_rules quiet_rules\<close>)
  qed (use al quiet in \<open>auto simp: allowed_def intro!: quiet_rules\<close>)
qed

lemma handler_asks:
  assumes inv: "network_inv n" and head: "in_flight n x = msg # rest"
    and run: "handle_message pl now msg (ends n x) = (Ok (), t)" and out: "outbox t = outbox (ends n x) @ ms"
  shows "asks q ms = []"
proof -
  let ?s = "ends n x"
  have s: "conn_ok ?s" "connection ?s = None" using inv by (simp_all add: network_inv_def)
  have eff: "asks q ms = []" if "effect ?s t i qv a [] bwd" for i qv a bwd
    using that out by (auto simp: effect_def)
  have quiet: "asks q ms = []" if "maintains (quiet ?s) (handle_message pl now msg)"
    using quietD [OF that run] out by (auto simp: quiet_def)
  show ?thesis
  proof (cases msg)
    case (MBootstrap i)
    have "handle_bootstrap i ?s = (Ok (), t)" using run MBootstrap by (simp add: handle_message_def)
    from eff [OF handle_bootstrap_effect [OF s(2) this]] show ?thesis .
  next
    case (MCall i target ifc meth ds to)
    have "handle_call pl i target ds to ?s = (Ok (), t)" using run MCall by (simp add: handle_message_def)
    from eff [OF conjunct2 [OF handle_call_effect [OF this]]] show ?thesis .
  next
    case (MFinish i b)
    have "handle_finish i b ?s = (Ok (), t)" using run MFinish by (simp add: handle_message_def)
    from eff [OF handle_finish_effect [OF this]] show ?thesis .
  next
    case (MReturn i nf body)
    obtain al where c: "question_view ?s i = Some (True, al, False)" "return_kind nf body \<noteq> RetOther"
      "al \<Longrightarrow> return_kind nf body \<noteq> RetCanceled"
      using config_return [OF head_config(2) [OF inv head, of i, unfolded MReturn returns_of_def, simplified]] by blast
    have "handle_return msg i nf body ?s = (Ok (), t)" using run MReturn by (simp add: handle_message_def)
    from eff [OF handle_return_effect [OF s(1) c this]] show ?thesis .
  next
    case MAbort
    then show ?thesis using run by (simp add: handle_message_def err_def)
  qed (rule quiet; auto simp: handle_message_def asks_of_def returns_of_def intro!: keep_rules quiet_rules)+
qed

lemma reachable_backed: "network_reachable n \<Longrightarrow> backed (ends n (\<not> x)) (in_flight n x)"
proof (induction arbitrary: x rule: network_reachable.induct)
  case start
  show ?case by (simp add: backed_def network_new_def in_flight_def connection_new_def)
next
  case (step n m)
  have inv: "network_inv n" "ledger_inv n" using network_reachable_ledger [OF step.hyps(1)] by simp_all
  have grow: "backed (ends (after n y t (length hm)) (\<not> x)) (in_flight (after n y t (length hm)) x)"
    if flight: "in_flight n y = hm @ rest" and out: "outbox t = outbox (ends n y) @ ms"
      and imps: "\<And>i. imps (ends n y) i \<le> imps t i + given i ms" and new: "backed t ms" for y t hm rest ms
  proof -
    note f = after_flight [OF inv(1) flight out]
    show ?thesis
    proof (cases "x = y")
      case True
      have "backed (ends n (\<not> y)) rest" using step.IH [of y] flight backed_tail by metis
      then show ?thesis using True f(1) by simp
    next
      case False
      then have x: "x = (\<not> y)" by auto
      have "backed (ends n y) (in_flight n (\<not> y))" using step.IH [of "\<not> y"] by simp
      from backed_append [OF this imps new] show ?thesis using x f(2) by simp
    qed
  qed
  from step.hyps(2) show ?case
  proof cases
    case (local ev y pl now r t)
    have "balanced (ends n y) t"
      by (rule local_step_settles(2) [OF local(2) _ local(3,4)]) (use inv(1) in \<open>simp add: network_inv_def live_ok_def\<close>)
    then obtain ms where ms: "outbox t = outbox (ends n y) @ ms" "\<And>i. imps t i + given i ms = imps (ends n y) i"
      by (rule balancedE) (rule that)
    have "backed t ms"
      by (rule local_backed [OF inv(1) local(2) reachable_imports [OF step.hyps(1)] local(3,4) ms])
    from grow [of y "[]" "in_flight n y" t ms] ms this show ?thesis
      by (simp add: local(1) after_zero)
  next
    case (deliver y msg rest pl now t)
    have live: "live_ok (ends n y)" using inv(1) by (simp add: network_inv_def live_ok_def)
    have ret: "\<exists>al. question_view (ends n y) q = Some (True, al, False) \<and> return_kind nf body \<noteq> RetOther \<and>
      (al \<longrightarrow> return_kind nf body \<noteq> RetCanceled)" if "msg = MReturn q nf body" for q nf body
      using config_return [OF head_config(2) [OF inv(1) deliver(2), of q, unfolded that returns_of_def, simplified]] by blast
    have "moves (ends n y) t (\<lambda>j. - int (taken (held (ends n y)) j msg))
        (\<lambda>j. int (carried j (filter (wanted (ends n y)) [msg])))"
      using handle_message_pays [OF live deliver(3) ret] by blast
    then obtain ms where ms: "outbox t = outbox (ends n y) @ ms"
      "\<And>j. imps t j + given j ms = imps (ends n y) j + carried j (filter (wanted (ends n y)) [msg])"
      by (rule handledE) (rule that)
    have "backed t ms"
      by (rule backed_no_calls) (use handler_asks [OF inv(1) deliver(2,3) ms(1)] no_asks_calls in blast)
    moreover have "imps (ends n y) i \<le> imps t i + given i ms" for i using ms(2) [of i] by simp
    ultimately show ?thesis
      using grow [of y "[msg]" rest t ms] deliver(2) ms(1) by (simp add: deliver(1) after_one)
  qed
qed

text \<open>C6: A capability that an end has imported is always backed: the other end exports it, with at
  least as many references as the import holds.\<close>

theorem imports_are_backed:
  assumes "network_reachable n" "import_table (ends n x) i = Some e"
  shows "\<exists>ex. table_find i (exports (ends n (\<not> x))) = Some ex \<and> remote_ref_count e \<le> refcount ex"
proof -
  have "remote_ref_count e \<noteq> 0" using reachable_imports [OF assms(1)] assms(2) by (auto simp: imports_ok_def)
  moreover have "unat (remote_ref_count e) \<le> refs (ends n (\<not> x)) i"
    using refs_balance_ge(2) [OF assms(1), of "\<not> x" i] assms(2) by (simp add: imps_def)
  ultimately show ?thesis
    by (auto simp: refs_def word_le_nat_alt unat_eq_zero split: option.splits)
qed

text \<open>C5: A call to an imported capability always finds its export when it arrives, however it is
  interleaved with the release of the import: the peer is never told that its target is unknown.\<close>

theorem calls_find_their_target:
  assumes "network_reachable n" "in_flight n x = MCall q (ImportedCap i) ifc meth ds to # rest"
  shows "\<exists>h. get_message_target pl (ImportedCap i) (ends n x) = (Ok (Some h), ends n x)"
proof -
  have "0 < imps (ends n (\<not> x)) i + given i rest"
    using reachable_backed [OF assms(1), of x] assms(2) backedD [where pre = "[]"] by simp
  also have "\<dots> \<le> refs (ends n x) i" using refs_balance_ge(3) [OF assms(1), where x = x and i = i] assms(2) by simp
  finally obtain e where "table_find i (exports (ends n x)) = Some e"
    by (auto simp: refs_def split: option.splits)
  then show ?thesis by (simp add: get_message_target_def gets_run ret_def)
qed

text \<open>The client calls the bootstrap capability and drops it at once: the \<open>Release\<close> follows the call.\<close>

definition call_and_drop :: "network_action list" where
  "call_and_drop =
     [Happens True SendBootstrap, Handles False, Handles True,
      Happens True (RequestSend (ImportHook 0) 3 2 []), Happens True (DropImport 0)]"

definition calling_network :: network where
  "calling_network = the (run_network (butlast call_and_drop) (network_new (\<lambda>x. LocalHook 5 None False)))"

definition dropping_network :: network where
  "dropping_network = the (run_network call_and_drop (network_new (\<lambda>x. LocalHook 5 None False)))"

lemma call_and_drop_runs:
  "\<exists>n. run_network (butlast call_and_drop) (network_new (\<lambda>x. LocalHook 5 None False)) = Some n \<and>
     import_table (ends n True) 0 \<noteq> None"
  "\<exists>n. run_network call_and_drop (network_new (\<lambda>x. LocalHook 5 None False)) = Some n \<and>
     in_flight n False = [MCall 1 (ImportedCap 0) 3 2 [] ToCaller, MRelease 0 1]"
  unfolding call_and_drop_def butlast.simps
  by (simp_all add: network_new_def allowed_def in_flight_def run_connection run_calls run_drops
      bindp_def seqp_def ret_def)

lemma imports_are_backed_witness:
  "\<exists>e ex. import_table (ends calling_network True) 0 = Some e \<and>
     table_find 0 (exports (ends calling_network False)) = Some ex \<and> remote_ref_count e \<le> refcount ex"
proof -
  obtain n e where n: "run_network (butlast call_and_drop) (network_new (\<lambda>x. LocalHook 5 None False)) = Some n"
    "import_table (ends n True) 0 = Some e"
    using call_and_drop_runs(1) by auto
  have "network_reachable n" by (rule run_network_reachable [OF n(1) network_reachable.start])
  from imports_are_backed [OF this n(2)] n show ?thesis by (auto simp: calling_network_def)
qed

lemma calls_find_their_target_witness:
  "in_flight dropping_network False = [MCall 1 (ImportedCap 0) 3 2 [] ToCaller, MRelease 0 1] \<and>
   (\<exists>h. get_message_target (\<lambda>q ops. LocalHook 0 None False) (ImportedCap 0) (ends dropping_network False) =
      (Ok (Some h), ends dropping_network False))"
proof -
  obtain n where n: "run_network call_and_drop (network_new (\<lambda>x. LocalHook 5 None False)) = Some n"
    "in_flight n False = [MCall 1 (ImportedCap 0) 3 2 [] ToCaller, MRelease 0 1]"
    using call_and_drop_runs(2) by auto
  have "network_reachable n" by (rule run_network_reachable [OF n(1) network_reachable.start])
  from calls_find_their_target [OF this n(2)] n show ?thesis by (simp add: dropping_network_def)
qed

end
