(* ===== verification/Async_IO.thy ===== *)
theory Async_IO
  imports Stream_IO Byte_Channel
begin

text \<open>
  Asynchronous streams. \<open>AsyncRead::poll_read\<close> and \<open>AsyncWrite::poll_write\<close> either do something now
  or say \<open>Pending\<close>; a task that awaits them is polled again later. The result of a task is \<open>None\<close>
  when it is polled for ever.

  \<open>async_source\<close> and \<open>async_sink\<close> are the contracts of streams that are \<open>Pending\<close> only finitely often
  before something happens. A source may insist that its reads end at multiples of a unit, counted
  from its beginning: one byte for a plain stream, a word for a stream of packed words. Both are
  interpreted on the two ends of \<^verbatim>\<open>async-byte-channel\<close> and on streams that are given as a list of
  what happens at each poll.
\<close>

section \<open>Tasks\<close>

type_synonym ('s, 'a) task = "'s \<Rightarrow> ('a outcome \<times> 's) option"

text \<open>Code between two \<open>await\<close>s.\<close>

definition run :: "('s, 'a) prog \<Rightarrow> ('s, 'a) task" where
  "run m s = Some (m s)"

definition bindt :: "('s, 'a) task \<Rightarrow> ('a \<Rightarrow> ('s, 'b) task) \<Rightarrow> ('s, 'b) task" where
  "bindt m f s = (case m s of
     None \<Rightarrow> None
   | Some (Ok x, t) \<Rightarrow> f x t
   | Some (Err e, t) \<Rightarrow> Some (Err e, t)
   | Some (Panic, t) \<Rightarrow> Some (Panic, t)
   | Some (UB, t) \<Rightarrow> Some (UB, t))"

text \<open>\<open>.await\<close> on a future that is given by its poll function.\<close>

partial_function (option) await :: "('s, 'a poll) task \<Rightarrow> ('s, 'a) task" where
  "await m s = (case m s of
     None \<Rightarrow> None
   | Some (Ok Pending, t) \<Rightarrow> await m t
   | Some (Ok (Ready x), t) \<Rightarrow> Some (Ok x, t)
   | Some (Err e, t) \<Rightarrow> Some (Err e, t)
   | Some (Panic, t) \<Rightarrow> Some (Panic, t)
   | Some (UB, t) \<Rightarrow> Some (UB, t))"

lemma bindt_cong [fundef_cong]:
  assumes "m s = m' s" and "\<And>x t. m' s = Some (Ok x, t) \<Longrightarrow> f x t = f' x t"
  shows "bindt m f s = bindt m' f' s"
  using assms by (auto simp: bindt_def split: option.splits prod.splits outcome.splits)

lemma bindt_Ok: "m s = Some (Ok x, t) \<Longrightarrow> bindt m f s = f x t"
  by (simp add: bindt_def)

lemma bindt_Err: "m s = Some (Err e, t) \<Longrightarrow> bindt m f s = Some (Err e, t)"
  by (simp add: bindt_def)

lemma bindt_run [simp]: "bindt (run (ret x)) f = f x"
  by (rule ext) (simp add: bindt_def run_def ret_def)

lemma bindt_run_err [simp]: "bindt (run (err e)) f = run (err e)"
  by (rule ext) (simp add: bindt_def run_def err_def)

lemma bindt_unit [simp]: "bindt m (\<lambda>_. run (ret ())) = m"
  by (rule ext) (simp add: bindt_def run_def ret_def split: option.splits prod.splits outcome.splits)

lemma bindt_assoc: "bindt (bindt m f) g = bindt m (\<lambda>x. bindt (f x) g)"
  by (rule ext) (simp add: bindt_def split: option.splits prod.splits outcome.splits)

lemma await_simps:
  "m s = Some (Ok Pending, t) \<Longrightarrow> await m s = await m t"
  "m s = Some (Ok (Ready x), t) \<Longrightarrow> await m s = Some (Ok x, t)"
  "m s = Some (Err e, t) \<Longrightarrow> await m s = Some (Err e, t)"
  by (simp_all add: await.simps [of m s])

section \<open>Reading\<close>

text \<open>
  What the extension methods \<open>read\<close>, \<open>read_exact\<close> and \<open>write_all\<close> of \<^verbatim>\<open>futures\<close> are documented to
  do, for a task that is polled until it is done: one transfer of at least one byte, or all the bytes
  with \<open>UnexpectedEof\<close> or \<open>WriteZero\<close> where that is not possible. The conversion of \<^verbatim>\<open>io::Error\<close> to
  \<^verbatim>\<open>capnp::Error\<close> (\<^verbatim>\<open>capnp/src/lib.rs\<close>) makes the first \<open>PrematureEndOfFile\<close> and the second \<open>Failed\<close>.
\<close>

definition await_read :: "(nat \<Rightarrow> ('r, u8 list poll) prog) \<Rightarrow> nat \<Rightarrow> ('r, u8 list) task" where
  "await_read pr n = await (run (pr n))"

function await_read_exact :: "(nat \<Rightarrow> ('r, u8 list poll) prog) \<Rightarrow> nat \<Rightarrow> ('r, u8 list) task" where
  "await_read_exact pr n =
     (if n = 0 then run (ret [])
      else bindt (await_read pr n) (\<lambda>bs.
        if bs = [] then run (err PrematureEndOfFile)
        else if length bs > n then run panic
        else bindt (await_read_exact pr (n - length bs)) (\<lambda>rest. run (ret (bs @ rest)))))"
  by pat_completeness auto
termination
  by (relation "measure snd") auto

function await_write_all :: "(u8 list \<Rightarrow> ('w, nat poll) task) \<Rightarrow> u8 list \<Rightarrow> ('w, unit) task" where
  "await_write_all pw bs =
     (if bs = [] then run (ret ())
      else bindt (await (pw bs)) (\<lambda>n.
        if n = 0 then run (err Failed)
        else if n > length bs then run panic
        else await_write_all pw (drop n bs)))"
  by pat_completeness auto
termination
  by (relation "measure (length \<circ> snd)") auto

declare await_read_exact.simps [simp del] await_write_all.simps [simp del]

text \<open>
  The contract of one poll. \<open>ending\<close> is the error that comes after the content, if any; \<open>pos\<close>
  counts the bytes that were delivered; \<open>waiting\<close> is an order in which a source goes down whenever it
  is \<open>Pending\<close>, so that it cannot be for ever.
\<close>

record 'r source_view =
  ok :: "'r \<Rightarrow> bool"
  content :: "'r \<Rightarrow> u8 list"
  ending :: "'r \<Rightarrow> error_kind option"
  unit_len :: nat
  pos :: "'r \<Rightarrow> nat"
  waiting :: "('r \<times> 'r) set"

definition advances :: "('r, 'z) source_view_scheme \<Rightarrow> 'r \<Rightarrow> u8 list \<Rightarrow> 'r \<Rightarrow> bool" where
  "advances V r bs r' \<longleftrightarrow> ok V r' \<and> content V r = bs @ content V r' \<and> ending V r' = ending V r \<and>
     pos V r' mod unit_len V = (pos V r + length bs) mod unit_len V"

lemma advances_trans:
  assumes "advances V r a s" "advances V s b t"
  shows "advances V r (a @ b) t"
proof -
  have "pos V t mod unit_len V = (pos V s mod unit_len V + length b) mod unit_len V"
    using assms(2) by (simp add: advances_def mod_add_left_eq)
  also have "\<dots> = (pos V r + length a + length b) mod unit_len V"
    using assms(1) by (simp add: advances_def mod_add_left_eq)
  finally show ?thesis using assms by (simp add: advances_def add.assoc)
qed

definition poll_reads :: "('r, 'z) source_view_scheme \<Rightarrow> nat \<Rightarrow> 'r \<Rightarrow> u8 list poll outcome \<times> 'r \<Rightarrow> bool" where
  "poll_reads V n r res \<longleftrightarrow> (case res of
     (Ok Pending, r') \<Rightarrow> advances V r [] r' \<and> (r', r) \<in> waiting V
   | (Ok (Ready bs), r') \<Rightarrow> advances V r bs r' \<and> length bs \<le> n \<and>
       (bs = [] \<longrightarrow> content V r = [] \<and> ending V r = None)
   | (Err e, r') \<Rightarrow> content V r = [] \<and> ending V r = Some e
   | _ \<Rightarrow> False)"

text \<open>What awaiting a read gives.\<close>

definition awaited :: "('r, 'z) source_view_scheme \<Rightarrow> nat \<Rightarrow> 'r \<Rightarrow> u8 list outcome \<times> 'r \<Rightarrow> bool" where
  "awaited V n r res \<longleftrightarrow> (case res of
     (Ok bs, r') \<Rightarrow> advances V r bs r' \<and> length bs \<le> n \<and> (bs = [] \<longrightarrow> content V r = [] \<and> ending V r = None)
   | (Err e, r') \<Rightarrow> content V r = [] \<and> ending V r = Some e
   | _ \<Rightarrow> False)"

definition fits :: "('r, 'z) source_view_scheme \<Rightarrow> nat \<Rightarrow> 'r \<Rightarrow> bool" where
  "fits V n r \<longleftrightarrow> ok V r \<and> (pos V r + n) mod unit_len V = 0"

lemma fits_advance: "fits V n r \<Longrightarrow> advances V r bs r' \<Longrightarrow> length bs \<le> n \<Longrightarrow> fits V (n - length bs) r'"
proof -
  assume a: "fits V n r" "advances V r bs r'" "length bs \<le> n"
  have "(pos V r' + (n - length bs)) mod unit_len V = (pos V r' mod unit_len V + (n - length bs)) mod unit_len V"
    by (simp only: mod_add_left_eq)
  also have "\<dots> = ((pos V r + length bs) mod unit_len V + (n - length bs)) mod unit_len V"
    using a(2) by (simp add: advances_def)
  also have "\<dots> = (pos V r + n) mod unit_len V" using a(3) by (simp only: mod_add_left_eq) simp
  finally show ?thesis using a by (simp add: fits_def advances_def)
qed

locale async_source =
  fixes pr :: "nat \<Rightarrow> ('r, u8 list poll) prog" and V :: "'r source_view"
  assumes wf_waiting: "wf (waiting V)"
    and poll_law: "fits V n r \<Longrightarrow> 0 < n \<Longrightarrow> poll_reads V n r (pr n r)"
begin

lemma read_cases:
  assumes "fits V n r" "0 < n"
  obtains (bytes) bs r' where "await_read pr n r = Some (Ok bs, r')" "advances V r bs r'" "length bs \<le> n" "bs \<noteq> []"
  | (eof) r' where "await_read pr n r = Some (Ok [], r')" "advances V r [] r'" "content V r = []" "ending V r = None"
  | (failed) e r' where "await_read pr n r = Some (Err e, r')" "content V r = []" "ending V r = Some e"
proof -
  have "\<exists>res. await_read pr n r = Some res \<and> awaited V n r res"
    using assms
  proof (induction r rule: wf_induct_rule [OF wf_waiting])
    case less: (1 r)
    note law = poll_law [OF less.prems]
    obtain res t where p: "pr n r = (res, t)" by fastforce
    consider (pending) "res = Ok Pending" "advances V r [] t" "(t, r) \<in> waiting V"
      | (ready) bs where "res = Ok (Ready bs)" "advances V r bs t" "length bs \<le> n"
          "bs = [] \<longrightarrow> content V r = [] \<and> ending V r = None"
      | (err) e where "res = Err e" "content V r = []" "ending V r = Some e"
      using law by (auto simp: poll_reads_def p split: outcome.splits poll.splits)
    then show ?case
    proof cases
      case pending
      note * = less.IH [OF pending(3) fits_advance [OF less.prems(1) pending(2), simplified] less.prems(2)]
      have "await_read pr n r = await_read pr n t"
        using await_simps(1) [of "run (pr n)" r t] pending(1) p by (simp add: await_read_def run_def)
      moreover have "awaited V n t res \<Longrightarrow> awaited V n r res" for res
        using pending(2) by (auto simp: awaited_def advances_def mod_simps split: outcome.splits)
          (metis mod_add_left_eq)+
      ultimately show ?thesis using * by auto
    next
      case ready
      then show ?thesis using await_simps(2) [of "run (pr n)" r bs t] p by (simp add: await_read_def run_def awaited_def)
    next
      case err
      then show ?thesis using await_simps(3) [of "run (pr n)" r e t] p by (simp add: await_read_def run_def awaited_def)
    qed
  qed
  then obtain res t where res: "await_read pr n r = Some (res, t)" "awaited V n r (res, t)" by fastforce
  then show ?thesis using bytes eof failed by (cases res) (auto simp: awaited_def)
qed

lemma shorter: "bs \<noteq> [] \<Longrightarrow> length bs \<le> n \<Longrightarrow> n - length bs < n"
  by (metis diff_less length_greater_0_conv le_zero_eq not_gr_zero)

lemma read_exact_full:
  "fits V n r \<Longrightarrow> n \<le> length (content V r) \<Longrightarrow>
   \<exists>r'. await_read_exact pr n r = Some (Ok (take n (content V r)), r') \<and> advances V r (take n (content V r)) r'"
proof (induction n arbitrary: r rule: less_induct)
  case (less n)
  show ?case
  proof (cases "n = 0")
    case True
    then show ?thesis
      using less.prems(1) by (simp add: await_read_exact.simps [of _ 0] run_def ret_def advances_def fits_def)
  next
    case False
    then have n: "0 < n" by simp
    from less.prems(1) n show ?thesis
    proof (cases rule: read_cases)
      case (bytes bs t)
      have c: "content V r = bs @ content V t" using bytes(2) by (simp add: advances_def)
      have le: "n - length bs \<le> length (content V t)" using less.prems(2) c by simp
      from less.IH [OF shorter [OF bytes(4,3)] fits_advance [OF less.prems(1) bytes(2,3)] le] obtain u where
        u: "await_read_exact pr (n - length bs) t = Some (Ok (take (n - length bs) (content V t)), u)"
        "advances V t (take (n - length bs) (content V t)) u" by blast
      have "advances V r (take n (content V r)) u"
        using advances_trans [OF bytes(2) u(2)] bytes(3) c by simp
      then show ?thesis
        using False bytes(1,3,4) u(1) c by (subst await_read_exact.simps) (auto simp: bindt_def run_def ret_def)
    qed (use False less.prems in auto)
  qed
qed

lemma read_exact_short:
  "fits V n r \<Longrightarrow> length (content V r) < n \<Longrightarrow>
   \<exists>r'. await_read_exact pr n r = Some (Err (case ending V r of None \<Rightarrow> PrematureEndOfFile | Some e \<Rightarrow> e), r')"
proof (induction n arbitrary: r rule: less_induct)
  case (less n)
  have n: "0 < n" using less.prems(2) by simp
  from less.prems(1) n show ?case
  proof (cases rule: read_cases)
    case (bytes bs t)
    have c: "content V r = bs @ content V t" "ending V t = ending V r" using bytes(2) by (simp_all add: advances_def)
    have short: "length (content V t) < n - length bs" using less.prems(2) c by simp
    from less.IH [OF shorter [OF bytes(4,3)] fits_advance [OF less.prems(1) bytes(2,3)] short] obtain u where
      "await_read_exact pr (n - length bs) t = Some (Err (case ending V t of None \<Rightarrow> PrematureEndOfFile | Some e \<Rightarrow> e), u)" by blast
    then show ?thesis using n bytes(1,3,4) c(2) by (subst await_read_exact.simps) (auto simp: bindt_def)
  next
    case (eof t)
    then show ?thesis using n by (subst await_read_exact.simps) (simp add: bindt_def run_def err_def)
  next
    case (failed e t)
    then show ?thesis using n by (subst await_read_exact.simps) (simp add: bindt_def)
  qed
qed

end

text \<open>
  A stream that is given by what happens at each poll: \<open>None\<close> is \<open>Pending\<close>, \<open>Some piece\<close> is a piece
  that has arrived. An empty piece is passed over.
\<close>

fun script_read :: "nat \<Rightarrow> (u8 list option list, u8 list poll) prog" where
  "script_read n [] = (Ok (Ready []), [])"
| "script_read n (None # s) = (Ok Pending, s)"
| "script_read n (Some c # s) =
     (if c = [] then script_read n s
      else if n < length c then (Ok (Ready (take n c)), Some (drop n c) # s)
      else (Ok (Ready c), s))"

definition script_content :: "u8 list option list \<Rightarrow> u8 list" where
  "script_content s = concat (map (\<lambda>c. case c of None \<Rightarrow> [] | Some bs \<Rightarrow> bs) s)"

lemma script_content_simps [simp]:
  "script_content [] = []" "script_content (None # s) = script_content s"
  "script_content (Some c # s) = c @ script_content s"
  by (simp_all add: script_content_def)

text \<open>The view of a stream without a unit.\<close>

definition plain_view :: "('r \<Rightarrow> bool) \<Rightarrow> ('r \<Rightarrow> u8 list) \<Rightarrow> ('r \<Rightarrow> nat) \<Rightarrow> 'r source_view" where
  "plain_view k c d = \<lparr>ok = k, content = c, ending = \<lambda>_. None, unit_len = 1, pos = \<lambda>_. 0, waiting = measure d\<rparr>"

lemma plain_view_simps [simp]:
  "ok (plain_view k c d) = k" "content (plain_view k c d) = c" "ending (plain_view k c d) = (\<lambda>_. None)"
  "unit_len (plain_view k c d) = 1" "pos (plain_view k c d) = (\<lambda>_. 0)" "waiting (plain_view k c d) = measure d"
  "fits (plain_view k c d) n r = k r"
  by (simp_all add: plain_view_def fits_def)

lemma script_read_law:
  "0 < n \<Longrightarrow> poll_reads (plain_view (\<lambda>_. True) script_content length) n s (script_read n s)"
proof (induction n s rule: script_read.induct)
  case (3 n c s)
  show ?case
  proof (cases "c = []")
    case True
    from 3 have "poll_reads (plain_view (\<lambda>_. True) script_content length) n s (script_read n s)" by (simp add: True)
    then show ?thesis unfolding script_read.simps(3) True
      by (simp add: poll_reads_def advances_def split: prod.splits outcome.splits poll.splits) auto
  next
    case False
    then show ?thesis using 3(2) by (simp add: poll_reads_def advances_def)
  qed
qed (simp_all add: poll_reads_def advances_def)

interpretation scripted: async_source script_read "plain_view (\<lambda>_. True) script_content length"
  by unfold_locales (simp, simp add: script_read_law)

text \<open>The receiving end of a byte channel whose sender is gone is a stream of what is buffered; it is
  never \<open>Pending\<close>.\<close>

interpretation closed_channel: async_source "poll_read t" "plain_view (\<lambda>c. channel_ok c \<and> write_end_closed c) buffered (\<lambda>_. 0)"
proof (unfold_locales, simp)
  fix n c
  assume "fits (plain_view (\<lambda>c. channel_ok c \<and> write_end_closed c) buffered (\<lambda>_. 0)) n c" and n: "0 < n"
  then have ok: "channel_ok c" "write_end_closed c" by simp_all
  from ok(1) show "poll_reads (plain_view (\<lambda>c. channel_ok c \<and> write_end_closed c) buffered (\<lambda>_. 0)) n c (poll_read t n c)"
  proof (cases rule: poll_read_run [where t = t and len = n])
    case (data bs c')
    have "write_end_closed c'" unfolding data(5) by (simp add: ok(2))
    moreover have "length bs \<le> n" "bs \<noteq> []" using data(3,4) n by (auto simp: min_def split: if_splits)
    ultimately show ?thesis using data(1,2,6) by (simp add: poll_reads_def advances_def)
  qed (use ok in \<open>simp_all add: poll_reads_def advances_def\<close>)
qed

section \<open>Writing\<close>

text \<open>
  The contract of a poll of a writer that does not fail: it takes at least one byte of what it is
  offered, or is \<open>Pending\<close>.
\<close>

definition poll_writes :: "('w \<Rightarrow> u8 list) \<Rightarrow> ('w \<Rightarrow> nat) \<Rightarrow> u8 list \<Rightarrow> 'w \<Rightarrow> nat poll outcome \<times> 'w \<Rightarrow> bool" where
  "poll_writes written dl bs w res \<longleftrightarrow> (case res of
     (Ok Pending, w') \<Rightarrow> written w' = written w \<and> dl w' < dl w
   | (Ok (Ready n), w') \<Rightarrow> n \<le> length bs \<and> (n = 0 \<longrightarrow> bs = []) \<and> written w' = written w @ take n bs
   | _ \<Rightarrow> False)"

locale async_sink =
  fixes pw :: "u8 list \<Rightarrow> ('w, nat poll) prog" and written :: "'w \<Rightarrow> u8 list" and delay_w :: "'w \<Rightarrow> nat"
  assumes poll_law: "poll_writes written delay_w bs w (pw bs w)"
begin

lemma write_cases:
  obtains (pending) w' where "pw bs w = (Ok Pending, w')" "written w' = written w" "delay_w w' < delay_w w"
  | (taken) n w' where "pw bs w = (Ok (Ready n), w')" "n \<le> length bs" "n = 0 \<Longrightarrow> bs = []"
      "written w' = written w @ take n bs"
  using poll_law [of bs w] by (auto simp: poll_writes_def split: prod.splits outcome.splits poll.splits)

lemma await_write:
  obtains n w' where "await (run (pw bs)) w = Some (Ok n, w')" "n \<le> length bs" "n = 0 \<Longrightarrow> bs = []"
    "written w' = written w @ take n bs"
proof -
  have *: "\<exists>n w'. await (run (pw bs)) w = Some (Ok n, w') \<and> n \<le> length bs \<and> (n = 0 \<longrightarrow> bs = []) \<and>
      written w' = written w @ take n bs" for w
  proof (induction "delay_w w" arbitrary: w rule: less_induct)
    case less
    show ?case
    proof (cases rule: write_cases [of bs w])
      case (pending w')
      then show ?thesis using less.hyps [of w'] await_simps(1) [of "run (pw bs)" w w'] by (simp add: run_def)
    next
      case (taken n w')
      then show ?thesis using await_simps(2) [of "run (pw bs)" w n w'] by (simp add: run_def)
    qed
  qed
  from * [of w] obtain n w' where "await (run (pw bs)) w = Some (Ok n, w')" "n \<le> length bs"
    "n = 0 \<longrightarrow> bs = []" "written w' = written w @ take n bs" by blast
  then show ?thesis by (intro that) simp_all
qed

lemma write_all_writes:
  "\<exists>w'. await_write_all (\<lambda>bs. run (pw bs)) bs w = Some (Ok (), w') \<and> written w' = written w @ bs"
proof (induction bs arbitrary: w rule: length_induct)
  case (1 bs)
  show ?case
  proof (cases "bs = []")
    case True
    then show ?thesis by (simp add: await_write_all.simps [of _ "[]"] run_def ret_def)
  next
    case False
    obtain n w' where n: "await (run (pw bs)) w = Some (Ok n, w')" "n \<le> length bs" "n = 0 \<Longrightarrow> bs = []"
      "written w' = written w @ take n bs" using await_write [of bs w] by blast
    have "0 < n" "0 < length bs" using n(3) False by (cases n, auto)
    then have "length (drop n bs) < length bs" by simp
    with "1.IH" obtain v where "await_write_all (\<lambda>bs. run (pw bs)) (drop n bs) w' = Some (Ok (), v)"
      "written v = written w' @ drop n bs" by blast
    then show ?thesis using n False by (subst await_write_all.simps) (auto simp: bindt_def)
  qed
qed

end

text \<open>A writer whose polls are scripted: \<open>None\<close> is \<open>Pending\<close>, \<open>Some n\<close> takes up to \<open>n + 1\<close> bytes; when
  the script has come to its end everything is taken.\<close>

fun script_write :: "u8 list \<Rightarrow> (u8 list \<times> nat option list, nat poll) prog" where
  "script_write bs (out, []) = (Ok (Ready (length bs)), (out @ bs, []))"
| "script_write bs (out, None # s) = (Ok Pending, (out, s))"
| "script_write bs (out, Some n # s) =
     (let k = min (Suc n) (length bs) in (Ok (Ready k), (out @ take k bs, s)))"

interpretation scripted_sink: async_sink script_write fst "\<lambda>w. length (snd w)"
proof
  show "poll_writes fst (\<lambda>w. length (snd w)) bs w (script_write bs w)" for bs w
    by (cases "(bs, w)" rule: script_write.cases) (auto simp: poll_writes_def Let_def min_def split: if_splits)
qed

end
