(* ===== verification/Async_Packed.thy ===== *)
theory Async_Packed
  imports Async_IO Packed
begin

text \<open>
  \<^verbatim>\<open>capnp-futures/src/serialize_packed.rs\<close>: \<open>PackedRead\<close>, which unpacks an asynchronous stream with a
  state machine of five stages and a buffer of ten bytes, and \<open>PackedWrite\<close>, which packs what is
  written through it with a machine of four.

  \<open>unpack_stream\<close> decodes a whole byte string. Shown: over any source \<open>PackedRead\<close> is again a source,
  of the decoded bytes, whatever pieces the bytes come in and wherever the source is \<open>Pending\<close>, as long
  as the reads end at words; the decoder agrees with that of the synchronous \<open>PackedRead\<close>.
  \<open>PackedWrite\<close> writes a packing of what it is given, if no run in it is longer than 255 words, and
  loses bytes otherwise.
\<close>

section \<open>PackedRead\<close>

datatype packed_read_stage = ReadStart | WritingZeroes | BufferingWord | DrainingBuffer | WritingPassthrough

text \<open>The buffer holds the tag, up to eight bytes, and possibly a count of words to pass through.\<close>

record 'r packed_reader =
  inner_read :: 'r
  read_stage :: packed_read_stage
  read_buf :: "u8 list"
  read_pos :: nat
  buf_size :: nat
  num_run_bytes_remaining :: nat

definition packed_reader_new :: "'r \<Rightarrow> 'r packed_reader" where
  "packed_reader_new r = \<lparr>inner_read = r, read_stage = ReadStart, read_buf = replicate 10 0, read_pos = 0,
     buf_size = 10, num_run_bytes_remaining = 0\<rparr>"

definition poll_inner :: "('r, 'a) prog \<Rightarrow> ('r packed_reader, 'a) prog" where
  "poll_inner m p = (case m (inner_read p) of (res, r) \<Rightarrow> (res, p\<lparr>inner_read := r\<rparr>))"

text \<open>\<open>count_ones\<close> of a tag.\<close>

definition count_ones :: "u8 \<Rightarrow> nat" where
  "count_ones tag = length (filter (bit tag) [0..<8])"

text \<open>
  One turn of the loop of \<open>poll_read\<close>, by the stage: \<open>Some\<close> is what it returns, \<open>None\<close> goes on to the
  next turn. \<open>len\<close> is the length of the output buffer; the result is what was put to its front.
\<close>

definition start_turn :: "(nat \<Rightarrow> ('r, u8 list poll) prog) \<Rightarrow> ('r packed_reader, u8 list poll option) prog" where
  "start_turn pr =
     bindp (gets read_pos) (\<lambda>buf_pos.
     seqp (assertp (buf_pos \<le> 2))
     (bindp (poll_inner (pr (2 - buf_pos))) (\<lambda>r. case r of
        Pending \<Rightarrow> ret (Some Pending)
      | Ready bs \<Rightarrow>
          if bs = [] then ret (Some (Ready []))
          else seqp (modifyp (\<lambda>p. p\<lparr>read_buf := write_at buf_pos bs (read_buf p), read_pos := buf_pos + length bs\<rparr>))
            (seqp (modifyp (\<lambda>p.
               if read_pos p < 2 then p
               else let tag = read_buf p ! 0; count = read_buf p ! 1 in
                 if tag = 0 then p\<lparr>read_stage := WritingZeroes, num_run_bytes_remaining := (unat count + 1) * 8\<rparr>
                 else let size = count_ones tag + 1; size = (if size = 9 then 10 else size) in
                   if read_pos p \<ge> size then p\<lparr>buf_size := size, read_stage := DrainingBuffer, read_pos := 1\<rparr>
                   else p\<lparr>buf_size := size, read_stage := BufferingWord\<rparr>))
            (ret None)))))"

definition zeroes_turn :: "nat \<Rightarrow> ('r packed_reader, u8 list poll option) prog" where
  "zeroes_turn len =
     bindp (gets num_run_bytes_remaining) (\<lambda>remaining.
     let num_zeroes = min len remaining in
     seqp (modifyp (\<lambda>p. if num_zeroes \<ge> remaining then p\<lparr>read_pos := 0, read_stage := ReadStart\<rparr>
                        else p\<lparr>num_run_bytes_remaining := remaining - num_zeroes\<rparr>))
     (ret (Some (Ready (replicate num_zeroes 0)))))"

text \<open>A stream that ends inside a word is an \<open>UnexpectedEof\<close>, for \<^verbatim>\<open>capnp::Error\<close> a \<open>PrematureEndOfFile\<close>.\<close>

definition buffering_turn :: "(nat \<Rightarrow> ('r, u8 list poll) prog) \<Rightarrow> ('r packed_reader, u8 list poll option) prog" where
  "buffering_turn pr =
     bindp (gets (\<lambda>p. p)) (\<lambda>p.
     seqp (assertp (read_pos p \<le> buf_size p \<and> buf_size p \<le> 10))
     (bindp (poll_inner (pr (buf_size p - read_pos p))) (\<lambda>r. case r of
        Pending \<Rightarrow> ret (Some Pending)
      | Ready bs \<Rightarrow>
          if bs = [] then err PrematureEndOfFile
          else seqp (modifyp (\<lambda>p. p\<lparr>read_buf := write_at (read_pos p) bs (read_buf p), read_pos := read_pos p + length bs\<rparr>))
            (seqp (modifyp (\<lambda>p. if read_pos p \<ge> buf_size p then p\<lparr>read_stage := DrainingBuffer, read_pos := 1\<rparr> else p))
            (ret None)))))"

text \<open>The loop over the bits of the tag: the bytes put out, the position in the buffer and the number
  of the next bit.\<close>

function drain :: "u8 list \<Rightarrow> nat \<Rightarrow> nat \<Rightarrow> nat \<Rightarrow> (u8 list \<times> nat \<times> nat) outcome" where
  "drain buf len buf_pos bitnum =
     (if 0 < len \<and> bitnum < 8 then
        if buf_pos < length buf then
          let is_nonzero = bit (buf ! 0) bitnum; b = (if is_nonzero then buf ! buf_pos else 0) in
          (case drain buf (len - 1) (buf_pos + of_bool is_nonzero) (bitnum + 1) of
             Ok (out, p, n) \<Rightarrow> Ok (b # out, p, n) | Err e \<Rightarrow> Err e | Panic \<Rightarrow> Panic | UB \<Rightarrow> UB)
        else Panic
      else Ok ([], buf_pos, bitnum))"
  by pat_completeness auto
termination
  by (relation "measure (\<lambda>(buf, len, p, n). len)") auto

declare drain.simps [simp del]

definition draining_turn :: "nat \<Rightarrow> ('r packed_reader, u8 list poll option) prog" where
  "draining_turn len =
     bindp (gets (\<lambda>p. p)) (\<lambda>p.
     seqp (assertp (0 < read_pos p))
     (bindp (of_outcome (drain (read_buf p) len (read_pos p) (read_pos p - 1))) (\<lambda>(out, buf_pos, bitnum).
     seqp (modifyp (\<lambda>p.
       if bitnum = 8 then
         if buf_pos = buf_size p then p\<lparr>read_stage := ReadStart, read_pos := 0\<rparr>
         else p\<lparr>num_run_bytes_remaining := unat (read_buf p ! buf_pos) * 8, read_stage := WritingPassthrough, read_pos := 0\<rparr>
       else p\<lparr>read_pos := buf_pos\<rparr>))
     (ret (Some (Ready out))))))"

definition passthrough_turn :: "(nat \<Rightarrow> ('r, u8 list poll) prog) \<Rightarrow> nat \<Rightarrow> ('r packed_reader, u8 list poll option) prog" where
  "passthrough_turn pr len =
     bindp (gets num_run_bytes_remaining) (\<lambda>remaining.
     let upper_bound = min remaining len in
     if upper_bound = 0 then seqp (modifyp (\<lambda>p. p\<lparr>read_stage := ReadStart\<rparr>)) (ret None)
     else bindp (poll_inner (pr upper_bound)) (\<lambda>r. case r of
        Pending \<Rightarrow> ret (Some Pending)
      | Ready bs \<Rightarrow>
          if bs = [] then ret (Some (Ready []))
          else seqp (assertp (length bs \<le> remaining))
            (seqp (modifyp (\<lambda>p. (if length bs \<ge> remaining then p\<lparr>read_stage := ReadStart\<rparr> else p)
                 \<lparr>num_run_bytes_remaining := remaining - length bs\<rparr>))
            (ret (Some (Ready bs))))))"

definition read_turn :: "(nat \<Rightarrow> ('r, u8 list poll) prog) \<Rightarrow> nat \<Rightarrow> ('r packed_reader, u8 list poll option) prog" where
  "read_turn pr len = bindp (gets read_stage) (\<lambda>st. case st of
     ReadStart \<Rightarrow> start_turn pr
   | WritingZeroes \<Rightarrow> zeroes_turn len
   | BufferingWord \<Rightarrow> buffering_turn pr
   | DrainingBuffer \<Rightarrow> draining_turn len
   | WritingPassthrough \<Rightarrow> passthrough_turn pr len)"

text \<open>The loop ends: a turn that does not return is one of the next stages, or the buffer has grown.\<close>

fun stage_rank :: "packed_read_stage \<Rightarrow> nat" where
  "stage_rank WritingPassthrough = 3" | "stage_rank ReadStart = 2" | "stage_rank BufferingWord = 1"
| "stage_rank WritingZeroes = 0" | "stage_rank DrainingBuffer = 0"

definition turn_order :: "('r packed_reader \<times> 'r packed_reader) set" where
  "turn_order = measures [\<lambda>p. stage_rank (read_stage p),
     \<lambda>p. (if read_stage p = ReadStart then 2 else buf_size p) - read_pos p]"

lemma wf_turn_order: "wf turn_order"
  by (simp add: turn_order_def)

lemma turn_decreases:
  assumes "read_turn pr len p = (Ok None, p')"
  shows "(p', p) \<in> turn_order"
proof (cases "read_stage p")
  case ReadStart
  with assms show ?thesis
    by (auto simp: read_turn_def start_turn_def poll_inner_def run_simps turn_order_def length_greater_0_conv [symmetric]
        simp del: length_greater_0_conv split: prod.splits outcome.splits poll.splits if_splits)
next
  case BufferingWord
  with assms show ?thesis
    by (auto simp: read_turn_def buffering_turn_def poll_inner_def run_simps turn_order_def length_greater_0_conv [symmetric]
        simp del: length_greater_0_conv split: prod.splits outcome.splits poll.splits if_splits)
next
  case WritingPassthrough
  with assms show ?thesis
    by (auto simp: read_turn_def passthrough_turn_def poll_inner_def run_simps turn_order_def
        split: prod.splits outcome.splits poll.splits if_splits)
next
  case WritingZeroes
  with assms show ?thesis by (auto simp: read_turn_def zeroes_turn_def run_simps split: if_splits)
next
  case DrainingBuffer
  with assms show ?thesis
    by (auto simp: read_turn_def draining_turn_def run_simps split: prod.splits outcome.splits if_splits)
qed

function packed_poll_read ::
  "(nat \<Rightarrow> ('r, u8 list poll) prog) \<Rightarrow> nat \<Rightarrow> ('r packed_reader, u8 list poll) prog" where
  "packed_poll_read pr len p = (case read_turn pr len p of
     (Ok None, p') \<Rightarrow> packed_poll_read pr len p'
   | (Ok (Some r), p') \<Rightarrow> (Ok r, p')
   | (Err e, p') \<Rightarrow> (Err e, p')
   | (Panic, p') \<Rightarrow> (Panic, p')
   | (UB, p') \<Rightarrow> (UB, p'))"
  by pat_completeness auto
termination
  by (relation "inv_image turn_order (\<lambda>(pr, len, p). p)") (auto simp: wf_turn_order dest: turn_decreases [OF sym])

declare packed_poll_read.simps [simp del]

section \<open>The stream as a string of bytes\<close>

text \<open>
  What a packed byte string unpacks to, and the error at its end, if any. A tag alone at the end, and
  a run that is cut off, count as a clean end.
\<close>

lemma unpack_word_shorter: "unpack_word bits inp = Some (w, rest) \<Longrightarrow> length rest \<le> length inp"
  by (induction bits inp arbitrary: w rest rule: unpack_word.induct) (auto simp: le_SucI)

function unpack_stream :: "u8 list \<Rightarrow> u8 list \<times> error_kind option" where
  "unpack_stream inp = (case inp of
     tag # c # rest \<Rightarrow>
       if tag = 0 then
         (case unpack_stream rest of (out, e) \<Rightarrow> (replicate ((unat c + 1) * 8) 0 @ out, e))
       else (case unpack_word (tag_bits tag) (c # rest) of
         None \<Rightarrow> ([], Some PrematureEndOfFile)
       | Some (w, inp2) \<Rightarrow>
           if tag = 0xff then
             (case inp2 of
                [] \<Rightarrow> ([], Some PrematureEndOfFile)
              | k # inp3 \<Rightarrow>
                  (case unpack_stream (drop (unat k * 8) inp3) of (out, e) \<Rightarrow>
                     (w @ take (unat k * 8) inp3 @ out, e)))
           else (case unpack_stream inp2 of (out, e) \<Rightarrow> (w @ out, e)))
   | _ \<Rightarrow> ([], None))"
  by pat_completeness auto
termination
  by (relation "measure length") (auto dest!: unpack_word_shorter)

declare unpack_stream.simps [simp del]

lemma unpack_stream_end [simp]: "unpack_stream [] = ([], None)" "unpack_stream [t] = ([], None)"
  by (simp_all add: unpack_stream.simps)

definition before :: "u8 list \<Rightarrow> u8 list \<times> error_kind option \<Rightarrow> u8 list \<times> error_kind option" where
  "before bs u = (bs @ fst u, snd u)"

lemma before_simps [simp]:
  "before [] u = u" "before a (before b u) = before (a @ b) u" "fst (before a u) = a @ fst u" "snd (before a u) = snd u"
  by (simp_all add: before_def)

lemma unpack_stream_zeroes: "unpack_stream (0 # c # rest) = before (replicate ((unat c + 1) * 8) 0) (unpack_stream rest)"
  by (simp add: unpack_stream.simps [of "0 # _"] before_def split: prod.splits)

text \<open>A word of which all packed bytes are there, and one of which they are not.\<close>

abbreviation ones :: "bool list \<Rightarrow> nat" where
  "ones bits \<equiv> length (filter (\<lambda>b. b) bits)"

lemma unpack_word_None: "unpack_word bits inp = None \<longleftrightarrow> length inp < ones bits"
  by (induction bits inp rule: unpack_word.induct) auto

lemma unpacked_length: "unpack_word bits inp = Some (w, rest) \<Longrightarrow> length w = length bits"
  by (induction bits inp arbitrary: w rest rule: unpack_word.induct) auto

lemma unpack_word_append:
  "unpack_word bits xs = Some (w, rest) \<Longrightarrow> unpack_word bits (xs @ ys) = Some (w, rest @ ys)"
  by (induction bits xs arbitrary: w rest rule: unpack_word.induct) auto

lemma unpack_word_rest: "unpack_word bits xs = Some (w, rest) \<Longrightarrow> rest = drop (ones bits) xs"
  by (induction bits xs arbitrary: w rest rule: unpack_word.induct) auto

lemma ones_tag_bits: "ones (tag_bits tag) = count_ones tag"
  by (simp add: tag_bits_def count_ones_def filter_map comp_def)

lemma count_ones_bounds: "count_ones tag \<le> 8" "tag \<noteq> 0 \<Longrightarrow> 0 < count_ones tag" "count_ones tag = 8 \<longleftrightarrow> tag = 0xff"
proof -
  have "count_ones tag \<le> length [0..<8]" unfolding count_ones_def by (rule length_filter_le)
  then show "count_ones tag \<le> 8" by simp
  show "0 < count_ones tag" if "tag \<noteq> 0"
  proof -
    obtain i where "bit tag i" using \<open>tag \<noteq> 0\<close> by (auto simp: bit_eq_iff)
    moreover from this have "i < 8" using bit_imp_le_length [of tag i] by simp
    ultimately show ?thesis by (auto simp: count_ones_def filter_empty_conv)
  qed
  have "count_ones tag = 8 \<longleftrightarrow> (\<forall>i < 8. bit tag i)"
    using length_filter_less [of _ "[0..<8]" "bit tag"]
    by (auto simp: count_ones_def filter_id_conv) (metis (no_types) atLeastLessThan_iff length_upt less_irrefl
        minus_nat.diff_0 set_upt zero_le)
  also have "\<dots> \<longleftrightarrow> tag = 0xff"
  proof -
    have "(\<forall>i < 8. bit (0xff :: u8) i)" by code_simp
    then show ?thesis by (auto simp: bit_eq_iff dest: bit_imp_le_length)
  qed
  finally show "count_ones tag = 8 \<longleftrightarrow> tag = 0xff" .
qed

lemma drain_word:
  assumes "unpack_word (map (bit (buf ! 0)) [n..<8]) (drop p buf) = Some (w, rest)" "n \<le> 8" "8 \<le> len + n"
    and "p + ones (map (bit (buf ! 0)) [n..<8]) < length buf"
  shows "drain buf len p n = Ok (w, p + ones (map (bit (buf ! 0)) [n..<8]), 8)"
  using assms
proof (induction "8 - n" arbitrary: n p len w)
  case 0
  then show ?case by (simp add: drain.simps)
next
  case (Suc k)
  then have n: "n < 8" "[n..<8] = n # [Suc n..<8]" by (auto simp: upt_conv_Cons)
  have p: "p < length buf" using Suc.prems(4) by simp
  have IH: "unpack_word (map (bit (buf ! 0)) [Suc n..<8]) (drop q buf) = Some (v, rest) \<Longrightarrow>
      q + ones (map (bit (buf ! 0)) [Suc n..<8]) < length buf \<Longrightarrow>
      drain buf (len - 1) q (Suc n) = Ok (v, q + ones (map (bit (buf ! 0)) [Suc n..<8]), 8)" for q v
    using Suc.hyps(1) [of "Suc n" q v "len - 1"] Suc.hyps(2) Suc.prems(3) n by simp
  show ?case
  proof (cases "bit (buf ! 0) n")
    case True
    have d: "drop p buf = buf ! p # drop (Suc p) buf" using p by (simp add: Cons_nth_drop_Suc)
    with Suc.prems(1) n True obtain v where v: "w = buf ! p # v"
      "unpack_word (map (bit (buf ! 0)) [Suc n..<8]) (drop (Suc p) buf) = Some (v, rest)" by auto
    have "drain buf (len - 1) (Suc p) (Suc n) = Ok (v, Suc p + ones (map (bit (buf ! 0)) [Suc n..<8]), 8)"
      by (rule IH [OF v(2)]) (use Suc.prems(4) n True in simp)
    then show ?thesis
      using n p True v(1) Suc.prems(3) by (subst drain.simps) (simp add: Let_def)
  next
    case False
    with Suc.prems(1) n obtain v where v: "w = 0 # v"
      "unpack_word (map (bit (buf ! 0)) [Suc n..<8]) (drop p buf) = Some (v, rest)" by auto
    have "drain buf (len - 1) p (Suc n) = Ok (v, p + ones (map (bit (buf ! 0)) [Suc n..<8]), 8)"
      by (rule IH [OF v(2)]) (use Suc.prems(4) n False in simp)
    then show ?thesis
      using n p False v(1) Suc.prems(3) by (subst drain.simps) (simp add: Let_def)
  qed
qed

section \<open>PackedRead over a source is a source\<close>

text \<open>The first word of a stream whose packed form is in the buffer.\<close>

definition packed_size :: "u8 \<Rightarrow> nat" where
  "packed_size tag = (if count_ones tag = 8 then 10 else count_ones tag + 1)"

lemma packed_size_bounds: "tag \<noteq> 0 \<Longrightarrow> 2 \<le> packed_size tag" "packed_size tag \<le> 10" "packed_size tag = 10 \<longleftrightarrow> tag = 0xff"
  using count_ones_bounds [of tag] by (auto simp: packed_size_def)

lemma unpack_stream_truncated:
  assumes "tag \<noteq> 0" "length bs + 1 < packed_size tag" "bs \<noteq> []"
  shows "unpack_stream (tag # bs) = ([], Some PrematureEndOfFile)"
proof -
  obtain c rest where bs: "bs = c # rest" using assms(3) by (cases bs) auto
  show ?thesis
  proof (cases "length bs < count_ones tag")
    case True
    then have "unpack_word (tag_bits tag) bs = None" by (simp add: unpack_word_None ones_tag_bits)
    then show ?thesis using assms(1) bs by (simp add: unpack_stream.simps [of "tag # _"])
  next
    case False
    then have full: "count_ones tag = 8" "length bs = 8" using assms(2) by (auto simp: packed_size_def split: if_splits)
    then obtain w r where "unpack_word (tag_bits tag) bs = Some (w, r)"
      by (cases "unpack_word (tag_bits tag) bs") (auto simp: unpack_word_None ones_tag_bits)
    moreover from this have "r = []" using full by (auto dest!: unpack_word_rest simp: ones_tag_bits)
    ultimately show ?thesis using assms(1) bs full(1) count_ones_bounds(3) [of tag]
      by (subst unpack_stream.simps) simp
  qed
qed

lemma unpack_stream_word:
  assumes "tag \<noteq> 0" "length bs + 1 = packed_size tag"
  obtains w where "unpack_word (tag_bits tag) bs = Some (w, drop (count_ones tag) bs)" "length w = 8"
    "tag \<noteq> 0xff \<Longrightarrow> unpack_stream (tag # bs @ rest) = before w (unpack_stream rest)"
    "tag = 0xff \<Longrightarrow> unpack_stream (tag # bs @ rest) =
       before (w @ take (unat (bs ! 8) * 8) rest) (unpack_stream (drop (unat (bs ! 8) * 8) rest))"
proof -
  have len: "count_ones tag \<le> length bs" "bs \<noteq> []"
    using assms count_ones_bounds [of tag] by (auto simp: packed_size_def split: if_splits)
  then obtain w r where w: "unpack_word (tag_bits tag) bs = Some (w, r)"
    by (cases "unpack_word (tag_bits tag) bs") (auto simp: unpack_word_None ones_tag_bits)
  then have r: "r = drop (count_ones tag) bs" by (auto dest: unpack_word_rest simp: ones_tag_bits)
  obtain c bs' where bs: "bs = c # bs'" using len(2) by (cases bs) auto
  note step = unpack_stream.simps [of "tag # bs @ rest"] unpack_word_append [OF w, of rest]
  show ?thesis
  proof (rule that)
    show "unpack_word (tag_bits tag) bs = Some (w, drop (count_ones tag) bs)" using w r by simp
    show "length w = 8" using unpacked_length [OF w] by (simp add: tag_bits_def)
    show "unpack_stream (tag # bs @ rest) = before w (unpack_stream rest)" if "tag \<noteq> 0xff"
    proof -
      have "r = []" using that r assms(2) count_ones_bounds(3) [of tag] by (simp add: packed_size_def)
      then show ?thesis using step assms(1) bs that by (simp add: before_def split: prod.splits)
    qed
    show "unpack_stream (tag # bs @ rest) =
        before (w @ take (unat (bs ! 8) * 8) rest) (unpack_stream (drop (unat (bs ! 8) * 8) rest))" if "tag = 0xff"
    proof -
      have c8: "count_ones tag = 8" "length bs = 9"
        using that assms(2) count_ones_bounds(3) [of tag] by (simp_all add: packed_size_def)
      then have "r = [bs ! 8]"
        using r by (simp add: Cons_nth_drop_Suc [symmetric])
      then show ?thesis using step assms(1) bs that by (simp add: before_def split: prod.splits)
    qed
  qed
qed

lemma take_write_prefix:
  "i + length bs \<le> length xs \<Longrightarrow> take (i + length bs) (write_at i bs xs) = take i xs @ bs"
  by (simp add: write_at_def)

locale plain_source = async_source pr "plain_view k c d"
  for pr :: "nat \<Rightarrow> ('r, u8 list poll) prog" and k c d
begin

text \<open>What a packed reader still has to deliver.\<close>

definition stream_of :: "'r packed_reader \<Rightarrow> u8 list \<times> error_kind option" where
  "stream_of p = (case read_stage p of
     ReadStart \<Rightarrow> unpack_stream (take (read_pos p) (read_buf p) @ c (inner_read p))
   | WritingZeroes \<Rightarrow> before (replicate (num_run_bytes_remaining p) 0) (unpack_stream (c (inner_read p)))
   | BufferingWord \<Rightarrow> unpack_stream (take (read_pos p) (read_buf p) @ c (inner_read p))
   | DrainingBuffer \<Rightarrow> unpack_stream (take (buf_size p) (read_buf p) @ c (inner_read p))
   | WritingPassthrough \<Rightarrow> before (take (num_run_bytes_remaining p) (c (inner_read p)))
       (unpack_stream (drop (num_run_bytes_remaining p) (c (inner_read p)))))"

definition reader_ok :: "'r packed_reader \<Rightarrow> bool" where
  "reader_ok p \<longleftrightarrow> k (inner_read p) \<and> length (read_buf p) = 10 \<and> (case read_stage p of
     ReadStart \<Rightarrow> read_pos p \<le> 1
   | WritingZeroes \<Rightarrow> 0 < num_run_bytes_remaining p
   | BufferingWord \<Rightarrow> 2 \<le> read_pos p \<and> read_pos p < buf_size p \<and> read_buf p ! 0 \<noteq> 0 \<and> buf_size p = packed_size (read_buf p ! 0)
   | DrainingBuffer \<Rightarrow> read_pos p = 1 \<and> read_buf p ! 0 \<noteq> 0 \<and> buf_size p = packed_size (read_buf p ! 0)
   | WritingPassthrough \<Rightarrow> read_pos p = 0)"

text \<open>Where the reader is in a word of its output: seven times the length of the run that is left is
  minus this length, in words.\<close>

definition offset :: "'r packed_reader \<Rightarrow> nat" where
  "offset p = (if read_stage p \<in> {WritingZeroes, WritingPassthrough} then 7 * num_run_bytes_remaining p else 0)"

definition inner_order :: "('r packed_reader \<times> 'r packed_reader) set" where
  "inner_order = measures [\<lambda>p. length (c (inner_read p)), \<lambda>p. d (inner_read p)]"

definition packed_view :: "'r packed_reader source_view" where
  "packed_view = \<lparr>ok = reader_ok, content = \<lambda>p. fst (stream_of p), ending = \<lambda>p. snd (stream_of p),
     unit_len = 8, pos = offset, waiting = inner_order\<rparr>"

lemma packed_view_simps [simp]:
  "ok packed_view = reader_ok" "content packed_view p = fst (stream_of p)" "ending packed_view p = snd (stream_of p)"
  "unit_len packed_view = 8" "pos packed_view = offset" "waiting packed_view = inner_order"
  by (simp_all add: packed_view_def)

text \<open>What one turn of the loop does.\<close>

definition goes_on :: "'r packed_reader \<Rightarrow> 'r packed_reader \<Rightarrow> bool" where
  "goes_on p p' \<longleftrightarrow> advances packed_view p [] p' \<and> ((p', p) \<in> inner_order \<or> inner_read p' = inner_read p)"

definition turn_ok :: "nat \<Rightarrow> 'r packed_reader \<Rightarrow> u8 list poll option outcome \<times> 'r packed_reader \<Rightarrow> bool" where
  "turn_ok n p res \<longleftrightarrow> (case res of
     (Ok None, p') \<Rightarrow> goes_on p p'
   | (Ok (Some r), p') \<Rightarrow> poll_reads packed_view n p (Ok r, p')
   | (Err e, p') \<Rightarrow> poll_reads packed_view n p (Err e, p')
   | _ \<Rightarrow> False)"

lemma poll_cases:
  assumes "k r" "0 < n"
  obtains (pending) r' where "pr n r = (Ok Pending, r')" "k r'" "c r' = c r" "d r' < d r"
  | (eof) r' where "pr n r = (Ok (Ready []), r')" "k r'" "c r' = []" "c r = []"
  | (bytes) bs r' where "pr n r = (Ok (Ready bs), r')" "k r'" "c r = bs @ c r'" "bs \<noteq> []" "length bs \<le> n"
proof -
  have "poll_reads (plain_view k c d) n r (pr n r)" using assms by (intro poll_law) simp_all
  then show ?thesis using that
    by (cases "pr n r") (auto simp: poll_reads_def advances_def split: outcome.splits poll.splits)
qed

lemma run_offset: "l \<le> m \<Longrightarrow> (7 * (m - l)) mod 8 = (7 * m + l) mod (8 :: nat)"
proof -
  assume "l \<le> m"
  then have "7 * m + l = 7 * (m - l) + 8 * l" by simp
  then show ?thesis by (metis mod_mult_self2)
qed

lemma zeroes_turn_ok:
  assumes "reader_ok p" "read_stage p = WritingZeroes" "0 < n"
  shows "turn_ok n p (read_turn pr n p)"
proof -
  define m where "m = num_run_bytes_remaining p"
  note defs = turn_ok_def read_turn_def zeroes_turn_def run_simps poll_reads_def advances_def
  have m: "0 < m" using assms(1,2) by (simp add: reader_ok_def m_def)
  show ?thesis
  proof (cases "n < m")
    case True
    have "replicate m (0 :: u8) = replicate n 0 @ replicate (m - n) 0"
      using True by (simp add: replicate_add [symmetric])
    moreover have "(7 * (m - n)) mod 8 = (7 * m + n) mod 8" using run_offset [of n m] True by simp
    ultimately show ?thesis
      using True assms by (simp add: defs m_def [symmetric] reader_ok_def stream_of_def offset_def)
  next
    case False
    have "(7 * m + m) mod 8 = 0" by simp
    with False show ?thesis
      using m assms by (simp add: defs m_def [symmetric] reader_ok_def stream_of_def offset_def)
  qed
qed

lemma inner_orderI:
  "c r' = c (inner_read p) \<Longrightarrow> d r' < d (inner_read p) \<Longrightarrow> inner_read p' = r' \<Longrightarrow> (p', p) \<in> inner_order"
  "c (inner_read p) = bs @ c r' \<Longrightarrow> bs \<noteq> [] \<Longrightarrow> inner_read p' = r' \<Longrightarrow> (p', p) \<in> inner_order"
  by (auto simp: inner_order_def)

lemmas turn_defs = turn_ok_def read_turn_def poll_inner_def run_simps poll_reads_def advances_def goes_on_def

lemma start_turn_ok:
  assumes ok: "reader_ok p" and st: "read_stage p = ReadStart"
  shows "turn_ok n p (read_turn pr n p)"
proof -
  let ?i = "read_pos p" and ?buf = "read_buf p"
  have p: "k (inner_read p)" "length ?buf = 10" "?i \<le> 1" using ok st by (simp_all add: reader_ok_def)
  have ask: "0 < 2 - ?i" using p(3) by simp
  from p(1) ask show ?thesis
  proof (cases rule: poll_cases)
    case (pending r)
    then show ?thesis
      using ok st p inner_orderI(1) [OF pending(3,4), of "p\<lparr>inner_read := r\<rparr>"]
      by (simp add: turn_defs start_turn_def reader_ok_def stream_of_def offset_def)
  next
    case (eof r)
    have "unpack_stream (take ?i ?buf) = ([], None)"
    proof (cases "?i = 0")
      case False
      then have "?i = Suc 0" using p(3) by simp
      then show ?thesis using p(2) by (simp add: take_Suc_conv_app_nth)
    qed simp
    with eof show ?thesis
      using ok st p by (simp add: turn_defs start_turn_def reader_ok_def stream_of_def offset_def)
  next
    case (bytes bs r)
    define buf where "buf = write_at ?i bs ?buf"
    define j where "j = ?i + length bs"
    have buf: "take j buf = take ?i ?buf @ bs" "length buf = 10"
      using bytes(5) p(2,3) by (simp_all add: buf_def j_def take_write_prefix)
    have j: "j \<le> 2" using bytes(5) p(3) by (simp add: j_def)
    have stream: "stream_of p = unpack_stream (take j buf @ c r)"
      using st bytes(3) buf(1) by (simp add: stream_of_def)
    have order: "(q, p) \<in> inner_order" if "inner_read q = r" for q
      by (rule inner_orderI(2) [OF bytes(3,4) that])
    show ?thesis
    proof (cases "j < 2")
      case True
      then show ?thesis
        using bytes(1,2,4) st p(3) stream buf(2) order
        by (simp add: turn_defs start_turn_def buf_def [symmetric] j_def [symmetric] reader_ok_def stream_of_def offset_def)
    next
      case False
      then have j2: "j = 2" using j by simp
      have two: "take 2 buf = [buf ! 0, buf ! 1]"
        using buf(2) by (simp add: take_Suc_conv_app_nth numeral_2_eq_2)
      note two_bytes = stream [unfolded j2 two, simplified]
      show ?thesis
      proof (cases "buf ! 0 = 0")
        case True
        let ?m = "(unat (buf ! 1) + 1) * 8"
        have "stream_of p = before (replicate ?m 0) (unpack_stream (c r))"
          using two_bytes True by (simp add: unpack_stream_zeroes)
        moreover have "(7 * ?m) mod 8 = 0" by (simp add: mod_mult_right_eq [symmetric])
        ultimately show ?thesis
          using bytes(1,2,4) st p(3) buf(2) order True
          by (simp add: turn_defs start_turn_def buf_def [symmetric] j_def [symmetric] j2 reader_ok_def stream_of_def offset_def)
      next
        case False
        define n1 where "n1 = count_ones (buf ! 0)"
        note facts = bytes(1,2,4) st p(3) buf(2) order False two_bytes two
        note defs = turn_defs start_turn_def buf_def [symmetric] j_def [symmetric] j2 reader_ok_def stream_of_def offset_def
          n1_def [symmetric]
        have n1: "packed_size (buf ! 0) = (if n1 = 8 then 10 else Suc n1)" "0 < n1"
          using count_ones_bounds(2) [OF False] by (simp_all add: packed_size_def n1_def)
        show ?thesis
        proof (cases "n1 = 1")
          case True
          then show ?thesis using facts n1 by (simp add: defs numeral_2_eq_2 [symmetric])
        next
          case False
          then have "1 < n1" using n1(2) by simp
          then show ?thesis using facts n1 by (simp add: defs)
        qed
      qed
    qed
  qed
qed

lemma buffering_turn_ok:
  assumes ok: "reader_ok p" and st: "read_stage p = BufferingWord"
  shows "turn_ok n p (read_turn pr n p)"
proof -
  let ?i = "read_pos p" and ?buf = "read_buf p" and ?size = "buf_size p"
  have p: "k (inner_read p)" "length ?buf = 10" "2 \<le> ?i" "?i < ?size" "?buf ! 0 \<noteq> 0" "?size = packed_size (?buf ! 0)"
    using ok st by (simp_all add: reader_ok_def)
  have size: "?size \<le> 10" using p(6) packed_size_bounds(2) by simp
  have ask: "0 < ?size - ?i" using p(4) by simp
  from p(1) ask show ?thesis
  proof (cases rule: poll_cases)
    case (pending r)
    then show ?thesis
      using ok st p size inner_orderI(1) [OF pending(3,4), of "p\<lparr>inner_read := r\<rparr>"]
      by (simp add: turn_defs buffering_turn_def reader_ok_def stream_of_def offset_def)
  next
    case (eof r)
    obtain t bs where tb: "take ?i ?buf = t # bs" "t = ?buf ! 0" "length bs = ?i - 1"
    proof -
      have "length (take ?i ?buf) = ?i" using p(2,4) size by simp
      then obtain t bs where "take ?i ?buf = t # bs" using p(3) by (cases "take ?i ?buf") auto
      moreover from this have "t = ?buf ! 0" by (metis nth_Cons_0 nth_take p(3) less_le_trans zero_less_numeral)
      moreover have "length bs = ?i - 1" using \<open>length (take ?i ?buf) = ?i\<close> calculation(1) by (metis diff_Suc_1 length_Cons)
      ultimately show ?thesis by (rule that)
    qed
    have "unpack_stream (take ?i ?buf) = ([], Some PrematureEndOfFile)"
      unfolding tb(1) by (rule unpack_stream_truncated) (use tb p in auto)
    with eof show ?thesis
      using st p size by (simp add: turn_defs buffering_turn_def stream_of_def)
  next
    case (bytes bs r)
    define buf where "buf = write_at ?i bs ?buf"
    define j where "j = ?i + length bs"
    have buf: "take j buf = take ?i ?buf @ bs" "length buf = 10" "buf ! 0 = ?buf ! 0"
      using bytes(5) p(2,3) size p(4) by (simp_all add: buf_def j_def take_write_prefix nth_write_at)
    have j: "j \<le> ?size" "2 \<le> j" using bytes(5) p(3,4) by (simp_all add: j_def)
    have stream: "stream_of p = unpack_stream (take j buf @ c r)"
      using st bytes(3) buf(1) by (simp add: stream_of_def)
    have order: "(q, p) \<in> inner_order" if "inner_read q = r" for q
      by (rule inner_orderI(2) [OF bytes(3,4) that])
    show ?thesis
    proof (cases "j < ?size")
      case True
      then show ?thesis
        using bytes(1,2,4) st p size stream buf order j
        by (simp add: turn_defs buffering_turn_def buf_def [symmetric] j_def [symmetric] reader_ok_def stream_of_def offset_def)
    next
      case False
      then have "j = ?size" using j(1) by simp
      then show ?thesis
        using bytes(1,2,4) st p size stream buf order j
        by (simp add: turn_defs buffering_turn_def buf_def [symmetric] j_def [symmetric] reader_ok_def stream_of_def offset_def)
    qed
  qed
qed

lemma draining_turn_ok:
  assumes ok: "reader_ok p" and st: "read_stage p = DrainingBuffer" and n: "8 \<le> n"
  shows "turn_ok n p (read_turn pr n p)"
proof -
  let ?buf = "read_buf p" and ?size = "buf_size p"
  define tag where "tag = ?buf ! 0"
  have p: "k (inner_read p)" "length ?buf = 10" "read_pos p = 1" "tag \<noteq> 0" "?size = packed_size tag"
    using ok st by (simp_all add: reader_ok_def tag_def)
  define bs where "bs = take (?size - 1) (drop 1 ?buf)"
  have size: "2 \<le> ?size" "?size \<le> 10" using p(4,5) packed_size_bounds by simp_all
  have bs: "take ?size ?buf = tag # bs" "length bs + 1 = packed_size tag"
  proof -
    obtain xs where xs: "?buf = tag # xs" using p(2) by (cases ?buf) (simp_all add: tag_def)
    obtain m where m: "?size = Suc m" using size(1) by (cases ?size) simp_all
    show "take ?size ?buf = tag # bs" "length bs + 1 = packed_size tag"
      using p(2,5) size(2) by (simp_all add: bs_def xs m [unfolded p(5)] p(5))
  qed
  have buf: "drop 1 ?buf = bs @ drop ?size ?buf"
    using size unfolding bs_def by (metis append_take_drop_id drop_drop le_add_diff_inverse2 one_le_numeral order_trans)
  obtain w where w: "unpack_word (tag_bits tag) bs = Some (w, drop (count_ones tag) bs)" "length w = 8"
    "tag \<noteq> 0xff \<Longrightarrow> unpack_stream (tag # bs @ c (inner_read p)) = before w (unpack_stream (c (inner_read p)))"
    "tag = 0xff \<Longrightarrow> unpack_stream (tag # bs @ c (inner_read p)) =
       before (w @ take (unat (bs ! 8) * 8) (c (inner_read p))) (unpack_stream (drop (unat (bs ! 8) * 8) (c (inner_read p))))"
    using unpack_stream_word [OF p(4) bs(2)] by blast
  have wne: "w \<noteq> []" using w(2) by auto
  have run: "drain ?buf n 1 0 = Ok (w, 1 + count_ones tag, 8)"
    using drain_word [of ?buf 0 1 w _ n] unpack_word_append [OF w(1), of "drop ?size ?buf"] buf n count_ones_bounds(1) [of tag] p(2)
    by (simp add: tag_def [symmetric] tag_bits_def [symmetric] ones_tag_bits)
  show ?thesis
  proof (cases "tag = 0xff")
    case False
    then have "?size = 1 + count_ones tag" using p(5) count_ones_bounds(3) [of tag] by (simp add: packed_size_def)
    with False run w(2,3) show ?thesis
      using st p n bs(1) wne by (simp add: turn_defs draining_turn_def reader_ok_def stream_of_def offset_def)
  next
    case True
    then have s: "?size = 10" "count_ones tag = 8" using p(5) count_ones_bounds(3) [of tag] by (simp_all add: packed_size_def)
    define m where "m = unat (?buf ! 9) * 8"
    have "bs ! 8 = ?buf ! 9" using p(2) s by (simp add: bs_def)
    then have stream: "stream_of p = before (w @ take m (c (inner_read p))) (unpack_stream (drop m (c (inner_read p))))"
      using w(4) [OF True] st bs(1) by (simp add: stream_of_def m_def)
    have "7 * m mod 8 = 0" unfolding m_def mult.assoc [symmetric] by (rule mod_mult_self2_is_0)
    with stream wne w(2) run s show ?thesis
      using st p(1-3) n
      by (simp add: turn_defs draining_turn_def reader_ok_def offset_def m_def [symmetric])
        (simp add: stream_of_def)
  qed
qed

lemma passthrough_turn_ok:
  assumes ok: "reader_ok p" and st: "read_stage p = WritingPassthrough" and n: "0 < n"
  shows "turn_ok n p (read_turn pr n p)"
proof -
  define m where "m = num_run_bytes_remaining p"
  have p: "k (inner_read p)" "length (read_buf p) = 10" "read_pos p = 0" using ok st by (simp_all add: reader_ok_def)
  show ?thesis
  proof (cases "m = 0")
    case True
    then show ?thesis
      using st p by (simp add: turn_defs passthrough_turn_def m_def [symmetric] reader_ok_def stream_of_def offset_def)
  next
    case False
    define u where "u = min m n"
    have ask: "0 < u" "u \<noteq> 0" using False n by (simp_all add: u_def)
    from p(1) ask(1) show ?thesis
    proof (cases rule: poll_cases)
      case (pending r)
      then show ?thesis
        using st p ask inner_orderI(1) [OF pending(3,4), of "p\<lparr>inner_read := r\<rparr>"]
        by (simp add: turn_defs passthrough_turn_def m_def [symmetric] u_def [symmetric] reader_ok_def stream_of_def offset_def)
    next
      case (eof r)
      then show ?thesis
        using st p ask by (simp add: turn_defs passthrough_turn_def m_def [symmetric] u_def [symmetric] reader_ok_def stream_of_def offset_def)
    next
      case (bytes bs r)
      have le: "length bs \<le> m" "length bs \<le> n" using bytes(5) by (simp_all add: u_def)
      have "take m (bs @ c r) = bs @ take (m - length bs) (c r)" "drop m (bs @ c r) = drop (m - length bs) (c r)"
        using le(1) by simp_all
      moreover have "(7 * (m - length bs)) mod 8 = (7 * m + length bs) mod 8" by (rule run_offset [OF le(1)])
      moreover have "m - length bs = 0" if "m \<le> length bs" using that by simp
      moreover have "(7 * m + m) mod 8 = 0" by simp
      ultimately show ?thesis
        using bytes(1-4) st p ask le
        by (cases "length bs < m")
          (simp_all add: turn_defs passthrough_turn_def m_def [symmetric] u_def [symmetric] reader_ok_def stream_of_def offset_def)
    qed
  qed
qed

lemma turn_law:
  assumes "fits packed_view n p" "0 < n"
  shows "turn_ok n p (read_turn pr n p)"
proof (cases "read_stage p")
  case DrainingBuffer
  then have "n mod 8 = 0" using assms(1) by (simp add: fits_def offset_def)
  then have "8 \<le> n" using assms(2) by (metis dvd_imp_le mod_0_imp_dvd)
  then show ?thesis using draining_turn_ok assms(1) DrainingBuffer by (simp add: fits_def)
qed (use assms start_turn_ok zeroes_turn_ok buffering_turn_ok passthrough_turn_ok in \<open>simp_all add: fits_def\<close>)

lemma trans_inner_order: "trans inner_order"
  by (auto simp: inner_order_def trans_def)

lemma poll_law_packed:
  "fits packed_view n p \<Longrightarrow> 0 < n \<Longrightarrow> poll_reads packed_view n p (packed_poll_read pr n p)"
proof (induction p rule: wf_induct_rule [OF wf_turn_order])
  case (1 p)
  note turn = turn_law [OF 1(2,3)]
  obtain res q where r: "read_turn pr n p = (res, q)" by fastforce
  show ?case
  proof (cases "res = Ok None")
    case True
    note q = turn [unfolded turn_ok_def r True, simplified] turn_decreases [OF r [unfolded True]]
    have "fits packed_view n q"
      using fits_advance [OF 1(2), of "[]" q] q(1) by (simp add: goes_on_def)
    from 1(1) [OF q(2) this 1(3)] have "poll_reads packed_view n q (packed_poll_read pr n q)" .
    moreover have "inner_read q = inner_read p \<Longrightarrow> (x, q) \<in> inner_order \<Longrightarrow> (x, p) \<in> inner_order" for x
      by (simp add: inner_order_def)
    ultimately have "poll_reads packed_view n p (packed_poll_read pr n q)"
      using q(1) transD [OF trans_inner_order, of _ q p]
      by (auto simp: poll_reads_def advances_def goes_on_def split: prod.splits outcome.splits poll.splits)
        (metis mod_add_left_eq)+
    then show ?thesis using r True by (simp add: packed_poll_read.simps [of pr n p])
  next
    case False
    then have "packed_poll_read pr n p = (case res of Ok r \<Rightarrow> Ok (the r) | Err e \<Rightarrow> Err e | Panic \<Rightarrow> Panic | UB \<Rightarrow> UB, q)"
      using r by (auto simp: packed_poll_read.simps [of pr n p] split: outcome.splits option.splits)
    then show ?thesis using turn r False by (auto simp: turn_ok_def split: outcome.splits)
  qed
qed

end

text \<open>The packed reader keeps the contract that it relies on, for a stream of words.\<close>

sublocale plain_source \<subseteq> packed: async_source "packed_poll_read pr" packed_view
  by unfold_locales (simp add: inner_order_def, rule poll_law_packed)

interpretation scripted_packed: plain_source script_read "\<lambda>_. True" script_content length
  by unfold_locales

interpretation channel_packed: plain_source "poll_read t" "\<lambda>c. channel_ok c \<and> write_end_closed c" buffered "\<lambda>_. 0"
  by unfold_locales

lemma snd_unpack_stream: "snd (unpack_stream inp) = None \<or> snd (unpack_stream inp) = Some PrematureEndOfFile"
proof (induction inp rule: unpack_stream.induct)
  case (1 inp)
  show ?case
  proof (cases inp)
    case Nil
    then show ?thesis by simp
  next
    case (Cons tag inp1)
    show ?thesis
    proof (cases inp1)
      case Nil
      then show ?thesis by (simp add: Cons)
    next
      case inp1: (Cons c rest)
      note IH = 1 [OF Cons inp1]
      show ?thesis
        using IH unfolding Cons inp1 unpack_stream.simps [of "tag # c # rest"]
        by (auto split: option.splits prod.splits list.splits if_splits)
    qed
  qed
qed

text \<open>The synchronous decoder reads the same bytes, where it accepts them.\<close>

lemma unpack_unpack_stream: "unpack left inp = Ok (out, rest) \<Longrightarrow> unpack_stream inp = before out (unpack_stream rest)"
proof (induction left inp arbitrary: out rest rule: unpack.induct)
  case (1 left inp)
  show ?case
  proof (cases "left = 0")
    case True
    then show ?thesis using 1(4) by simp
  next
    case False
    with 1(4) obtain tag inp1 where inp: "inp = tag # inp1" by (auto simp: unpack.simps [of left] split: list.splits)
    with 1(4) False obtain w inp2 where w: "unpack_word (tag_bits tag) inp1 = Some (w, inp2)"
      by (auto simp: unpack.simps [of left] split: option.splits)
    note eq = 1(4) [unfolded unpack.simps [of left inp], simplified inp False if_False list.case w option.case prod.case]
    note IH = 1(1-3) [OF False inp w refl]
    consider (zero) "tag = 0" | (full) "tag = 0xff" | (part) "tag \<noteq> 0" "tag \<noteq> 0xff" by blast
    then show ?thesis
    proof cases
      case zero
      have "tag_bits 0 = replicate 8 False" by code_simp
      then have w0: "w = replicate 8 0" "inp2 = inp1" using w zero by (simp_all add: numeral_eq_Suc)
      obtain c inp3 where c: "inp2 = c # inp3" using eq zero by (auto split: list.splits)
      with eq zero obtain out' where out: "unat c * 8 \<le> left - 8" "unpack (left - 8 - unat c * 8) inp3 = Ok (out', rest)"
        "out = replicate 8 0 @ replicate (unat c * 8) 0 @ out'"
        by (auto simp: w0 Let_def prepend_def split: if_splits outcome.splits)
      have "unpack_stream inp3 = before out' (unpack_stream rest)"
        by (rule IH(1) [OF _ c refl _ zero out(2)]) (use zero out(1) in simp_all)
      then show ?thesis
        by (simp add: inp zero w0(2) [symmetric] c unpack_stream_zeroes out(3) replicate_add)
    next
      case full
      obtain c inp3 where c: "inp2 = c # inp3" using eq full by (auto split: list.splits)
      let ?run = "unat c * 8"
      from eq full obtain out' where out: "\<not> ?run > left - 8" "\<not> ?run > length inp3"
        "unpack (left - 8 - ?run) (drop ?run inp3) = Ok (out', rest)" "out = w @ take ?run inp3 @ out'"
        by (auto simp: c Let_def prepend_def split: if_splits outcome.splits)
      have tag: "tag \<noteq> 0" using full by simp
      have "unpack_stream (drop ?run inp3) = before out' (unpack_stream rest)"
        by (rule IH(2) [OF _ c refl out(1) tag out(2,3)]) (simp add: full)
      moreover obtain c1 inp1' where "inp1 = c1 # inp1'"
        using w tag count_ones_bounds(2) [of tag] unpack_word_None [of "tag_bits tag" "[]"] by (cases inp1) (auto simp: ones_tag_bits)
      ultimately show ?thesis
        using tag w by (simp add: inp out(4) c unpack_stream.simps [of "0xff # c1 # inp1'"] full before_def split: prod.splits)
    next
      case part
      then obtain out' where out: "unpack (left - 8) inp2 = Ok (out', rest)" "out = w @ out'"
        using eq by (auto simp: prepend_def split: outcome.splits)
      have "unpack_stream inp2 = before out' (unpack_stream rest)"
        by (rule IH(3) [OF _ out(1)]) (use part in simp)
      moreover obtain c inp1' where "inp1 = c # inp1'"
        using w part(1) count_ones_bounds(2) [of tag] unpack_word_None [of "tag_bits tag" "[]"] by (cases inp1) (auto simp: ones_tag_bits)
      ultimately show ?thesis
        using part w by (simp add: inp out(2) unpack_stream.simps [of "tag # c # inp1'"] before_def split: prod.splits)
    qed
  qed
qed

text \<open>What the synchronous \<open>PackedWrite\<close> writes.\<close>

lemma unpack_stream_pack: "length bs mod 8 = 0 \<Longrightarrow> unpack_stream (pack bs @ rest) = before bs (unpack_stream rest)"
proof -
  assume "length bs mod 8 = 0"
  from unpack_pack [OF this, of 0 rest] have "unpack (length bs) (pack bs @ rest) = Ok (bs, rest)"
    by (simp add: prepend_def)
  then show ?thesis by (rule unpack_unpack_stream)
qed

context plain_source
begin

text \<open>A new reader delivers the stream; reading whole words in one go gives its bytes.\<close>

lemma packed_reader_new_ok:
  assumes "k r"
  shows "reader_ok (packed_reader_new r)" "stream_of (packed_reader_new r) = unpack_stream (c r)"
    "offset (packed_reader_new r) = 0"
  using assms by (simp_all add: packed_reader_new_def reader_ok_def stream_of_def offset_def)

lemma read_words:
  assumes "reader_ok p" "offset p mod 8 = 0" "n mod 8 = 0"
  shows "if n \<le> length (fst (stream_of p))
    then \<exists>p'. await_read_exact (packed_poll_read pr) n p = Some (Ok (take n (fst (stream_of p))), p') \<and>
      reader_ok p' \<and> offset p' mod 8 = 0 \<and> stream_of p' = (drop n (fst (stream_of p)), snd (stream_of p))
    else \<exists>p'. await_read_exact (packed_poll_read pr) n p = Some (Err PrematureEndOfFile, p')"
proof -
  have fits: "fits packed_view n p" using assms by (simp add: fits_def mod_add_eq [symmetric])
  show ?thesis
  proof (cases "n \<le> length (fst (stream_of p))")
    case True
    from packed.read_exact_full [OF fits] True obtain p' where
      p': "await_read_exact (packed_poll_read pr) n p = Some (Ok (take n (fst (stream_of p))), p')"
      "advances packed_view p (take n (fst (stream_of p))) p'" by auto
    then have "fst (stream_of p) = take n (fst (stream_of p)) @ fst (stream_of p')" by (simp add: advances_def)
    then have "fst (stream_of p') = drop n (fst (stream_of p))" by (metis append_take_drop_id same_append_eq)
    moreover have "offset p' mod 8 = 0"
      using p'(2) True assms(2,3) by (simp add: advances_def mod_add_eq [symmetric])
    ultimately show ?thesis using p' True by (auto simp: advances_def prod_eq_iff)
  next
    case False
    have "snd (stream_of p) = None \<or> snd (stream_of p) = Some PrematureEndOfFile"
      using snd_unpack_stream by (auto simp: stream_of_def split: packed_read_stage.splits)
    with packed.read_exact_short [OF fits] False show ?thesis by auto
  qed
qed

end

text \<open>C24: The asynchronous \<open>PackedRead\<close> refines the decoder of the whole byte string: reading \<open>n\<close> bytes,
  a whole number of words, gives the first \<open>n\<close> bytes that the stream decodes to and leaves a reader that
  delivers the rest, in whatever pieces the bytes arrive and wherever the stream is \<open>Pending\<close>. When there
  are fewer bytes, because the stream ends or is cut off, the error is \<open>PrematureEndOfFile\<close>; the task
  always completes.\<close>

theorem async_packed_read_refines_decoder:
  assumes "n mod 8 = 0"
  shows "let u = unpack_stream (script_content s) in
    if n \<le> length (fst u)
    then \<exists>p. await_read_exact (packed_poll_read script_read) n (packed_reader_new s) = Some (Ok (take n (fst u)), p) \<and>
      (\<forall>m. m mod 8 = 0 \<longrightarrow> m \<le> length (fst u) - n \<longrightarrow>
         (\<exists>q. await_read_exact (packed_poll_read script_read) m p = Some (Ok (take m (drop n (fst u))), q)))
    else \<exists>p. await_read_exact (packed_poll_read script_read) n (packed_reader_new s) = Some (Err PrematureEndOfFile, p)"
proof -
  note new = scripted_packed.packed_reader_new_ok [of s, OF TrueI]
  note first = scripted_packed.read_words [OF new(1) _ assms, unfolded new(2,3), simplified]
  have "\<exists>q. await_read_exact (packed_poll_read script_read) m p = Some (Ok (take m (drop n (fst u))), q)"
    if "scripted_packed.reader_ok p" "scripted_packed.offset p mod 8 = 0"
      "scripted_packed.stream_of p = (drop n (fst u), snd u)" "m mod 8 = 0" "m \<le> length (fst u) - n" for p m u
    using scripted_packed.read_words [OF that(1,2,4)] that(3,5) by auto
  then show ?thesis using first by (auto simp: Let_def split: if_splits)
qed

lemma sample_stream: "unpack_stream [0x24, 12, 34, 0, 0] = ([0, 0, 12, 0, 0, 34, 0, 0] @ replicate 8 0, None)"
proof -
  have "tag_bits 0x24 = [False, False, True, False, False, True, False, False]" by code_simp
  then show ?thesis
    by (simp add: unpack_stream.simps [of "0x24 # _"] unpack_stream.simps [of "[0, 0]"])
qed

theorem async_packed_read_refines_decoder_witness:
  "\<exists>p. await_read_exact (packed_poll_read script_read) 8
     (packed_reader_new [Some [0x24], None, Some [12, 34, 0], None, None, Some [0]]) =
   Some (Ok [0, 0, 12, 0, 0, 34, 0, 0], p)"
  using async_packed_read_refines_decoder [of 8 "[Some [0x24], None, Some [12, 34, 0], None, None, Some [0]]"]
  by (auto simp: sample_stream Let_def)

section \<open>Reads that end inside a word\<close>

text \<open>
  When the output buffer is full in the middle of a word, the number of the next bit is taken to be that
  of the next byte in the buffer, as if no byte of the word had been zero: the zeros are put out again.
\<close>

lemma short_reads_repeat_zeroes:
  "unpack_stream [0x81, 1, 2] = ([1, 0, 0, 0, 0, 0, 0, 2], None)"
  "(case packed_poll_read script_read 4 (packed_reader_new [Some [0x81, 1, 2]]) of
     (Ok (Ready a), p) \<Rightarrow> (case packed_poll_read script_read 4 p of
        (Ok (Ready b), q) \<Rightarrow> a @ b = [1, 0, 0, 0, 0, 0, 0, 0] | _ \<Rightarrow> False)
   | _ \<Rightarrow> False)"
  by code_simp+

text \<open>A read into an empty buffer in the middle of a run forgets the run.\<close>

lemma empty_read_loses_run:
  assumes "read_stage p = WritingPassthrough"
  shows "read_turn pr 0 p = (Ok None, p\<lparr>read_stage := ReadStart\<rparr>)"
  using assms by (simp add: read_turn_def passthrough_turn_def run_simps)

text \<open>The input of the repository's test \<^verbatim>\<open>eof_mid_message\<close>.\<close>

lemma eof_mid_message: "unpack_stream [0xfe, 3, 3] = ([], Some PrematureEndOfFile)"
  by code_simp

text \<open>A stream that ends after a tag is taken for a stream at its end.\<close>

lemma lone_tag_is_end: "packed_poll_read script_read n (packed_reader_new [Some [tag]]) =
  (Ok (Ready []), (packed_reader_new [])\<lparr>read_buf := tag # replicate 9 0, read_pos := 1\<rparr>)"
  by (simp add: packed_poll_read.simps [of script_read] read_turn_def start_turn_def poll_inner_def run_simps
      packed_reader_new_def write_at_def)

end
