(* ===== verification/Async_Serialize.thy ===== *)
theory Async_Serialize
  imports Async_Packed
begin

text \<open>
  \<^verbatim>\<open>capnp-futures/src/serialize.rs\<close>: the stream framing over asynchronous streams. The functions
  take as arguments the extension methods of \<^verbatim>\<open>futures\<close> that they await: \<open>read\<close>, \<open>read_exact\<close> and
  \<open>write_all\<close> of their stream.

  Shown: over a source whose unit divides a word, so over a plain stream and over a packed one, reading
  a message gives what the synchronous \<open>try_read_message\<close> gives on the whole of its content, up to the
  kinds of the errors, and always completes; what is written is the same as well.
\<close>

section \<open>Reading\<close>

definition parse_segment_table_first :: "u8 list \<Rightarrow> ('r, nat \<times> nat) prog" where
  "parse_segment_table_first buf =
     (let segment_count = u32_at 0 buf + 1 in
      if segment_count \<ge> 512 then err Failed
      else if segment_count = 0 then err Failed
      else ret (unat segment_count, unat (u32_at 4 buf)))"

definition async_read_segment_table ::
  "(nat \<Rightarrow> ('r, u8 list) task) \<Rightarrow> (nat \<Rightarrow> ('r, u8 list) task) \<Rightarrow> reader_options \<Rightarrow> ('r, segment_lengths_builder option) task"
  where
  "async_read_segment_table rd rdx options =
     bindt (rd 8) (\<lambda>first.
     let n = length first in
     if n = 0 then run (ret None)
     else
     bindt (if n < 8 then bindt (rdx (8 - n)) (\<lambda>rest. run (ret (first @ rest))) else run (ret first)) (\<lambda>buf.
     bindt (run (parse_segment_table_first buf)) (\<lambda>(segment_count, first_segment_length).
     bindt (run (try_push_segment first_segment_length (with_capacity segment_count))) (\<lambda>b.
     bindt (if segment_count > 1 then
              if segment_count < 4
              then bindt (rdx 8) (\<lambda>buf. run (push_lengths buf (segment_count - 1) b))
              else bindt (rdx ((segment_count - segment_count mod 2) * 4))
                     (\<lambda>segment_sizes. run (push_lengths segment_sizes (segment_count - 1) b))
            else run (ret b)) (\<lambda>b.
     run (case traversal_limit_in_words options of
            Some lim \<Rightarrow> if total_words b > unat lim then err Failed else ret (Some b)
          | None \<Rightarrow> ret (Some b)))))))"

definition async_read_segments :: "(nat \<Rightarrow> ('r, u8 list) task) \<Rightarrow> owned_segments \<Rightarrow> ('r, owned_segments) task" where
  "async_read_segments rdx owned =
     bindt (rdx (length (owned_space owned))) (\<lambda>bytes. run (ret (owned\<lparr>owned_space := bytes\<rparr>)))"

definition async_try_read_message ::
  "(nat \<Rightarrow> ('r, u8 list) task) \<Rightarrow> (nat \<Rightarrow> ('r, u8 list) task) \<Rightarrow> reader_options \<Rightarrow> ('r, owned_segments option) task" where
  "async_try_read_message rd rdx options =
     bindt (async_read_segment_table rd rdx options) (\<lambda>r. case r of
       None \<Rightarrow> run (ret None)
     | Some b \<Rightarrow> bindt (async_read_segments rdx (into_owned_segments b)) (\<lambda>s. run (ret (Some s))))"

definition async_read_message ::
  "(nat \<Rightarrow> ('r, u8 list) task) \<Rightarrow> (nat \<Rightarrow> ('r, u8 list) task) \<Rightarrow> reader_options \<Rightarrow> ('r, owned_segments) task" where
  "async_read_message rd rdx options =
     bindt (async_try_read_message rd rdx options) (\<lambda>r. case r of
       Some s \<Rightarrow> run (ret s)
     | None \<Rightarrow> run (err Failed))"

section \<open>Writing\<close>

text \<open>The loop that puts the lengths of segments 1 and up into a buffer.\<close>

definition fill_table :: "u8 list list \<Rightarrow> u8 list \<Rightarrow> u8 list" where
  "fill_table segments buf = foldl (\<lambda>buf idx. write_at ((idx - 1) * 4) (seg_words (segments ! idx)) buf) buf [1..<length segments]"

definition async_write_segment_table :: "(u8 list \<Rightarrow> ('w, unit) task) \<Rightarrow> u8 list list \<Rightarrow> ('w, unit) task" where
  "async_write_segment_table wra segments =
     (let segment_count = length segments in
      if segment_count mod 2 ^ 32 = 0 then run panic
      else
      let buf = to_le_bytes 4 (of_nat segment_count - 1 :: u32) @ seg_words (segments ! 0) in
      bindt (wra buf) (\<lambda>_.
      if segment_count > 1 then
        if segment_count < 4 then
          let buf = fill_table segments buf in
          wra (if segment_count = 2 then write_at 4 [0, 0, 0, 0] buf else buf)
        else
          let buf = fill_table segments (replicate ((segment_count - segment_count mod 2) * 4) 0) in
          wra (if segment_count mod 2 = 0 then write_at (length buf - 4) [0, 0, 0, 0] buf else buf)
      else run (ret ())))"

primrec async_write_segments :: "(u8 list \<Rightarrow> ('w, unit) task) \<Rightarrow> u8 list list \<Rightarrow> ('w, unit) task" where
  "async_write_segments wra [] = run (ret ())"
| "async_write_segments wra (segment # segments) = bindt (wra segment) (\<lambda>_. async_write_segments wra segments)"

definition async_write_message :: "(u8 list \<Rightarrow> ('w, unit) task) \<Rightarrow> u8 list list \<Rightarrow> ('w, unit) task" where
  "async_write_message wra segments =
     bindt (async_write_segment_table wra segments) (\<lambda>_. async_write_segments wra segments)"

section \<open>Reading agrees with the synchronous code\<close>

text \<open>
  The kinds of the errors differ. A read that is cut short is \<open>FailedToFillTheWholeBuffer\<close> for the
  synchronous \<open>read_exact\<close>, and an \<^verbatim>\<open>io::Error\<close> that becomes \<open>PrematureEndOfFile\<close> for the asynchronous
  one. The size of the segments is summed up by the same code. All that the asynchronous code finds
  itself is \<open>Failed\<close>: the number of segments, a message over the limit, and in \<open>read_message\<close> that
  there is no message, which is \<open>PrematureEndOfFile\<close> for the synchronous one.
\<close>

fun async_error :: "error_kind \<Rightarrow> error_kind" where
  "async_error MessageSizeOverflow = MessageSizeOverflow"
| "async_error FailedToFillTheWholeBuffer = PrematureEndOfFile"
| "async_error _ = Failed"

fun async_outcome :: "'a outcome \<Rightarrow> 'a outcome" where
  "async_outcome (Err e) = Err (async_error e)"
| "async_outcome (Ok x) = Ok x"
| "async_outcome Panic = Panic"
| "async_outcome UB = UB"

locale word_source = async_source pr V for pr :: "nat \<Rightarrow> ('r, u8 list poll) prog" and V +
  assumes unit_dvd: "unit_len V dvd 8"
begin

text \<open>The source stands before the bytes \<open>cs\<close>, at the beginning of a word.\<close>

definition stands :: "'r \<Rightarrow> u8 list \<Rightarrow> bool" where
  "stands r cs \<longleftrightarrow> ok V r \<and> content V r = cs \<and> pos V r mod unit_len V = 0 \<and> ending V r = None"

text \<open>The task does what the program does on the slice of all that is to come.\<close>

definition same :: "('r, 'a) task \<Rightarrow> (u8 list, 'a) prog \<Rightarrow> bool" where
  "same m m' \<longleftrightarrow> (\<forall>r cs. stands r cs \<longrightarrow> (\<exists>r'. m r = Some (async_outcome (fst (m' cs)), r') \<and>
     (\<forall>x. fst (m' cs) = Ok x \<longrightarrow> stands r' (snd (m' cs)))))"

lemma fits_words: "stands r cs \<Longrightarrow> n mod 8 = 0 \<Longrightarrow> fits V n r"
proof -
  assume a: "stands r cs" "n mod 8 = 0"
  then have "n mod unit_len V = 0" using unit_dvd by (metis dvd_trans mod_0_imp_dvd mod_eq_0_iff_dvd)
  then show ?thesis using a(1) by (simp add: stands_def fits_def mod_add_eq [symmetric])
qed

lemma stands_advance:
  assumes "stands r cs" "advances V r bs r'" "length bs mod 8 = 0"
  shows "stands r' (drop (length bs) cs)"
proof -
  have "length bs mod unit_len V = 0" using assms(3) unit_dvd by (metis dvd_trans mod_0_imp_dvd mod_eq_0_iff_dvd)
  then show ?thesis using assms(1,2) by (auto simp: stands_def advances_def mod_add_eq [symmetric])
qed

lemma same_bind:
  assumes "same m m'" "\<And>x. same (f x) (f' x)"
  shows "same (bindt m f) (bindp m' f')"
  unfolding same_def
proof (intro allI impI)
  fix r cs assume "stands r cs"
  with assms(1) obtain r' where r': "m r = Some (async_outcome (fst (m' cs)), r')"
    "\<forall>x. fst (m' cs) = Ok x \<longrightarrow> stands r' (snd (m' cs))" unfolding same_def by blast
  obtain res cs' where m': "m' cs = (res, cs')" by fastforce
  show "\<exists>r'. bindt m f r = Some (async_outcome (fst (bindp m' f' cs)), r') \<and>
      (\<forall>x. fst (bindp m' f' cs) = Ok x \<longrightarrow> stands r' (snd (bindp m' f' cs)))"
  proof (cases res)
    case (Ok x)
    then have "stands r' cs'" using r'(2) m' Ok by simp
    then show ?thesis using assms(2) [of x] r'(1) m' Ok by (auto simp: same_def bindt_def bindp_def)
  qed (use r'(1) m' in \<open>simp_all add: bindt_def bindp_def\<close>)
qed

lemma same_ret: "same (run (ret x)) (ret x)"
  by (auto simp: same_def run_def ret_def)

lemma same_err: "async_error e = e' \<Longrightarrow> same (run (err e')) (err e)"
  by (auto simp: same_def run_def err_def)

lemma same_if: "(b \<Longrightarrow> same m m') \<Longrightarrow> (\<not> b \<Longrightarrow> same n n') \<Longrightarrow> same (if b then m else n) (if b then m' else n')"
  by simp

lemma slice_read_exact: "n \<le> length cs \<Longrightarrow> read_exact slice_read n cs = (Ok (take n cs), drop n cs)"
  using slice_stream.read_exact_full [of n cs] by auto

lemma same_exact:
  assumes "n mod 8 = 0"
  shows "same (await_read_exact pr n) (read_exact slice_read n)"
  unfolding same_def
proof (intro allI impI)
  fix r cs assume r: "stands r cs"
  note fits = fits_words [OF r assms]
  show "\<exists>r'. await_read_exact pr n r = Some (async_outcome (fst (read_exact slice_read n cs)), r') \<and>
      (\<forall>x. fst (read_exact slice_read n cs) = Ok x \<longrightarrow> stands r' (snd (read_exact slice_read n cs)))"
  proof (cases "n \<le> length cs")
    case True
    then obtain r' where r': "await_read_exact pr n r = Some (Ok (take n cs), r')" "advances V r (take n cs) r'"
      using read_exact_full [OF fits] r by (auto simp: stands_def)
    with stands_advance [OF r r'(2)] True assms show ?thesis by (simp add: slice_read_exact)
  next
    case False
    then show ?thesis
      using read_exact_short [OF fits] r slice_stream.read_exact_short [of cs n] by (auto simp: stands_def)
  qed
qed

text \<open>The first read and what is missing from the first word.\<close>

lemma same_first:
  assumes "\<And>buf. same (f buf) (f' buf)"
  shows "same
    (bindt (await_read pr 8) (\<lambda>first. let n = length first in
       if n = 0 then run (ret None)
       else bindt (if n < 8 then bindt (await_read_exact pr (8 - n)) (\<lambda>rest. run (ret (first @ rest)))
                   else run (ret first)) f))
    (bindp (slice_read 8) (\<lambda>first. let n = length first in
       if n = 0 then ret None
       else bindp (if n < 8 then bindp (read_exact slice_read (8 - n)) (\<lambda>rest. ret (first @ rest)) else ret first) f'))"
    (is "same ?m ?m'")
  unfolding same_def
proof (intro allI impI)
  fix r cs assume r: "stands r cs"
  have fits: "fits V 8 r" by (rule fits_words [OF r]) simp
  have nil: "?m' cs = (Ok None, [])" if "cs = []"
    using that by (simp add: slice_read_def bindp_def ret_def Let_def)
  have short: "fst (?m' cs) = Err FailedToFillTheWholeBuffer" if ne: "cs \<noteq> []" and lt: "length cs < 8"
  proof -
    obtain t where "read_exact slice_read (8 - length cs) [] = (Err FailedToFillTheWholeBuffer, t)"
      using slice_stream.read_exact_short [of "[]" "8 - length cs"] lt by auto
    then show ?thesis using ne lt by (simp add: slice_read_def bindp_def ret_def Let_def)
  qed
  have full: "?m' cs = f' (take 8 cs) (drop 8 cs)" if "\<not> length cs < 8"
    using that by (auto simp: slice_read_def bindp_def ret_def Let_def min_def)
  from fits zero_less_numeral show "\<exists>r'. ?m r = Some (async_outcome (fst (?m' cs)), r') \<and>
      (\<forall>x. fst (?m' cs) = Ok x \<longrightarrow> stands r' (snd (?m' cs)))"
  proof (cases rule: read_cases)
    case (eof r')
    then have "stands r' cs" "cs = []" using r by (auto simp: stands_def advances_def)
    then show ?thesis using eof(1) nil by (simp add: bindt_def run_def ret_def)
  next
    case (failed e r')
    then show ?thesis using r by (simp add: stands_def)
  next
    case (bytes bs r1)
    then have cs: "cs = bs @ content V r1" "ending V r1 = None" using r by (auto simp: stands_def advances_def)
    have fits1: "fits V (8 - length bs) r1" by (rule fits_advance [OF fits bytes(2,3)])
    show ?thesis
    proof (cases "length cs < 8")
      case True
      then have "length (content V r1) < 8 - length bs" using cs(1) by (simp add: less_diff_conv)
      then obtain r2 where "await_read_exact pr (8 - length bs) r1 = Some (Err PrematureEndOfFile, r2)"
        using read_exact_short [OF fits1] cs(2) by auto
      then have "?m r = Some (Err PrematureEndOfFile, r2)"
        using bytes(1,4) True cs by (simp add: bindt_def)
      then show ?thesis using short True bytes(4) cs(1) by simp
    next
      case False
      have "\<exists>r2. bindt (if length bs < 8 then bindt (await_read_exact pr (8 - length bs)) (\<lambda>rest. run (ret (bs @ rest)))
          else run (ret bs)) f r1 = f (take 8 cs) r2 \<and> stands r2 (drop 8 cs)"
      proof (cases "length bs < 8")
        case True
        have le: "8 - length bs \<le> length (content V r1)" using False cs(1) by (simp add: le_diff_conv)
        obtain r2 where r2: "await_read_exact pr (8 - length bs) r1 = Some (Ok (take (8 - length bs) (content V r1)), r2)"
          "advances V r1 (take (8 - length bs) (content V r1)) r2"
          using read_exact_full [OF fits1 le] by blast
        have "advances V r (take 8 cs) r2"
          using advances_trans [OF bytes(2) r2(2)] bytes(3) cs(1) by simp
        then have "stands r2 (drop 8 cs)" using stands_advance [OF r] False by force
        then show ?thesis using r2(1) True bytes(3) cs(1) by (auto simp: bindt_def run_def ret_def)
      next
        case F: False
        then have "length bs = 8" using bytes(3) by simp
        moreover from this have "stands r1 (drop 8 cs)" using stands_advance [OF r bytes(2)] by simp
        ultimately show ?thesis using cs(1) by (auto simp: bindt_def run_def ret_def)
      qed
      then obtain r2 where r2: "?m r = f (take 8 cs) r2" "stands r2 (drop 8 cs)"
        using bytes(1,4) by (auto simp: bindt_def [of "await_read pr 8"] Let_def)
      then show ?thesis using assms [of "take 8 cs"] unfolding full [OF False] same_def by simp
    qed
  qed
qed

lemma same_push: "same (run (try_push_segment n b)) (try_push_segment n b)"
  by (simp add: try_push_segment_def Let_def same_ret same_err split: if_split)

lemma same_foldp:
  assumes "\<And>x a. same (run (f x a)) (f' x a)"
  shows "same (run (foldp f xs a)) (foldp f' xs a)"
proof (induction xs arbitrary: a)
  case Nil
  show ?case by (simp add: same_ret)
next
  case (Cons x xs)
  have "run (foldp f (x # xs) a) = bindt (run (f x a)) (\<lambda>b. run (foldp f xs b))"
    by (rule ext) (simp add: run_def bindt_def bindp_def split: prod.splits outcome.splits)
  then show ?case using same_bind [OF assms Cons] by simp
qed

lemma same_parse:
  assumes "\<And>count :: u32. count \<noteq> 0 \<Longrightarrow> count < 512 \<Longrightarrow> same (f (unat count, unat (u32_at 4 buf))) (f' (unat count))"
  shows "same (bindt (run (parse_segment_table_first buf)) f)
    (let segment_count = unat (u32_at 0 buf + 1) in
     if segment_count \<ge> SEGMENTS_COUNT_LIMIT \<or> segment_count = 0
     then err (InvalidNumberOfSegments segment_count) else f' segment_count)"
proof -
  let ?c = "u32_at 0 buf + 1"
  have limits: "unat ?c \<ge> SEGMENTS_COUNT_LIMIT \<longleftrightarrow> ?c \<ge> 512" "unat ?c = 0 \<longleftrightarrow> ?c = 0"
    by (simp_all add: SEGMENTS_COUNT_LIMIT_def word_le_nat_alt unat_eq_zero)
  show ?thesis
  proof (cases "?c \<ge> 512 \<or> ?c = 0")
    case True
    then have "parse_segment_table_first buf = (err Failed :: ('r, nat \<times> nat) prog)"
      by (auto simp: parse_segment_table_first_def Let_def)
    with True limits show ?thesis by (simp add: Let_def same_err)
  next
    case False
    then have "parse_segment_table_first buf = (ret (unat ?c, unat (u32_at 4 buf)) :: ('r, nat \<times> nat) prog)"
      by (simp add: parse_segment_table_first_def Let_def)
    with False limits assms [of ?c] show ?thesis by (auto simp: Let_def not_le)
  qed
qed

lemma same_segment_table:
  "same (async_read_segment_table (await_read pr) (await_read_exact pr) options) (read_segment_table slice_read options)"
  unfolding async_read_segment_table_def read_segment_table_def
proof (rule same_first, rule same_parse)
  fix buf and count :: u32
  have even: "((unat count - unat count mod 2) * 4) mod 8 = 0"
    by (simp add: minus_mod_eq_mult_div)
  have push: "same (run (push_lengths b k c)) (push_lengths b k c)" for b k c
    unfolding push_lengths_def by (rule same_foldp) (rule same_push)
  show "same (case (unat count, unat (u32_at 4 buf)) of (segment_count, first_segment_length) \<Rightarrow>
      bindt (run (try_push_segment first_segment_length (with_capacity segment_count))) (\<lambda>b.
      bindt (if segment_count > 1 then
              if segment_count < 4
              then bindt (await_read_exact pr 8) (\<lambda>buf. run (push_lengths buf (segment_count - 1) b))
              else bindt (await_read_exact pr ((segment_count - segment_count mod 2) * 4))
                     (\<lambda>segment_sizes. run (push_lengths segment_sizes (segment_count - 1) b))
            else run (ret b)) (\<lambda>b.
      run (case traversal_limit_in_words options of
            Some lim \<Rightarrow> if total_words b > unat lim then err Failed else ret (Some b)
          | None \<Rightarrow> ret (Some b)))))
     (bindp (try_push_segment (unat (u32_at 4 buf)) (with_capacity (unat count))) (\<lambda>b.
      bindp (if unat count > 1 then
              if unat count < 4
              then bindp (read_exact slice_read 8) (\<lambda>buf. push_lengths buf (unat count - 1) b)
              else bindp (read_exact slice_read ((unat count - unat count mod 2) * 4))
                     (\<lambda>segment_sizes. push_lengths segment_sizes (unat count - 1) b)
            else ret b) (\<lambda>b.
      case traversal_limit_in_words options of
        Some lim \<Rightarrow> if total_words b > unat lim then err (MessageTooLarge (total_words b)) else ret (Some b)
      | None \<Rightarrow> ret (Some b))))"
    unfolding prod.case
    by (intro same_bind same_push same_if same_exact push same_ret even)
      (auto simp: same_ret same_err split: option.split)
qed

lemma same_try_read_message:
  "same (async_try_read_message (await_read pr) (await_read_exact pr) options) (try_read_message slice_read options)"
  unfolding async_try_read_message_def try_read_message_def async_read_segments_def read_segments_def
  by (intro same_bind same_segment_table)
    (auto simp: into_owned_segments_def same_ret BYTES_PER_WORD_def split: option.split intro!: same_bind same_exact)

lemma same_read_message:
  "same (async_read_message (await_read pr) (await_read_exact pr) options) (read_message slice_read options)"
proof -
  have "read_message slice_read options = bindp (try_read_message slice_read options) (\<lambda>r. case r of
      Some s \<Rightarrow> ret s | None \<Rightarrow> err PrematureEndOfFile)"
    unfolding read_message_def try_read_message_def bindp_assoc
    by (intro bindp_cong_prog refl) (simp add: bindp_assoc split: option.split)
  then show ?thesis unfolding async_read_message_def
    by (auto simp: same_ret same_err split: option.split intro!: same_bind same_try_read_message)
qed

end

sublocale plain_source \<subseteq> plain_words: word_source pr "plain_view k c d"
  by unfold_locales simp

sublocale plain_source \<subseteq> packed_words: word_source "packed_poll_read pr" packed_view
  by unfold_locales simp

section \<open>Writing agrees with the synchronous code\<close>

lemma fill_lengths_table:
  assumes "length segs < 2 ^ 32"
  shows "(fill_lengths vec_get_segment segs (length segs) buf :: ('s, u8 list) prog) = ret (fill_table segs buf)"
proof -
  have "foldp (\<lambda>idx buf. bindp (unwrap_segment vec_get_segment segs idx) (\<lambda>seg.
      ret (write_at ((idx - 1) * 4) (seg_words seg) buf))) xs b =
    (ret (foldl (\<lambda>buf idx. write_at ((idx - 1) * 4) (seg_words (segs ! idx)) buf) b xs) :: ('s, u8 list) prog)"
    if "set xs \<subseteq> {..<length segs}" for xs b
    using that by (induction xs arbitrary: b) (simp_all add: vec_segments.unwrap [OF assms])
  moreover have "set [1..<length segs] \<subseteq> {..<length segs}" by auto
  ultimately show ?thesis unfolding fill_lengths_def fill_table_def by blast
qed

text \<open>A writer that records what it is given: it tells which blocks the synchronous code writes.\<close>

definition record_write :: "u8 list \<Rightarrow> (u8 list list, unit) prog" where
  "record_write bs out = (Ok (), out @ [bs])"

lemma record_foldp: "foldp (\<lambda>b _. record_write b) bs () out = (Ok (), out @ bs)"
  by (induction bs arbitrary: out) (simp_all add: ret_def record_write_def bindp_def)

lemma async_write_segments_append:
  "async_write_segments wra (xs @ ys) = bindt (async_write_segments wra xs) (\<lambda>_. async_write_segments wra ys)"
  by (induction xs) (simp_all add: bindt_assoc)

lemma async_write_table_blocks:
  assumes "segs \<noteq> []" "length segs < 2 ^ 32"
  shows "async_write_segment_table wra segs = async_write_segments wra (table_blocks segs)"
proof -
  let ?n = "length segs"
  define b1 where "b1 = to_le_bytes 4 (of_nat ?n - 1 :: u32) @ seg_words (segs ! 0)"
  define b2 where "b2 = (if ?n < 4
    then (if ?n = 2 then write_at 4 [0, 0, 0, 0] (fill_table segs b1) else fill_table segs b1)
    else let buf = fill_table segs (replicate ((?n - ?n mod 2) * 4) 0) in
      if ?n mod 2 = 0 then write_at (length buf - 4) [0, 0, 0, 0] buf else buf)"
  have n: "?n mod 2 ^ 32 \<noteq> 0" using assms by simp
  have "write_segment_table_internal record_write vec_get_segment vec_len segs [] =
      (Ok (), if ?n > 1 then [b1, b2] else [b1])"
    using n assms
    by (simp add: write_segment_table_internal_def vec_len_def fill_lengths_table vec_segments.unwrap Let_def b1_def b2_def)
      (simp add: record_write_def run_simps)
  moreover have "write_segment_table_internal record_write vec_get_segment vec_len segs [] = (Ok (), table_blocks segs)"
    using record_foldp [of "table_blocks segs" "[]"] by (simp add: vec_segments.table_writes [OF assms(2,1)])
  ultimately have blocks: "table_blocks segs = (if ?n > 1 then [b1, b2] else [b1])" by simp
  have "async_write_segment_table wra segs = bindt (wra b1) (\<lambda>_. if ?n > 1 then wra b2 else run (ret ()))"
    using n by (simp add: async_write_segment_table_def Let_def b1_def [symmetric] b2_def)
  then show ?thesis by (simp add: blocks)
qed

lemma async_write_message_blocks:
  assumes "segs \<noteq> []" "length segs < 2 ^ 32"
  shows "async_write_message wra segs = async_write_segments wra (message_blocks segs)"
  by (simp add: async_write_message_def message_blocks_def async_write_segments_append async_write_table_blocks [OF assms])

context async_sink
begin

lemma write_blocks:
  "\<exists>w'. async_write_segments (await_write_all (\<lambda>bs. run (pw bs))) bs w = Some (Ok (), w') \<and>
     written w' = written w @ concat bs"
proof (induction bs arbitrary: w)
  case Nil
  then show ?case by (simp add: run_def ret_def)
next
  case (Cons b bs)
  obtain v where "await_write_all (\<lambda>bs. run (pw bs)) b w = Some (Ok (), v)" "written v = written w @ b"
    using write_all_writes by blast
  then show ?case using Cons [of v] by (auto simp: bindt_def)
qed

lemma write_message_writes:
  assumes "segs \<noteq> []" "length segs < 2 ^ 32"
  shows "\<exists>w'. async_write_message (await_write_all (\<lambda>bs. run (pw bs))) segs w = Some (Ok (), w') \<and>
     written w' = written w @ message_bytes segs"
  using write_blocks [of "message_blocks segs" w]
  by (simp add: async_write_message_blocks [OF assms] concat_message_blocks [OF assms(1)])

end

section \<open>Properties\<close>

text \<open>C28: The asynchronous reader and the synchronous one agree on any bytes: reading a message from a
  stream that arrives in any pieces with any waits gives what \<open>try_read_message\<close> gives on all of the
  bytes at once, and leaves the same bytes behind. The kinds of the errors correspond as \<open>async_error\<close>
  says: bytes that are cut short are \<open>PrematureEndOfFile\<close>. It always completes and never panics where the
  synchronous code does not.\<close>

theorem async_reading_agrees:
  "\<exists>s'. async_try_read_message (await_read script_read) (await_read_exact script_read) options s =
      Some (async_outcome (fst (try_read_message slice_read options (script_content s))), s') \<and>
    (\<forall>m. fst (try_read_message slice_read options (script_content s)) = Ok m \<longrightarrow>
       script_content s' = snd (try_read_message slice_read options (script_content s)))"
proof -
  have "scripted_packed.plain_words.stands s (script_content s)"
    by (simp add: scripted_packed.plain_words.stands_def)
  with scripted_packed.plain_words.same_try_read_message [of options] show ?thesis
    unfolding scripted_packed.plain_words.same_def by (auto simp: scripted_packed.plain_words.stands_def)
qed

text \<open>What the asynchronous \<open>write_message\<close> puts on a stream, which takes as much at a time as it
  likes, is what the synchronous code writes for the segments, and the task completes.\<close>

theorem async_writing_agrees:
  assumes "segs \<noteq> []" "length segs < 2 ^ 32"
  shows "\<exists>s'. async_write_message (await_write_all (\<lambda>bs. run (script_write bs))) segs (out, s) = Some (Ok (), s') \<and>
    write_message_segments vec_write_all vec_get_segment vec_len segs out = (Ok (), fst s')"
  using scripted_sink.write_message_writes [OF assms, of "(out, s)"] vec_to_vec.write_whole [of segs out] assms
  by auto

lemma slice_stream_exact: "n \<le> length cs \<Longrightarrow> read_exact slice_read n cs = (Ok (take n cs), drop n cs)"
  by (rule scripted_packed.plain_words.slice_read_exact)

text \<open>Samples: a message of one word that arrives in four pieces with waits between them, and its writing
  by a writer that takes three bytes, waits, and takes two more.\<close>

lemma sample_try_read:
  "try_read_message slice_read DEFAULT_READER_OPTIONS [0, 0, 0, 0, 1, 0, 0, 0, 1, 2, 3, 4, 5, 6, 7, 8, 99] =
    (Ok (Some \<lparr>os_segment_indices = [(0, 1)], owned_space = [1, 2, 3, 4, 5, 6, 7, 8]\<rparr>), [99])"
  by (simp add: try_read_message_def read_segment_table_def slice_read_def run_simps u32_at_def take_at_def
      SEGMENTS_COUNT_LIMIT_def try_push_segment_def with_capacity_def DEFAULT_READER_OPTIONS_def read_segments_def
      into_owned_segments_def BYTES_PER_WORD_def slice_stream_exact)

theorem async_reading_agrees_witness:
  "\<exists>s'. async_try_read_message (await_read script_read) (await_read_exact script_read) DEFAULT_READER_OPTIONS
      [Some [0, 0, 0], None, None, Some [0, 1, 0, 0, 0, 1], Some [2, 3, 4, 5, 6, 7], None, Some [8, 99]] =
      Some (Ok (Some \<lparr>os_segment_indices = [(0, 1)], owned_space = [1, 2, 3, 4, 5, 6, 7, 8]\<rparr>), s') \<and>
    script_content s' = [99]"
  using async_reading_agrees [of DEFAULT_READER_OPTIONS
      "[Some [0, 0, 0], None, None, Some [0, 1, 0, 0, 0, 1], Some [2, 3, 4, 5, 6, 7], None, Some [8, 99]]"]
  by (auto simp: sample_try_read)

theorem async_writing_agrees_witness:
  "\<exists>s'. async_write_message (await_write_all (\<lambda>bs. run (script_write bs))) [[1, 2, 3, 4, 5, 6, 7, 8]]
      ([], [Some 2, None, Some 1]) = Some (Ok (), s') \<and>
    write_message_segments vec_write_all vec_get_segment vec_len [[1, 2, 3, 4, 5, 6, 7, 8]] [] = (Ok (), fst s')"
  by (rule async_writing_agrees) simp_all

end
