(* ===== verification/Write_Queue.thy ===== *)
theory Write_Queue
  imports Async_Serialize
begin

text \<open>
  \<^verbatim>\<open>capnp-futures/src/write_queue.rs\<close>: messages that any number of senders hand to one task, which
  writes them to a stream one after the other and gives each message back when it is written and
  flushed.

  The channel between senders and task is the list of its items. A \<open>oneshot\<close> is a number; what happened
  to it is recorded in \<open>answers\<close>. A sender may act between any two steps of the task. Shown: the stream
  holds the messages in the order in which they were sent, a message is given back when it and all those
  before it are on the stream, the counter of messages in flight is exact while the task runs, and the
  task writes everything it was given.
\<close>

section \<open>State\<close>

datatype 'm queue_item = QueueMessage 'm nat | QueueDone "unit outcome" nat

datatype queue_answer = Returned | TerminateReached | OneshotCanceled

record ('m, 'w) write_queue =
  queue_items :: "'m queue_item list"
  queue_in_flight :: u32
  queue_writing :: "('m \<times> nat) option"
  queue_result :: "unit outcome option"
  queue_senders_gone :: bool
  queue_writer :: 'w
  answers_given :: "(nat \<times> queue_answer) list"
  next_oneshot :: nat

definition write_queue_new :: "'w \<Rightarrow> ('m, 'w) write_queue" where
  "write_queue_new w = \<lparr>queue_items = [], queue_in_flight = 0, queue_writing = None, queue_result = None,
     queue_senders_gone = False, queue_writer = w, answers_given = [], next_oneshot = 0\<rparr>"

section \<open>The senders\<close>

fun item_oneshot :: "'m queue_item \<Rightarrow> nat" where
  "item_oneshot (QueueMessage m i) = i"
| "item_oneshot (QueueDone r i) = i"

text \<open>\<open>unbounded_send\<close>: when the receiver is gone, the item is dropped, and its oneshot with it.\<close>

definition enqueue :: "(nat \<Rightarrow> 'm queue_item) \<Rightarrow> ('m, 'w) write_queue \<Rightarrow> ('m, 'w) write_queue" where
  "enqueue item q =
     (let i = next_oneshot q; q = q\<lparr>next_oneshot := i + 1\<rparr> in
      if queue_result q = None then q\<lparr>queue_items := queue_items q @ [item i]\<rparr>
      else q\<lparr>answers_given := answers_given q @ [(i, OneshotCanceled)]\<rparr>)"

definition queue_send :: "'m \<Rightarrow> ('m, 'w) write_queue \<Rightarrow> ('m, 'w) write_queue" where
  "queue_send m q = enqueue (QueueMessage m) (q\<lparr>queue_in_flight := queue_in_flight q + 1\<rparr>)"

definition queue_terminate :: "unit outcome \<Rightarrow> ('m, 'w) write_queue \<Rightarrow> ('m, 'w) write_queue" where
  "queue_terminate r q = enqueue (QueueDone r) q"

text \<open>\<open>len\<close> reads the counter, an \<open>AtomicI32\<close>, and asserts that it is not negative.\<close>

definition queue_len :: "('m, 'w) write_queue \<Rightarrow> nat outcome" where
  "queue_len q = (if 0 \<le> sint (queue_in_flight q) then Ok (unat (queue_in_flight q)) else Panic)"

definition queue_is_empty :: "('m, 'w) write_queue \<Rightarrow> bool outcome" where
  "queue_is_empty q = (case queue_len q of Ok n \<Rightarrow> Ok (n = 0) | Err e \<Rightarrow> Err e | Panic \<Rightarrow> Panic | UB \<Rightarrow> UB)"

section \<open>The task\<close>

text \<open>When the task ends, the channel and the items in it are dropped.\<close>

definition end_task :: "unit outcome \<Rightarrow> ('m, 'w) write_queue \<Rightarrow> ('m, 'w) write_queue" where
  "end_task r q = q\<lparr>queue_result := Some r, queue_items := [], queue_writing := None,
     answers_given := answers_given q @ map (\<lambda>item. (item_oneshot item, OneshotCanceled)) (queue_items q)\<rparr>"

text \<open>\<open>rx.next()\<close> and the branch for the item; a message is now being written.\<close>

definition queue_next :: "('m, 'w) write_queue \<Rightarrow> ('m, 'w) write_queue" where
  "queue_next q =
     (if queue_result q \<noteq> None \<or> queue_writing q \<noteq> None then q
      else case queue_items q of
        [] \<Rightarrow> if queue_senders_gone q then end_task (Ok ()) q else q
      | QueueMessage m i # items \<Rightarrow> q\<lparr>queue_items := items, queue_writing := Some (m, i)\<rparr>
      | QueueDone r i # items \<Rightarrow>
          end_task r (q\<lparr>queue_items := items, answers_given := answers_given q @ [(i, TerminateReached)]\<rparr>))"

text \<open>
  The write of the message and the flush have come to their end; \<open>wm\<close> and \<open>fl\<close> are \<open>write_message\<close> and
  \<open>flush\<close> on the stream. The counter goes down before the result is looked at.
\<close>

definition queue_written ::
  "('m \<Rightarrow> ('w, unit) task) \<Rightarrow> ('w, unit) task \<Rightarrow> ('m, 'w) write_queue \<Rightarrow> ('m, 'w) write_queue option" where
  "queue_written wm fl q = (case queue_writing q of
     None \<Rightarrow> Some q
   | Some (m, i) \<Rightarrow>
       let failed = (\<lambda>r w q. end_task r (q\<lparr>queue_writer := w, answers_given := answers_given q @ [(i, OneshotCanceled)]\<rparr>)) in
       (case wm m (queue_writer q) of
          None \<Rightarrow> None
        | Some (Ok _, w) \<Rightarrow>
            let q = q\<lparr>queue_in_flight := queue_in_flight q - 1\<rparr> in
            (case fl w of
               None \<Rightarrow> None
             | Some (Ok _, w) \<Rightarrow> Some (q\<lparr>queue_writer := w, queue_writing := None, answers_given := answers_given q @ [(i, Returned)]\<rparr>)
             | Some (r, w) \<Rightarrow> Some (failed r w q))
        | Some (r, w) \<Rightarrow> Some (failed r w (q\<lparr>queue_in_flight := queue_in_flight q - 1\<rparr>))))"

section \<open>Runs\<close>

datatype 'm queue_op = OpSend 'm | OpTerminate "unit outcome" | OpDropSenders | OpNext | OpWritten

text \<open>The stream is a writer below the framing of messages; flushing it does nothing.\<close>

type_synonym stream_queue = "(u8 list list, u8 list \<times> nat option list) write_queue"

definition stream_write :: "u8 list list \<Rightarrow> (u8 list \<times> nat option list, unit) task" where
  "stream_write = async_write_message (await_write_all (\<lambda>bs. run (script_write bs)))"

fun queue_perform :: "u8 list list queue_op \<Rightarrow> stream_queue \<Rightarrow> stream_queue option" where
  "queue_perform (OpSend m) q = Some (queue_send m q)"
| "queue_perform (OpTerminate r) q = Some (queue_terminate r q)"
| "queue_perform OpDropSenders q = Some (q\<lparr>queue_senders_gone := True\<rparr>)"
| "queue_perform OpNext q = Some (queue_next q)"
| "queue_perform OpWritten q = queue_written stream_write (run (ret ())) q"

fun queue_run :: "u8 list list queue_op list \<Rightarrow> stream_queue \<Rightarrow> stream_queue option" where
  "queue_run [] q = Some q"
| "queue_run (op # ops) q = (case queue_perform op q of Some q' \<Rightarrow> queue_run ops q' | None \<Rightarrow> None)"

text \<open>The messages that the operations send, with the numbers of their oneshots, from \<open>n\<close> on.\<close>

fun sends :: "nat \<Rightarrow> 'm queue_op list \<Rightarrow> ('m \<times> nat) list" where
  "sends n [] = []"
| "sends n (OpSend m # ops) = (m, n) # sends (Suc n) ops"
| "sends n (OpTerminate r # ops) = sends (Suc n) ops"
| "sends n (op # ops) = sends n ops"

fun item_message :: "'m queue_item \<Rightarrow> ('m \<times> nat) list" where
  "item_message (QueueMessage m i) = [(m, i)]"
| "item_message (QueueDone r i) = []"

text \<open>The messages that the queue still holds.\<close>

definition held_messages :: "('m, 'w) write_queue \<Rightarrow> ('m \<times> nat) list" where
  "held_messages q = (case queue_writing q of Some mi \<Rightarrow> [mi] | None \<Rightarrow> []) @ concat (map item_message (queue_items q))"

definition returned :: "('m, 'w) write_queue \<Rightarrow> nat list" where
  "returned q = map fst (filter (\<lambda>a. snd a = Returned) (answers_given q))"

text \<open>A message that can be written: at least one segment, and their number fits.\<close>

definition writable :: "u8 list list \<Rightarrow> bool" where
  "writable m \<longleftrightarrow> m \<noteq> [] \<and> length m < 2 ^ 32"

text \<open>
  \<open>wr\<close> are the messages that were written so far. While the task runs, they and the messages held are
  those that were sent, and the counter counts the latter.
\<close>

definition queue_inv :: "(u8 list list \<times> nat) list \<Rightarrow> (u8 list list \<times> nat) list \<Rightarrow> stream_queue \<Rightarrow> bool" where
  "queue_inv msgs wr q \<longleftrightarrow>
     fst (queue_writer q) = concat (map (message_bytes \<circ> fst) wr) \<and> returned q = map snd wr \<and>
     (queue_result q = None \<longrightarrow> msgs = wr @ held_messages q \<and> queue_in_flight q = of_nat (length (held_messages q))) \<and>
     (queue_result q \<noteq> None \<longrightarrow> queue_writing q = None) \<and>
     (\<exists>rest. msgs = wr @ rest) \<and> (\<forall>m \<in> set msgs. writable (fst m))"

lemma stream_write_run:
  assumes "writable m"
  obtains w' where "stream_write m w = Some (Ok (), w')" "fst w' = fst w @ message_bytes m"
  using scripted_sink.write_message_writes [of m w] assms that by (auto simp: stream_write_def writable_def)

lemma returned_add [simp]:
  "returned (q\<lparr>answers_given := as\<rparr>) = map fst (filter (\<lambda>a. snd a = Returned) as)"
  by (simp add: returned_def)

lemma no_returns [simp]: "filter (\<lambda>a. snd a = Returned) (map (\<lambda>item. (f item, OneshotCanceled)) xs) = []"
  by (simp add: filter_map comp_def)

lemma send_keeps:
  assumes "queue_inv msgs wr q" "writable m"
  shows "queue_inv (msgs @ [(m, next_oneshot q)]) wr (queue_send m q)"
  using assms
  by (auto simp: queue_inv_def queue_send_def enqueue_def held_messages_def returned_def Let_def split: option.splits)

lemma terminate_keeps: "queue_inv msgs wr q \<Longrightarrow> queue_inv msgs wr (queue_terminate r q)"
  by (auto simp: queue_inv_def queue_terminate_def enqueue_def held_messages_def returned_def Let_def split: option.splits)

lemma end_task_keeps: "queue_inv msgs wr q \<Longrightarrow> queue_inv msgs wr (end_task r q)"
  by (auto simp: queue_inv_def end_task_def returned_def)

lemma next_keeps:
  assumes "queue_inv msgs wr q"
  shows "queue_inv msgs wr (queue_next q)"
proof (cases "queue_result q \<noteq> None \<or> queue_writing q \<noteq> None")
  case True
  then show ?thesis using assms by (simp add: queue_next_def)
next
  case False
  then have idle: "queue_result q = None" "queue_writing q = None" by blast+
  show ?thesis
  proof (cases "queue_items q")
    case Nil
    then show ?thesis using assms False end_task_keeps by (simp add: queue_next_def)
  next
    case (Cons item items)
    show ?thesis
    proof (cases item)
      case (QueueMessage m i)
      then show ?thesis using assms idle Cons by (auto simp: queue_next_def queue_inv_def held_messages_def returned_def)
    next
      case (QueueDone r i)
      have "queue_inv msgs wr (q\<lparr>queue_items := items, answers_given := answers_given q @ [(i, TerminateReached)]\<rparr>)"
        using assms idle Cons QueueDone by (auto simp: queue_inv_def held_messages_def returned_def)
      then show ?thesis using False Cons QueueDone by (simp add: queue_next_def end_task_keeps)
    qed
  qed
qed

lemma written_keeps:
  assumes inv: "queue_inv msgs wr q"
  obtains wr' q' where "queue_perform OpWritten q = Some q'" "queue_inv msgs wr' q'" "next_oneshot q' = next_oneshot q"
    "queue_result q' = queue_result q" "queue_items q' = queue_items q" "queue_writing q' = None"
    "queue_senders_gone q' = queue_senders_gone q"
proof (cases "queue_writing q")
  case None
  then show ?thesis using inv that by (simp add: queue_written_def)
next
  case (Some mi)
  then obtain m i where mi: "queue_writing q = Some (m, i)" by (cases mi) auto
  have run: "queue_result q = None" using inv mi by (auto simp: queue_inv_def)
  then have msgs: "msgs = wr @ held_messages q" using inv by (simp add: queue_inv_def)
  then have w: "writable m" using inv mi by (auto simp: queue_inv_def held_messages_def)
  obtain w' where w': "stream_write m (queue_writer q) = Some (Ok (), w')" "fst w' = fst (queue_writer q) @ message_bytes m"
    using stream_write_run [OF w] by blast
  let ?q = "q\<lparr>queue_in_flight := queue_in_flight q - 1, queue_writer := w', queue_writing := None,
      answers_given := answers_given q @ [(i, Returned)]\<rparr>"
  have "queue_perform OpWritten q = Some ?q"
    using mi w'(1) by (simp add: queue_written_def run_def ret_def Let_def)
  moreover have "queue_inv msgs (wr @ [(m, i)]) ?q"
    using inv msgs mi w'(2) run by (auto simp: queue_inv_def held_messages_def returned_def)
  ultimately show ?thesis using that mi by simp
qed

lemma perform_keeps:
  assumes "queue_inv msgs wr q" "\<And>m. op = OpSend m \<Longrightarrow> writable m"
  shows "\<exists>q' wr'. queue_perform op q = Some q' \<and> queue_inv (msgs @ sends (next_oneshot q) [op]) wr' q' \<and>
    (\<forall>ops. sends (next_oneshot q) (op # ops) = sends (next_oneshot q) [op] @ sends (next_oneshot q') ops)"
proof (cases op)
  case (OpSend m)
  then show ?thesis using send_keeps [OF assms(1), of m] assms(2) by (auto simp: queue_send_def enqueue_def Let_def)
next
  case (OpTerminate r)
  then show ?thesis using terminate_keeps [OF assms(1), of r] by (auto simp: queue_terminate_def enqueue_def Let_def)
next
  case OpDropSenders
  have "queue_inv msgs wr (q\<lparr>queue_senders_gone := True\<rparr>)" using assms(1) by (simp add: queue_inv_def held_messages_def returned_def)
  then show ?thesis using OpDropSenders by auto
next
  case OpNext
  have "next_oneshot (queue_next q) = next_oneshot q"
    by (auto simp: queue_next_def end_task_def split: list.splits queue_item.splits)
  then show ?thesis using OpNext next_keeps [OF assms(1)] by auto
next
  case OpWritten
  obtain wr' q' where "queue_perform OpWritten q = Some q'" "queue_inv msgs wr' q'" "next_oneshot q' = next_oneshot q"
    by (rule written_keeps [OF assms(1)])
  then show ?thesis using OpWritten by (auto simp del: queue_perform.simps)
qed

lemma run_keeps:
  "queue_inv msgs wr q \<Longrightarrow> \<forall>m. OpSend m \<in> set ops \<longrightarrow> writable m \<Longrightarrow>
   \<exists>q' wr'. queue_run ops q = Some q' \<and> queue_inv (msgs @ sends (next_oneshot q) ops) wr' q'"
proof (induction ops arbitrary: msgs wr q)
  case (Cons op ops)
  obtain q1 wr1 where q1: "queue_perform op q = Some q1" "queue_inv (msgs @ sends (next_oneshot q) [op]) wr1 q1"
    "sends (next_oneshot q) (op # ops) = sends (next_oneshot q) [op] @ sends (next_oneshot q1) ops"
    using perform_keeps [OF Cons.prems(1), of op] Cons.prems(2) by auto
  from Cons.IH [OF q1(2)] Cons.prems(2) show ?case unfolding q1(3) using q1(1) by simp
qed auto

lemma queue_inv_new: "queue_inv [] [] (write_queue_new ([], waits))"
  by (simp add: queue_inv_def write_queue_new_def held_messages_def returned_def)

section \<open>Properties\<close>

text \<open>C29: Whatever the senders do and however their calls fall between the steps of the task, the stream
  holds the first of the messages that were sent, whole and in order, exactly these were given back, and
  while the task runs the counter says how many are still to come.\<close>

theorem write_queue_in_order:
  assumes "\<forall>m. OpSend m \<in> set ops \<longrightarrow> writable m"
  shows "\<exists>q wr rest. queue_run ops (write_queue_new ([], waits)) = Some q \<and> sends 0 ops = wr @ rest \<and>
    fst (queue_writer q) = concat (map (message_bytes \<circ> fst) wr) \<and> returned q = map snd wr \<and>
    (queue_result q = None \<longrightarrow> queue_in_flight q = of_nat (length rest))"
proof -
  have "next_oneshot (write_queue_new ([], waits) :: stream_queue) = 0" by (simp add: write_queue_new_def)
  with run_keeps [OF queue_inv_new assms, of waits] obtain q wr where
    q: "queue_run ops (write_queue_new ([], waits)) = Some q" "queue_inv (sends 0 ops) wr q" by auto
  then show ?thesis by (fastforce simp: queue_inv_def)
qed

theorem write_queue_in_order_witness:
  "\<exists>q wr rest. queue_run [OpSend [[1, 0, 0, 0, 0, 0, 0, 0]], OpNext, OpSend [[]], OpWritten, OpTerminate (Ok ()), OpNext]
      (write_queue_new ([], [None, Some 4])) = Some q \<and>
    sends 0 [OpSend [[1, 0, 0, 0, 0, 0, 0, 0]], OpNext, OpSend [[]], OpWritten, OpTerminate (Ok ()), OpNext] = wr @ rest \<and>
    fst (queue_writer q) = concat (map (message_bytes \<circ> fst) wr) \<and> returned q = map snd wr"
proof -
  have "\<forall>m. OpSend m \<in> set [OpSend [[1, 0, 0, 0, 0, 0, 0, 0]], OpNext, OpSend [[]], OpWritten, OpTerminate (Ok ()), OpNext] \<longrightarrow>
      writable m"
    by (simp add: writable_def)
  from write_queue_in_order [OF this, of "[None, Some 4]"] show ?thesis by blast
qed

text \<open>Without a call of \<open>terminate\<close> the task does not end while there are senders, and a turn of it writes
  the next message.\<close>

definition polite :: "'m queue_op list \<Rightarrow> bool" where
  "polite ops \<longleftrightarrow> (\<forall>op \<in> set ops. (\<exists>m. op = OpSend m) \<or> op = OpNext \<or> op = OpWritten)"

definition running :: "('m, 'w) write_queue \<Rightarrow> bool" where
  "running q \<longleftrightarrow> queue_result q = None \<and> \<not> queue_senders_gone q \<and>
     (\<forall>item \<in> set (queue_items q). \<exists>m i. item = QueueMessage m i)"

lemma polite_keeps:
  assumes "queue_inv msgs wr q" "running q" "\<And>m. op = OpSend m \<Longrightarrow> writable m" "polite [op]"
  shows "\<exists>q' wr'. queue_perform op q = Some q' \<and> queue_inv (msgs @ sends (next_oneshot q) [op]) wr' q' \<and>
    (\<forall>ops. sends (next_oneshot q) (op # ops) = sends (next_oneshot q) [op] @ sends (next_oneshot q') ops) \<and> running q'"
proof -
  obtain q' wr' where q': "queue_perform op q = Some q'" "queue_inv (msgs @ sends (next_oneshot q) [op]) wr' q'"
    "\<forall>ops. sends (next_oneshot q) (op # ops) = sends (next_oneshot q) [op] @ sends (next_oneshot q') ops"
    using perform_keeps [OF assms(1,3)] by blast
  have "running q'"
  proof -
    consider (send) m where "op = OpSend m" | (nxt) "op = OpNext" | (written) "op = OpWritten"
      using assms(4) by (auto simp: polite_def)
    then show ?thesis
    proof cases
      case send
      then show ?thesis using q'(1) assms(2) by (auto simp: running_def queue_send_def enqueue_def Let_def)
    next
      case nxt
      then show ?thesis using q'(1) assms(2)
        by (auto simp: running_def queue_next_def split: list.splits queue_item.splits if_splits)
    next
      case written
      obtain wr1 q1 where "queue_perform OpWritten q = Some q1" "queue_result q1 = queue_result q"
        "queue_items q1 = queue_items q" "queue_senders_gone q1 = queue_senders_gone q"
        by (rule written_keeps [OF assms(1)])
      then show ?thesis using q'(1) assms(2) written by (simp add: running_def del: queue_perform.simps)
    qed
  qed
  with q' show ?thesis by blast
qed

lemma polite_run:
  "queue_inv msgs wr q \<Longrightarrow> running q \<Longrightarrow> \<forall>m. OpSend m \<in> set ops \<longrightarrow> writable m \<Longrightarrow> polite ops \<Longrightarrow>
   \<exists>q' wr'. queue_run ops q = Some q' \<and> queue_inv (msgs @ sends (next_oneshot q) ops) wr' q' \<and> running q'"
proof (induction ops arbitrary: msgs wr q)
  case (Cons op ops)
  have "polite [op]" "polite ops" using Cons.prems(4) by (simp_all add: polite_def)
  then obtain q1 wr1 where q1: "queue_perform op q = Some q1" "queue_inv (msgs @ sends (next_oneshot q) [op]) wr1 q1"
    "sends (next_oneshot q) (op # ops) = sends (next_oneshot q) [op] @ sends (next_oneshot q1) ops" "running q1"
    using polite_keeps [OF Cons.prems(1,2), of op] Cons.prems(3) by auto
  from Cons.IH [OF q1(2,4)] Cons.prems(3) \<open>polite ops\<close> show ?case unfolding q1(3) using q1(1) by simp
qed auto

lemma queue_run_append:
  "queue_run (xs @ ys) q = (case queue_run xs q of None \<Rightarrow> None | Some q' \<Rightarrow> queue_run ys q')"
  by (induction xs arbitrary: q) (simp_all split: option.split)

lemma drains:
  "queue_inv msgs wr q \<Longrightarrow> running q \<Longrightarrow> queue_writing q = None \<Longrightarrow> length (queue_items q) \<le> n \<Longrightarrow>
   \<exists>q'. queue_run (concat (replicate n [OpNext, OpWritten])) q = Some q' \<and> queue_inv msgs msgs q' \<and> held_messages q' = [] \<and>
     running q'"
proof (induction n arbitrary: wr q)
  case 0
  then show ?case by (auto simp: queue_inv_def held_messages_def running_def)
next
  case (Suc n)
  have inv: "queue_inv msgs wr (queue_next q)" by (rule next_keeps [OF Suc.prems(1)])
  obtain wr1 q1 where q1: "queue_perform OpWritten (queue_next q) = Some q1" "queue_inv msgs wr1 q1"
    "next_oneshot q1 = next_oneshot (queue_next q)" "queue_result q1 = queue_result (queue_next q)"
    "queue_items q1 = queue_items (queue_next q)" "queue_writing q1 = None"
    "queue_senders_gone q1 = queue_senders_gone (queue_next q)"
    by (rule written_keeps [OF inv])
  have "running (queue_next q) \<and> length (queue_items (queue_next q)) \<le> n"
    using Suc.prems(2-4) by (auto simp: running_def queue_next_def split: list.splits queue_item.splits)
  then have "running q1" "length (queue_items q1) \<le> n" using q1 by (simp_all add: running_def)
  from Suc.IH [OF q1(2) this(1) q1(6) this(2)] show ?case
    using q1(1) by (simp del: queue_perform.simps(5))
qed

lemma queue_delivers:
  assumes "\<forall>m. OpSend m \<in> set ops \<longrightarrow> writable m" "polite ops" "length ops \<le> n"
  shows "\<exists>q. queue_run (ops @ OpWritten # concat (replicate n [OpNext, OpWritten])) (write_queue_new ([], waits)) = Some q \<and>
    fst (queue_writer q) = concat (map (message_bytes \<circ> fst) (sends 0 ops)) \<and>
    returned q = map snd (sends 0 ops) \<and> queue_is_empty q = Ok True"
proof -
  let ?new = "write_queue_new ([], waits) :: stream_queue"
  have new: "next_oneshot ?new = 0" "running ?new" by (simp_all add: write_queue_new_def running_def)
  obtain q wr where q: "queue_run ops ?new = Some q" "queue_inv (sends 0 ops) wr q" "running q"
    using polite_run [OF queue_inv_new new(2) assms(1,2)] new(1) by auto
  obtain wr1 q1 where q1: "queue_perform OpWritten q = Some q1" "queue_inv (sends 0 ops) wr1 q1"
    "next_oneshot q1 = next_oneshot q" "queue_result q1 = queue_result q" "queue_items q1 = queue_items q"
    "queue_writing q1 = None" "queue_senders_gone q1 = queue_senders_gone q"
    by (rule written_keeps [OF q(2)])
  have run1: "running q1" using q(3) q1 by (simp add: running_def)
  have sends_len: "length (sends i ops) \<le> length ops" for i
    by (induction i ops rule: sends.induct) auto
  have "length (queue_items q1) \<le> length (held_messages q1)"
  proof -
    have "length items \<le> length (concat (map item_message items))"
      if "\<forall>item \<in> set items. \<exists>m i. item = QueueMessage m i" for items :: "u8 list list queue_item list"
      using that by (induction items) fastforce+
    then show ?thesis using run1 by (simp add: running_def held_messages_def trans_le_add2)
  qed
  also have "\<dots> \<le> length (sends 0 ops)" using q1(2) run1 by (auto simp: queue_inv_def running_def)
  finally have "length (queue_items q1) \<le> n" using sends_len [of 0] assms(3) by simp
  from drains [OF q1(2) run1 q1(6) this] obtain q2 where
    q2: "queue_run (concat (replicate n [OpNext, OpWritten])) q1 = Some q2" "queue_inv (sends 0 ops) (sends 0 ops) q2"
      "held_messages q2 = []" "running q2" by blast
  have "queue_run (ops @ OpWritten # concat (replicate n [OpNext, OpWritten])) ?new = Some q2"
    using q(1) q1(1) q2(1) by (simp add: queue_run_append del: queue_perform.simps(5))
  moreover have "queue_in_flight q2 = 0" using q2(2-4) by (simp add: queue_inv_def running_def)
  then have "queue_is_empty q2 = Ok True" by (simp add: queue_is_empty_def queue_len_def)
  ultimately show ?thesis using q2(2) by (auto simp: queue_inv_def)
qed

text \<open>The task writes everything that was sent: after enough turns, at most one for each message, every
  message is on the stream, in order, every caller has its message back, and the queue is empty.\<close>

theorem write_queue_delivers:
  assumes "\<forall>m. OpSend m \<in> set ops \<longrightarrow> writable m" "polite ops" "length ops \<le> n"
  shows "\<exists>q. queue_run (ops @ OpWritten # concat (replicate n [OpNext, OpWritten])) (write_queue_new ([], waits)) = Some q \<and>
    fst (queue_writer q) = concat (map (message_bytes \<circ> fst) (sends 0 ops)) \<and>
    returned q = map snd (sends 0 ops) \<and> queue_is_empty q = Ok True"
  by (rule queue_delivers [OF assms])

theorem write_queue_delivers_witness:
  "\<exists>q. queue_run ([OpSend [[1, 0, 0, 0, 0, 0, 0, 0]], OpNext, OpSend [[]]] @ OpWritten # concat (replicate 3 [OpNext, OpWritten]))
      (write_queue_new ([], [None, Some 4])) = Some q \<and>
    fst (queue_writer q) = concat (map (message_bytes \<circ> fst) (sends 0 [OpSend [[1, 0, 0, 0, 0, 0, 0, 0]], OpNext, OpSend [[]]])) \<and>
    returned q = map snd (sends 0 [OpSend [[1 :: u8, 0, 0, 0, 0, 0, 0, 0]], OpNext, OpSend [[]]]) \<and> queue_is_empty q = Ok True"
  by (rule write_queue_delivers) (auto simp: writable_def polite_def)

text \<open>A message that is sent after the end of the task is canceled, and counted for ever.\<close>

lemma sent_too_late:
  assumes "queue_result q \<noteq> None"
  shows "queue_in_flight (queue_send m q) = queue_in_flight q + 1"
    "answers_given (queue_send m q) = answers_given q @ [(next_oneshot q, OneshotCanceled)]"
  using assms by (simp_all add: queue_send_def enqueue_def Let_def)

end
