(* ===== verification/Async_Pack.thy ===== *)
theory Async_Pack
  imports Async_Serialize
begin

text \<open>
  \<open>PackedWrite\<close> of \<^verbatim>\<open>capnp-futures/src/serialize_packed.rs\<close>: an asynchronous writer that packs what is
  written through it, a state machine of four stages that can stop wherever the writer below is
  \<open>Pending\<close>. A poll may take only a part of what it is offered, and relies on being offered the rest the
  next time: the length of a run is fixed when its first word is written.

  Shown: for input without runs of more than 255 words, whatever the writer below takes at a time and
  wherever it waits, what is written unpacks to the input, so that messages round-trip. A longer run
  has a count that does not fit its byte, and is lost.
\<close>

section \<open>The state machine\<close>

datatype packed_write_stage = WriteStart | WriteWord | WriteRunWordCount | WriteUncompressedRun

record 'w packed_writer =
  inner_write :: 'w
  write_stage :: packed_write_stage
  word_buf :: "u8 list"
  word_pos :: nat
  packed_buf :: "u8 list"
  packed_buf_size :: nat
  run_bytes_remaining :: nat

definition packed_writer_new :: "'w \<Rightarrow> 'w packed_writer" where
  "packed_writer_new w = \<lparr>inner_write = w, write_stage = WriteStart, word_buf = replicate 8 0, word_pos = 0,
     packed_buf = replicate 9 0, packed_buf_size = 0, run_bytes_remaining = 0\<rparr>"

definition poll_inner_write :: "('w, 'a) prog \<Rightarrow> ('w packed_writer, 'a) prog" where
  "poll_inner_write m p = (case m (inner_write p) of (res, w) \<Rightarrow> (res, p\<lparr>inner_write := w\<rparr>))"

text \<open>The loop that computes the tag and moves the nonzero bytes together.\<close>

definition pack_step :: "nat \<times> u8 \<Rightarrow> u8 list \<times> nat \<Rightarrow> u8 list \<times> nat" where
  "pack_step = (\<lambda>(ii, b) (buf, idx).
     if b \<noteq> 0 then ((buf[0 := buf ! 0 OR push_bit ii 1])[idx := b], idx + 1) else (buf, idx))"

definition pack_buf :: "u8 list \<Rightarrow> u8 list \<Rightarrow> u8 list \<times> nat" where
  "pack_buf word buf = fold pack_step (enumerate 0 word) (buf[0 := 0], 1)"

text \<open>
  How long a run can be made: the loops stop at the first byte that is not zero, and at the second
  zero byte of a word.
\<close>

definition words_in_zero_run :: "u8 list \<Rightarrow> nat" where
  "words_in_zero_run inbuf = length (takeWhile (\<lambda>b. b = 0) inbuf) div 8"

fun second_zero :: "nat \<Rightarrow> nat \<Rightarrow> u8 list \<Rightarrow> nat option" where
  "second_zero idx zeros [] = None"
| "second_zero idx zeros (b # bs) =
     (let zeros = (if idx mod 8 = 0 then 0 else zeros) in
      if b = 0 then (if zeros + 1 > 1 then Some idx else second_zero (idx + 1) (zeros + 1) bs)
      else second_zero (idx + 1) zeros bs)"

definition words_in_full_run :: "u8 list \<Rightarrow> nat" where
  "words_in_full_run inbuf = (case second_zero 0 0 inbuf of Some idx \<Rightarrow> idx div 8 | None \<Rightarrow> length inbuf div 8)"

text \<open>
  One turn of the loop of \<open>poll_write_aux\<close>, with the rest of the input and the number of bytes consumed
  so far. \<open>Inl\<close> is what it returns.
\<close>

type_synonym turn_result = "nat poll + u8 list \<times> nat"

definition blocked :: "nat \<Rightarrow> turn_result" where
  "blocked consumed = Inl (if consumed = 0 then Pending else Ready consumed)"

definition write_start_turn :: "u8 list \<Rightarrow> nat \<Rightarrow> ('w packed_writer, turn_result) prog" where
  "write_start_turn inbuf consumed =
     (if inbuf = [] then ret (Inl (Ready consumed))
      else bindp (gets word_pos) (\<lambda>buf_pos.
        seqp (assertp (buf_pos \<le> 8))
        (let n = min (8 - buf_pos) (length inbuf) in
         seqp (modifyp (\<lambda>p. p\<lparr>word_buf := write_at buf_pos (take n inbuf) (word_buf p), word_pos := buf_pos + n\<rparr>))
         (seqp (modifyp (\<lambda>p. if word_pos p = 8 then
             (case pack_buf (word_buf p) (packed_buf p) of (buf, idx) \<Rightarrow>
                p\<lparr>packed_buf := buf, packed_buf_size := idx, word_pos := 0, write_stage := WriteWord\<rparr>)
           else p))
         (ret (Inr (drop n inbuf, consumed + n)))))))"

definition write_word_turn :: "(u8 list \<Rightarrow> ('w, nat poll) prog) \<Rightarrow> u8 list \<Rightarrow> nat \<Rightarrow> ('w packed_writer, turn_result) prog" where
  "write_word_turn pw inbuf consumed =
     bindp (gets (\<lambda>p. p)) (\<lambda>p.
     seqp (assertp (word_pos p \<le> packed_buf_size p \<and> packed_buf_size p \<le> length (packed_buf p)))
     (bindp (poll_inner_write (pw (take_at (word_pos p) (packed_buf_size p - word_pos p) (packed_buf p)))) (\<lambda>r. case r of
        Pending \<Rightarrow> ret (blocked consumed)
      | Ready n \<Rightarrow>
          seqp (modifyp (\<lambda>p. p\<lparr>word_pos := word_pos p + n\<rparr>))
          (seqp (modifyp (\<lambda>p.
             if word_pos p \<noteq> packed_buf_size p then p
             else if packed_buf p ! 0 = 0 then
               p\<lparr>run_bytes_remaining := words_in_zero_run inbuf * 8, write_stage := WriteRunWordCount\<rparr>
             else if packed_buf p ! 0 = 255 then
               p\<lparr>run_bytes_remaining := words_in_full_run inbuf * 8, write_stage := WriteRunWordCount\<rparr>
             else p\<lparr>word_pos := 0, write_stage := WriteStart\<rparr>))
          (ret (Inr (inbuf, consumed)))))))"

definition write_count_turn :: "(u8 list \<Rightarrow> ('w, nat poll) prog) \<Rightarrow> u8 list \<Rightarrow> nat \<Rightarrow> ('w packed_writer, turn_result) prog" where
  "write_count_turn pw inbuf consumed =
     bindp (gets (\<lambda>p. p)) (\<lambda>p. let run = run_bytes_remaining p in
     bindp (poll_inner_write (pw [of_nat (run div 8)])) (\<lambda>r. case r of
        Pending \<Rightarrow> ret (blocked consumed)
      | Ready n \<Rightarrow>
          if n = 1 then
            if packed_buf p ! 0 = 0 then
              seqp (assertp (run \<le> length inbuf))
              (seqp (modifyp (\<lambda>p. p\<lparr>word_pos := 0, write_stage := WriteStart\<rparr>))
              (ret (Inr (drop run inbuf, consumed + run))))
            else seqp (modifyp (\<lambda>p. p\<lparr>write_stage := WriteUncompressedRun\<rparr>)) (ret (Inr (inbuf, consumed)))
          else if n = 0 then ret (Inr (inbuf, consumed))
          else panic))"

definition write_run_turn :: "(u8 list \<Rightarrow> ('w, nat poll) prog) \<Rightarrow> u8 list \<Rightarrow> nat \<Rightarrow> ('w packed_writer, turn_result) prog" where
  "write_run_turn pw inbuf consumed =
     bindp (gets run_bytes_remaining) (\<lambda>run.
     seqp (assertp (run \<le> length inbuf))
     (bindp (poll_inner_write (pw (take run inbuf))) (\<lambda>r. case r of
        Pending \<Rightarrow> ret (blocked consumed)
      | Ready n \<Rightarrow>
          seqp (assertp (n \<le> length inbuf))
          (seqp (modifyp (\<lambda>p. if n < run then p\<lparr>run_bytes_remaining := run - n\<rparr>
                              else p\<lparr>word_pos := 0, write_stage := WriteStart\<rparr>))
          (ret (Inr (drop n inbuf, consumed + n)))))))"

definition write_turn :: "(u8 list \<Rightarrow> ('w, nat poll) prog) \<Rightarrow> u8 list \<Rightarrow> nat \<Rightarrow> ('w packed_writer, turn_result) prog" where
  "write_turn pw inbuf consumed = bindp (gets write_stage) (\<lambda>st. case st of
     WriteStart \<Rightarrow> write_start_turn inbuf consumed
   | WriteWord \<Rightarrow> write_word_turn pw inbuf consumed
   | WriteRunWordCount \<Rightarrow> write_count_turn pw inbuf consumed
   | WriteUncompressedRun \<Rightarrow> write_run_turn pw inbuf consumed)"

text \<open>The loop turns for ever on a writer that takes nothing of what it is offered.\<close>

partial_function (option) poll_write_aux ::
  "(u8 list \<Rightarrow> ('w, nat poll) prog) \<Rightarrow> u8 list \<Rightarrow> nat \<Rightarrow> ('w packed_writer, nat poll) task" where
  "poll_write_aux pw inbuf consumed p = (case write_turn pw inbuf consumed p of
     (Ok (Inr (inbuf', consumed')), p') \<Rightarrow> poll_write_aux pw inbuf' consumed' p'
   | (Ok (Inl r), p') \<Rightarrow> Some (Ok r, p')
   | (Err e, p') \<Rightarrow> Some (Err e, p')
   | (Panic, p') \<Rightarrow> Some (Panic, p')
   | (UB, p') \<Rightarrow> Some (UB, p'))"

definition packed_poll_write :: "(u8 list \<Rightarrow> ('w, nat poll) prog) \<Rightarrow> u8 list \<Rightarrow> ('w packed_writer, nat poll) task" where
  "packed_poll_write pw inbuf = poll_write_aux pw inbuf 0"

partial_function (option) finish_pending_writes ::
  "(u8 list \<Rightarrow> ('w, nat poll) prog) \<Rightarrow> ('w packed_writer, unit poll) task" where
  "finish_pending_writes pw p =
     (if write_stage p = WriteWord \<or> write_stage p = WriteRunWordCount then
        (case packed_poll_write pw [] p of
           None \<Rightarrow> None
         | Some (Ok (Ready _), p') \<Rightarrow> finish_pending_writes pw p'
         | Some (Ok Pending, p') \<Rightarrow> Some (Ok Pending, p')
         | Some (Err e, p') \<Rightarrow> Some (Err e, p')
         | Some (Panic, p') \<Rightarrow> Some (Panic, p')
         | Some (UB, p') \<Rightarrow> Some (UB, p'))
      else Some (Ok (Ready ()), p))"

text \<open>\<open>poll_flush\<close> and \<open>poll_close\<close>, with those of the writer below; \<open>FinishPendingWrites\<close> awaits the
  pending writes alone.\<close>

definition packed_poll_flush ::
  "(u8 list \<Rightarrow> ('w, nat poll) prog) \<Rightarrow> ('w, unit poll) prog \<Rightarrow> ('w packed_writer, unit poll) task" where
  "packed_poll_flush pw inner_flush = bindt (finish_pending_writes pw) (\<lambda>r. case r of
     Pending \<Rightarrow> run (ret Pending)
   | Ready _ \<Rightarrow> run (poll_inner_write inner_flush))"

definition packed_poll_close :: "('w, unit poll) prog \<Rightarrow> ('w packed_writer, unit poll) prog" where
  "packed_poll_close inner_close = poll_inner_write inner_close"

text \<open>\<open>write_message\<close>; \<open>wra\<close> is \<open>write_all\<close> of the packed writer.\<close>

definition async_packed_write_message ::
  "(u8 list \<Rightarrow> ('w, nat poll) prog) \<Rightarrow> (u8 list \<Rightarrow> ('w packed_writer, unit) task) \<Rightarrow> u8 list list \<Rightarrow>
   ('w packed_writer, unit) task" where
  "async_packed_write_message pw wra segments =
     bindt (async_write_message wra segments) (\<lambda>_. await (finish_pending_writes pw))"

section \<open>Packing a word\<close>

lemma write_at_update: "idx < length xs \<Longrightarrow> write_at (Suc idx) ys (xs[idx := b]) = write_at idx (b # ys) xs"
  by (simp add: write_at_def take_Suc_conv_app_nth)

lemma pack_steps:
  assumes "length word + n = 8" "length buf = 9" "0 < idx" "idx + length word \<le> 9"
  shows "fold pack_step (enumerate n word) (buf, idx) =
    (let t = buf ! 0 OR push_bit n (tag_byte word); ys = filter (\<lambda>b. b \<noteq> 0) word in
     (write_at idx ys (buf[0 := t]), idx + length ys))"
  using assms
proof (induction word arbitrary: n buf idx)
  case Nil
  then show ?case by (simp add: tag_byte_def write_at_def)
next
  case (Cons b word)
  show ?case
  proof (cases "b = 0")
    case True
    then show ?thesis using Cons.IH [of "Suc n" buf idx] Cons.prems
      by (simp add: pack_step_def tag_byte_def Let_def)
  next
    case False
    let ?buf = "(buf[0 := buf ! 0 OR push_bit n 1])[idx := b]"
    have "fold pack_step (enumerate n (b # word)) (buf, idx) = fold pack_step (enumerate (Suc n) word) (?buf, idx + 1)"
      using False by (simp add: pack_step_def)
    also have "\<dots> = (let t = ?buf ! 0 OR push_bit (Suc n) (tag_byte word); ys = filter (\<lambda>b. b \<noteq> 0) word in
        (write_at (idx + 1) ys (?buf[0 := t]), idx + 1 + length ys))"
      using Cons.IH [of "Suc n" ?buf "idx + 1"] Cons.prems by simp
    finally have run: "fold pack_step (enumerate n (b # word)) (buf, idx) =
      (let t = ?buf ! 0 OR push_bit (Suc n) (tag_byte word); ys = filter (\<lambda>b. b \<noteq> 0) word in
        (write_at (idx + 1) ys (?buf[0 := t]), idx + 1 + length ys))" .
    have tag: "?buf ! 0 OR push_bit (Suc n) (tag_byte word) = buf ! 0 OR push_bit n (tag_byte (b # word))"
      using False Cons.prems by (simp add: tag_byte_def push_bit_or or.assoc push_bit_push_bit)
    have "?buf[0 := t] = (buf[0 := t])[idx := b]" for t
      using Cons.prems by (simp add: list_update_swap)
    then show ?thesis
      unfolding run tag using False Cons.prems by (simp add: Let_def write_at_update)
  qed
qed

lemma pack_buf_run:
  assumes "length word = 8" "length buf = 9" "pack_buf word buf = (buf', sz)"
  shows "take sz buf' = tag_byte word # filter (\<lambda>b. b \<noteq> 0) word" "length buf' = 9" "buf' ! 0 = tag_byte word"
    "1 \<le> sz" "sz \<le> 9"
proof -
  let ?ys = "filter (\<lambda>b. b \<noteq> 0) word"
  have ys: "length ?ys \<le> 8" using length_filter_le [of _ word] assms(1) by simp
  obtain x xs where buf: "buf = x # xs" "length xs = 8" using assms(2) by (cases buf) auto
  have "pack_buf word buf = (write_at 1 ?ys (tag_byte word # xs), 1 + length ?ys)"
    using pack_steps [of word 0 "buf[0 := 0]" 1] assms(1,2) by (simp add: pack_buf_def Let_def buf)
  then have "buf' = tag_byte word # ?ys @ drop (length ?ys) xs" "sz = 1 + length ?ys"
    using assms(3) by (simp_all add: write_at_def)
  then show "take sz buf' = tag_byte word # ?ys" "length buf' = 9" "buf' ! 0 = tag_byte word" "1 \<le> sz" "sz \<le> 9"
    using ys buf(2) by simp_all
qed

section \<open>Runs\<close>

lemma words_in_zero_run_take:
  "words_in_zero_run inbuf * 8 \<le> length inbuf" "take (words_in_zero_run inbuf * 8) inbuf = replicate (words_in_zero_run inbuf * 8) 0"
proof -
  let ?z = "takeWhile (\<lambda>b. b = 0) inbuf" and ?n = "words_in_zero_run inbuf * 8"
  have n: "?n \<le> length ?z" by (simp add: words_in_zero_run_def)
  then show "?n \<le> length inbuf" using length_takeWhile_le [of "\<lambda>b. b = 0" inbuf] by linarith
  have "take ?n inbuf = take ?n ?z" using take_append [of ?n ?z "dropWhile (\<lambda>b. b = 0) inbuf"] n by simp
  moreover have "?z = replicate (length ?z) 0" by (rule replicate_eqI) (auto dest: set_takeWhileD)
  ultimately have "take ?n inbuf = take ?n (replicate (length ?z) 0)" by simp
  also have "\<dots> = replicate ?n 0" using n by (simp only: take_replicate min.absorb1)
  finally show "take ?n inbuf = replicate ?n 0" .
qed

lemma second_zero_bound: "second_zero idx zeros bs = Some i \<Longrightarrow> idx \<le> i \<and> i < idx + length bs"
proof (induction bs arbitrary: idx zeros)
  case (Cons b bs)
  from Cons.prems have "idx = i \<or> (\<exists>z. second_zero (idx + 1) z bs = Some i)"
    by (auto simp: Let_def split: if_splits)
  then show ?case using Cons.IH [of "idx + 1"] by force
qed simp

lemma words_in_full_run_le: "words_in_full_run inbuf * 8 \<le> length inbuf"
proof (cases "second_zero 0 0 inbuf")
  case None
  then show ?thesis by (simp add: words_in_full_run_def)
next
  case (Some idx)
  have "idx div 8 * 8 \<le> idx" by simp
  also have "idx \<le> length inbuf" using second_zero_bound [OF Some] by simp
  finally show ?thesis using Some by (simp add: words_in_full_run_def)
qed

text \<open>The runs in the input that can be told to the reader: at most 255 words each.\<close>

definition short_runs :: "u8 list \<Rightarrow> bool" where
  "short_runs bs \<longleftrightarrow> (\<forall>i < length bs. words_in_zero_run (drop i bs) \<le> 255 \<and> words_in_full_run (drop i bs) \<le> 255)"

lemma short_runs_drop: "short_runs bs \<Longrightarrow> short_runs (drop n bs)"
  by (auto simp: short_runs_def add.commute less_diff_conv)

lemma short_runsD: "short_runs bs \<Longrightarrow> words_in_zero_run bs \<le> 255 \<and> words_in_full_run bs \<le> 255"
proof (cases bs)
  case Nil
  then show ?thesis by (simp add: words_in_zero_run_def words_in_full_run_def)
next
  case Cons
  assume "short_runs bs"
  then show ?thesis unfolding short_runs_def using Cons by (metis drop0 length_greater_0_conv list.distinct(1))
qed

lemma short_runs_length: "length bs < 2048 \<Longrightarrow> short_runs bs"
proof -
  assume a: "length bs < 2048"
  have "words_in_zero_run (drop i bs) * 8 \<le> length bs" "words_in_full_run (drop i bs) * 8 \<le> length bs" for i
    using words_in_zero_run_take(1) [of "drop i bs"] words_in_full_run_le [of "drop i bs"] by simp_all
  then have "words_in_zero_run (drop i bs) * 8 < 2048" "words_in_full_run (drop i bs) * 8 < 2048" for i
    using a le_less_trans by blast+
  then show ?thesis by (simp add: short_runs_def less_Suc_eq_le [symmetric])
qed

section \<open>Packings\<close>

text \<open>\<open>out\<close> is one way to pack \<open>inp\<close>, whatever follows.\<close>

definition packing :: "u8 list \<Rightarrow> u8 list \<Rightarrow> bool" where
  "packing out inp \<longleftrightarrow> (\<forall>rest. unpack_stream (out @ rest) = before inp (unpack_stream rest))"

abbreviation nonzero :: "u8 list \<Rightarrow> u8 list" where
  "nonzero w \<equiv> filter (\<lambda>b. b \<noteq> 0) w"

lemma packing_Nil: "packing [] []"
  by (simp add: packing_def)

lemma packing_append: "packing a x \<Longrightarrow> packing b y \<Longrightarrow> packing (a @ b) (x @ y)"
  by (simp add: packing_def)

lemma packing_zeroes: "k \<le> 255 \<Longrightarrow> packing [0, of_nat k] (replicate ((k + 1) * 8) 0)"
  by (simp add: packing_def unpack_stream_zeroes unat_of_nat)

lemma unpack_stream_tagged:
  assumes "length w = 8" "tag_byte w \<noteq> 0"
  obtains c rest' where "nonzero w @ rest = c # rest'" "unpack_word (tag_bits (tag_byte w)) (c # rest') = Some (w, rest)"
proof -
  have u: "unpack_word (tag_bits (tag_byte w)) (nonzero w @ rest) = Some (w, rest)"
    by (simp add: tag_bits_tag_byte [OF assms(1)] unpack_word_filter)
  have "nonzero w \<noteq> []"
  proof
    assume "nonzero w = []"
    then have "count_ones (tag_byte w) = 0"
      using tag_bits_tag_byte [OF assms(1)] ones_tag_bits [of "tag_byte w"] by (auto simp: filter_map comp_def)
    then show False using count_ones_bounds(2) [OF assms(2)] by simp
  qed
  then show ?thesis using u that by (cases "nonzero w") auto
qed

lemma packing_word:
  assumes "length w = 8" "tag_byte w \<noteq> 0" "tag_byte w \<noteq> 255"
  shows "packing (tag_byte w # nonzero w) w"
  unfolding packing_def
proof
  fix rest
  obtain c rest' where "nonzero w @ rest = c # rest'" "unpack_word (tag_bits (tag_byte w)) (c # rest') = Some (w, rest)"
    by (rule unpack_stream_tagged [OF assms(1,2)])
  then show "unpack_stream ((tag_byte w # nonzero w) @ rest) = before w (unpack_stream rest)"
    using assms(2,3) by (simp add: unpack_stream.simps [of "tag_byte w # c # rest'"] before_def split: prod.splits)
qed

lemma full_word: "length w = 8 \<Longrightarrow> tag_byte w = 255 \<Longrightarrow> nonzero w = w"
proof -
  assume a: "length w = 8" "tag_byte w = 255"
  have "tag_bits 255 = replicate 8 True" by code_simp
  then have "map (\<lambda>b. b \<noteq> 0) w = replicate 8 True" using tag_bits_tag_byte [OF a(1)] a(2) by simp
  then have "\<forall>b \<in> set w. b \<noteq> 0" by (metis (mono_tags, lifting) imageI in_set_replicate list.set_map)
  then show "nonzero w = w" by simp
qed

lemma packing_run:
  assumes "length w = 8" "tag_byte w = 255" "length r = k * 8" "k \<le> 255"
  shows "packing (255 # w @ of_nat k # r) (w @ r)"
  unfolding packing_def
proof
  fix rest
  have k: "unat (of_nat k :: u8) = k" using assms(4) by (simp add: unat_of_nat)
  have tag: "tag_byte w \<noteq> 0" using assms(2) by simp
  obtain c rest' where "nonzero w @ of_nat k # r @ rest = c # rest'"
    "unpack_word (tag_bits (tag_byte w)) (c # rest') = Some (w, of_nat k # r @ rest)"
    by (rule unpack_stream_tagged [OF assms(1) tag])
  then show "unpack_stream ((255 # w @ of_nat k # r) @ rest) = before (w @ r) (unpack_stream rest)"
    using assms(2,3) k by (simp add: full_word [OF assms(1,2)] unpack_stream.simps [of "255 # c # rest'"] before_def split: prod.splits)
qed

section \<open>What a packed writer has written\<close>

fun write_rank :: "packed_write_stage \<Rightarrow> nat" where
  "write_rank WriteWord = 3" | "write_rank WriteRunWordCount = 2" | "write_rank WriteUncompressedRun = 1"
| "write_rank WriteStart = 0"

context async_sink
begin

text \<open>
  \<open>I\<close> is what was consumed since the writer below had written \<open>W\<close>; \<open>rest\<close> is what is still offered.
  Of a run that has been announced, as much is still offered as is missing.
\<close>

definition packed_so_far :: "u8 list \<Rightarrow> u8 list \<Rightarrow> u8 list \<Rightarrow> 'w packed_writer \<Rightarrow> bool" where
  "packed_so_far W I rest p \<longleftrightarrow> length (word_buf p) = 8 \<and> length (packed_buf p) = 9 \<and>
     (\<exists>J P. 8 dvd length J \<and> packing P J \<and>
       (let w = word_buf p; out = written (inner_write p); run = run_bytes_remaining p in case write_stage p of
          WriteStart \<Rightarrow> word_pos p < 8 \<and> I = J @ take (word_pos p) w \<and> out = W @ P
        | WriteWord \<Rightarrow> I = J @ w \<and> word_pos p < packed_buf_size p \<and> packed_buf_size p \<le> 9 \<and>
            take (packed_buf_size p) (packed_buf p) = tag_byte w # nonzero w \<and> packed_buf p ! 0 = tag_byte w \<and>
            out = W @ P @ take (word_pos p) (packed_buf p)
        | WriteRunWordCount \<Rightarrow> I = J @ w \<and> packed_buf p ! 0 = tag_byte w \<and> tag_byte w \<in> {0, 255} \<and>
            run mod 8 = 0 \<and> run \<le> 255 * 8 \<and> run \<le> length rest \<and>
            (tag_byte w = 0 \<longrightarrow> take run rest = replicate run 0) \<and> out = W @ P @ tag_byte w # nonzero w
        | WriteUncompressedRun \<Rightarrow> (\<exists>r k. I = J @ w @ r \<and> tag_byte w = 255 \<and> k \<le> 255 \<and>
            length r + run = k * 8 \<and> run \<le> length rest \<and> out = W @ P @ 255 # w @ of_nat k # r)))"

definition write_order :: "('w packed_writer \<times> 'w packed_writer) set" where
  "write_order = measures [\<lambda>p. write_rank (write_stage p), \<lambda>p. packed_buf_size p - word_pos p, \<lambda>p. delay_w (inner_write p)]"

definition turn_writes :: "u8 list \<Rightarrow> u8 list \<Rightarrow> u8 list \<Rightarrow> nat \<Rightarrow> 'w packed_writer \<Rightarrow> turn_result outcome \<times> 'w packed_writer \<Rightarrow> bool" where
  "turn_writes W I b n p res \<longleftrightarrow> (case res of
     (Ok (Inl Pending), p') \<Rightarrow> n = 0 \<and> packed_so_far W I b p' \<and> (p', p) \<in> write_order
   | (Ok (Inl (Ready m)), p') \<Rightarrow> m = n \<and> (n = 0 \<longrightarrow> b = [] \<and> write_stage p' = WriteStart) \<and> packed_so_far W I b p'
   | (Ok (Inr (b', n')), p') \<Rightarrow> (\<exists>x. b = x @ b' \<and> n' = n + length x \<and> packed_so_far W (I @ x) b' p' \<and>
        (x = [] \<longrightarrow> (p', p) \<in> write_order))
   | _ \<Rightarrow> False)"

lemma turn_writes_on:
  assumes "packed_so_far W (I @ x) b' p'" "b = x @ b'" "x = [] \<Longrightarrow> (p', p) \<in> write_order"
  shows "turn_writes W I b n p (Ok (Inr (b', n + length x)), p')"
  using assms by (auto simp: turn_writes_def)

lemma tag_0: "length w = 8 \<Longrightarrow> tag_byte w = 0 \<Longrightarrow> w = replicate 8 0 \<and> nonzero w = []"
  using tag_byte_0 [of w] by simp

lemma packed_so_far_run:
  assumes "write_stage p = WriteUncompressedRun" "length (word_buf p) = 8" "length (packed_buf p) = 9"
    "8 dvd length J" "packing P J" "I = J @ word_buf p @ r" "tag_byte (word_buf p) = 255" "k \<le> 255"
    "length r + run_bytes_remaining p = k * 8" "run_bytes_remaining p \<le> length b"
    "written (inner_write p) = W @ P @ 255 # word_buf p @ of_nat k # r"
  shows "packed_so_far W I b p"
  unfolding packed_so_far_def Let_def assms(1) packed_write_stage.case using assms by blast

lemma packed_so_far_start:
  assumes "write_stage p = WriteStart" "length (word_buf p) = 8" "length (packed_buf p) = 9"
    "8 dvd length J" "packing P J" "word_pos p < 8" "I = J @ take (word_pos p) (word_buf p)"
    "written (inner_write p) = W @ P"
  shows "packed_so_far W I b p"
  unfolding packed_so_far_def Let_def assms(1) packed_write_stage.case using assms by blast

lemma packed_so_far_inner:
  "written w = written (inner_write p) \<Longrightarrow> packed_so_far W I b (p\<lparr>inner_write := w\<rparr>) = packed_so_far W I b p"
  by (cases "write_stage p") (simp_all add: packed_so_far_def)

text \<open>A writer that is \<open>Pending\<close> changes nothing.\<close>

lemma pending_writes:
  assumes "packed_so_far W I b p" "written w = written (inner_write p)" "delay_w w < delay_w (inner_write p)"
  shows "turn_writes W I b n p (Ok (blocked n), p\<lparr>inner_write := w\<rparr>)"
  using assms by (simp add: turn_writes_def blocked_def packed_so_far_inner write_order_def)

lemmas write_defs = write_turn_def poll_inner_write_def run_simps

lemma write_start_ok:
  assumes inv: "packed_so_far W I b p" and st: "write_stage p = WriteStart"
  shows "turn_writes W I b n p (write_turn pw b n p)"
proof (cases "b = []")
  case True
  then show ?thesis using inv st by (simp add: write_defs write_start_turn_def turn_writes_def)
next
  case False
  obtain J P where p: "length (word_buf p) = 8" "length (packed_buf p) = 9" "8 dvd length J" "packing P J"
    "word_pos p < 8" "I = J @ take (word_pos p) (word_buf p)" "written (inner_write p) = W @ P"
    using inv st by (auto simp: packed_so_far_def Let_def)
  define m where "m = min (8 - word_pos p) (length b)"
  define word where "word = write_at (word_pos p) (take m b) (word_buf p)"
  define i where "i = word_pos p + m"
  have m: "m \<le> length b" "word_pos p + m \<le> 8" "0 < m" using p(5) False by (auto simp: m_def)
  have x: "take m b \<noteq> []" "b = take m b @ drop m b" "length (take m b) = m" using m False by auto
  have word: "length word = 8" "take i word = take (word_pos p) (word_buf p) @ take m b"
    using p(1) m(2) take_write_prefix [of "word_pos p" "take m b" "word_buf p"] x(3) by (simp_all add: word_def i_def)
  have I: "I @ take m b = J @ take i word" by (simp add: p(6) word(2))
  show ?thesis
  proof (cases "i = 8")
    case False
    then have "i < 8" using m by (simp add: i_def)
    have "write_turn pw b n p = (Ok (Inr (drop m b, n + m)), p\<lparr>word_buf := word, word_pos := i\<rparr>)"
      using \<open>b \<noteq> []\<close> False p(5) st by (simp add: write_defs write_start_turn_def m_def [symmetric] word_def [symmetric] i_def [symmetric])
    moreover have "packed_so_far W (I @ take m b) (drop m b) (p\<lparr>word_buf := word, word_pos := i\<rparr>)"
      unfolding I using st p word(1) \<open>i < 8\<close> by (auto simp: packed_so_far_def)
    ultimately show ?thesis using turn_writes_on [OF _ x(2)] x(1,3) by simp
  next
    case True
    obtain buf sz where buf: "pack_buf word (packed_buf p) = (buf, sz)" by fastforce
    note pb = pack_buf_run [OF word(1) p(2) buf]
    let ?p = "p\<lparr>word_buf := word, packed_buf := buf, packed_buf_size := sz, word_pos := 0, write_stage := WriteWord\<rparr>"
    have "write_turn pw b n p = (Ok (Inr (drop m b, n + m)), ?p)"
      using \<open>b \<noteq> []\<close> True p(5) st buf by (simp add: write_defs write_start_turn_def m_def [symmetric] word_def [symmetric] i_def [symmetric])
    moreover have "packed_so_far W (I @ take m b) (drop m b) ?p"
    proof -
      have "I @ take m b = J @ word" using I True word(1) by simp
      then show ?thesis using p(3,4,7) pb word(1) by (auto simp: packed_so_far_def)
    qed
    ultimately show ?thesis using turn_writes_on [OF _ x(2)] x(1,3) by simp
  qed
qed

lemma write_word_ok:
  assumes inv: "packed_so_far W I b p" and st: "write_stage p = WriteWord" and short: "short_runs b"
  shows "turn_writes W I b n p (write_turn pw b n p)"
proof -
  let ?w = "word_buf p" and ?i = "word_pos p" and ?sz = "packed_buf_size p"
  obtain J P where p: "length ?w = 8" "length (packed_buf p) = 9" "8 dvd length J" "packing P J"
    "I = J @ ?w" "?i < ?sz" "?sz \<le> 9" "take ?sz (packed_buf p) = tag_byte ?w # nonzero ?w" "packed_buf p ! 0 = tag_byte ?w"
    "written (inner_write p) = W @ P @ take ?i (packed_buf p)"
    using inv st by (auto simp: packed_so_far_def Let_def)
  define offer where "offer = take_at ?i (?sz - ?i) (packed_buf p)"
  have offer: "length offer = ?sz - ?i" "0 < length offer" using p(2,6,7) by (simp_all add: offer_def)
  have split: "take ?i (packed_buf p) @ take k offer = take (?i + k) (packed_buf p)" if "k \<le> ?sz - ?i" for k
    using that by (simp add: offer_def take_at_def take_add min_def)
  note defs = write_defs write_word_turn_def offer_def [symmetric]
  show ?thesis
  proof (cases rule: write_cases [of offer "inner_write p"])
    case (pending w)
    then show ?thesis using pending_writes [OF inv, of w n] p(2,6,7) st by (simp add: defs)
  next
    case (taken k w)
    have k: "0 < k" "k \<le> ?sz - ?i" using taken(2,3) offer by (cases k, auto)
    have out: "written w = W @ P @ take (?i + k) (packed_buf p)"
      using taken(4) p(10) split [OF k(2)] by simp
    note run = taken(1) st p(2,6,7)
    show ?thesis
    proof (cases "?i + k = ?sz")
      case False
      then have lt: "?i + k < ?sz" using k(2) p(6) by simp
      let ?p = "p\<lparr>inner_write := w, word_pos := ?i + k\<rparr>"
      have "write_turn pw b n p = (Ok (Inr (b, n)), ?p)" using run False by (simp add: defs)
      moreover have "packed_so_far W I b ?p"
        using p st out lt by (auto simp: packed_so_far_def)
      moreover have "?sz - (?i + k) < ?sz - ?i" using k(1) lt by linarith
      then have "(?p, p) \<in> write_order" using st by (simp add: write_order_def)
      ultimately show ?thesis by (simp add: turn_writes_def)
    next
      case True
      then have out': "written w = W @ P @ tag_byte ?w # nonzero ?w" using out p(8) by simp
      consider (zero) "tag_byte ?w = 0" | (full) "tag_byte ?w = 255" | (part) "tag_byte ?w \<noteq> 0" "tag_byte ?w \<noteq> 255" by blast
      then show ?thesis
      proof cases
        case zero
        let ?r = "words_in_zero_run b * 8"
        let ?p = "p\<lparr>inner_write := w, word_pos := ?sz, run_bytes_remaining := ?r, write_stage := WriteRunWordCount\<rparr>"
        have "write_turn pw b n p = (Ok (Inr (b, n)), ?p)" using run True zero p(9) by (simp add: defs)
        moreover have "packed_so_far W I b ?p"
          using p(1-5,9) out' zero words_in_zero_run_take [of b] short_runsD [OF short] tag_0 [OF p(1) zero]
          by (auto simp: packed_so_far_def)
        moreover have "(?p, p) \<in> write_order" using st by (simp add: write_order_def)
        ultimately show ?thesis by (simp add: turn_writes_def)
      next
        case full
        let ?r = "words_in_full_run b * 8"
        let ?p = "p\<lparr>inner_write := w, word_pos := ?sz, run_bytes_remaining := ?r, write_stage := WriteRunWordCount\<rparr>"
        have "write_turn pw b n p = (Ok (Inr (b, n)), ?p)" using run True full p(9) by (simp add: defs)
        moreover have "packed_so_far W I b ?p"
          using p(1-5,9) out' full words_in_full_run_le [of b] short_runsD [OF short]
          by (auto simp: packed_so_far_def)
        moreover have "(?p, p) \<in> write_order" using st by (simp add: write_order_def)
        ultimately show ?thesis by (simp add: turn_writes_def)
      next
        case part
        let ?p = "p\<lparr>inner_write := w, word_pos := 0, write_stage := WriteStart\<rparr>"
        have "write_turn pw b n p = (Ok (Inr (b, n)), ?p)" using run True part p(9) by (simp add: defs)
        moreover have "packed_so_far W I b ?p"
        proof -
          have "packing (P @ tag_byte ?w # nonzero ?w) (J @ ?w)"
            by (rule packing_append [OF p(4) packing_word [OF p(1) part]])
          then show ?thesis using p(1-3,5) out' by (auto simp: packed_so_far_def intro!: exI [of _ "J @ ?w"])
        qed
        moreover have "(?p, p) \<in> write_order" using st by (simp add: write_order_def)
        ultimately show ?thesis by (simp add: turn_writes_def)
      qed
    qed
  qed
qed

lemma write_count_ok:
  assumes inv: "packed_so_far W I b p" and st: "write_stage p = WriteRunWordCount"
  shows "turn_writes W I b n p (write_turn pw b n p)"
proof -
  let ?w = "word_buf p" and ?r = "run_bytes_remaining p"
  obtain J P where p: "length ?w = 8" "length (packed_buf p) = 9" "8 dvd length J" "packing P J"
    "I = J @ ?w" "packed_buf p ! 0 = tag_byte ?w" "?r mod 8 = 0" "?r \<le> 255 * 8" "?r \<le> length b"
    "tag_byte ?w = 0 \<Longrightarrow> take ?r b = replicate ?r 0" "tag_byte ?w = 0 \<or> tag_byte ?w = 255"
    "written (inner_write p) = W @ P @ tag_byte ?w # nonzero ?w"
    using inv st by (auto simp: packed_so_far_def Let_def)
  have r: "?r = ?r div 8 * 8" "?r div 8 \<le> 255" using p(7,8) by (simp_all add: mod_0_imp_dvd)
  note defs = write_defs write_count_turn_def
  show ?thesis
  proof (cases rule: write_cases [of "[of_nat (?r div 8)]" "inner_write p"])
    case (pending w)
    then show ?thesis using pending_writes [OF inv, of w n] st by (simp add: defs)
  next
    case (taken k w)
    have k: "k = 1" using taken(2,3) by (cases k) auto
    have out: "written w = W @ P @ tag_byte ?w # nonzero ?w @ [of_nat (?r div 8)]"
      using taken(4) p(12) k by simp
    show ?thesis
    proof (cases "tag_byte ?w = 0")
      case True
      let ?p = "p\<lparr>inner_write := w, word_pos := 0, write_stage := WriteStart\<rparr>"
      have x: "b = take ?r b @ drop ?r b" "length (take ?r b) = ?r" using p(9) by simp_all
      have turn: "write_turn pw b n p = (Ok (Inr (drop ?r b, n + length (take ?r b))), ?p)"
        using taken(1) st k True p(6,9) by (simp add: defs)
      have "packing [0, of_nat (?r div 8)] (replicate ((?r div 8 + 1) * 8) 0)" by (rule packing_zeroes [OF r(2)])
      moreover have "replicate ((?r div 8 + 1) * 8) 0 = ?w @ take ?r b"
      proof -
        have "(?r div 8 + 1) * 8 = 8 + ?r" using r(1) by simp
        then show ?thesis using tag_0 [OF p(1) True] p(10) [OF True] by (simp only: replicate_add)
      qed
      ultimately have "packing (P @ [0, of_nat (?r div 8)]) (J @ ?w @ take ?r b)"
        using packing_append [OF p(4)] by simp
      moreover have "8 dvd length (J @ ?w @ take ?r b)" using p(1,3,7) x(2) by (auto simp: mod_0_imp_dvd)
      ultimately have "packed_so_far W (I @ take ?r b) (drop ?r b) ?p"
        using p(1,2,5) out True tag_0 [OF p(1) True]
        by (auto simp: packed_so_far_def intro!: exI [of _ "J @ ?w @ take ?r b"])
      from turn_writes_on [OF this x(1)] show ?thesis
        unfolding turn using st by (simp add: write_order_def)
    next
      case False
      then have tag: "tag_byte ?w = 255" using p(11) by simp
      let ?p = "p\<lparr>inner_write := w, write_stage := WriteUncompressedRun\<rparr>"
      have turn: "write_turn pw b n p = (Ok (Inr (b, n + length ([] :: u8 list))), ?p)"
        using taken(1) st k tag p(6) by (simp add: defs)
      have "packed_so_far W I b ?p"
        by (rule packed_so_far_run [where J = J and P = P and r = "[]" and k = "?r div 8"])
          (use p(1-5,9) out tag full_word [OF p(1) tag] r in simp_all)
      then have "packed_so_far W (I @ []) b ?p" by simp
      from turn_writes_on [OF this] show ?thesis
        unfolding turn using st by (simp add: write_order_def)
    qed
  qed
qed

lemma write_run_ok:
  assumes inv: "packed_so_far W I b p" and st: "write_stage p = WriteUncompressedRun"
  shows "turn_writes W I b n p (write_turn pw b n p)"
proof -
  let ?w = "word_buf p" and ?r = "run_bytes_remaining p"
  obtain J P r k where p: "length ?w = 8" "length (packed_buf p) = 9" "8 dvd length J" "packing P J"
    "I = J @ ?w @ r" "tag_byte ?w = 255" "k \<le> 255" "length r + ?r = k * 8" "?r \<le> length b"
    "written (inner_write p) = W @ P @ 255 # ?w @ of_nat k # r"
    using inv st by (auto simp: packed_so_far_def Let_def)
  note defs = write_defs write_run_turn_def
  show ?thesis
  proof (cases rule: write_cases [of "take ?r b" "inner_write p"])
    case (pending w)
    then show ?thesis using pending_writes [OF inv, of w n] st p(9) by (simp add: defs)
  next
    case (taken m w)
    have m: "m \<le> ?r" "m = 0 \<Longrightarrow> ?r = 0" using taken(2,3) p(9) by auto
    have x: "b = take m b @ drop m b" "length (take m b) = m" using m p(9) by simp_all
    have out: "written w = W @ P @ 255 # ?w @ of_nat k # r @ take m b"
      using taken(4) p(10) m(1) by (simp add: min_def)
    show ?thesis
    proof (cases "m < ?r")
      case True
      let ?p = "p\<lparr>inner_write := w, run_bytes_remaining := ?r - m\<rparr>"
      have turn: "write_turn pw b n p = (Ok (Inr (drop m b, n + length (take m b))), ?p)"
        using taken(1) st p(9) m True by (simp add: defs)
      have "packed_so_far W (I @ take m b) (drop m b) ?p"
        by (rule packed_so_far_run [where J = J and P = P and r = "r @ take m b" and k = k])
          (use p st out x True in simp_all)
      from turn_writes_on [OF this x(1)] show ?thesis
        unfolding turn using m(2) True x(2) by force
    next
      case False
      then have mr: "m = ?r" using m(1) by simp
      let ?p = "p\<lparr>inner_write := w, word_pos := 0, write_stage := WriteStart\<rparr>"
      have turn: "write_turn pw b n p = (Ok (Inr (drop m b, n + length (take m b))), ?p)"
        using taken(1) st p(9) mr by (simp add: defs)
      have len: "length (r @ take m b) = k * 8" using p(8,9) mr by simp
      have "packing (P @ 255 # ?w @ of_nat k # r @ take m b) (J @ ?w @ r @ take m b)"
        by (rule packing_append [OF p(4) packing_run [OF p(1,6) len p(7)]])
      moreover have "8 dvd length (J @ ?w @ r @ take m b)" using p(1,3) len by simp
      ultimately have "packed_so_far W (I @ take m b) (drop m b) ?p"
        using p(1,2,5) out by (auto simp: packed_so_far_def intro!: exI [of _ "J @ ?w @ r @ take m b"])
      from turn_writes_on [OF this x(1)] show ?thesis
        unfolding turn using st by (simp add: write_order_def)
    qed
  qed
qed

lemma write_turn_ok:
  "packed_so_far W I b p \<Longrightarrow> short_runs b \<Longrightarrow> turn_writes W I b n p (write_turn pw b n p)"
  using write_start_ok write_word_ok write_count_ok write_run_ok by (cases "write_stage p") blast+

section \<open>Polls, writes and the end of a stream\<close>

lemma write_order: "wf write_order" "trans write_order"
  by (auto simp: write_order_def trans_def)

text \<open>What a poll of the packed writer does.\<close>

definition poll_packs :: "u8 list \<Rightarrow> u8 list \<Rightarrow> u8 list \<Rightarrow> nat \<Rightarrow> 'w packed_writer \<Rightarrow> (nat poll outcome \<times> 'w packed_writer) option \<Rightarrow> bool" where
  "poll_packs W I b n p res \<longleftrightarrow> (case res of
     Some (Ok Pending, p') \<Rightarrow> n = 0 \<and> packed_so_far W I b p' \<and> (p', p) \<in> write_order
   | Some (Ok (Ready m), p') \<Rightarrow> (\<exists>x b'. b = x @ b' \<and> m = n + length x \<and> packed_so_far W (I @ x) b' p' \<and> (m = 0 \<longrightarrow> b = [] \<and> write_stage p' = WriteStart))
   | _ \<Rightarrow> False)"

lemma poll_write_aux_packs:
  "packed_so_far W I b p \<Longrightarrow> short_runs b \<Longrightarrow> poll_packs W I b n p (poll_write_aux pw b n p)"
proof (induction "(b, p)" arbitrary: b p I n rule: wf_induct_rule [OF wf_lex_prod [OF wf_measure [of length] write_order(1)]])
  case (1 b p)
  note turn = write_turn_ok [OF 1(2,3), of n]
  obtain res q where r: "write_turn pw b n p = (res, q)" by fastforce
  note turn = turn [unfolded r turn_writes_def]
  consider (pending) "res = Ok (Inl Pending)" | (ready) m where "res = Ok (Inl (Ready m))"
    | (on) b' n' where "res = Ok (Inr (b', n'))"
    using turn by (cases res) (auto split: sum.splits poll.splits)
  then show ?case
  proof cases
    case pending
    then have "poll_write_aux pw b n p = Some (Ok Pending, q)" using r by (simp add: poll_write_aux.simps [of pw b n p])
    then show ?thesis using turn pending by (simp add: poll_packs_def)
  next
    case ready
    then have "poll_write_aux pw b n p = Some (Ok (Ready m), q)" using r by (simp add: poll_write_aux.simps [of pw b n p])
    then show ?thesis using turn ready by (auto simp: poll_packs_def)
  next
    case on
    then obtain x where x: "b = x @ b'" "n' = n + length x" "packed_so_far W (I @ x) b' q" "x = [] \<Longrightarrow> (q, p) \<in> write_order"
      using turn by auto
    have less: "((b', q), (b, p)) \<in> measure length <*lex*> write_order" using x(1,4) by (cases x) auto
    have short: "short_runs b'" using short_runs_drop [OF 1(3), of "length x"] x(1) by simp
    have packs: "poll_packs W (I @ x) b' n' q (poll_write_aux pw b' n' q)" by (rule 1(1) [OF less x(3) short])
    have eq: "poll_write_aux pw b n p = poll_write_aux pw b' n' q"
      using r on by (simp add: poll_write_aux.simps [of pw b n p])
    from packs consider (pending) q' where "poll_write_aux pw b' n' q = Some (Ok Pending, q')" "n' = 0"
        "packed_so_far W (I @ x) b' q'" "(q', q) \<in> write_order"
      | (ready) m y b'' q' where "poll_write_aux pw b' n' q = Some (Ok (Ready m), q')" "b' = y @ b''" "m = n' + length y"
        "packed_so_far W ((I @ x) @ y) b'' q'" "m = 0 \<longrightarrow> b' = [] \<and> write_stage q' = WriteStart"
      by (auto simp: poll_packs_def split: option.splits prod.splits outcome.splits poll.splits)
    then show ?thesis
    proof cases
      case pending
      then have "x = []" "n = 0" "b = b'" using x(1,2) by simp_all
      moreover from this have "(q', p) \<in> write_order" using pending(4) x(4) transD [OF write_order(2)] by blast
      ultimately show ?thesis using pending(3) unfolding eq pending(1) poll_packs_def by simp
    next
      case ready
      then have "b = (x @ y) @ b''" "m = n + length (x @ y)" "packed_so_far W (I @ (x @ y)) b'' q'" "m = 0 \<longrightarrow> b = [] \<and> write_stage q' = WriteStart"
        using x(1,2) by auto
      then show ?thesis unfolding eq ready(1) poll_packs_def by (simp only: option.case prod.case outcome.case poll.case) blast
    qed
  qed
qed

lemma await_packs:
  assumes "packed_so_far W I b p" "short_runs b"
  obtains m p' where "await (packed_poll_write pw b) p = Some (Ok m, p')" "m \<le> length b" "m = 0 \<Longrightarrow> b = []"
    "packed_so_far W (I @ take m b) (drop m b) p'"
proof -
  have "\<exists>m p'. await (packed_poll_write pw b) p = Some (Ok m, p') \<and> m \<le> length b \<and> (m = 0 \<longrightarrow> b = []) \<and>
      packed_so_far W (I @ take m b) (drop m b) p'"
    using assms
  proof (induction p rule: wf_induct_rule [OF write_order(1)])
    case (1 p)
    have packs: "poll_packs W I b 0 p (packed_poll_write pw b p)"
      unfolding packed_poll_write_def by (rule poll_write_aux_packs [OF 1(2,3)])
    show ?case
    proof (cases "packed_poll_write pw b p")
      case None
      then show ?thesis using packs by (simp add: poll_packs_def)
    next
      case (Some rp)
      obtain r p' where rp: "rp = (r, p')" by fastforce
      show ?thesis
      proof (cases r)
        case (Ok a)
        show ?thesis
        proof (cases a)
          case Pending
          then have "packed_so_far W I b p'" "(p', p) \<in> write_order" using packs Some rp Ok by (simp_all add: poll_packs_def)
          with 1(1) [OF this(2,1) 1(3)] await_simps(1) [of "packed_poll_write pw b" p p'] Some rp Ok Pending
          show ?thesis by simp
        next
          case (Ready m)
          then obtain x b' where "b = x @ b'" "m = length x" "packed_so_far W (I @ x) b' p'" "m = 0 \<longrightarrow> b = [] \<and> write_stage p' = WriteStart"
            using packs Some rp Ok by (auto simp: poll_packs_def)
          then show ?thesis using await_simps(2) [of "packed_poll_write pw b" p m p'] Some rp Ok Ready by auto
        qed
      qed (use packs Some rp in \<open>simp_all add: poll_packs_def\<close>)
    qed
  qed
  then obtain m p' where "await (packed_poll_write pw b) p = Some (Ok m, p')" "m \<le> length b" "m = 0 \<longrightarrow> b = []"
    "packed_so_far W (I @ take m b) (drop m b) p'" by blast
  then show ?thesis by (intro that) simp_all
qed

text \<open>When all that was offered is consumed, anything may be offered next.\<close>

lemma packed_so_far_next: "packed_so_far W I [] p \<Longrightarrow> packed_so_far W I b p"
  by (cases "write_stage p") (auto simp: packed_so_far_def Let_def)

lemma write_all_packs:
  "packed_so_far W I b p \<Longrightarrow> short_runs b \<Longrightarrow>
   \<exists>p'. await_write_all (packed_poll_write pw) b p = Some (Ok (), p') \<and> packed_so_far W (I @ b) [] p'"
proof (induction b arbitrary: I p rule: length_induct)
  case (1 b)
  show ?case
  proof (cases "b = []")
    case True
    then show ?thesis using 1(2) by (simp add: await_write_all.simps [of _ "[]"] run_def ret_def)
  next
    case False
    obtain m q where m: "await (packed_poll_write pw b) p = Some (Ok m, q)" "m \<le> length b" "m = 0 \<Longrightarrow> b = []"
      "packed_so_far W (I @ take m b) (drop m b) q" using await_packs [OF 1(2,3)] by blast
    have "0 < m" "0 < length b" using m(3) False by (cases m, auto)
    then have "length (drop m b) < length b" by simp
    then obtain p' where "await_write_all (packed_poll_write pw) (drop m b) q = Some (Ok (), p')"
      "packed_so_far W ((I @ take m b) @ drop m b) [] p'"
      using 1(1) m(4) short_runs_drop [OF 1(3)] by blast
    then show ?thesis using m False by (subst await_write_all.simps) (auto simp: bindt_def)
  qed
qed

lemma packed_writer_new_ok: "packed_so_far (written w) [] b (packed_writer_new w)"
  by (rule packed_so_far_start [where J = "[]" and P = "[]"]) (simp_all add: packed_writer_new_def packing_Nil)

text \<open>Writes in a row.\<close>

lemma write_blocks_packs:
  "packed_so_far W I [] p \<Longrightarrow> \<forall>b \<in> set bs. short_runs b \<Longrightarrow>
   \<exists>p'. async_write_segments (await_write_all (packed_poll_write pw)) bs p = Some (Ok (), p') \<and>
     packed_so_far W (I @ concat bs) [] p'"
proof (induction bs arbitrary: I p)
  case Nil
  then show ?case by (simp add: run_def ret_def)
next
  case (Cons b bs)
  from Cons.prems obtain q where q: "await_write_all (packed_poll_write pw) b p = Some (Ok (), q)"
    "packed_so_far W (I @ b) [] q"
    using write_all_packs [OF packed_so_far_next [OF Cons.prems(1)], of b] by auto
  from Cons.IH [OF q(2)] Cons.prems(2) q(1) show ?case by (auto simp: bindt_def)
qed

text \<open>A writer that has nothing left to write by itself.\<close>

definition settled :: "'w packed_writer \<Rightarrow> bool" where
  "settled p \<longleftrightarrow> write_stage p = WriteStart \<or> write_stage p = WriteUncompressedRun"

lemma settled_packing:
  assumes "packed_so_far W I [] p" "settled p" "8 dvd length I"
  shows "\<exists>P. written (inner_write p) = W @ P \<and> packing P I"
proof (cases "write_stage p")
  case WriteStart
  then obtain J P where p: "8 dvd length J" "packing P J" "word_pos p < 8" "I = J @ take (word_pos p) (word_buf p)"
    "written (inner_write p) = W @ P" "length (word_buf p) = 8"
    using assms(1) by (auto simp: packed_so_far_def Let_def)
  then have "8 dvd word_pos p" using assms(3) by (simp add: dvd_add_right_iff)
  then have "word_pos p = 0" using p(3) by (auto elim: dvdE)
  then show ?thesis using p by auto
next
  case WriteUncompressedRun
  then obtain J P r k where p: "packing P J" "I = J @ word_buf p @ r" "tag_byte (word_buf p) = 255" "k \<le> 255"
    "length r = k * 8" "written (inner_write p) = W @ P @ 255 # word_buf p @ of_nat k # r" "length (word_buf p) = 8"
    using assms(1) by (auto simp: packed_so_far_def Let_def)
  then show ?thesis using packing_append [OF p(1) packing_run [OF p(7,3,5,4)]] by auto
qed (use assms(2) in \<open>simp_all add: settled_def\<close>)

lemma unsettled_poll:
  assumes "packed_so_far W I [] p" "write_stage p = WriteWord \<or> write_stage p = WriteRunWordCount"
  obtains (pending) p' where "packed_poll_write pw [] p = Some (Ok Pending, p')" "packed_so_far W I [] p'" "(p', p) \<in> write_order"
  | (ready) p' where "packed_poll_write pw [] p = Some (Ok (Ready 0), p')" "packed_so_far W I [] p'" "write_stage p' = WriteStart"
proof -
  have "poll_packs W I [] 0 p (packed_poll_write pw [] p)"
    unfolding packed_poll_write_def by (rule poll_write_aux_packs [OF assms(1)]) (simp add: short_runs_def)
  then show ?thesis using that by (auto simp: poll_packs_def split: option.splits prod.splits outcome.splits poll.splits)
qed

lemma finish_packs:
  assumes "packed_so_far W I [] p"
  shows "\<exists>p'. await (finish_pending_writes pw) p = Some (Ok (), p') \<and> packed_so_far W I [] p' \<and> settled p'"
  using assms
proof (induction p rule: wf_induct_rule [OF write_order(1)])
  case (1 p)
  show ?case
  proof (cases "write_stage p = WriteWord \<or> write_stage p = WriteRunWordCount")
    case False
    then have "finish_pending_writes pw p = Some (Ok (Ready ()), p)" by (simp add: finish_pending_writes.simps [of pw p])
    moreover have "settled p" using False by (cases "write_stage p") (simp_all add: settled_def)
    ultimately show ?thesis using await_simps(2) [of "finish_pending_writes pw" p "()" p] 1(2) by auto
  next
    case True
    from 1(2) True show ?thesis
    proof (cases rule: unsettled_poll)
      case (pending q)
      then have "finish_pending_writes pw p = Some (Ok Pending, q)" using True by (simp add: finish_pending_writes.simps [of pw p])
      with 1(1) [OF pending(3,2)] await_simps(1) [of "finish_pending_writes pw" p q] show ?thesis by simp
    next
      case (ready q)
      then have "finish_pending_writes pw p = Some (Ok (Ready ()), q)"
        using True by (simp add: finish_pending_writes.simps [of pw p] finish_pending_writes.simps [of pw q])
      then show ?thesis using await_simps(2) [of "finish_pending_writes pw" p "()" q] ready by (auto simp: settled_def)
    qed
  qed
qed

text \<open>A whole message.\<close>

lemma write_message_packs:
  assumes "segs \<noteq> []" "length segs < 2 ^ 32" "\<forall>s \<in> set segs. length s mod 8 = 0"
    and short: "\<forall>b \<in> set (message_blocks segs). short_runs b"
  shows "\<exists>p P. async_packed_write_message pw (await_write_all (packed_poll_write pw)) segs (packed_writer_new w) = Some (Ok (), p) \<and>
    written (inner_write p) = written w @ P \<and> packing P (message_bytes segs)"
proof -
  obtain q where q: "async_write_segments (await_write_all (packed_poll_write pw)) (message_blocks segs) (packed_writer_new w) = Some (Ok (), q)"
    "packed_so_far (written w) ([] @ concat (message_blocks segs)) [] q"
    using write_blocks_packs [OF packed_writer_new_ok short] by blast
  obtain p where p: "await (finish_pending_writes pw) q = Some (Ok (), p)"
    "packed_so_far (written w) ([] @ concat (message_blocks segs)) [] p" "settled p"
    using finish_packs [OF q(2)] by blast
  have "8 dvd length (concat bs)" if "\<forall>b \<in> set bs. length b mod 8 = 0" for bs :: "u8 list list"
    using that by (induction bs) (auto simp: mod_eq_0_iff_dvd)
  then have "8 dvd length ([] @ concat (message_blocks segs))"
    using message_blocks_aligned [OF assms(1,3)] by simp
  from settled_packing [OF p(2,3) this] show ?thesis
    using q(1) p(1) by (simp add: async_packed_write_message_def async_write_message_blocks [OF assms(1,2)] bindt_def
        concat_message_blocks [OF assms(1)])
qed

end

section \<open>Properties\<close>

text \<open>The container that holds given segments.\<close>

lemma owned_of_segments:
  assumes "sendable options segs"
  defines "owned \<equiv> \<lparr>os_segment_indices = segment_ranges 0 (map (\<lambda>s. length s div 8) segs), owned_space = concat segs\<rparr>"
  shows "owned_len owned = Ok (length segs)"
    "owned_get_segment owned i = Ok (if unat i < length segs then Some (segs ! unat i) else None)"
proof -
  note ns = sendable_lengths [OF assms(1)]
  have ok: "ranges_ok (os_segment_indices owned) 0 (owned_space owned)"
    using segment_ranges_ok [of "map (\<lambda>s. length s div 8) segs" 0 "concat segs"] ns by (simp add: owned_def)
  have cut: "cut_at (os_segment_indices owned) 0 (owned_space owned) = segs"
    using cut_at_segment_ranges [of segs "[]" 0 "[]" "[]"] assms(1) by (simp add: sendable_def owned_def)
  show "owned_len owned = Ok (length segs)"
    "owned_get_segment owned i = Ok (if unat i < length segs then Some (segs ! unat i) else None)"
    using owned_segs.len [OF ok] owned_segs.get [OF ok, of i] unfolding cut by simp_all
qed

text \<open>Reading the packed bytes of a message gives its segments.\<close>

lemma read_packed_message:
  assumes "sendable options segs" "packing P (message_bytes segs)" "script_content s = P @ rest"
    and "snd (unpack_stream rest) = None"
  shows "\<exists>p. async_read_message (await_read (packed_poll_read script_read)) (await_read_exact (packed_poll_read script_read)) options
      (packed_reader_new s) =
    Some (Ok \<lparr>os_segment_indices = segment_ranges 0 (map (\<lambda>s. length s div 8) segs), owned_space = concat segs\<rparr>, p) \<and>
    scripted_packed.packed_words.stands p (fst (unpack_stream rest))"
proof -
  let ?cs = "message_bytes segs @ fst (unpack_stream rest)"
  note ns = sendable_lengths [OF assms(1)]
  have "unpack_stream (script_content s) = before (message_bytes segs) (unpack_stream rest)"
    using assms(2,3) by (simp add: packing_def)
  then have "scripted_packed.packed_words.stands (packed_reader_new s) ?cs"
    using scripted_packed.packed_reader_new_ok [of s, OF TrueI] assms(4)
    by (simp add: scripted_packed.packed_words.stands_def)
  moreover have "read_message slice_read options ?cs =
      (Ok \<lparr>os_segment_indices = segment_ranges 0 (map (\<lambda>s. length s div 8) segs), owned_space = concat segs\<rparr>,
       fst (unpack_stream rest))"
    using slice_stream.read_message_ok [OF ns(1-5) _ ns(6), of ?cs "fst (unpack_stream rest)"]
    by (auto simp: message_bytes_def)
  ultimately show ?thesis
    using scripted_packed.packed_words.same_read_message [of options]
    unfolding scripted_packed.packed_words.same_def by fastforce
qed

text \<open>C25: Messages round-trip through the asynchronous packed format: what \<open>write_message\<close> writes,
  through a writer that takes as little at a time and waits as often as it likes, is read back as the
  same segments by \<open>read_message\<close>, from a stream that delivers it in any pieces with any waits. Both
  tasks complete. The segments must not have runs of more than 255 words.\<close>

theorem async_packed_round_trip:
  assumes "sendable options segs" "\<forall>b \<in> set (message_blocks segs). short_runs b"
  shows "\<exists>p. async_packed_write_message script_write (await_write_all (packed_poll_write script_write)) segs
      (packed_writer_new ([], waits)) = Some (Ok (), p) \<and>
    (\<forall>s. script_content s = fst (inner_write p) \<longrightarrow>
      (\<exists>owned r. async_read_message (await_read (packed_poll_read script_read))
          (await_read_exact (packed_poll_read script_read)) options (packed_reader_new s) = Some (Ok owned, r) \<and>
        owned_len owned = Ok (length segs) \<and>
        (\<forall>i. owned_get_segment owned i = Ok (if unat i < length segs then Some (segs ! unat i) else None))))"
proof -
  note ns = sendable_lengths [OF assms(1)]
  have al: "\<forall>s \<in> set segs. length s mod 8 = 0" using assms(1) by (simp add: sendable_def)
  from ns(1) obtain p P where p: "async_packed_write_message script_write (await_write_all (packed_poll_write script_write)) segs
      (packed_writer_new ([], waits)) = Some (Ok (), p)" "fst (inner_write p) = P" "packing P (message_bytes segs)"
    using scripted_sink.write_message_packs [OF _ ns(7) al assms(2), of "([], waits)"] by auto
  show ?thesis
    using p(1) read_packed_message [OF assms(1) p(3), of _ "[]"] owned_of_segments [OF assms(1)] by (fastforce simp: p(2))
qed

lemma short_message_blocks:
  assumes "sendable options segs" "\<forall>s \<in> set segs. short_runs s"
  shows "\<forall>b \<in> set (message_blocks segs). short_runs b"
proof -
  have words: "length (concat (map seg_words ss)) = 4 * length ss" for ss
    by (induction ss) (simp_all add: seg_words_le32)
  have "length segs < 512" using sendable_lengths(2) [OF assms(1)] by simp
  then have "\<forall>b \<in> set (table_blocks segs). length b < 2048"
    by (auto simp: table_blocks_def words seg_words_le32)
  then show ?thesis using assms(2) short_runs_length by (auto simp: message_blocks_def)
qed

theorem async_packed_round_trip_witness:
  "\<exists>p. async_packed_write_message script_write (await_write_all (packed_poll_write script_write)) [[0, 0, 12, 0, 0, 34, 0, 0]]
      (packed_writer_new ([], [None, Some 0, None])) = Some (Ok (), p) \<and>
    (\<exists>owned r. async_read_message (await_read (packed_poll_read script_read))
          (await_read_exact (packed_poll_read script_read)) DEFAULT_READER_OPTIONS
          (packed_reader_new [None, Some (fst (inner_write p)), None]) = Some (Ok owned, r) \<and>
        owned_get_segment owned 0 = Ok (Some [0, 0, 12, 0, 0, 34, 0, 0]))"
proof -
  have s: "sendable DEFAULT_READER_OPTIONS [[0, 0, 12, 0, 0, 34, 0, 0]]"
    by (simp add: sendable_def SEGMENTS_COUNT_LIMIT_def DEFAULT_READER_OPTIONS_def)
  have "\<forall>b \<in> set (message_blocks [[0, 0, 12, 0, 0, 34, 0, 0]]). short_runs b"
    by (rule short_message_blocks [OF s]) (simp add: short_runs_length)
  from async_packed_round_trip [OF s this, of "[None, Some 0, None]"] obtain p where
    p: "async_packed_write_message script_write (await_write_all (packed_poll_write script_write)) [[0, 0, 12, 0, 0, 34, 0, 0]]
      (packed_writer_new ([], [None, Some 0, None])) = Some (Ok (), p)"
    and read: "\<And>s. script_content s = fst (inner_write p) \<Longrightarrow>
      \<exists>owned r. async_read_message (await_read (packed_poll_read script_read))
          (await_read_exact (packed_poll_read script_read)) DEFAULT_READER_OPTIONS (packed_reader_new s) = Some (Ok owned, r) \<and>
        (\<forall>i. owned_get_segment owned i = Ok (if unat i < 1 then Some ([[0, 0, 12, 0, 0, 34, 0, 0]] ! unat i) else None))"
    by fastforce
  show ?thesis using p read [of "[None, Some (fst (inner_write p)), None]"] by fastforce
qed

section \<open>Long runs\<close>

text \<open>C26: A run of more than 255 words is lost: when the first word of a write is zero, the whole run of
  zero words after it is consumed, but the byte that counts it is taken modulo 256. Of \<open>k + 1\<close> zero words
  only \<open>k mod 256 + 1\<close> are read back.\<close>

theorem long_runs_are_lost:
  "\<exists>p. await_write_all (packed_poll_write script_write) (replicate ((k + 1) * 8) 0) (packed_writer_new ([], [])) = Some (Ok (), p) \<and>
    fst (inner_write p) = [0, of_nat k] \<and>
    unpack_stream (fst (inner_write p)) = (replicate ((k mod 256 + 1) * 8) 0, None)"
proof -
  let ?n = "(k + 1) * 8"
  let ?b = "replicate ?n (0 :: u8)" and ?c = "replicate (k * 8) (0 :: u8)"
  let ?p0 = "packed_writer_new ([], []) :: (u8 list \<times> nat option list) packed_writer"
  let ?p1 = "?p0\<lparr>packed_buf_size := 1, write_stage := WriteWord\<rparr>"
  let ?p2 = "?p1\<lparr>inner_write := ([0], []), word_pos := 1, run_bytes_remaining := k * 8, write_stage := WriteRunWordCount\<rparr>"
  let ?p3 = "?p2\<lparr>inner_write := ([0, of_nat k], []), word_pos := 0, write_stage := WriteStart\<rparr>"
  have buf: "pack_buf (replicate 8 0) (replicate 9 0) = (replicate 9 0, 1)" by code_simp
  have word: "write_at 0 (replicate 8 0) (replicate 8 (0 :: u8)) = replicate 8 0" by code_simp
  have b: "min 8 ?n = 8" "take 8 ?b = replicate 8 0" "drop 8 ?b = ?c" by simp_all
  note t1 = write_turn_def write_start_turn_def run_simps packed_writer_new_def
  have "write_turn script_write ?b 0 ?p0 = (Ok (Inr (?c, 8)), ?p1)"
    using b buf word by (simp add: t1 del: replicate.simps)
  moreover have "words_in_zero_run ?c = k" by (simp add: words_in_zero_run_def)
  then have "write_turn script_write ?c 8 ?p1 = (Ok (Inr (?c, 8)), ?p2)"
    by (simp add: write_turn_def write_word_turn_def poll_inner_write_def run_simps packed_writer_new_def take_at_def)
  moreover have "write_turn script_write ?c 8 ?p2 = (Ok (Inr ([], 8 + k * 8)), ?p3)"
    by (simp add: write_turn_def write_count_turn_def poll_inner_write_def run_simps packed_writer_new_def)
  moreover have "write_turn script_write [] (8 + k * 8) ?p3 = (Ok (Inl (Ready (8 + k * 8))), ?p3)"
    by (simp add: t1)
  ultimately have "packed_poll_write script_write ?b ?p0 = Some (Ok (Ready ?n), ?p3)"
    by (simp add: packed_poll_write_def poll_write_aux.simps)
  then have "await_write_all (packed_poll_write script_write) ?b ?p0 = Some (Ok (), ?p3)"
    using await_simps(2) [of "packed_poll_write script_write ?b" ?p0 ?n ?p3]
    by (subst await_write_all.simps) (simp add: bindt_def await_write_all.simps [of _ "[]"] run_def ret_def)
  moreover have "unpack_stream [0, of_nat k] = (replicate ((k mod 256 + 1) * 8) 0, None)"
    using unpack_stream_zeroes [of "of_nat k" "[]"] by (simp add: before_def unat_of_nat)
  ultimately show ?thesis by auto
qed

end
