(* ===== verification/Read_Stream.thy ===== *)
theory Read_Stream
  imports Write_Queue Async_Pack
begin

text \<open>
  \<^verbatim>\<open>capnp-futures/src/read_stream.rs\<close>: \<open>ReadStream\<close>, the messages that arrive on a stream as a
  stream of items; and \<open>receive_incoming_message\<close> of \<^verbatim>\<open>capnp-rpc/src/twoparty.rs\<close>, by which a
  connection reads its messages.

  Shown: what the write queue of one end puts on a stream, the other end reads back: the same
  messages, in order, and then the end of the stream.
\<close>

section \<open>ReadStream\<close>

text \<open>The future of the next message owns the source. After an error it is not replaced by a new one:
  it has completed, and polling it again panics.\<close>

record 'r read_stream =
  stream_source :: 'r
  read_completed :: bool

definition read_stream_new :: "'r \<Rightarrow> 'r read_stream" where
  "read_stream_new r = \<lparr>stream_source = r, read_completed = False\<rparr>"

text \<open>\<open>poll_next\<close>, polled until it is ready. The end of the stream is \<open>Ok None\<close>.\<close>

definition stream_next ::
  "(nat \<Rightarrow> ('r, u8 list) task) \<Rightarrow> (nat \<Rightarrow> ('r, u8 list) task) \<Rightarrow> reader_options \<Rightarrow>
   ('r read_stream, owned_segments option) task" where
  "stream_next rd rdx options s =
     (if read_completed s then Some (Panic, s)
      else case async_try_read_message rd rdx options (stream_source s) of
        None \<Rightarrow> None
      | Some (Ok m, r) \<Rightarrow> Some (Ok m, s\<lparr>stream_source := r\<rparr>)
      | Some (out, r) \<Rightarrow> Some (out, s\<lparr>stream_source := r, read_completed := True\<rparr>))"

text \<open>So many items, one after the other.\<close>

primrec stream_items ::
  "(nat \<Rightarrow> ('r, u8 list) task) \<Rightarrow> (nat \<Rightarrow> ('r, u8 list) task) \<Rightarrow> reader_options \<Rightarrow> nat \<Rightarrow>
   ('r read_stream, owned_segments option list) task" where
  "stream_items rd rdx options 0 = run (ret [])"
| "stream_items rd rdx options (Suc n) =
     bindt (stream_next rd rdx options) (\<lambda>m. bindt (stream_items rd rdx options n) (\<lambda>ms. run (ret (m # ms))))"

section \<open>A connection\<close>

text \<open>The input of a \<open>Connection\<close>, which the future of a message borrows; it is not given back when
  reading fails.\<close>

record 'r connection_input =
  input_stream :: "'r option"

definition receive_incoming_message ::
  "(nat \<Rightarrow> ('r, u8 list) task) \<Rightarrow> (nat \<Rightarrow> ('r, u8 list) task) \<Rightarrow> reader_options \<Rightarrow>
   ('r connection_input, owned_segments option) task" where
  "receive_incoming_message rd rdx options c =
     (case input_stream c of
        None \<Rightarrow> Some (Err Failed, c)
      | Some r \<Rightarrow>
          (case async_try_read_message rd rdx options r of
             None \<Rightarrow> None
           | Some (Ok m, r') \<Rightarrow> Some (Ok m, c\<lparr>input_stream := Some r'\<rparr>)
           | Some (out, r') \<Rightarrow> Some (out, c\<lparr>input_stream := None\<rparr>)))"

text \<open>Both read the same messages, until there is an error.\<close>

lemma receive_is_next:
  "receive_incoming_message rd rdx options \<lparr>input_stream = Some (stream_source s)\<rparr> =
     map_option (\<lambda>(out, s'). (out, \<lparr>input_stream = if read_completed s' then None else Some (stream_source s')\<rparr>))
       (stream_next rd rdx options s)"
  if "\<not> read_completed s"
  using that by (auto simp: receive_incoming_message_def stream_next_def split: option.splits outcome.splits)

lemma receive_after_error:
  assumes "receive_incoming_message rd rdx options c = Some (Err e, c')"
  shows "receive_incoming_message rd rdx options c' = Some (Err Failed, c')"
  using assms by (auto simp: receive_incoming_message_def split: option.splits outcome.splits)

section \<open>Reading back what was written\<close>

abbreviation read_item :: "reader_options \<Rightarrow> (u8 list option list read_stream, owned_segments option) task" where
  "read_item \<equiv> stream_next (await_read script_read) (await_read_exact script_read)"

abbreviation read_items :: "reader_options \<Rightarrow> nat \<Rightarrow> (u8 list option list read_stream, owned_segments option list) task" where
  "read_items \<equiv> stream_items (await_read script_read) (await_read_exact script_read)"

definition owned_segments_of :: "u8 list list \<Rightarrow> owned_segments" where
  "owned_segments_of segs = \<lparr>os_segment_indices = segment_ranges 0 (map (\<lambda>s. length s div 8) segs), owned_space = concat segs\<rparr>"

lemma slice_try_read:
  assumes "sendable options segs"
  shows "try_read_message slice_read options (message_bytes segs @ rest) = (Ok (Some (owned_segments_of segs)), rest)"
proof -
  note ns = sendable_lengths [OF assms(1)]
  have "read_message slice_read options (message_bytes segs @ rest) = (Ok (owned_segments_of segs), rest)"
    using slice_stream.read_message_ok [OF ns(1-5) _ ns(6), of "message_bytes segs @ rest" rest]
    by (auto simp: message_bytes_def owned_segments_of_def)
  then show ?thesis
    by (auto simp: read_message_def try_read_message_def run_simps split: prod.splits outcome.splits option.splits)
qed

lemma slice_try_read_end: "try_read_message slice_read options [] = (Ok None, [])"
  by (simp add: try_read_message_def read_segment_table_def slice_read_def run_simps)

lemma item_read:
  assumes "sendable options segs" "script_content (stream_source s) = message_bytes segs @ rest" "\<not> read_completed s"
  shows "\<exists>s'. read_item options s = Some (Ok (Some (owned_segments_of segs)), s') \<and> script_content (stream_source s') = rest \<and>
    \<not> read_completed s'"
proof -
  have "scripted_packed.plain_words.stands (stream_source s) (message_bytes segs @ rest)"
    using assms(2) by (simp add: scripted_packed.plain_words.stands_def)
  with scripted_packed.plain_words.same_try_read_message [of options] obtain r where
    "async_try_read_message (await_read script_read) (await_read_exact script_read) options (stream_source s) =
      Some (Ok (Some (owned_segments_of segs)), r)" "scripted_packed.plain_words.stands r rest"
    unfolding scripted_packed.plain_words.same_def using slice_try_read [OF assms(1), of rest] by fastforce
  then show ?thesis using assms(3) by (auto simp: stream_next_def scripted_packed.plain_words.stands_def)
qed

lemma end_read:
  assumes "script_content (stream_source s) = []" "\<not> read_completed s"
  shows "\<exists>s'. read_item options s = Some (Ok None, s')"
proof -
  have "scripted_packed.plain_words.stands (stream_source s) []"
    using assms(1) by (simp add: scripted_packed.plain_words.stands_def)
  with scripted_packed.plain_words.same_try_read_message [of options] show ?thesis
    unfolding scripted_packed.plain_words.same_def using slice_try_read_end [of options] assms(2)
    by (fastforce simp: stream_next_def)
qed

lemma items_read:
  assumes "\<forall>m \<in> set ms. sendable options m" "script_content (stream_source s) = concat (map message_bytes ms)" "\<not> read_completed s"
  shows "\<exists>s'. read_items options (Suc (length ms)) s = Some (Ok (map (Some \<circ> owned_segments_of) ms @ [None]), s')"
  using assms
proof (induction ms arbitrary: s)
  case Nil
  then show ?case using end_read [of s options] by (auto simp: bindt_def run_def ret_def)
next
  case (Cons m ms)
  obtain s1 where s1: "read_item options s = Some (Ok (Some (owned_segments_of m)), s1)"
    "script_content (stream_source s1) = concat (map message_bytes ms)" "\<not> read_completed s1"
    using item_read [of options m s] Cons.prems by auto
  obtain s2 where "read_items options (Suc (length ms)) s1 = Some (Ok (map (Some \<circ> owned_segments_of) ms @ [None]), s2)"
    using Cons.IH [OF _ s1(2,3)] Cons.prems(1) by auto
  then show ?case
    using s1(1) by (simp add: bindt_def [of "read_item options"] del: stream_items.simps(2))
      (simp add: stream_items.simps(2) [of _ _ _ "Suc _"] bindt_def run_def ret_def)
qed

lemma sends_in: "(m, i) \<in> set (sends k ops) \<Longrightarrow> OpSend m \<in> set ops"
  by (induction k ops rule: sends.induct) auto

text \<open>C11: What one end sends is what the other end receives: the messages handed to a write queue, by
  callers that may send between any steps of its task, come out of the \<open>ReadStream\<close> at the other end of
  the stream with the same segments, in the same order, and then the stream ends; however little the
  stream takes or delivers at a time.\<close>

theorem queue_to_stream_round_trip:
  assumes "\<forall>m. OpSend m \<in> set ops \<longrightarrow> sendable options m" "polite ops" "length ops \<le> n"
    and "queue_run (ops @ OpWritten # concat (replicate n [OpNext, OpWritten])) (write_queue_new ([], waits)) = Some q"
    and "script_content s = fst (queue_writer q)"
  shows "\<exists>items s'. read_items options (Suc (length (sends 0 ops))) (read_stream_new s) = Some (Ok (map Some items @ [None]), s') \<and>
    list_all2 (\<lambda>owned (m, _). owned_len owned = Ok (length m) \<and>
      (\<forall>i. owned_get_segment owned i = Ok (if unat i < length m then Some (m ! unat i) else None))) items (sends 0 ops)"
proof -
  let ?ms = "map fst (sends 0 ops)"
  have ok: "\<forall>m \<in> set ?ms. sendable options m" using assms(1) sends_in by fastforce
  have "\<forall>m. OpSend m \<in> set ops \<longrightarrow> writable m"
    using assms(1) sendable_lengths(1,7) by (fastforce simp: writable_def)
  from queue_delivers [OF this assms(2,3), of waits] assms(4,5)
  have "script_content s = concat (map message_bytes ?ms)" by simp
  then obtain s' where s': "read_items options (Suc (length ?ms)) (read_stream_new s) =
      Some (Ok (map (Some \<circ> owned_segments_of) ?ms @ [None]), s')"
    using items_read [OF ok, of "read_stream_new s"] by (auto simp: read_stream_new_def simp del: stream_items.simps)
  have "list_all2 (\<lambda>owned (m, _). owned_len owned = Ok (length m) \<and>
      (\<forall>i. owned_get_segment owned i = Ok (if unat i < length m then Some (m ! unat i) else None)))
    (map owned_segments_of ?ms) (sends 0 ops)"
    using ok owned_of_segments by (fastforce simp: list_all2_map1 list_all2_same owned_segments_of_def)
  then show ?thesis using s' by (intro exI [of _ "map owned_segments_of ?ms"]) (auto simp del: stream_items.simps)
qed

theorem queue_to_stream_round_trip_witness:
  "\<exists>q items s'. queue_run ([OpSend [[1, 0, 0, 0, 0, 0, 0, 0]], OpNext, OpSend [[]]] @ OpWritten # concat (replicate 3 [OpNext, OpWritten]))
      (write_queue_new ([], [None, Some 4])) = Some q \<and>
    read_items DEFAULT_READER_OPTIONS 3 (read_stream_new [Some (take 3 (fst (queue_writer q))), None,
        Some (drop 3 (fst (queue_writer q)))]) = Some (Ok (map Some items @ [None]), s') \<and>
    list_all2 (\<lambda>owned (m, _). owned_len owned = Ok (length m) \<and>
      (\<forall>i. owned_get_segment owned i = Ok (if unat i < length m then Some (m ! unat i) else None)))
      items [([[1, 0, 0, 0, 0, 0, 0, 0]], 0), ([[]], Suc 0)]"
proof -
  let ?ops = "[OpSend [[1, 0, 0, 0, 0, 0, 0, 0]], OpNext, OpSend [[]]] :: u8 list list queue_op list"
  have ops: "\<forall>m. OpSend m \<in> set ?ops \<longrightarrow> sendable DEFAULT_READER_OPTIONS m" "polite ?ops" "length ?ops \<le> 3"
    by (auto simp: sendable_def SEGMENTS_COUNT_LIMIT_def DEFAULT_READER_OPTIONS_def polite_def)
  have "\<forall>m. OpSend m \<in> set ?ops \<longrightarrow> writable m" by (auto simp: writable_def)
  from queue_delivers [OF this ops(2,3), of "[None, Some 4]"] obtain q where
    q: "queue_run (?ops @ OpWritten # concat (replicate 3 [OpNext, OpWritten])) (write_queue_new ([], [None, Some 4])) = Some q"
    by blast
  have sends: "sends 0 ?ops = [([[1, 0, 0, 0, 0, 0, 0, 0]], 0), ([[]], Suc 0)]" by simp
  have len: "Suc (length (sends 0 ?ops)) = 3" by simp
  have "script_content [Some (take 3 (fst (queue_writer q))), None, Some (drop 3 (fst (queue_writer q)))] = fst (queue_writer q)"
    by (simp add: script_content_def)
  from queue_to_stream_round_trip [OF ops q this, unfolded len, unfolded sends]
  show ?thesis using q by blast
qed

end
