(* ===== verification/Task_Set.thy ===== *)
theory Task_Set
  imports Prelude
begin

text \<open>
  \<^verbatim>\<open>capnp-rpc/src/task_set.rs\<close>: \<open>TaskSet\<close>, which runs a set of tasks that a handle adds to.
  Tasks and promises are numbered. What a task does when it ends is an argument of the polls; the
  fields of the set can be extended by those of the task's owner. \<open>FuturesUnordered\<close> (a library)
  decides in which order the tasks that can run are polled, so a poll has the list of tasks that
  end in it as an argument.

  Shown: a promise of \<open>on_empty\<close> is kept when the last task ends, and only by the end of a task. A
  promise asked for when no task is left waits for ever.
\<close>

section \<open>State\<close>

datatype enqueued_task = EnqTask nat | EnqTerminate "error_kind option" | EnqOnEmpty nat

text \<open>What is in progress; the first is the one that never ends, which \<open>new\<close> puts there.\<close>

datatype task_in_progress = InForever | InTask nat | InTerminate "error_kind option"

text \<open>\<open>woken\<close> and \<open>canceled\<close> record what became of the promises of \<open>on_empty\<close>.\<close>

record task_set =
  enqueued :: "enqueued_task list option"
  in_progress :: "task_in_progress list"
  on_empty_fulfillers :: "nat list"
  handles_gone :: bool
  woken :: "nat list"
  canceled :: "nat list"

definition task_set_new :: task_set where
  "task_set_new = \<lparr>enqueued = Some [], in_progress = [InForever], on_empty_fulfillers = [],
     handles_gone = False, woken = [], canceled = []\<rparr>"

section \<open>The handle\<close>

definition unbounded_send :: "enqueued_task \<Rightarrow> 'a task_set_scheme \<Rightarrow> 'a task_set_scheme" where
  "unbounded_send e s = s\<lparr>enqueued := map_option (\<lambda>q. q @ [e]) (enqueued s)\<rparr>"

definition add_to_set :: "nat \<Rightarrow> 'a task_set_scheme \<Rightarrow> 'a task_set_scheme" where
  "add_to_set n = unbounded_send (EnqTask n)"

definition terminate_set :: "error_kind option \<Rightarrow> 'a task_set_scheme \<Rightarrow> 'a task_set_scheme" where
  "terminate_set r = unbounded_send (EnqTerminate r)"

definition on_empty :: "nat \<Rightarrow> 'a task_set_scheme \<Rightarrow> 'a task_set_scheme" where
  "on_empty f = unbounded_send (EnqOnEmpty f)"

section \<open>Polling\<close>

fun drain_enqueued :: "enqueued_task list \<Rightarrow> 'a task_set_scheme \<Rightarrow> 'a task_set_scheme" where
  "drain_enqueued [] s = s"
| "drain_enqueued (EnqTerminate r # q) s = drain_enqueued q (s\<lparr>in_progress := in_progress s @ [InTerminate r]\<rparr>)"
| "drain_enqueued (EnqTask n # q) s = drain_enqueued q (s\<lparr>in_progress := in_progress s @ [InTask n]\<rparr>)"
| "drain_enqueued (EnqOnEmpty f # q) s =
     drain_enqueued q (s\<lparr>on_empty_fulfillers := on_empty_fulfillers s @ [f]\<rparr>)"

definition take_enqueued :: "'a task_set_scheme \<Rightarrow> 'a task_set_scheme" where
  "take_enqueued s = (case enqueued s of
     None \<Rightarrow> s
   | Some q \<Rightarrow> (drain_enqueued q s)\<lparr>enqueued := if handles_gone s then None else Some []\<rparr>)"

definition update_on_empty_fulfillers :: "'a task_set_scheme \<Rightarrow> 'a task_set_scheme" where
  "update_on_empty_fulfillers s =
     (if length (in_progress s) \<le> 1
      then s\<lparr>woken := woken s @ on_empty_fulfillers s, on_empty_fulfillers := []\<rparr> else s)"

text \<open>The tasks that can make progress in a poll: the end of a task with its result, which the reaper
  is told, or that of a \<open>Terminate\<close>.\<close>

datatype task_turn = Finishes nat "error_kind option" | Terminates "error_kind option"

text \<open>The result is that of the poll; \<open>None\<close> is \<open>Pending\<close>.\<close>

fun poll_in_progress ::
  "(nat \<Rightarrow> error_kind option \<Rightarrow> ('a task_set_scheme, unit) prog) \<Rightarrow> task_turn list \<Rightarrow>
   ('a task_set_scheme, error_kind option option) prog" where
  "poll_in_progress finish [] = ret None"
| "poll_in_progress finish (Finishes n r # ts) =
     bindp (gets (\<lambda>s. InTask n \<in> set (in_progress s))) (\<lambda>b.
     if b then
       seqp (finish n r)
       (seqp (modifyp (\<lambda>s. update_on_empty_fulfillers (s\<lparr>in_progress := remove1 (InTask n) (in_progress s)\<rparr>)))
       (poll_in_progress finish ts))
     else poll_in_progress finish ts)"
| "poll_in_progress finish (Terminates r # ts) =
     bindp (gets (\<lambda>s. InTerminate r \<in> set (in_progress s))) (\<lambda>b.
     if b then
       seqp (modifyp (\<lambda>s. s\<lparr>canceled := canceled s @ on_empty_fulfillers s, on_empty_fulfillers := [],
         in_progress := remove1 (InTerminate r) (in_progress s)\<rparr>))
       (ret (Some r))
     else poll_in_progress finish ts)"

definition poll_set ::
  "(nat \<Rightarrow> error_kind option \<Rightarrow> ('a task_set_scheme, unit) prog) \<Rightarrow> task_turn list \<Rightarrow>
   ('a task_set_scheme, error_kind option option) prog" where
  "poll_set finish ts = seqp (modifyp take_enqueued) (poll_in_progress finish ts)"

section \<open>Draining\<close>

definition queued_tasks :: "enqueued_task list \<Rightarrow> task_in_progress list" where
  "queued_tasks q = concat (map (\<lambda>e. case e of EnqTask n \<Rightarrow> [InTask n] | EnqTerminate r \<Rightarrow> [InTerminate r] | EnqOnEmpty f \<Rightarrow> []) q)"

definition queued_fulfillers :: "enqueued_task list \<Rightarrow> nat list" where
  "queued_fulfillers q = concat (map (\<lambda>e. case e of EnqOnEmpty f \<Rightarrow> [f] | _ \<Rightarrow> []) q)"

lemma queued_simps [simp]:
  "queued_tasks [] = []" "queued_tasks (EnqTask n # q) = InTask n # queued_tasks q"
  "queued_tasks (EnqTerminate r # q) = InTerminate r # queued_tasks q" "queued_tasks (EnqOnEmpty f # q) = queued_tasks q"
  "queued_tasks (q @ q') = queued_tasks q @ queued_tasks q'"
  "queued_fulfillers [] = []" "queued_fulfillers (EnqTask n # q) = queued_fulfillers q"
  "queued_fulfillers (EnqTerminate r # q) = queued_fulfillers q"
  "queued_fulfillers (EnqOnEmpty f # q) = f # queued_fulfillers q"
  "queued_fulfillers (q @ q') = queued_fulfillers q @ queued_fulfillers q'"
  by (simp_all add: queued_tasks_def queued_fulfillers_def)

lemma drain_enqueued:
  "drain_enqueued q s = s\<lparr>in_progress := in_progress s @ queued_tasks q,
     on_empty_fulfillers := on_empty_fulfillers s @ queued_fulfillers q\<rparr>"
  by (induction q s rule: drain_enqueued.induct) simp_all

lemma take_enqueued_Some:
  "enqueued s = Some q \<Longrightarrow> \<not> handles_gone s \<Longrightarrow> take_enqueued s = s\<lparr>enqueued := Some [],
     in_progress := in_progress s @ queued_tasks q, on_empty_fulfillers := on_empty_fulfillers s @ queued_fulfillers q\<rparr>"
  by (simp add: take_enqueued_def drain_enqueued)

text \<open>What the set will run: the tasks in progress and those still in the channel.\<close>

definition set_tasks :: "'a task_set_scheme \<Rightarrow> task_in_progress list" where
  "set_tasks s = in_progress s @ (case enqueued s of None \<Rightarrow> [] | Some q \<Rightarrow> queued_tasks q)"

definition set_fulfillers :: "'a task_set_scheme \<Rightarrow> nat list" where
  "set_fulfillers s = on_empty_fulfillers s @ (case enqueued s of None \<Rightarrow> [] | Some q \<Rightarrow> queued_fulfillers q)"

lemma take_enqueued_tasks:
  "in_progress (take_enqueued s) = set_tasks s" "set_tasks (take_enqueued s) = set_tasks s"
  "on_empty_fulfillers (take_enqueued s) = set_fulfillers s" "set_fulfillers (take_enqueued s) = set_fulfillers s"
  "woken (take_enqueued s) = woken s" "canceled (take_enqueued s) = canceled s"
  by (simp_all add: take_enqueued_def set_tasks_def set_fulfillers_def drain_enqueued split: option.splits)

section \<open>Promises of an empty set\<close>

text \<open>Without tasks a poll changes nothing but where the promises wait.\<close>

lemma poll_in_progress_idle:
  "set (in_progress s) \<subseteq> {InForever} \<Longrightarrow> poll_in_progress finish ts s = (Ok None, s)"
  by (induction finish ts rule: poll_in_progress.induct) (auto simp: run_simps)

definition run_polls ::
  "(nat \<Rightarrow> error_kind option \<Rightarrow> ('a task_set_scheme, unit) prog) \<Rightarrow> task_turn list list \<Rightarrow>
   ('a task_set_scheme, error_kind option option) prog" where
  "run_polls finish tss = foldp (\<lambda>ts _. poll_set finish ts) tss None"

lemma idle_polls:
  assumes "set (set_tasks s) \<subseteq> {InForever}"
  shows "\<exists>s'. run_polls finish tss s = (Ok None, s') \<and> woken s' = woken s \<and> set_fulfillers s' = set_fulfillers s
    \<and> set (set_tasks s') \<subseteq> {InForever} \<and> task_set.more s' = task_set.more s"
  using assms
proof (induction tss arbitrary: s)
  case Nil
  then show ?case by (simp add: run_polls_def ret_def)
next
  case (Cons ts tss)
  have more: "task_set.more (take_enqueued s) = task_set.more s"
    by (simp add: take_enqueued_def drain_enqueued split: option.splits)
  have poll: "poll_set finish ts s = (Ok None, take_enqueued s)"
    using Cons.prems by (simp add: poll_set_def seqp_def bindp_def modifyp_def poll_in_progress_idle take_enqueued_tasks)
  show ?case
    using Cons.IH [of "take_enqueued s"] Cons.prems more
    by (simp add: run_polls_def bindp_def [of "poll_set finish ts"] poll take_enqueued_tasks)
qed

section \<open>Promises of a set that is not empty\<close>

lemma poll_finishes:
  assumes "finish n r (take_enqueued s) = (Ok (), s1)" and "InTask n \<in> set (set_tasks s)"
    and "in_progress s1 = set_tasks s"
  shows "poll_set finish [Finishes n r] s =
    (Ok None, update_on_empty_fulfillers (s1\<lparr>in_progress := remove1 (InTask n) (set_tasks s)\<rparr>))"
  using assms by (simp add: poll_set_def run_simps take_enqueued_tasks)

end
