(* ===== verification/Flow_Control.thy ===== *)
theory Flow_Control
  imports Task_Set "HOL-Library.Multiset" "HOL-Library.Code_Target_Nat"
begin

text \<open>
  \<^verbatim>\<open>capnp-rpc/src/flow_control.rs\<close>: \<open>FixedWindowFlowController\<close>, which lets a streaming caller
  send while less than a window of bytes waits for its acknowledgement. Every message is sent at once;
  what a full window delays is the promise that the caller waits for before it sends the next one.

  The record extends the task set that runs the futures of the acknowledgements. Promises are numbered,
  a task has the number of the promise of its message, and \<open>flow_answers\<close> records what promises are
  resolved to. The acknowledgements come in any order. Sizes are \<open>usize\<close> in the code, and a sum that
  overflows is a panic. Shown: while none does, the bytes in flight are exactly those of
  the tasks, a caller that waits for its promises stays within the window and two messages, nobody
  is blocked when everything is acknowledged; and who waits for that moment on a blocked stream
  waits for ever.
\<close>

section \<open>State\<close>

definition DEFAULT_WINDOW_SIZE :: nat where
  "DEFAULT_WINDOW_SIZE = 65536"

text \<open>\<open>State\<close>: the promises of the blocked sends, or the error.\<close>

datatype flow_state = FlowRunning "nat list" | FlowFailed error_kind

text \<open>A promise of \<open>wait_all_acked\<close> is resolved to another one, of \<open>on_empty\<close>.\<close>

datatype flow_answer = SendReady | SendFailed error_kind | AllAckedWhen nat

text \<open>\<open>ack_sizes\<close> are the tasks that wait for an acknowledgement, with the sizes they have captured.\<close>

record flow_controller = task_set +
  window_size :: nat
  bytes_in_flight :: nat
  max_message_size :: nat
  flow_state :: flow_state
  empty_fulfiller :: "nat option"
  ack_sizes :: "(nat \<times> nat) list"
  next_promise :: nat
  flow_answers :: "(nat \<times> flow_answer) list"

definition flow_controller_new :: "nat \<Rightarrow> flow_controller" where
  "flow_controller_new window = task_set.extend task_set_new \<lparr>window_size = window, bytes_in_flight = 0,
     max_message_size = 0, flow_state = FlowRunning [], empty_fulfiller = None, ack_sizes = [],
     next_promise = 0, flow_answers = []\<rparr>"

text \<open>The window is extended by the largest message, so that one larger than the window does not stop
  the flow until it is acknowledged.\<close>

definition has_room :: "flow_controller \<Rightarrow> bool" where
  "has_room c \<longleftrightarrow> bytes_in_flight c < window_size c + max_message_size c"

text \<open>The sum is one of \<open>usize\<close>: it overflows when the caller has chosen a very large window.\<close>

definition is_ready :: "(flow_controller, bool) prog" where
  "is_ready = bindp (gets (\<lambda>c. c)) (\<lambda>c.
     seqp (assertp (window_size c + max_message_size c < 2 ^ 64)) (ret (has_room c)))"

section \<open>Operations\<close>

definition answer_all :: "nat list \<Rightarrow> flow_answer \<Rightarrow> flow_controller \<Rightarrow> flow_controller" where
  "answer_all ps a c = c\<lparr>flow_answers := flow_answers c @ map (\<lambda>p. (p, a)) ps\<rparr>"

text \<open>\<open>send\<close> of a message of so many words. The result is the number of the promise, which may be
  resolved already. The sizes are \<open>usize\<close> too.\<close>

definition flow_send :: "nat \<Rightarrow> (flow_controller, nat) prog" where
  "flow_send size_in_words =
     (let bytes = size_in_words * 8 in
      seqp (assertp (bytes < 2 ^ 64))
      (bindp (gets next_promise) (\<lambda>p.
      seqp (modifyp (\<lambda>c. c\<lparr>max_message_size := max bytes (max_message_size c)\<rparr>))
      (bindp (gets bytes_in_flight) (\<lambda>n.
      seqp (assertp (n + bytes < 2 ^ 64))
      (seqp (modifyp (\<lambda>c. add_to_set p (c\<lparr>next_promise := p + 1, bytes_in_flight := n + bytes,
        ack_sizes := ack_sizes c @ [(p, bytes)]\<rparr>)))
      (bindp is_ready (\<lambda>ready.
       bindp (gets flow_state) (\<lambda>state.
       seqp (case state of
           FlowRunning blocked \<Rightarrow>
             if ready then modifyp (answer_all [p] SendReady)
             else modifyp (\<lambda>c. c\<lparr>flow_state := FlowRunning (blocked @ [p])\<rparr>)
         | FlowFailed e \<Rightarrow> modifyp (answer_all [p] (SendFailed e)))
       (ret p))))))))))"

text \<open>The rest of the task of a message whose acknowledgement has come. The fulfiller is given the
  promise of a time when no task is left.\<close>

definition fulfill_empty :: "flow_controller \<Rightarrow> flow_controller" where
  "fulfill_empty c = (case empty_fulfiller c of
     None \<Rightarrow> c
   | Some f \<Rightarrow> let g = next_promise c in
       answer_all [f] (AllAckedWhen g) (on_empty g (c\<lparr>empty_fulfiller := None, next_promise := g + 1\<rparr>)))"

definition release_blocked :: "bool \<Rightarrow> flow_controller \<Rightarrow> flow_controller" where
  "release_blocked ready c = (case flow_state c of
     FlowFailed e \<Rightarrow> c
   | FlowRunning blocked \<Rightarrow>
       let c = (if ready then answer_all blocked SendReady (c\<lparr>flow_state := FlowRunning []\<rparr>) else c) in
       if bytes_in_flight c = 0 then fulfill_empty c else c)"

definition task_acked :: "nat \<Rightarrow> (flow_controller, unit) prog" where
  "task_acked bytes = bindp (gets bytes_in_flight) (\<lambda>n.
     seqp (assertp (bytes \<le> n))
     (seqp (modifyp (\<lambda>c. c\<lparr>bytes_in_flight := n - bytes\<rparr>))
     (bindp is_ready (\<lambda>ready. modifyp (release_blocked ready)))))"

text \<open>\<open>Reaper::task_failed\<close>. The bytes of the message stay counted.\<close>

definition task_failed :: "error_kind \<Rightarrow> flow_controller \<Rightarrow> flow_controller" where
  "task_failed e c = (case flow_state c of
     FlowRunning blocked \<Rightarrow> answer_all blocked (SendFailed e) (c\<lparr>flow_state := FlowFailed e\<rparr>)
   | FlowFailed e' \<Rightarrow> c)"

text \<open>What the end of a task does: the future that \<open>send\<close> has added to the set, and then the reaper.\<close>

definition flow_finish :: "nat \<Rightarrow> error_kind option \<Rightarrow> (flow_controller, unit) prog" where
  "flow_finish n r = bindp (gets (\<lambda>c. map_of (ack_sizes c) n)) (\<lambda>t. case t of
     None \<Rightarrow> ret ()
   | Some bytes \<Rightarrow>
       seqp (modifyp (\<lambda>c. c\<lparr>ack_sizes := filter (\<lambda>t. fst t \<noteq> n) (ack_sizes c)\<rparr>))
       (case r of None \<Rightarrow> task_acked bytes | Some e \<Rightarrow> modifyp (task_failed e)))"

text \<open>\<open>wait_all_acked\<close>: the promise of a fulfiller, or that of \<open>on_empty\<close>. A fulfiller that is replaced
  cancels its promise.\<close>

definition wait_all_acked :: "(flow_controller, nat) prog" where
  "wait_all_acked = bindp (gets next_promise) (\<lambda>f.
     seqp (modifyp (\<lambda>c. let c = c\<lparr>next_promise := f + 1\<rparr> in
       case flow_state c of
         FlowRunning blocked \<Rightarrow>
           if blocked \<noteq> [] then
             (case empty_fulfiller c of None \<Rightarrow> c | Some f' \<Rightarrow> answer_all [f'] (SendFailed Failed) c)\<lparr>empty_fulfiller := Some f\<rparr>
           else on_empty f c
       | FlowFailed e \<Rightarrow> on_empty f c))
     (ret f))"

section \<open>Runs\<close>

datatype flow_op = FlowSend nat | FlowWait | FlowPoll "task_turn list"

fun flow_perform :: "flow_op \<Rightarrow> (flow_controller, unit) prog" where
  "flow_perform (FlowSend n) = seqp (flow_send n) (ret ())"
| "flow_perform FlowWait = seqp wait_all_acked (ret ())"
| "flow_perform (FlowPoll ts) = seqp (poll_set flow_finish ts) (ret ())"

definition flow_run :: "flow_op list \<Rightarrow> (flow_controller, unit) prog" where
  "flow_run ops = foldp (\<lambda>op _. flow_perform op) ops ()"

text \<open>A caller that waits for its promise before it sends again.\<close>

definition unblocked :: "flow_controller \<Rightarrow> bool" where
  "unblocked c \<longleftrightarrow> (case flow_state c of FlowRunning ps \<Rightarrow> ps = [] | FlowFailed e \<Rightarrow> True)"

fun patient :: "flow_op list \<Rightarrow> flow_controller \<Rightarrow> bool" where
  "patient [] c = True"
| "patient (op # ops) c \<longleftrightarrow> (case op of FlowSend n \<Rightarrow> unblocked c | _ \<Rightarrow> True) \<and>
     patient ops (snd (flow_perform op c))"

lemma is_ready_run:
  "is_ready c = (if window_size c + max_message_size c < 2 ^ 64 then (Ok (has_room c), c) else (Panic, c))"
  by (simp add: is_ready_def run_simps)

section \<open>The invariant\<close>

text \<open>The tasks of the set are those that wait for acknowledgements, the bytes in flight are theirs, and
  somebody is blocked exactly when the window is full. After a failure, bytes are \<open>lost\<close>. While a task
  is under way, its acknowledgement can add the window and the largest message.\<close>

definition accounts_ok :: "flow_controller \<Rightarrow> bool" where
  "accounts_ok c \<longleftrightarrow> sum_list (map snd (ack_sizes c)) \<le> bytes_in_flight c \<and>
     (\<forall>ps. flow_state c = FlowRunning ps \<longrightarrow>
        bytes_in_flight c = sum_list (map snd (ack_sizes c)) \<and> (ps = [] \<longrightarrow> has_room c)) \<and>
     distinct (map fst (ack_sizes c)) \<and> 0 < window_size c \<and>
     (ack_sizes c \<noteq> [] \<longrightarrow> window_size c + max_message_size c < 2 ^ 64)"

text \<open>Promises are numbered below the next number, and one that a fulfiller waits for is not answered.\<close>

definition numbers_ok :: "flow_controller \<Rightarrow> bool" where
  "numbers_ok c \<longleftrightarrow> (\<forall>t \<in> set (ack_sizes c). fst t < next_promise c) \<and>
     (\<forall>f \<in> set (woken c) \<union> set (set_fulfillers c) \<union> set_option (empty_fulfiller c). f < next_promise c) \<and>
     (\<forall>(f, a) \<in> set (flow_answers c). f < next_promise c \<and> empty_fulfiller c \<noteq> Some f)"

definition tasks_ok :: "flow_controller \<Rightarrow> bool" where
  "tasks_ok c \<longleftrightarrow> set_tasks c = InForever # map (InTask \<circ> fst) (ack_sizes c) \<and>
     \<not> handles_gone c \<and> enqueued c \<noteq> None"

definition blocked_ok :: "flow_controller \<Rightarrow> bool" where
  "blocked_ok c \<longleftrightarrow> (\<forall>ps. flow_state c = FlowRunning ps \<longrightarrow> (\<forall>p \<in> set ps. p < next_promise c \<and> empty_fulfiller c \<noteq> Some p))"

text \<open>Blocked promises can be resolved before they are waited for again, but not be forgotten.\<close>

definition flow_inv :: "flow_controller \<Rightarrow> bool" where
  "flow_inv c \<longleftrightarrow> accounts_ok c \<and> numbers_ok c \<and> tasks_ok c \<and>
     (\<forall>ps. flow_state c = FlowRunning ps \<longrightarrow> has_room c \<longrightarrow> ps = []) \<and>
     blocked_ok c"

lemma flow_inv_new: "0 < window \<Longrightarrow> flow_inv (flow_controller_new window)"
  by (simp add: flow_inv_def accounts_ok_def numbers_ok_def tasks_ok_def blocked_ok_def flow_controller_new_def has_room_def
      task_set_new_def task_set.defs set_tasks_def set_fulfillers_def)

lemma drop_absent: "p \<notin> fst ` set ts \<Longrightarrow> filter (\<lambda>t. fst t \<noteq> p) ts = ts"
  by (rule filter_True) (metis image_eqI)

lemma sum_tasks:
  fixes ts :: "(nat \<times> nat) list"
  shows "distinct (map fst ts) \<Longrightarrow> map_of ts p = Some n \<Longrightarrow>
   sum_list (map snd ts) = n + sum_list (map snd (filter (\<lambda>t. fst t \<noteq> p) ts))"
proof (induction ts)
  case (Cons t ts)
  then show ?case by (cases t) (auto simp: drop_absent add.left_commute split: if_splits)
qed simp

lemma remove_task:
  "distinct (map fst ts) \<Longrightarrow>
   remove1 (InTask p) (map (InTask \<circ> fst) ts) = map (InTask \<circ> fst) (filter (\<lambda>t. fst t \<noteq> p) ts)"
proof (induction ts)
  case (Cons t ts)
  then show ?case by (cases t) (auto simp: drop_absent)
qed simp

section \<open>Steps on the state\<close>

lemma fulfill_empty_simps [simp]:
  "accounts_ok (fulfill_empty c) = accounts_ok c" "tasks_ok (fulfill_empty c) = tasks_ok c"
  "flow_state (fulfill_empty c) = flow_state c" "has_room (fulfill_empty c) = has_room c"
  "ack_sizes (fulfill_empty c) = ack_sizes c" "in_progress (fulfill_empty c) = in_progress c"
  "bytes_in_flight (fulfill_empty c) = bytes_in_flight c" "woken (fulfill_empty c) = woken c"
  "on_empty_fulfillers (fulfill_empty c) = on_empty_fulfillers c"
  "next_promise c \<le> next_promise (fulfill_empty c)" "window_size (fulfill_empty c) = window_size c"
  "max_message_size (fulfill_empty c) = max_message_size c"
  by (simp_all add: fulfill_empty_def answer_all_def on_empty_def unbounded_send_def accounts_ok_def tasks_ok_def
      has_room_def set_tasks_def Let_def split: option.splits)

lemma fulfill_empty_numbers: "numbers_ok c \<Longrightarrow> enqueued c \<noteq> None \<Longrightarrow> numbers_ok (fulfill_empty c)"
  unfolding fulfill_empty_def
  by (cases "empty_fulfiller c")
    (auto simp: answer_all_def on_empty_def unbounded_send_def numbers_ok_def set_fulfillers_def Let_def
      split: option.splits intro: less_SucI)

lemma fulfill_empty_blocked: "blocked_ok c \<Longrightarrow> blocked_ok (fulfill_empty c)"
  unfolding fulfill_empty_def
  by (cases "empty_fulfiller c")
    (auto simp: answer_all_def on_empty_def unbounded_send_def blocked_ok_def Let_def intro: less_SucI)

text \<open>The state after an acknowledgement, with the answer that \<open>is_ready\<close> gives there.\<close>

definition released :: "flow_controller \<Rightarrow> flow_controller" where
  "released c = release_blocked (has_room c) c"

lemma released_eq:
  "flow_state c = FlowFailed e \<Longrightarrow> released c = c"
  "flow_state c = FlowRunning ps \<Longrightarrow> released c =
     (if bytes_in_flight c = 0 then fulfill_empty else id)
     (if has_room c then answer_all ps SendReady (c\<lparr>flow_state := FlowRunning []\<rparr>) else c)"
  by (simp_all add: released_def release_blocked_def answer_all_def Let_def)

text \<open>What holds between the end of a task and the waking of those it has unblocked.\<close>

definition flow_pre :: "flow_controller \<Rightarrow> bool" where
  "flow_pre c \<longleftrightarrow> accounts_ok c \<and> numbers_ok c \<and> tasks_ok c \<and>
     blocked_ok c"

lemma released_inv:
  assumes "flow_pre c"
  shows "flow_inv (released c)"
proof (cases "flow_state c")
  case (FlowRunning ps)
  let ?d = "if has_room c then answer_all ps SendReady (c\<lparr>flow_state := FlowRunning []\<rparr>) else c"
  have d: "accounts_ok ?d" "tasks_ok ?d" "enqueued ?d \<noteq> None"
    "\<forall>qs. flow_state ?d = FlowRunning qs \<longrightarrow> has_room ?d \<longrightarrow> qs = []"
    "blocked_ok ?d"
    using assms FlowRunning
    by (auto simp: flow_pre_def accounts_ok_def tasks_ok_def blocked_ok_def answer_all_def has_room_def set_tasks_def)
  have n: "numbers_ok ?d"
    using assms FlowRunning
    by (auto simp: flow_pre_def numbers_ok_def blocked_ok_def answer_all_def set_fulfillers_def)
  show ?thesis
    using d n fulfill_empty_numbers [OF n d(3)] fulfill_empty_blocked [OF d(5)] FlowRunning
    by (simp add: released_eq flow_inv_def del: if_split split del: if_split split: if_split)
qed (use assms in \<open>simp add: released_eq flow_inv_def flow_pre_def\<close>)

lemma released_in_progress:
  "in_progress (released c) = in_progress c"
  "released (c\<lparr>in_progress := X\<rparr>) = (released c)\<lparr>in_progress := X\<rparr>"
  by (simp_all add: released_def release_blocked_def fulfill_empty_def answer_all_def has_room_def on_empty_def unbounded_send_def
      Let_def split: option.splits flow_state.splits)

lemma update_on_empty_inv: "flow_inv c \<Longrightarrow> flow_inv (update_on_empty_fulfillers c)"
  by (auto simp: update_on_empty_fulfillers_def flow_inv_def accounts_ok_def numbers_ok_def tasks_ok_def
      blocked_ok_def has_room_def set_tasks_def set_fulfillers_def)

lemma task_failed_inv:
  assumes "tasks_ok c" "numbers_ok c" "blocked_ok c" "distinct (map fst (ack_sizes c))"
    and "sum_list (map snd (ack_sizes c)) \<le> bytes_in_flight c" "0 < window_size c"
    and "ack_sizes c \<noteq> [] \<longrightarrow> window_size c + max_message_size c < 2 ^ 64"
  shows "flow_inv (task_failed e c)"
  using assms by (cases "flow_state c")
    (auto simp: task_failed_def flow_inv_def flow_pre_def accounts_ok_def numbers_ok_def tasks_ok_def blocked_ok_def
      answer_all_def has_room_def set_tasks_def set_fulfillers_def)

section \<open>Turns and polls\<close>

definition ended :: "nat \<Rightarrow> flow_controller \<Rightarrow> flow_controller" where
  "ended n c = c\<lparr>ack_sizes := filter (\<lambda>t. fst t \<noteq> n) (ack_sizes c), in_progress := remove1 (InTask n) (in_progress c)\<rparr>"

definition after_turn :: "nat \<Rightarrow> error_kind option \<Rightarrow> flow_controller \<Rightarrow> flow_controller" where
  "after_turn n r c = update_on_empty_fulfillers (case r of
     None \<Rightarrow> released ((ended n c)\<lparr>bytes_in_flight := bytes_in_flight c - the (map_of (ack_sizes c) n)\<rparr>)
   | Some e \<Rightarrow> task_failed e (ended n c))"

lemma task_known:
  assumes "flow_inv c" and "InTask n \<in> set (set_tasks c)"
  obtains bytes where "map_of (ack_sizes c) n = Some bytes" "bytes \<le> bytes_in_flight c"
    "sum_list (map snd (ack_sizes c)) = bytes + sum_list (map snd (ack_sizes (ended n c)))"
proof -
  have "n \<in> fst ` set (ack_sizes c)" using assms by (auto simp: flow_inv_def tasks_ok_def)
  then obtain bytes where m: "map_of (ack_sizes c) n = Some bytes"
    by (metis map_of_eq_None_iff not_None_eq)
  have d: "distinct (map fst (ack_sizes c))" and le: "sum_list (map snd (ack_sizes c)) \<le> bytes_in_flight c"
    using assms(1) by (simp_all add: flow_inv_def accounts_ok_def)
  show thesis
    by (rule that [OF m]) (use sum_tasks [OF d m] le in \<open>simp_all add: ended_def\<close>)
qed

lemma ended_tasks:
  assumes "flow_inv c" and "InTask n \<in> set (in_progress c)"
  shows "tasks_ok (ended n c)" "numbers_ok (ended n c)" "blocked_ok (ended n c)"
    "distinct (map fst (ack_sizes (ended n c)))"
proof -
  have d: "distinct (map fst (ack_sizes c))" and t: "set_tasks c = InForever # map (InTask \<circ> fst) (ack_sizes c)"
    using assms(1) by (simp_all add: flow_inv_def accounts_ok_def tasks_ok_def)
  have "set_tasks (ended n c) = remove1 (InTask n) (set_tasks c)"
    using assms(2) by (simp add: set_tasks_def ended_def remove1_append split: option.splits)
  then show "tasks_ok (ended n c)"
    using assms(1) remove_task [OF d, of n] unfolding t by (simp add: flow_inv_def tasks_ok_def ended_def)
  show "numbers_ok (ended n c)" "blocked_ok (ended n c)"
    using assms(1) by (auto simp: flow_inv_def numbers_ok_def blocked_ok_def ended_def set_fulfillers_def)
  show "distinct (map fst (ack_sizes (ended n c)))"
    using d by (simp add: ended_def distinct_map_filter)
qed

lemma poll_turn:
  assumes "flow_inv c" and "InTask n \<in> set (in_progress c)"
  shows "poll_in_progress flow_finish (Finishes n r # ts) c = poll_in_progress flow_finish ts (after_turn n r c)"
    and "flow_inv (after_turn n r c)"
proof -
  have "InTask n \<in> set (set_tasks c)" using assms(2) by (simp add: set_tasks_def)
  then obtain bytes where b: "map_of (ack_sizes c) n = Some bytes" "bytes \<le> bytes_in_flight c"
    "sum_list (map snd (ack_sizes c)) = bytes + sum_list (map snd (ack_sizes (ended n c)))"
    using task_known [OF assms(1)] by blast
  note e = ended_tasks [OF assms]
  let ?d = "(ended n c)\<lparr>bytes_in_flight := bytes_in_flight c - bytes\<rparr>"
  have "flow_pre ?d"
    using e b assms(1)
    by (auto simp: flow_pre_def flow_inv_def accounts_ok_def numbers_ok_def tasks_ok_def blocked_ok_def has_room_def
        ended_def set_tasks_def set_fulfillers_def)
  moreover have "flow_inv (task_failed e (ended n c))" for e
    by (rule task_failed_inv) (use e b assms(1) in \<open>auto simp: flow_inv_def accounts_ok_def ended_def\<close>)
  ultimately show "flow_inv (after_turn n r c)"
    using b by (auto simp: after_turn_def intro!: update_on_empty_inv released_inv split: option.splits)
  have "task_failed e (c\<lparr>ack_sizes := X, in_progress := Y\<rparr>) = (task_failed e (c\<lparr>ack_sizes := X\<rparr>))\<lparr>in_progress := Y\<rparr>"
    "in_progress (task_failed e (c\<lparr>ack_sizes := X\<rparr>)) = in_progress c" for e X Y
    by (simp_all add: task_failed_def answer_all_def split: flow_state.splits)
  moreover have "released (c\<lparr>ack_sizes := X, in_progress := Y, bytes_in_flight := b\<rparr>) =
    (released (c\<lparr>ack_sizes := X, bytes_in_flight := b\<rparr>))\<lparr>in_progress := Y\<rparr>" for X Y b
  proof -
    have "c\<lparr>ack_sizes := X, in_progress := Y, bytes_in_flight := b\<rparr> = c\<lparr>ack_sizes := X, bytes_in_flight := b, in_progress := Y\<rparr>"
      by simp
    then show ?thesis by (simp only: released_in_progress(2))
  qed
  moreover have "window_size c + max_message_size c < 2 ^ 64"
    using b(1) assms(1) by (cases "ack_sizes c") (auto simp: flow_inv_def accounts_ok_def)
  then have "flow_finish n None c = (Ok (), released (c\<lparr>ack_sizes := filter (\<lambda>t. fst t \<noteq> n) (ack_sizes c),
      bytes_in_flight := bytes_in_flight c - bytes\<rparr>))"
    using b(1,2) by (simp add: flow_finish_def task_acked_def is_ready_run run_simps released_def)
  ultimately show "poll_in_progress flow_finish (Finishes n r # ts) c = poll_in_progress flow_finish ts (after_turn n r c)"
    using assms(2) b
    by (cases r) (simp_all add: after_turn_def ended_def run_simps released_in_progress(1), simp add: flow_finish_def run_simps)
qed

lemma after_turn_simps [simp]:
  "ack_sizes (after_turn n r c) = filter (\<lambda>t. fst t \<noteq> n) (ack_sizes c)"
  "window_size (after_turn n r c) = window_size c" "max_message_size (after_turn n r c) = max_message_size c"
  "bytes_in_flight (after_turn n r c) \<le> bytes_in_flight c"
  by (simp_all add: after_turn_def update_on_empty_fulfillers_def released_def release_blocked_def task_failed_def answer_all_def
      ended_def Let_def split: option.splits flow_state.splits)

lemma after_turn_running:
  "flow_state (after_turn n r c) = FlowRunning ps \<Longrightarrow>
   r = None \<and> (flow_state c = FlowRunning ps \<or> ps = [] \<and> (\<exists>qs. flow_state c = FlowRunning qs))"
  by (auto simp: after_turn_def update_on_empty_fulfillers_def released_def release_blocked_def task_failed_def answer_all_def
      ended_def Let_def split: option.splits flow_state.splits if_splits)

lemma flow_inv_no_end: "flow_inv c \<Longrightarrow> InTerminate r \<notin> set (in_progress c)"
  by (auto simp: flow_inv_def tasks_ok_def set_tasks_def dest!: arg_cong [where f = set])

text \<open>What every turn keeps, a poll keeps; and no poll ends the set.\<close>

lemma poll_keeps:
  assumes "flow_inv c" and "P c"
    and "\<And>n r c. flow_inv c \<Longrightarrow> P c \<Longrightarrow> InTask n \<in> set (in_progress c) \<Longrightarrow> Finishes n r \<in> set ts \<Longrightarrow> P (after_turn n r c)"
  shows "\<exists>c'. poll_in_progress flow_finish ts c = (Ok None, c') \<and> flow_inv c' \<and> P c'"
  using assms
proof (induction ts arbitrary: c)
  case Nil
  then show ?case by (simp add: ret_def)
next
  case (Cons t ts)
  show ?case
  proof (cases t)
    case (Finishes n r)
    show ?thesis
    proof (cases "InTask n \<in> set (in_progress c)")
      case True
      have "P (after_turn n r c)" by (rule Cons.prems(3)) (use Cons.prems(1,2) True Finishes in auto)
      then show ?thesis
        unfolding Finishes poll_turn(1) [OF Cons.prems(1) True]
        by (rule Cons.IH [OF poll_turn(2) [OF Cons.prems(1) True]]) (rule Cons.prems(3); simp)
    next
      case False
      have "\<exists>c'. poll_in_progress flow_finish ts c = (Ok None, c') \<and> flow_inv c' \<and> P c'"
        by (rule Cons.IH [OF Cons.prems(1,2)]) (rule Cons.prems(3); simp)
      then show ?thesis using False Finishes by (simp add: run_simps)
    qed
  next
    case (Terminates r)
    have "\<exists>c'. poll_in_progress flow_finish ts c = (Ok None, c') \<and> flow_inv c' \<and> P c'"
      by (rule Cons.IH [OF Cons.prems(1,2)]) (rule Cons.prems(3); simp)
    then show ?thesis using flow_inv_no_end [OF Cons.prems(1)] Terminates by (simp add: run_simps)
  qed
qed

lemma take_enqueued_fields [simp]:
  "window_size (take_enqueued c) = window_size c" "bytes_in_flight (take_enqueued c) = bytes_in_flight c"
  "max_message_size (take_enqueued c) = max_message_size c" "flow_state (take_enqueued c) = flow_state c"
  "empty_fulfiller (take_enqueued c) = empty_fulfiller c" "ack_sizes (take_enqueued c) = ack_sizes c"
  "next_promise (take_enqueued c) = next_promise c" "flow_answers (take_enqueued c) = flow_answers c"
  "has_room (take_enqueued c) = has_room c" "handles_gone (take_enqueued c) = handles_gone c"
  by (simp_all add: take_enqueued_def drain_enqueued has_room_def split: option.splits)

lemma take_enqueued_inv: "flow_inv c \<Longrightarrow> flow_inv (take_enqueued c)"
  by (auto simp: flow_inv_def accounts_ok_def numbers_ok_def tasks_ok_def blocked_ok_def take_enqueued_tasks;
    simp add: take_enqueued_def split: option.splits)

lemma poll_set_keeps:
  assumes "flow_inv c" and "P (take_enqueued c)"
    and "\<And>n r c. flow_inv c \<Longrightarrow> P c \<Longrightarrow> InTask n \<in> set (in_progress c) \<Longrightarrow> Finishes n r \<in> set ts \<Longrightarrow> P (after_turn n r c)"
  shows "\<exists>c'. poll_set flow_finish ts c = (Ok None, c') \<and> flow_inv c' \<and> P c'"
  using poll_keeps [OF take_enqueued_inv [OF assms(1)], of P ts] assms(2,3)
  by (simp add: poll_set_def seqp_def bindp_def modifyp_def)

section \<open>Bytes in flight\<close>

definition within_window :: "flow_controller \<Rightarrow> bool" where
  "within_window c \<longleftrightarrow> (\<forall>ps. flow_state c = FlowRunning ps \<longrightarrow> bytes_in_flight c < window_size c + 2 * max_message_size c)"

text \<open>The state of a controller that has sent a message, before it is decided who waits.\<close>

definition flow_sent :: "nat \<Rightarrow> flow_controller \<Rightarrow> flow_controller" where
  "flow_sent bytes c = add_to_set (next_promise c) (c\<lparr>max_message_size := max bytes (max_message_size c),
     next_promise := next_promise c + 1, bytes_in_flight := bytes_in_flight c + bytes,
     ack_sizes := ack_sizes c @ [(next_promise c, bytes)]\<rparr>)"

lemma flow_sent_simps [simp]:
  "ack_sizes (flow_sent b c) = ack_sizes c @ [(next_promise c, b)]" "next_promise (flow_sent b c) = next_promise c + 1"
  "bytes_in_flight (flow_sent b c) = bytes_in_flight c + b" "max_message_size (flow_sent b c) = max b (max_message_size c)"
  "flow_state (flow_sent b c) = flow_state c" "window_size (flow_sent b c) = window_size c"
  "empty_fulfiller (flow_sent b c) = empty_fulfiller c" "flow_answers (flow_sent b c) = flow_answers c"
  by (simp_all add: flow_sent_def add_to_set_def unbounded_send_def)

lemma flow_sent_ok:
  assumes "flow_inv c"
  shows "tasks_ok (flow_sent b c)" "numbers_ok (flow_sent b c)" "blocked_ok (flow_sent b c)"
    "distinct (map fst (ack_sizes (flow_sent b c)))"
proof -
  obtain q where q: "enqueued c = Some q" using assms by (auto simp: flow_inv_def tasks_ok_def)
  show "tasks_ok (flow_sent b c)" "blocked_ok (flow_sent b c)"
    using assms q
    by (auto simp: flow_inv_def tasks_ok_def blocked_ok_def flow_sent_def add_to_set_def unbounded_send_def set_tasks_def
        intro: less_SucI)
  show "numbers_ok (flow_sent b c)"
    using assms q
    by (auto simp: flow_inv_def numbers_ok_def flow_sent_def add_to_set_def unbounded_send_def set_fulfillers_def
        intro: less_SucI)
  show "distinct (map fst (ack_sizes (flow_sent b c)))"
    using assms by (auto simp: flow_inv_def accounts_ok_def numbers_ok_def)
qed

text \<open>The sums that \<open>send\<close> computes do not overflow.\<close>

definition send_fits :: "nat \<Rightarrow> flow_controller \<Rightarrow> bool" where
  "send_fits n c \<longleftrightarrow> bytes_in_flight c + n * 8 < 2 ^ 64 \<and> window_size c + max (n * 8) (max_message_size c) < 2 ^ 64"

lemma flow_send_eq:
  "send_fits n c \<Longrightarrow> flow_send n c = (Ok (next_promise c), let d = flow_sent (n * 8) c in
     case flow_state d of
       FlowRunning blocked \<Rightarrow> if has_room d then answer_all [next_promise c] SendReady d
         else d\<lparr>flow_state := FlowRunning (blocked @ [next_promise c])\<rparr>
     | FlowFailed e \<Rightarrow> answer_all [next_promise c] (SendFailed e) d)"
  "\<not> send_fits n c \<Longrightarrow> fst (flow_send n c) = Panic"
proof -
  have "flow_send n c = (if n * 8 < 2 ^ 64 \<and> bytes_in_flight c + n * 8 < 2 ^ 64 then
      bindp is_ready (\<lambda>ready. bindp (gets flow_state) (\<lambda>state. seqp (case state of
           FlowRunning blocked \<Rightarrow> if ready then modifyp (answer_all [next_promise c] SendReady)
             else modifyp (\<lambda>c'. c'\<lparr>flow_state := FlowRunning (blocked @ [next_promise c])\<rparr>)
         | FlowFailed e \<Rightarrow> modifyp (answer_all [next_promise c] (SendFailed e))) (ret (next_promise c)))) (flow_sent (n * 8) c)
    else flow_send n c)"
    by (simp add: flow_send_def flow_sent_def run_simps)
  moreover have "fst (flow_send n c) = Panic" if "\<not> (n * 8 < 2 ^ 64 \<and> bytes_in_flight c + n * 8 < 2 ^ 64)"
    using that by (auto simp: flow_send_def run_simps)
  ultimately show "send_fits n c \<Longrightarrow> flow_send n c = (Ok (next_promise c), let d = flow_sent (n * 8) c in
     case flow_state d of
       FlowRunning blocked \<Rightarrow> if has_room d then answer_all [next_promise c] SendReady d
         else d\<lparr>flow_state := FlowRunning (blocked @ [next_promise c])\<rparr>
     | FlowFailed e \<Rightarrow> answer_all [next_promise c] (SendFailed e) d)"
    and "\<not> send_fits n c \<Longrightarrow> fst (flow_send n c) = Panic"
    by (auto simp: send_fits_def is_ready_run run_simps split: flow_state.splits if_splits)
qed

text \<open>A window that nearly fills \<open>usize\<close> makes the first message that is not empty panic.\<close>

lemma huge_window_panics:
  "2 ^ 64 \<le> window + n * 8 \<Longrightarrow> fst (flow_send n (flow_controller_new window)) = Panic"
  by (rule flow_send_eq(2)) (auto simp: send_fits_def flow_controller_new_def task_set.defs)

lemma send_within:
  assumes "flow_inv c" and "flow_send n c = (r, c')" and "send_fits n c"
  shows "r = Ok (next_promise c) \<and> flow_inv c' \<and> (unblocked c \<longrightarrow> within_window c') \<and> window_size c' = window_size c \<and>
    bytes_in_flight c' = bytes_in_flight c + n * 8 \<and> max_message_size c' = max (n * 8) (max_message_size c)"
proof -
  let ?p = "next_promise c" and ?d = "flow_sent (n * 8) c"
  note s = flow_sent_ok [OF assms(1), of "n * 8"]
  have free: "empty_fulfiller c \<noteq> Some ?p"
    using assms(1) by (auto simp: flow_inv_def numbers_ok_def)
  have fits: "window_size c + max (n * 8) (max_message_size c) < 2 ^ 64" using assms(3) by (simp add: send_fits_def)
  have ac: "sum_list (map snd (ack_sizes c)) \<le> bytes_in_flight c" "0 < window_size c"
    using assms(1) by (simp_all add: flow_inv_def accounts_ok_def)
  show ?thesis
  proof (cases "flow_state c")
    case (FlowRunning ps)
    then have eq: "bytes_in_flight c = sum_list (map snd (ack_sizes c))" "ps = [] \<longrightarrow> has_room c" "has_room c \<longrightarrow> ps = []"
      using assms(1) by (simp_all add: flow_inv_def accounts_ok_def)
    show ?thesis
    proof (cases "has_room ?d")
      case True
      then have run: "r = Ok ?p" "c' = answer_all [?p] SendReady ?d"
        using assms(2) FlowRunning by (simp_all add: flow_send_eq(1) [OF assms(3)] Let_def)
      have "ps = []" using True eq(3) by (auto simp: has_room_def)
      then show ?thesis
        using True FlowRunning s free fits ac eq unfolding run
        by (auto simp: flow_inv_def accounts_ok_def numbers_ok_def tasks_ok_def blocked_ok_def within_window_def
            has_room_def answer_all_def set_tasks_def set_fulfillers_def)
    next
      case False
      then have run: "r = Ok ?p" "c' = ?d\<lparr>flow_state := FlowRunning (ps @ [?p])\<rparr>"
        using assms(2) FlowRunning by (simp_all add: flow_send_eq(1) [OF assms(3)] Let_def)
      show ?thesis
        using False FlowRunning s free fits ac eq unfolding run
        by (auto simp: flow_inv_def accounts_ok_def numbers_ok_def tasks_ok_def blocked_ok_def within_window_def
            unblocked_def has_room_def set_tasks_def set_fulfillers_def)
    qed
  next
    case (FlowFailed e)
    then have run: "r = Ok ?p" "c' = answer_all [?p] (SendFailed e) ?d"
      using assms(2) by (simp_all add: flow_send_eq(1) [OF assms(3)] Let_def)
    show ?thesis
      using FlowFailed s free fits ac unfolding run
      by (auto simp: flow_inv_def accounts_ok_def numbers_ok_def tasks_ok_def blocked_ok_def within_window_def
          answer_all_def set_tasks_def set_fulfillers_def)
  qed
qed

lemma wait_all_acked_eq:
  "wait_all_acked c = (Ok (next_promise c), let c' = c\<lparr>next_promise := next_promise c + 1\<rparr> in
     if unblocked c then on_empty (next_promise c) c'
     else (case empty_fulfiller c of None \<Rightarrow> c' | Some f \<Rightarrow> answer_all [f] (SendFailed Failed) c')\<lparr>empty_fulfiller := Some (next_promise c)\<rparr>)"
  by (auto simp: wait_all_acked_def run_simps unblocked_def split: flow_state.splits option.splits)

lemma on_empty_inv:
  assumes "flow_inv c" and "f < next_promise c"
  shows "flow_inv (on_empty f c)"
  using assms by (auto simp: flow_inv_def accounts_ok_def numbers_ok_def tasks_ok_def blocked_ok_def has_room_def
      on_empty_def unbounded_send_def set_tasks_def set_fulfillers_def split: option.splits)

lemma next_promise_inv: "flow_inv c \<Longrightarrow> flow_inv (c\<lparr>next_promise := next_promise c + 1\<rparr>)"
  by (auto simp: flow_inv_def accounts_ok_def numbers_ok_def tasks_ok_def blocked_ok_def has_room_def set_tasks_def
      set_fulfillers_def intro: less_SucI)

lemma new_fulfiller_inv:
  assumes "flow_inv c"
  shows "flow_inv ((case empty_fulfiller c of None \<Rightarrow> c\<lparr>next_promise := next_promise c + 1\<rparr>
    | Some f \<Rightarrow> answer_all [f] (SendFailed Failed) (c\<lparr>next_promise := next_promise c + 1\<rparr>))
    \<lparr>empty_fulfiller := Some (next_promise c)\<rparr>)"
  using assms by (cases "empty_fulfiller c")
    (auto simp: flow_inv_def accounts_ok_def numbers_ok_def tasks_ok_def blocked_ok_def has_room_def answer_all_def
      set_tasks_def set_fulfillers_def intro: less_SucI)

lemma wait_within:
  assumes "flow_inv c" and "wait_all_acked c = (r, c')"
  shows "r = Ok (next_promise c) \<and> flow_inv c' \<and> (within_window c \<longrightarrow> within_window c') \<and> window_size c' = window_size c \<and>
    bytes_in_flight c' = bytes_in_flight c \<and> max_message_size c' = max_message_size c"
  using assms(2) on_empty_inv [OF next_promise_inv [OF assms(1)], of "next_promise c"] new_fulfiller_inv [OF assms(1)]
  by (cases "empty_fulfiller c")
    (auto simp: wait_all_acked_eq Let_def within_window_def on_empty_def unbounded_send_def answer_all_def split: if_splits)

text \<open>The bytes that an operation, and a run of operations, sends.\<close>

fun op_bytes :: "flow_op \<Rightarrow> nat" where
  "op_bytes (FlowSend n) = n * 8"
| "op_bytes _ = 0"

definition sent_bytes :: "flow_op list \<Rightarrow> nat" where
  "sent_bytes ops = sum_list (map op_bytes ops)"

definition op_fits :: "flow_op \<Rightarrow> flow_controller \<Rightarrow> bool" where
  "op_fits op c \<longleftrightarrow> (\<forall>n. op = FlowSend n \<longrightarrow> send_fits n c)"

lemma perform_within:
  assumes "flow_inv c" and "op_fits op c"
  shows "\<exists>c'. flow_perform op c = (Ok (), c') \<and> flow_inv c' \<and> window_size c' = window_size c \<and>
    bytes_in_flight c' \<le> bytes_in_flight c + op_bytes op \<and> max_message_size c' = max (op_bytes op) (max_message_size c) \<and>
    (within_window c \<longrightarrow> (\<forall>n. op = FlowSend n \<longrightarrow> unblocked c) \<longrightarrow> within_window c')"
proof (cases op)
  case (FlowSend n)
  then have fits: "send_fits n c" using assms(2) by (simp add: op_fits_def)
  obtain r c' where s: "flow_send n c = (r, c')" by fastforce
  from send_within [OF assms(1) s fits] FlowSend s show ?thesis by (auto simp: run_simps)
next
  case FlowWait
  obtain r c' where w: "wait_all_acked c = (r, c')" by fastforce
  from wait_within [OF assms(1) w] FlowWait w show ?thesis by (auto simp: run_simps)
next
  case (FlowPoll ts)
  let ?P = "\<lambda>c'. (within_window c \<longrightarrow> within_window c') \<and> window_size c' = window_size c \<and>
    bytes_in_flight c' \<le> bytes_in_flight c \<and> max_message_size c' = max_message_size c"
  have "?P (after_turn n r c')" if "?P c'" for n r c'
    using that le_trans [OF after_turn_simps(4)]
    by (auto simp: within_window_def dest!: after_turn_running intro: le_less_trans [OF after_turn_simps(4)])
  with poll_set_keeps [of c ?P ts] assms(1) FlowPoll show ?thesis
    by (fastforce simp: within_window_def run_simps)
qed

text \<open>An operation either fits or panics, so what holds of one that fits holds of any that is done.\<close>

lemma perform_done: "flow_perform op c = (Ok (), c') \<Longrightarrow> op_fits op c"
  using flow_send_eq(2) [of _ c] by (cases op) (fastforce simp: op_fits_def run_simps split: prod.splits outcome.splits)+

lemma run_Cons: "flow_run (op # ops) c = bindp (flow_perform op) (\<lambda>_. flow_run ops) c"
  by (simp add: flow_run_def bindp_def)

lemma run_within:
  assumes "flow_inv c" and "flow_run ops c = (Ok (), c')"
  shows "flow_inv c' \<and> window_size c' = window_size c \<and> (within_window c \<longrightarrow> patient ops c \<longrightarrow> within_window c')"
  using assms
proof (induction ops arbitrary: c)
  case Nil
  then show ?case by (simp add: flow_run_def ret_def)
next
  case (Cons op ops)
  from Cons.prems(2) obtain c1 where c1: "flow_perform op c = (Ok (), c1)" "flow_run ops c1 = (Ok (), c')"
    by (auto simp: run_Cons bindp_def split: prod.splits outcome.splits)
  from perform_within [OF Cons.prems(1) perform_done [OF c1(1)]] c1(1)
  have p: "flow_inv c1" "window_size c1 = window_size c"
    "within_window c \<Longrightarrow> \<forall>n. op = FlowSend n \<longrightarrow> unblocked c \<Longrightarrow> within_window c1" by auto
  show ?case using Cons.IH [OF p(1) c1(2)] p c1(1) by (cases op) auto
qed

text \<open>While the window and all that was ever sent fit into \<open>usize\<close>, every run is done.\<close>

lemma run_done:
  assumes "flow_inv c" and "bytes_in_flight c \<le> t" "max_message_size c \<le> t" "window_size c + t + sent_bytes ops < 2 ^ 64"
  shows "\<exists>c'. flow_run ops c = (Ok (), c')"
  using assms
proof (induction ops arbitrary: c t)
  case Nil
  then show ?case by (simp add: flow_run_def ret_def)
next
  case (Cons op ops)
  have sent: "sent_bytes (op # ops) = op_bytes op + sent_bytes ops" by (simp add: sent_bytes_def)
  have "op_fits op c" using Cons.prems(2-4) sent by (auto simp: op_fits_def send_fits_def)
  from perform_within [OF Cons.prems(1) this] obtain c1 where c1: "flow_perform op c = (Ok (), c1)" "flow_inv c1"
    "window_size c1 = window_size c" "bytes_in_flight c1 \<le> bytes_in_flight c + op_bytes op"
    "max_message_size c1 = max (op_bytes op) (max_message_size c)" by blast
  have "\<exists>c'. flow_run ops c1 = (Ok (), c')"
    by (rule Cons.IH [OF c1(2), of "t + op_bytes op"]) (use c1(3-5) Cons.prems(2-4) sent in auto)
  with c1(1) show ?case by (simp add: run_Cons bindp_def)
qed



section \<open>Acknowledgements\<close>

text \<open>All tasks are in progress, which is so after the channel of the set was drained.\<close>

definition drained :: "flow_controller \<Rightarrow> bool" where
  "drained c \<longleftrightarrow> in_progress c = set_tasks c"

lemma drained_take_enqueued: "drained (take_enqueued c)"
  by (simp add: drained_def take_enqueued_tasks)

lemma drained_turn: "drained c \<Longrightarrow> drained (after_turn n r c)"
  by (auto simp: drained_def set_tasks_def after_turn_def update_on_empty_fulfillers_def released_def release_blocked_def task_failed_def
      answer_all_def fulfill_empty_def on_empty_def unbounded_send_def ended_def Let_def split: option.splits flow_state.splits)

lemma drained_in_progress:
  "flow_inv c \<Longrightarrow> drained c \<Longrightarrow> in_progress c = InForever # map (InTask \<circ> fst) (ack_sizes c)"
  by (simp add: drained_def flow_inv_def tasks_ok_def)

text \<open>The acknowledgements of some tasks, in one poll.\<close>

abbreviation acks :: "nat list \<Rightarrow> task_turn list" where
  "acks ns \<equiv> map (\<lambda>n. Finishes n None) ns"

lemma poll_acks:
  assumes "flow_inv c" "drained c" "set ns \<subseteq> fst ` set (ack_sizes c)" "distinct ns" "P c"
    and "\<And>n c. flow_inv c \<Longrightarrow> drained c \<Longrightarrow> n \<in> fst ` set (ack_sizes c) \<Longrightarrow> P c \<Longrightarrow> P (after_turn n None c)"
  shows "\<exists>c'. poll_in_progress flow_finish (acks ns) c = (Ok None, c') \<and> flow_inv c' \<and> P c' \<and>
    ack_sizes c' = filter (\<lambda>t. fst t \<notin> set ns) (ack_sizes c)"
  using assms(1-5)
proof (induction ns arbitrary: c)
  case Nil
  then show ?case by (simp add: ret_def)
next
  case (Cons n ns)
  have n: "n \<in> fst ` set (ack_sizes c)" using Cons.prems by simp
  then have "InTask n \<in> set (in_progress c)" by (auto simp: drained_in_progress [OF Cons.prems(1,2)])
  note t = poll_turn [OF Cons.prems(1) this]
  have "set ns \<subseteq> fst ` set (ack_sizes (after_turn n None c))" using Cons.prems(3,4) by fastforce
  moreover have "filter (\<lambda>t. fst t \<notin> set ns) (filter (\<lambda>t. fst t \<noteq> n) (ack_sizes c)) = filter (\<lambda>t. fst t \<notin> set (n # ns)) (ack_sizes c)"
    by (simp add: conj_commute)
  ultimately show ?case
    using Cons.IH [OF t(2) drained_turn [OF Cons.prems(2)] _ _ assms(6) [OF Cons.prems(1,2) n Cons.prems(5)]]
      Cons.prems(4) t(1) by simp
qed

lemma reached_inv:
  assumes "0 < window" and "flow_run ops (flow_controller_new window) = (Ok (), c)"
  shows "flow_inv c"
  using run_within [OF flow_inv_new [OF assms(1)] assms(2)] by simp

lemma same_tasks:
  assumes "flow_inv c" and "mset ns \<subseteq># mset (map fst (ack_sizes c))"
  shows "set ns \<subseteq> fst ` set (ack_sizes c)" "distinct ns"
    "mset ns = mset (map fst (ack_sizes c)) \<longleftrightarrow> filter (\<lambda>t. fst t \<notin> set ns) (ack_sizes c) = []"
proof -
  have d: "distinct (map fst (ack_sizes c))" using assms(1) by (simp add: flow_inv_def accounts_ok_def)
  show s: "set ns \<subseteq> fst ` set (ack_sizes c)" using set_mset_mono [OF assms(2)] by simp
  show dn: "distinct ns"
  proof -
    obtain zs where "mset (map fst (ack_sizes c)) = mset (ns @ zs)"
      using assms(2) ex_mset by (metis mset_append subset_mset.le_iff_add)
    then show ?thesis using d mset_eq_imp_distinct_iff by (metis distinct_append)
  qed
  show "mset ns = mset (map fst (ack_sizes c)) \<longleftrightarrow> filter (\<lambda>t. fst t \<notin> set ns) (ack_sizes c) = []"
    using s set_eq_iff_mset_eq_distinct [OF dn d] by (fastforce simp: filter_empty_conv)
qed

text \<open>
  C38: When every message is acknowledged, in any order, the window is empty, every caller that was
  blocked has been told to go on, and no task is left.
\<close>

theorem flow_drains:
  assumes "0 < window" and "flow_run ops (flow_controller_new window) = (Ok (), c)"
    and "flow_state c = FlowRunning blocked" and "mset ns = mset (map fst (ack_sizes c))"
  shows "\<exists>c'. poll_set flow_finish (acks ns) c = (Ok None, c') \<and> bytes_in_flight c' = 0 \<and>
    flow_state c' = FlowRunning [] \<and> set_tasks c' = [InForever] \<and>
    (\<forall>p \<in> set blocked. (p, SendReady) \<in> set (flow_answers c'))"
proof -
  let ?P = "\<lambda>c'. \<exists>ps. flow_state c' = FlowRunning ps \<and> (\<forall>p \<in> set blocked. p \<in> set ps \<or> (p, SendReady) \<in> set (flow_answers c'))"
  have step: "?P (after_turn n None c')" if "?P c'" for n c'
    using that by (auto simp: after_turn_def update_on_empty_fulfillers_def released_def release_blocked_def answer_all_def
      fulfill_empty_def on_empty_def unbounded_send_def ended_def Let_def image_iff split: option.splits)
  note inv = take_enqueued_inv [OF reached_inv [OF assms(1,2)]]
  have sub: "mset ns \<subseteq># mset (map fst (ack_sizes (take_enqueued c)))" using assms(4) by simp
  note t = same_tasks [OF inv sub]
  obtain c' where c': "poll_in_progress flow_finish (acks ns) (take_enqueued c) = (Ok None, c')" "flow_inv c'" "?P c'"
    "ack_sizes c' = []"
    using poll_acks [OF inv drained_take_enqueued t(1,2), of ?P] step assms(3,4) t(3) by auto
  show ?thesis
    by (rule exI [of _ c'])
      (use c' in \<open>auto simp: poll_set_def run_simps flow_inv_def accounts_ok_def tasks_ok_def has_room_def\<close>)
qed

lemma flow_drains_witness:
  "\<exists>c c'. flow_run [FlowSend 5, FlowSend 7, FlowPoll [Finishes 1 None], FlowSend 9] (flow_controller_new 8) = (Ok (), c) \<and>
    poll_set flow_finish (acks [2, 0]) c = (Ok None, c') \<and> bytes_in_flight c' = 0 \<and>
    (2, SendReady) \<in> set (flow_answers c')"
proof -
  define c where "c = snd (flow_run [FlowSend 5, FlowSend 7, FlowPoll [Finishes 1 None], FlowSend 9] (flow_controller_new 8))"
  have "flow_run [FlowSend 5, FlowSend 7, FlowPoll [Finishes 1 None], FlowSend 9] (flow_controller_new 8) = (Ok (), c)"
    "flow_state c = FlowRunning [2]" "map fst (ack_sizes c) = [0, 2]"
    unfolding c_def by code_simp+
  then show ?thesis using flow_drains [of 8 _ c "[2]" "[2, 0]"] by fastforce
qed

section \<open>Waiting for the acknowledgements\<close>

lemma after_turn_set:
  "woken (after_turn n r c) = woken c @ (if length (remove1 (InTask n) (in_progress c)) \<le> 1 then on_empty_fulfillers c else [])"
  "on_empty_fulfillers (after_turn n r c) =
     (if length (remove1 (InTask n) (in_progress c)) \<le> 1 then [] else on_empty_fulfillers c)"
  by (simp_all add: after_turn_def update_on_empty_fulfillers_def released_def release_blocked_def task_failed_def answer_all_def
      ended_def Let_def split: option.splits flow_state.splits)

lemma last_task:
  assumes "flow_inv c" "drained c" "n \<in> fst ` set (ack_sizes c)"
  shows "length (remove1 (InTask n) (in_progress c)) \<le> 1 \<longleftrightarrow> ack_sizes (after_turn n r c) = []"
proof -
  have "distinct (map fst (ack_sizes c))" using assms(1) by (simp add: flow_inv_def accounts_ok_def)
  then show ?thesis
    using assms(3) remove_task [of "ack_sizes c" n] by (simp add: drained_in_progress [OF assms(1,2)])
qed

lemma on_empty_pending:
  assumes "flow_inv c" and "unblocked c" and "wait_all_acked c = (Ok f, c')"
  shows "flow_inv c'" "ack_sizes c' = ack_sizes c" "f \<in> set (set_fulfillers c')" "f \<notin> set (woken c')"
proof -
  obtain q where q: "enqueued c = Some q" using assms(1) by (auto simp: flow_inv_def tasks_ok_def)
  have c': "c' = on_empty f (c\<lparr>next_promise := next_promise c + 1\<rparr>)" "f = next_promise c"
    using assms(2,3) by (auto simp: wait_all_acked_eq Let_def)
  show "flow_inv c'" using wait_within [OF assms(1,3)] by simp
  show "ack_sizes c' = ack_sizes c" "f \<in> set (set_fulfillers c')" "f \<notin> set (woken c')"
    using assms(1) q unfolding c' by (auto simp: on_empty_def unbounded_send_def set_fulfillers_def flow_inv_def numbers_ok_def)
qed

text \<open>
  A caller that is not blocked and asks to wait for the acknowledgements of messages under way
  is told when the last of them has come, and not before.
\<close>

theorem unblocked_wait_ends:
  assumes "0 < window" and "flow_run ops (flow_controller_new window) = (Ok (), c)"
    and "flow_state c = FlowRunning []" and "ack_sizes c \<noteq> []" and "wait_all_acked c = (Ok f, c1)"
    and "mset ns \<subseteq># mset (map fst (ack_sizes c))"
  shows "\<exists>c'. poll_set flow_finish (acks ns) c1 = (Ok None, c') \<and>
    (f \<in> set (woken c') \<longleftrightarrow> mset ns = mset (map fst (ack_sizes c)))"
proof -
  have "unblocked c" using assms(3) by (simp add: unblocked_def)
  note p = on_empty_pending [OF reached_inv [OF assms(1,2)] this assms(5)]
  note inv = take_enqueued_inv [OF p(1)]
  have sub: "mset ns \<subseteq># mset (map fst (ack_sizes (take_enqueued c1)))" using assms(6) p(2) by simp
  note t = same_tasks [OF inv sub]
  let ?P = "\<lambda>c'. if ack_sizes c' = [] then f \<in> set (woken c') else f \<in> set (on_empty_fulfillers c') \<and> f \<notin> set (woken c')"
  have step: "?P (after_turn n None c')" if "flow_inv c'" "drained c'" "n \<in> fst ` set (ack_sizes c')" "?P c'" for n c'
  proof -
    have "ack_sizes c' \<noteq> []" using that(3) by auto
    with last_task [OF that(1-3), of None] that(4) show ?thesis
      by (simp add: after_turn_set del: after_turn_simps)
  qed
  have "?P (take_enqueued c1)" using p assms(4) by (simp add: take_enqueued_tasks)
  from poll_acks [where P = ?P, OF inv drained_take_enqueued t(1,2) this step]
  obtain c' where c': "poll_in_progress flow_finish (acks ns) (take_enqueued c1) = (Ok None, c')" "?P c'"
    "ack_sizes c' = filter (\<lambda>t. fst t \<notin> set ns) (ack_sizes (take_enqueued c1))"
    by blast
  show ?thesis
    by (rule exI [of _ c']) (use c' t(3) p(2) in \<open>auto simp: poll_set_def run_simps\<close>)
qed

lemma unblocked_wait_ends_witness:
  "\<exists>c f c1 c'. flow_run [FlowSend 5, FlowSend 7] (flow_controller_new 80) = (Ok (), c) \<and>
    wait_all_acked c = (Ok f, c1) \<and> poll_set flow_finish (acks [1, 0]) c1 = (Ok None, c') \<and> f \<in> set (woken c')"
proof -
  define c where "c = snd (flow_run [FlowSend 5, FlowSend 7] (flow_controller_new 80))"
  define w where "w = wait_all_acked c"
  have "flow_run [FlowSend 5, FlowSend 7] (flow_controller_new 80) = (Ok (), c)" "flow_state c = FlowRunning []"
    "map fst (ack_sizes c) = [0, 1]" "fst w = Ok 2"
    unfolding w_def c_def by code_simp+
  moreover from this have "wait_all_acked c = (Ok 2, snd w)" by (metis w_def prod.collapse)
  ultimately show ?thesis using unblocked_wait_ends [of 80 _ c 2 "snd w" "[1, 0]"] by fastforce
qed

text \<open>What the promise of \<open>wait_all_acked\<close> waits for has happened.\<close>

definition all_acked_seen :: "nat \<Rightarrow> flow_controller \<Rightarrow> bool" where
  "all_acked_seen f c \<longleftrightarrow> f \<in> set (woken c) \<or>
     list_ex (\<lambda>(f', a). case a of AllAckedWhen g \<Rightarrow> f' = f \<and> g \<in> set (woken c) | _ \<Rightarrow> False) (flow_answers c)"

definition waits_in_vain :: "nat \<Rightarrow> flow_controller \<Rightarrow> bool" where
  "waits_in_vain f c \<longleftrightarrow> (\<exists>ps. flow_state c = FlowRunning ps) \<and> (\<forall>t \<in> set (ack_sizes c). 0 < snd t) \<and>
     f \<notin> set (woken c) \<and>
     (if ack_sizes c = [] then \<forall>g. (f, AllAckedWhen g) \<in> set (flow_answers c) \<longrightarrow> g \<notin> set (woken c)
      else f \<notin> set (set_fulfillers c) \<and> empty_fulfiller c = Some f)"

lemma waits_in_vain_unseen: "waits_in_vain f c \<Longrightarrow> flow_inv c \<Longrightarrow> \<not> all_acked_seen f c"
  by (auto simp: waits_in_vain_def all_acked_seen_def list_ex_iff flow_inv_def numbers_ok_def split: if_splits flow_answer.splits)

lemma after_turn_acked:
  fixes c n
  defines "b \<equiv> bytes_in_flight c - the (map_of (ack_sizes c) n)" and "c' \<equiv> after_turn n None c"
  assumes "flow_state c = FlowRunning ps"
  shows "\<exists>qs. flow_state c' = FlowRunning qs" "bytes_in_flight c' = b"
    "b \<noteq> 0 \<Longrightarrow> empty_fulfiller c' = empty_fulfiller c"
    "b \<noteq> 0 \<Longrightarrow> set (set_fulfillers c') \<subseteq> set (set_fulfillers c)"
    "(f, AllAckedWhen g) \<in> set (flow_answers c') \<Longrightarrow>
       (f, AllAckedWhen g) \<in> set (flow_answers c) \<or> g = next_promise c"
  using assms(3)
  by (auto simp: c'_def b_def after_turn_def update_on_empty_fulfillers_def released_def release_blocked_def answer_all_def
      fulfill_empty_def on_empty_def unbounded_send_def ended_def set_fulfillers_def Let_def split: option.splits if_splits)

lemma sum_positive: "\<forall>t \<in> set (ts :: (nat \<times> nat) list). 0 < snd t \<Longrightarrow> ts \<noteq> [] \<Longrightarrow> 0 < sum_list (map snd ts)"
  by (cases ts) auto

lemma waits_in_vain_turn:
  assumes inv: "flow_inv c" and d: "drained c" and n: "InTask n \<in> set (in_progress c)" and v: "waits_in_vain f c"
  shows "waits_in_vain f (after_turn n None c)"
proof -
  let ?c = "after_turn n None c"
  have k: "n \<in> fst ` set (ack_sizes c)" using n by (auto simp: drained_in_progress [OF inv d])
  then have "ack_sizes c \<noteq> []" by auto
  with v obtain ps where r: "flow_state c = FlowRunning ps" and f: "f \<notin> set (woken c)" "f \<notin> set (set_fulfillers c)"
    "empty_fulfiller c = Some f" and pos: "\<forall>t \<in> set (ack_sizes c). 0 < snd t"
    by (auto simp: waits_in_vain_def)
  note t = after_turn_acked [where n = n, OF r]
  have inv': "flow_inv ?c" by (rule poll_turn(2) [OF inv n])
  have old: "\<And>g. (f, AllAckedWhen g) \<notin> set (flow_answers c)" and num: "\<And>g. g \<in> set (woken ?c) \<Longrightarrow> g < next_promise c"
    using inv f(3) by (auto simp: flow_inv_def numbers_ok_def after_turn_set set_fulfillers_def split: if_splits)
  have unseen: "f \<notin> set (woken ?c)" using f by (auto simp: after_turn_set set_fulfillers_def)
  show ?thesis
  proof (cases "ack_sizes ?c = []")
    case True
    with t(1) t(5) [where f = f] old num unseen show ?thesis
      by (auto simp: waits_in_vain_def simp del: after_turn_simps(1))
  next
    case False
    then have "0 < bytes_in_flight ?c"
      using sum_positive [of "ack_sizes ?c"] pos inv' t(1) by (auto simp: flow_inv_def accounts_ok_def)
    with t(1-4) f unseen False pos show ?thesis
      by (auto simp: waits_in_vain_def)
  qed
qed

lemma waits_in_vain_polls:
  assumes "flow_inv c" and "waits_in_vain f c" and "\<forall>ts \<in> set tss. \<forall>t \<in> set ts. \<exists>n. t = Finishes n None"
  shows "\<exists>c'. run_polls flow_finish tss c = (Ok None, c') \<and> flow_inv c' \<and> waits_in_vain f c'"
  using assms
proof (induction tss arbitrary: c)
  case Nil
  then show ?case by (simp add: run_polls_def ret_def)
next
  case (Cons ts tss)
  let ?P = "\<lambda>c. drained c \<and> waits_in_vain f c"
  have "?P (take_enqueued c)"
    using Cons.prems(2) by (simp add: drained_take_enqueued waits_in_vain_def take_enqueued_tasks)
  moreover have "?P (after_turn n r c)"
    if "flow_inv c" "?P c" "InTask n \<in> set (in_progress c)" "Finishes n r \<in> set ts" for n r c
  proof -
    have "r = None" using that(4) Cons.prems(3) by fastforce
    then show ?thesis using waits_in_vain_turn that drained_turn by blast
  qed
  ultimately obtain c1 where c1: "poll_set flow_finish ts c = (Ok None, c1)" "flow_inv c1" "waits_in_vain f c1"
    using poll_set_keeps [where P = ?P, OF Cons.prems(1)] by blast
  then show ?case
    using Cons.IH [OF c1(2,3)] Cons.prems(3) by (simp add: run_polls_def bindp_def)
qed

text \<open>
  C39: A caller that asks to wait for the acknowledgements when nothing is under way, or when it is
  blocked, is never told that they have come: the set of tasks reports that it is empty only when a
  task ends, and by then the last one has ended.
\<close>

theorem blocked_wait_never_ends:
  assumes "0 < window" and "flow_run ops (flow_controller_new window) = (Ok (), c)"
    and "flow_state c = FlowRunning blocked" and "blocked \<noteq> [] \<or> ack_sizes c = []"
    and "\<forall>t \<in> set (ack_sizes c). 0 < snd t" and "wait_all_acked c = (Ok f, c1)"
    and "\<forall>ts \<in> set tss. \<forall>t \<in> set ts. \<exists>n. t = Finishes n None"
  shows "\<exists>c'. run_polls flow_finish tss c1 = (Ok None, c') \<and> \<not> all_acked_seen f c'"
proof -
  note inv = reached_inv [OF assms(1,2)]
  have inv1: "flow_inv c1" using wait_within [OF inv assms(6)] by simp
  have idle: "blocked = []" if "ack_sizes c = []"
    using that inv assms(3) by (auto simp: flow_inv_def accounts_ok_def has_room_def)
  have num: "\<And>p. p \<in> set (woken c) \<union> set (set_fulfillers c) \<Longrightarrow> p < next_promise c"
    "\<And>p a. (p, a) \<in> set (flow_answers c) \<Longrightarrow> p < next_promise c"
    using inv by (auto simp: flow_inv_def numbers_ok_def)
  have "waits_in_vain f c1"
  proof (cases "ack_sizes c = []")
    case True
    then have "f = next_promise c" "c1 = on_empty f (c\<lparr>next_promise := next_promise c + 1\<rparr>)"
      using idle assms(3,6) by (auto simp: wait_all_acked_eq Let_def unblocked_def)
    with True assms(3) num show ?thesis
      by (auto simp: waits_in_vain_def on_empty_def unbounded_send_def)
  next
    case False
    with assms(3,4) have "\<not> unblocked c" by (simp add: unblocked_def)
    with assms(6) have f: "f = next_promise c" "empty_fulfiller c1 = Some f" "flow_state c1 = flow_state c"
      "ack_sizes c1 = ack_sizes c" "woken c1 = woken c" "set_fulfillers c1 = set_fulfillers c"
      by (auto simp: wait_all_acked_eq Let_def answer_all_def set_fulfillers_def split: option.splits)
    with False assms(3,5) num show ?thesis by (auto simp: waits_in_vain_def)
  qed
  then show ?thesis
    using waits_in_vain_polls [OF inv1 _ assms(7)] waits_in_vain_unseen by blast
qed

lemma blocked_wait_never_ends_witness:
  "\<exists>c f c1 c'. flow_run [FlowSend 5, FlowSend 7] (flow_controller_new 8) = (Ok (), c) \<and>
    wait_all_acked c = (Ok f, c1) \<and> run_polls flow_finish [acks [1, 0], [], acks [0]] c1 = (Ok None, c') \<and>
    \<not> all_acked_seen f c'"
proof -
  define c where "c = snd (flow_run [FlowSend 5, FlowSend 7] (flow_controller_new 8))"
  define w where "w = wait_all_acked c"
  have "flow_run [FlowSend 5, FlowSend 7] (flow_controller_new 8) = (Ok (), c)" "flow_state c = FlowRunning [1]"
    "ack_sizes c = [(0, 40), (1, 56)]" "fst w = Ok 2"
    unfolding w_def c_def by code_simp+
  moreover from this have "wait_all_acked c = (Ok 2, snd w)" by (metis w_def prod.collapse)
  ultimately show ?thesis using blocked_wait_never_ends [of 8 _ c "[1]" 2 "snd w" "[acks [1, 0], [], acks [0]]"] by fastforce
qed

end
