(* ===== verification/Spec2Isabelle.thy ===== *)
theory Spec2Isabelle
  imports Traversal Packed No_Alloc Message_Trip Byte_Channel Rpc_Defects Rpc_Targets Read_Stream Flow_Control
begin

text \<open>
  The program is the Rust implementation of Cap'n Proto: \<^verbatim>\<open>capnp\<close>, the library that reads
  and builds messages in place and puts them on the wire; \<^verbatim>\<open>capnp-futures\<close>, the same wire
  formats over asynchronous streams; \<^verbatim>\<open>capnp-rpc\<close>, the object-capability protocol between
  two processes; and \<^verbatim>\<open>async-byte-channel\<close>, an in-memory pipe. A message is a list of segments
  of words. A builder allocates objects in segments that an allocator provides and links them by
  pointers of 64 bits; a reader follows such pointers in memory that it does not trust, within a
  traversal limit and a nesting limit. Serializers move segments to byte streams and back. The RPC
  system exchanges such messages; each end keeps four tables of ids, and the ends stay consistent
  only because each keeps the rules about the lifetime of ids and references.

  \<^bold>\<open>Style.\<close> Code is a state-passing program \<open>('s, 'a) prog\<close> whose outcome is \<open>Ok\<close>,
  \<open>Err\<close> with the error of \<^verbatim>\<open>capnp/src/lib.rs\<close>, \<open>Panic\<close> (a failed assertion, an index out
  of range, a checked overflow) or \<open>UB\<close> (a raw pointer used outside of its memory). The state is
  also returned with a failure. Machine integers are words of their width; \<open>usize\<close> is \<open>nat\<close> with
  the tests that the code makes written out, on a target of 64 bits, and with a panic where a value
  that a caller may choose makes a sum or a product overflow (the offset of \<open>get_data_field\<close>, the
  window and the sizes of flow control), as in a build with overflow checks. The theory \<^verbatim>\<open>Prelude\<close>
  holds these, a weakest-precondition calculus, and lemmas about lists of bytes.

  \<^bold>\<open>Memory and pointers\<close> (\<^verbatim>\<open>capnp/src/private/\<close>).
  \<^item> \<^verbatim>\<open>Primitive\<close>: \<^verbatim>\<open>units.rs\<close>, \<^verbatim>\<open>primitive.rs\<close>, \<^verbatim>\<open>mask.rs\<close>; little-endian codecs and masks.
  \<^item> \<^verbatim>\<open>Wire_Pointer\<close>: the struct \<open>WirePointer\<close> of \<^verbatim>\<open>layout.rs\<close>, a 64-bit word with its fields.
  \<^item> \<^verbatim>\<open>Read_Limiter\<close>: \<^verbatim>\<open>read_limiter.rs\<close>, with the bound on the sum of what it accepts.
  \<^item> \<^verbatim>\<open>Allocator\<close>: the three allocators of \<^verbatim>\<open>message.rs\<close> behind the locale
    \<open>segment_allocator\<close>. What \<open>alloc_zeroed\<close> returns is zero and never null.
  \<^item> \<^verbatim>\<open>Arena\<close>: \<^verbatim>\<open>arena.rs\<close>, the reader and builder arenas. The record \<open>world\<close> holds both and
    the capability tables; a raw pointer is a segment and a byte offset.
  \<^item> \<^verbatim>\<open>Far_Pointers\<close>, \<^verbatim>\<open>Layout_Read\<close>, \<^verbatim>\<open>Read_Logic\<close>, \<^verbatim>\<open>Reader_Walk\<close>, \<^verbatim>\<open>Traversal\<close>,
    \<^verbatim>\<open>Canonical\<close>: the reading half of \<^verbatim>\<open>layout.rs\<close> (bounds checks, far pointers, the readers
    with all their accessors, \<open>total_size\<close>, \<open>is_canonical\<close>). \<open>Read_Logic\<close> treats a read as a
    program that changes nothing but the limiter. \<open>walk\<close> is the step relation of a client that asks
    for anything it likes, data fields at any offset below \<open>2 ^ 32\<close>; it never touches memory outside the
    message.
  \<^item> \<^verbatim>\<open>Builder_Memory\<close>, \<^verbatim>\<open>Layout_Alloc\<close>, \<^verbatim>\<open>Layout_Build\<close>, \<^verbatim>\<open>Layout_Builders\<close>,
    \<^verbatim>\<open>Build_Objects\<close>: the writing half, where nothing is checked. \<open>Layout_Alloc\<close> has
    \<open>allocate\<close>, \<open>zero_object\<close> and \<open>transfer_pointer\<close>; \<open>Build_Objects\<close> shows that what was set
    is found again by builders and readers, wherever it was put.

  \<^bold>\<open>Messages and wire formats\<close> (\<^verbatim>\<open>capnp/src/\<close>).
  \<^item> \<^verbatim>\<open>Stream_IO\<close>: \<^verbatim>\<open>io.rs\<close> with the contracts of streams as the locales \<open>reliable_read\<close> and
    \<open>reliable_write\<close>.
  \<^item> \<^verbatim>\<open>Serialize\<close>, \<^verbatim>\<open>No_Alloc\<close>: \<^verbatim>\<open>serialize.rs\<close> and \<^verbatim>\<open>serialize/no_alloc_buffer_segments.rs\<close>.
    Round trips through streams that deliver pieces of any sizes, agreement of the serializers and of
    the two parsers, and what the parsers do on arbitrary bytes.
  \<^item> \<^verbatim>\<open>Packed\<close>: \<^verbatim>\<open>serialize_packed.rs\<close>. \<open>PackedRead\<close> refines a decoder of flat byte strings;
    \<open>PackedWrite\<close> is its inverse.
  \<^item> \<^verbatim>\<open>Message\<close>, \<^verbatim>\<open>Message_Trip\<close>: \<^verbatim>\<open>message.rs\<close>; a text is followed from the builder through
    the serializer and the stream to a reader.
  \<^item> \<^verbatim>\<open>Byte_Channel\<close>: \<^verbatim>\<open>async-byte-channel/src/lib.rs\<close>; a queue, and free of deadlock.

  \<^bold>\<open>Asynchronous streams\<close> (\<^verbatim>\<open>capnp-futures/src/\<close>). Here a poll may be \<open>Pending\<close> anywhere.
  \<^item> \<^verbatim>\<open>Async_IO\<close>: polls, tasks that await them, and the contracts of sources and sinks as the
    locales \<open>async_source\<close> and \<open>async_sink\<close>, interpreted on streams that deliver any pieces with any
    waits and on the byte channel. Errors of streams have the kinds that \<^verbatim>\<open>lib.rs\<close> converts them to.
  \<^item> \<^verbatim>\<open>Async_Serialize\<close>: \<^verbatim>\<open>serialize.rs\<close>. It simulates the synchronous code.
  \<^item> \<^verbatim>\<open>Async_Packed\<close>, \<^verbatim>\<open>Async_Pack\<close>: the two state machines of \<^verbatim>\<open>serialize_packed.rs\<close>. The
    reader refines the decoder of \<open>Packed\<close>, the writer is its inverse on runs that fit their count.
  \<^item> \<^verbatim>\<open>Write_Queue\<close>, \<^verbatim>\<open>Read_Stream\<close>: \<^verbatim>\<open>write_queue.rs\<close>, \<^verbatim>\<open>read_stream.rs\<close> and the input of
    a connection in \<^verbatim>\<open>capnp-rpc/src/twoparty.rs\<close>: what one end sends the other receives, in order.

  \<^bold>\<open>The RPC system\<close> (\<^verbatim>\<open>capnp-rpc/src/rpc.rs\<close>).
  \<^item> \<^verbatim>\<open>Rpc_Tables\<close>: \<open>ExportTable\<close> with its heap of free ids (a bag, of which the least is taken), and
    the locale \<open>id_table\<close>.
  \<^item> \<^verbatim>\<open>Rpc_Connection\<close>: \<open>ConnectionState\<close> with its tables and every operation that changes them:
    sending calls, dropping the references to questions, imports and promises, completing calls,
    resolving promises, embargoes, disconnecting, and \<open>handle_message\<close> for each kind of message.
  \<^item> \<^verbatim>\<open>Rpc_Invariant\<close>: what every operation keeps, whatever the peer sends.
  \<^item> \<^verbatim>\<open>Rpc_Protocol\<close>, \<^verbatim>\<open>Rpc_Runs\<close>: two ends and the messages under way between them, as the
    step relation \<open>network_step\<close>; the configurations of a question id.
  \<^item> \<^verbatim>\<open>Rpc_Ledger\<close>, \<^verbatim>\<open>Rpc_Refcount\<close>, \<^verbatim>\<open>Rpc_Targets\<close>: how each operation moves references to
    exports, the balance of the books of two ends, and that imports and calls in flight are backed.
  \<^item> \<^verbatim>\<open>Rpc_Defects\<close>: runs that show where the code does not do what it means to.
  \<^item> \<^verbatim>\<open>Task_Set\<close>, \<^verbatim>\<open>Flow_Control\<close>: \<^verbatim>\<open>task_set.rs\<close> and \<^verbatim>\<open>flow_control.rs\<close>, the window of a
    streaming caller: it is respected (unless the sum of the window and the largest message overflows,
    which is a panic), it drains, and who waits for the last acknowledgement of a
    blocked stream waits for ever.

  The hooks that an application gives to a connection are views: an address, a brand, and what
  \<open>get_resolved\<close> and \<open>when_more_resolved\<close> say at that moment. Of a payload the capability
  descriptors are kept and the content is not. In \<open>network_step\<close> an end does anything that
  its interface lets it do (\<open>allowed\<close>: it uses references that it still holds) and messages arrive in
  order; a step in which the code reports an error to its caller is a step, a connection that was
  aborted or disconnected takes none. Tail calls to the peer are outside of the network model;
  single operations on a connection are not restricted.

  \<^bold>\<open>Bounds.\<close> \<open>zero_object\<close>, \<open>copy_struct\<close> and the setters that copy recurse on the content of
  a message; their first argument is the depth of the stack they may use, and running out of it is
  a panic. The properties about them either assume a tree of objects that is less deep, or hold for
  any depth. \<open>is_canonical\<close> recurses at most as deep as the nesting limit, which is an argument of the
  model for that reason. All other loops are structural or have a termination proof;
  \<open>poll_write_aux\<close>, \<open>finish_pending_writes\<close> and \<open>await\<close> may run for ever and are
  \<open>partial_function (option)\<close>, and that they return is part of the properties about them.

  \<^bold>\<open>Not modelled.\<close> The generated modules (\<^verbatim>\<open>schema_capnp.rs\<close>, \<^verbatim>\<open>rpc_capnp.rs\<close>,
  \<^verbatim>\<open>rpc_twoparty_capnp.rs\<close>) are accessor shells over the modelled readers and builders, the output of
  the compiler \<^verbatim>\<open>capnpc\<close>, which turns a schema into Rust text. The dynamic API and the
  stringifier dispatch on schema nodes, which are generated data. The local, queued and reconnecting
  clients, the queue of senders and the helpers of \<^verbatim>\<open>capnp-rpc\<close> are compositions of futures of third-party crates; the
  connection sees clients only through \<open>ClientHook\<close>. Conditional code for the features
  \<open>sync_reader\<close> and \<open>sgx\<close> is left out, and so are texts of errors.
\<close>

end
